(* ===== verification/Fai_Prelude.thy ===== *)
theory Fai_Prelude
  imports Main "HOL-Library.Monad_Syntax"
begin

text \<open>
  The vocabulary the component theories share: Rust's \<^verbatim>\<open>str\<close> as a list of Unicode scalar
  values together with its UTF-8 byte positions, \<^verbatim>\<open>u32\<close> conversions that can panic, and the
  generic list lemmas on positions that the span, lexer and layout theories use.

  A panic (a failed \<^verbatim>\<open>expect\<close>, an assertion, a slice off a character boundary) is the value
  \<open>None\<close> of an \<open>option\<close> unless a definition says otherwise.
\<close>

named_theorems text_simps \<open>byte positions of texts\<close>
named_theorems panic_simps \<open>panic-free evaluation of checked operations\<close>

section \<open>Text\<close>

type_synonym scalar = nat
type_synonym utext = "scalar list"

abbreviation ch :: "char \<Rightarrow> scalar" where
  "ch c \<equiv> of_char c"

definition str :: "string \<Rightarrow> utext" where
  "str s = map of_char s"

text \<open>The Unicode scalar values: every code point but the surrogates (\<^verbatim>\<open>char::from_u32\<close>).\<close>

definition is_scalar :: "nat \<Rightarrow> bool" where
  "is_scalar n \<longleftrightarrow> n < 0xD800 \<or> (0xE000 \<le> n \<and> n < 0x110000)"

definition char_from_u32 :: "nat \<Rightarrow> scalar option" where
  "char_from_u32 n = (if is_scalar n then Some n else None)"

definition len_utf8 :: "scalar \<Rightarrow> nat" where
  "len_utf8 c = (if c < 0x80 then 1 else if c < 0x800 then 2 else if c < 0x10000 then 3 else 4)"

definition utf8 :: "scalar \<Rightarrow> nat list" where
  "utf8 c =
     (if c < 0x80 then [c]
      else if c < 0x800 then [0xC0 + c div 64, 0x80 + c mod 64]
      else if c < 0x10000 then [0xE0 + c div 4096, 0x80 + c div 64 mod 64, 0x80 + c mod 64]
      else [0xF0 + c div 262144, 0x80 + c div 4096 mod 64, 0x80 + c div 64 mod 64, 0x80 + c mod 64])"

definition byte_len :: "utext \<Rightarrow> nat" where
  "byte_len t = sum_list (map len_utf8 t)"

definition str_bytes :: "utext \<Rightarrow> nat list" where
  "str_bytes t = concat (map utf8 t)"

text \<open>
  \<open>drop_bytes n t\<close> is \<^verbatim>\<open>&t[n..]\<close> and \<open>take_bytes n t\<close> is \<^verbatim>\<open>&t[..n]\<close> at a character
  boundary. Off a boundary Rust panics; there the two functions return the empty text, and
  \<open>char_boundary\<close> is what rules the case out.
\<close>

fun drop_bytes :: "nat \<Rightarrow> utext \<Rightarrow> utext" where
  "drop_bytes n [] = []"
| "drop_bytes n (c # cs) =
     (if n = 0 then c # cs else if len_utf8 c \<le> n then drop_bytes (n - len_utf8 c) cs else [])"

fun take_bytes :: "nat \<Rightarrow> utext \<Rightarrow> utext" where
  "take_bytes n [] = []"
| "take_bytes n (c # cs) =
     (if len_utf8 c \<le> n then c # take_bytes (n - len_utf8 c) cs else [])"

fun char_boundary :: "nat \<Rightarrow> utext \<Rightarrow> bool" where
  "char_boundary n [] \<longleftrightarrow> n = 0"
| "char_boundary n (c # cs) \<longleftrightarrow> n = 0 \<or> (len_utf8 c \<le> n \<and> char_boundary (n - len_utf8 c) cs)"

definition str_slice :: "nat \<Rightarrow> nat \<Rightarrow> utext \<Rightarrow> utext" where
  "str_slice a b t = take_bytes (b - a) (drop_bytes a t)"

definition str_from :: "nat \<Rightarrow> utext \<Rightarrow> utext option" where
  "str_from n t = (if char_boundary n t then Some (drop_bytes n t) else None)"

definition str_get :: "nat \<Rightarrow> nat \<Rightarrow> utext \<Rightarrow> utext option" where
  "str_get a b t =
     (if a \<le> b \<and> char_boundary a t \<and> char_boundary b t then Some (str_slice a b t) else None)"

section \<open>Checked 32-bit numbers\<close>

definition u32_max :: nat where
  "u32_max = 2 ^ 32 - 1"

definition u32_try_from :: "nat \<Rightarrow> nat option" where
  "u32_try_from n = (if n \<le> u32_max then Some n else None)"

definition u32_add :: "nat \<Rightarrow> nat \<Rightarrow> nat option" where
  "u32_add a b = u32_try_from (a + b)"

section \<open>Decimal numbers\<close>

fun show_nat :: "nat \<Rightarrow> string" where
  "show_nat n = (if n < 10 then [char_of (48 + n)] else show_nat (n div 10) @ [char_of (48 + n mod 10)])"

declare show_nat.simps [simp del]

section \<open>Lemmas on texts and byte positions\<close>

lemma len_utf8_pos [simp]: "0 < len_utf8 c"
  by (simp add: len_utf8_def)

lemma len_utf8_ge_1 [simp]: "Suc 0 \<le> len_utf8 c"
  by (simp add: len_utf8_def)

lemma len_utf8_neq_0 [simp]: "len_utf8 c \<noteq> 0"
  by (simp add: len_utf8_def)

lemma len_utf8_ascii [text_simps]: "c < 128 \<Longrightarrow> len_utf8 c = 1"
  by (simp add: len_utf8_def)

lemma length_utf8 [simp]: "length (utf8 c) = len_utf8 c"
  by (simp add: utf8_def len_utf8_def)

lemma byte_len_Nil [simp]: "byte_len [] = 0"
  by (simp add: byte_len_def)

lemma byte_len_Cons [simp]: "byte_len (c # cs) = len_utf8 c + byte_len cs"
  by (simp add: byte_len_def)

lemma byte_len_append [simp]: "byte_len (xs @ ys) = byte_len xs + byte_len ys"
  by (simp add: byte_len_def)

lemma byte_len_0_iff [simp]: "byte_len t = 0 \<longleftrightarrow> t = []"
  by (cases t) simp_all

lemma byte_len_pos_iff [simp]: "0 < byte_len t \<longleftrightarrow> t \<noteq> []"
  by (cases t) simp_all

lemma length_le_byte_len: "length t \<le> byte_len t"
proof (induction t)
  case (Cons c t)
  have "Suc (length t) \<le> len_utf8 c + byte_len t"
    using Cons.IH len_utf8_ge_1 [of c] by linarith
  then show ?case by simp
qed simp

lemma str_bytes_Nil [simp]: "str_bytes [] = []"
  by (simp add: str_bytes_def)

lemma str_bytes_Cons [simp]: "str_bytes (c # cs) = utf8 c @ str_bytes cs"
  by (simp add: str_bytes_def)

lemma str_bytes_append [simp]: "str_bytes (xs @ ys) = str_bytes xs @ str_bytes ys"
  by (simp add: str_bytes_def)

lemma length_str_bytes [simp]: "length (str_bytes t) = byte_len t"
  by (induction t) simp_all

lemma drop_bytes_0 [simp]: "drop_bytes 0 t = t"
  by (cases t) simp_all

lemma take_bytes_0 [simp]: "take_bytes 0 t = []"
  by (cases t) simp_all

lemma char_boundary_0 [simp]: "char_boundary 0 t"
  by (cases t) simp_all

lemma drop_bytes_append [simp]: "drop_bytes (byte_len xs) (xs @ ys) = ys"
  by (induction xs) simp_all

lemma drop_bytes_add [simp]: "drop_bytes (byte_len xs + n) (xs @ ys) = drop_bytes n ys"
  by (induction xs) (simp_all add: add.assoc)

lemma take_bytes_append [simp]: "take_bytes (byte_len xs) (xs @ ys) = xs"
  by (induction xs) simp_all

lemma drop_bytes_all [simp]: "drop_bytes (byte_len xs) xs = []"
  using drop_bytes_append [of xs "[]"] by simp

lemma take_bytes_all [simp]: "take_bytes (byte_len xs) xs = xs"
  using take_bytes_append [of xs "[]"] by simp

lemma char_boundary_iff: "char_boundary n t \<longleftrightarrow> (\<exists>xs ys. t = xs @ ys \<and> byte_len xs = n)"
proof (induction t arbitrary: n)
  case Nil
  then show ?case by auto
next
  case (Cons c cs)
  show ?case
  proof
    assume "char_boundary n (c # cs)"
    then consider "n = 0" | "len_utf8 c \<le> n" "char_boundary (n - len_utf8 c) cs" by auto
    then show "\<exists>xs ys. c # cs = xs @ ys \<and> byte_len xs = n"
    proof cases
      case 1
      then have "c # cs = [] @ (c # cs) \<and> byte_len [] = n" by simp
      then show ?thesis by blast
    next
      case 2
      then obtain xs ys where "cs = xs @ ys" "byte_len xs = n - len_utf8 c"
        using Cons.IH by blast
      with 2 have "c # cs = (c # xs) @ ys \<and> byte_len (c # xs) = n" by simp
      then show ?thesis by blast
    qed
  next
    assume "\<exists>xs ys. c # cs = xs @ ys \<and> byte_len xs = n"
    then obtain xs ys where eq: "c # cs = xs @ ys" and n: "byte_len xs = n" by blast
    show "char_boundary n (c # cs)"
    proof (cases xs)
      case Nil
      with n show ?thesis by simp
    next
      case (Cons d ds)
      with eq have "d = c" "cs = ds @ ys" by simp_all
      with Cons n Cons.IH [of "n - len_utf8 c"] show ?thesis by auto
    qed
  qed
qed

lemma char_boundary_append [simp]: "char_boundary (byte_len xs) (xs @ ys)"
  unfolding char_boundary_iff by blast

lemma char_boundary_end [simp]: "char_boundary (byte_len xs) xs"
  using char_boundary_append [of xs "[]"] by simp

lemma char_boundaryE:
  assumes "char_boundary n t"
  obtains xs ys where "t = xs @ ys" and "byte_len xs = n" and "drop_bytes n t = ys"
    and "take_bytes n t = xs"
proof -
  from assms obtain xs ys where "t = xs @ ys" "byte_len xs = n"
    unfolding char_boundary_iff by blast
  then show thesis by (intro that [of xs ys]) auto
qed

lemma char_boundary_le: "char_boundary n t \<Longrightarrow> n \<le> byte_len t"
  by (auto elim: char_boundaryE)

lemma byte_len_drop_bytes: "char_boundary n t \<Longrightarrow> byte_len (drop_bytes n t) = byte_len t - n"
  by (auto elim: char_boundaryE)

lemma byte_len_take_bytes: "char_boundary n t \<Longrightarrow> byte_len (take_bytes n t) = n"
  by (auto elim: char_boundaryE)

lemma take_drop_bytes: "char_boundary n t \<Longrightarrow> take_bytes n t @ drop_bytes n t = t"
  by (auto elim: char_boundaryE)

lemma str_slice_append [simp]: "str_slice (byte_len xs) (byte_len xs + byte_len ys) (xs @ ys @ zs) = ys"
  by (simp add: str_slice_def)

lemma str_from_Some [simp]: "char_boundary n t \<Longrightarrow> str_from n t = Some (drop_bytes n t)"
  by (simp add: str_from_def)

lemma u32_try_from_Some_iff: "u32_try_from n = Some m \<longleftrightarrow> m = n \<and> n \<le> u32_max"
  by (auto simp: u32_try_from_def)

lemma u32_try_from_le [panic_simps]: "n \<le> u32_max \<Longrightarrow> u32_try_from n = Some n"
  by (simp add: u32_try_from_def)

lemma u32_add_le [panic_simps]: "a + b \<le> u32_max \<Longrightarrow> u32_add a b = Some (a + b)"
  by (simp add: u32_add_def u32_try_from_def)

section \<open>Results\<close>

text \<open>
  \<^verbatim>\<open>Result<T, E>\<close> as a sum with the error on the left, the operator \<^verbatim>\<open>?\<close> as \<open>and_then\<close>, and a loop
  over a list that stops at the first error.
\<close>

definition and_then :: "'e + 'a \<Rightarrow> ('a \<Rightarrow> 'e + 'b) \<Rightarrow> 'e + 'b" where
  "and_then r f = (case r of Inl e \<Rightarrow> Inl e | Inr a \<Rightarrow> f a)"

fun try_fold :: "('a \<Rightarrow> 's \<Rightarrow> 'e + 's) \<Rightarrow> 'a list \<Rightarrow> 's \<Rightarrow> 'e + 's" where
  "try_fold f [] s = Inr s"
| "try_fold f (x # xs) s = and_then (f x s) (try_fold f xs)"

lemma and_then_simps [simp]: "and_then (Inl e) f = Inl e" "and_then (Inr a) f = f a"
  by (simp_all add: and_then_def)

lemma and_then_Inr [simp]: "and_then r f = Inr b \<longleftrightarrow> (\<exists>a. r = Inr a \<and> f a = Inr b)"
  by (cases r) simp_all

lemma and_then_cong [fundef_cong]:
  "r = r' \<Longrightarrow> (\<And>a. r' = Inr a \<Longrightarrow> f a = g a) \<Longrightarrow> and_then r f = and_then r' g"
  by (cases r') simp_all

lemma try_fold_cong [fundef_cong]:
  assumes "xs = ys" "s = t" "\<And>x s. x \<in> set ys \<Longrightarrow> f x s = g x s"
  shows "try_fold f xs s = try_fold g ys t"
  unfolding assms(1,2) using assms(3) by (induction ys arbitrary: t) (simp_all cong: and_then_cong)

lemma try_fold_append: "try_fold f (xs @ ys) s = and_then (try_fold f xs s) (try_fold f ys)"
proof (induction xs arbitrary: s)
  case (Cons x xs)
  then show ?case by (cases "f x s") simp_all
qed simp

end
