(* ===== verification/Fai_Span.thy ===== *)
theory Fai_Span
  imports Fai_Prelude
begin

text \<open>
  The crate \<^verbatim>\<open>fai-span\<close>: byte offsets and ranges (\<^verbatim>\<open>span.rs\<close>), the line index that maps a
  byte offset to a line and column and back (\<^verbatim>\<open>line.rs\<close>), the source registry
  (\<^verbatim>\<open>source_map.rs\<close>) and the \<^verbatim>\<open>SpanResolver\<close> trait (\<^verbatim>\<open>resolver.rs\<close>), which is a locale.
  Offsets are natural numbers; every conversion the code checks against \<^verbatim>\<open>u32\<close> is checked here
  (\<open>ByteOffset_from_usize\<close>), and a failed check is the outcome \<open>None\<close>.
\<close>

section \<open>Offsets, ranges and spans (\<^verbatim>\<open>span.rs\<close>)\<close>

type_synonym 'a outcome = "'a option"
type_synonym source_id = nat
type_synonym byte_offset = nat

definition ByteOffset_from_usize :: "nat \<Rightarrow> byte_offset outcome" where
  "ByteOffset_from_usize value = u32_try_from value"

record text_range =
  tr_start :: byte_offset
  tr_end :: byte_offset

definition TextRange_new :: "byte_offset \<Rightarrow> byte_offset \<Rightarrow> text_range outcome" where
  "TextRange_new s e = (if s \<le> e then Some \<lparr>tr_start = s, tr_end = e\<rparr> else None)"

definition TextRange_empty :: "byte_offset \<Rightarrow> text_range" where
  "TextRange_empty offset = \<lparr>tr_start = offset, tr_end = offset\<rparr>"

definition TextRange_len :: "text_range \<Rightarrow> nat" where
  "TextRange_len r = tr_end r - tr_start r"

definition TextRange_is_empty :: "text_range \<Rightarrow> bool" where
  "TextRange_is_empty r \<longleftrightarrow> tr_start r = tr_end r"

definition TextRange_contains :: "text_range \<Rightarrow> byte_offset \<Rightarrow> bool" where
  "TextRange_contains r offset \<longleftrightarrow> tr_start r \<le> offset \<and> offset < tr_end r"

record span =
  sp_source :: source_id
  sp_range :: text_range

definition Span_new :: "source_id \<Rightarrow> text_range \<Rightarrow> span" where
  "Span_new src rng = \<lparr>sp_source = src, sp_range = rng\<rparr>"

definition Span_start :: "span \<Rightarrow> byte_offset" where
  "Span_start s = tr_start (sp_range s)"

definition Span_end :: "span \<Rightarrow> byte_offset" where
  "Span_end s = tr_end (sp_range s)"

section \<open>Line and column mapping (\<^verbatim>\<open>line.rs\<close>)\<close>

record line_col =
  lc_line :: nat
  lc_column :: nat

record line_index =
  li_line_starts :: "nat list"
  li_len :: nat

text \<open>The scan of \<^verbatim>\<open>LineIndex::new\<close> over \<^verbatim>\<open>text.bytes().enumerate()\<close>.\<close>

fun newline_starts :: "nat \<Rightarrow> nat list \<Rightarrow> nat list outcome" where
  "newline_starts i [] = Some []"
| "newline_starts i (b # bs) =
     (if b = 10
      then do { s \<leftarrow> ByteOffset_from_usize (i + 1); ss \<leftarrow> newline_starts (i + 1) bs; Some (s # ss) }
      else newline_starts (i + 1) bs)"

definition LineIndex_new :: "utext \<Rightarrow> line_index outcome" where
  "LineIndex_new t = do {
     starts \<leftarrow> newline_starts 0 (str_bytes t);
     n \<leftarrow> ByteOffset_from_usize (byte_len t);
     Some \<lparr>li_line_starts = 0 # starts, li_len = n\<rparr> }"

definition LineIndex_from_line_starts :: "nat list \<Rightarrow> nat \<Rightarrow> line_index" where
  "LineIndex_from_line_starts starts n = \<lparr>li_line_starts = starts, li_len = n\<rparr>"

definition LineIndex_line_count :: "line_index \<Rightarrow> nat outcome" where
  "LineIndex_line_count li = ByteOffset_from_usize (length (li_line_starts li))"

text \<open>
  \<^verbatim>\<open>slice::binary_search\<close> on a sorted slice without duplicates: \<open>Inr i\<close> is \<^verbatim>\<open>Ok(i)\<close>, \<open>Inl i\<close> is
  \<^verbatim>\<open>Err(i)\<close> with the insertion point.
\<close>

definition binary_search :: "nat list \<Rightarrow> nat \<Rightarrow> nat + nat" where
  "binary_search xs x =
     (let i = length (takeWhile (\<lambda>y. y < x) xs)
      in if i < length xs \<and> xs ! i = x then Inr i else Inl i)"

definition LineIndex_line_ix :: "line_index \<Rightarrow> byte_offset \<Rightarrow> nat outcome" where
  "LineIndex_line_ix li off =
     (case binary_search (li_line_starts li) off of
        Inr exact \<Rightarrow> Some exact
      | Inl insertion \<Rightarrow> if insertion = 0 then None else Some (insertion - 1))"

definition LineIndex_line :: "line_index \<Rightarrow> byte_offset \<Rightarrow> nat outcome" where
  "LineIndex_line li off = do {
     l \<leftarrow> LineIndex_line_ix li (min off (li_len li));
     r \<leftarrow> ByteOffset_from_usize l;
     u32_add r 1 }"

text \<open>The column loop: the characters of the text from byte position \<open>p\<close> that start before \<open>target\<close>.\<close>

fun count_columns :: "nat \<Rightarrow> nat \<Rightarrow> utext \<Rightarrow> nat" where
  "count_columns p target [] = 0"
| "count_columns p target (c # cs) =
     (if target \<le> p then 0 else Suc (count_columns (p + len_utf8 c) target cs))"

definition LineIndex_line_col :: "line_index \<Rightarrow> utext \<Rightarrow> byte_offset \<Rightarrow> line_col outcome" where
  "LineIndex_line_col li t off0 = do {
     let off = min off0 (li_len li);
     l \<leftarrow> LineIndex_line_ix li off;
     let line_start = li_line_starts li ! l;
     rest \<leftarrow> str_from line_start t;
     let column = count_columns line_start off rest;
     r \<leftarrow> ByteOffset_from_usize l;
     line \<leftarrow> u32_add r 1;
     col \<leftarrow> u32_add column 1;
     Some \<lparr>lc_line = line, lc_column = col\<rparr> }"

text \<open>The byte offsets of \<^verbatim>\<open>char_indices\<close> followed by the text's length.\<close>

fun char_offsets :: "nat \<Rightarrow> utext \<Rightarrow> nat list" where
  "char_offsets p [] = [p]"
| "char_offsets p (c # cs) = p # char_offsets (p + len_utf8 c) cs"

definition list_get :: "'a list \<Rightarrow> nat \<Rightarrow> 'a option" where
  "list_get xs i = (if i < length xs then Some (xs ! i) else None)"

text \<open>
  \<^verbatim>\<open>LineIndex::offset\<close>: the outer \<open>None\<close> is a panic of \<^verbatim>\<open>from_usize\<close>, the inner one the
  \<^verbatim>\<open>None\<close> the function returns for a position outside the text.
\<close>

definition LineIndex_offset :: "line_index \<Rightarrow> utext \<Rightarrow> line_col \<Rightarrow> byte_offset option outcome" where
  "LineIndex_offset li t p =
     (if lc_line p = 0 \<or> lc_column p = 0 then Some None else
      case list_get (li_line_starts li) (lc_line p - 1) of
        None \<Rightarrow> Some None
      | Some start \<Rightarrow>
          (let stop = (case list_get (li_line_starts li) (lc_line p - 1 + 1) of
                         None \<Rightarrow> li_len li | Some nxt \<Rightarrow> nxt - 1)
           in case str_get start stop t of
                None \<Rightarrow> Some None
              | Some seg \<Rightarrow>
                  (case list_get (char_offsets 0 seg) (lc_column p - 1) of
                     None \<Rightarrow> Some None
                   | Some k \<Rightarrow> do { off \<leftarrow> ByteOffset_from_usize (start + k); Some (Some off) })))"

section \<open>The source registry (\<^verbatim>\<open>source_map.rs\<close>)\<close>

type_synonym path = string

record source_file =
  sf_path :: path
  sf_text :: utext
  sf_line_index :: line_index

record source_map =
  sm_files :: "source_file list"
  sm_by_path :: "path \<Rightarrow> source_id option"

definition SourceMap_new :: source_map where
  "SourceMap_new = \<lparr>sm_files = [], sm_by_path = (\<lambda>_. None)\<rparr>"

definition SourceMap_add :: "source_map \<Rightarrow> path \<Rightarrow> utext \<Rightarrow> (source_map \<times> source_id) outcome" where
  "SourceMap_add m p t = do {
     li \<leftarrow> LineIndex_new t;
     let file = \<lparr>sf_path = p, sf_text = t, sf_line_index = li\<rparr>;
     case sm_by_path m p of
       Some i \<Rightarrow>
         if i < length (sm_files m) then Some (m\<lparr>sm_files := (sm_files m)[i := file]\<rparr>, i) else None
     | None \<Rightarrow> do {
         i \<leftarrow> ByteOffset_from_usize (length (sm_files m));
         Some (m\<lparr>sm_by_path := (sm_by_path m)(p \<mapsto> i), sm_files := sm_files m @ [file]\<rparr>, i) } }"

definition SourceMap_source_id :: "source_map \<Rightarrow> path \<Rightarrow> source_id option" where
  "SourceMap_source_id m p = sm_by_path m p"

definition SourceMap_path :: "source_map \<Rightarrow> source_id \<Rightarrow> path option" where
  "SourceMap_path m i = map_option sf_path (list_get (sm_files m) i)"

definition SourceMap_text :: "source_map \<Rightarrow> source_id \<Rightarrow> utext option" where
  "SourceMap_text m i = map_option sf_text (list_get (sm_files m) i)"

definition SourceMap_line_index :: "source_map \<Rightarrow> source_id \<Rightarrow> line_index option" where
  "SourceMap_line_index m i = map_option sf_line_index (list_get (sm_files m) i)"

definition SourceMap_line_col :: "source_map \<Rightarrow> source_id \<Rightarrow> byte_offset \<Rightarrow> line_col option outcome" where
  "SourceMap_line_col m i off =
     (case list_get (sm_files m) i of
        None \<Rightarrow> Some None
      | Some f \<Rightarrow> map_option Some (LineIndex_line_col (sf_line_index f) (sf_text f) off))"

record resolved_span =
  rs_path :: path
  rs_start :: line_col
  rs_end :: line_col
  rs_byte_start :: nat
  rs_byte_end :: nat

definition SourceMap_resolve :: "source_map \<Rightarrow> span \<Rightarrow> resolved_span option outcome" where
  "SourceMap_resolve m s =
     (case list_get (sm_files m) (sp_source s) of
        None \<Rightarrow> Some None
      | Some f \<Rightarrow> do {
          st \<leftarrow> LineIndex_line_col (sf_line_index f) (sf_text f) (Span_start s);
          en \<leftarrow> LineIndex_line_col (sf_line_index f) (sf_text f) (Span_end s);
          Some (Some \<lparr>rs_path = sf_path f, rs_start = st, rs_end = en,
                     rs_byte_start = Span_start s, rs_byte_end = Span_end s\<rparr>) })"


section \<open>Reference semantics of a position\<close>

text \<open>
  The position reached after reading the text \<open>xs\<close>: one line per newline read, one column per
  character since the last newline.
\<close>

definition position_after :: "utext \<Rightarrow> line_col" where
  "position_after xs = \<lparr>lc_line = count_list xs 10 + 1,
                       lc_column = length (takeWhile (\<lambda>c. c \<noteq> 10) (rev xs)) + 1\<rparr>"

definition lc_less_eq :: "line_col \<Rightarrow> line_col \<Rightarrow> bool" where
  "lc_less_eq p q \<longleftrightarrow> lc_line p < lc_line q \<or> (lc_line p = lc_line q \<and> lc_column p \<le> lc_column q)"

fun nl_starts :: "nat \<Rightarrow> utext \<Rightarrow> nat list" where
  "nl_starts p [] = []"
| "nl_starts p (c # cs) = (if c = 10 then (p + 1) # nl_starts (p + 1) cs else nl_starts (p + len_utf8 c) cs)"

section \<open>Line starts\<close>

lemma utf8_newline: "10 \<in> set (utf8 c) \<longleftrightarrow> c = 10"
  by (auto simp: utf8_def)

lemma len_utf8_newline [simp]: "len_utf8 10 = Suc 0" "len_utf8 0 = Suc 0"
  by (simp_all add: len_utf8_def)

lemma utf8_newline_eq [simp]: "utf8 10 = [10]"
  by (simp add: utf8_def)

lemma newline_starts_skip: "10 \<notin> set bs \<Longrightarrow> newline_starts i (bs @ cs) = newline_starts (i + length bs) cs"
  by (induction bs arbitrary: i) auto

lemma newline_starts_str_bytes:
  "p + byte_len t \<le> u32_max \<Longrightarrow> newline_starts p (str_bytes t) = Some (nl_starts p t)"
proof (induction t arbitrary: p)
  case (Cons c cs)
  show ?case
  proof (cases "c = 10")
    case True
    with Cons show ?thesis
      by (simp add: ByteOffset_from_usize_def u32_try_from_le)
  next
    case False
    with Cons show ?thesis
      by (simp add: newline_starts_skip utf8_newline add.assoc)
  qed
qed simp

lemma LineIndex_new_eq:
  assumes "byte_len t \<le> u32_max"
  shows "LineIndex_new t = Some \<lparr>li_line_starts = 0 # nl_starts 0 t, li_len = byte_len t\<rparr>"
  using newline_starts_str_bytes [of 0 t] assms
  by (simp add: LineIndex_new_def ByteOffset_from_usize_def u32_try_from_le)

lemma LineIndex_new_None: "u32_max < byte_len t \<Longrightarrow> LineIndex_new t = None"
  by (cases "newline_starts 0 (str_bytes t)")
    (simp_all add: LineIndex_new_def ByteOffset_from_usize_def u32_try_from_def)

lemma LineIndex_new_SomeD:
  assumes "LineIndex_new t = Some li"
  shows "byte_len t \<le> u32_max" and "li = \<lparr>li_line_starts = 0 # nl_starts 0 t, li_len = byte_len t\<rparr>"
proof -
  from assms LineIndex_new_None [of t] show "byte_len t \<le> u32_max"
    by (metis not_le_imp_less option.distinct(1))
  then show "li = \<lparr>li_line_starts = 0 # nl_starts 0 t, li_len = byte_len t\<rparr>"
    using assms by (simp add: LineIndex_new_eq)
qed

lemma nl_starts_append: "nl_starts p (xs @ ys) = nl_starts p xs @ nl_starts (p + byte_len xs) ys"
  by (induction xs arbitrary: p) (auto simp: add.assoc)

lemma nl_starts_bounds: "s \<in> set (nl_starts p t) \<Longrightarrow> p < s \<and> s \<le> p + byte_len t"
proof (induction t arbitrary: p)
  case (Cons c cs)
  show ?case
  proof (cases "c = 10")
    case True
    with Cons.prems consider "s = p + 1" | "s \<in> set (nl_starts (p + 1) cs)" by auto
    then show ?thesis
    proof cases
      case 2
      then have "p + 1 < s \<and> s \<le> p + 1 + byte_len cs" by (rule Cons.IH)
      with True show ?thesis by simp
    qed (simp add: True)
  next
    case False
    with Cons.prems Cons.IH [of "p + len_utf8 c"] show ?thesis by auto
  qed
qed simp

lemma length_nl_starts [simp]: "length (nl_starts p t) = count_list t 10"
  by (induction t arbitrary: p) auto

lemma takeWhile_less_nl_starts:
  "takeWhile (\<lambda>y. y < p + byte_len xs) (nl_starts p xs) =
     (if xs \<noteq> [] \<and> last xs = 10 then butlast (nl_starts p xs) else nl_starts p xs)"
proof (cases "xs \<noteq> [] \<and> last xs = 10")
  case True
  then obtain us where us: "xs = us @ [10]" by (metis append_butlast_last_id)
  have "\<forall>y \<in> set (nl_starts p us). y < p + byte_len xs"
    using nl_starts_bounds [of _ p us] us by (fastforce simp: less_Suc_eq_le)
  then show ?thesis
    using us by (simp add: nl_starts_append takeWhile_append)
next
  case False
  have "\<forall>y \<in> set (nl_starts p xs). y < p + byte_len xs"
  proof (cases "xs = []")
    case False
    with \<open>\<not> (xs \<noteq> [] \<and> last xs = 10)\<close> obtain us c where xs: "xs = us @ [c]" "c \<noteq> 10"
      by (metis append_butlast_last_id)
    have "y < p + byte_len xs" if "y \<in> set (nl_starts p xs)" for y
    proof -
      from that xs have "y \<in> set (nl_starts p us)" by (simp add: nl_starts_append)
      then have "y \<le> p + byte_len us" by (simp add: nl_starts_bounds)
      moreover have "byte_len us < byte_len xs" using xs by simp
      ultimately show ?thesis by linarith
    qed
    then show ?thesis by blast
  qed simp
  with False show ?thesis by (auto simp: takeWhile_eq_all_conv)
qed

section \<open>From offsets to positions\<close>

lemma takeWhile_less_nl_starts0:
  assumes "xs \<noteq> []"
  shows "takeWhile (\<lambda>y. y < byte_len xs) (0 # nl_starts 0 (xs @ ys)) =
     (if last xs = 10 then butlast (0 # nl_starts 0 xs) else 0 # nl_starts 0 xs)"
proof -
  have tl: "takeWhile (\<lambda>y. y < byte_len xs) (nl_starts (byte_len xs) ys) = []"
    using nl_starts_bounds [of _ "byte_len xs" ys]
    by (cases "nl_starts (byte_len xs) ys") (auto, metis list.set_intros(1) not_less_iff_gr_or_eq)
  have pos: "0 < byte_len xs" using assms by simp
  have eq: "takeWhile (\<lambda>y. y < byte_len xs) (nl_starts 0 xs) =
      (if last xs = 10 then butlast (nl_starts 0 xs) else nl_starts 0 xs)"
    using takeWhile_less_nl_starts [of 0 xs] assms by simp
  show ?thesis
  proof (cases "last xs = 10")
    case True
    then obtain us where us: "xs = us @ [10]" using assms by (metis append_butlast_last_id)
    have "\<forall>y \<in> set (nl_starts 0 us). y < byte_len xs"
      using nl_starts_bounds [of _ 0 us] us by (fastforce simp: less_Suc_eq_le)
    then show ?thesis
      using us by (simp add: nl_starts_append takeWhile_append)
  next
    case False
    then have "takeWhile (\<lambda>y. y < byte_len xs) (nl_starts 0 xs) = nl_starts 0 xs"
      using eq by simp
    then have "\<forall>y \<in> set (nl_starts 0 xs). y < byte_len xs"
      by (metis takeWhile_eq_all_conv)
    then show ?thesis
      using False pos tl by (simp add: nl_starts_append takeWhile_append)
  qed
qed

lemma line_ix_nl_starts:
  "LineIndex_line_ix \<lparr>li_line_starts = 0 # nl_starts 0 (xs @ ys), li_len = n\<rparr> (byte_len xs) =
     Some (count_list xs 10)"
proof (cases "xs = []")
  case True
  then show ?thesis by (simp add: LineIndex_line_ix_def binary_search_def)
next
  case False
  show ?thesis
  proof (cases "last xs = 10")
    case True
    then obtain us where us: "xs = us @ [10]" using False by (metis append_butlast_last_id)
    then show ?thesis
      using True takeWhile_less_nl_starts0 [OF False, of ys]
      by (auto simp: LineIndex_line_ix_def binary_search_def nl_starts_append nth_append)
  next
    case nl: False
    have "nth (0 # nl_starts 0 (xs @ ys)) (Suc (count_list xs 10)) \<noteq> byte_len xs"
      if "Suc (count_list xs 10) < length (0 # nl_starts 0 (xs @ ys))"
    proof -
      from that have "nl_starts 0 (xs @ ys) ! count_list xs 10 \<in> set (nl_starts (byte_len xs) ys)"
        by (simp add: nl_starts_append nth_append)
      then have "byte_len xs < nl_starts 0 (xs @ ys) ! count_list xs 10"
        using nl_starts_bounds by blast
      then show ?thesis by simp
    qed
    then show ?thesis
      using nl takeWhile_less_nl_starts0 [OF False, of ys]
      by (auto simp: LineIndex_line_ix_def binary_search_def)
  qed
qed

text \<open>The text read so far is its complete lines followed by the part of the current line.\<close>

lemma split_last_line:
  obtains us vs where "xs = us @ vs" and "10 \<notin> set vs" and "us = [] \<or> last us = 10"
    and "length vs = length (takeWhile (\<lambda>c. c \<noteq> 10) (rev xs))"
    and "count_list us 10 = count_list xs 10"
proof -
  let ?vs = "rev (takeWhile (\<lambda>c. c \<noteq> 10) (rev xs))"
  let ?us = "rev (dropWhile (\<lambda>c. c \<noteq> 10) (rev xs))"
  have eq: "xs = ?us @ ?vs"
    by (metis rev_append rev_rev_ident takeWhile_dropWhile_id)
  have nn: "10 \<notin> set ?vs" using set_takeWhileD by fastforce
  have "?us = [] \<or> last ?us = 10"
  proof (cases "dropWhile (\<lambda>c. c \<noteq> 10) (rev xs)")
    case (Cons a list)
    then have "a = 10" using hd_dropWhile [of "\<lambda>c. c \<noteq> 10" "rev xs"] by auto
    with Cons show ?thesis by simp
  qed simp
  moreover have "count_list ?us 10 = count_list xs 10"
  proof -
    have "count_list xs 10 = count_list ?us 10 + count_list ?vs 10"
      using eq by (metis count_list_append)
    moreover have "count_list ?vs 10 = 0" using nn by (simp add: count_list_0_iff)
    ultimately show ?thesis by simp
  qed
  ultimately show thesis using eq nn by (intro that [of ?us ?vs]) simp_all
qed

lemma last_nl_start:
  assumes "us = [] \<or> last us = 10"
  shows "(0 # nl_starts 0 (us @ vs)) ! count_list us 10 = byte_len us"
proof (cases "us = []")
  case False
  with assms obtain ws where "us = ws @ [10]" by (metis append_butlast_last_id)
  then show ?thesis by (simp add: nl_starts_append nth_append)
qed simp

lemma count_columns_append:
  "count_columns p (p + byte_len vs) (vs @ ys) = length vs"
proof (induction vs arbitrary: p)
  case Nil
  then show ?case by (cases ys) simp_all
next
  case (Cons c vs)
  from Cons [of "p + len_utf8 c"] show ?case by (simp add: add.assoc)
qed

lemma count_list_le_byte_len: "count_list xs c \<le> byte_len xs"
  using count_le_length [of xs c] length_le_byte_len [of xs] by linarith

lemma line_col_position_after:
  assumes small: "byte_len (xs @ ys) < u32_max" and li: "LineIndex_new (xs @ ys) = Some li"
  shows "LineIndex_line_col li (xs @ ys) (byte_len xs) = Some (position_after xs)"
proof -
  obtain us vs where s: "xs = us @ vs" "10 \<notin> set vs" "us = [] \<or> last us = 10"
    "length vs = length (takeWhile (\<lambda>c. c \<noteq> 10) (rev xs))"
    "count_list us 10 = count_list xs 10"
    using split_last_line [of xs] by metis
  from li small have li': "li = \<lparr>li_line_starts = 0 # nl_starts 0 (xs @ ys), li_len = byte_len (xs @ ys)\<rparr>"
    by (simp add: LineIndex_new_eq)
  have start: "(0 # nl_starts 0 (xs @ ys)) ! count_list xs 10 = byte_len us"
    using last_nl_start [OF s(3), of "vs @ ys"]
    by (simp only: s(5) append_assoc [symmetric] s(1) [symmetric])
  have cols: "count_columns (byte_len us) (byte_len xs) (vs @ ys) = length vs"
    using count_columns_append [of "byte_len us" vs ys] s(1) by simp
  have rest: "str_from (byte_len us) (xs @ ys) = Some (vs @ ys)"
    using s(1) by (simp add: str_from_def)
  have b1: "count_list xs 10 + 1 \<le> u32_max"
    using count_list_le_byte_len [of xs 10] small by simp
  have "length vs \<le> byte_len xs" using length_le_byte_len [of vs] s(1) by simp
  then have b2: "length vs + 1 \<le> u32_max" using small by simp
  have ix: "LineIndex_line_ix li (byte_len xs) = Some (count_list xs 10)"
    unfolding li' by (rule line_ix_nl_starts)
  have m: "min (byte_len xs) (li_len li) = byte_len xs" by (simp add: li')
  have st: "li_line_starts li ! count_list xs 10 = byte_len us" using start by (simp add: li')
  have a1: "ByteOffset_from_usize (count_list xs 10) = Some (count_list xs 10)"
    using b1 by (simp add: ByteOffset_from_usize_def u32_try_from_le)
  have a2: "u32_add (count_list xs 10) 1 = Some (count_list xs 10 + 1)"
    using b1 by (rule u32_add_le)
  have a3: "u32_add (length vs) 1 = Some (length vs + 1)"
    using b2 by (rule u32_add_le)
  show ?thesis
    unfolding LineIndex_line_col_def Let_def m ix st position_after_def s(4) [symmetric]
    by (simp add: st rest cols a1 a2 a3 del: One_nat_def)
qed


section \<open>From positions back to offsets\<close>

lemma length_char_offsets [simp]: "length (char_offsets p t) = Suc (length t)"
  by (induction t arbitrary: p) simp_all

lemma nth_char_offsets: "k \<le> length t \<Longrightarrow> char_offsets p t ! k = p + byte_len (take k t)"
proof (induction t arbitrary: p k)
  case (Cons c t)
  then show ?case by (cases k) (simp_all add: add.assoc)
qed simp

lemma nl_starts_Cons_head:
  "nl_starts p vs = (if 10 \<in> set vs
     then (p + byte_len (takeWhile (\<lambda>c. c \<noteq> 10) vs) + 1) #
          nl_starts (p + byte_len (takeWhile (\<lambda>c. c \<noteq> 10) vs) + 1) (tl (dropWhile (\<lambda>c. c \<noteq> 10) vs))
     else [])"
  by (induction vs arbitrary: p) (auto simp: add.assoc)

text \<open>
  What \<^verbatim>\<open>offset\<close> slices: the line that starts after \<open>us\<close>, without its newline.
\<close>

lemma line_segment:
  fixes us vs :: utext
  assumes "us = [] \<or> last us = 10"
  defines "starts \<equiv> 0 # nl_starts 0 (us @ vs)"
  defines "stop \<equiv> (case list_get starts (count_list us 10 + 1) of
                     None \<Rightarrow> byte_len (us @ vs) | Some nxt \<Rightarrow> nxt - 1)"
  shows "list_get starts (count_list us 10) = Some (byte_len us)"
    and "str_get (byte_len us) stop (us @ vs) = Some (takeWhile (\<lambda>c. c \<noteq> 10) vs)"
proof -
  show "list_get starts (count_list us 10) = Some (byte_len us)"
    using last_nl_start [OF assms(1), of vs] by (simp add: starts_def list_get_def)
  let ?seg = "takeWhile (\<lambda>c. c \<noteq> 10) vs"
  have "list_get starts (count_list us 10 + 1) =
      (if 10 \<in> set vs then Some (byte_len us + byte_len ?seg + 1) else None)"
    using nl_starts_Cons_head [of "byte_len us" vs]
    by (auto simp: starts_def list_get_def nl_starts_append nth_append count_list_0_iff)
  moreover have "10 \<notin> set vs \<Longrightarrow> byte_len ?seg = byte_len vs"
    by (metis (mono_tags, lifting) takeWhile_eq_all_conv)
  ultimately have stop: "stop = byte_len us + byte_len ?seg"
    by (auto simp: stop_def)
  have split: "us @ vs = us @ ?seg @ dropWhile (\<lambda>c. c \<noteq> 10) vs" by simp
  have "char_boundary stop (us @ vs)"
    unfolding stop split using char_boundary_append [of "us @ ?seg"] by (metis append_assoc byte_len_append)
  moreover have "str_slice (byte_len us) stop (us @ vs) = ?seg"
    unfolding stop by (subst split, rule str_slice_append)
  ultimately show "str_get (byte_len us) stop (us @ vs) = Some ?seg"
    by (simp add: str_get_def stop)
qed

lemma takeWhile_append_newline_free:
  "10 \<notin> set vs \<Longrightarrow> takeWhile (\<lambda>c. c \<noteq> (10::nat)) (vs @ ys) = vs @ takeWhile (\<lambda>c. c \<noteq> 10) ys"
  by (induction vs) auto

lemma offset_at_line:
  assumes small: "byte_len (us @ vs) \<le> u32_max" and li: "LineIndex_new (us @ vs) = Some li"
    and line: "us = [] \<or> last us = 10"
  shows "LineIndex_offset li (us @ vs) \<lparr>lc_line = count_list us 10 + 1, lc_column = k + 1\<rparr> =
    Some (if k \<le> length (takeWhile (\<lambda>c. c \<noteq> 10) vs)
          then Some (byte_len us + byte_len (take k vs)) else None)"
proof -
  let ?seg = "takeWhile (\<lambda>c. c \<noteq> 10) vs"
  from li small have li': "li = \<lparr>li_line_starts = 0 # nl_starts 0 (us @ vs), li_len = byte_len (us @ vs)\<rparr>"
    by (simp only: LineIndex_new_eq option.inject)
  have take: "take k vs = take k ?seg" if "k \<le> length ?seg"
    using that by (metis append_take_drop_id take_append takeWhile_dropWhile_id diff_is_0_eq' append_Nil2 take_0)
  have "ByteOffset_from_usize (byte_len us + byte_len (take k ?seg)) = Some (byte_len us + byte_len (take k ?seg))"
  proof -
    have "vs = take k ?seg @ drop k ?seg @ dropWhile (\<lambda>c. c \<noteq> 10) vs"
      by (metis append.assoc append_take_drop_id takeWhile_dropWhile_id)
    then have "byte_len (take k ?seg) \<le> byte_len vs"
      by (metis byte_len_append le_add1)
    with small show ?thesis by (simp add: ByteOffset_from_usize_def u32_try_from_le)
  qed
  then show ?thesis
    unfolding LineIndex_offset_def li' line_index.simps line_col.simps Let_def
    using line_segment [OF line, of vs] take
    by (simp add: list_get_def [of "char_offsets 0 ?seg"] nth_char_offsets less_Suc_eq_le)
qed

lemma offset_of_position_after:
  assumes "byte_len (xs @ ys) \<le> u32_max" and "LineIndex_new (xs @ ys) = Some li"
  shows "LineIndex_offset li (xs @ ys) (position_after xs) = Some (Some (byte_len xs))"
proof -
  obtain us vs where s: "xs = us @ vs" "10 \<notin> set vs" "us = [] \<or> last us = 10"
    "length vs = length (takeWhile (\<lambda>c. c \<noteq> 10) (rev xs))"
    "count_list us 10 = count_list xs 10"
    using split_last_line [of xs] by metis
  have pos: "position_after xs = \<lparr>lc_line = count_list us 10 + 1, lc_column = length vs + 1\<rparr>"
    by (simp only: position_after_def s(4,5))
  have "LineIndex_offset li (us @ vs @ ys) \<lparr>lc_line = count_list us 10 + 1, lc_column = length vs + 1\<rparr> =
      Some (Some (byte_len us + byte_len (take (length vs) (vs @ ys))))"
    using offset_at_line [of us "vs @ ys" li "length vs"] assms s(1,2,3)
    by (simp add: takeWhile_append_newline_free)
  then show ?thesis unfolding pos using s(1) by simp
qed

lemma nl_starts_decompose:
  assumes "i < length (0 # nl_starts 0 t)"
  obtains us vs where "t = us @ vs" and "count_list us 10 = i" and "us = [] \<or> last us = 10"
proof -
  have "\<exists>us vs. t = us @ vs \<and> count_list us 10 = i \<and> (us = [] \<or> last us = 10)"
    if "i \<le> count_list t 10" for t :: utext and i
    using that
  proof (induction t arbitrary: i)
    case (Cons c cs)
    show ?case
    proof (cases "i = 0")
      case True
      then have "c # cs = [] @ (c # cs) \<and> count_list [] (10::nat) = i" by simp
      then show ?thesis by blast
    next
      case False
      let ?j = "if c = 10 then i - 1 else i"
      have "?j \<le> count_list cs 10" using Cons.prems by (auto split: if_splits)
      then obtain us vs where "cs = us @ vs" "count_list us 10 = ?j" "us = [] \<or> last us = 10"
        using Cons.IH by blast
      moreover have "us = [] \<Longrightarrow> c = 10" using False calculation(2) by (cases "c = 10") auto
      ultimately have "c # cs = (c # us) @ vs \<and> count_list (c # us) 10 = i \<and> last (c # us) = 10"
        using False by auto
      then show ?thesis by blast
    qed
  qed simp
  then show thesis using assms that by (simp add: less_Suc_eq_le) blast
qed

lemma offset_position_after:
  assumes small: "byte_len t \<le> u32_max" and li: "LineIndex_new t = Some li"
    and off: "LineIndex_offset li t p = Some (Some n)"
  shows "\<exists>xs ys. t = xs @ ys \<and> byte_len xs = n \<and> position_after xs = p"
proof -
  from li small have li': "li = \<lparr>li_line_starts = 0 # nl_starts 0 t, li_len = byte_len t\<rparr>"
    by (simp only: LineIndex_new_eq option.inject)
  from off have nz: "lc_line p \<noteq> 0" "lc_column p \<noteq> 0"
    by (auto simp: LineIndex_offset_def split: if_splits)
  from off have "lc_line p - 1 < length (0 # nl_starts 0 t)"
    by (auto simp: LineIndex_offset_def li' list_get_def split: if_splits)
  then obtain us vs where s: "t = us @ vs" "count_list us 10 = lc_line p - 1" "us = [] \<or> last us = 10"
    by (rule nl_starts_decompose)
  define k where "k = lc_column p - 1"
  have p: "p = \<lparr>lc_line = count_list us 10 + 1, lc_column = k + 1\<rparr>"
    using nz s(2) by (cases p) (simp add: k_def)
  have k: "k \<le> length (takeWhile (\<lambda>c. c \<noteq> 10) vs)" and n: "n = byte_len us + byte_len (take k vs)"
    using offset_at_line [of us vs li k] small li s(1,3) off p by (auto split: if_splits)
  let ?w = "take k vs"
  have w: "10 \<notin> set ?w"
  proof -
    have "?w = take k (takeWhile (\<lambda>c. c \<noteq> 10) vs)"
      using k by (metis append_take_drop_id take_append takeWhile_dropWhile_id diff_is_0_eq' append_Nil2 take_0)
    then show ?thesis by (metis (full_types) in_set_takeD set_takeWhileD)
  qed
  have len: "length ?w = k"
    using k length_takeWhile_le [of "\<lambda>c. c \<noteq> 10" vs] by simp
  have tw: "takeWhile (\<lambda>c. c \<noteq> 10) (rev (us @ ?w)) = rev ?w"
  proof -
    have "takeWhile (\<lambda>c. c \<noteq> 10) (rev us) = []"
      using s(3) by (cases us rule: rev_cases) auto
    then show ?thesis using w takeWhile_append_newline_free [of "rev ?w" "rev us"] by simp
  qed
  have "count_list ?w 10 = 0" using w by (simp add: count_list_0_iff)
  then have "position_after (us @ ?w) = p"
    unfolding position_after_def tw p using len by simp
  then show ?thesis
    using s(1) n by (intro exI [of _ "us @ ?w"] exI [of _ "drop k vs"]) simp
qed


section \<open>The line index is exact\<close>

text \<open>
  C38: the position \<^verbatim>\<open>LineIndex::line_col\<close> computes for a byte offset on a character boundary is
  the position reached by reading the text up to it: the line is one more than the newlines
  read, the column one more than the characters since the last newline. The index is built and
  queried without a panic for every text below 4 GiB.
\<close>

theorem line_col_reads_prefix:
  assumes "byte_len (xs @ ys) < u32_max"
  shows "LineIndex_new (xs @ ys) \<bind> (\<lambda>li. LineIndex_line_col li (xs @ ys) (byte_len xs))
         = Some (position_after xs)"
  using assms line_col_position_after [of xs ys] LineIndex_new_eq [of "xs @ ys"] by simp

theorem line_col_reads_prefix_witness:
  "byte_len ([233, 10, 97] @ [98]) < u32_max \<and>
   LineIndex_new ([233, 10, 97] @ [98]) \<bind>
     (\<lambda>li. LineIndex_line_col li ([233, 10, 97] @ [98]) (byte_len [233, 10, 97])) =
   Some \<lparr>lc_line = 2, lc_column = 2\<rparr>"
proof -
  have h: "byte_len ([233, 10, 97] @ [98]) < u32_max"
    by (simp add: len_utf8_def u32_max_def)
  show ?thesis using h line_col_reads_prefix [OF h] by (simp add: position_after_def)
qed

text \<open>
  C39: \<^verbatim>\<open>LineIndex::offset\<close> is the exact inverse of \<^verbatim>\<open>LineIndex::line_col\<close> on character
  boundaries: it returns the offset \<open>n\<close> for a position exactly when \<open>n\<close> is a boundary of the text
  whose position that is, so zero and out-of-range positions return \<^verbatim>\<open>None\<close> and nothing is
  clamped.
\<close>

theorem offset_inverts_line_col:
  assumes "byte_len t < u32_max" and "LineIndex_new t = Some li"
  shows "LineIndex_offset li t p = Some (Some n) \<longleftrightarrow>
         char_boundary n t \<and> LineIndex_line_col li t n = Some p"
proof
  assume "LineIndex_offset li t p = Some (Some n)"
  then obtain xs ys where "t = xs @ ys" "byte_len xs = n" "position_after xs = p"
    using offset_position_after [of t li p n] assms by auto
  then show "char_boundary n t \<and> LineIndex_line_col li t n = Some p"
    using line_col_position_after [of xs ys li] assms by auto
next
  assume r: "char_boundary n t \<and> LineIndex_line_col li t n = Some p"
  then obtain xs ys where "t = xs @ ys" "byte_len xs = n" by (auto elim: char_boundaryE)
  then show "LineIndex_offset li t p = Some (Some n)"
    using line_col_position_after [of xs ys li] offset_of_position_after [of xs ys li] assms r
    by auto
qed

theorem offset_inverts_line_col_witness:
  "\<exists>li. LineIndex_new [233, 10, 97] = Some li \<and> byte_len [233, 10, 97] < u32_max \<and>
     LineIndex_offset li [233, 10, 97] \<lparr>lc_line = 2, lc_column = 1\<rparr> = Some (Some 3) \<and>
     LineIndex_line_col li [233, 10, 97] 3 = Some \<lparr>lc_line = 2, lc_column = 1\<rparr>"
proof -
  have h: "byte_len [233, 10, 97] < u32_max" by (simp add: len_utf8_def u32_max_def)
  obtain li where li: "LineIndex_new [233, 10, 97] = Some li"
    using h LineIndex_new_eq [of "[233, 10, 97]"] by auto
  have "LineIndex_line_col li ([233, 10] @ [97]) (byte_len [233, 10]) = Some (position_after [233, 10])"
    using h li by (intro line_col_position_after) simp_all
  then have lc: "LineIndex_line_col li [233, 10, 97] 3 = Some \<lparr>lc_line = 2, lc_column = 1\<rparr>"
    by (simp add: len_utf8_def position_after_def eval_nat_numeral)
  have "char_boundary 3 [233, 10, 97]" by (simp add: len_utf8_def)
  then show ?thesis
    using h li lc offset_inverts_line_col [OF h li, of "\<lparr>lc_line = 2, lc_column = 1\<rparr>" 3] by blast
qed

section \<open>Registries and resolvers\<close>

lemma lc_less_eq_position_after: "lc_less_eq (position_after xs) (position_after (xs @ ys))"
proof (cases "10 \<in> set ys")
  case True
  then have "0 < count_list ys 10" by (metis count_list_0_iff gr0I)
  then show ?thesis by (simp add: lc_less_eq_def position_after_def)
next
  case False
  then have "count_list ys 10 = 0" by (simp add: count_list_0_iff)
  moreover have "takeWhile (\<lambda>c. c \<noteq> 10) (rev (xs @ ys)) = rev ys @ takeWhile (\<lambda>c. c \<noteq> 10) (rev xs)"
    using False takeWhile_append_newline_free [of "rev ys" "rev xs"] by simp
  ultimately show ?thesis by (simp add: lc_less_eq_def position_after_def)
qed

definition sm_invar :: "source_map \<Rightarrow> bool" where
  "sm_invar m \<longleftrightarrow>
     (\<forall>p i. sm_by_path m p = Some i \<longrightarrow> i < length (sm_files m) \<and> sf_path (sm_files m ! i) = p) \<and>
     (\<forall>i < length (sm_files m). sm_by_path m (sf_path (sm_files m ! i)) = Some i) \<and>
     (\<forall>f \<in> set (sm_files m). LineIndex_new (sf_text f) = Some (sf_line_index f))"

text \<open>
  What a client may assume of a source registry: an added file is found under its path, an
  existing id is reused for a path that is known, and no other id changes.
\<close>

locale source_registry =
  fixes new_map :: "'m"
    and add :: "'m \<Rightarrow> path \<Rightarrow> utext \<Rightarrow> ('m \<times> source_id) option"
    and source_id_of :: "'m \<Rightarrow> path \<Rightarrow> source_id option"
    and path_of :: "'m \<Rightarrow> source_id \<Rightarrow> path option"
    and text_of :: "'m \<Rightarrow> source_id \<Rightarrow> utext option"
    and invar :: "'m \<Rightarrow> bool"
  assumes invar_new: "invar new_map"
    and invar_add: "invar m \<Longrightarrow> add m p t = Some (m', i) \<Longrightarrow> invar m'"
    and add_found: "invar m \<Longrightarrow> add m p t = Some (m', i) \<Longrightarrow>
      source_id_of m' p = Some i \<and> path_of m' i = Some p \<and> text_of m' i = Some t"
    and add_reuses: "invar m \<Longrightarrow> add m p t = Some (m', i) \<Longrightarrow> source_id_of m p = Some j \<Longrightarrow> i = j"
    and add_frame_id: "invar m \<Longrightarrow> add m p t = Some (m', i) \<Longrightarrow> q \<noteq> p \<Longrightarrow>
      source_id_of m' q = source_id_of m q"
    and add_frame_text: "invar m \<Longrightarrow> add m p t = Some (m', i) \<Longrightarrow> j \<noteq> i \<Longrightarrow>
      text_of m' j = text_of m j \<and> path_of m' j = path_of m j"
    and id_path: "invar m \<Longrightarrow> source_id_of m q = Some j \<Longrightarrow> path_of m j = Some q"
begin

lemma add_other_text:
  assumes "invar m" and "add m p t = Some (m', i)" and "q \<noteq> p" and "source_id_of m q = Some j"
  shows "source_id_of m' q = Some j \<and> text_of m' j = text_of m j"
proof -
  have "source_id_of m' q = Some j" using add_frame_id assms by metis
  moreover have "path_of m' j = Some q"
    using id_path invar_add assms calculation by blast
  ultimately have "j \<noteq> i" using add_found assms by (metis option.inject)
  then show ?thesis using add_frame_text assms \<open>source_id_of m' q = Some j\<close> by blast
qed

lemma replace_keeps_id:
  assumes "invar m" and "add m p t = Some (m', i)" and "add m' p t' = Some (m'', j)"
  shows "j = i \<and> text_of m'' i = Some t'"
proof -
  have "invar m'" and "source_id_of m' p = Some i" using invar_add add_found assms by blast+
  then have "j = i" using add_reuses assms(3) by blast
  then show ?thesis using add_found \<open>invar m'\<close> assms(3) by blast
qed

end

text \<open>
  The trait \<^verbatim>\<open>SpanResolver\<close>: renderers see only \<open>resolve\<close>. \<open>text_of\<close> is the text a source stands
  for; the laws say that an unknown source is reported and that a span between two boundaries of
  its text resolves to the positions of the two.
\<close>

locale span_resolver =
  fixes resolve :: "'m \<Rightarrow> span \<Rightarrow> resolved_span option option"
    and text_of :: "'m \<Rightarrow> source_id \<Rightarrow> utext option"
    and invar :: "'m \<Rightarrow> bool"
  assumes resolve_unknown: "invar m \<Longrightarrow> text_of m (sp_source s) = None \<Longrightarrow> resolve m s = Some None"
    and resolve_known: "invar m \<Longrightarrow> text_of m (sp_source s) = Some (xs @ ys @ zs) \<Longrightarrow>
      byte_len (xs @ ys @ zs) < u32_max \<Longrightarrow>
      Span_start s = byte_len xs \<Longrightarrow> Span_end s = byte_len (xs @ ys) \<Longrightarrow>
      \<exists>p. resolve m s = Some (Some \<lparr>rs_path = p, rs_start = position_after xs,
             rs_end = position_after (xs @ ys), rs_byte_start = Span_start s, rs_byte_end = Span_end s\<rparr>)"
begin

lemma resolved_in_order:
  assumes "invar m" and "text_of m (sp_source s) = Some t" and "byte_len t < u32_max"
    and "char_boundary (Span_start s) t" and "char_boundary (Span_end s) t"
    and "Span_start s \<le> Span_end s"
  shows "\<exists>r. resolve m s = Some (Some r) \<and> lc_less_eq (rs_start r) (rs_end r) \<and>
             rs_byte_start r = Span_start s \<and> rs_byte_end r = Span_end s"
proof -
  from assms(5) obtain ws zs where w: "t = ws @ zs" "byte_len ws = Span_end s"
    by (auto elim: char_boundaryE)
  from assms(4) obtain xs vs where x: "t = xs @ vs" "byte_len xs = Span_start s"
    by (auto elim: char_boundaryE)
  have "\<exists>ys. ws = xs @ ys"
  proof (rule ccontr)
    assume "\<nexists>ys. ws = xs @ ys"
    moreover from w(1) x(1) obtain us where "ws = xs @ us \<or> xs = ws @ us"
      by (metis append_eq_append_conv2)
    ultimately have "xs = ws @ us" "us \<noteq> []" by auto
    then have "byte_len xs = byte_len ws + byte_len us" "0 < byte_len us" by simp_all
    then show False using assms(6) w(2) x(2) by linarith
  qed
  then obtain ys where ys: "ws = xs @ ys" by blast
  then have t: "t = xs @ ys @ zs" using w(1) by simp
  obtain p where "resolve m s = Some (Some \<lparr>rs_path = p, rs_start = position_after xs,
      rs_end = position_after (xs @ ys), rs_byte_start = Span_start s, rs_byte_end = Span_end s\<rparr>)"
    using resolve_known [OF assms(1) assms(2) [unfolded t] assms(3) [unfolded t]] w(2) x(2) ys
    by metis
  then show ?thesis using lc_less_eq_position_after [of xs ys] by simp
qed

end

lemma list_get_update: "list_get (xs[i := v]) j = (if j = i \<and> i < length xs then Some v else list_get xs j)"
  by (simp add: list_get_def)

lemma list_get_snoc: "list_get (xs @ [v]) j = (if j = length xs then Some v else list_get xs j)"
  by (auto simp: list_get_def nth_append)

lemma SourceMap_add_cases:
  assumes "sm_invar m" and "SourceMap_add m p t = Some (m', i)"
  obtains (replaced) li where "LineIndex_new t = Some li" "sm_by_path m p = Some i"
      "i < length (sm_files m)"
      "m' = m\<lparr>sm_files := (sm_files m)[i := \<lparr>sf_path = p, sf_text = t, sf_line_index = li\<rparr>]\<rparr>"
  | (added) li where "LineIndex_new t = Some li" "sm_by_path m p = None" "i = length (sm_files m)"
      "m' = m\<lparr>sm_by_path := (sm_by_path m)(p \<mapsto> i),
              sm_files := sm_files m @ [\<lparr>sf_path = p, sf_text = t, sf_line_index = li\<rparr>]\<rparr>"
proof (cases "LineIndex_new t")
  case None
  with assms(2) show thesis by (simp add: SourceMap_add_def)
next
  case (Some li)
  show thesis
  proof (cases "sm_by_path m p")
    case None
    with Some assms(2) show thesis
      by (intro added [of li])
        (auto simp: SourceMap_add_def ByteOffset_from_usize_def u32_try_from_def split: if_splits)
  next
    case (Some j)
    with \<open>LineIndex_new t = Some li\<close> assms(2) show thesis
      by (intro replaced [of li]) (auto simp: SourceMap_add_def split: if_splits)
  qed
qed

lemma sm_invar_add:
  assumes inv: "sm_invar m" and add: "SourceMap_add m p t = Some (m', i)"
  shows "sm_invar m'"
  using inv add
proof (cases rule: SourceMap_add_cases)
  case (replaced li)
  let ?f = "\<lparr>sf_path = p, sf_text = t, sf_line_index = li\<rparr>"
  have p: "sf_path (sm_files m ! i) = p" using inv replaced(2) by (simp add: sm_invar_def)
  then have "map sf_path ((sm_files m)[i := ?f]) = map sf_path (sm_files m)"
    by (metis list_update_id map_update source_file.select_convs(1))
  then have paths: "sf_path ((sm_files m)[i := ?f] ! j) = sf_path (sm_files m ! j)"
    if "j < length (sm_files m)" for j
    using that by (metis length_list_update nth_map)
  have idx: "LineIndex_new (sf_text f) = Some (sf_line_index f)"
    if "f \<in> set ((sm_files m)[i := ?f])" for f
    using that inv replaced(1) set_update_subset_insert [of "sm_files m" i ?f]
    by (auto simp: sm_invar_def)
  show ?thesis
    using inv paths idx unfolding sm_invar_def replaced(4) by simp
next
  case (added li)
  have new: "sf_path (sm_files m ! j) \<noteq> p" if "j < length (sm_files m)" for j
    using that inv added(2) by (metis option.distinct(1) sm_invar_def)
  show ?thesis
    using inv new added(1,2,3) unfolding sm_invar_def added(4)
    by (auto simp: nth_append less_Suc_eq)
qed

lemma path_of_id: "sm_invar m \<Longrightarrow> SourceMap_source_id m q = Some j \<Longrightarrow> SourceMap_path m j = Some q"
  by (auto simp: SourceMap_source_id_def SourceMap_path_def sm_invar_def list_get_def)

interpretation sm_reg: source_registry SourceMap_new SourceMap_add SourceMap_source_id SourceMap_path
  SourceMap_text sm_invar
proof (unfold_locales, goal_cases)
  case 1
  show ?case by (simp add: sm_invar_def SourceMap_new_def)
next
  case 2
  then show ?case by (rule sm_invar_add)
next
  case 3
  from this show ?case
    by (cases rule: SourceMap_add_cases)
      (auto simp: SourceMap_source_id_def SourceMap_path_def SourceMap_text_def list_get_def)
next
  case 4
  from 4(1,2) show ?case
    using 4(3) by (cases rule: SourceMap_add_cases) (auto simp: SourceMap_source_id_def)
next
  case 5
  from 5(1,2) show ?case
    using 5(3) by (cases rule: SourceMap_add_cases) (auto simp: SourceMap_source_id_def)
next
  case 6
  from 6(1,2) show ?case
    using 6(3) by (cases rule: SourceMap_add_cases)
      (auto simp: SourceMap_path_def SourceMap_text_def list_get_update list_get_snoc)
next
  case 7
  then show ?case by (rule path_of_id)
qed

interpretation sm_res: span_resolver SourceMap_resolve SourceMap_text sm_invar
proof (unfold_locales, goal_cases)
  case (1 m s)
  then show ?case
    by (auto simp: SourceMap_text_def SourceMap_resolve_def split: option.splits)
next
  case (2 m s xs ys zs)
  then obtain f where f: "list_get (sm_files m) (sp_source s) = Some f" "sf_text f = xs @ ys @ zs"
    by (auto simp: SourceMap_text_def)
  then have "f \<in> set (sm_files m)" by (auto simp: list_get_def split: if_splits)
  with 2(1) have li: "LineIndex_new (xs @ ys @ zs) = Some (sf_line_index f)"
    using f(2) by (auto simp: sm_invar_def)
  have "LineIndex_line_col (sf_line_index f) (xs @ ys @ zs) (byte_len xs) = Some (position_after xs)"
    using 2(3) li by (intro line_col_position_after) simp_all
  moreover have "LineIndex_line_col (sf_line_index f) ((xs @ ys) @ zs) (byte_len (xs @ ys)) =
      Some (position_after (xs @ ys))"
    using 2(3) li by (intro line_col_position_after) simp_all
  ultimately show ?case
    using f 2(4,5) by (simp add: SourceMap_resolve_def)
qed

lemma SourceMap_add_new:
  assumes "byte_len t \<le> u32_max"
  shows "\<exists>m. SourceMap_add SourceMap_new p t = Some (m, 0)"
  by (simp add: SourceMap_add_def SourceMap_new_def LineIndex_new_eq [OF assms] ByteOffset_from_usize_def
      u32_try_from_def)

text \<open>
  registering a file makes its path, text and id agree, keeps the registry's invariant,
  and leaves the id and the text of every other path unchanged; registering the same path again
  replaces the text under the same id, so spans into it stay valid.
\<close>

theorem source_map_add:
  assumes "sm_invar m" and "SourceMap_add m p t = Some (m', i)"
  shows "sm_invar m' \<and> SourceMap_source_id m' p = Some i \<and> SourceMap_text m' i = Some t \<and>
         (\<forall>q j. q \<noteq> p \<longrightarrow> SourceMap_source_id m q = Some j \<longrightarrow>
            SourceMap_source_id m' q = Some j \<and> SourceMap_text m' j = SourceMap_text m j) \<and>
         (\<forall>t' m'' j. SourceMap_add m' p t' = Some (m'', j) \<longrightarrow> j = i \<and> SourceMap_text m'' i = Some t')"
proof (intro conjI allI impI)
  show "sm_invar m'" by (rule sm_reg.invar_add [OF assms])
  show "SourceMap_source_id m' p = Some i" "SourceMap_text m' i = Some t"
    using sm_reg.add_found [OF assms] by simp_all
next
  fix q j
  assume "q \<noteq> p" "SourceMap_source_id m q = Some j"
  then show "SourceMap_source_id m' q = Some j" "SourceMap_text m' j = SourceMap_text m j"
    using sm_reg.add_other_text [OF assms, of q j] by simp_all
next
  fix t' m'' j
  assume "SourceMap_add m' p t' = Some (m'', j)"
  then show "j = i" "SourceMap_text m'' i = Some t'"
    using sm_reg.replace_keeps_id [OF assms, of t' m'' j] by simp_all
qed

theorem source_map_add_witness:
  "\<exists>m i. SourceMap_add SourceMap_new ''A.fai'' [97, 10] = Some (m, i) \<and> i = 0 \<and> sm_invar m \<and>
     SourceMap_text m 0 = Some [97, 10]"
proof -
  have "byte_len [97, 10] \<le> u32_max" by (simp add: len_utf8_def u32_max_def)
  then obtain m where a: "SourceMap_add SourceMap_new ''A.fai'' [97, 10] = Some (m, 0)"
    using SourceMap_add_new by blast
  note added = source_map_add [OF sm_reg.invar_new a]
  have "sm_invar m" by (rule added [THEN conjunct1])
  moreover have "SourceMap_text m 0 = Some [97, 10]"
    by (rule added [THEN conjunct2, THEN conjunct2, THEN conjunct1])
  ultimately show ?thesis using a by blast
qed

text \<open>
  a span whose ends are character boundaries of a registered text resolves, without a
  panic, to a start and an end position in order, and carries its byte offsets through unchanged.
\<close>

theorem source_map_resolve_ordered:
  assumes "sm_invar m" and "SourceMap_text m (sp_source s) = Some t" and "byte_len t < u32_max"
    and "char_boundary (Span_start s) t" and "char_boundary (Span_end s) t"
    and "Span_start s \<le> Span_end s"
  shows "\<exists>r. SourceMap_resolve m s = Some (Some r) \<and> lc_less_eq (rs_start r) (rs_end r) \<and>
             rs_byte_start r = Span_start s \<and> rs_byte_end r = Span_end s"
  using assms by (rule sm_res.resolved_in_order)

theorem source_map_resolve_ordered_witness:
  "\<exists>m r. SourceMap_add SourceMap_new ''A.fai'' [97, 10] = Some (m, 0) \<and>
     SourceMap_resolve m (Span_new 0 \<lparr>tr_start = 0, tr_end = 2\<rparr>) = Some (Some r) \<and>
     lc_less_eq (rs_start r) (rs_end r) \<and> rs_byte_end r = 2"
proof -
  have "byte_len [97, 10] \<le> u32_max" by (simp add: len_utf8_def u32_max_def)
  then obtain m where a: "SourceMap_add SourceMap_new ''A.fai'' [97, 10] = Some (m, 0)"
    using SourceMap_add_new by blast
  have inv: "sm_invar m" and t: "SourceMap_text m 0 = Some [97, 10]"
    using sm_reg.invar_add sm_reg.add_found sm_reg.invar_new a by blast+
  let ?s = "Span_new 0 \<lparr>tr_start = 0, tr_end = 2\<rparr>"
  have e: "sp_source ?s = 0" "Span_start ?s = 0" "Span_end ?s = 2"
    by (simp_all add: Span_new_def Span_start_def Span_end_def)
  have b: "char_boundary 2 [97, 10]" "byte_len [97, 10] < u32_max"
    by (simp_all add: len_utf8_def u32_max_def)
  obtain r where "SourceMap_resolve m ?s = Some (Some r)" "lc_less_eq (rs_start r) (rs_end r)"
      "rs_byte_end r = 2"
    using source_map_resolve_ordered [OF inv, of ?s "[97, 10]", unfolded e,
        OF t b(2) char_boundary_0 b(1) le0] by blast
  then show ?thesis using a by blast
qed

end
