(* ===== verification/Fai_Diagnostics.thy ===== *)
theory Fai_Diagnostics
  imports Fai_Span "HOL-Library.List_Lexorder" "HOL-Library.Char_ord" "HOL-Library.Product_Lexorder"
    "HOL-Library.Multiset"
begin

text \<open>
  The crate \<^verbatim>\<open>fai-diagnostics\<close>: diagnostic codes (\<^verbatim>\<open>code.rs\<close>), severities (\<^verbatim>\<open>severity.rs\<close>), the
  diagnostic model and its builders (\<^verbatim>\<open>diagnostic.rs\<close>), the output order (\<^verbatim>\<open>order.rs\<close>), the human
  renderer (\<^verbatim>\<open>render.rs\<close>) and the wire form (\<^verbatim>\<open>wire.rs\<close>). A resolver is an argument of type
  \<open>span \<Rightarrow> resolved_span option\<close>, as the code takes \<^verbatim>\<open>&dyn SpanResolver\<close>. Messages are texts.
\<close>

section \<open>Codes and severities\<close>

type_synonym diagnostic_code = string

definition is_ascii_digit_byte :: "char \<Rightarrow> bool" where
  "is_ascii_digit_byte c \<longleftrightarrow> CHR ''0'' \<le> c \<and> c \<le> CHR ''9''"

definition has_valid_format :: "diagnostic_code \<Rightarrow> bool" where
  "has_valid_format bytes \<longleftrightarrow>
     length bytes = 7 \<and> take 3 bytes = ''FAI'' \<and> list_all is_ascii_digit_byte (drop 3 bytes)"

datatype severity = SevError | SevWarning | SevInfo

fun severity_as_str :: "severity \<Rightarrow> string" where
  "severity_as_str SevError = ''error''"
| "severity_as_str SevWarning = ''warning''"
| "severity_as_str SevInfo = ''info''"

fun severity_is_error :: "severity \<Rightarrow> bool" where
  "severity_is_error SevError = True"
| "severity_is_error _ = False"

section \<open>Diagnostics\<close>

record label =
  lb_span :: span
  lb_message :: utext

record suggestion =
  sg_span :: span
  sg_replacement :: utext

record diagnostic =
  d_code :: diagnostic_code
  d_severity :: severity
  d_message :: utext
  d_primary :: span
  d_secondary :: "label list"
  d_help :: "utext option"
  d_suggestions :: "suggestion list"

definition Diagnostic_new :: "diagnostic_code \<Rightarrow> severity \<Rightarrow> utext \<Rightarrow> span \<Rightarrow> diagnostic" where
  "Diagnostic_new code sev message primary =
     \<lparr>d_code = code, d_severity = sev, d_message = message, d_primary = primary,
      d_secondary = [], d_help = None, d_suggestions = []\<rparr>"

definition Diagnostic_error :: "diagnostic_code \<Rightarrow> utext \<Rightarrow> span \<Rightarrow> diagnostic" where
  "Diagnostic_error code message primary = Diagnostic_new code SevError message primary"

definition Diagnostic_warning :: "diagnostic_code \<Rightarrow> utext \<Rightarrow> span \<Rightarrow> diagnostic" where
  "Diagnostic_warning code message primary = Diagnostic_new code SevWarning message primary"

definition with_help :: "diagnostic \<Rightarrow> utext \<Rightarrow> diagnostic" where
  "with_help d help = d\<lparr>d_help := Some help\<rparr>"

definition with_label :: "diagnostic \<Rightarrow> label \<Rightarrow> diagnostic" where
  "with_label d l = d\<lparr>d_secondary := d_secondary d @ [l]\<rparr>"

definition with_suggestion :: "diagnostic \<Rightarrow> suggestion \<Rightarrow> diagnostic" where
  "with_suggestion d s = d\<lparr>d_suggestions := d_suggestions d @ [s]\<rparr>"

section \<open>Output order\<close>

type_synonym resolver = "span \<Rightarrow> resolved_span option"
type_synonym sort_key = "string \<times> nat \<times> string"

definition diag_key :: "resolver \<Rightarrow> diagnostic \<Rightarrow> sort_key" where
  "diag_key resolve d =
     (case resolve (d_primary d) of
        Some r \<Rightarrow> (rs_path r, rs_byte_start r, d_code d)
      | None \<Rightarrow> ('''', Span_start (d_primary d), d_code d))"

definition sort_order :: "diagnostic list \<Rightarrow> resolver \<Rightarrow> nat list" where
  "sort_order diags resolve =
     map (\<lambda>(file, byte_start, code, i). i)
       (sort (map (\<lambda>(i, d). case diag_key resolve d of (file, byte_start, code) \<Rightarrow>
                              (file, byte_start, code, i))
              (enumerate 0 diags)))"

section \<open>The human renderer\<close>

definition sgr :: "bool \<Rightarrow> string \<Rightarrow> string \<Rightarrow> utext" where
  "sgr color codes txt0 =
     (if color then [0x1b] @ str ''['' @ str codes @ str ''m'' @ str txt0 @ [0x1b] @ str ''[0m''
      else str txt0)"

fun severity_sgr :: "severity \<Rightarrow> string" where
  "severity_sgr SevError = ''1;31''"
| "severity_sgr SevWarning = ''1;33''"
| "severity_sgr SevInfo = ''1;36''"

definition location :: "span \<Rightarrow> resolver \<Rightarrow> utext" where
  "location s resolve =
     (case resolve s of
        Some r \<Rightarrow> str (rs_path r) @ str '':'' @ str (show_nat (lc_line (rs_start r))) @ str '':'' @
                  str (show_nat (lc_column (rs_start r)))
      | None \<Rightarrow> str ''<unknown>'')"

abbreviation newline :: utext where
  "newline \<equiv> [10]"

definition render_one :: "diagnostic \<Rightarrow> resolver \<Rightarrow> bool \<Rightarrow> utext" where
  "render_one d resolve color =
     sgr color (severity_sgr (d_severity d)) (severity_as_str (d_severity d) @ ''['' @ d_code d @ '']'')
       @ str '': '' @ d_message d @ newline @
     str ''  --> '' @ location (d_primary d) resolve @ newline @
     concat (map (\<lambda>l. str ''  note: '' @ lb_message l @ newline @
                       str ''   --> '' @ location (lb_span l) resolve @ newline) (d_secondary d)) @
     (case d_help d of
        None \<Rightarrow> []
      | Some help \<Rightarrow> str ''  = '' @ sgr color ''1;32'' ''help:'' @ str '' '' @ help @ newline) @
     concat (map (\<lambda>s. str ''  = suggestion: replace with `'' @ sg_replacement s @ str ''`'' @ newline)
                 (d_suggestions d))"

fun join_blank :: "utext list \<Rightarrow> utext" where
  "join_blank [] = []"
| "join_blank [x] = x"
| "join_blank (x # y # xs) = x @ newline @ join_blank (y # xs)"

definition render_human :: "diagnostic list \<Rightarrow> resolver \<Rightarrow> bool \<Rightarrow> utext" where
  "render_human diags resolve color =
     join_blank (map (\<lambda>i. render_one (diags ! i) resolve color) (sort_order diags resolve))"

section \<open>The wire form\<close>

record position =
  po_line :: nat
  po_column :: nat

record span_wire =
  sw_file :: string
  sw_start :: position
  sw_end :: position
  sw_byte_start :: nat
  sw_byte_end :: nat

record label_wire =
  lw_span :: span_wire
  lw_label :: utext

record suggestion_wire =
  uw_span :: span_wire
  uw_replacement :: utext

record diagnostic_wire =
  dw_code :: string
  dw_severity :: severity
  dw_message :: utext
  dw_primary :: span_wire
  dw_secondary :: "label_wire list"
  dw_help :: "utext option"
  dw_suggestions :: "suggestion_wire list"

definition span_to_wire :: "span \<Rightarrow> resolver \<Rightarrow> span_wire" where
  "span_to_wire s resolve =
     (case resolve s of
        Some r \<Rightarrow>
          \<lparr>sw_file = rs_path r,
           sw_start = \<lparr>po_line = lc_line (rs_start r), po_column = lc_column (rs_start r)\<rparr>,
           sw_end = \<lparr>po_line = lc_line (rs_end r), po_column = lc_column (rs_end r)\<rparr>,
           sw_byte_start = rs_byte_start r, sw_byte_end = rs_byte_end r\<rparr>
      | None \<Rightarrow>
          \<lparr>sw_file = ''<unknown>'', sw_start = \<lparr>po_line = 0, po_column = 0\<rparr>,
           sw_end = \<lparr>po_line = 0, po_column = 0\<rparr>,
           sw_byte_start = Span_start s, sw_byte_end = Span_end s\<rparr>)"

definition label_to_wire :: "label \<Rightarrow> resolver \<Rightarrow> label_wire" where
  "label_to_wire l resolve = \<lparr>lw_span = span_to_wire (lb_span l) resolve, lw_label = lb_message l\<rparr>"

definition suggestion_to_wire :: "suggestion \<Rightarrow> resolver \<Rightarrow> suggestion_wire" where
  "suggestion_to_wire s resolve =
     \<lparr>uw_span = span_to_wire (sg_span s) resolve, uw_replacement = sg_replacement s\<rparr>"

definition diagnostic_to_wire :: "diagnostic \<Rightarrow> resolver \<Rightarrow> diagnostic_wire" where
  "diagnostic_to_wire d resolve =
     \<lparr>dw_code = d_code d, dw_severity = d_severity d, dw_message = d_message d,
      dw_primary = span_to_wire (d_primary d) resolve,
      dw_secondary = map (\<lambda>l. label_to_wire l resolve) (d_secondary d),
      dw_help = d_help d,
      dw_suggestions = map (\<lambda>s. suggestion_to_wire s resolve) (d_suggestions d)\<rparr>"

definition to_wire :: "diagnostic list \<Rightarrow> resolver \<Rightarrow> diagnostic_wire list" where
  "to_wire diags resolve = map (\<lambda>i. diagnostic_to_wire (diags ! i) resolve) (sort_order diags resolve)"

section \<open>The output order is a sorted permutation\<close>

lemma sort_order_enumerate:
  "sort_order diags resolve =
     map (\<lambda>k. snd (snd (snd k)))
       (sort (map (\<lambda>i. let k = diag_key resolve (diags ! i) in (fst k, fst (snd k), snd (snd k), i))
              [0..<length diags]))"
proof -
  have "map (\<lambda>(i, d). case diag_key resolve d of (file, byte_start, code) \<Rightarrow> (file, byte_start, code, i))
      (enumerate 0 diags) =
    map (\<lambda>i. let k = diag_key resolve (diags ! i) in (fst k, fst (snd k), snd (snd k), i))
      [0..<length diags]"
    by (rule nth_equalityI) (auto simp: nth_enumerate_eq Let_def split: prod.splits)
  then show ?thesis
    unfolding sort_order_def by (simp add: case_prod_beta)
qed

lemma mset_sort_order: "mset (sort_order diags resolve) = mset [0..<length diags]"
  unfolding sort_order_enumerate by (simp add: image_mset.compositionality comp_def Let_def del: mset_upt)

lemma set_sort_order: "set (sort_order diags resolve) = {0..<length diags}"
  using mset_sort_order by (metis atLeastLessThan_upt set_mset_mset)

lemma sorted_sort_order:
  "sorted (map (\<lambda>i. diag_key resolve (diags ! i)) (sort_order diags resolve))"
proof -
  let ?key = "\<lambda>i. let k = diag_key resolve (diags ! i) in (fst k, fst (snd k), snd (snd k), i)"
  let ?ks = "sort (map ?key [0..<length diags])"
  have proj: "(fst k, fst (snd k), fst (snd (snd k))) = diag_key resolve (diags ! snd (snd (snd k)))"
    if "k \<in> set ?ks" for k
    using that by (auto simp: Let_def)
  have "sorted (map (\<lambda>k. (fst k, fst (snd k), fst (snd (snd k)))) ?ks)"
  proof (rule sorted_map_mono [OF sorted_sort])
    show "mono_on (set ?ks) (\<lambda>k. (fst k, fst (snd k), fst (snd (snd k))))"
      by (auto simp: mono_on_def less_eq_prod_def less_prod_def)
  qed
  moreover have "map (\<lambda>k. (fst k, fst (snd k), fst (snd (snd k)))) ?ks =
      map (\<lambda>i. diag_key resolve (diags ! i)) (sort_order diags resolve)"
    using proj unfolding sort_order_enumerate by (simp add: o_def)
  ultimately show ?thesis by simp
qed

lemma sorted_wrt_sort_order:
  "sorted_wrt (\<lambda>i j. (diag_key resolve (diags ! i), i) \<le> (diag_key resolve (diags ! j), j))
     (sort_order diags resolve)"
proof -
  let ?key = "\<lambda>i. let k = diag_key resolve (diags ! i) in (fst k, fst (snd k), snd (snd k), i)"
  let ?ks = "sort (map ?key [0..<length diags])"
  have "sorted_wrt (\<le>) ?ks" by simp
  then have "sorted_wrt (\<lambda>k l. (diag_key resolve (diags ! snd (snd (snd k))), snd (snd (snd k)))
      \<le> (diag_key resolve (diags ! snd (snd (snd l))), snd (snd (snd l)))) ?ks"
    by (rule sorted_wrt_mono_rel [rotated])
      (auto simp: Let_def less_eq_prod_def less_prod_def)
  then show ?thesis unfolding sort_order_enumerate by (simp add: sorted_wrt_map)
qed

text \<open>
  C40: the order in which diagnostics are printed and serialised lists every diagnostic once,
  sorted by file, byte offset and code, with ties kept in the order they were collected; so the
  sequence of sort keys that is output does not depend on the order of collection.
\<close>

theorem sort_order_canonical:
  "mset (sort_order diags resolve) = mset [0..<length diags] \<and>
   sorted_wrt (\<lambda>i j. (diag_key resolve (diags ! i), i) \<le> (diag_key resolve (diags ! j), j))
     (sort_order diags resolve) \<and>
   map (\<lambda>i. diag_key resolve (diags ! i)) (sort_order diags resolve) =
     sort (map (diag_key resolve) diags)"
proof (intro conjI mset_sort_order sorted_wrt_sort_order)
  have "mset (map (\<lambda>i. diag_key resolve (diags ! i)) (sort_order diags resolve)) =
      mset (map (\<lambda>i. diag_key resolve (diags ! i)) [0..<length diags])"
    using mset_sort_order [of diags resolve] by (simp only: mset_map)
  also have "map (\<lambda>i. diag_key resolve (diags ! i)) [0..<length diags] = map (diag_key resolve) diags"
    by (rule nth_equalityI) simp_all
  finally show "map (\<lambda>i. diag_key resolve (diags ! i)) (sort_order diags resolve) =
      sort (map (diag_key resolve) diags)"
    by (intro properties_for_sort [symmetric] sorted_sort_order)
qed

text \<open>
  The wire form has one entry per diagnostic, and the entry of a diagnostic carries its
  code, severity, message, help and the replacement texts unchanged, whatever the resolver
  knows; a span whose source is unknown keeps its byte offsets.
\<close>

theorem to_wire_faithful:
  "mset (map (\<lambda>w. (dw_code w, dw_severity w, dw_message w, dw_help w)) (to_wire diags resolve)) =
     mset (map (\<lambda>d. (d_code d, d_severity d, d_message d, d_help d)) diags) \<and>
   (resolve s = None \<longrightarrow> sw_byte_start (span_to_wire s resolve) = Span_start s \<and>
      sw_byte_end (span_to_wire s resolve) = Span_end s)"
proof -
  let ?f = "\<lambda>d. (d_code d, d_severity d, d_message d, d_help d)"
  have "map (\<lambda>w. (dw_code w, dw_severity w, dw_message w, dw_help w)) (to_wire diags resolve) =
      map (\<lambda>i. ?f (diags ! i)) (sort_order diags resolve)"
    by (simp add: to_wire_def diagnostic_to_wire_def)
  then have "mset (map (\<lambda>w. (dw_code w, dw_severity w, dw_message w, dw_help w)) (to_wire diags resolve)) =
      mset (map (\<lambda>i. ?f (diags ! i)) [0..<length diags])"
    using mset_sort_order [of diags resolve] by (simp only: mset_map)
  also have "map (\<lambda>i. ?f (diags ! i)) [0..<length diags] = map ?f diags"
    by (rule nth_equalityI) simp_all
  finally show ?thesis by (simp add: span_to_wire_def)
qed

theorem to_wire_faithful_witness:
  "mset (map (\<lambda>w. (dw_code w, dw_severity w, dw_message w, dw_help w))
       (to_wire [Diagnostic_error ''FAI1001'' [63] (Span_new 0 \<lparr>tr_start = 1, tr_end = 2\<rparr>)] (\<lambda>_. None))) =
     {# (''FAI1001'', SevError, [63], None) #} \<and>
   sw_byte_start (span_to_wire (Span_new 0 \<lparr>tr_start = 1, tr_end = 2\<rparr>) (\<lambda>_. None)) = 1"
  using to_wire_faithful [of "[Diagnostic_error ''FAI1001'' [63] (Span_new 0 \<lparr>tr_start = 1, tr_end = 2\<rparr>)]"
      "\<lambda>_. None" "Span_new 0 \<lparr>tr_start = 1, tr_end = 2\<rparr>"]
  by (simp add: Diagnostic_error_def Diagnostic_new_def Span_new_def Span_start_def)

end
