(* ===== verification/Fai_Token.thy ===== *)
theory Fai_Token
  imports Fai_Span
begin

text \<open>
  Tokens and comment trivia (\<^verbatim>\<open>fai-syntax/src/token.rs\<close>). The constructors of \<^verbatim>\<open>TokenKind\<close> keep
  their names with a \<open>Tk\<close> prefix, those of \<^verbatim>\<open>CommentKind\<close> with a \<open>Ck\<close> prefix.
\<close>

datatype token_kind =
    TkLowerIdent | TkUpperIdent | TkTypeVar | TkUnderscore
  | TkInt | TkFloat | TkString | TkChar
  | TkModule | TkLet | TkType | TkInterface | TkMatch | TkWith | TkIf | TkThen | TkElse | TkFun
  | TkPublic | TkInternal | TkOpaque | TkExample | TkForall | TkAs | TkForeign | TkImport
  | TkLParen | TkRParen | TkLBracket | TkRBracket | TkLArrayBracket | TkRArrayBracket
  | TkLBrace | TkRBrace | TkComma | TkDot
  | TkColon | TkArrow | TkEquals | TkPipe | TkColonColon
  | TkOperator
  | TkLayoutOpen | TkLayoutSep | TkLayoutClose
  | TkEof

record token =
  tok_kind :: token_kind
  tok_range :: text_range

definition Token_new :: "token_kind \<Rightarrow> text_range \<Rightarrow> token" where
  "Token_new k r = \<lparr>tok_kind = k, tok_range = r\<rparr>"

definition keyword_table :: "(string \<times> token_kind) list" where
  "keyword_table =
     [(''module'', TkModule), (''let'', TkLet), (''type'', TkType), (''interface'', TkInterface),
      (''match'', TkMatch), (''with'', TkWith), (''if'', TkIf), (''then'', TkThen), (''else'', TkElse),
      (''fun'', TkFun), (''public'', TkPublic), (''internal'', TkInternal), (''opaque'', TkOpaque),
      (''example'', TkExample), (''forall'', TkForall), (''as'', TkAs), (''foreign'', TkForeign),
      (''import'', TkImport)]"

definition keyword :: "utext \<Rightarrow> token_kind option" where
  "keyword t = map_of (map (\<lambda>(s, k). (str s, k)) keyword_table) t"

datatype comment_kind = CkLine | CkBlock | CkDoc

record comment =
  cm_kind :: comment_kind
  cm_range :: text_range

text \<open>The kinds the lexer never produces: the virtual tokens of the layout pass.\<close>

definition is_virtual :: "token_kind \<Rightarrow> bool" where
  "is_virtual k \<longleftrightarrow> k \<in> {TkLayoutOpen, TkLayoutSep, TkLayoutClose}"

lemma keyword_kinds: "keyword t = Some k \<Longrightarrow> k \<in> set (map snd keyword_table)"
  unfolding keyword_def by (drule map_of_SomeD) force

lemma keyword_SomeD:
  assumes "keyword t = Some k"
  shows "k \<noteq> TkEof" and "\<not> is_virtual k" and "k \<noteq> TkLowerIdent" and "k \<noteq> TkUpperIdent"
    and "k \<noteq> TkUnderscore" and "k \<noteq> TkInt" and "k \<noteq> TkString" and "k \<noteq> TkChar"
  using keyword_kinds [OF assms] by (auto simp: keyword_table_def is_virtual_def)

end
