(* ===== verification/Fai_Literal.thy ===== *)
theory Fai_Literal
  imports Fai_Prelude "HOL-Library.Word"
begin

text \<open>
  Literal decoding (\<^verbatim>\<open>fai-syntax/src/literal.rs\<close>): characters, strings and integers. A character
  iterator is the list of the characters left; a decoder that advances it returns what is left.
  An \<^verbatim>\<open>i64\<close> is a \<open>64 word\<close>. The decoding of floats is the standard library's \<^verbatim>\<open>f64\<close> parser and is
  not modelled.
\<close>

section \<open>Escapes, characters and strings\<close>

definition hex_digit :: "scalar \<Rightarrow> nat option" where
  "hex_digit c =
     (if ch CHR ''0'' \<le> c \<and> c \<le> ch CHR ''9'' then Some (c - ch CHR ''0'')
      else if ch CHR ''a'' \<le> c \<and> c \<le> ch CHR ''f'' then Some (c - ch CHR ''a'' + 10)
      else if ch CHR ''A'' \<le> c \<and> c \<le> ch CHR ''F'' then Some (c - ch CHR ''A'' + 10)
      else None)"

definition u32_mul_add :: "nat \<Rightarrow> nat \<Rightarrow> nat option" where
  "u32_mul_add n digit = do { m \<leftarrow> u32_try_from (n * 16); u32_try_from (m + digit) }"

fun hex_value :: "utext \<Rightarrow> nat \<Rightarrow> nat option" where
  "hex_value [] n = Some n"
| "hex_value (c # cs) n = do { d \<leftarrow> hex_digit c; m \<leftarrow> u32_mul_add n d; hex_value cs m }"

text \<open>\<^verbatim>\<open>u32::from_str_radix(_, 16)\<close>: an optional plus sign, then at least one digit.\<close>

definition u32_from_hex :: "utext \<Rightarrow> nat option" where
  "u32_from_hex ds =
     (case ds of
        [] \<Rightarrow> None
      | c # cs \<Rightarrow> if c = ch CHR ''+'' then (if cs = [] then None else hex_value cs 0) else hex_value ds 0)"

fun until_brace :: "utext \<Rightarrow> utext \<Rightarrow> (utext \<times> utext) option" where
  "until_brace digits [] = None"
| "until_brace digits (c # cs) =
     (if c = ch CHR ''}'' then Some (digits, cs) else until_brace (digits @ [c]) cs)"

definition decode_escape :: "utext \<Rightarrow> (scalar \<times> utext) option" where
  "decode_escape chars =
     (case chars of
        [] \<Rightarrow> None
      | c # cs \<Rightarrow>
          if c = ch CHR ''n'' then Some (10, cs)
          else if c = ch CHR ''t'' then Some (9, cs)
          else if c = ch CHR ''r'' then Some (13, cs)
          else if c = ch CHR ''0'' then Some (0, cs)
          else if c = 92 then Some (92, cs)
          else if c = 34 then Some (34, cs)
          else if c = 39 then Some (39, cs)
          else if c = ch CHR ''u'' then
            (case cs of
               [] \<Rightarrow> None
             | b # bs \<Rightarrow>
                 if b \<noteq> ch CHR ''{'' then None
                 else do { (digits, rest) \<leftarrow> until_brace [] bs;
                           n \<leftarrow> u32_from_hex digits;
                           v \<leftarrow> char_from_u32 n;
                           Some (v, rest) })
          else None)"

definition strip_prefix :: "scalar \<Rightarrow> utext \<Rightarrow> utext option" where
  "strip_prefix p t = (case t of [] \<Rightarrow> None | c # cs \<Rightarrow> if c = p then Some cs else None)"

definition strip_suffix :: "scalar \<Rightarrow> utext \<Rightarrow> utext option" where
  "strip_suffix p t = (if t \<noteq> [] \<and> last t = p then Some (butlast t) else None)"

definition decode_char_literal :: "utext \<Rightarrow> scalar option" where
  "decode_char_literal raw = do {
     stripped \<leftarrow> strip_prefix 39 raw;
     inner \<leftarrow> strip_suffix 39 stripped;
     (value, rest) \<leftarrow>
       (case inner of
          [] \<Rightarrow> None
        | c # cs \<Rightarrow> if c = 92 then decode_escape cs else Some (c, cs));
     if rest = [] then Some value else None }"

lemma until_brace_shorter: "until_brace ds cs = Some (r, rest) \<Longrightarrow> length rest < length cs"
  by (induction ds cs rule: until_brace.induct) (auto split: if_splits)

lemma decode_escape_shorter: "decode_escape cs = Some (v, rest) \<Longrightarrow> length rest < length cs"
  by (cases cs)
    (auto simp: decode_escape_def bind_eq_Some_conv split: if_splits list.splits dest: until_brace_shorter)

function decode_chars :: "utext \<Rightarrow> utext option" where
  "decode_chars cs =
     (case cs of
        [] \<Rightarrow> Some []
      | c # rest \<Rightarrow>
          if c = 92 then
            (case decode_escape rest of
               None \<Rightarrow> None
             | Some (v, rest') \<Rightarrow> map_option (Cons v) (decode_chars rest'))
          else map_option (Cons c) (decode_chars rest))"
  by pat_completeness auto
termination
  by (relation "measure length") (auto dest: decode_escape_shorter)

declare decode_chars.simps [simp del]

definition decode_string_literal :: "utext \<Rightarrow> nat list option" where
  "decode_string_literal raw = do {
     stripped \<leftarrow> strip_prefix 34 raw;
     inner \<leftarrow> strip_suffix 34 stripped;
     out \<leftarrow> decode_chars inner;
     Some (str_bytes out) }"

section \<open>Integers\<close>

definition u64_try_from :: "nat \<Rightarrow> nat option" where
  "u64_try_from n = (if n < 2 ^ 64 then Some n else None)"

definition int_digit :: "nat \<Rightarrow> nat option" where
  "int_digit byte =
     (if ch CHR ''0'' \<le> byte \<and> byte \<le> ch CHR ''9'' then Some (byte - ch CHR ''0'')
      else if ch CHR ''a'' \<le> byte \<and> byte \<le> ch CHR ''f'' then Some (byte - ch CHR ''a'' + 10)
      else if ch CHR ''A'' \<le> byte \<and> byte \<le> ch CHR ''F'' then Some (byte - ch CHR ''A'' + 10)
      else None)"

fun int_digits :: "nat \<Rightarrow> nat list \<Rightarrow> nat \<Rightarrow> bool \<Rightarrow> (nat \<times> bool) option" where
  "int_digits radix [] value any = Some (value, any)"
| "int_digits radix (byte # bytes) value any =
     (if byte = ch CHR ''_'' then int_digits radix bytes value any
      else case int_digit byte of
             None \<Rightarrow> None
           | Some digit \<Rightarrow>
               if radix \<le> digit then None
               else do { m \<leftarrow> u64_try_from (value * radix);
                         v \<leftarrow> u64_try_from (m + digit);
                         int_digits radix bytes v True })"

definition radix_of :: "nat list \<Rightarrow> nat \<times> nat list" where
  "radix_of bytes =
     (case bytes of
        a # b # rest \<Rightarrow>
          if a = ch CHR ''0'' \<and> (b = ch CHR ''x'' \<or> b = ch CHR ''X'') then (16, rest)
          else if a = ch CHR ''0'' \<and> (b = ch CHR ''o'' \<or> b = ch CHR ''O'') then (8, rest)
          else if a = ch CHR ''0'' \<and> (b = ch CHR ''b'' \<or> b = ch CHR ''B'') then (2, rest)
          else (10, bytes)
      | _ \<Rightarrow> (10, bytes))"

definition decode_int_literal :: "utext \<Rightarrow> 64 word option" where
  "decode_int_literal raw =
     (let negative = (raw \<noteq> [] \<and> hd raw = ch CHR ''-'');
          magnitude = (case strip_prefix (ch CHR ''-'') raw of Some m \<Rightarrow> m | None \<Rightarrow> raw);
          (radix, digits) = radix_of (str_bytes magnitude)
      in case int_digits radix digits 0 False of
           None \<Rightarrow> None
         | Some (value, any) \<Rightarrow>
             let v = (of_nat value :: 64 word)
             in if any then Some (if negative then - v else v) else None)"

section \<open>Every 64-bit pattern is written and read in every radix\<close>

definition digit_char :: "nat \<Rightarrow> scalar" where
  "digit_char d = (if d < 10 then ch CHR ''0'' + d else ch CHR ''a'' + (d - 10))"

text \<open>The digits of a number in a radix, most significant first, as \<^verbatim>\<open>format!\<close> prints them.\<close>

fun show_radix :: "nat \<Rightarrow> nat \<Rightarrow> utext" where
  "show_radix b n = (if b \<le> 1 \<or> n < b then [digit_char n] else show_radix b (n div b) @ [digit_char (n mod b)])"

declare show_radix.simps [simp del]

datatype radix = Dec | Hex | Oct | Bin

fun radix_base :: "radix \<Rightarrow> nat" where
  "radix_base Dec = 10" | "radix_base Hex = 16" | "radix_base Oct = 8" | "radix_base Bin = 2"

fun radix_prefix :: "radix \<Rightarrow> utext" where
  "radix_prefix Dec = []"
| "radix_prefix Hex = str ''0x''" | "radix_prefix Oct = str ''0o''" | "radix_prefix Bin = str ''0b''"

definition format_int :: "bool \<Rightarrow> radix \<Rightarrow> nat \<Rightarrow> utext" where
  "format_int negative r n = (if negative then str ''-'' else []) @ radix_prefix r @ show_radix (radix_base r) n"

lemma int_digit_digit_char: "d < 16 \<Longrightarrow> int_digit (digit_char d) = Some d"
  by (auto simp: int_digit_def digit_char_def)

lemma digit_char_range: "d < 16 \<Longrightarrow> 48 \<le> digit_char d \<and> digit_char d < 103"
  by (auto simp: digit_char_def)

lemma digit_char_ne_underscore: "d < 16 \<Longrightarrow> digit_char d \<noteq> 95"
  by (auto simp: digit_char_def)

lemma show_radix_ne_Nil [simp]: "show_radix b n \<noteq> []"
  by (subst show_radix.simps) simp

lemma set_show_radix: "1 < b \<Longrightarrow> b \<le> 16 \<Longrightarrow> c \<in> set (show_radix b n) \<Longrightarrow> \<exists>d < b. c = digit_char d"
proof (induction b n rule: show_radix.induct)
  case (1 b n)
  show ?case
  proof (cases "n < b")
    case True
    with 1 show ?thesis by (auto simp: show_radix.simps [of b n])
  next
    case False
    have "n mod b < b" using "1.prems" by simp
    moreover have "c \<in> set (show_radix b (n div b)) \<or> c = digit_char (n mod b)"
      using False "1.prems" by (simp add: show_radix.simps [of b n]) blast
    moreover have "\<exists>d < b. c = digit_char d" if "c \<in> set (show_radix b (n div b))"
      using that False "1.IH" "1.prems"(1,2) by simp
    ultimately show ?thesis by blast
  qed
qed

lemma str_bytes_ascii: "\<forall>c \<in> set t. c < 128 \<Longrightarrow> str_bytes t = t"
  by (induction t) (auto simp: utf8_def)

lemma str_bytes_show_radix: "1 < b \<Longrightarrow> b \<le> 16 \<Longrightarrow> str_bytes (show_radix b n) = show_radix b n"
proof (rule str_bytes_ascii, rule ballI)
  fix c
  assume "1 < b" "b \<le> 16" "c \<in> set (show_radix b n)"
  then obtain d where "d < b" "c = digit_char d" using set_show_radix by blast
  then show "c < 128" using \<open>b \<le> 16\<close> digit_char_range [of d] by simp
qed

lemma int_digits_append:
  "int_digits b (xs @ ys) v any =
     (case int_digits b xs v any of None \<Rightarrow> None | Some (v', any') \<Rightarrow> int_digits b ys v' any')"
proof (induction xs arbitrary: v any)
  case (Cons x xs)
  show ?case
  proof (cases "x = ch CHR ''_''")
    case True
    with Cons show ?thesis by simp
  next
    case False
    then show ?thesis
      by (cases "int_digit x"; cases "u64_try_from (v * b)")
        (auto simp: Cons split: option.splits bind_splits)
  qed
qed simp

lemma int_digits_show_radix:
  assumes "1 < b" and "b \<le> 16"
  shows "int_digits b (show_radix b n) 0 False = (if n < 2 ^ 64 then Some (n, True) else None)"
  using assms
proof (induction b n rule: show_radix.induct)
  case (1 b n)
  have digit: "int_digits b [digit_char d] v any =
      (if v * b + d < 2 ^ 64 then Some (v * b + d, True) else None)" if "d < b" for d v any
  proof -
    from that "1.prems" have "d < 16" by simp
    then show ?thesis
      using that int_digit_digit_char [of d] digit_char_ne_underscore [of d]
      by (auto simp: u64_try_from_def)
  qed
  show ?case
  proof (cases "n < b")
    case True
    then have "n < 2 ^ 64" using "1.prems" by simp
    with True show ?thesis using digit [of n 0 False] by (simp add: show_radix.simps [of b n])
  next
    case False
    have "n mod b < b" using "1.prems" by simp
    note d = digit [OF this]
    have "int_digits b (show_radix b (n div b)) 0 False =
        (if n div b < 2 ^ 64 then Some (n div b, True) else None)"
      using False 1 by auto
    moreover have "n div b < 2 ^ 64" if "n < 2 ^ 64"
      using that div_le_dividend [of n b] by (rule order_le_less_trans [rotated])
    ultimately show ?thesis
      using False "1.prems" d [of "n div b" True]
      by (auto simp: show_radix.simps [of b n] int_digits_append simp del: int_digits.simps)
  qed
qed

lemma hd_show_radix: "1 < b \<Longrightarrow> b \<le> 16 \<Longrightarrow> \<exists>d < b. hd (show_radix b n) = digit_char d"
  by (rule set_show_radix [of b _ n]) simp_all

lemma show_radix_not_minus: "1 < b \<Longrightarrow> b \<le> 16 \<Longrightarrow> hd (show_radix b n) \<noteq> ch CHR ''-''"
  using hd_show_radix [of b n] by (auto simp: digit_char_def split: if_splits)

lemma radix_of_decimal: "radix_of (show_radix 10 n) = (10, show_radix 10 n)"
proof (cases "show_radix 10 n")
  case (Cons c cs)
  show ?thesis
  proof (cases cs)
    case Nil
    with Cons show ?thesis by (simp add: radix_of_def)
  next
    case (Cons d ds)
    with \<open>show_radix 10 n = c # cs\<close> have eq: "show_radix 10 n = c # d # ds" by simp
    then obtain k where "k < 10" "d = digit_char k" using set_show_radix [of 10 d n] by auto
    then have "d < 58" by (simp add: digit_char_def)
    then show ?thesis unfolding eq by (simp add: radix_of_def)
  qed
qed simp

lemma radix_of_format:
  "radix_of (str_bytes (radix_prefix r @ show_radix (radix_base r) n)) = (radix_base r, show_radix (radix_base r) n)"
  by (cases r)
    (simp_all add: str_bytes_show_radix radix_of_decimal str_def utf8_def, simp_all add: radix_of_def)

text \<open>
  an integer written in decimal, hexadecimal, octal or binary, with or without a leading
  minus, decodes to its 64-bit pattern (negated with wrap-around after a minus) when its
  magnitude fits 64 bits, and is rejected otherwise.
\<close>

theorem decode_int_literal_format:
  "decode_int_literal (format_int negative r n) =
     (if n < 2 ^ 64 then Some (if negative then - of_nat n else of_nat n) else None)"
proof -
  let ?m = "radix_prefix r @ show_radix (radix_base r) n"
  have b: "1 < radix_base r" "radix_base r \<le> 16" by (cases r; simp)+
  have hd: "hd ?m \<noteq> ch CHR ''-''" "?m \<noteq> []"
    using show_radix_not_minus [OF b] by (cases r; simp add: str_def)+
  have sp: "strip_prefix (ch CHR ''-'') ?m = None"
    using hd by (cases ?m) (auto simp: strip_prefix_def)
  have "int_digits (radix_base r) (show_radix (radix_base r) n) 0 False =
      (if n < 2 ^ 64 then Some (n, True) else None)"
    by (rule int_digits_show_radix [OF b])
  then show ?thesis
    using hd sp radix_of_format [of r n]
    by (cases negative)
      (auto simp: decode_int_literal_def format_int_def str_def Let_def strip_prefix_def
        split: prod.splits)
qed

end
