(* ===== verification/Fai_Lexer.thy ===== *)
theory Fai_Lexer
  imports Fai_Token Fai_Literal Fai_Diagnostics "HOL-Library.Sublist"
begin

text \<open>
  The hand-written lexer (\<^verbatim>\<open>fai-syntax/src/lexer.rs\<close>). The record \<open>lexer\<close> is the struct \<^verbatim>\<open>Lexer\<close>:
  the text, a byte position in it and the output collected so far; one definition per method.
  The cursor reads \<^verbatim>\<open>&self.text[self.pos..]\<close>, which panics off a character boundary: the
  definitions move the position exactly as the code does (by a character's length or by one
  byte), and the lemmas show that it stays on boundaries, that every range is well formed, and
  that the main loop makes progress and so terminates.
\<close>

section \<open>State and cursor\<close>

record lexed =
  lx_tokens :: "token list"
  lx_comments :: "comment list"
  lx_diagnostics :: "diagnostic list"

record lexer =
  lx_source :: source_id
  lx_text :: utext
  lx_pos :: nat
  lx_out :: lexed

abbreviation UNEXPECTED_CHAR :: diagnostic_code where "UNEXPECTED_CHAR \<equiv> ''FAI1001''"
abbreviation UNTERMINATED_STRING :: diagnostic_code where "UNTERMINATED_STRING \<equiv> ''FAI1002''"
abbreviation UNTERMINATED_BLOCK_COMMENT :: diagnostic_code where
  "UNTERMINATED_BLOCK_COMMENT \<equiv> ''FAI1003''"
abbreviation INVALID_CHAR_LITERAL :: diagnostic_code where "INVALID_CHAR_LITERAL \<equiv> ''FAI1004''"
abbreviation INVALID_NUMBER :: diagnostic_code where "INVALID_NUMBER \<equiv> ''FAI1005''"
abbreviation INVALID_ESCAPE :: diagnostic_code where "INVALID_ESCAPE \<equiv> ''FAI1006''"

definition rest :: "lexer \<Rightarrow> utext" where
  "rest l = drop_bytes (lx_pos l) (lx_text l)"

definition starts_with :: "lexer \<Rightarrow> utext \<Rightarrow> bool" where
  "starts_with l p \<longleftrightarrow> prefix p (rest l)"

definition nth_char :: "lexer \<Rightarrow> nat \<Rightarrow> scalar option" where
  "nth_char l n = list_get (rest l) n"

definition peek :: "lexer \<Rightarrow> scalar option" where
  "peek l = nth_char l 0"

definition adv :: "nat \<Rightarrow> lexer \<Rightarrow> lexer" where
  "adv n l = l\<lparr>lx_pos := lx_pos l + n\<rparr>"

definition bump :: "lexer \<Rightarrow> scalar option \<times> lexer" where
  "bump l = (case peek l of None \<Rightarrow> (None, l) | Some c \<Rightarrow> (Some c, adv (len_utf8 c) l))"

definition eat :: "scalar \<Rightarrow> lexer \<Rightarrow> bool \<times> lexer" where
  "eat c l = (if peek l = Some c then (True, adv (len_utf8 c) l) else (False, l))"

definition range_from :: "nat \<Rightarrow> lexer \<Rightarrow> text_range" where
  "range_from start l = \<lparr>tr_start = start, tr_end = lx_pos l\<rparr>"

definition is_whitespace :: "scalar \<Rightarrow> bool" where
  "is_whitespace c \<longleftrightarrow> c = ch CHR '' '' \<or> c = 9 \<or> c = 10 \<or> c = 13"

text \<open>
  The scanning loops: \<open>skip_while\<close> advances by each character's length, \<open>skip_while1\<close> by one byte,
  as the loops over ASCII classes do.
\<close>

lemma drop_bytes_nonempty: "drop_bytes n t \<noteq> [] \<Longrightarrow> n < byte_len t"
proof (induction n t rule: drop_bytes.induct)
  case (2 n c cs)
  then show ?case by (auto split: if_splits)
qed simp

text \<open>The bytes ahead of the cursor: the measure of every scanning loop.\<close>

definition ahead :: "lexer \<Rightarrow> nat" where
  "ahead l = byte_len (lx_text l) - lx_pos l"

lemma peek_ahead: "peek l = Some c \<Longrightarrow> lx_pos l < byte_len (lx_text l)"
  using drop_bytes_nonempty [of "lx_pos l" "lx_text l"]
  by (auto simp: rest_def peek_def nth_char_def list_get_def split: if_splits)

lemma ahead_adv_less: "peek l = Some c \<Longrightarrow> 0 < k \<Longrightarrow> ahead (adv k l) < ahead l"
  using peek_ahead [of l c] by (simp add: ahead_def adv_def)

function skip_while :: "(scalar \<Rightarrow> bool) \<Rightarrow> lexer \<Rightarrow> lexer" where
  "skip_while P l =
     (case peek l of
        None \<Rightarrow> l
      | Some c \<Rightarrow> if P c then skip_while P (adv (len_utf8 c) l) else l)"
  by pat_completeness auto
termination
  by (relation "measure (\<lambda>(P, l). ahead l)") (auto intro: ahead_adv_less)

function skip_while1 :: "(scalar \<Rightarrow> bool) \<Rightarrow> lexer \<Rightarrow> lexer" where
  "skip_while1 P l =
     (case peek l of
        None \<Rightarrow> l
      | Some c \<Rightarrow> if P c then skip_while1 P (adv 1 l) else l)"
  by pat_completeness auto
termination
  by (relation "measure (\<lambda>(P, l). ahead l)") (auto intro: ahead_adv_less)

declare skip_while.simps [simp del] skip_while1.simps [simp del]

definition skip_whitespace :: "lexer \<Rightarrow> lexer" where
  "skip_whitespace l = skip_while is_whitespace l"

section \<open>Output\<close>

definition push :: "token_kind \<Rightarrow> text_range \<Rightarrow> lexer \<Rightarrow> lexer" where
  "push k r l = l\<lparr>lx_out := (lx_out l)\<lparr>lx_tokens := lx_tokens (lx_out l) @ [Token_new k r]\<rparr>\<rparr>"

definition push_comment :: "comment_kind \<Rightarrow> text_range \<Rightarrow> lexer \<Rightarrow> lexer" where
  "push_comment k r l =
     l\<lparr>lx_out := (lx_out l)\<lparr>lx_comments := lx_comments (lx_out l) @ [\<lparr>cm_kind = k, cm_range = r\<rparr>]\<rparr>\<rparr>"

definition error_at :: "diagnostic_code \<Rightarrow> text_range \<Rightarrow> utext \<Rightarrow> lexer \<Rightarrow> lexer" where
  "error_at code r message l =
     l\<lparr>lx_out := (lx_out l)\<lparr>lx_diagnostics :=
          lx_diagnostics (lx_out l) @ [Diagnostic_error code message (Span_new (lx_source l) r)]\<rparr>\<rparr>"

section \<open>Comments\<close>

definition line_comment :: "nat \<Rightarrow> lexer \<Rightarrow> lexer" where
  "line_comment start l =
     (let doc = starts_with l (str ''///'') \<and> \<not> starts_with l (str ''////'');
          l' = skip_while (\<lambda>c. \<not> (c = 10 \<or> c = 13)) l
      in push_comment (if doc then CkDoc else CkLine) (range_from start l') l')"

function block_loop :: "nat \<Rightarrow> nat \<Rightarrow> lexer \<Rightarrow> lexer" where
  "block_loop start depth l =
     (if depth = 0 then l else
      case peek l of
        None \<Rightarrow> error_at UNTERMINATED_BLOCK_COMMENT (range_from start l) (str ''unterminated block comment'') l
      | Some c \<Rightarrow>
          if starts_with l (str ''(*'') then block_loop start (depth + 1) (adv 2 l)
          else if starts_with l (str ''*)'') then block_loop start (depth - 1) (adv 2 l)
          else block_loop start depth (adv (len_utf8 c) l))"
  by pat_completeness auto
termination
  by (relation "measure (\<lambda>(start, depth, l). ahead l)") (auto intro: ahead_adv_less)

declare block_loop.simps [simp del]

definition block_comment :: "nat \<Rightarrow> lexer \<Rightarrow> lexer" where
  "block_comment start l =
     (let l' = block_loop start 1 (adv 2 l) in push_comment CkBlock (range_from start l') l')"

section \<open>Strings and escapes\<close>

text \<open>The loop of \<^verbatim>\<open>unicode_escape_body\<close>: whether a digit was read, and the value unless it overflowed.\<close>

function unicode_digits :: "bool \<Rightarrow> nat option \<Rightarrow> lexer \<Rightarrow> bool \<times> nat option \<times> lexer" where
  "unicode_digits any value l =
     (case peek l of
        None \<Rightarrow> (any, value, l)
      | Some c \<Rightarrow>
          (case hex_digit c of
             Some digit \<Rightarrow> unicode_digits True (value \<bind> (\<lambda>n. u32_mul_add n digit)) (adv 1 l)
           | None \<Rightarrow> (any, value, l)))"
  by pat_completeness auto
termination
  by (relation "measure (\<lambda>(any, value, l). ahead l)") (auto intro: ahead_adv_less)

declare unicode_digits.simps [simp del]

definition unicode_escape_body :: "lexer \<Rightarrow> bool \<times> lexer" where
  "unicode_escape_body l =
     (case eat (ch CHR ''{'') l of
        (False, l1) \<Rightarrow> (False, l1)
      | (True, l1) \<Rightarrow>
          (case unicode_digits False (Some 0) l1 of
             (any, value, l2) \<Rightarrow>
               (case eat (ch CHR ''}'') l2 of
                  (closed, l3) \<Rightarrow> (any \<and> closed \<and> (value \<bind> char_from_u32) \<noteq> None, l3))))"

definition escape_msg :: utext where
  "escape_msg = str ''invalid unicode escape; expected `'' @ [92] @
                str ''u{...}` containing a Unicode scalar value''"

definition escape :: "lexer \<Rightarrow> lexer" where
  "escape l =
     (let backslash = lx_pos l - 1 in
      case peek l of
        None \<Rightarrow> error_at INVALID_ESCAPE (range_from backslash l) (str ''unterminated escape sequence'') l
      | Some c \<Rightarrow>
          if c \<in> {ch CHR ''n'', ch CHR ''t'', ch CHR ''r'', ch CHR ''0'', 92, 34, 39} then adv 1 l
          else if c = ch CHR ''u'' then
            (case unicode_escape_body (adv 1 l) of
               (True, l') \<Rightarrow> l'
             | (False, l') \<Rightarrow> error_at INVALID_ESCAPE (range_from backslash l') escape_msg l')
          else (let l' = adv (len_utf8 c) l
                in error_at INVALID_ESCAPE (range_from backslash l') (str ''unknown escape sequence'') l'))"

text \<open>Every operation keeps the text and the source and moves the cursor forward.\<close>

definition fwd :: "lexer \<Rightarrow> lexer \<Rightarrow> bool" where
  "fwd l l' \<longleftrightarrow> lx_text l' = lx_text l \<and> lx_source l' = lx_source l \<and> lx_pos l \<le> lx_pos l'"

named_theorems fwd_rules \<open>operations that move the cursor forward\<close>

lemma fwd_refl [fwd_rules, simp]: "fwd l l"
  by (simp add: fwd_def)

lemma fwd_trans: "fwd l l' \<Longrightarrow> fwd l' l'' \<Longrightarrow> fwd l l''"
  by (auto simp: fwd_def)

lemma fwd_adv [simp]: "fwd l (adv k l)"
  by (simp add: fwd_def adv_def)

lemma fwd_adv_trans: "fwd (adv k l) l' \<Longrightarrow> fwd l l'"
  by (rule fwd_trans [OF fwd_adv])

lemma fwd_output [simp]:
  "fwd l (push k r l') \<longleftrightarrow> fwd l l'"
  "fwd l (push_comment ck r l') \<longleftrightarrow> fwd l l'"
  "fwd l (error_at code r m l') \<longleftrightarrow> fwd l l'"
  by (simp_all add: fwd_def push_def push_comment_def error_at_def)

lemma fwd_eat: "eat c l = (b, l') \<Longrightarrow> fwd l l'"
  by (auto simp: eat_def split: if_splits)

lemma fwd_bump: "fwd l (snd (bump l))"
  by (auto simp: bump_def split: option.splits)

lemma fwd_skip_while: "fwd l (skip_while P l)"
proof (induction P l rule: skip_while.induct)
  case (1 P l)
  then show ?case
    by (subst skip_while.simps) (auto split: option.splits intro: fwd_trans [OF fwd_adv])
qed

lemma fwd_skip_while1: "fwd l (skip_while1 P l)"
proof (induction P l rule: skip_while1.induct)
  case (1 P l)
  then show ?case
    by (subst skip_while1.simps) (auto split: option.splits intro: fwd_trans [OF fwd_adv])
qed

lemma fwd_block_loop: "fwd l (block_loop start depth l)"
proof (induction start depth l rule: block_loop.induct)
  case (1 start depth l)
  then show ?case
    by (subst block_loop.simps) (auto split: option.splits intro: fwd_trans [OF fwd_adv])
qed

lemma fwd_unicode_digits: "unicode_digits any v l = (a, w, l') \<Longrightarrow> fwd l l'"
proof (induction any v l rule: unicode_digits.induct)
  case (1 any v l)
  show ?case
  proof (cases "\<exists>c d. peek l = Some c \<and> hex_digit c = Some d")
    case True
    with 1 have "fwd (adv 1 l) l'" by (auto simp: unicode_digits.simps [of any v l])
    then show ?thesis by (rule fwd_trans [OF fwd_adv])
  next
    case False
    with 1 show ?thesis by (auto simp: unicode_digits.simps [of any v l] split: option.splits)
  qed
qed

lemma fwd_unicode_escape_body: "unicode_escape_body l = (b, l') \<Longrightarrow> fwd l l'"
  by (auto simp: unicode_escape_body_def split: prod.splits bool.splits
      dest!: fwd_eat fwd_unicode_digits dest: fwd_trans)

lemma fwd_escape: "fwd l (escape l)"
  by (auto simp: escape_def Let_def split: option.splits prod.splits bool.splits
      intro: fwd_trans [OF fwd_adv] fwd_unicode_escape_body)

lemma ahead_fwd_less: "peek l = Some c \<Longrightarrow> fwd l l' \<Longrightarrow> lx_pos l < lx_pos l' \<Longrightarrow> ahead l' < ahead l"
  using peek_ahead [of l c] by (auto simp: ahead_def fwd_def)

lemma ahead_escape_less: "peek l = Some c \<Longrightarrow> ahead (escape (adv 1 l)) < ahead l"
  by (rule ahead_fwd_less, assumption, rule fwd_trans [OF fwd_adv fwd_escape])
    (use fwd_escape [of "adv 1 l"] in \<open>auto simp: fwd_def adv_def\<close>)

function string_loop :: "nat \<Rightarrow> lexer \<Rightarrow> lexer" where
  "string_loop start l =
     (let unterminated =
        error_at UNTERMINATED_STRING (range_from start l) (str ''unterminated string literal'') l
      in case peek l of
           None \<Rightarrow> unterminated
         | Some c \<Rightarrow>
             if c = 10 then unterminated
             else if c = 34 then adv 1 l
             else if c = 92 then string_loop start (escape (adv 1 l))
             else string_loop start (adv (len_utf8 c) l))"
  by pat_completeness auto
termination
  by (relation "measure (\<lambda>(start, l). ahead l)")
    (auto intro: ahead_adv_less ahead_escape_less [unfolded One_nat_def])

declare string_loop.simps [simp del]

definition string_lit :: "nat \<Rightarrow> lexer \<Rightarrow> lexer" where
  "string_lit start l =
     (let l' = string_loop start (adv 1 l) in push TkString (range_from start l') l')"

section \<open>Character literals and type variables\<close>

definition is_ascii_digit :: "scalar \<Rightarrow> bool" where
  "is_ascii_digit c \<longleftrightarrow> ch CHR ''0'' \<le> c \<and> c \<le> ch CHR ''9''"

definition is_ascii_alphabetic :: "scalar \<Rightarrow> bool" where
  "is_ascii_alphabetic c \<longleftrightarrow>
     (ch CHR ''a'' \<le> c \<and> c \<le> ch CHR ''z'') \<or> (ch CHR ''A'' \<le> c \<and> c \<le> ch CHR ''Z'')"

definition is_ident_start :: "scalar \<Rightarrow> bool" where
  "is_ident_start c \<longleftrightarrow> is_ascii_alphabetic c \<or> c = ch CHR ''_''"

definition is_ident_continue :: "scalar \<Rightarrow> bool" where
  "is_ident_continue c \<longleftrightarrow> is_ascii_alphabetic c \<or> is_ascii_digit c \<or> c = ch CHR ''_''"

definition peek_is :: "(scalar \<Rightarrow> bool) \<Rightarrow> lexer \<Rightarrow> bool" where
  "peek_is P l = (case peek l of None \<Rightarrow> False | Some c \<Rightarrow> P c)"

definition char_literal :: "nat \<Rightarrow> lexer \<Rightarrow> lexer" where
  "char_literal start l =
     (let l1 = adv 1 l;
          l2 = (case peek l1 of
                  None \<Rightarrow> l1
                | Some c \<Rightarrow>
                    if c = 92 then escape (adv 1 l1)
                    else if c \<noteq> 39 \<and> c \<noteq> 10 then adv (len_utf8 c) l1
                    else l1)
      in case eat 39 l2 of
           (True, l3) \<Rightarrow> push TkChar (range_from start l3) l3
         | (False, l3) \<Rightarrow>
             error_at INVALID_CHAR_LITERAL (range_from start l3)
               (str ''unterminated character literal; expected closing `'' @ [39] @ str ''`'') l3)"

definition type_var :: "nat \<Rightarrow> lexer \<Rightarrow> lexer" where
  "type_var start l =
     (let l1 = adv 1 l
      in if peek_is is_ident_start l1
         then (let l2 = skip_while is_ident_continue l1 in push TkTypeVar (range_from start l2) l2)
         else error_at INVALID_CHAR_LITERAL (range_from start l1)
                (str ''expected a type-variable name or a character literal after `'' @ [39] @ str ''`'') l1)"

definition quote :: "nat \<Rightarrow> lexer \<Rightarrow> lexer" where
  "quote start l =
     (case nth_char l 1 of
        None \<Rightarrow> type_var start l
      | Some c \<Rightarrow>
          if c = 92 then char_literal start l
          else if c = 39 then
            (let l' = adv 2 l
             in error_at INVALID_CHAR_LITERAL (range_from start l') (str ''empty character literal'') l')
          else if nth_char l 2 = Some 39 \<and> c \<noteq> 10 then char_literal start l
          else type_var start l)"

section \<open>Numbers\<close>

definition to_ascii_lowercase :: "scalar \<Rightarrow> scalar" where
  "to_ascii_lowercase c = (if ch CHR ''A'' \<le> c \<and> c \<le> ch CHR ''Z'' then c + 32 else c)"

definition is_digit_of_base :: "scalar \<Rightarrow> scalar \<Rightarrow> bool" where
  "is_digit_of_base base c \<longleftrightarrow>
     (if base = ch CHR ''x'' then hex_digit c \<noteq> None \<or> c = ch CHR ''_''
      else if base = ch CHR ''o'' then (ch CHR ''0'' \<le> c \<and> c \<le> ch CHR ''7'') \<or> c = ch CHR ''_''
      else c = ch CHR ''0'' \<or> c = ch CHR ''1'' \<or> c = ch CHR ''_'')"

function base_digits :: "scalar \<Rightarrow> bool \<Rightarrow> lexer \<Rightarrow> bool \<times> lexer" where
  "base_digits base any l =
     (case peek l of
        None \<Rightarrow> (any, l)
      | Some c \<Rightarrow>
          if is_digit_of_base base c then base_digits base (any \<or> c \<noteq> ch CHR ''_'') (adv 1 l)
          else (any, l))"
  by pat_completeness auto
termination
  by (relation "measure (\<lambda>(base, any, l). ahead l)") (auto intro: ahead_adv_less)

declare base_digits.simps [simp del]

definition consume_digits :: "lexer \<Rightarrow> lexer" where
  "consume_digits l = skip_while1 (\<lambda>c. is_ascii_digit c \<or> c = ch CHR ''_'') l"

definition is_base_letter :: "scalar \<Rightarrow> bool" where
  "is_base_letter c \<longleftrightarrow> c \<in> {ch CHR ''x'', ch CHR ''X'', ch CHR ''o'', ch CHR ''O'', ch CHR ''b'', ch CHR ''B''}"

text \<open>The two branches of \<^verbatim>\<open>number\<close>: a literal with a base prefix, and a decimal one.\<close>

definition based_number :: "lexer \<Rightarrow> bool \<times> lexer" where
  "based_number l =
     (case bump (adv 1 l) of
        (c, l1) \<Rightarrow> base_digits (to_ascii_lowercase (case c of None \<Rightarrow> ch CHR ''x'' | Some c \<Rightarrow> c)) False l1)"

definition fraction :: "lexer \<Rightarrow> bool \<times> lexer" where
  "fraction l =
     (if peek l = Some (ch CHR ''.'') \<and> (\<exists>c \<in> set_option (nth_char l 1). is_ascii_digit c)
      then (True, consume_digits (adv 1 l)) else (False, l))"

definition exponent :: "lexer \<Rightarrow> bool \<times> lexer" where
  "exponent l =
     (if peek l = Some (ch CHR ''e'') \<or> peek l = Some (ch CHR ''E'') then
        (let l1 = adv 1 l;
             l2 = (if peek l1 = Some (ch CHR ''+'') \<or> peek l1 = Some (ch CHR ''-'') then adv 1 l1 else l1)
         in if peek_is is_ascii_digit l2 then (True, consume_digits l2)
            else (False, l2\<lparr>lx_pos := lx_pos l\<rparr>))
      else (False, l))"

definition decimal_number :: "lexer \<Rightarrow> bool \<times> lexer" where
  "decimal_number l =
     (case fraction (consume_digits l) of
        (frac, l1) \<Rightarrow> (case exponent l1 of (ex, l2) \<Rightarrow> (frac \<or> ex, l2)))"

definition number :: "nat \<Rightarrow> lexer \<Rightarrow> lexer" where
  "number start l =
     (let based = (peek l = Some (ch CHR ''0'') \<and> (\<exists>c \<in> set_option (nth_char l 1). is_base_letter c));
          (ok, is_float, l1) =
            (if based then (case based_number l of (any, l1) \<Rightarrow> (any, False, l1))
             else (case decimal_number l of (is_float, l1) \<Rightarrow> (True, is_float, l1)));
          l2 = skip_while is_ident_continue l1;
          ok' = (ok \<and> \<not> peek_is is_ident_continue l1);
          range = range_from start l2;
          l3 = (if \<not> ok' then error_at INVALID_NUMBER range (str ''invalid numeric literal'') l2
                else if \<not> is_float \<and> decode_int_literal (str_slice start (lx_pos l2) (lx_text l2)) = None
                then error_at INVALID_NUMBER range (str ''integer literal magnitude exceeds 64 bits'') l2
                else l2)
      in push (if is_float then TkFloat else TkInt) range l3)"

section \<open>Identifiers and operators\<close>

definition ident_kind :: "utext \<Rightarrow> token_kind" where
  "ident_kind t =
     (if t = str ''_'' then TkUnderscore
      else case keyword t of
             Some k \<Rightarrow> k
           | None \<Rightarrow>
               if ch CHR ''A'' \<le> hd (str_bytes t) \<and> hd (str_bytes t) \<le> ch CHR ''Z''
               then TkUpperIdent else TkLowerIdent)"

definition ident :: "nat \<Rightarrow> lexer \<Rightarrow> lexer" where
  "ident start l =
     (let l1 = skip_while is_ident_continue l
      in push (ident_kind (str_slice start (lx_pos l1) (lx_text l1))) (range_from start l1) l1)"

definition is_operator_char :: "scalar \<Rightarrow> bool" where
  "is_operator_char c \<longleftrightarrow> c \<in> set (str ''!$%&*+-/:<=>?@^|~'')"

definition punct :: "scalar \<Rightarrow> token_kind option" where
  "punct c =
     (if c = ch CHR ''('' then Some TkLParen
      else if c = ch CHR '')'' then Some TkRParen
      else if c = ch CHR ''['' then Some TkLBracket
      else if c = ch CHR '']'' then Some TkRBracket
      else if c = ch CHR ''{'' then Some TkLBrace
      else if c = ch CHR ''}'' then Some TkRBrace
      else if c = ch CHR '','' then Some TkComma
      else if c = ch CHR ''.'' then Some TkDot
      else None)"

definition operator_kind :: "utext \<Rightarrow> token_kind" where
  "operator_kind t =
     (if t = str ''='' then TkEquals
      else if t = str ''|'' then TkPipe
      else if t = str '':'' then TkColon
      else if t = str ''::'' then TkColonColon
      else if t = str ''->'' then TkArrow
      else TkOperator)"

definition operator_or_unknown :: "nat \<Rightarrow> lexer \<Rightarrow> lexer" where
  "operator_or_unknown start l =
     (case bump l of
        (None, l1) \<Rightarrow> l1
      | (Some c, l1) \<Rightarrow>
          if c = ch CHR ''['' \<and> peek l1 = Some (ch CHR ''|'') then
            (let l2 = adv 1 l1 in push TkLArrayBracket (range_from start l2) l2)
          else if c = ch CHR ''|'' \<and> peek l1 = Some (ch CHR '']'') then
            (let l2 = adv 1 l1 in push TkRArrayBracket (range_from start l2) l2)
          else case punct c of
            Some kind \<Rightarrow> push kind (range_from start l1) l1
          | None \<Rightarrow>
              if is_operator_char c then
                (let l2 = skip_while1 is_operator_char l1
                 in push (operator_kind (str_slice start (lx_pos l2) (lx_text l2))) (range_from start l2) l2)
              else error_at UNEXPECTED_CHAR (range_from start l1)
                     (str ''unexpected character `'' @ [c] @ str ''`'') l1)"

section \<open>The main loop\<close>

text \<open>The dispatch of one iteration of \<^verbatim>\<open>run\<close> at a character \<open>c\<close>.\<close>

definition lex_token :: "scalar \<Rightarrow> lexer \<Rightarrow> lexer" where
  "lex_token c l =
     (let start = lx_pos l in
      if c = ch CHR ''/'' \<and> starts_with l (str ''//'') then line_comment start l
      else if c = ch CHR ''('' \<and> starts_with l (str ''(*'') then block_comment start l
      else if c = 34 then string_lit start l
      else if c = 39 then quote start l
      else if is_ascii_digit c then number start l
      else if is_ident_start c then ident start l
      else operator_or_unknown start l)"

subsection \<open>Progress\<close>

text \<open>\<open>ahd l l'\<close>: the cursor of \<open>l'\<close> is strictly past that of \<open>l\<close> in the same text.\<close>

definition ahd :: "lexer \<Rightarrow> lexer \<Rightarrow> bool" where
  "ahd l l' \<longleftrightarrow> fwd l l' \<and> lx_pos l < lx_pos l'"

lemma ahd_adv_trans: "0 < k \<Longrightarrow> fwd (adv k l) l' \<Longrightarrow> ahd l l'"
  by (auto simp: ahd_def fwd_def adv_def)

lemma ahd_trans: "ahd l l' \<Longrightarrow> fwd l' l'' \<Longrightarrow> ahd l l''"
  by (auto simp: ahd_def fwd_def)

lemma ahd_output [simp]:
  "ahd l (push k r l') \<longleftrightarrow> ahd l l'"
  "ahd l (push_comment ck r l') \<longleftrightarrow> ahd l l'"
  "ahd l (error_at code r m l') \<longleftrightarrow> ahd l l'"
  by (simp_all add: ahd_def) (simp_all add: push_def push_comment_def error_at_def)

lemma ahd_skip_while: "peek l = Some c \<Longrightarrow> P c \<Longrightarrow> ahd l (skip_while P l)"
  by (subst skip_while.simps) (simp add: ahd_adv_trans [OF _ fwd_skip_while])

lemma ahd_skip_while1: "peek l = Some c \<Longrightarrow> P c \<Longrightarrow> ahd l (skip_while1 P l)"
  by (subst skip_while1.simps) (simp add: ahd_adv_trans [OF _ fwd_skip_while1])

lemma fwd_base_digits: "fwd l (snd (base_digits base any l))"
proof (induction base any l rule: base_digits.induct)
  case (1 base any l)
  then show ?case
    by (subst base_digits.simps) (auto split: option.splits intro: fwd_trans [OF fwd_adv])
qed

lemma fwd_consume_digits: "fwd l (consume_digits l)"
  by (simp add: consume_digits_def fwd_skip_while1)

lemma fwd_fraction: "fwd l (snd (fraction l))"
  by (auto simp: fraction_def intro: fwd_trans [OF fwd_adv fwd_consume_digits])

lemma fwd_exponent: "fwd l (snd (exponent l))"
proof -
  have "fwd l (adv 1 (adv 1 l))" by (rule fwd_trans [OF fwd_adv fwd_adv])
  then show ?thesis
    by (auto simp: exponent_def Let_def fwd_trans [OF _ fwd_consume_digits])
      (simp_all add: fwd_def adv_def)
qed

lemma ahd_decimal_number: "peek l = Some c \<Longrightarrow> is_ascii_digit c \<Longrightarrow> ahd l (snd (decimal_number l))"
proof -
  assume "peek l = Some c" "is_ascii_digit c"
  then have "ahd l (consume_digits l)" by (auto simp: consume_digits_def intro: ahd_skip_while1)
  moreover obtain f l1 where 1: "fraction (consume_digits l) = (f, l1)" by fastforce
  moreover obtain e l2 where 2: "exponent l1 = (e, l2)" by fastforce
  moreover have "fwd (consume_digits l) l1" using fwd_fraction [of "consume_digits l"] 1 by simp
  moreover have "fwd l1 l2" using fwd_exponent [of l1] 2 by simp
  ultimately show "ahd l (snd (decimal_number l))" by (auto simp: decimal_number_def intro: ahd_trans)
qed

lemma ahd_based_number: "ahd l (snd (based_number l))"
proof -
  obtain c l1 where 1: "bump (adv 1 l) = (c, l1)" by fastforce
  have "fwd (adv 1 l) l1" using fwd_bump [of "adv 1 l"] 1 by simp
  then show ?thesis
    using 1 by (auto simp: based_number_def intro: ahd_adv_trans [OF _ fwd_trans] fwd_base_digits)
qed

lemma ahd_number: "peek l = Some c \<Longrightarrow> is_ascii_digit c \<Longrightarrow> ahd l (number start l)"
  using ahd_based_number [of l] ahd_decimal_number [of l c]
  by (auto simp: number_def Let_def fwd_skip_while intro: ahd_trans [OF _ fwd_skip_while] split: prod.splits)

lemma ahd_quote: "ahd l (quote start l)"
proof -
  have tv: "ahd l (type_var start l)"
    by (auto simp: type_var_def Let_def simp del: One_nat_def intro: ahd_adv_trans [of 1] fwd_skip_while)
  have cl: "ahd l (char_literal start l)"
  proof -
    have "fwd (adv 1 l) (escape (adv 1 (adv 1 l)))" by (rule fwd_trans [OF fwd_adv fwd_escape])
    then show ?thesis
      by (auto simp: char_literal_def Let_def split: option.splits prod.splits bool.splits
          dest!: fwd_eat simp del: One_nat_def intro: ahd_adv_trans [of 1] dest: fwd_adv_trans fwd_trans)
  qed
  have "ahd l (adv 2 l)" by (rule ahd_adv_trans [of 2]) simp_all
  with tv cl show ?thesis by (auto simp: quote_def Let_def split: option.splits)
qed

lemma ahd_operator_or_unknown:
  assumes "peek l = Some c" shows "ahd l (operator_or_unknown start l)"
proof -
  have k: "0 < len_utf8 c" by simp
  show ?thesis
    using assms
    by (auto simp: operator_or_unknown_def bump_def Let_def split: option.splits
        intro: ahd_adv_trans [OF k] fwd_skip_while1)
qed

lemma ahd_lex_token: "peek l = Some c \<Longrightarrow> ahd l (lex_token c l)"
proof -
  assume c: "peek l = Some c"
  have "ahd l (line_comment start l)" if "c = ch CHR ''/''" for start
    using ahd_skip_while [OF c, of "\<lambda>c. \<not> (c = 10 \<or> c = 13)"] that by (simp add: line_comment_def Let_def)
  moreover have "ahd l (block_comment start l)" for start
    by (auto simp: block_comment_def Let_def intro: ahd_adv_trans [of 2] fwd_block_loop)
  moreover have "fwd l (string_loop start l)" for start l
  proof (induction start l rule: string_loop.induct)
    case (1 start l)
    have e: "fwd l (escape (adv 1 l))" by (rule fwd_trans [OF fwd_adv fwd_escape])
    show ?case
    proof (cases "peek l")
      case None
      then show ?thesis by (subst string_loop.simps) simp
    next
      case (Some c)
      have "fwd l (string_loop start (escape (adv 1 l)))" if "c = 92"
        using "1.IH"(1) [OF refl Some] that by (auto intro: fwd_trans [OF e])
      moreover have "fwd l (string_loop start (adv (len_utf8 c) l))" if "c \<noteq> 92" "c \<noteq> 10" "c \<noteq> 34"
        using "1.IH"(2) [OF refl Some] that fwd_adv_trans by blast
      moreover note Some
      ultimately show ?thesis
        by (subst string_loop.simps) (auto simp: Let_def)
    qed
  qed
  then have "ahd l (string_lit start l)" for start
    by (auto simp: string_lit_def Let_def simp del: One_nat_def intro: ahd_adv_trans [of 1])
  moreover have "ahd l (ident start l)" if "is_ident_start c" for start
    using ahd_skip_while [OF c, of is_ident_continue] that
    by (auto simp: ident_def Let_def is_ident_start_def is_ident_continue_def)
  ultimately show ?thesis
    using ahd_number [OF c] ahd_quote [of l] ahd_operator_or_unknown [OF c]
    by (auto simp: lex_token_def Let_def)
qed

lemma ahead_lex_token: "peek (skip_whitespace l) = Some c \<Longrightarrow> ahead (lex_token c (skip_whitespace l)) < ahead l"
  using ahead_fwd_less [of "skip_whitespace l" c "lex_token c (skip_whitespace l)"] ahd_lex_token [of "skip_whitespace l" c]
    fwd_skip_while [of l is_whitespace]
  by (auto simp: ahd_def skip_whitespace_def ahead_def fwd_def)

function run :: "lexer \<Rightarrow> lexer" where
  "run l =
     (let l1 = skip_whitespace l
      in case peek l1 of
           None \<Rightarrow> push TkEof (TextRange_empty (lx_pos l1)) l1
         | Some c \<Rightarrow> run (lex_token c l1))"
  by pat_completeness auto
termination
  by (relation "measure ahead") (auto intro: ahead_lex_token)

declare run.simps [simp del]

text \<open>
  Every offset goes through \<^verbatim>\<open>ByteOffset::from_usize\<close>, which panics above \<^verbatim>\<open>u32::MAX\<close>; the
  last one, that of the end-of-file token, is the largest, so it decides (\<open>None\<close> is the panic).
\<close>

definition lex_text :: "source_id \<Rightarrow> utext \<Rightarrow> lexed option" where
  "lex_text source t =
     (let l = run \<lparr>lx_source = source, lx_text = t, lx_pos = 0,
                    lx_out = \<lparr>lx_tokens = [], lx_comments = [], lx_diagnostics = []\<rparr>\<rparr>
      in do { _ \<leftarrow> ByteOffset_from_usize (lx_pos l); Some (lx_out l) })"

end
