(* ===== verification/Fai_Lexing.thy ===== *)
theory Fai_Lexing
  imports Fai_Lexer
begin

text \<open>
  What the lexer computes: an abstract account of a text as a sequence of pieces (tokens,
  comments, rejected text, whitespace), and the proof that \<open>lex_text\<close> refines it.
\<close>

section \<open>Reading at a cursor\<close>

text \<open>\<open>lex_at l xs ys\<close>: the cursor stands between the read text \<open>xs\<close> and the rest \<open>ys\<close>.\<close>

definition lex_at :: "lexer \<Rightarrow> utext \<Rightarrow> utext \<Rightarrow> bool" where
  "lex_at l xs ys \<longleftrightarrow> lx_text l = xs @ ys \<and> lx_pos l = byte_len xs"

definition piece :: "utext \<Rightarrow> utext \<Rightarrow> text_range" where
  "piece xs zs = \<lparr>tr_start = byte_len xs, tr_end = byte_len (xs @ zs)\<rparr>"

text \<open>
  \<open>emits l xs zs ys l' ts cs ds\<close>: from \<open>l\<close>, which stands between \<open>xs\<close> and \<open>zs @ ys\<close>, the lexer
  has read \<open>zs\<close> and appended the tokens, comments and diagnostics given.
\<close>

definition emits ::
  "lexer \<Rightarrow> utext \<Rightarrow> utext \<Rightarrow> utext \<Rightarrow> lexer \<Rightarrow> token list \<Rightarrow> comment list \<Rightarrow> diagnostic list \<Rightarrow> bool" where
  "emits l xs zs ys l' ts cs ds \<longleftrightarrow>
     lex_at l xs (zs @ ys) \<and> lex_at l' (xs @ zs) ys \<and> lx_source l' = lx_source l \<and>
     lx_tokens (lx_out l') = lx_tokens (lx_out l) @ ts \<and>
     lx_comments (lx_out l') = lx_comments (lx_out l) @ cs \<and>
     lx_diagnostics (lx_out l') = lx_diagnostics (lx_out l) @ ds"

abbreviation reads :: "lexer \<Rightarrow> utext \<Rightarrow> utext \<Rightarrow> utext \<Rightarrow> lexer \<Rightarrow> diagnostic list \<Rightarrow> bool" where
  "reads l xs zs ys l' ds \<equiv> emits l xs zs ys l' [] [] ds"

lemma lex_at_rest: "lex_at l xs ys \<Longrightarrow> rest l = ys"
  by (simp add: lex_at_def rest_def)

lemma nth_char_at: "lex_at l xs ys \<Longrightarrow> nth_char l n = list_get ys n"
  by (simp add: nth_char_def lex_at_rest)

lemma peek_at: "lex_at l xs ys \<Longrightarrow> peek l = (case ys of [] \<Rightarrow> None | c # _ \<Rightarrow> Some c)"
  by (simp add: peek_def nth_char_at list_get_def split: list.splits)

lemma peek_at_Cons [simp]: "lex_at l xs (c # ys) \<Longrightarrow> peek l = Some c"
  by (simp add: peek_at)

lemma peek_at_Nil [simp]: "lex_at l xs [] \<Longrightarrow> peek l = None"
  by (simp add: peek_at)

lemma starts_with_at: "lex_at l xs ys \<Longrightarrow> starts_with l p \<longleftrightarrow> prefix p ys"
  by (simp add: starts_with_def lex_at_rest)

lemma emits_at: "emits l xs zs ys l' ts cs ds \<Longrightarrow> lex_at l' (xs @ zs) ys"
  by (simp add: emits_def)

lemma emits_source: "emits l xs zs ys l' ts cs ds \<Longrightarrow> lx_source l' = lx_source l"
  by (simp add: emits_def)

lemma reads_refl: "lex_at l xs ys \<Longrightarrow> reads l xs [] ys l []"
  by (simp add: emits_def)

lemma emits_trans:
  "emits l xs zs (zs' @ ys) l' ts cs ds \<Longrightarrow> emits l' (xs @ zs) zs' ys l'' ts' cs' ds' \<Longrightarrow>
   emits l xs (zs @ zs') ys l'' (ts @ ts') (cs @ cs') (ds @ ds')"
  by (simp add: emits_def)

lemma reads_trans:
  "reads l xs zs (zs' @ ys) l' ds \<Longrightarrow> reads l' (xs @ zs) zs' ys l'' ds' \<Longrightarrow>
   reads l xs (zs @ zs') ys l'' (ds @ ds')"
  using emits_trans [of l xs zs zs' ys l' "[]" "[]" ds l'' "[]" "[]" ds'] by simp

lemma reads_adv: "lex_at l xs (zs @ ys) \<Longrightarrow> k = byte_len zs \<Longrightarrow> reads l xs zs ys (adv k l) []"
  by (simp add: emits_def lex_at_def adv_def)

lemma reads_adv_char: "lex_at l xs (c # ys) \<Longrightarrow> reads l xs [c] ys (adv (len_utf8 c) l) []"
  by (rule reads_adv) simp_all

lemma reads_adv_ascii: "lex_at l xs (c # ys) \<Longrightarrow> c < 128 \<Longrightarrow> reads l xs [c] ys (adv 1 l) []"
  by (rule reads_adv) (simp_all add: len_utf8_def)

lemma range_from_at: "lex_at l (xs @ zs) ys \<Longrightarrow> range_from (byte_len xs) l = piece xs zs"
  by (simp add: range_from_def piece_def lex_at_def)

lemma slice_at: "lex_at l (xs @ zs) ys \<Longrightarrow> str_slice (byte_len xs) (lx_pos l) (lx_text l) = zs"
  by (simp add: lex_at_def str_slice_def)

lemma emits_push:
  "emits l xs zs ys l' ts cs ds \<Longrightarrow> emits l xs zs ys (push k r l') (ts @ [Token_new k r]) cs ds"
  by (simp add: emits_def push_def lex_at_def)

lemma emits_push_comment:
  "emits l xs zs ys l' ts cs ds \<Longrightarrow>
   emits l xs zs ys (push_comment k r l') ts (cs @ [\<lparr>cm_kind = k, cm_range = r\<rparr>]) ds"
  by (simp add: emits_def push_comment_def lex_at_def)

lemma emits_error_at:
  "emits l xs zs ys l' ts cs ds \<Longrightarrow>
   emits l xs zs ys (error_at code r m l') ts cs (ds @ [Diagnostic_error code m (Span_new (lx_source l) r)])"
  by (simp add: emits_def error_at_def lex_at_def)

section \<open>The scanning loops\<close>

lemma reads_skip_while:
  "lex_at l xs ys \<Longrightarrow> reads l xs (takeWhile P ys) (dropWhile P ys) (skip_while P l) []"
proof (induction P l arbitrary: xs ys rule: skip_while.induct)
  case (1 P l)
  show ?case
  proof (cases "\<exists>c cs. ys = c # cs \<and> P c")
    case True
    then obtain c cs where ys: "ys = c # cs" "P c" by blast
    with "1.prems" have step: "reads l xs [c] cs (adv (len_utf8 c) l) []" by (simp add: reads_adv_char)
    have "peek l = Some c" using "1.prems" ys by simp
    from "1.IH" [OF this ys(2) emits_at [OF step]]
    have "reads (adv (len_utf8 c) l) (xs @ [c]) (takeWhile P cs) (dropWhile P cs)
        (skip_while P (adv (len_utf8 c) l)) []" .
    with step have "reads l xs ([c] @ takeWhile P cs) (dropWhile P cs) (skip_while P (adv (len_utf8 c) l)) ([] @ [])"
      by - (rule reads_trans, simp_all)
    with ys "1.prems" show ?thesis by (simp add: skip_while.simps [of P l])
  next
    case False
    with "1.prems" show ?thesis
      by (cases ys) (auto simp: skip_while.simps [of P l] reads_refl)
  qed
qed

lemma skip_while1_eq: "(\<And>c. P c \<Longrightarrow> c < 128) \<Longrightarrow> skip_while1 P l = skip_while P l"
proof (induction P l rule: skip_while1.induct)
  case (1 P l)
  show ?case
  proof (cases "\<exists>c. peek l = Some c \<and> P c")
    case True
    then obtain c where c: "peek l = Some c" "P c" by blast
    moreover have "len_utf8 c = 1" using "1.prems" [OF c(2)] by (simp add: len_utf8_def)
    ultimately show ?thesis
      using "1.IH" [OF c] "1.prems" by (simp add: skip_while.simps [of P l] skip_while1.simps [of P l])
  next
    case False
    then show ?thesis
      by (auto simp: skip_while.simps [of P l] skip_while1.simps [of P l] split: option.splits)
  qed
qed

lemma reads_skip_while1:
  "lex_at l xs ys \<Longrightarrow> (\<And>c. P c \<Longrightarrow> c < 128) \<Longrightarrow>
   reads l xs (takeWhile P ys) (dropWhile P ys) (skip_while1 P l) []"
  by (simp add: skip_while1_eq reads_skip_while)

lemma reads_eat:
  "lex_at l xs ys \<Longrightarrow>
   (case eat c l of
      (True, l') \<Rightarrow> (\<exists>ys'. ys = c # ys' \<and> reads l xs [c] ys' l' [])
    | (False, l') \<Rightarrow> l' = l \<and> (\<forall>ys'. ys \<noteq> c # ys'))"
  by (cases ys) (auto simp: eat_def reads_adv_char)

text \<open>A diagnostic of the lexer about a part of the piece \<open>zs\<close> that stands after \<open>xs\<close>.\<close>

definition diag_within :: "source_id \<Rightarrow> utext \<Rightarrow> utext \<Rightarrow> diagnostic \<Rightarrow> bool" where
  "diag_within s xs zs d \<longleftrightarrow>
     (\<exists>code m as bs cs. zs = as @ bs @ cs \<and> d = Diagnostic_error code m (Span_new s (piece (xs @ as) bs)))"

lemma diag_within_extend: "diag_within s xs zs d \<Longrightarrow> diag_within s xs (zs @ zs') d"
  unfolding diag_within_def by (metis append.assoc)

lemma diag_within_shift: "diag_within s (xs @ as) zs d \<Longrightarrow> diag_within s xs (as @ zs) d"
  unfolding diag_within_def by (metis append.assoc)

lemma diag_within_whole: "diag_within s xs zs (Diagnostic_error code m (Span_new s (piece xs zs)))"
  unfolding diag_within_def by (metis append_Nil append_Nil2)

lemma reads_block_loop:
  "lex_at l (xs @ zs) ys \<Longrightarrow>
   \<exists>ws ys' ds. ys = ws @ ys' \<and> reads l (xs @ zs) ws ys' (block_loop (byte_len xs) depth l) ds \<and>
      (ds = [] \<or> ds = [Diagnostic_error UNTERMINATED_BLOCK_COMMENT (str ''unterminated block comment'')
                          (Span_new (lx_source l) (piece xs (zs @ ws)))])"
proof (induction "byte_len xs" depth l arbitrary: zs ys rule: block_loop.induct)
  case (1 depth l)
  let ?goal = "\<lambda>ds ws. ds = [] \<or> ds = [Diagnostic_error UNTERMINATED_BLOCK_COMMENT (str ''unterminated block comment'')
      (Span_new (lx_source l) (piece xs (zs @ ws)))]"
  have rec: "\<exists>ws ys' ds. ys = ws @ ys' \<and> reads l (xs @ zs) ws ys' (block_loop (byte_len xs) d' (adv k l)) ds \<and> ?goal ds ws"
    if IH: "\<And>zs ys. lex_at (adv k l) (xs @ zs) ys \<Longrightarrow> \<exists>ws ys' ds. ys = ws @ ys' \<and>
        reads (adv k l) (xs @ zs) ws ys' (block_loop (byte_len xs) d' (adv k l)) ds \<and>
        (ds = [] \<or> ds = [Diagnostic_error UNTERMINATED_BLOCK_COMMENT (str ''unterminated block comment'')
             (Span_new (lx_source (adv k l)) (piece xs (zs @ ws)))])"
      and step: "reads l (xs @ zs) us vs (adv k l) []" and ys: "ys = us @ vs" for d' k us vs
  proof -
    from IH [of "zs @ us" vs] emits_at [OF step]
    obtain ws ys' ds where w: "vs = ws @ ys'" "reads (adv k l) (xs @ zs @ us) ws ys' (block_loop (byte_len xs) d' (adv k l)) ds"
      "ds = [] \<or> ds = [Diagnostic_error UNTERMINATED_BLOCK_COMMENT (str ''unterminated block comment'')
             (Span_new (lx_source (adv k l)) (piece xs ((zs @ us) @ ws)))]"
      by auto
    with step have "reads l (xs @ zs) (us @ ws) ys' (block_loop (byte_len xs) d' (adv k l)) ([] @ ds)"
      by - (rule reads_trans, simp_all)
    with w ys emits_source [OF step] show ?thesis
      by (intro exI [of _ "us @ ws"] exI [of _ ys'] exI [of _ ds]) auto
  qed
  show ?case
  proof (cases "depth = 0")
    case True
    with "1.prems" have "ys = [] @ ys \<and> reads l (xs @ zs) [] ys (block_loop (byte_len xs) depth l) []"
      by (subst block_loop.simps) (simp add: reads_refl)
    then show ?thesis by blast
  next
    case False
    show ?thesis
    proof (cases ys)
      case Nil
      with "1.prems" have "peek l = None" by simp
      with False "1.prems" Nil have "reads l (xs @ zs) [] [] (block_loop (byte_len xs) depth l)
          ([] @ [Diagnostic_error UNTERMINATED_BLOCK_COMMENT (str ''unterminated block comment'')
             (Span_new (lx_source l) (piece xs zs))])"
        using emits_error_at [OF reads_refl] range_from_at [of l xs zs "[]"]
        by (simp add: block_loop.simps [of _ depth l])
      then have "\<exists>ds. reads l (xs @ zs) [] [] (block_loop (byte_len xs) depth l) ds \<and> ?goal ds []"
        by (intro exI conjI, assumption) simp
      with Nil show ?thesis by blast
    next
      case (Cons c cs)
      with "1.prems" have p: "peek l = Some c" by simp
      note at = "1.prems" [unfolded Cons]
      show ?thesis
      proof (cases "starts_with l (str ''(*'')")
        case True
        then obtain vs where vs: "ys = [40, 42] @ vs"
          using starts_with_at [OF "1.prems"] by (auto simp: str_def prefix_def)
        have "reads l (xs @ zs) [40, 42] vs (adv 2 l) []"
          using "1.prems" vs by (intro reads_adv) (simp_all add: len_utf8_def)
        from rec [OF "1.hyps"(1) [OF False p True] this vs] False p True show ?thesis
          by (simp add: block_loop.simps [of _ depth l])
      next
        case no: False
        show ?thesis
        proof (cases "starts_with l (str ''*)'')")
          case True
          then obtain vs where vs: "ys = [42, 41] @ vs"
            using starts_with_at [OF "1.prems"] by (auto simp: str_def prefix_def)
          have "reads l (xs @ zs) [42, 41] vs (adv 2 l) []"
            using "1.prems" vs by (intro reads_adv) (simp_all add: len_utf8_def)
          from rec [OF "1.hyps"(2) [OF False p no True] this vs] False p True no show ?thesis
            by (simp add: block_loop.simps [of _ depth l])
        next
          case no2: False
          from rec [OF "1.hyps"(3) [OF False p no no2] reads_adv_char [OF at]] Cons False p no no2
          show ?thesis
            by (simp add: block_loop.simps [of _ depth l])
        qed
      qed
    qed
  qed
qed

section \<open>Escapes and literals\<close>

lemma hex_digit_ascii: "hex_digit c = Some d \<Longrightarrow> c < 128 \<and> c \<noteq> 125 \<and> c \<noteq> 43"
  by (auto simp: hex_digit_def split: if_splits)

lemma until_brace_append:
  "125 \<notin> set zs \<Longrightarrow> until_brace ds (zs @ 125 # w) = Some (ds @ zs, w)"
  by (induction zs arbitrary: ds) auto

lemma reads_unicode_digits:
  "unicode_digits any v l = (a, w, l') \<Longrightarrow> lex_at l xs ys \<Longrightarrow>
   \<exists>zs ys'. ys = zs @ ys' \<and> reads l xs zs ys' l' [] \<and> (\<forall>c \<in> set zs. hex_digit c \<noteq> None) \<and>
      (a \<longleftrightarrow> any \<or> zs \<noteq> []) \<and> w = (v \<bind> hex_value zs)"
proof (induction any v l arbitrary: xs ys rule: unicode_digits.induct)
  case (1 any v l)
  show ?case
  proof (cases "\<exists>c cs d. ys = c # cs \<and> hex_digit c = Some d")
    case True
    then obtain c cs d where ys: "ys = c # cs" "hex_digit c = Some d" by blast
    have step: "reads l xs [c] cs (adv 1 l) []"
      using "1.prems"(2) ys hex_digit_ascii by (intro reads_adv_ascii) auto
    have p: "peek l = Some c" using "1.prems"(2) ys by simp
    have eq: "unicode_digits True (v \<bind> (\<lambda>n. u32_mul_add n d)) (adv 1 l) = (a, w, l')"
      using "1.prems"(1) p ys(2) by (simp add: unicode_digits.simps [of any v l])
    from "1.IH" [OF p ys(2) eq emits_at [OF step]]
    obtain zs ys' where z: "cs = zs @ ys'" "reads (adv 1 l) (xs @ [c]) zs ys' l' []"
      "\<forall>c \<in> set zs. hex_digit c \<noteq> None" "a" "w = (v \<bind> (\<lambda>n. u32_mul_add n d) \<bind> hex_value zs)"
      by auto
    have "reads l xs ([c] @ zs) ys' l' ([] @ [])" using step z(1,2) by - (rule reads_trans, simp_all)
    then show ?thesis
      using z ys by (intro exI [of _ "c # zs"] exI [of _ ys']) (cases v; auto)
  next
    case False
    with 1 have "a = any" "w = v" "l' = l"
      by (cases ys; auto simp: unicode_digits.simps [of any v l] split: option.splits)+
    with "1.prems"(2) show ?thesis
      by - (rule exI [of _ "[]"], rule exI [of _ ys], cases v; simp add: reads_refl)
  qed
qed

text \<open>
  A text that \<open>escape\<close> accepts is one that \<open>decode_escape\<close> decodes to a character, whatever follows it.
\<close>

definition escape_ok :: "utext \<Rightarrow> bool" where
  "escape_ok zs \<longleftrightarrow> (\<forall>w. \<exists>v. decode_escape (zs @ w) = Some (v, w))"

lemma escape_ok_unicode:
  assumes "\<forall>c \<in> set zs. hex_digit c \<noteq> None" and "zs \<noteq> []" and "hex_value zs 0 = Some n" and "char_from_u32 n = Some v"
  shows "escape_ok (117 # 123 # zs @ [125])"
proof -
  have "125 \<notin> set zs" using assms(1) hex_digit_ascii by fastforce
  moreover obtain c cs where "zs = c # cs" using assms(2) by (cases zs) auto
  moreover have "hd zs \<noteq> 43" using assms(1,2) hex_digit_ascii by (metis hd_in_set not_None_eq)
  ultimately show ?thesis
    using assms(3,4) by (auto simp: escape_ok_def decode_escape_def until_brace_append u32_from_hex_def)
qed

lemma reads_unicode_escape_body:
  assumes at: "lex_at l xs ys" and eq: "unicode_escape_body l = (b, l')"
  shows "\<exists>zs ys'. ys = zs @ ys' \<and> reads l xs zs ys' l' [] \<and> (b \<longrightarrow> escape_ok (117 # zs))"
proof -
  obtain o1 l1 where 1: "eat 123 l = (o1, l1)" by fastforce
  show ?thesis
  proof (cases o1)
    case False
    then have "l1 = l" "\<not> b" "l' = l" using reads_eat [OF at, of 123] 1 eq by (auto simp: unicode_escape_body_def)
    with at have "ys = [] @ ys \<and> reads l xs [] ys l' [] \<and> (b \<longrightarrow> escape_ok (117 # []))"
      by (simp add: reads_refl)
    then show ?thesis by blast
  next
    case True
    then obtain ys1 where y1: "ys = 123 # ys1" "reads l xs [123] ys1 l1 []"
      using reads_eat [OF at, of 123] 1 by auto
    obtain a v l2 where 2: "unicode_digits False (Some 0) l1 = (a, v, l2)" by (metis prod_cases3)
    from reads_unicode_digits [OF 2 emits_at [OF y1(2)]]
    obtain zs ys2 where z: "ys1 = zs @ ys2" "reads l1 (xs @ [123]) zs ys2 l2 []"
      "\<forall>c \<in> set zs. hex_digit c \<noteq> None" "a \<longleftrightarrow> zs \<noteq> []" "v = hex_value zs 0" by auto
    have r2: "reads l xs ([123] @ zs) ys2 l2 ([] @ [])" using y1 z(1,2) by - (rule reads_trans, simp_all)
    obtain o3 l3 where 3: "eat 125 l2 = (o3, l3)" by fastforce
    have b: "b \<longleftrightarrow> a \<and> o3 \<and> v \<bind> char_from_u32 \<noteq> None" "l' = l3"
      using eq 1 2 3 True by (auto simp: unicode_escape_body_def)
    show ?thesis
    proof (cases o3)
      case False
      then have "l3 = l2" using reads_eat [OF emits_at [OF r2], of 125] 3 by auto
      with False b r2 y1 z(1) show ?thesis by (intro exI [of _ "123 # zs"] exI [of _ ys2]) auto
    next
      case True
      then obtain ys3 where y3: "ys2 = 125 # ys3" "reads l2 (xs @ [123] @ zs) [125] ys3 l3 []"
        using reads_eat [OF emits_at [OF r2], of 125] 3 by auto
      have r3: "reads l xs (([123] @ zs) @ [125]) ys3 l3 (([] @ []) @ [])"
        using r2 y3 by - (rule reads_trans, simp_all)
      have "escape_ok (117 # 123 # zs @ [125])" if b
        using that b(1) z(3-5) escape_ok_unicode [of zs] by (auto simp: bind_eq_Some_conv)
      with r3 y1(1) z(1) y3(1) b(2) show ?thesis
        by (intro exI [of _ "123 # zs @ [125]"] exI [of _ ys3]) auto
    qed
  qed
qed

lemma reads_escape:
  assumes at: "lex_at l (xs @ [92]) ys"
  shows "\<exists>zs ys' ds. ys = zs @ ys' \<and> reads l (xs @ [92]) zs ys' (escape l) ds \<and>
    (\<forall>d \<in> set ds. diag_within (lx_source l) xs (92 # zs) d) \<and> (ds = [] \<longrightarrow> escape_ok zs)"
proof -
  have range: "range_from (lx_pos l - 1) l' = piece xs (92 # zs)" if "reads l (xs @ [92]) zs ys' l' ds" for zs ys' l' ds
    using at range_from_at [of l' xs "92 # zs" ys'] emits_at [OF that] by (simp add: lex_at_def len_utf8_def)
  note diag = diag_within_whole [of "lx_source l" xs]
  show ?thesis
  proof (cases ys)
    case Nil
    have r: "reads l (xs @ [92]) [] ys l []" using at by (rule reads_refl)
    from emits_error_at [OF r] Nil at range [OF r] diag show ?thesis
      by (intro exI [of _ "[]"] exI) (auto simp: escape_def Let_def)
  next
    case (Cons c cs)
    note at' = at [unfolded Cons]
    from at' have p: "peek l = Some c" by simp
    consider (simple) "c \<in> {ch CHR ''n'', ch CHR ''t'', ch CHR ''r'', ch CHR ''0'', 92, 34, 39}"
      | (uni) "c = ch CHR ''u''"
      | (other) "c \<notin> {ch CHR ''n'', ch CHR ''t'', ch CHR ''r'', ch CHR ''0'', 92, 34, 39}" "c \<noteq> ch CHR ''u''"
      by blast
    then show ?thesis
    proof cases
      case simple
      then have "reads l (xs @ [92]) [c] cs (adv 1 l) []" by (intro reads_adv_ascii [OF at']) auto
      moreover have "escape l = adv 1 l" using simple p by (simp add: escape_def)
      moreover have "escape_ok [c]" using simple by (auto simp: escape_ok_def decode_escape_def)
      ultimately show ?thesis using Cons by (intro exI [of _ "[c]"] exI [of _ cs]) auto
    next
      case uni
      have r1: "reads l (xs @ [92]) [c] cs (adv 1 l) []" using uni by (intro reads_adv_ascii [OF at']) auto
      obtain b l' where b: "unicode_escape_body (adv 1 l) = (b, l')" by fastforce
      from reads_unicode_escape_body [OF emits_at [OF r1] b]
      obtain zs ys' where z: "cs = zs @ ys'" "reads (adv 1 l) ((xs @ [92]) @ [c]) zs ys' l' []"
        "b \<longrightarrow> escape_ok (117 # zs)" by auto
      have r: "reads l (xs @ [92]) ([c] @ zs) ys' l' ([] @ [])" using r1 z(1,2) by - (rule reads_trans, simp_all)
      have e: "escape l = (if b then l' else error_at INVALID_ESCAPE (range_from (lx_pos l - 1) l') escape_msg l')"
        using p uni b by (simp add: escape_def)
      show ?thesis
      proof (cases b)
        case True
        with r e z uni Cons show ?thesis by (intro exI [of _ "[c] @ zs"] exI [of _ ys']) auto
      next
        case False
        with emits_error_at [OF r] e z uni Cons range [OF r] diag [of "92 # [c] @ zs"] show ?thesis
          by (intro exI [of _ "[c] @ zs"] exI [of _ ys'] exI) auto
      qed
    next
      case other
      have r: "reads l (xs @ [92]) [c] cs (adv (len_utf8 c) l) []" by (rule reads_adv_char [OF at'])
      from emits_error_at [OF r] other p range [OF r] diag [of "92 # [c]"] Cons show ?thesis
        by (intro exI [of _ "[c]"] exI [of _ cs] exI) (auto simp: escape_def Let_def)
    qed
  qed
qed

lemma decode_chars_plain: "c \<noteq> 92 \<Longrightarrow> decode_chars us \<noteq> None \<Longrightarrow> decode_chars (c # us) \<noteq> None"
  by (subst decode_chars.simps) simp

lemma decode_chars_escape: "escape_ok zs \<Longrightarrow> decode_chars us \<noteq> None \<Longrightarrow> decode_chars (92 # zs @ us) \<noteq> None"
  by (subst decode_chars.simps) (auto simp: escape_ok_def dest: spec [of _ us])

text \<open>The tail of a string literal up to and with its closing quote.\<close>

definition string_tail_ok :: "utext \<Rightarrow> bool" where
  "string_tail_ok ws \<longleftrightarrow> (\<exists>us. ws = us @ [34] \<and> decode_chars us \<noteq> None)"

lemma string_tail_ok_simps:
  "string_tail_ok [34]"
  "c \<noteq> 92 \<Longrightarrow> string_tail_ok ws \<Longrightarrow> string_tail_ok (c # ws)"
  "escape_ok zs \<Longrightarrow> string_tail_ok ws \<Longrightarrow> string_tail_ok (92 # zs @ ws)"
proof -
  have "[34] = [] @ [34] \<and> decode_chars [] \<noteq> None" by (subst decode_chars.simps) simp
  then show "string_tail_ok [34]" unfolding string_tail_ok_def by blast
  assume "string_tail_ok ws"
  then obtain us where us: "ws = us @ [34]" "decode_chars us \<noteq> None" unfolding string_tail_ok_def by blast
  { assume "c \<noteq> 92"
    with us have "c # ws = (c # us) @ [34] \<and> decode_chars (c # us) \<noteq> None" by (simp add: decode_chars_plain)
    then show "string_tail_ok (c # ws)" unfolding string_tail_ok_def by blast }
  { assume "escape_ok zs"
    with us have "92 # zs @ ws = (92 # zs @ us) @ [34] \<and> decode_chars (92 # zs @ us) \<noteq> None"
      by (simp add: decode_chars_escape)
    then show "string_tail_ok (92 # zs @ ws)" unfolding string_tail_ok_def by blast }
qed

text \<open>
  \<open>scans l xs zs ys l' ds Q\<close>: the lexer, which started a piece after \<open>xs\<close> and has read \<open>zs\<close> of it,
  reads on to \<open>l'\<close>, reports only about the piece, and what it read satisfies \<open>Q\<close> unless it reported.
\<close>

definition scans :: "lexer \<Rightarrow> utext \<Rightarrow> utext \<Rightarrow> utext \<Rightarrow> lexer \<Rightarrow> (utext \<Rightarrow> bool) \<Rightarrow> bool" where
  "scans l xs zs ys l' Q \<longleftrightarrow>
     (\<exists>ws ys' ds. ys = ws @ ys' \<and> reads l (xs @ zs) ws ys' l' ds \<and>
        (\<forall>d \<in> set ds. diag_within (lx_source l) xs (zs @ ws) d) \<and> (ds = [] \<longrightarrow> Q ws))"

lemma scans_step:
  assumes r: "reads l (xs @ zs) us vs l1 ds" and d: "\<forall>d \<in> set ds. diag_within (lx_source l) xs (zs @ us) d"
    and s: "scans l1 xs (zs @ us) vs l' Q'" and Q: "\<And>ws. ds = [] \<Longrightarrow> Q' ws \<Longrightarrow> Q (us @ ws)"
  shows "scans l xs zs (us @ vs) l' Q"
proof -
  from s obtain ws ys' ds' where w: "vs = ws @ ys'" "reads l1 (xs @ zs @ us) ws ys' l' ds'"
    "\<forall>d \<in> set ds'. diag_within (lx_source l1) xs ((zs @ us) @ ws) d" "ds' = [] \<longrightarrow> Q' ws"
    unfolding scans_def by auto
  have "reads l (xs @ zs) (us @ ws) ys' l' (ds @ ds')" using r w(1,2) by - (rule reads_trans, simp_all)
  moreover have "diag_within (lx_source l) xs (zs @ us @ ws) x" if "x \<in> set (ds @ ds')" for x
    using that d w(3) diag_within_extend [of "lx_source l" xs "zs @ us" x ws] emits_source [OF r] by auto
  ultimately show ?thesis
    unfolding scans_def using w(1,4) Q
    by - (rule exI [of _ "us @ ws"], rule exI [of _ ys'], rule exI [of _ "ds @ ds'"], simp)
qed

lemma scans_done: "lex_at l (xs @ zs) ys \<Longrightarrow> Q [] \<Longrightarrow> scans l xs zs ys l Q"
  unfolding scans_def by (rule exI [of _ "[]"], rule exI [of _ ys], rule exI [of _ "[]"]) (simp add: reads_refl)

lemma scans_error:
  assumes "lex_at l (xs @ zs) ys"
  shows "scans l xs zs ys (error_at code (range_from (byte_len xs) l) m l) Q"
proof -
  have "reads l (xs @ zs) [] ys (error_at code (range_from (byte_len xs) l) m l)
      ([] @ [Diagnostic_error code m (Span_new (lx_source l) (piece xs zs))])"
    using emits_error_at [OF reads_refl [OF assms]] range_from_at [OF assms] by simp
  then show ?thesis
    unfolding scans_def using diag_within_whole [of "lx_source l" xs zs]
    by - (rule exI [of _ "[]"], rule exI [of _ ys], rule exI, rule conjI, simp, rule conjI, assumption, simp)
qed

lemma scans_escape:
  assumes at: "lex_at l (xs @ zs) (92 # ys)"
    and s: "\<And>us vs. ys = us @ vs \<Longrightarrow> lex_at (escape (adv 1 l)) (xs @ zs @ 92 # us) vs \<Longrightarrow>
              scans (escape (adv 1 l)) xs (zs @ 92 # us) vs l' Q'"
    and Q: "\<And>us ws. escape_ok us \<Longrightarrow> Q' ws \<Longrightarrow> Q (92 # us @ ws)"
  shows "scans l xs zs (92 # ys) l' Q"
proof -
  have r1: "reads l (xs @ zs) [92] ys (adv 1 l) []" by (rule reads_adv_ascii [OF at]) simp
  from reads_escape [OF emits_at [OF r1]]
  obtain us vs ds where e: "ys = us @ vs" "reads (adv 1 l) ((xs @ zs) @ [92]) us vs (escape (adv 1 l)) ds"
    "\<forall>d \<in> set ds. diag_within (lx_source (adv 1 l)) (xs @ zs) (92 # us) d" "ds = [] \<longrightarrow> escape_ok us" by auto
  have r: "reads l (xs @ zs) ([92] @ us) vs (escape (adv 1 l)) ([] @ ds)"
    using r1 e(1,2) by - (rule reads_trans, simp_all)
  have "scans l xs zs (([92] @ us) @ vs) l' Q"
  proof (rule scans_step [OF r])
    show "\<forall>d \<in> set ([] @ ds). diag_within (lx_source l) xs (zs @ [92] @ us) d"
      using e(3) emits_source [OF r1] by (auto dest: diag_within_shift)
    show "scans (escape (adv 1 l)) xs (zs @ [92] @ us) vs l' Q'"
      using s [OF e(1)] emits_at [OF r] by simp
    show "Q (([92] @ us) @ ws)" if "[] @ ds = []" "Q' ws" for ws
      using that e(4) Q [of us ws] by simp
  qed
  then show ?thesis using e(1) by simp
qed

lemma scans_string_loop:
  "lex_at l (xs @ zs) ys \<Longrightarrow> scans l xs zs ys (string_loop (byte_len xs) l) string_tail_ok"
proof (induction "byte_len xs" l arbitrary: zs ys rule: string_loop.induct)
  case (1 l)
  show ?case
  proof (cases ys)
    case Nil
    with "1.prems" show ?thesis by (simp add: string_loop.simps [of _ l] Let_def scans_error)
  next
    case (Cons c cs)
    note at = "1.prems" [unfolded Cons]
    then have p: "peek l = Some c" by simp
    consider "c = 10" | "c = 34" | "c = 92" | "c \<noteq> 10" "c \<noteq> 34" "c \<noteq> 92" by blast
    then show ?thesis
    proof cases
      case 1
      with "1.prems" p show ?thesis by (simp add: string_loop.simps [of _ l] Let_def scans_error)
    next
      case 2
      have r: "reads l (xs @ zs) [c] cs (adv 1 l) []" using 2 by (intro reads_adv_ascii [OF at]) simp
      have "scans l xs zs ([c] @ cs) (adv 1 l) string_tail_ok"
        using emits_at [OF r] 2 by (intro scans_step [OF r _ scans_done [of _ _ _ _ "\<lambda>ws. ws = []"]])
          (auto intro: string_tail_ok_simps)
      with 2 p Cons show ?thesis by (simp add: string_loop.simps [of _ l] Let_def)
    next
      case 3
      have "scans l xs zs (92 # cs) (string_loop (byte_len xs) (escape (adv 1 l))) string_tail_ok"
      proof (rule scans_escape)
        show "lex_at l (xs @ zs) (92 # cs)" using at 3 by simp
        show "scans (escape (adv 1 l)) xs (zs @ 92 # us) vs (string_loop (byte_len xs) (escape (adv 1 l))) string_tail_ok"
          if "lex_at (escape (adv 1 l)) (xs @ zs @ 92 # us) vs" for us vs
          using "1.hyps"(1) [OF refl p, of "zs @ 92 # us" vs] that 3 by simp
      qed (rule string_tail_ok_simps)
      with 3 p Cons show ?thesis by (simp add: string_loop.simps [of _ l] Let_def)
    next
      case 4
      note r = reads_adv_char [OF at]
      have "scans l xs zs ([c] @ cs) (string_loop (byte_len xs) (adv (len_utf8 c) l)) string_tail_ok"
        using "1.hyps"(2) [OF refl p, of "zs @ [c]" cs] emits_at [OF r] 4
        by (intro scans_step [OF r, where Q' = string_tail_ok]) (auto intro: string_tail_ok_simps)
      with 4 p Cons show ?thesis by (simp add: string_loop.simps [of _ l] Let_def)
    qed
  qed
qed

section \<open>Pieces\<close>

definition is_ident :: "utext \<Rightarrow> bool" where
  "is_ident zs \<longleftrightarrow> zs \<noteq> [] \<and> is_ident_start (hd zs) \<and> list_all is_ident_continue zs"

text \<open>No character of a class follows: the lexeme is the longest one.\<close>

definition munched :: "(scalar \<Rightarrow> bool) \<Rightarrow> utext \<Rightarrow> bool" where
  "munched P ys \<longleftrightarrow> (case ys of [] \<Rightarrow> True | c # _ \<Rightarrow> \<not> P c)"

definition lexeme_shape :: "token_kind \<Rightarrow> utext \<Rightarrow> utext \<Rightarrow> bool" where
  "lexeme_shape k zs ys \<longleftrightarrow>
     (if k = TkString then prefix [34] zs
      else if k = TkChar then prefix [39] zs \<and> suffix [39] (tl zs)
      else if k = TkTypeVar then prefix [39] zs \<and> is_ident (tl zs) \<and> munched is_ident_continue ys
      else if k = TkInt \<or> k = TkFloat then zs \<noteq> [] \<and> is_ascii_digit (hd zs) \<and> munched is_ident_continue ys
      else if k = TkLArrayBracket then zs = str ''[|''
      else if k = TkRArrayBracket then zs = str ''|]''
      else (is_ident zs \<and> k = ident_kind zs \<and> munched is_ident_continue ys) \<or>
           (zs \<noteq> [] \<and> list_all is_operator_char zs \<and> k = operator_kind zs \<and> munched is_operator_char ys) \<or>
           (\<exists>c. zs = [c] \<and> punct c = Some k))"

text \<open>The literals a clean lexeme can be decoded to.\<close>

definition lexeme_decodes :: "token_kind \<Rightarrow> utext \<Rightarrow> bool" where
  "lexeme_decodes k zs \<longleftrightarrow>
     (k = TkInt \<longrightarrow> decode_int_literal zs \<noteq> None) \<and>
     (k = TkString \<longrightarrow> decode_string_literal zs \<noteq> None) \<and>
     (k = TkChar \<longrightarrow> decode_char_literal zs \<noteq> None)"

definition comment_shape :: "comment_kind \<Rightarrow> utext \<Rightarrow> utext \<Rightarrow> bool" where
  "comment_shape k zs ys \<longleftrightarrow>
     (if k = CkBlock then prefix (str ''(*'') zs
      else prefix (str ''//'') zs \<and> 10 \<notin> set zs \<and> 13 \<notin> set zs \<and> munched (\<lambda>c. c \<noteq> 10 \<and> c \<noteq> 13) ys \<and>
           (k = CkDoc \<longleftrightarrow> prefix (str ''///'') zs \<and> \<not> prefix (str ''////'') zs))"

definition piece_ok ::
  "source_id \<Rightarrow> utext \<Rightarrow> utext \<Rightarrow> utext \<Rightarrow> token list \<Rightarrow> comment list \<Rightarrow> diagnostic list \<Rightarrow> bool" where
  "piece_ok s xs zs ys ts cs ds \<longleftrightarrow>
     zs \<noteq> [] \<and> (\<forall>d \<in> set ds. diag_within s xs zs d) \<and>
     ((\<exists>k. ts = [Token_new k (piece xs zs)] \<and> cs = [] \<and> lexeme_shape k zs ys \<and> (ds = [] \<longrightarrow> lexeme_decodes k zs)) \<or>
      (\<exists>k. ts = [] \<and> cs = [\<lparr>cm_kind = k, cm_range = piece xs zs\<rparr>] \<and> comment_shape k zs ys) \<or>
      (ts = [] \<and> cs = [] \<and> (\<exists>code m. Diagnostic_error code m (Span_new s (piece xs zs)) \<in> set ds)))"

definition lexes_one :: "lexer \<Rightarrow> utext \<Rightarrow> utext \<Rightarrow> lexer \<Rightarrow> bool" where
  "lexes_one l xs ys l' \<longleftrightarrow>
     (\<exists>zs ys' ts cs ds. ys = zs @ ys' \<and> emits l xs zs ys' l' ts cs ds \<and> piece_ok (lx_source l) xs zs ys' ts cs ds)"

lemma munched_dropWhile [simp]: "munched P (dropWhile P ys)"
  by (induction ys) (auto simp: munched_def)

lemma lexes_one_token:
  assumes "reads l xs zs ys' l' ds" and "zs \<noteq> []" and "\<forall>d \<in> set ds. diag_within (lx_source l) xs zs d"
    and "lexeme_shape k zs ys'" and "ds = [] \<Longrightarrow> lexeme_decodes k zs"
  shows "lexes_one l xs (zs @ ys') (push k (range_from (byte_len xs) l') l')"
proof -
  have "range_from (byte_len xs) l' = piece xs zs" by (rule range_from_at [OF emits_at [OF assms(1)]])
  moreover have "emits l xs zs ys' (push k (piece xs zs) l') ([] @ [Token_new k (piece xs zs)]) [] ds"
    by (rule emits_push [OF assms(1)])
  ultimately show ?thesis
    unfolding lexes_one_def piece_ok_def using assms by fastforce
qed

lemma lexes_one_comment:
  assumes "reads l xs zs ys' l' ds" and "zs \<noteq> []" and "\<forall>d \<in> set ds. diag_within (lx_source l) xs zs d"
    and "comment_shape k zs ys'"
  shows "lexes_one l xs (zs @ ys') (push_comment k (range_from (byte_len xs) l') l')"
proof -
  have "range_from (byte_len xs) l' = piece xs zs" by (rule range_from_at [OF emits_at [OF assms(1)]])
  moreover have "emits l xs zs ys' (push_comment k (piece xs zs) l') [] ([] @ [\<lparr>cm_kind = k, cm_range = piece xs zs\<rparr>]) ds"
    by (rule emits_push_comment [OF assms(1)])
  ultimately show ?thesis
    unfolding lexes_one_def piece_ok_def using assms by fastforce
qed

lemma lexes_one_error:
  assumes "reads l xs zs ys' l' ds" and "zs \<noteq> []" and "\<forall>d \<in> set ds. diag_within (lx_source l) xs zs d"
  shows "lexes_one l xs (zs @ ys') (error_at code (range_from (byte_len xs) l') m l')"
proof -
  let ?d = "Diagnostic_error code m (Span_new (lx_source l) (piece xs zs))"
  have "range_from (byte_len xs) l' = piece xs zs" by (rule range_from_at [OF emits_at [OF assms(1)]])
  moreover have "emits l xs zs ys' (error_at code (piece xs zs) m l') [] [] (ds @ [?d])"
    by (rule emits_error_at [OF assms(1)])
  moreover have "piece_ok (lx_source l) xs zs ys' [] [] (ds @ [?d])"
    using assms(2,3) diag_within_whole by (auto simp: piece_ok_def)
  ultimately show ?thesis
    unfolding lexes_one_def by metis
qed

section \<open>Comments and strings\<close>

lemma prefix_takeWhile: "list_all P p \<Longrightarrow> prefix p (takeWhile P ys) \<longleftrightarrow> prefix p ys"
proof (induction p arbitrary: ys)
  case (Cons c p)
  then show ?case by (cases ys) auto
qed simp

lemma lexes_line_comment:
  assumes at: "lex_at l xs ys" and p: "prefix (str ''//'') ys"
  shows "lexes_one l xs ys (line_comment (byte_len xs) l)"
proof -
  let ?P = "\<lambda>c. \<not> (c = 10 \<or> c = 13)"
  have r: "reads l xs (takeWhile ?P ys) (dropWhile ?P ys) (skip_while ?P l) []"
    by (rule reads_skip_while [OF at])
  have pre: "prefix (str s) (takeWhile ?P ys) \<longleftrightarrow> prefix (str s) ys" if "list_all ?P (str s)" for s
    by (rule prefix_takeWhile [OF that])
  have ok: "list_all ?P (str ''//'')" "list_all ?P (str ''///'')" "list_all ?P (str ''////'')"
    by (simp_all add: str_def)
  have "takeWhile ?P ys \<noteq> []" using p by (auto simp: str_def prefix_def)
  moreover have "10 \<notin> set (takeWhile ?P ys)" "13 \<notin> set (takeWhile ?P ys)" by (auto dest: set_takeWhileD)
  moreover have "munched (\<lambda>c. c \<noteq> 10 \<and> c \<noteq> 13) (dropWhile ?P ys)"
    using munched_dropWhile [of ?P ys] by simp
  ultimately have "lexes_one l xs (takeWhile ?P ys @ dropWhile ?P ys)
      (push_comment k (range_from (byte_len xs) (skip_while ?P l)) (skip_while ?P l))"
    if "k = (if starts_with l (str ''///'') \<and> \<not> starts_with l (str ''////'') then CkDoc else CkLine)" for k
    using r that p pre [OF ok(1)] pre [OF ok(2)] pre [OF ok(3)] starts_with_at [OF at]
    by (intro lexes_one_comment [OF r]) (auto simp: comment_shape_def)
  then show ?thesis by (simp add: line_comment_def Let_def)
qed

lemma lexes_block_comment:
  assumes at: "lex_at l xs ys" and p: "prefix (str ''(*'') ys"
  shows "lexes_one l xs ys (block_comment (byte_len xs) l)"
proof -
  from p obtain vs where vs: "ys = [40, 42] @ vs" by (auto simp: str_def prefix_def)
  have r1: "reads l xs [40, 42] vs (adv 2 l) []"
    using at vs by (intro reads_adv) (simp_all add: len_utf8_def)
  from reads_block_loop [OF emits_at [OF r1], of 1]
  obtain ws ys' ds where w: "vs = ws @ ys'"
    "reads (adv 2 l) (xs @ [40, 42]) ws ys' (block_loop (byte_len xs) 1 (adv 2 l)) ds"
    "ds = [] \<or> (\<exists>code m. ds = [Diagnostic_error code m (Span_new (lx_source l) (piece xs ([40, 42] @ ws)))])"
    using emits_source [OF r1] by fastforce
  have "reads l xs ([40, 42] @ ws) ys' (block_loop (byte_len xs) 1 (adv 2 l)) ([] @ ds)"
    using r1 w(1,2) by - (rule reads_trans, simp_all)
  moreover have "\<forall>d \<in> set ([] @ ds). diag_within (lx_source l) xs ([40, 42] @ ws) d"
    using w(3) diag_within_whole by auto
  ultimately have "lexes_one l xs (([40, 42] @ ws) @ ys') (block_comment (byte_len xs) l)"
    unfolding block_comment_def Let_def by - (rule lexes_one_comment, assumption, simp, assumption, simp add: comment_shape_def str_def)
  with w(1) vs show ?thesis by simp
qed

lemma lexes_string:
  assumes at: "lex_at l xs (34 # ys)"
  shows "lexes_one l xs (34 # ys) (string_lit (byte_len xs) l)"
proof -
  have r1: "reads l xs [34] ys (adv 1 l) []" by (rule reads_adv_ascii [OF at]) simp
  from scans_string_loop [OF emits_at [OF r1]]
  obtain ws ys' ds where w: "ys = ws @ ys'" "reads (adv 1 l) (xs @ [34]) ws ys' (string_loop (byte_len xs) (adv 1 l)) ds"
    "\<forall>d \<in> set ds. diag_within (lx_source l) xs ([34] @ ws) d" "ds = [] \<longrightarrow> string_tail_ok ws"
    unfolding scans_def using emits_source [OF r1] by auto
  have r: "reads l xs ([34] @ ws) ys' (string_loop (byte_len xs) (adv 1 l)) ([] @ ds)"
    using r1 w(1,2) by - (rule reads_trans, simp_all)
  have "lexeme_decodes TkString ([34] @ ws)" if "ds = []"
    using that w(4) by (auto simp: lexeme_decodes_def string_tail_ok_def decode_string_literal_def
        strip_prefix_def strip_suffix_def)
  with w have "lexes_one l xs (([34] @ ws) @ ys')
      (push TkString (range_from (byte_len xs) (string_loop (byte_len xs) (adv 1 l))) (string_loop (byte_len xs) (adv 1 l)))"
    by (intro lexes_one_token [OF r]) (simp_all add: lexeme_shape_def)
  with w(1) show ?thesis by (simp add: string_lit_def Let_def)
qed

section \<open>Quotes\<close>

lemma lexes_type_var:
  assumes at: "lex_at l xs (39 # ys)"
  shows "lexes_one l xs (39 # ys) (type_var (byte_len xs) l)"
proof -
  have r1: "reads l xs [39] ys (adv 1 l) []" by (rule reads_adv_ascii [OF at]) simp
  note at1 = emits_at [OF r1]
  show ?thesis
  proof (cases "peek_is is_ident_start (adv 1 l)")
    case True
    let ?zs = "takeWhile is_ident_continue ys"
    let ?l = "skip_while is_ident_continue (adv 1 l)"
    from True at1 obtain c cs where c: "ys = c # cs" "is_ident_start c"
      by (cases ys) (auto simp: peek_is_def)
    then have "is_ident ?zs"
      by (auto simp: is_ident_def is_ident_start_def is_ident_continue_def list_all_iff dest: set_takeWhileD)
    moreover have r: "reads l xs ([39] @ ?zs) (dropWhile is_ident_continue ys) ?l ([] @ [])"
      using r1 reads_skip_while [OF at1, of is_ident_continue] by - (rule reads_trans, simp_all)
    ultimately have "lexes_one l xs (([39] @ ?zs) @ dropWhile is_ident_continue ys)
        (push TkTypeVar (range_from (byte_len xs) ?l) ?l)"
      by (intro lexes_one_token [OF r]) (simp_all add: lexeme_shape_def lexeme_decodes_def)
    with True show ?thesis by (simp add: type_var_def Let_def)
  next
    case False
    have "lexes_one l xs ([39] @ ys) (error_at INVALID_CHAR_LITERAL (range_from (byte_len xs) (adv 1 l))
        (str ''expected a type-variable name or a character literal after `'' @ [39] @ str ''`'') (adv 1 l))"
      by (rule lexes_one_error [OF r1]) simp_all
    with False show ?thesis by (simp add: type_var_def Let_def)
  qed
qed

lemma lexes_char_escape:
  assumes at: "lex_at l xs (39 # 92 # ys)"
  shows "lexes_one l xs (39 # 92 # ys) (char_literal (byte_len xs) l)"
proof -
  have r1: "reads l xs [39] (92 # ys) (adv 1 l) []" by (rule reads_adv_ascii [OF at]) simp
  let ?l = "escape (adv 1 (adv 1 l))"
  have p: "peek (adv 1 l) = Some 92" using emits_at [OF r1] by simp
  obtain b l3 where b: "eat 39 ?l = (b, l3)" by fastforce
  have "scans (adv 1 l) xs [39] (92 # ys) ?l (\<lambda>ws. \<exists>us. ws = 92 # us \<and> escape_ok us)"
    using emits_at [OF r1] by (intro scans_escape [where Q' = "\<lambda>ws. ws = []"]) (auto intro: scans_done)
  then obtain ws ys' ds where w: "92 # ys = ws @ ys'" "reads (adv 1 l) (xs @ [39]) ws ys' ?l ds"
    "\<forall>d \<in> set ds. diag_within (lx_source l) xs ([39] @ ws) d"
    "ds = [] \<longrightarrow> (\<exists>us. ws = 92 # us \<and> escape_ok us)"
    unfolding scans_def using emits_source [OF r1] by metis
  have r2: "reads l xs ([39] @ ws) ys' ?l ([] @ ds)" using r1 w(1,2) by - (rule reads_trans, simp_all)
  show ?thesis
  proof (cases b)
    case True
    then obtain ys'' where y: "ys' = 39 # ys''" "reads ?l (xs @ [39] @ ws) [39] ys'' l3 []"
      using reads_eat [OF emits_at [OF r2], of 39] b by auto
    have r3: "reads l xs (([39] @ ws) @ [39]) ys'' l3 (([] @ ds) @ [])"
      using r2 y by - (rule reads_trans, simp_all)
    have "lexeme_decodes TkChar (([39] @ ws) @ [39])" if "ds = []"
    proof -
      from that w(4) obtain us where us: "ws = 92 # us" "escape_ok us" by blast
      then obtain v where "decode_escape us = Some (v, [])" unfolding escape_ok_def by (metis append_Nil2)
      with us show ?thesis
        by (simp add: lexeme_decodes_def decode_char_literal_def strip_prefix_def strip_suffix_def)
    qed
    with w(3) have "lexes_one l xs ((([39] @ ws) @ [39]) @ ys'') (push TkChar (range_from (byte_len xs) l3) l3)"
      using diag_within_extend [of "lx_source l" xs "[39] @ ws" _ "[39]"]
      by (intro lexes_one_token [OF r3]) (auto simp: lexeme_shape_def suffix_def)
    moreover have "39 # 92 # ys = (([39] @ ws) @ [39]) @ ys''" using w(1) y(1) by simp
    ultimately show ?thesis using b True p by (simp add: char_literal_def Let_def)
  next
    case False
    then have "l3 = ?l" using reads_eat [OF emits_at [OF r2], of 39] b by auto
    moreover have "lexes_one l xs (([39] @ ws) @ ys') (error_at code (range_from (byte_len xs) ?l) m ?l)" for code m
      using w(3) by (intro lexes_one_error [OF r2]) auto
    moreover have "39 # 92 # ys = ([39] @ ws) @ ys'" using w(1) by simp
    ultimately show ?thesis using b False p by (simp add: char_literal_def Let_def)
  qed
qed

lemma lexes_char_plain:
  assumes at: "lex_at l xs (39 # c # 39 # ys)" and c: "c \<noteq> 92" "c \<noteq> 39" "c \<noteq> 10"
  shows "lexes_one l xs (39 # c # 39 # ys) (char_literal (byte_len xs) l)"
proof -
  have r1: "reads l xs [39] (c # 39 # ys) (adv 1 l) []" by (rule reads_adv_ascii [OF at]) simp
  note r2 = reads_adv_char [OF emits_at [OF r1]]
  note r3 = reads_adv_char [OF emits_at [OF r2]]
  let ?l = "adv (len_utf8 39) (adv (len_utf8 c) (adv 1 l))"
  have r: "reads l xs ([39] @ [c] @ [39]) ys ?l ([] @ [] @ [])"
    using r1 r2 r3 by (simp add: emits_def)
  have "lexeme_decodes TkChar ([39] @ [c] @ [39])"
    using c by (simp add: lexeme_decodes_def decode_char_literal_def strip_prefix_def strip_suffix_def)
  then have "lexes_one l xs (([39] @ [c] @ [39]) @ ys) (push TkChar (range_from (byte_len xs) ?l) ?l)"
    by (intro lexes_one_token [OF r]) (simp_all add: lexeme_shape_def suffix_def)
  moreover have "eat 39 (adv (len_utf8 c) (adv 1 l)) = (True, ?l)"
    using emits_at [OF r2] by (simp add: eat_def)
  ultimately show ?thesis using c emits_at [OF r1] by (simp add: char_literal_def Let_def)
qed

lemma lexes_quote:
  assumes at: "lex_at l xs (39 # ys)"
  shows "lexes_one l xs (39 # ys) (quote (byte_len xs) l)"
proof (cases ys)
  case Nil
  with lexes_type_var [OF at] nth_char_at [OF at, of 1] show ?thesis
    by (simp add: quote_def list_get_def)
next
  case (Cons c cs)
  have n1: "nth_char l 1 = Some c" using nth_char_at [OF at, of 1] Cons by (simp add: list_get_def)
  have n2: "nth_char l 2 = Some 39 \<longleftrightarrow> (\<exists>ds. cs = 39 # ds)"
    using nth_char_at [OF at, of 2] Cons by (cases cs) (auto simp: list_get_def)
  consider "c = 92" | "c = 39" | ds where "c \<noteq> 92" "c \<noteq> 39" "c \<noteq> 10" "cs = 39 # ds"
    | "c \<noteq> 92" "c \<noteq> 39" "\<not> (nth_char l 2 = Some 39 \<and> c \<noteq> 10)" using n2 by blast
  then show ?thesis
  proof cases
    case 1
    with lexes_char_escape [of l xs cs] at Cons n1 show ?thesis by (simp add: quote_def)
  next
    case 2
    have r: "reads l xs [39, 39] cs (adv 2 l) []"
      using at Cons 2 by (intro reads_adv) (simp_all add: len_utf8_def)
    have "lexes_one l xs ([39, 39] @ cs) (error_at INVALID_CHAR_LITERAL (range_from (byte_len xs) (adv 2 l))
        (str ''empty character literal'') (adv 2 l))"
      by (rule lexes_one_error [OF r]) simp_all
    with 2 Cons n1 show ?thesis by (simp add: quote_def Let_def)
  next
    case 3
    with lexes_char_plain [of l xs c ds] at Cons n1 n2 show ?thesis by (simp add: quote_def)
  next
    case 4
    with lexes_type_var [OF at] Cons n1 show ?thesis by (auto simp: quote_def)
  qed
qed

section \<open>Numbers\<close>

definition runs :: "lexer \<Rightarrow> utext \<Rightarrow> utext \<Rightarrow> lexer \<Rightarrow> bool" where
  "runs l xs ys l' \<longleftrightarrow> (\<exists>zs ys'. ys = zs @ ys' \<and> reads l xs zs ys' l' [])"

lemma runs_refl: "lex_at l xs ys \<Longrightarrow> runs l xs ys l"
  unfolding runs_def by (metis append_Nil reads_refl)

lemma reads_runs: "reads l xs zs ys l' [] \<Longrightarrow> runs l xs (zs @ ys) l'"
  unfolding runs_def by blast

lemma runs_reads: "runs l xs ys l' \<Longrightarrow> (\<And>xs' ys'. lex_at l' xs' ys' \<Longrightarrow> runs l' xs' ys' l'') \<Longrightarrow> runs l xs ys l''"
proof -
  assume "runs l xs ys l'" and more: "\<And>xs' ys'. lex_at l' xs' ys' \<Longrightarrow> runs l' xs' ys' l''"
  then obtain zs ys' where z: "ys = zs @ ys'" "reads l xs zs ys' l' []" unfolding runs_def by blast
  from more [OF emits_at [OF z(2)]] obtain zs' ys'' where "ys' = zs' @ ys''" "reads l' (xs @ zs) zs' ys'' l'' []"
    unfolding runs_def by blast
  with z have "reads l xs (zs @ zs') ys'' l'' ([] @ [])" by - (rule reads_trans, simp_all)
  with z \<open>ys' = zs' @ ys''\<close> show ?thesis unfolding runs_def by (metis append.assoc append_Nil)
qed

lemma runs_adv_ascii: "lex_at l xs ys \<Longrightarrow> peek l = Some c \<Longrightarrow> c < 128 \<Longrightarrow> runs l xs ys (adv 1 l)"
  by (cases ys) (auto dest!: reads_adv_ascii reads_runs)

lemma runs_consume_digits: "lex_at l xs ys \<Longrightarrow> runs l xs ys (consume_digits l)"
  unfolding consume_digits_def
  using reads_runs [OF reads_skip_while1 [of l xs ys "\<lambda>c. is_ascii_digit c \<or> c = ch CHR ''_''"]]
  by (force simp: is_ascii_digit_def)

lemma runs_base_digits:
  "lex_at l xs ys \<Longrightarrow> runs l xs ys (snd (base_digits base any l))"
proof (induction base any l arbitrary: xs ys rule: base_digits.induct)
  case (1 base any l)
  show ?case
  proof (cases "\<exists>c. peek l = Some c \<and> is_digit_of_base base c")
    case True
    then obtain c where c: "peek l = Some c" "is_digit_of_base base c" by blast
    then have "c < 128" using hex_digit_ascii by (auto simp: is_digit_of_base_def split: if_splits)
    with c "1.prems" have "runs l xs ys (adv 1 l)" by (intro runs_adv_ascii)
    then have "runs l xs ys (snd (base_digits base (any \<or> c \<noteq> ch CHR ''_'') (adv 1 l)))"
      by (rule runs_reads) (rule "1.IH" [OF c])
    with c show ?thesis by (simp add: base_digits.simps [of base any l])
  next
    case False
    with "1.prems" show ?thesis
      by (auto simp: base_digits.simps [of base any l] runs_refl split: option.splits)
  qed
qed

lemma runs_bump: "lex_at l xs ys \<Longrightarrow> runs l xs ys (snd (bump l))"
  by (cases ys) (auto simp: bump_def runs_refl dest!: reads_adv_char reads_runs)

lemma runs_based_number: "lex_at l xs (48 # ys) \<Longrightarrow> runs l xs (48 # ys) (snd (based_number l))"
proof -
  assume at: "lex_at l xs (48 # ys)"
  obtain c l1 where 1: "bump (adv 1 l) = (c, l1)" by fastforce
  have "runs l xs (48 # ys) (adv 1 l)" using at by (intro runs_adv_ascii) auto
  then have "runs l xs (48 # ys) l1" using runs_bump [of "adv 1 l"] 1 by (auto intro: runs_reads)
  then have "runs l xs (48 # ys) (snd (base_digits b any l1))" for b any by (rule runs_reads) (rule runs_base_digits)
  with 1 show "runs l xs (48 # ys) (snd (based_number l))" by (simp add: based_number_def)
qed

lemma runs_fraction: "lex_at l xs ys \<Longrightarrow> runs l xs ys (snd (fraction l))"
  by (auto simp: fraction_def runs_refl simp del: One_nat_def
      intro!: runs_reads [OF runs_adv_ascii runs_consume_digits])

lemma runs_exponent: "lex_at l xs ys \<Longrightarrow> runs l xs ys (snd (exponent l))"
proof -
  assume at: "lex_at l xs ys"
  have home: "(adv 1 l)\<lparr>lx_pos := lx_pos l\<rparr> = l" "(adv 1 (adv 1 l))\<lparr>lx_pos := lx_pos l\<rparr> = l"
    by (simp_all add: adv_def)
  show ?thesis
  proof (cases "peek l = Some (ch CHR ''e'') \<or> peek l = Some (ch CHR ''E'')")
    case True
    with at have r1: "runs l xs ys (adv 1 l)" by (auto simp del: One_nat_def intro!: runs_adv_ascii)
    have r2: "runs l xs ys (adv 1 (adv 1 l))"
      if "peek (adv 1 l) = Some (ch CHR ''+'') \<or> peek (adv 1 l) = Some (ch CHR ''-'')"
      using that by (intro runs_reads [OF r1]) (auto simp del: One_nat_def intro!: runs_adv_ascii)
    show ?thesis
      using True at home runs_reads [OF r1 runs_consume_digits] runs_reads [OF r2 runs_consume_digits]
      by (auto simp: exponent_def Let_def runs_refl)
  next
    case False
    with at show ?thesis by (auto simp: exponent_def runs_refl)
  qed
qed

lemma runs_decimal_number: "lex_at l xs ys \<Longrightarrow> runs l xs ys (snd (decimal_number l))"
proof -
  assume at: "lex_at l xs ys"
  obtain f l1 where 1: "fraction (consume_digits l) = (f, l1)" by fastforce
  have "runs l xs ys l1"
    using runs_reads [OF runs_consume_digits [OF at] runs_fraction] 1 by simp
  from runs_reads [OF this runs_exponent] 1 show ?thesis
    by (auto simp: decimal_number_def split: prod.splits)
qed

lemma lexes_number:
  assumes at: "lex_at l xs (c # cs)" and c: "is_ascii_digit c"
  shows "lexes_one l xs (c # cs) (number (byte_len xs) l)"
proof -
  define based where "based = (peek l = Some (ch CHR ''0'') \<and> (\<exists>c \<in> set_option (nth_char l 1). is_base_letter c))"
  obtain ok is_float l1 where l1: "(ok, is_float, l1) =
      (if based then (case based_number l of (any, l1) \<Rightarrow> (any, False, l1))
       else (case decimal_number l of (is_float, l1) \<Rightarrow> (True, is_float, l1)))"
    by (metis prod_cases3)
  have "ahd l l1"
    using l1 ahd_based_number [of l] ahd_decimal_number [OF _ c, of l] at
    by (cases "based_number l"; cases "decimal_number l") (auto split: if_splits)
  moreover have "runs l xs (c # cs) l1"
    using l1 runs_based_number [of l xs cs] runs_decimal_number [OF at] at
    by (cases "based_number l"; cases "decimal_number l") (auto simp: based_def split: if_splits)
  then obtain us vs where u: "c # cs = us @ vs" "reads l xs us vs l1 []" unfolding runs_def by blast
  ultimately have "us \<noteq> []" by (auto simp: ahd_def emits_def lex_at_def)
  then have hd: "is_ascii_digit (hd us)" using u(1) c by (cases us) auto
  let ?P = is_ident_continue
  let ?zs = "us @ takeWhile ?P vs" let ?ys = "dropWhile ?P vs" let ?l = "skip_while ?P l1"
  have r: "reads l xs ?zs ?ys ?l ([] @ [])"
    using u(2) reads_skip_while [OF emits_at [OF u(2)], of ?P] by - (rule reads_trans, simp_all)
  have slice: "str_slice (byte_len xs) (lx_pos ?l) (lx_text ?l) = ?zs"
    by (rule slice_at [OF emits_at [OF r]])
  have shape: "lexeme_shape (if is_float then TkFloat else TkInt) ?zs ?ys"
    using hd \<open>us \<noteq> []\<close> by (simp add: lexeme_shape_def)
  have range: "range_from (byte_len xs) ?l = piece xs ?zs" by (rule range_from_at [OF emits_at [OF r]])
  have err: "lexes_one l xs (?zs @ ?ys) (push (if is_float then TkFloat else TkInt) (piece xs ?zs)
      (error_at code (piece xs ?zs) m ?l))" for code m
  proof -
    have e: "reads l xs ?zs ?ys (error_at code (piece xs ?zs) m ?l)
        (([] @ []) @ [Diagnostic_error code m (Span_new (lx_source l) (piece xs ?zs))])"
      by (rule emits_error_at [OF r])
    from lexes_one_token [OF e _ _ shape] \<open>us \<noteq> []\<close> diag_within_whole range show ?thesis
      by (simp add: range_from_at [OF emits_at [OF e]])
  qed
  have fine: "lexes_one l xs (?zs @ ?ys) (push (if is_float then TkFloat else TkInt) (piece xs ?zs) ?l)"
    if "is_float \<or> decode_int_literal ?zs \<noteq> None"
    using lexes_one_token [OF r _ _ shape] \<open>us \<noteq> []\<close> range that by (auto simp: lexeme_decodes_def)
  have "?zs @ ?ys = c # cs" using u(1) by simp
  then show ?thesis
    using err fine slice range
    unfolding number_def Let_def based_def [symmetric] l1 [symmetric] by auto
qed

section \<open>Identifiers and operators\<close>

lemma ident_kind_other:
  "ident_kind t \<noteq> TkString" "ident_kind t \<noteq> TkChar" "ident_kind t \<noteq> TkTypeVar" "ident_kind t \<noteq> TkInt"
  "ident_kind t \<noteq> TkFloat" "ident_kind t \<noteq> TkLArrayBracket" "ident_kind t \<noteq> TkRArrayBracket"
  "ident_kind t \<noteq> TkEof" "\<not> is_virtual (ident_kind t)"
proof -
  have "ident_kind t \<in> {TkUnderscore, TkUpperIdent, TkLowerIdent} \<union> set (map snd keyword_table)"
    by (cases "keyword t") (auto simp: ident_kind_def simp del: set_map dest: keyword_kinds)
  then show "ident_kind t \<noteq> TkString" "ident_kind t \<noteq> TkChar" "ident_kind t \<noteq> TkTypeVar" "ident_kind t \<noteq> TkInt"
    "ident_kind t \<noteq> TkFloat" "ident_kind t \<noteq> TkLArrayBracket" "ident_kind t \<noteq> TkRArrayBracket"
    "ident_kind t \<noteq> TkEof" "\<not> is_virtual (ident_kind t)"
    by (auto simp: keyword_table_def is_virtual_def)
qed

lemma lexes_ident:
  assumes at: "lex_at l xs (c # cs)" and c: "is_ident_start c"
  shows "lexes_one l xs (c # cs) (ident (byte_len xs) l)"
proof -
  let ?P = is_ident_continue
  let ?zs = "takeWhile ?P (c # cs)" let ?ys = "dropWhile ?P (c # cs)" let ?l = "skip_while ?P l"
  have r: "reads l xs ?zs ?ys ?l []" by (rule reads_skip_while [OF at])
  have id: "is_ident ?zs"
    using c by (auto simp: is_ident_def is_ident_start_def is_ident_continue_def list_all_iff dest: set_takeWhileD)
  have slice: "str_slice (byte_len xs) (lx_pos ?l) (lx_text ?l) = ?zs"
    by (rule slice_at [OF emits_at [OF r]])
  have shape: "lexeme_shape (ident_kind ?zs) ?zs ?ys" "lexeme_decodes (ident_kind ?zs) ?zs"
    using id ident_kind_other [of ?zs] munched_dropWhile [of ?P "c # cs"]
    unfolding lexeme_shape_def lexeme_decodes_def by (simp_all only: if_False simp_thms)
  have "?zs \<noteq> []" using id unfolding is_ident_def by blast
  have "lexes_one l xs (?zs @ ?ys) (push (ident_kind ?zs) (range_from (byte_len xs) ?l) ?l)"
    using \<open>?zs \<noteq> []\<close> shape by (intro lexes_one_token [OF r]) simp_all
  then show ?thesis unfolding ident_def Let_def slice by (simp only: takeWhile_dropWhile_id)
qed

lemma is_operator_char_ascii: "is_operator_char c \<Longrightarrow> c < 128"
  by (auto simp: is_operator_char_def str_def)

lemma operator_kind_cases: "operator_kind zs \<in> {TkEquals, TkPipe, TkColon, TkColonColon, TkArrow, TkOperator}"
  by (simp add: operator_kind_def)

lemma punct_kinds:
  "punct c = Some k \<Longrightarrow> k \<in> {TkLParen, TkRParen, TkLBracket, TkRBracket, TkLBrace, TkRBrace, TkComma, TkDot}"
  by (auto simp: punct_def split: if_splits)

lemma lexes_operator_or_unknown:
  assumes at: "lex_at l xs (c # cs)"
  shows "lexes_one l xs (c # cs) (operator_or_unknown (byte_len xs) l)"
proof -
  let ?l = "adv (len_utf8 c) l"
  note r1 = reads_adv_char [OF at]
  have b: "bump l = (Some c, ?l)" using at by (simp add: bump_def)
  have two: "lexes_one l xs (c # cs) (push k (range_from (byte_len xs) (adv 1 ?l)) (adv 1 ?l))"
    if k: "(c = 91 \<and> peek ?l = Some 124 \<and> k = TkLArrayBracket) \<or> (c = 124 \<and> peek ?l = Some 93 \<and> k = TkRArrayBracket)" for k
  proof -
    from k emits_at [OF r1] obtain d ds where d: "cs = d # ds" "d < 128" "lexeme_shape k [c, d] ds" "lexeme_decodes k [c, d]"
      by (cases cs) (auto simp: lexeme_shape_def str_def lexeme_decodes_def)
    have r2: "reads ?l (xs @ [c]) [d] ds (adv 1 ?l) []" using emits_at [OF r1] d by (intro reads_adv_ascii) auto
    have r: "reads l xs ([c] @ [d]) ds (adv 1 ?l) ([] @ [])" using r1 r2 d by - (rule reads_trans, simp_all)
    from lexes_one_token [OF r, of k] d show ?thesis by simp
  qed
  have one: "lexes_one l xs (c # cs) (push k (range_from (byte_len xs) ?l) ?l)" if "punct c = Some k" for k
    using lexes_one_token [OF r1, of k] punct_kinds [OF that] that
    by (auto simp: lexeme_shape_def lexeme_decodes_def)
  have op: "lexes_one l xs (c # cs) (push (operator_kind (str_slice (byte_len xs) (lx_pos l2) (lx_text l2))) (range_from (byte_len xs) l2) l2)"
    if "is_operator_char c" "l2 = skip_while1 is_operator_char ?l" for l2
  proof -
    let ?zs = "[c] @ takeWhile is_operator_char cs" let ?ys = "dropWhile is_operator_char cs"
    have r: "reads l xs ?zs ?ys l2 ([] @ [])"
      using r1 reads_skip_while1 [OF emits_at [OF r1], of is_operator_char] is_operator_char_ascii that(2)
      by - (rule reads_trans, simp_all)
    have slice: "str_slice (byte_len xs) (lx_pos l2) (lx_text l2) = ?zs"
      by (rule slice_at [OF emits_at [OF r]])
    have "list_all is_operator_char ?zs" using that(1) by (auto simp: list_all_iff dest: set_takeWhileD)
    then have "lexeme_shape (operator_kind ?zs) ?zs ?ys" "lexeme_decodes (operator_kind ?zs) ?zs"
      using operator_kind_cases [of ?zs] by (auto simp: lexeme_shape_def lexeme_decodes_def)
    with lexes_one_token [OF r, of "operator_kind ?zs"] show ?thesis by (simp add: slice)
  qed
  have unk: "lexes_one l xs (c # cs) (error_at code (range_from (byte_len xs) ?l) m ?l)" for code m
    using lexes_one_error [OF r1] by simp
  show ?thesis
  proof (cases "(c = 91 \<and> peek ?l = Some 124) \<or> (c = 124 \<and> peek ?l = Some 93)")
    case True
    then consider "c = 91" "peek ?l = Some 124" | "c = 124" "peek ?l = Some 93" by blast
    then show ?thesis
    proof cases
      case 1
      with two [of TkLArrayBracket] show ?thesis by (simp add: operator_or_unknown_def b Let_def)
    next
      case 2
      with two [of TkRArrayBracket] show ?thesis by (simp add: operator_or_unknown_def b Let_def)
    qed
  next
    case False
    then have "operator_or_unknown (byte_len xs) l =
        (case punct c of
           Some kind \<Rightarrow> push kind (range_from (byte_len xs) ?l) ?l
         | None \<Rightarrow>
             if is_operator_char c then
               (let l2 = skip_while1 is_operator_char ?l
                in push (operator_kind (str_slice (byte_len xs) (lx_pos l2) (lx_text l2))) (range_from (byte_len xs) l2) l2)
             else error_at UNEXPECTED_CHAR (range_from (byte_len xs) ?l)
                    (str ''unexpected character `'' @ [c] @ str ''`'') ?l)"
      unfolding operator_or_unknown_def b by (cases "punct c") auto
    then show ?thesis using one op [OF _ refl] unk by (cases "punct c") (simp_all add: Let_def)
  qed
qed

section \<open>The main loop\<close>

lemma lexes_lex_token:
  assumes at: "lex_at l xs (c # cs)"
  shows "lexes_one l xs (c # cs) (lex_token c l)"
proof -
  have pos: "lx_pos l = byte_len xs" using at by (simp add: lex_at_def)
  show ?thesis
    unfolding lex_token_def Let_def pos starts_with_at [OF at]
    using lexes_line_comment [OF at] lexes_block_comment [OF at] lexes_number [OF at]
      lexes_ident [OF at] lexes_operator_or_unknown [OF at] lexes_string [of l xs cs] lexes_quote [of l xs cs] at
    by (auto split: if_split)
qed

text \<open>
  The abstract account of a text \<open>ys\<close> that follows \<open>xs\<close>: whitespace and pieces in turn, then the
  end-of-file token.
\<close>

inductive lexes ::
  "source_id \<Rightarrow> utext \<Rightarrow> utext \<Rightarrow> token list \<Rightarrow> comment list \<Rightarrow> diagnostic list \<Rightarrow> bool" for s where
  lexes_eof: "list_all is_whitespace ys \<Longrightarrow>
     lexes s xs ys [Token_new TkEof (TextRange_empty (byte_len (xs @ ys)))] [] []"
| lexes_piece: "list_all is_whitespace ws \<Longrightarrow> piece_ok s (xs @ ws) zs ys ts cs ds \<Longrightarrow>
     lexes s (xs @ ws @ zs) ys ts' cs' ds' \<Longrightarrow> lexes s xs (ws @ zs @ ys) (ts @ ts') (cs @ cs') (ds @ ds')"

lemma lexes_run:
  "lex_at l xs ys \<Longrightarrow>
   \<exists>ts cs ds. emits l xs ys [] (run l) ts cs ds \<and> lexes (lx_source l) xs ys ts cs ds"
proof (induction l arbitrary: xs ys rule: run.induct)
  case (1 l)
  let ?ws = "takeWhile is_whitespace ys" let ?ys = "dropWhile is_whitespace ys" let ?l = "skip_whitespace l"
  have r: "reads l xs ?ws ?ys ?l []"
    unfolding skip_whitespace_def by (rule reads_skip_while [OF "1.prems"])
  have ws: "list_all is_whitespace ?ws" by (auto simp: list_all_iff dest: set_takeWhileD)
  show ?case
  proof (cases ?ys)
    case Nil
    then have ys: "?ws = ys" by (metis append_Nil2 takeWhile_dropWhile_id)
    have at: "lex_at ?l (xs @ ys) []" using emits_at [OF r] Nil ys by simp
    then have p: "peek ?l = None" by simp
    let ?t = "Token_new TkEof (TextRange_empty (byte_len (xs @ ys)))"
    have "emits l xs ys [] (run l) ([] @ [?t]) [] []"
      using emits_push [OF r, of TkEof "TextRange_empty (byte_len (xs @ ys))"] at p Nil ys
      by (subst run.simps) (simp add: lex_at_def Let_def)
    moreover have "lexes (lx_source l) xs ys [?t] [] []" using ws ys lexes_eof by metis
    ultimately show ?thesis by auto
  next
    case (Cons c cs)
    have p: "peek ?l = Some c" using emits_at [OF r] Cons by simp
    have "lexes_one ?l (xs @ ?ws) (c # cs) (lex_token c ?l)"
      using emits_at [OF r] Cons by (intro lexes_lex_token) simp
    then obtain zs ys' ts cs' ds where z: "c # cs = zs @ ys'"
      "emits ?l (xs @ ?ws) zs ys' (lex_token c ?l) ts cs' ds"
      "piece_ok (lx_source l) (xs @ ?ws) zs ys' ts cs' ds"
      unfolding lexes_one_def using emits_source [OF r] by auto
    from "1.IH" [OF refl p emits_at [OF z(2)]]
    obtain ts2 cs2 ds2 where n: "emits (lex_token c ?l) ((xs @ ?ws) @ zs) ys' [] (run (lex_token c ?l)) ts2 cs2 ds2"
      "lexes (lx_source l) ((xs @ ?ws) @ zs) ys' ts2 cs2 ds2"
      using emits_source [OF r] emits_source [OF z(2)] by auto
    have ys: "ys = ?ws @ zs @ ys'" using Cons z(1) by (metis takeWhile_dropWhile_id)
    have "run l = run (lex_token c ?l)" using p by (simp add: run.simps [of l] Let_def)
    moreover have "emits l xs (?ws @ zs @ ys') [] (run (lex_token c ?l)) ([] @ ts @ ts2) ([] @ cs' @ cs2) ([] @ ds @ ds2)"
      using r z n Cons by (simp add: emits_def)
    moreover have "lexes (lx_source l) xs (?ws @ zs @ ys') (ts @ ts2) (cs' @ cs2) (ds @ ds2)"
      using lexes_piece [OF ws z(3)] n(2) by simp
    ultimately show ?thesis using ys by auto
  qed
qed

lemma lex_lexes:
  obtains out where "lx_pos (run \<lparr>lx_source = s, lx_text = t, lx_pos = 0,
      lx_out = \<lparr>lx_tokens = [], lx_comments = [], lx_diagnostics = []\<rparr>\<rparr>) = byte_len t"
    and "lex_text s t = (if byte_len t \<le> u32_max then Some out else None)"
    and "lexes s [] t (lx_tokens out) (lx_comments out) (lx_diagnostics out)"
proof -
  let ?l = "\<lparr>lx_source = s, lx_text = t, lx_pos = 0,
      lx_out = \<lparr>lx_tokens = [], lx_comments = [], lx_diagnostics = []\<rparr>\<rparr>"
  have "lex_at ?l [] t" by (simp add: lex_at_def)
  from lexes_run [OF this] obtain ts cs ds where r: "emits ?l [] t [] (run ?l) ts cs ds" "lexes s [] t ts cs ds" by auto
  then have pos: "lx_pos (run ?l) = byte_len t" by (simp add: emits_def lex_at_def)
  show thesis
  proof (rule that [OF pos])
    show "lex_text s t = (if byte_len t \<le> u32_max then Some (lx_out (run ?l)) else None)"
      using pos by (simp add: lex_text_def Let_def ByteOffset_from_usize_def u32_try_from_def)
    show "lexes s [] t (lx_tokens (lx_out (run ?l))) (lx_comments (lx_out (run ?l))) (lx_diagnostics (lx_out (run ?l)))"
      using r by (simp add: emits_def)
  qed
qed

lemma lex_SomeD:
  "lex_text s t = Some out \<Longrightarrow> lexes s [] t (lx_tokens out) (lx_comments out) (lx_diagnostics out)"
  by (rule lex_lexes [of s t]) (auto split: if_splits)

section \<open>What a lexed text is\<close>

definition before :: "text_range \<Rightarrow> text_range \<Rightarrow> bool" where
  "before a b \<longleftrightarrow> tr_end a \<le> tr_start b"

definition covers :: "text_range \<Rightarrow> nat \<Rightarrow> bool" where
  "covers r p \<longleftrightarrow> tr_start r \<le> p \<and> p < tr_end r"

text \<open>A non-empty range whose ends are character boundaries of the text.\<close>

definition proper_range :: "utext \<Rightarrow> text_range \<Rightarrow> bool" where
  "proper_range t r \<longleftrightarrow> tr_start r < tr_end r \<and> char_boundary (tr_start r) t \<and> char_boundary (tr_end r) t"

definition lexeme :: "utext \<Rightarrow> text_range \<Rightarrow> utext" where
  "lexeme t r = str_slice (tr_start r) (tr_end r) t"

lemma proper_piece: "zs \<noteq> [] \<Longrightarrow> proper_range (xs @ zs @ ys) (piece xs zs)"
  unfolding proper_range_def piece_def
  by (auto simp: char_boundary_iff) (metis append.assoc byte_len_append)

lemma lexeme_piece: "lexeme (xs @ zs @ ys) (piece xs zs) = zs"
  by (simp add: lexeme_def piece_def)

lemma piece_okE:
  assumes "piece_ok s xs zs ys ts cs ds"
  obtains (token) k where "ts = [Token_new k (piece xs zs)]" "cs = []" "lexeme_shape k zs ys" "ds = [] \<longrightarrow> lexeme_decodes k zs"
  | (comment) k where "ts = []" "cs = [\<lparr>cm_kind = k, cm_range = piece xs zs\<rparr>]" "comment_shape k zs ys"
  | (error) code m where "ts = []" "cs = []" "Diagnostic_error code m (Span_new s (piece xs zs)) \<in> set ds"
  using assms unfolding piece_ok_def by auto

lemma lexeme_shape_kind: "lexeme_shape k zs ys \<Longrightarrow> k \<noteq> TkEof \<and> \<not> is_virtual k"
proof -
  assume sh: "lexeme_shape k zs ys"
  have "operator_kind zs \<noteq> TkEof" "\<not> is_virtual (operator_kind zs)"
    using operator_kind_cases [of zs] by (auto simp: is_virtual_def)
  moreover have "k \<noteq> TkEof \<and> \<not> is_virtual k" if "punct c = Some k" for c
    using punct_kinds [OF that] by (auto simp: is_virtual_def)
  moreover have "k \<noteq> TkEof \<and> \<not> is_virtual k" if "k \<in> {TkString, TkChar, TkTypeVar, TkInt, TkFloat, TkLArrayBracket, TkRArrayBracket}"
    using that by (auto simp: is_virtual_def)
  moreover note ident_kind_other(8,9) [of zs]
  ultimately show ?thesis using sh unfolding lexeme_shape_def by (auto split: if_splits)
qed

definition out_ranges :: "token list \<Rightarrow> comment list \<Rightarrow> text_range set" where
  "out_ranges ts cs = tok_range ` set ts \<union> cm_range ` set cs"

lemma lexes_start: "lexes s xs ys ts cs ds \<Longrightarrow> r \<in> out_ranges ts cs \<Longrightarrow> byte_len xs \<le> tr_start r"
proof (induction arbitrary: r rule: lexes.induct)
  case (lexes_eof ys xs)
  then show ?case by (simp add: out_ranges_def Token_new_def TextRange_empty_def)
next
  case (lexes_piece ws xs zs ys ts cs ds ts' cs' ds')
  then have "r = piece (xs @ ws) zs \<or> r \<in> out_ranges ts' cs'"
    by (elim piece_okE) (auto simp: out_ranges_def Token_new_def)
  then show ?case using lexes_piece.IH [of r] by (auto simp: piece_def)
qed

lemma lexes_ordered: "lexes s xs ys ts cs ds \<Longrightarrow>
   sorted_wrt before (map tok_range ts) \<and> sorted_wrt before (map cm_range cs) \<and>
   (\<forall>t \<in> set ts. \<forall>c \<in> set cs. before (tok_range t) (cm_range c) \<or> before (cm_range c) (tok_range t))"
proof (induction rule: lexes.induct)
  case (lexes_piece ws xs zs ys ts cs ds ts' cs' ds')
  have after: "before (piece (xs @ ws) zs) r" if "r \<in> out_ranges ts' cs'" for r
    using lexes_start [OF lexes_piece.hyps(3) that] by (simp add: before_def piece_def)
  show ?case
    using lexes_piece.hyps(2)
  proof (cases rule: piece_okE)
    case (token k)
    then show ?thesis using lexes_piece.IH after by (auto simp: Token_new_def out_ranges_def)
  next
    case (comment k)
    then show ?thesis using lexes_piece.IH after by (auto simp: out_ranges_def)
  next
    case (error code m)
    then show ?thesis using lexes_piece.IH by simp
  qed
qed simp

lemma lexes_proper: "lexes s xs ys ts cs ds \<Longrightarrow>
   (\<exists>body. ts = body @ [Token_new TkEof (TextRange_empty (byte_len (xs @ ys)))] \<and>
      (\<forall>t \<in> set body. tok_kind t \<noteq> TkEof \<and> \<not> is_virtual (tok_kind t) \<and> proper_range (xs @ ys) (tok_range t))) \<and>
   (\<forall>c \<in> set cs. proper_range (xs @ ys) (cm_range c))"
proof (induction rule: lexes.induct)
  case (lexes_piece ws xs zs ys ts cs ds ts' cs' ds')
  have p: "proper_range (xs @ ws @ zs @ ys) (piece (xs @ ws) zs)"
    using proper_piece [of zs "xs @ ws" ys] lexes_piece.hyps(2) by (simp add: piece_ok_def)
  from lexes_piece.IH obtain body where b: "ts' = body @ [Token_new TkEof (TextRange_empty (byte_len (xs @ ws @ zs @ ys)))]"
    "\<forall>t \<in> set body. tok_kind t \<noteq> TkEof \<and> \<not> is_virtual (tok_kind t) \<and> proper_range (xs @ ws @ zs @ ys) (tok_range t)"
    "\<forall>c \<in> set cs'. proper_range (xs @ ws @ zs @ ys) (cm_range c)" by auto
  have "\<forall>t \<in> set ts. tok_kind t \<noteq> TkEof \<and> \<not> is_virtual (tok_kind t) \<and> proper_range (xs @ ws @ zs @ ys) (tok_range t)"
    and "\<forall>c \<in> set cs. proper_range (xs @ ws @ zs @ ys) (cm_range c)"
    using lexes_piece.hyps(2) p by (auto elim!: piece_okE simp: Token_new_def dest: lexeme_shape_kind)
  with b show ?case by (intro conjI exI [of _ "ts @ body"]) auto
qed simp

lemma whitespace_split:
  assumes "ws @ zs @ ys = as @ c # bs" and "list_all is_whitespace ws" and "\<not> is_whitespace c"
  obtains (inside) as' bs' where "as = ws @ as'" "zs = as' @ c # bs'" | (after) as' where "as = ws @ zs @ as'" "ys = as' @ c # bs"
  using assms by (auto simp: append_eq_append_conv2 Cons_eq_append_conv append_eq_Cons_conv list_all_iff)

lemma lexes_coverage: "lexes s xs ys ts cs ds \<Longrightarrow> ys = as @ c # bs \<Longrightarrow> \<not> is_whitespace c \<Longrightarrow>
   (\<exists>t \<in> set ts. covers (tok_range t) (byte_len (xs @ as))) \<or>
   (\<exists>k \<in> set cs. covers (cm_range k) (byte_len (xs @ as))) \<or>
   (\<exists>d \<in> set ds. covers (sp_range (d_primary d)) (byte_len (xs @ as)))"
proof (induction arbitrary: as bs rule: lexes.induct)
  case (lexes_eof ys xs)
  then show ?case by (simp add: list_all_iff)
next
  case (lexes_piece ws xs zs ys ts cs ds ts' cs' ds')
  from lexes_piece.prems(1) lexes_piece.hyps(1) lexes_piece.prems(2) show ?case
  proof (cases rule: whitespace_split)
    case (inside as' bs')
    then have "covers (piece (xs @ ws) zs) (byte_len (xs @ as))"
      by (simp add: covers_def piece_def)
    with lexes_piece.hyps(2) show ?thesis
      by (elim piece_okE) (auto simp: Token_new_def Diagnostic_error_def Diagnostic_new_def Span_new_def intro: bexI [rotated])
  next
    case (after as')
    with lexes_piece.IH [OF after(2) lexes_piece.prems(2)] show ?thesis by auto
  qed
qed

lemma lexes_lexemes: "lexes s xs ys ts cs ds \<Longrightarrow> t \<in> set ts \<Longrightarrow> tok_kind t \<noteq> TkEof \<Longrightarrow>
   (\<exists>as bs. xs @ ys = as @ lexeme (xs @ ys) (tok_range t) @ bs \<and> byte_len as = tr_start (tok_range t) \<and>
      lexeme_shape (tok_kind t) (lexeme (xs @ ys) (tok_range t)) bs) \<and>
   (ds = [] \<longrightarrow> lexeme_decodes (tok_kind t) (lexeme (xs @ ys) (tok_range t)))"
proof (induction rule: lexes.induct)
  case (lexes_eof ys xs)
  then show ?case by (simp add: Token_new_def)
next
  case (lexes_piece ws xs zs ys ts cs ds ts' cs' ds')
  show ?case
  proof (cases "t \<in> set ts'")
    case True
    with lexes_piece.IH lexes_piece.prems show ?thesis by simp
  next
    case False
    with lexes_piece.prems lexes_piece.hyps(2) obtain k where k: "t = Token_new k (piece (xs @ ws) zs)" "lexeme_shape k zs ys"
      "ds = [] \<longrightarrow> lexeme_decodes k zs" by (auto elim!: piece_okE)
    have "lexeme (xs @ ws @ zs @ ys) (piece (xs @ ws) zs) = zs"
      using lexeme_piece [of "xs @ ws" zs ys] by simp
    with k show ?thesis
      by (intro conjI exI [where x = "xs @ ws"] exI [where x = ys]) (auto simp: Token_new_def piece_def)
  qed
qed

subsection \<open>A lexed text, evaluated\<close>

lemmas lex_eval =
  lex_text_def run.simps lex_token_def skip_whitespace_def skip_while.simps skip_while1.simps peek_def
  nth_char_def rest_def list_get_def adv_def bump_def eat_def range_from_def is_whitespace_def push_def
  push_comment_def error_at_def starts_with_def is_ascii_digit_def is_ident_start_def
  is_ident_continue_def is_ascii_alphabetic_def ident_def ident_kind_def keyword_def keyword_table_def
  str_def len_utf8_def ByteOffset_from_usize_def u32_try_from_def u32_max_def str_slice_def Let_def
  number_def decimal_number_def consume_digits_def fraction_def exponent_def peek_is_def
  decode_int_literal_def strip_prefix_def radix_of_def utf8_def int_digit_def u64_try_from_def
  operator_or_unknown_def punct_def operator_kind_def is_operator_char_def Token_new_def
  TextRange_empty_def

lemma lex_example:
  "lex_text 0 (str '' 7'') =
     Some \<lparr>lx_tokens = [Token_new TkInt \<lparr>tr_start = 1, tr_end = 2\<rparr>,
                         Token_new TkEof \<lparr>tr_start = 2, tr_end = 2\<rparr>],
           lx_comments = [], lx_diagnostics = []\<rparr>"
  by (simp add: lex_eval)

section \<open>Properties\<close>

text \<open>
  C6: the lexer is total on texts of at most \<open>u32_max\<close> bytes, panics on longer ones, and its output is
  an account of the text as whitespace and pieces: each piece is a token of the right shape
  (longest identifier or operator, keyword or class by its spelling), a comment, or rejected text
  that a diagnostic covers, and a token without a diagnostic decodes.
\<close>

theorem lex_refines:
  "if byte_len t \<le> u32_max
   then \<exists>out. lex_text s t = Some out \<and> lexes s [] t (lx_tokens out) (lx_comments out) (lx_diagnostics out)
   else lex_text s t = None"
  by (rule lex_lexes [of s t]) auto

text \<open>
  C36: the tokens end with one end-of-file token at the end of the text, which is the only one; no
  virtual token appears; every other token and every comment has a non-empty range between
  character boundaries; tokens and comments are in source order and overlap nowhere.
\<close>

theorem lex_ranges:
  assumes "lex_text s t = Some out"
  shows "(\<exists>body. lx_tokens out = body @ [Token_new TkEof (TextRange_empty (byte_len t))] \<and>
            (\<forall>k \<in> set body. tok_kind k \<noteq> TkEof \<and> \<not> is_virtual (tok_kind k) \<and> proper_range t (tok_range k))) \<and>
         (\<forall>c \<in> set (lx_comments out). proper_range t (cm_range c)) \<and>
         sorted_wrt before (map tok_range (lx_tokens out)) \<and> sorted_wrt before (map cm_range (lx_comments out)) \<and>
         (\<forall>k \<in> set (lx_tokens out). \<forall>c \<in> set (lx_comments out).
            before (tok_range k) (cm_range c) \<or> before (cm_range c) (tok_range k))"
proof -
  have "lexes s [] t (lx_tokens out) (lx_comments out) (lx_diagnostics out)"
    using assms by (rule lex_SomeD)
  from lexes_proper [OF this] lexes_ordered [OF this] show ?thesis by simp
qed

theorem lex_ranges_witness:
  "\<exists>out. lex_text 0 (str '' 7'') = Some out \<and> sorted_wrt before (map tok_range (lx_tokens out)) \<and>
     length (lx_tokens out) = 2"
proof -
  obtain out where o: "lex_text 0 (str '' 7'') = Some out" "length (lx_tokens out) = 2"
    using lex_example by auto
  from lex_ranges [OF o(1)] o show ?thesis by blast
qed

text \<open>
  C35: no character is lost: every character that is not whitespace lies in the range of a token or
  of a comment, or in the primary span of a diagnostic.
\<close>

theorem lex_coverage:
  assumes "lex_text s (as @ c # bs) = Some out" and "\<not> is_whitespace c"
  shows "(\<exists>k \<in> set (lx_tokens out). covers (tok_range k) (byte_len as)) \<or>
         (\<exists>k \<in> set (lx_comments out). covers (cm_range k) (byte_len as)) \<or>
         (\<exists>d \<in> set (lx_diagnostics out). covers (sp_range (d_primary d)) (byte_len as))"
proof -
  have "lexes s [] (as @ c # bs) (lx_tokens out) (lx_comments out) (lx_diagnostics out)"
    using assms(1) by (rule lex_SomeD)
  from lexes_coverage [OF this refl assms(2)] show ?thesis by simp
qed

theorem lex_coverage_witness:
  "\<exists>out. lex_text 0 (str '' '' @ 55 # []) = Some out \<and> \<not> is_whitespace 55 \<and>
     (\<exists>k \<in> set (lx_tokens out). covers (tok_range k) (byte_len (str '' '')))"
proof -
  have "str '' '' @ 55 # [] = str '' 7''" by (simp add: str_def)
  with lex_example obtain out where o: "lex_text 0 (str '' '' @ 55 # []) = Some out" "lx_comments out = []" "lx_diagnostics out = []"
    by auto
  then show ?thesis using lex_coverage [OF o(1)] by (auto simp: is_whitespace_def)
qed

text \<open>
  every token's text has the shape its kind promises, and when lexing reports nothing, every
  integer, string and character token decodes: the lexer accepts no literal that the decoders of
  the later phases reject.
\<close>

theorem lex_clean_decodes:
  assumes "lex_text s t = Some out" and "k \<in> set (lx_tokens out)" and "tok_kind k \<noteq> TkEof"
  shows "(\<exists>as bs. t = as @ lexeme t (tok_range k) @ bs \<and> byte_len as = tr_start (tok_range k) \<and>
            lexeme_shape (tok_kind k) (lexeme t (tok_range k)) bs) \<and>
         (lx_diagnostics out = [] \<longrightarrow> lexeme_decodes (tok_kind k) (lexeme t (tok_range k)))"
proof -
  have "lexes s [] t (lx_tokens out) (lx_comments out) (lx_diagnostics out)"
    using assms(1) by (rule lex_SomeD)
  from lexes_lexemes [OF this assms(2,3)] show ?thesis by simp
qed

theorem lex_clean_decodes_witness:
  "decode_int_literal (lexeme (str '' 7'') \<lparr>tr_start = 1, tr_end = 2\<rparr>) \<noteq> None"
  using lex_clean_decodes [OF lex_example, of "Token_new TkInt \<lparr>tr_start = 1, tr_end = 2\<rparr>"]
  by (simp add: Token_new_def lexeme_decodes_def)

end
