(* ===== verification/Fai_Layout.thy ===== *)
theory Fai_Layout
  imports Fai_Lexing
begin

text \<open>
  The layout pass (\<^verbatim>\<open>fai-syntax/src/layout.rs\<close>): the monotone position cursor, the layouter with its
  stack of reference columns, and the offside rule as a function on positioned tokens, which the
  layouter is shown to compute. Byte and string slices and the \<^verbatim>\<open>unwrap\<close>s of the stack can panic
  (\<open>None\<close>). Line, column and bracket counters are bounded by the text length and kept as naturals.
\<close>

section \<open>The position cursor\<close>

record position_cursor =
  pc_offset :: nat
  pc_line :: nat
  pc_column :: nat
  pc_column_offset :: nat

definition PositionCursor_new :: position_cursor where
  "PositionCursor_new = \<lparr>pc_offset = 0, pc_line = 1, pc_column = 1, pc_column_offset = 0\<rparr>"

text \<open>The loop of \<^verbatim>\<open>advance\<close> over the enumerated bytes from the old offset on.\<close>

fun advance_bytes :: "nat \<Rightarrow> nat list \<Rightarrow> position_cursor \<Rightarrow> position_cursor" where
  "advance_bytes i [] pc = pc"
| "advance_bytes i (byte # bytes) pc =
     advance_bytes (i + 1) bytes
       (if byte = 10
        then pc\<lparr>pc_line := pc_line pc + 1, pc_column := 1, pc_column_offset := pc_offset pc + i + 1\<rparr>
        else pc)"

definition PositionCursor_advance :: "utext \<Rightarrow> byte_offset \<Rightarrow> position_cursor \<Rightarrow> position_cursor option" where
  "PositionCursor_advance t at pc =
     (if pc_offset pc \<le> at \<and> at \<le> byte_len t
      then let bytes = take (at - pc_offset pc) (drop (pc_offset pc) (str_bytes t))
           in Some ((advance_bytes 0 bytes pc)\<lparr>pc_offset := at\<rparr>)
      else None)"

definition PositionCursor_column :: "utext \<Rightarrow> position_cursor \<Rightarrow> (nat \<times> position_cursor) option" where
  "PositionCursor_column t pc = do {
     seg \<leftarrow> str_get (pc_column_offset pc) (pc_offset pc) t;
     let column = pc_column pc + length seg;
     Some (column, pc\<lparr>pc_column := column, pc_column_offset := pc_offset pc\<rparr>) }"

section \<open>The layouter\<close>

record layout_out =
  lo_tokens :: "token list"
  lo_diagnostics :: "diagnostic list"

record layouter =
  ly_source :: source_id
  ly_text :: utext
  ly_position :: position_cursor
  ly_out :: "token list"
  ly_diagnostics :: "diagnostic list"
  ly_contexts :: "nat list"
  ly_bracket_depth :: nat
  ly_pending_open :: bool
  ly_prev_line :: nat
  ly_first :: bool

abbreviation LAYOUT_ERROR :: diagnostic_code where "LAYOUT_ERROR \<equiv> ''FAI1021''"

definition is_opener :: "token_kind \<Rightarrow> bool" where
  "is_opener k \<longleftrightarrow> k \<in> {TkEquals, TkArrow, TkThen, TkElse}"

definition is_continuation :: "token_kind \<Rightarrow> bool" where
  "is_continuation k \<longleftrightarrow> k \<in> {TkOperator, TkColonColon, TkEquals, TkArrow, TkThen, TkElse, TkPipe}"

definition push_virtual :: "token_kind \<Rightarrow> byte_offset \<Rightarrow> layouter \<Rightarrow> layouter" where
  "push_virtual k at l = l\<lparr>ly_out := ly_out l @ [Token_new k (TextRange_empty at)]\<rparr>"

definition layout_error :: "text_range \<Rightarrow> utext \<Rightarrow> layouter \<Rightarrow> layouter" where
  "layout_error r message l =
     l\<lparr>ly_diagnostics := ly_diagnostics l @ [Diagnostic_error LAYOUT_ERROR message (Span_new (ly_source l) r)]\<rparr>"

definition pop_context :: "layouter \<Rightarrow> layouter" where
  "pop_context l = l\<lparr>ly_contexts := butlast (ly_contexts l)\<rparr>"

lemma contexts_pop_virtual [simp]: "ly_contexts (push_virtual k at (pop_context l)) = butlast (ly_contexts l)"
  by (simp add: push_virtual_def pop_context_def)

text \<open>The closing loop of \<^verbatim>\<open>line_transition\<close>, and the one at the end of the file.\<close>

function close_deeper :: "nat \<Rightarrow> byte_offset \<Rightarrow> layouter \<Rightarrow> layouter" where
  "close_deeper col at l =
     (if 1 < length (ly_contexts l) \<and> col < last (ly_contexts l)
      then close_deeper col at (push_virtual TkLayoutClose at (pop_context l)) else l)"
  by pat_completeness auto
termination by (relation "measure (\<lambda>(col, at, l). length (ly_contexts l))") auto

function close_all :: "byte_offset \<Rightarrow> layouter \<Rightarrow> layouter" where
  "close_all at l =
     (if 1 < length (ly_contexts l)
      then close_all at (push_virtual TkLayoutClose at (pop_context l)) else l)"
  by pat_completeness auto
termination by (relation "measure (\<lambda>(at, l). length (ly_contexts l))") auto

declare close_deeper.simps [simp del] close_all.simps [simp del]

definition last_context :: "layouter \<Rightarrow> nat option" where
  "last_context l = (if ly_contexts l = [] then None else Some (last (ly_contexts l)))"

definition line_transition :: "nat \<Rightarrow> token_kind \<Rightarrow> byte_offset \<Rightarrow> layouter \<Rightarrow> layouter option" where
  "line_transition col kind at l =
     (let l1 = close_deeper col at l
      in do { reference \<leftarrow> last_context l1;
              Some (if col < reference \<or> (col = reference \<and> \<not> is_continuation kind)
                    then push_virtual TkLayoutSep at l1 else l1) })"

definition open_block :: "nat \<Rightarrow> token \<Rightarrow> byte_offset \<Rightarrow> layouter \<Rightarrow> layouter option" where
  "open_block col tok at l = do {
     enclosing \<leftarrow> last_context l;
     if enclosing < col
     then (let l1 = push_virtual TkLayoutOpen at l
           in Some (l1\<lparr>ly_contexts := ly_contexts l1 @ [col]\<rparr>))
     else line_transition col (tok_kind tok) at
            (layout_error (tok_range tok) (str ''expected the block body to be indented further'') l) }"

definition opens_bracket :: "token_kind \<Rightarrow> bool" where
  "opens_bracket k \<longleftrightarrow> k \<in> {TkLParen, TkLBracket, TkLArrayBracket, TkLBrace}"

definition closes_bracket :: "token_kind \<Rightarrow> bool" where
  "closes_bracket k \<longleftrightarrow> k \<in> {TkRParen, TkRBracket, TkRArrayBracket, TkRBrace}"

definition bracket_step :: "token_kind \<Rightarrow> nat \<Rightarrow> nat" where
  "bracket_step k d = (if opens_bracket k then d + 1 else if closes_bracket k then d - 1 else d)"

text \<open>One iteration of \<^verbatim>\<open>run\<close>'s loop on a token that is not the end of the file.\<close>

definition layout_token :: "token \<Rightarrow> layouter \<Rightarrow> layouter option" where
  "layout_token tok l = do {
     let at = tr_start (tok_range tok);
     pos \<leftarrow> PositionCursor_advance (ly_text l) at (ly_position l);
     let line = pc_line pos;
     let l1 = l\<lparr>ly_position := pos\<rparr>;
     l2 \<leftarrow> (if ly_first l1 then do {
               (col, pos') \<leftarrow> PositionCursor_column (ly_text l1) (ly_position l1);
               Some (l1\<lparr>ly_position := pos', ly_contexts := ly_contexts l1 @ [col], ly_first := False\<rparr>) }
             else if ly_bracket_depth l1 = 0 \<and> ly_prev_line l1 < line then do {
               (col, pos') \<leftarrow> PositionCursor_column (ly_text l1) (ly_position l1);
               let l1' = l1\<lparr>ly_position := pos'\<rparr>;
               if ly_pending_open l1' then open_block col tok at l1'
               else line_transition col (tok_kind tok) at l1' }
             else Some l1);
     let depth = bracket_step (tok_kind tok) (ly_bracket_depth l2);
     Some (l2\<lparr>ly_bracket_depth := depth, ly_pending_open := (depth = 0 \<and> is_opener (tok_kind tok)),
              ly_out := ly_out l2 @ [tok], ly_prev_line := line\<rparr>) }"

fun layout_run :: "token list \<Rightarrow> layouter \<Rightarrow> layout_out option" where
  "layout_run [] l = Some \<lparr>lo_tokens = ly_out l, lo_diagnostics = ly_diagnostics l\<rparr>"
| "layout_run (tok # toks) l =
     (if tok_kind tok = TkEof
      then (let l1 = close_all (tr_start (tok_range tok)) l
            in Some \<lparr>lo_tokens = ly_out l1 @ [tok], lo_diagnostics = ly_diagnostics l1\<rparr>)
      else do { l1 \<leftarrow> layout_token tok l; layout_run toks l1 })"

definition layout :: "source_id \<Rightarrow> utext \<Rightarrow> token list \<Rightarrow> layout_out option" where
  "layout source t toks =
     layout_run toks
       \<lparr>ly_source = source, ly_text = t, ly_position = PositionCursor_new, ly_out = [], ly_diagnostics = [],
        ly_contexts = [], ly_bracket_depth = 0, ly_pending_open = False, ly_prev_line = 0, ly_first = True\<rparr>"

section \<open>The offside rule\<close>

text \<open>
  The rule as a function of the tokens and their positions: \<open>ctx\<close> is the stack of reference
  columns, innermost first. The second result lists the tokens that should have opened a block.
\<close>

definition virtual :: "token_kind \<Rightarrow> token \<Rightarrow> token" where
  "virtual k tok = Token_new k (TextRange_empty (tr_start (tok_range tok)))"

definition enclosing_blocks :: "nat \<Rightarrow> nat list \<Rightarrow> nat list" where
  "enclosing_blocks col ctx = dropWhile (\<lambda>c. col < c) (butlast ctx) @ [last ctx]"

definition new_line :: "token \<Rightarrow> nat \<Rightarrow> nat list \<Rightarrow> bool \<Rightarrow> token list \<times> nat list \<times> token list" where
  "new_line tok col ctx pending =
     (if pending \<and> hd ctx < col then ([virtual TkLayoutOpen tok], col # ctx, [])
      else let ctx' = enclosing_blocks col ctx;
               closes = replicate (length ctx - length ctx') (virtual TkLayoutClose tok);
               sep = (if col < hd ctx' \<or> (col = hd ctx' \<and> \<not> is_continuation (tok_kind tok))
                      then [virtual TkLayoutSep tok] else [])
           in (closes @ sep, ctx', if pending then [tok] else []))"

fun offside :: "(token \<Rightarrow> line_col) \<Rightarrow> nat list \<Rightarrow> nat \<Rightarrow> bool \<Rightarrow> nat \<Rightarrow> token list \<Rightarrow> token list \<times> token list" where
  "offside pos ctx depth pending prev [] = ([], [])"
| "offside pos ctx depth pending prev (tok # toks) =
     (if tok_kind tok = TkEof then (replicate (length ctx - 1) (virtual TkLayoutClose tok) @ [tok], [])
      else let line = lc_line (pos tok);
               col = lc_column (pos tok);
               (vs, ctx', errs) =
                 (if ctx = [] then ([], [col], [])
                  else if depth = 0 \<and> prev < line then new_line tok col ctx pending
                  else ([], ctx, []));
               depth' = bracket_step (tok_kind tok) depth;
               (rest, errs') = offside pos ctx' depth' (depth' = 0 \<and> is_opener (tok_kind tok)) line toks
           in (vs @ tok # rest, errs @ errs'))"

section \<open>Position tracking\<close>

text \<open>
  What the layouter needs of a cursor: from a text prefix it moves to a longer one, and it tells
  the line and the column of the prefix it stands after.
\<close>

locale position_scan =
  fixes start :: 'c
    and advance :: "utext \<Rightarrow> byte_offset \<Rightarrow> 'c \<Rightarrow> 'c option"
    and column :: "utext \<Rightarrow> 'c \<Rightarrow> (nat \<times> 'c) option"
    and line :: "'c \<Rightarrow> nat"
    and stands :: "'c \<Rightarrow> utext \<Rightarrow> bool"
  assumes start_stands: "stands start []"
    and advance_stands: "stands c xs \<Longrightarrow>
          \<exists>c'. advance (xs @ zs @ ys) (byte_len (xs @ zs)) c = Some c' \<and> stands c' (xs @ zs)"
    and line_stands: "stands c xs \<Longrightarrow> line c = lc_line (position_after xs)"
    and column_stands: "stands c xs \<Longrightarrow>
          \<exists>c'. column (xs @ ys) c = Some (lc_column (position_after xs), c') \<and> stands c' xs"
begin

lemma advance_to:
  assumes "stands c (take_bytes m t)" and "char_boundary m t" and "char_boundary n t" and "m \<le> n"
  shows "\<exists>c'. advance t n c = Some c' \<and> stands c' (take_bytes n t) \<and>
    line c' = lc_line (position_after (take_bytes n t))"
proof -
  obtain xs ys where x: "t = xs @ ys" "byte_len xs = m" "take_bytes m t = xs"
    using assms(2) by (auto elim: char_boundaryE)
  obtain us vs where u: "t = us @ vs" "byte_len us = n" "take_bytes n t = us"
    using assms(3) by (auto elim: char_boundaryE)
  obtain zs where us: "us = xs @ zs"
  proof -
    consider zs where "us = xs @ zs" | zs where "xs = us @ zs" "vs = zs @ ys"
      using x(1) u(1) by (auto simp: append_eq_append_conv2)
    then show thesis
    proof cases
      case 2
      with x(2) u(2) assms(4) have "byte_len zs = 0" by (simp del: byte_len_0_iff)
      then have "zs = []" by (simp only: byte_len_0_iff)
      with 2 that show thesis by (metis append_Nil2)
    qed (rule that)
  qed
  have "stands c xs" using assms(1) x(3) by simp
  from advance_stands [OF this, of zs vs] us u obtain c' where "advance t n c = Some c'" "stands c' us"
    by auto
  with u(3) show ?thesis using line_stands by auto
qed

lemma column_to:
  assumes "stands c (take_bytes n t)" and "char_boundary n t"
  shows "\<exists>c'. column t c = Some (lc_column (position_after (take_bytes n t)), c') \<and> stands c' (take_bytes n t)"
  using column_stands [OF assms(1), of "drop_bytes n t"] take_drop_bytes [OF assms(2)] by simp

end

definition cursor_stands :: "position_cursor \<Rightarrow> utext \<Rightarrow> bool" where
  "cursor_stands pc xs \<longleftrightarrow>
     pc_offset pc = byte_len xs \<and> pc_line pc = lc_line (position_after xs) \<and>
     (\<exists>us vs. xs = us @ vs \<and> 10 \<notin> set vs \<and> pc_column_offset pc = byte_len us \<and>
        pc_column pc = lc_column (position_after us))"

lemma cursor_standsI:
  "pc_offset pc = byte_len xs \<Longrightarrow> pc_line pc = lc_line (position_after xs) \<Longrightarrow> xs = us @ vs \<Longrightarrow>
   10 \<notin> set vs \<Longrightarrow> pc_column_offset pc = byte_len us \<Longrightarrow> pc_column pc = lc_column (position_after us) \<Longrightarrow>
   cursor_stands pc xs"
  unfolding cursor_stands_def by blast

lemma position_after_snoc:
  "position_after (xs @ [c]) =
     (if c = 10 then \<lparr>lc_line = lc_line (position_after xs) + 1, lc_column = 1\<rparr>
      else \<lparr>lc_line = lc_line (position_after xs), lc_column = lc_column (position_after xs) + 1\<rparr>)"
  by (simp add: position_after_def)

lemma lc_column_append: "10 \<notin> set vs \<Longrightarrow> lc_column (position_after (us @ vs)) = lc_column (position_after us) + length vs"
proof (induction vs rule: rev_induct)
  case (snoc v vs)
  then show ?case using position_after_snoc [of "us @ vs" v] by simp
qed simp

lemma advance_bytes_skip: "10 \<notin> set bs \<Longrightarrow> advance_bytes i (bs @ cs) pc = advance_bytes (i + length bs) cs pc"
  by (induction bs arbitrary: i) auto

lemma advance_bytes_char:
  "advance_bytes i (utf8 c @ bs) pc =
     advance_bytes (i + len_utf8 c) bs
       (if c = 10 then pc\<lparr>pc_line := pc_line pc + 1, pc_column := 1, pc_column_offset := pc_offset pc + i + 1\<rparr> else pc)"
proof (cases "c = 10")
  case False
  then have "10 \<notin> set (utf8 c)" by (simp add: utf8_newline)
  with False show ?thesis by (simp add: advance_bytes_skip)
qed simp

lemma advance_bytes_stands:
  "cursor_stands (pc\<lparr>pc_offset := o0 + i\<rparr>) xs \<Longrightarrow> pc_offset pc = o0 \<Longrightarrow>
   cursor_stands ((advance_bytes i (str_bytes zs) pc)\<lparr>pc_offset := o0 + i + byte_len zs\<rparr>) (xs @ zs)"
proof (induction zs arbitrary: xs i pc)
  case (Cons c zs)
  let ?pc = "if c = 10 then pc\<lparr>pc_line := pc_line pc + 1, pc_column := 1, pc_column_offset := pc_offset pc + i + 1\<rparr> else pc"
  have "cursor_stands (?pc\<lparr>pc_offset := o0 + (i + len_utf8 c)\<rparr>) (xs @ [c])"
  proof (cases "c = 10")
    case True
    from True Cons.prems show ?thesis
      by (intro cursor_standsI [where us = "xs @ [c]" and vs = "[]"])
        (auto simp: position_after_snoc cursor_stands_def)
  next
    case False
    from Cons.prems obtain us vs where "xs = us @ vs" "10 \<notin> set vs" "pc_column_offset pc = byte_len us"
      "pc_column pc = lc_column (position_after us)" by (auto simp: cursor_stands_def)
    with False Cons.prems show ?thesis
      by (intro cursor_standsI [where us = us and vs = "vs @ [c]"])
        (simp_all add: position_after_snoc [of "us @ vs", simplified] cursor_stands_def)
  qed
  from Cons.IH [OF this] Cons.prems(2) show ?case by (simp add: advance_bytes_char add.assoc)
qed simp

lemma cursor_advance_stands:
  "cursor_stands c xs \<Longrightarrow>
   \<exists>c'. PositionCursor_advance (xs @ zs @ ys) (byte_len (xs @ zs)) c = Some c' \<and> cursor_stands c' (xs @ zs)"
proof -
  assume c: "cursor_stands c xs"
  then have o: "pc_offset c = byte_len xs" by (simp add: cursor_stands_def)
  have "take (byte_len (xs @ zs) - byte_len xs) (drop (byte_len xs) (str_bytes (xs @ zs @ ys))) = str_bytes zs"
    by simp
  moreover have "cursor_stands ((advance_bytes 0 (str_bytes zs) c)\<lparr>pc_offset := byte_len xs + 0 + byte_len zs\<rparr>) (xs @ zs)"
    using c o by (intro advance_bytes_stands) (simp_all add: cursor_stands_def)
  ultimately show ?thesis using o by (simp add: PositionCursor_advance_def Let_def)
qed

lemma cursor_column_stands:
  "cursor_stands c xs \<Longrightarrow>
   \<exists>c'. PositionCursor_column (xs @ ys) c = Some (lc_column (position_after xs), c') \<and> cursor_stands c' xs"
proof -
  assume c: "cursor_stands c xs"
  then obtain us vs where u: "xs = us @ vs" "10 \<notin> set vs" "pc_column_offset c = byte_len us"
      "pc_column c = lc_column (position_after us)" "pc_offset c = byte_len xs" by (auto simp: cursor_stands_def)
  have "char_boundary (byte_len us) (us @ vs @ ys)" "char_boundary (byte_len (us @ vs)) ((us @ vs) @ ys)"
    by (rule char_boundary_append)+
  then have "str_get (byte_len us) (byte_len xs) (xs @ ys) = Some vs"
    using u(1) by (simp add: str_get_def str_slice_append [of us vs ys, simplified])
  moreover have "cursor_stands (c\<lparr>pc_column := lc_column (position_after xs), pc_column_offset := byte_len xs\<rparr>) xs"
    using c by (intro cursor_standsI [where us = xs and vs = "[]"]) (auto simp: cursor_stands_def)
  ultimately show ?thesis
    using c u lc_column_append [OF u(2), of us] by (simp add: PositionCursor_column_def Let_def)
qed

interpretation cursor: position_scan PositionCursor_new PositionCursor_advance PositionCursor_column pc_line cursor_stands
proof unfold_locales
  show "cursor_stands PositionCursor_new []"
    by (auto simp: cursor_stands_def PositionCursor_new_def position_after_def)
qed (use cursor_advance_stands cursor_column_stands in \<open>auto simp: cursor_stands_def\<close>)

section \<open>The layouter computes the offside rule\<close>

lemma enclosing_blocks_Cons:
  "cs \<noteq> [] \<Longrightarrow> enclosing_blocks col (c # cs) = (if col < c then enclosing_blocks col cs else c # cs)"
  by (simp add: enclosing_blocks_def)

lemma enclosing_blocks_single [simp]: "enclosing_blocks col [c] = [c]"
  by (simp add: enclosing_blocks_def)

lemma enclosing_blocks_ne [simp]: "enclosing_blocks col ctx \<noteq> []"
  by (simp add: enclosing_blocks_def)

lemma length_enclosing_blocks: "ctx \<noteq> [] \<Longrightarrow> length (enclosing_blocks col ctx) \<le> length ctx"
proof (induction ctx)
  case (Cons c cs)
  then show ?case by (cases "cs = []") (auto simp: enclosing_blocks_Cons)
qed simp

lemma close_deeper_eq:
  "ctx \<noteq> [] \<Longrightarrow> ly_contexts l = rev ctx \<Longrightarrow>
   close_deeper col at l =
     l\<lparr>ly_contexts := rev (enclosing_blocks col ctx),
       ly_out := ly_out l @ replicate (length ctx - length (enclosing_blocks col ctx)) (Token_new TkLayoutClose (TextRange_empty at))\<rparr>"
proof (induction ctx arbitrary: l)
  case (Cons c cs)
  show ?case
  proof (cases "cs \<noteq> [] \<and> col < c")
    case True
    let ?l = "push_virtual TkLayoutClose at (pop_context l)"
    have "close_deeper col at l = close_deeper col at ?l"
      using True Cons.prems(2) by (subst close_deeper.simps) simp
    moreover have "ly_contexts ?l = rev cs" using Cons.prems(2) by simp
    moreover have "Suc (length cs - length (enclosing_blocks col cs)) = Suc (length cs) - length (enclosing_blocks col cs)"
      using length_enclosing_blocks [of cs col] True by simp
    ultimately show ?thesis
      using Cons.IH [of ?l] True
      by (simp add: enclosing_blocks_Cons push_virtual_def pop_context_def) (metis replicate_Suc)
  next
    case False
    then have "close_deeper col at l = l"
      using Cons.prems(2) by (subst close_deeper.simps) auto
    moreover have "enclosing_blocks col (c # cs) = c # cs"
      using False by (cases "cs = []") (auto simp: enclosing_blocks_Cons)
    ultimately show ?thesis using Cons.prems(2) by simp
  qed
qed simp

lemma close_all_eq:
  "ly_contexts l = rev ctx \<Longrightarrow>
   ly_out (close_all at l) = ly_out l @ replicate (length ctx - 1) (Token_new TkLayoutClose (TextRange_empty at)) \<and>
   ly_diagnostics (close_all at l) = ly_diagnostics l"
proof (induction ctx arbitrary: l)
  case Nil
  then show ?case by (subst (1 2) close_all.simps) simp
next
  case (Cons c cs)
  show ?case
  proof (cases "cs = []")
    case True
    with Cons.prems show ?thesis by (subst (1 2) close_all.simps) simp
  next
    case False
    let ?l = "push_virtual TkLayoutClose at (pop_context l)"
    have "close_all at l = close_all at ?l"
      using False Cons.prems by (subst close_all.simps) simp
    moreover have "ly_contexts ?l = rev cs" using Cons.prems by simp
    moreover have "Suc (length cs - 1) = length cs" using False by (cases cs) auto
    ultimately show ?thesis
      using Cons.IH [of ?l]
      by (simp add: push_virtual_def pop_context_def flip: replicate_Suc)
  qed
qed

definition offside_error :: "source_id \<Rightarrow> token \<Rightarrow> diagnostic" where
  "offside_error s tok =
     Diagnostic_error LAYOUT_ERROR (str ''expected the block body to be indented further'') (Span_new s (tok_range tok))"

lemma line_transition_eq:
  assumes "ctx \<noteq> []" and "ly_contexts l = rev ctx" and "new_line tok col ctx False = (vs, ctx', errs)"
  shows "line_transition col (tok_kind tok) (tr_start (tok_range tok)) l =
    Some (l\<lparr>ly_contexts := rev ctx', ly_out := ly_out l @ vs\<rparr>)"
proof -
  have "enclosing_blocks col ctx \<noteq> []" by simp
  then have "last (rev (enclosing_blocks col ctx)) = hd (enclosing_blocks col ctx)" by (simp add: last_rev)
  with assms show ?thesis
    by (auto simp: line_transition_def close_deeper_eq Let_def last_context_def new_line_def virtual_def push_virtual_def)
qed

lemma open_block_eq:
  assumes "ctx \<noteq> []" and "ly_contexts l = rev ctx" and n: "new_line tok col ctx True = (vs, ctx', errs)"
  shows "open_block col tok (tr_start (tok_range tok)) l =
    Some (l\<lparr>ly_contexts := rev ctx', ly_out := ly_out l @ vs,
            ly_diagnostics := ly_diagnostics l @ map (offside_error (ly_source l)) errs\<rparr>)"
proof -
  have hd: "last_context l = Some (hd ctx)" using assms(1,2) by (simp add: last_context_def last_rev)
  show ?thesis
  proof (cases "hd ctx < col")
    case True
    with n hd assms(2) show ?thesis
      by (auto simp: open_block_def new_line_def push_virtual_def virtual_def Let_def)
  next
    case False
    let ?l = "layout_error (tok_range tok) (str ''expected the block body to be indented further'') l"
    have l: "ly_contexts ?l = rev ctx" using assms(2) by (simp add: layout_error_def)
    have "new_line tok col ctx False = (vs, ctx', [])" and "errs = [tok]"
      using n False by (auto simp: new_line_def Let_def)
    with line_transition_eq [OF assms(1) l] hd False show ?thesis
      by (simp add: open_block_def layout_error_def offside_error_def)
  qed
qed

definition token_position :: "utext \<Rightarrow> token \<Rightarrow> line_col" where
  "token_position t tok = position_after (take_bytes (tr_start (tok_range tok)) t)"

text \<open>The step of \<open>offside\<close> on one token that is not the end of the file.\<close>

definition offside_step :: "line_col \<Rightarrow> nat list \<Rightarrow> nat \<Rightarrow> bool \<Rightarrow> nat \<Rightarrow> token \<Rightarrow> token list \<times> nat list \<times> token list" where
  "offside_step p ctx depth pending prev tok =
     (if ctx = [] then ([], [lc_column p], [])
      else if depth = 0 \<and> prev < lc_line p then new_line tok (lc_column p) ctx pending
      else ([], ctx, []))"

lemma layout_token_eq:
  assumes tx: "ly_text l = t" and at: "cursor_stands (ly_position l) (take_bytes m t)" and m: "char_boundary m t"
    and tok: "char_boundary (tr_start (tok_range tok)) t" "m \<le> tr_start (tok_range tok)"
    and ctx: "ly_contexts l = rev ctx" "ly_first l \<longleftrightarrow> ctx = []"
    and step: "offside_step (token_position t tok) ctx (ly_bracket_depth l) (ly_pending_open l) (ly_prev_line l) tok = (vs, ctx', errs)"
  shows "\<exists>pos. cursor_stands pos (take_bytes (tr_start (tok_range tok)) t) \<and>
    layout_token tok l = Some (l\<lparr>ly_position := pos, ly_contexts := rev ctx', ly_first := False,
      ly_out := ly_out l @ vs @ [tok], ly_diagnostics := ly_diagnostics l @ map (offside_error (ly_source l)) errs,
      ly_bracket_depth := bracket_step (tok_kind tok) (ly_bracket_depth l),
      ly_pending_open := (bracket_step (tok_kind tok) (ly_bracket_depth l) = 0 \<and> is_opener (tok_kind tok)),
      ly_prev_line := lc_line (token_position t tok)\<rparr>)"
proof -
  let ?n = "tr_start (tok_range tok)"
  obtain c1 where c1: "PositionCursor_advance t ?n (ly_position l) = Some c1" "cursor_stands c1 (take_bytes ?n t)"
    "pc_line c1 = lc_line (token_position t tok)"
    using cursor.advance_to [OF at m tok] unfolding token_position_def by blast
  obtain c2 where c2: "PositionCursor_column t c1 = Some (lc_column (token_position t tok), c2)" "cursor_stands c2 (take_bytes ?n t)"
    using cursor.column_to [OF c1(2) tok(1)] unfolding token_position_def by blast
  let ?l = "l\<lparr>ly_position := c2\<rparr>"
  consider (first) "ctx = []" | (new) "ctx \<noteq> []" "ly_bracket_depth l = 0" "ly_prev_line l < lc_line (token_position t tok)"
    | (same) "ctx \<noteq> []" "\<not> (ly_bracket_depth l = 0 \<and> ly_prev_line l < lc_line (token_position t tok))"
    by auto
  then show ?thesis
  proof cases
    case first
    with step ctx tx c1 c2 show ?thesis
      by (intro exI [of _ c2]) (auto simp: layout_token_def offside_step_def Let_def)
  next
    case new
    have l: "ly_contexts ?l = rev ctx" using ctx by simp
    show ?thesis
    proof (cases "ly_pending_open l")
      case True
      with new step have n: "new_line tok (lc_column (token_position t tok)) ctx True = (vs, ctx', errs)"
        by (simp add: offside_step_def)
      from open_block_eq [OF new(1) l n] True new ctx tx c1 c2 show ?thesis
        by (intro exI [of _ c2]) (simp add: layout_token_def Let_def)
    next
      case False
      with new step have n: "new_line tok (lc_column (token_position t tok)) ctx False = (vs, ctx', errs)" "errs = []"
        by (auto simp: offside_step_def new_line_def Let_def)
      from line_transition_eq [OF new(1) l n(1)] False new ctx tx c1 c2 n(2) show ?thesis
        by (intro exI [of _ c2]) (simp add: layout_token_def Let_def)
    qed
  next
    case same
    with step ctx tx c1 show ?thesis
      by (intro exI [of _ c1]) (auto simp: layout_token_def offside_step_def Let_def)
  qed
qed

text \<open>Tokens in source order that start on character boundaries.\<close>

fun ascending :: "utext \<Rightarrow> nat \<Rightarrow> token list \<Rightarrow> bool" where
  "ascending t m [] \<longleftrightarrow> True"
| "ascending t m (tok # toks) \<longleftrightarrow>
     char_boundary (tr_start (tok_range tok)) t \<and> m \<le> tr_start (tok_range tok) \<and>
     ascending t (tr_start (tok_range tok)) toks"

lemma layout_run_eq:
  assumes "ly_text l = t" and "cursor_stands (ly_position l) (take_bytes m t)" and "char_boundary m t"
    and "ascending t m toks" and "ly_contexts l = rev ctx" and "ly_first l \<longleftrightarrow> ctx = []"
    and "offside (token_position t) ctx (ly_bracket_depth l) (ly_pending_open l) (ly_prev_line l) toks = (out, errs)"
  shows "layout_run toks l = Some \<lparr>lo_tokens = ly_out l @ out, lo_diagnostics = ly_diagnostics l @ map (offside_error (ly_source l)) errs\<rparr>"
  using assms
proof (induction toks arbitrary: l m ctx out errs)
  case Nil
  then show ?case by simp
next
  case (Cons tok toks)
  show ?case
  proof (cases "tok_kind tok = TkEof")
    case True
    with Cons.prems(7) close_all_eq [OF Cons.prems(5)] show ?thesis
      by (auto simp: Let_def virtual_def)
  next
    case False
    let ?d = "bracket_step (tok_kind tok) (ly_bracket_depth l)"
    obtain vs ctx' es where s: "offside_step (token_position t tok) ctx (ly_bracket_depth l) (ly_pending_open l) (ly_prev_line l) tok = (vs, ctx', es)"
      by (metis prod_cases3)
    obtain rest es' where r: "offside (token_position t) ctx' ?d (?d = 0 \<and> is_opener (tok_kind tok)) (lc_line (token_position t tok)) toks = (rest, es')"
      by fastforce
    have o: "out = vs @ tok # rest" "errs = es @ es'"
      using Cons.prems(7) False s r unfolding offside_step_def by (simp_all add: Let_def)
    have bt: "char_boundary (tr_start (tok_range tok)) t" "m \<le> tr_start (tok_range tok)" "ascending t (tr_start (tok_range tok)) toks"
      using Cons.prems(4) by auto
    from layout_token_eq [OF Cons.prems(1-3) bt(1,2) Cons.prems(5,6) s]
    obtain pos where p: "cursor_stands pos (take_bytes (tr_start (tok_range tok)) t)"
      "layout_token tok l = Some (l\<lparr>ly_position := pos, ly_contexts := rev ctx', ly_first := False,
        ly_out := ly_out l @ vs @ [tok], ly_diagnostics := ly_diagnostics l @ map (offside_error (ly_source l)) es,
        ly_bracket_depth := ?d, ly_pending_open := (?d = 0 \<and> is_opener (tok_kind tok)),
        ly_prev_line := lc_line (token_position t tok)\<rparr>)" (is "_ = Some ?l") by blast
    have "ctx' \<noteq> []" using s by (auto simp: offside_step_def new_line_def Let_def split: if_splits)
    then have "layout_run toks ?l = Some \<lparr>lo_tokens = ly_out ?l @ rest, lo_diagnostics = ly_diagnostics ?l @ map (offside_error (ly_source ?l)) es'\<rparr>"
      using p(1) Cons.prems(1) bt r by (intro Cons.IH) simp_all
    with p(2) False o show ?thesis by simp
  qed
qed

section \<open>What the offside rule gives\<close>

text \<open>The block depth after a token stream, \<open>None\<close> where a block is closed that is not open.\<close>

fun block_depth :: "nat \<Rightarrow> token list \<Rightarrow> nat option" where
  "block_depth d [] = Some d"
| "block_depth d (tok # toks) =
     (if tok_kind tok = TkLayoutOpen then block_depth (Suc d) toks
      else if tok_kind tok = TkLayoutClose then (if d = 0 then None else block_depth (d - 1) toks)
      else block_depth d toks)"

lemma block_depth_append: "block_depth d (xs @ ys) = (case block_depth d xs of None \<Rightarrow> None | Some e \<Rightarrow> block_depth e ys)"
  by (induction d xs rule: block_depth.induct) auto

lemma tok_kind_virtual [simp]: "tok_kind (virtual k tok) = k"
  by (simp add: virtual_def Token_new_def)

lemma block_depth_closes: "n \<le> d \<Longrightarrow> block_depth d (replicate n (virtual TkLayoutClose tok)) = Some (d - n)"
  by (induction n arbitrary: d) auto

abbreviation real_tokens :: "token list \<Rightarrow> token list" where
  "real_tokens toks \<equiv> filter (\<lambda>k. \<not> is_virtual (tok_kind k)) toks"

lemma offside_step_virtual:
  assumes "offside_step p ctx depth pending prev tok = (vs, ctx', errs)" and "ctx \<noteq> []"
  shows "real_tokens vs = [] \<and> ctx' \<noteq> [] \<and> block_depth (length ctx - 1) vs = Some (length ctx' - 1)"
proof (cases "depth = 0 \<and> prev < lc_line p")
  case False
  with assms show ?thesis by (auto simp: offside_step_def)
next
  case True
  let ?col = "lc_column p"
  have len: "length (enclosing_blocks ?col ctx) \<le> length ctx" "0 < length (enclosing_blocks ?col ctx)"
    using assms(2) length_enclosing_blocks by auto
  let ?n = "length ctx - length (enclosing_blocks ?col ctx)"
  have "block_depth (length ctx - 1) (replicate ?n (virtual TkLayoutClose tok)) = Some (length ctx - 1 - ?n)"
    using len by (intro block_depth_closes) linarith
  moreover have "length ctx - 1 - ?n = length (enclosing_blocks ?col ctx) - 1" using len by linarith
  ultimately show ?thesis
    using assms True
    by (auto simp: offside_step_def new_line_def Let_def is_virtual_def block_depth_append split: if_splits)
qed

lemma offside_real:
  "offside pos ctx depth pending prev toks = (out, errs) \<Longrightarrow> \<forall>k \<in> set toks. \<not> is_virtual (tok_kind k) \<Longrightarrow>
   (\<exists>body e. toks = body @ [e] \<and> tok_kind e = TkEof \<and> (\<forall>k \<in> set body. tok_kind k \<noteq> TkEof)) \<Longrightarrow>
   real_tokens out = toks \<and> block_depth (length ctx - 1) out = Some 0"
proof (induction toks arbitrary: ctx depth pending prev out errs)
  case Nil
  then show ?case by simp
next
  case (Cons tok toks)
  show ?case
  proof (cases "tok_kind tok = TkEof")
    case True
    with Cons.prems(3) have "toks = []" by (auto simp: Cons_eq_append_conv)
    with True Cons.prems(1,2) block_depth_closes [of "length ctx - 1" "length ctx - 1" tok] show ?thesis
      by (auto simp: block_depth_append is_virtual_def)
  next
    case False
    let ?d = "bracket_step (tok_kind tok) depth"
    obtain vs ctx' es where s: "offside_step (pos tok) ctx depth pending prev tok = (vs, ctx', es)"
      by (metis prod_cases3)
    obtain rest es' where r: "offside pos ctx' ?d (?d = 0 \<and> is_opener (tok_kind tok)) (lc_line (pos tok)) toks = (rest, es')"
      by fastforce
    have o: "out = vs @ tok # rest"
      using Cons.prems(1) False s r unfolding offside_step_def by (simp add: Let_def)
    have "\<exists>body e. toks = body @ [e] \<and> tok_kind e = TkEof \<and> (\<forall>k \<in> set body. tok_kind k \<noteq> TkEof)"
      using Cons.prems(3) False by (auto simp: Cons_eq_append_conv)
    from Cons.IH [OF r _ this] Cons.prems(2)
    have IH: "real_tokens rest = toks" "block_depth (length ctx' - 1) rest = Some 0" by auto
    have v: "real_tokens vs = [] \<and> block_depth (length ctx - 1) vs = Some (length ctx' - 1)"
    proof (cases "ctx = []")
      case True
      with s show ?thesis by (auto simp: offside_step_def)
    next
      case False
      from offside_step_virtual [OF s False] show ?thesis by blast
    qed
    have "\<not> is_virtual (tok_kind tok)" using Cons.prems(2) by simp
    then have "block_depth d (tok # rest) = block_depth d rest" for d by (auto simp: is_virtual_def)
    with o IH v \<open>\<not> is_virtual (tok_kind tok)\<close> show ?thesis
      by (simp add: block_depth_append del: block_depth.simps)
  qed
qed

section \<open>Layout of lexed texts\<close>

lemma ascending_if_ordered:
  "sorted_wrt before (map tok_range toks) \<Longrightarrow> \<forall>k \<in> set toks. tr_start (tok_range k) \<le> tr_end (tok_range k) \<Longrightarrow>
   \<forall>k \<in> set toks. char_boundary (tr_start (tok_range k)) t \<and> m \<le> tr_start (tok_range k) \<Longrightarrow> ascending t m toks"
proof (induction toks arbitrary: m)
  case (Cons tok toks)
  have "\<forall>k \<in> set toks. char_boundary (tr_start (tok_range k)) t \<and> tr_start (tok_range tok) \<le> tr_start (tok_range k)"
    using Cons.prems by (auto simp: before_def intro: order_trans)
  with Cons.IH Cons.prems show ?case by auto
qed simp

lemma lexed_shape:
  assumes "lexes s [] t toks cs ds"
  shows "ascending t 0 toks" and "\<forall>k \<in> set toks. \<not> is_virtual (tok_kind k)"
    and "\<exists>body e. toks = body @ [e] \<and> tok_kind e = TkEof \<and> (\<forall>k \<in> set body. tok_kind k \<noteq> TkEof)"
proof -
  from lexes_proper [OF assms] obtain body where b: "toks = body @ [Token_new TkEof (TextRange_empty (byte_len t))]"
    "\<forall>k \<in> set body. tok_kind k \<noteq> TkEof \<and> \<not> is_virtual (tok_kind k) \<and> proper_range t (tok_range k)" by auto
  show "ascending t 0 toks"
    using lexes_ordered [OF assms] b
    by (intro ascending_if_ordered) (auto simp: proper_range_def Token_new_def TextRange_empty_def)
  show "\<forall>k \<in> set toks. \<not> is_virtual (tok_kind k)" using b by (auto simp: Token_new_def is_virtual_def)
  show "\<exists>body e. toks = body @ [e] \<and> tok_kind e = TkEof \<and> (\<forall>k \<in> set body. tok_kind k \<noteq> TkEof)"
    using b by (auto simp: Token_new_def)
qed

lemma layout_ascending:
  assumes "ascending t 0 toks" and "offside (token_position t) [] 0 False 0 toks = (out, errs)"
  shows "layout s t toks = Some \<lparr>lo_tokens = out, lo_diagnostics = map (offside_error s) errs\<rparr>"
  unfolding layout_def
  by (subst layout_run_eq [where t = t and m = 0 and ctx = "[]"]) (use assms cursor.start_stands in simp_all)

lemma layout_lexed:
  assumes "lex_text s t = Some lx"
  obtains out errs where "offside (token_position t) [] 0 False 0 (lx_tokens lx) = (out, errs)"
    and "layout s t (lx_tokens lx) = Some \<lparr>lo_tokens = out, lo_diagnostics = map (offside_error s) errs\<rparr>"
    and "real_tokens out = lx_tokens lx" and "block_depth 0 out = Some 0"
proof -
  note lx = lex_SomeD [OF assms]
  obtain out errs where o: "offside (token_position t) [] 0 False 0 (lx_tokens lx) = (out, errs)" by fastforce
  show thesis
    using that [OF o layout_ascending [OF lexed_shape(1) [OF lx] o]] offside_real [OF o lexed_shape(2,3) [OF lx]] by simp
qed

text \<open>
  C7: on the tokens of the lexer the layout pass does not panic and computes the offside rule on the
  tokens' line and column positions: the cursor that moves forward over the bytes reads the same
  positions as the line index.
\<close>

theorem layout_refines_offside:
  assumes "lex_text s t = Some lx"
  shows "layout s t (lx_tokens lx) =
    (case offside (token_position t) [] 0 False 0 (lx_tokens lx) of
       (out, errs) \<Rightarrow> Some \<lparr>lo_tokens = out, lo_diagnostics = map (offside_error s) errs\<rparr>)"
  by (rule layout_lexed [OF assms]) simp

theorem layout_refines_offside_witness:
  "\<exists>lx. lex_text 0 (str '' 7'') = Some lx \<and> layout 0 (str '' 7'') (lx_tokens lx) \<noteq> None"
  using layout_refines_offside [OF lex_example] lex_example by (auto split: prod.splits)

text \<open>
  C8: the layout pass only inserts virtual tokens, and the blocks it opens and closes are balanced:
  dropping the virtual tokens gives back the lexer's tokens in order, no block is closed that is
  not open, and none is open at the end.
\<close>

theorem layout_balanced:
  assumes "lex_text s t = Some lx" and "layout s t (lx_tokens lx) = Some lo"
  shows "real_tokens (lo_tokens lo) = lx_tokens lx \<and> block_depth 0 (lo_tokens lo) = Some 0"
  using assms by (metis layout_lexed layout_out.select_convs(1) option.inject)

theorem layout_balanced_witness:
  "\<exists>lx lo. lex_text 0 (str '' 7'') = Some lx \<and> layout 0 (str '' 7'') (lx_tokens lx) = Some lo \<and>
     block_depth 0 (lo_tokens lo) = Some 0"
proof -
  obtain lo where "layout 0 (str '' 7'') [Token_new TkInt \<lparr>tr_start = 1, tr_end = 2\<rparr>, Token_new TkEof \<lparr>tr_start = 2, tr_end = 2\<rparr>] = Some lo"
    using layout_lexed [OF lex_example] by auto
  with layout_balanced [OF lex_example, of lo] lex_example show ?thesis by auto
qed

end
