(* ===== verification/Fai_Attach.thy ===== *)
theory Fai_Attach
  imports Fai_Token
begin

text \<open>
  Comment attachment for the formatter (\<^verbatim>\<open>fai-syntax/src/attach.rs\<close>). Of the syntax tree the pass
  reads only the spans of the imports, items and expressions, in arena order: \<open>tree_spans\<close> holds
  them. A hash map from nodes to comment lists is a partial map.
\<close>

section \<open>The pass\<close>

datatype node_id = NodeImport nat | NodeItem nat | NodeExpr nat

record tree_spans =
  ts_imports :: "text_range list"
  ts_items :: "text_range list"
  ts_exprs :: "text_range list"

record comment_map =
  cmap_leading :: "node_id \<rightharpoonup> nat list"
  cmap_trailing :: "node_id \<rightharpoonup> nat list"
  cmap_dangling :: "nat list"

definition CommentMap_leading :: "comment_map \<Rightarrow> node_id \<Rightarrow> nat list" where
  "CommentMap_leading m n = (case cmap_leading m n of None \<Rightarrow> [] | Some ids \<Rightarrow> ids)"

definition CommentMap_trailing :: "comment_map \<Rightarrow> node_id \<Rightarrow> nat list" where
  "CommentMap_trailing m n = (case cmap_trailing m n of None \<Rightarrow> [] | Some ids \<Rightarrow> ids)"

definition push_id :: "(node_id \<rightharpoonup> nat list) \<Rightarrow> node_id \<Rightarrow> nat \<Rightarrow> (node_id \<rightharpoonup> nat list)" where
  "push_id m n i = m(n \<mapsto> (case m n of None \<Rightarrow> [] | Some ids \<Rightarrow> ids) @ [i])"

definition all_nodes :: "tree_spans \<Rightarrow> (node_id \<times> text_range) list" where
  "all_nodes m =
     map (\<lambda>(i, r). (NodeImport i, r)) (enumerate 0 (ts_imports m)) @
     map (\<lambda>(i, r). (NodeItem i, r)) (enumerate 0 (ts_items m)) @
     map (\<lambda>(i, r). (NodeExpr i, r)) (enumerate 0 (ts_exprs m))"

definition better_preceding :: "text_range \<Rightarrow> (node_id \<times> text_range) option \<Rightarrow> bool" where
  "better_preceding r best =
     (case best of
        None \<Rightarrow> True
      | Some (_, b) \<Rightarrow> tr_end b < tr_end r \<or> (tr_end r = tr_end b \<and> tr_start r < tr_start b))"

definition better_following :: "text_range \<Rightarrow> (node_id \<times> text_range) option \<Rightarrow> bool" where
  "better_following r best =
     (case best of
        None \<Rightarrow> True
      | Some (_, b) \<Rightarrow> tr_start r < tr_start b \<or> (tr_start r = tr_start b \<and> tr_end b < tr_end r))"

type_synonym found = "(node_id \<times> text_range) option"

definition consider_node :: "byte_offset \<Rightarrow> byte_offset \<Rightarrow> node_id \<times> text_range \<Rightarrow> found \<times> found \<Rightarrow> found \<times> found" where
  "consider_node start stop nr pf =
     (case (nr, pf) of
        ((n, r), (preceding, following)) \<Rightarrow>
          (if tr_end r \<le> start \<and> better_preceding r preceding then Some (n, r) else preceding,
           if stop \<le> tr_start r \<and> better_following r following then Some (n, r) else following))"

definition import_around :: "tree_spans \<Rightarrow> comment \<Rightarrow> nat option" where
  "import_around m c =
     map_option fst
       (find (\<lambda>(_, r). tr_start r \<le> tr_start (cm_range c) \<and> tr_end (cm_range c) \<le> tr_end r)
         (enumerate 0 (ts_imports m)))"

text \<open>Where a comment goes, and the loop that puts each comment there.\<close>

datatype slot = Leading node_id | Trailing node_id | Dangling

definition comment_slot :: "tree_spans \<Rightarrow> line_index \<Rightarrow> comment \<Rightarrow> slot option" where
  "comment_slot m li c = do {
     comment_line \<leftarrow> LineIndex_line li (tr_start (cm_range c));
     case import_around m c of
       Some i \<Rightarrow> Some (Trailing (NodeImport i))
     | None \<Rightarrow> do {
         let (preceding, following) =
           fold (consider_node (tr_start (cm_range c)) (tr_end (cm_range c))) (all_nodes m) (None, None);
         same_line \<leftarrow>
           (case preceding of
              Some (_, r) \<Rightarrow>
                if cm_kind c = CkDoc then Some False
                else map_option (\<lambda>l. l = comment_line) (LineIndex_line li (tr_end r))
            | None \<Rightarrow> Some False);
         Some (if same_line then Trailing (fst (the preceding))
               else case following of
                      Some (n, _) \<Rightarrow> Leading n
                    | None \<Rightarrow> (case preceding of Some (n, _) \<Rightarrow> Trailing n | None \<Rightarrow> Dangling)) } }"

definition attach_to :: "slot \<Rightarrow> nat \<Rightarrow> comment_map \<Rightarrow> comment_map" where
  "attach_to s i m =
     (case s of
        Leading n \<Rightarrow> m\<lparr>cmap_leading := push_id (cmap_leading m) n i\<rparr>
      | Trailing n \<Rightarrow> m\<lparr>cmap_trailing := push_id (cmap_trailing m) n i\<rparr>
      | Dangling \<Rightarrow> m\<lparr>cmap_dangling := cmap_dangling m @ [i]\<rparr>)"

fun attach_from :: "tree_spans \<Rightarrow> line_index \<Rightarrow> nat \<Rightarrow> comment list \<Rightarrow> comment_map \<Rightarrow> comment_map option" where
  "attach_from t li i [] m = Some m"
| "attach_from t li i (c # cs) m = do { s \<leftarrow> comment_slot t li c; attach_from t li (Suc i) cs (attach_to s i m) }"

definition attach_comments :: "tree_spans \<Rightarrow> comment list \<Rightarrow> line_index \<Rightarrow> comment_map option" where
  "attach_comments t cs li =
     attach_from t li 0 cs \<lparr>cmap_leading = Map.empty, cmap_trailing = Map.empty, cmap_dangling = []\<rparr>"

section \<open>Every comment is attached once\<close>

definition slot_ids :: "comment_map \<Rightarrow> slot \<Rightarrow> nat list" where
  "slot_ids m s =
     (case s of
        Leading n \<Rightarrow> CommentMap_leading m n
      | Trailing n \<Rightarrow> CommentMap_trailing m n
      | Dangling \<Rightarrow> cmap_dangling m)"

lemma slot_ids_attach: "slot_ids (attach_to s i m) s' = slot_ids m s' @ (if s' = s then [i] else [])"
  by (cases s; cases s')
    (auto simp: slot_ids_def attach_to_def CommentMap_leading_def CommentMap_trailing_def push_id_def split: option.splits)

lemma attach_from_slots:
  "attach_from t li i cs m = Some m' \<Longrightarrow>
   (\<forall>c \<in> set cs. comment_slot t li c \<noteq> None) \<and>
   slot_ids m' s = slot_ids m s @ map fst (filter (\<lambda>(_, c). comment_slot t li c = Some s) (enumerate i cs))"
proof (induction t li i cs m rule: attach_from.induct)
  case (2 t li i c cs m)
  then obtain s' where s: "comment_slot t li c = Some s'" "attach_from t li (Suc i) cs (attach_to s' i m) = Some m'"
    by (auto simp: bind_eq_Some_conv)
  with "2.IH" [OF s(1,2)] show ?case by (auto simp: slot_ids_attach)
qed simp

text \<open>
  The line index answers for every offset, so the pass is total.
\<close>

lemma line_ix_total: "\<exists>l. LineIndex_line_ix \<lparr>li_line_starts = 0 # xs, li_len = n\<rparr> off = Some l \<and> l \<le> length xs"
proof (cases "off = 0")
  case True
  then show ?thesis by (simp add: LineIndex_line_ix_def binary_search_def)
next
  case False
  have "length (takeWhile (\<lambda>y. y < off) xs) \<le> length xs" by (rule length_takeWhile_le)
  with False show ?thesis by (auto simp: LineIndex_line_ix_def binary_search_def Let_def)
qed

lemma LineIndex_line_total:
  assumes "LineIndex_new t = Some li" and "byte_len t < u32_max"
  shows "LineIndex_line li off \<noteq> None"
proof -
  have li: "li = \<lparr>li_line_starts = 0 # nl_starts 0 t, li_len = byte_len t\<rparr>" by (rule LineIndex_new_SomeD(2) [OF assms(1)])
  obtain l where "LineIndex_line_ix li (min off (li_len li)) = Some l" "l \<le> length (nl_starts 0 t)"
    using line_ix_total unfolding li by blast
  moreover have "length (nl_starts 0 t) \<le> byte_len t" using count_list_le_byte_len [of t 10] by simp
  ultimately show ?thesis
    using assms(2) by (simp add: LineIndex_line_def ByteOffset_from_usize_def u32_try_from_le u32_add_le)
qed

lemma comment_slot_total:
  assumes "LineIndex_new t = Some li" and "byte_len t < u32_max"
  shows "comment_slot m li c \<noteq> None"
proof -
  have "\<exists>l. LineIndex_line li off = Some l" for off using LineIndex_line_total [OF assms, of off] by simp
  then obtain L where "LineIndex_line li off = Some (L off)" for off by metis
  then show ?thesis
    by (auto simp: comment_slot_def Let_def split: option.splits prod.splits)
qed

lemma attach_from_total:
  "(\<And>c. comment_slot t li c \<noteq> None) \<Longrightarrow> \<exists>m'. attach_from t li i cs m = Some m'"
  by (induction cs arbitrary: i m) (auto, metis option.exhaust_sel bind.bind_lunit)

section \<open>The neighbours of a comment\<close>

definition closest_before :: "(node_id \<times> text_range) set \<Rightarrow> byte_offset \<Rightarrow> found \<Rightarrow> bool" where
  "closest_before N start best \<longleftrightarrow>
     (case best of
        None \<Rightarrow> \<forall>(n, r) \<in> N. start < tr_end r
      | Some (n, r) \<Rightarrow> (n, r) \<in> N \<and> tr_end r \<le> start \<and>
          (\<forall>(n', r') \<in> N. tr_end r' \<le> start \<longrightarrow>
             tr_end r' < tr_end r \<or> (tr_end r' = tr_end r \<and> tr_start r \<le> tr_start r')))"

definition closest_after :: "(node_id \<times> text_range) set \<Rightarrow> byte_offset \<Rightarrow> found \<Rightarrow> bool" where
  "closest_after N stop best \<longleftrightarrow>
     (case best of
        None \<Rightarrow> \<forall>(n, r) \<in> N. tr_start r < stop
      | Some (n, r) \<Rightarrow> (n, r) \<in> N \<and> stop \<le> tr_start r \<and>
          (\<forall>(n', r') \<in> N. stop \<le> tr_start r' \<longrightarrow>
             tr_start r < tr_start r' \<or> (tr_start r' = tr_start r \<and> tr_end r' \<le> tr_end r)))"

lemma consider_node_closest:
  assumes "closest_before N start p" and "closest_after N stop f"
  shows "closest_before (insert nr N) start (fst (consider_node start stop nr (p, f)))"
    and "closest_after (insert nr N) stop (snd (consider_node start stop nr (p, f)))"
  using assms
  by (cases nr; cases p; cases f; fastforce simp: consider_node_def closest_before_def closest_after_def
      better_preceding_def better_following_def)+

lemma fold_consider_node:
  "closest_before N start p \<Longrightarrow> closest_after N stop f \<Longrightarrow>
   closest_before (set ns \<union> N) start (fst (fold (consider_node start stop) ns (p, f))) \<and>
   closest_after (set ns \<union> N) stop (snd (fold (consider_node start stop) ns (p, f)))"
proof (induction ns arbitrary: N p f)
  case (Cons nr ns)
  obtain p' f' where pf: "consider_node start stop nr (p, f) = (p', f')" by fastforce
  from Cons.IH [of "insert nr N" p' f'] consider_node_closest [OF Cons.prems, of nr] pf show ?case by simp
qed simp

lemma closest_empty: "closest_before {} start None" "closest_after {} stop None"
  by (simp_all add: closest_before_def closest_after_def)

section \<open>Properties\<close>

text \<open>
  C37: attachment never fails on a file's own line index and loses or duplicates no comment: each
  slot (before a node, after a node, dangling) holds exactly the comments the rule sends there,
  each once and in source order.
\<close>

theorem attach_comments_exact:
  assumes "LineIndex_new t = Some li" and "byte_len t < u32_max"
  shows "\<exists>m. attach_comments spans cs li = Some m \<and>
    (\<forall>i < length cs. \<exists>!s. i \<in> set (slot_ids m s)) \<and>
    (\<forall>s. slot_ids m s = filter (\<lambda>i. comment_slot spans li (cs ! i) = Some s) [0..<length cs])"
proof -
  obtain m where m: "attach_comments spans cs li = Some m"
    unfolding attach_comments_def using attach_from_total [OF comment_slot_total [OF assms]] by blast
  have "slot_ids \<lparr>cmap_leading = Map.empty, cmap_trailing = Map.empty, cmap_dangling = []\<rparr> s = []" for s
    by (cases s) (simp_all add: slot_ids_def CommentMap_leading_def CommentMap_trailing_def)
  then have "slot_ids m s = map fst (filter (\<lambda>(_, c). comment_slot spans li c = Some s) (enumerate 0 cs))" for s
    using attach_from_slots [OF m [unfolded attach_comments_def], of s] by simp
  moreover have "map fst (filter (\<lambda>(_, c). P c) (enumerate 0 cs)) = filter (\<lambda>i. P (cs ! i)) [0..<length cs]" for P
  proof -
    have "enumerate 0 cs = map (\<lambda>i. (i, cs ! i)) [0..<length cs]"
      by (rule nth_equalityI) (simp_all add: nth_enumerate_eq)
    then show ?thesis by (simp add: filter_map comp_def)
  qed
  ultimately have ids: "slot_ids m s = filter (\<lambda>i. comment_slot spans li (cs ! i) = Some s) [0..<length cs]" for s
    by simp
  have "\<exists>!s. i \<in> set (slot_ids m s)" if "i < length cs" for i
    using that comment_slot_total [OF assms, of spans "cs ! i"] by (auto simp: ids)
  with m ids show ?thesis by blast
qed

theorem attach_comments_exact_witness:
  "\<exists>li m. LineIndex_new [97, 10, 47, 47] = Some li \<and>
     attach_comments \<lparr>ts_imports = [], ts_items = [\<lparr>tr_start = 0, tr_end = 1\<rparr>], ts_exprs = []\<rparr>
       [\<lparr>cm_kind = CkLine, cm_range = \<lparr>tr_start = 2, tr_end = 4\<rparr>\<rparr>] li = Some m"
proof -
  have small: "byte_len [97, 10, 47, 47] < u32_max" by (simp add: len_utf8_def u32_max_def)
  then obtain li where li: "LineIndex_new [97, 10, 47, 47] = Some li" by (metis LineIndex_new_eq less_imp_le)
  from attach_comments_exact [OF li small] li show ?thesis by blast
qed

text \<open>
  a comment outside every import goes by its neighbours, the node that ends closest before it and
  the node that starts closest after it (the outermost of those that share the boundary): it trails
  the first when both stand on one line and it is no doc comment, else it leads the second, else it
  trails the first, else it dangles.
\<close>

theorem comment_slot_neighbours:
  assumes "comment_slot spans li c = Some s" and "import_around spans c = None"
  shows "\<exists>preceding following.
    closest_before (set (all_nodes spans)) (tr_start (cm_range c)) preceding \<and>
    closest_after (set (all_nodes spans)) (tr_end (cm_range c)) following \<and>
    s = (case preceding of
           None \<Rightarrow> (case following of None \<Rightarrow> Dangling | Some (n, _) \<Rightarrow> Leading n)
         | Some (p, r) \<Rightarrow>
             if cm_kind c \<noteq> CkDoc \<and> LineIndex_line li (tr_end r) = LineIndex_line li (tr_start (cm_range c)) then Trailing p
             else case following of None \<Rightarrow> Trailing p | Some (n, _) \<Rightarrow> Leading n)"
proof -
  obtain p f where pf: "fold (consider_node (tr_start (cm_range c)) (tr_end (cm_range c))) (all_nodes spans) (None, None) = (p, f)"
    by fastforce
  from fold_consider_node [OF closest_empty, of "all_nodes spans" "tr_start (cm_range c)" "tr_end (cm_range c)"] pf
  have "closest_before (set (all_nodes spans)) (tr_start (cm_range c)) p"
    and "closest_after (set (all_nodes spans)) (tr_end (cm_range c)) f" by simp_all
  then show ?thesis
    using assms pf
    by - (rule exI [of _ p], rule exI [of _ f], cases p; cases f; cases "cm_kind c = CkDoc",
        auto simp: comment_slot_def bind_eq_Some_conv split: if_splits)
qed

theorem comment_slot_neighbours_witness:
  "\<exists>li preceding. LineIndex_new [97, 10, 47, 47] = Some li \<and>
     closest_before {(NodeItem 0, \<lparr>tr_start = 0, tr_end = 1\<rparr>)} 2 preceding"
proof -
  have small: "byte_len [97, 10, 47, 47] < u32_max" by (simp add: len_utf8_def u32_max_def)
  then obtain li where li: "LineIndex_new [97, 10, 47, 47] = Some li" by (metis LineIndex_new_eq less_imp_le)
  let ?m = "\<lparr>ts_imports = [], ts_items = [\<lparr>tr_start = 0, tr_end = 1\<rparr>], ts_exprs = []\<rparr>"
  let ?c = "\<lparr>cm_kind = CkLine, cm_range = \<lparr>tr_start = 2, tr_end = 4\<rparr>\<rparr>"
  obtain s where s: "comment_slot ?m li ?c = Some s" using comment_slot_total [OF li small, of ?m ?c] by blast
  have "import_around ?m ?c = None" by (simp add: import_around_def)
  from comment_slot_neighbours [OF s this] li show ?thesis by (auto simp: all_nodes_def)
qed

text \<open>
  a doc comment after the last node trails it, although doc comments are documented to lead:
  with no node after it, the comment falls back to the node before it.
\<close>

theorem doc_comment_can_trail:
  "\<exists>li. LineIndex_new (str ''a'' @ 10 # str ''///'') = Some li \<and>
     comment_slot \<lparr>ts_imports = [], ts_items = [\<lparr>tr_start = 0, tr_end = 1\<rparr>], ts_exprs = []\<rparr> li
       \<lparr>cm_kind = CkDoc, cm_range = \<lparr>tr_start = 2, tr_end = 5\<rparr>\<rparr> = Some (Trailing (NodeItem 0))"
proof -
  have small: "byte_len (str ''a'' @ 10 # str ''///'') < u32_max" by (simp add: str_def len_utf8_def u32_max_def)
  then obtain li where li: "LineIndex_new (str ''a'' @ 10 # str ''///'') = Some li" by (metis LineIndex_new_eq less_imp_le)
  obtain l where "LineIndex_line li 2 = Some l" using LineIndex_line_total [OF li small, of 2] by blast
  then show ?thesis
    using li by (simp add: comment_slot_def import_around_def all_nodes_def consider_node_def better_preceding_def)
qed

end
