(* ===== verification/Fai_Header.thy ===== *)
theory Fai_Header
  imports Fai_Prelude "HOL-Library.Word"
begin

unbundle bit_operations_syntax

text \<open>
  Heap cell headers of the runtime: the compact data header (\<^verbatim>\<open>fai-runtime/src/data_header.rs\<close>), the
  tagged values, the reference-count word and the size computations of \<^verbatim>\<open>fai-runtime/src/lib.rs\<close>. A
  \<^verbatim>\<open>u64\<close> or \<^verbatim>\<open>i64\<close> is a \<open>64 word\<close> (\<open>sint\<close> reads the signed value), a \<^verbatim>\<open>usize\<close> a natural number below
  \<open>2 ^ 64\<close> with the overflow checks of the code. An abort of the process is \<open>None\<close>.
\<close>

type_synonym u64 = "64 word"

section \<open>Constants\<close>

definition COMPACT_DATA :: u64 where "COMPACT_DATA = push_bit 63 1"
definition COMPACT_FIELDS_SHIFT :: nat where "COMPACT_FIELDS_SHIFT = 59"
definition COMPACT_SCALARS_SHIFT :: nat where "COMPACT_SCALARS_SHIFT = 51"
definition COMPACT_TAG_SHIFT :: nat where "COMPACT_TAG_SHIFT = 40"
definition COMPACT_FIELDS_OFFSET :: nat where "COMPACT_FIELDS_OFFSET = 8"

definition RC_OFFSET :: nat where "RC_OFFSET = 0"
definition DESC_OFFSET :: nat where "DESC_OFFSET = 8"
definition SIZE_OFFSET :: nat where "SIZE_OFFSET = 16"
definition HEADER_SIZE :: nat where "HEADER_SIZE = 24"
definition DATA_TAG_OFFSET :: nat where "DATA_TAG_OFFSET = HEADER_SIZE"
definition DATA_FIELDS_OFFSET :: nat where "DATA_FIELDS_OFFSET = HEADER_SIZE + 8"

definition IMMORTAL_RC :: u64 where "IMMORTAL_RC = push_bit 38 1"
definition MT_FLAG :: u64 where "MT_FLAG = push_bit 39 1"
definition RC_STATE_MASK :: u64 where "RC_STATE_MASK = push_bit 40 1 - 1"
definition MAX_REFCOUNT :: u64 where "MAX_REFCOUNT = push_bit 37 1"
definition MT_COUNT_MASK :: u64 where "MT_COUNT_MASK = IMMORTAL_RC - 1"

definition ALIGN :: nat where "ALIGN = 8"
definition usize_max :: nat where "usize_max = 2 ^ 64 - 1"
definition MAX_ALLOCATION_SIZE :: nat where "MAX_ALLOCATION_SIZE = 2 ^ 63 - 8"

lemmas offset_defs = COMPACT_FIELDS_SHIFT_def COMPACT_SCALARS_SHIFT_def COMPACT_TAG_SHIFT_def
  COMPACT_FIELDS_OFFSET_def RC_OFFSET_def DESC_OFFSET_def SIZE_OFFSET_def HEADER_SIZE_def
  DATA_TAG_OFFSET_def DATA_FIELDS_OFFSET_def

section \<open>The compact header\<close>

definition compact_data_metadata :: "32 word \<Rightarrow> nat \<Rightarrow> u64 \<Rightarrow> u64 option" where
  "compact_data_metadata tag nfields scalars =
     (if nfields = 0 \<or> 15 < nfields \<or> 2047 < tag then None
      else let scalars = scalars AND (push_bit nfields 1 - 1)
           in if 255 < scalars then None
              else Some (COMPACT_DATA OR push_bit COMPACT_FIELDS_SHIFT (of_nat nfields)
                         OR push_bit COMPACT_SCALARS_SHIFT scalars
                         OR push_bit COMPACT_TAG_SHIFT (ucast tag)))"

definition data_header_size :: "32 word \<Rightarrow> nat \<Rightarrow> u64 \<Rightarrow> nat" where
  "data_header_size tag nfields scalars =
     (if compact_data_metadata tag nfields scalars \<noteq> None then COMPACT_FIELDS_OFFSET else DATA_FIELDS_OFFSET)"

record data_layout =
  dl_metadata :: "u64 option"
  dl_fields_offset :: nat
  dl_size :: nat

definition usize_mul :: "nat \<Rightarrow> nat \<Rightarrow> nat option" where
  "usize_mul a b = (if a * b \<le> usize_max then Some (a * b) else None)"

definition usize_add :: "nat \<Rightarrow> nat \<Rightarrow> nat option" where
  "usize_add a b = (if a + b \<le> usize_max then Some (a + b) else None)"

definition u32_of_i64 :: "u64 \<Rightarrow> 32 word option" where
  "u32_of_i64 n = (if 0 \<le> sint n \<and> sint n < 2 ^ 32 then Some (of_int (sint n)) else None)"

definition DataLayout_new :: "u64 \<Rightarrow> nat \<Rightarrow> u64 \<Rightarrow> data_layout option" where
  "DataLayout_new tag nfields scalars =
     (let metadata = u32_of_i64 tag \<bind> (\<lambda>tag. compact_data_metadata tag nfields scalars);
          fields_offset = (if metadata \<noteq> None then COMPACT_FIELDS_OFFSET else DATA_FIELDS_OFFSET)
      in do { bytes \<leftarrow> usize_mul nfields 8;
              n \<leftarrow> usize_add bytes fields_offset;
              if n \<le> MAX_ALLOCATION_SIZE
              then Some \<lparr>dl_metadata = metadata, dl_fields_offset = fields_offset, dl_size = n\<rparr> else None })"

text \<open>A cell's storage: the 64-bit word at each (8-aligned) byte offset.\<close>

type_synonym cell = "nat \<Rightarrow> u64"

definition DataLayout_initialize :: "data_layout \<Rightarrow> u64 \<Rightarrow> u64 \<Rightarrow> cell \<Rightarrow> cell" where
  "DataLayout_initialize lay desc tag p =
     (let p1 = p(RC_OFFSET := (case dl_metadata lay of Some md \<Rightarrow> md | None \<Rightarrow> 0) OR 1)
      in if dl_metadata lay = None
         then p1(DESC_OFFSET := desc, SIZE_OFFSET := of_nat (dl_size lay), DATA_TAG_OFFSET := tag)
         else p1)"

section \<open>Reading a header\<close>

record descriptor =
  de_kind :: u64
  de_scalar_bitmap :: u64

type_synonym descriptors = "u64 \<Rightarrow> descriptor"

definition KIND_DATA :: u64 where "KIND_DATA = 5"

definition header_word :: "cell \<Rightarrow> u64" where
  "header_word p = p RC_OFFSET"

definition obj_descriptor :: "descriptors \<Rightarrow> cell \<Rightarrow> descriptor" where
  "obj_descriptor ds p = ds (p DESC_OFFSET)"

definition is_compact :: "u64 \<Rightarrow> bool" where
  "is_compact w \<longleftrightarrow> w AND COMPACT_DATA \<noteq> 0"

definition compact_fields :: "u64 \<Rightarrow> nat" where
  "compact_fields w = unat (drop_bit COMPACT_FIELDS_SHIFT w AND 15)"

definition compact_scalars :: "u64 \<Rightarrow> u64" where
  "compact_scalars w = drop_bit COMPACT_SCALARS_SHIFT w AND 255"

definition compact_tag :: "u64 \<Rightarrow> u64" where
  "compact_tag w = drop_bit COMPACT_TAG_SHIFT w AND 2047"

definition object_kind :: "descriptors \<Rightarrow> cell \<Rightarrow> u64" where
  "object_kind ds p = (if is_compact (header_word p) then KIND_DATA else de_kind (obj_descriptor ds p))"

definition object_size :: "cell \<Rightarrow> nat" where
  "object_size p =
     (let word = header_word p
      in if is_compact word then COMPACT_FIELDS_OFFSET + compact_fields word * 8 else unat (p SIZE_OFFSET))"

definition data_offset :: "cell \<Rightarrow> nat" where
  "data_offset p = (if is_compact (header_word p) then COMPACT_FIELDS_OFFSET else DATA_FIELDS_OFFSET)"

definition data_len :: "cell \<Rightarrow> nat" where
  "data_len p =
     (let word = header_word p
      in if is_compact word then compact_fields word else (unat (p SIZE_OFFSET) - DATA_FIELDS_OFFSET) div 8)"

definition data_tag :: "cell \<Rightarrow> u64" where
  "data_tag p = (let word = header_word p in if is_compact word then compact_tag word else p DATA_TAG_OFFSET)"

definition data_scalars :: "descriptors \<Rightarrow> cell \<Rightarrow> u64" where
  "data_scalars ds p =
     (let word = header_word p
      in if is_compact word then compact_scalars word else de_scalar_bitmap (obj_descriptor ds p))"

record data_shape =
  ds_tag :: u64
  ds_fields :: nat
  ds_scalars :: u64
  ds_offset :: nat

definition DataShape_read :: "descriptors \<Rightarrow> cell \<Rightarrow> data_shape" where
  "DataShape_read ds p =
     (let word = header_word p
      in if is_compact word
         then \<lparr>ds_tag = compact_tag word, ds_fields = compact_fields word, ds_scalars = compact_scalars word,
               ds_offset = COMPACT_FIELDS_OFFSET\<rparr>
         else \<lparr>ds_tag = p DATA_TAG_OFFSET, ds_fields = (unat (p SIZE_OFFSET) - DATA_FIELDS_OFFSET) div 8,
               ds_scalars = de_scalar_bitmap (obj_descriptor ds p), ds_offset = DATA_FIELDS_OFFSET\<rparr>)"

definition slot_is_scalar :: "descriptors \<Rightarrow> cell \<Rightarrow> nat \<Rightarrow> bool" where
  "slot_is_scalar ds p index \<longleftrightarrow> index < 64 \<and> data_scalars ds p AND push_bit index 1 \<noteq> 0"

section \<open>Tagged values\<close>

type_synonym fai_value = u64

definition is_boxed :: "fai_value \<Rightarrow> bool" where
  "is_boxed v \<longleftrightarrow> v AND 1 = 0"

definition imm_int :: "u64 \<Rightarrow> fai_value" where
  "imm_int n = push_bit 1 n OR 1"

definition fits_immediate :: "u64 \<Rightarrow> bool" where
  "fits_immediate n \<longleftrightarrow> signed_drop_bit 1 (push_bit 1 n) = n"

text \<open>The immediate branch of \<^verbatim>\<open>unbox_int\<close>.\<close>

definition imm_value :: "fai_value \<Rightarrow> u64" where
  "imm_value v = signed_drop_bit 1 v"

section \<open>The reference-count word\<close>

definition rc_load :: "cell \<Rightarrow> u64" where
  "rc_load p = header_word p AND RC_STATE_MASK"

text \<open>
  The header word after \<^verbatim>\<open>rc_inc\<close>, \<open>None\<close> on the abort. The shared branch's \<^verbatim>\<open>fetch_add\<close> has happened
  when the code aborts; the process ends there.
\<close>

definition rc_inc_word :: "u64 \<Rightarrow> u64 option" where
  "rc_inc_word header =
     (let rc = header AND RC_STATE_MASK
      in if rc < IMMORTAL_RC then (if MAX_REFCOUNT \<le> rc then None else Some (header + 1))
         else if rc AND MT_FLAG \<noteq> 0
         then (if MAX_REFCOUNT \<le> header AND MT_COUNT_MASK then None else Some (header + 1))
         else Some header)"

text \<open>The result of \<^verbatim>\<open>rc_dec_is_dead\<close> and the header word after it.\<close>

definition rc_dec_word :: "u64 \<Rightarrow> bool \<times> u64" where
  "rc_dec_word header =
     (let rc = header AND RC_STATE_MASK
      in if rc < IMMORTAL_RC then (rc - 1 = 0, header - 1)
         else if rc AND MT_FLAG \<noteq> 0 then (header AND MT_COUNT_MASK = 1, header - 1)
         else (False, header))"

text \<open>The header word after \<^verbatim>\<open>mark_shared_one\<close>, and whether the children are to be marked.\<close>

definition mark_shared_word :: "u64 \<Rightarrow> bool \<times> u64" where
  "mark_shared_word header =
     (if header AND RC_STATE_MASK < IMMORTAL_RC then (True, header OR MT_FLAG) else (False, header))"

section \<open>Sizes\<close>

definition checked_buffer_size :: "nat \<Rightarrow> nat \<Rightarrow> nat \<Rightarrow> nat option" where
  "checked_buffer_size header count element_size = do {
     m \<leftarrow> usize_mul count element_size;
     bytes \<leftarrow> usize_add header m;
     padded \<leftarrow> usize_add bytes (ALIGN - 1);
     let sz = (padded div ALIGN) * ALIGN;
     if HEADER_SIZE \<le> sz \<and> sz \<le> MAX_ALLOCATION_SIZE then Some sz else None }"

definition size_class :: "nat \<Rightarrow> nat option" where
  "size_class sz = (if sz = 0 \<or> 512 < sz then None else Some ((sz + 7) div 8))"

text \<open>The doubling loop of \<^verbatim>\<open>grow_cap\<close>; a loop that does not end is \<open>None\<close> too.\<close>

partial_function (option) grow_loop :: "nat \<Rightarrow> nat \<Rightarrow> nat \<Rightarrow> nat option" where
  "grow_loop needed mx c =
     (if c < needed then grow_loop needed mx (min (min (c * 2) usize_max) mx) else Some c)"

definition grow_cap :: "nat \<Rightarrow> nat \<Rightarrow> nat \<Rightarrow> nat option" where
  "grow_cap cap needed mx =
     (if mx < cap \<or> mx < needed then None
      else grow_loop needed mx (if cap = 0 then min 4 mx else cap))"

section \<open>Words as bits and as numbers\<close>

lemma mask64: "push_bit n 1 - 1 = (mask n :: u64)"
  by (simp add: mask_eq_exp_minus_1 push_bit_eq_mult)

lemma and_mask64: "w AND (push_bit n 1 - 1) = take_bit n (w :: u64)"
  unfolding mask64 by (rule take_bit_eq_mask [symmetric])

lemma unat_take_bit64: "unat (take_bit n w :: u64) = unat w mod 2 ^ n"
  unfolding unsigned_take_bit_eq by (rule take_bit_eq_mod)

lemma unat_drop_bit64: "unat (drop_bit n w :: u64) = unat w div 2 ^ n"
  unfolding unat_drop_bit_eq by (rule drop_bit_eq_div)

lemma unat_of_nat64: "n < 2 ^ 64 \<Longrightarrow> unat (of_nat n :: u64) = n"
  by (simp add: unsigned_of_nat take_bit_nat_eq_self)

lemma unat_exp64: "n < 64 \<Longrightarrow> unat (push_bit n 1 :: u64) = 2 ^ n"
proof -
  assume "n < 64"
  then have "(2::nat) ^ n < 2 ^ 64" by (intro power_strict_increasing) simp_all
  then have "unat (of_nat (2 ^ n) :: u64) = 2 ^ n" by (rule unat_of_nat64)
  then show ?thesis by (simp add: push_bit_eq_mult)
qed

lemma bit_small: "(x :: u64) < push_bit n 1 \<Longrightarrow> n < 64 \<Longrightarrow> bit x i \<Longrightarrow> i < n"
proof -
  assume x: "x < push_bit n 1" and n: "n < 64" and b: "bit x i"
  have "unat x < 2 ^ n" using x n by (simp only: word_less_nat_alt unat_exp64)
  then have "take_bit n (unat x) = unat x" by (rule take_bit_nat_eq_self)
  moreover have "bit (unat x) i" using b by (simp add: bit_unsigned_iff)
  ultimately show "i < n" by (metis bit_take_bit_iff)
qed

lemma and_bit64: "n < 64 \<Longrightarrow> (w :: u64) AND push_bit n 1 \<noteq> 0 \<longleftrightarrow> bit w n"
  using and_exp_eq_0_iff_not_bit [of w n] by (simp add: push_bit_eq_mult)

lemma is_compact_bit: "is_compact w \<longleftrightarrow> bit w 63"
  unfolding is_compact_def COMPACT_DATA_def by (rule and_bit64) simp

lemma bit_iff_nat: "bit (w :: u64) n \<longleftrightarrow> odd (unat w div 2 ^ n)"
  by (metis bit_iff_odd bit_unsigned_iff possible_bit_nat)

section \<open>The reference-count states\<close>

datatype rc_state = Local nat | Shared nat | Immortal

definition rc_view :: "u64 \<Rightarrow> rc_state" where
  "rc_view w =
     (let s = unat w mod 2 ^ 40
      in if s < 2 ^ 38 then Local s else if 2 ^ 39 \<le> s then Shared (s mod 2 ^ 38) else Immortal)"

fun count_of :: "rc_state \<Rightarrow> nat" where
  "count_of (Local n) = n" | "count_of (Shared n) = n" | "count_of Immortal = 0"

fun with_count :: "rc_state \<Rightarrow> nat \<Rightarrow> rc_state" where
  "with_count (Local _) n = Local n" | "with_count (Shared _) n = Shared n" | "with_count Immortal n = Immortal"

fun shared_view :: "rc_state \<Rightarrow> rc_state" where
  "shared_view (Local n) = Shared n" | "shared_view s = s"

text \<open>The bits the count operations must not touch.\<close>

definition metadata_bits :: "u64 \<Rightarrow> u64" where
  "metadata_bits w = drop_bit 40 w"

lemma state_word: "unat (w AND RC_STATE_MASK) = unat w mod 2 ^ 40"
  unfolding RC_STATE_MASK_def and_mask64 by (rule unat_take_bit64)

lemma count_word: "unat (w AND MT_COUNT_MASK) = unat w mod 2 ^ 38"
  unfolding MT_COUNT_MASK_def IMMORTAL_RC_def and_mask64 by (rule unat_take_bit64)

lemma state_local: "w AND RC_STATE_MASK < IMMORTAL_RC \<longleftrightarrow> unat w mod 2 ^ 40 < 2 ^ 38"
  unfolding word_less_nat_alt state_word IMMORTAL_RC_def by (simp add: unat_exp64)

lemma state_flag: "(w AND RC_STATE_MASK) AND MT_FLAG \<noteq> 0 \<longleftrightarrow> 2 ^ 39 \<le> unat w mod 2 ^ 40"
proof -
  have "(w AND RC_STATE_MASK) AND MT_FLAG \<noteq> 0 \<longleftrightarrow> bit (w AND RC_STATE_MASK) 39"
    unfolding MT_FLAG_def by (rule and_bit64) simp
  also have "\<dots> \<longleftrightarrow> odd (unat w mod 2 ^ 40 div 2 ^ 39)" by (simp only: bit_iff_nat state_word)
  also have "\<dots> \<longleftrightarrow> 2 ^ 39 \<le> unat w mod 2 ^ 40"
  proof -
    have "unat w mod 2 ^ 40 div 2 ^ 39 < 2" by (rule less_mult_imp_div_less) simp
    then have "odd (unat w mod 2 ^ 40 div 2 ^ 39) \<longleftrightarrow> unat w mod 2 ^ 40 div 2 ^ 39 \<noteq> 0" by (auto simp: less_2_cases_iff)
    also have "\<dots> \<longleftrightarrow> 2 ^ 39 \<le> unat w mod 2 ^ 40" by (simp add: div_eq_0_iff not_less)
    finally show ?thesis .
  qed
  finally show ?thesis .
qed

lemma rc_viewD:
  "rc_view w = Local n \<Longrightarrow> unat w mod 2 ^ 40 = n \<and> n < 2 ^ 38"
  "rc_view w = Shared n \<Longrightarrow> 2 ^ 39 \<le> unat w mod 2 ^ 40 \<and> unat w mod 2 ^ 38 = n \<and> n < 2 ^ 38"
  "rc_view w = Immortal \<Longrightarrow> 2 ^ 38 \<le> unat w mod 2 ^ 40 \<and> unat w mod 2 ^ 40 < 2 ^ 39"
  by (auto simp: rc_view_def Let_def mod_mod_cancel split: if_splits)

lemma rc_viewI:
  "unat w mod 2 ^ 40 = n \<Longrightarrow> n < 2 ^ 38 \<Longrightarrow> rc_view w = Local n"
  "2 ^ 39 \<le> unat w mod 2 ^ 40 \<Longrightarrow> unat w mod 2 ^ 38 = n \<Longrightarrow> rc_view w = Shared n"
  by (auto simp: rc_view_def Let_def mod_mod_cancel)

lemma Suc_mod_div: "n mod m + 1 < m \<Longrightarrow> (n + 1) mod m = n mod m + 1 \<and> (n + 1) div m = n div (m :: nat)"
  by (simp add: mod_Suc div_Suc)

lemma pred_mod_div: "1 \<le> n mod m \<Longrightarrow> (n - 1) mod m = n mod m - 1 \<and> (n - 1) div m = n div (m :: nat)"
proof -
  assume a: "1 \<le> n mod m"
  then obtain k where k: "n = Suc k" by (cases n) auto
  show ?thesis
  proof (cases "m = 0")
    case False
    then have "Suc (k mod m) \<noteq> m" using a k by (auto simp: mod_Suc)
    then show ?thesis using k by (simp add: mod_Suc div_Suc)
  qed (simp add: k)
qed

lemma unat_inc:
  assumes "unat (w :: u64) mod 2 ^ 40 + 1 < 2 ^ 40"
  shows "unat (w + 1) = unat w + 1"
proof -
  have "unat w + 1 < 2 ^ 64"
  proof (rule ccontr)
    assume "\<not> ?thesis"
    moreover have "unat w < 2 ^ 64" using unsigned_less [of w] by simp
    ultimately have "unat w = 2 ^ 64 - 1" by linarith
    with assms show False by simp
  qed
  then show ?thesis using unat_add_lem [of w 1] by simp
qed

lemma unat_dec: "1 \<le> unat (w :: u64) \<Longrightarrow> unat (w - 1) = unat w - 1"
  by (rule unat_minus_one) (auto simp: unat_eq_0)

lemma metadata_bits_inc:
  assumes "unat w mod 2 ^ 40 + 1 < 2 ^ 40"
  shows "metadata_bits (w + 1) = metadata_bits w"
  using Suc_mod_div [OF assms] unat_inc [OF assms]
  by (simp only: metadata_bits_def word_unat_eq_iff unat_drop_bit64)

lemma metadata_bits_dec:
  assumes "1 \<le> unat w mod 2 ^ 40"
  shows "metadata_bits (w - 1) = metadata_bits w"
proof -
  have "1 \<le> unat w" using assms by (metis One_nat_def less_one mod_0 not_less)
  from unat_dec [OF this] pred_mod_div [OF assms] show ?thesis
    by (simp only: metadata_bits_def word_unat_eq_iff unat_drop_bit64)
qed

lemma rc_inc_local:
  assumes "rc_view w = Local n"
  shows "rc_inc_word w = (if n < 2 ^ 37 then Some (w + 1) else None)"
    and "n < 2 ^ 37 \<Longrightarrow> rc_view (w + 1) = Local (n + 1) \<and> metadata_bits (w + 1) = metadata_bits w"
proof -
  from rc_viewD(1) [OF assms] have n: "unat w mod 2 ^ 40 = n" "n < 2 ^ 38" by auto
  show "rc_inc_word w = (if n < 2 ^ 37 then Some (w + 1) else None)"
    unfolding rc_inc_word_def Let_def state_local word_le_nat_alt state_word
    using n by (auto simp: MAX_REFCOUNT_def unat_exp64)
  assume small: "n < 2 ^ 37"
  then have lt: "unat w mod 2 ^ 40 + 1 < 2 ^ 40" using n by simp
  have "unat (w + 1) mod 2 ^ 40 = n + 1"
    unfolding unat_inc [OF lt] using Suc_mod_div [OF lt] n(1) by linarith
  then show "rc_view (w + 1) = Local (n + 1) \<and> metadata_bits (w + 1) = metadata_bits w"
    using rc_viewI(1) [of "w + 1" "n + 1"] small metadata_bits_inc [OF lt] by simp
qed

lemma shared_halves: "2 ^ 39 \<le> (s :: nat) \<Longrightarrow> s < 2 ^ 40 \<Longrightarrow> s mod 2 ^ 38 + 1 < 2 ^ 38 \<Longrightarrow> s + 1 < 2 ^ 40"
proof (rule ccontr)
  assume s: "2 ^ 39 \<le> s" "s < 2 ^ 40" "s mod 2 ^ 38 + 1 < 2 ^ 38" "\<not> s + 1 < 2 ^ 40"
  then have "s = 2 ^ 40 - 1" by simp
  with s(3) show False by simp
qed

lemma rc_inc_shared:
  assumes "rc_view w = Shared n"
  shows "rc_inc_word w = (if n < 2 ^ 37 then Some (w + 1) else None)"
    and "n < 2 ^ 37 \<Longrightarrow> rc_view (w + 1) = Shared (n + 1) \<and> metadata_bits (w + 1) = metadata_bits w"
proof -
  from rc_viewD(2) [OF assms] have n: "2 ^ 39 \<le> unat w mod 2 ^ 40" "unat w mod 2 ^ 38 = n" "n < 2 ^ 38" by auto
  then have "\<not> unat w mod 2 ^ 40 < 2 ^ 38" by simp
  then show "rc_inc_word w = (if n < 2 ^ 37 then Some (w + 1) else None)"
    unfolding rc_inc_word_def Let_def state_local state_flag word_le_nat_alt count_word
    using n by (auto simp: MAX_REFCOUNT_def unat_exp64)
  assume small: "n < 2 ^ 37"
  have "unat w mod 2 ^ 40 mod 2 ^ 38 = n" using n(2) by (simp add: mod_mod_cancel)
  with small n(1) have lt: "unat w mod 2 ^ 40 + 1 < 2 ^ 40" by (intro shared_halves) simp_all
  have "2 ^ 39 \<le> unat (w + 1) mod 2 ^ 40"
    unfolding unat_inc [OF lt] using Suc_mod_div [OF lt] n(1) by linarith
  moreover have lt': "unat w mod 2 ^ 38 + 1 < 2 ^ 38" using n(2) small by simp
  have "unat (w + 1) mod 2 ^ 38 = n + 1"
    unfolding unat_inc [OF lt] using Suc_mod_div [OF lt'] n(2) by linarith
  ultimately show "rc_view (w + 1) = Shared (n + 1) \<and> metadata_bits (w + 1) = metadata_bits w"
    using rc_viewI(2) metadata_bits_inc [OF lt] by blast
qed

lemma rc_dec_local:
  assumes "rc_view w = Local n" and "1 \<le> n"
  shows "rc_dec_word w = (n = 1, w - 1)" and "rc_view (w - 1) = Local (n - 1)" and "metadata_bits (w - 1) = metadata_bits w"
proof -
  from rc_viewD(1) [OF assms(1)] have n: "unat w mod 2 ^ 40 = n" "n < 2 ^ 38" by auto
  have ge: "1 \<le> unat w mod 2 ^ 40" using n assms(2) by simp
  have w: "1 \<le> unat w" using ge by (metis One_nat_def less_one mod_0 not_less)
  have s: "1 \<le> unat (w AND RC_STATE_MASK)" using ge state_word by simp
  have "(w AND RC_STATE_MASK) - 1 = 0 \<longleftrightarrow> n = 1"
    using unat_dec [OF s] state_word [of w] n(1) ge by (simp add: word_unat_eq_iff)
  then show "rc_dec_word w = (n = 1, w - 1)"
    unfolding rc_dec_word_def Let_def state_local using n by simp
  have "unat (w - 1) mod 2 ^ 40 = n - 1"
    unfolding unat_dec [OF w] using pred_mod_div [OF ge] n(1) by linarith
  then show "rc_view (w - 1) = Local (n - 1)" using n(2) by (intro rc_viewI(1)) linarith+
  show "metadata_bits (w - 1) = metadata_bits w" by (rule metadata_bits_dec [OF ge])
qed

lemma rc_dec_shared:
  assumes "rc_view w = Shared n" and "1 \<le> n"
  shows "rc_dec_word w = (n = 1, w - 1)" and "rc_view (w - 1) = Shared (n - 1)" and "metadata_bits (w - 1) = metadata_bits w"
proof -
  from rc_viewD(2) [OF assms(1)] have n: "2 ^ 39 \<le> unat w mod 2 ^ 40" "unat w mod 2 ^ 38 = n" by auto
  have ge: "1 \<le> unat w mod 2 ^ 40" using n(1) by (rule order_trans [rotated]) simp
  have ge': "1 \<le> unat w mod 2 ^ 38" using n assms(2) by simp
  have w: "1 \<le> unat w" using ge by (metis One_nat_def less_one mod_0 not_less)
  have "\<not> unat w mod 2 ^ 40 < 2 ^ 38" using n by simp
  then show "rc_dec_word w = (n = 1, w - 1)"
    unfolding rc_dec_word_def Let_def state_local state_flag using n count_word [of w] by (simp add: word_unat_eq_iff)
  have "unat w mod 2 ^ 40 \<noteq> 2 ^ 39"
  proof
    assume "unat w mod 2 ^ 40 = 2 ^ 39"
    then have "unat w mod 2 ^ 40 mod 2 ^ 38 = 0" by simp
    then have "unat w mod 2 ^ 38 = 0" by (simp add: mod_mod_cancel)
    with ge' show False by linarith
  qed
  then have "2 ^ 39 \<le> unat (w - 1) mod 2 ^ 40"
    unfolding unat_dec [OF w] using pred_mod_div [OF ge] n(1) by linarith
  moreover have "unat (w - 1) mod 2 ^ 38 = n - 1"
    unfolding unat_dec [OF w] using pred_mod_div [OF ge'] n(2) by linarith
  ultimately show "rc_view (w - 1) = Shared (n - 1)" by (rule rc_viewI(2))
  show "metadata_bits (w - 1) = metadata_bits w" by (rule metadata_bits_dec [OF ge])
qed

lemma rc_immortal:
  assumes "rc_view w = Immortal"
  shows "rc_inc_word w = Some w" and "rc_dec_word w = (False, w)" and "mark_shared_word w = (False, w)"
proof -
  from rc_viewD(3) [OF assms] have "\<not> unat w mod 2 ^ 40 < 2 ^ 38" "\<not> 2 ^ 39 \<le> unat w mod 2 ^ 40" by auto
  then show "rc_inc_word w = Some w" and "rc_dec_word w = (False, w)" and "mark_shared_word w = (False, w)"
    unfolding rc_inc_word_def rc_dec_word_def mark_shared_word_def Let_def state_local state_flag by simp_all
qed

lemma mark_shared_shared: "rc_view w = Shared n \<Longrightarrow> mark_shared_word w = (False, w)"
  using rc_viewD(2) [of w n] unfolding mark_shared_word_def state_local by simp

lemma mark_shared_local:
  assumes "rc_view w = Local n"
  shows "mark_shared_word w = (True, w OR MT_FLAG)" and "rc_view (w OR MT_FLAG) = Shared n"
    and "metadata_bits (w OR MT_FLAG) = metadata_bits w"
proof -
  from rc_viewD(1) [OF assms] have n: "unat w mod 2 ^ 40 = n" "n < 2 ^ 38" by auto
  show "mark_shared_word w = (True, w OR MT_FLAG)"
    unfolding mark_shared_word_def state_local using n by simp
  let ?t = "take_bit 40 w"
  have "?t AND MT_FLAG = 0"
    using state_flag [of w] n unfolding RC_STATE_MASK_def and_mask64 by simp
  moreover have "unat ?t = n" using n(1) by (simp only: unat_take_bit64)
  moreover have "unat MT_FLAG = 2 ^ 39" unfolding MT_FLAG_def by (rule unat_exp64) simp
  ultimately have "unat (?t OR MT_FLAG) = n + 2 ^ 39"
    using word_plus_and_or [of ?t MT_FLAG] unat_add_lem [of ?t MT_FLAG] n(2) by simp
  moreover have "take_bit 40 (w OR MT_FLAG) = ?t OR MT_FLAG"
    unfolding MT_FLAG_def by (rule bit_word_eqI) (auto simp: bit_take_bit_iff bit_or_iff bit_push_bit_iff)
  ultimately have "unat (w OR MT_FLAG) mod 2 ^ 40 = n + 2 ^ 39" by (metis unat_take_bit64)
  moreover have "take_bit 38 (w OR MT_FLAG) = take_bit 38 w"
    unfolding MT_FLAG_def by (rule bit_word_eqI) (auto simp: bit_take_bit_iff bit_or_iff bit_push_bit_iff)
  then have "unat (w OR MT_FLAG) mod 2 ^ 38 = unat w mod 2 ^ 38" by (metis unat_take_bit64)
  moreover have "unat w mod 2 ^ 38 = n"
    using n mod_mod_cancel [of "2 ^ 38" "2 ^ 40" "unat w"] by simp
  ultimately show "rc_view (w OR MT_FLAG) = Shared n" by (intro rc_viewI(2)) simp_all
  show "metadata_bits (w OR MT_FLAG) = metadata_bits w"
    unfolding metadata_bits_def MT_FLAG_def
    by (rule bit_word_eqI) (auto simp: bit_drop_bit_eq bit_or_iff bit_push_bit_iff)
qed

lemma rc_dec_counted:
  assumes "rc_view w \<noteq> Immortal" and "0 < count_of (rc_view w)"
  shows "rc_dec_word w = (count_of (rc_view w) = 1, w - 1)" and "rc_view (w - 1) = with_count (rc_view w) (count_of (rc_view w) - 1)"
    and "metadata_bits (w - 1) = metadata_bits w"
  using assms rc_dec_local [of w] rc_dec_shared [of w] by (cases "rc_view w"; simp)+

lemma rc_inc_counted:
  assumes "rc_view w \<noteq> Immortal"
  shows "rc_inc_word w = (if count_of (rc_view w) < 2 ^ 37 then Some (w + 1) else None)"
    and "count_of (rc_view w) < 2 ^ 37 \<Longrightarrow> rc_view (w + 1) = with_count (rc_view w) (count_of (rc_view w) + 1) \<and>
           metadata_bits (w + 1) = metadata_bits w"
  using assms rc_inc_local [of w] rc_inc_shared [of w] by (cases "rc_view w"; simp)+

section \<open>The compact header is decoded as encoded\<close>

lemma bit_metadata: "40 \<le> n \<Longrightarrow> bit w n = bit (metadata_bits w) (n - 40)"
  by (simp add: metadata_bits_def bit_drop_bit_eq)

lemma shape_of_metadata:
  assumes "metadata_bits v = metadata_bits w"
  shows "is_compact v = is_compact w" and "compact_fields v = compact_fields w"
    and "compact_scalars v = compact_scalars w" and "compact_tag v = compact_tag w"
proof -
  have b: "bit v n = bit w n" if "40 \<le> n" for n using bit_metadata [OF that] assms by simp
  show "is_compact v = is_compact w" unfolding is_compact_bit by (rule b) simp
  have d: "drop_bit k v = drop_bit k w" if "40 \<le> k" for k
    by (rule bit_word_eqI) (use b that in \<open>simp add: bit_drop_bit_eq\<close>)
  show "compact_fields v = compact_fields w" "compact_scalars v = compact_scalars w" "compact_tag v = compact_tag w"
    unfolding compact_fields_def compact_scalars_def compact_tag_def offset_defs by (simp_all add: d)
qed

lemma bit_unat_less: "unat (x :: 'a :: len word) < 2 ^ n \<Longrightarrow> bit x i \<Longrightarrow> i < n"
proof -
  assume "unat x < 2 ^ n" and b: "bit x i"
  then have "take_bit n (unat x) = unat x" by (intro take_bit_nat_eq_self)
  moreover have "bit (unat x) i" using b by (simp add: bit_unsigned_iff)
  ultimately show "i < n" by (metis bit_take_bit_iff)
qed

lemma compact_header_bits:
  assumes md: "compact_data_metadata tag nfields scalars = Some md" and s: "unat s < 2 ^ 40"
  shows "bit (md OR s) n \<longleftrightarrow> n < 64 \<and>
    (if n < 40 then bit s n else if n < 51 then bit tag (n - 40)
     else if n < 59 then bit scalars (n - 51) \<and> n - 51 < nfields
     else if n < 63 then bit nfields (n - 59) else True)"
proof -
  let ?sc = "scalars AND (push_bit nfields 1 - 1)"
  from md have c: "1 \<le> nfields" "nfields \<le> 15" "tag \<le> 2047" "?sc \<le> 255"
    and e: "md = COMPACT_DATA OR push_bit 59 (of_nat nfields) OR push_bit 51 ?sc OR push_bit 40 (ucast tag)"
    by (auto simp: compact_data_metadata_def Let_def offset_defs not_less split: if_splits)
  have "unat ?sc < 2 ^ 8" using c(4) by (simp add: word_le_nat_alt)
  note bsc = bit_unat_less [OF this]
  have "unat tag < 2 ^ 11" using c(3) by (simp add: word_le_nat_alt)
  note btag = bit_unat_less [OF this]
  have "take_bit 4 nfields = nfields" using c(2) by (intro take_bit_nat_eq_self) simp
  then have bfl: "bit nfields i \<Longrightarrow> i < 4" for i by (metis bit_take_bit_iff)
  have sc: "bit ?sc i \<longleftrightarrow> bit scalars i \<and> i < nfields" for i
    unfolding and_mask64 by (auto simp: bit_take_bit_iff)
  define w where "w = ?sc"
  have P1: "bit (push_bit 63 (1 :: u64)) n \<longleftrightarrow> n = 63"
    by (simp only: bit_push_bit_iff possible_bit_word bit_1_iff) auto
  have P2: "bit (push_bit 59 (of_nat nfields :: u64)) n \<longleftrightarrow> 59 \<le> n \<and> n < 63 \<and> bit nfields (n - 59)"
    using bfl [of "n - 59"] by (auto simp: bit_push_bit_iff bit_of_nat_iff)
  have P3: "bit (push_bit 51 w) n \<longleftrightarrow> 51 \<le> n \<and> n < 59 \<and> bit scalars (n - 51) \<and> n - 51 < nfields"
    using bsc [of "n - 51", folded w_def] sc [of "n - 51", folded w_def] bit_imp_le_length [of w "n - 51"]
    by (auto simp: bit_push_bit_iff)
  have P4: "bit (push_bit 40 (ucast tag :: u64)) n \<longleftrightarrow> 40 \<le> n \<and> n < 51 \<and> bit tag (n - 40)"
    using btag [of "n - 40"] by (auto simp: bit_push_bit_iff bit_unsigned_iff)
  have P5: "bit s n \<longleftrightarrow> n < 40 \<and> bit s n" using bit_unat_less [OF s] by blast
  show ?thesis
    unfolding e COMPACT_DATA_def w_def [symmetric] bit_or_iff P1 P2 P3 P4
    using P5 by (cases "n < 64") auto
qed

lemma compact_header_decodes:
  assumes md: "compact_data_metadata tag nfields scalars = Some md" and s: "unat s < 2 ^ 40"
  shows "is_compact (md OR s)" and "compact_fields (md OR s) = nfields"
    and "compact_scalars (md OR s) = take_bit nfields scalars" and "compact_tag (md OR s) = ucast tag"
    and "(md OR s) AND RC_STATE_MASK = s"
proof -
  define h where "h = md OR s"
  note b = compact_header_bits [OF md s, folded h_def]
  from md have c: "nfields \<le> 15" "tag \<le> 2047" "take_bit nfields scalars \<le> 255"
    unfolding compact_data_metadata_def and_mask64 by (auto simp: Let_def not_less split: if_splits)
  show "is_compact (md OR s)" unfolding h_def [symmetric] is_compact_bit b by simp
  have m15: "x AND 15 = take_bit 4 x" and m255: "x AND 255 = take_bit 8 x" and m2047: "x AND 2047 = take_bit 11 x" for x :: u64
    by (simp_all add: take_bit_eq_mask mask_eq_exp_minus_1)
  have nf: "take_bit 4 nfields = nfields" using c(1) by (intro take_bit_nat_eq_self) simp
  have "drop_bit 59 h AND 15 = of_nat nfields"
    unfolding m15
  proof (rule bit_word_eqI)
    fix n assume "n < LENGTH(64)"
    show "bit (take_bit 4 (drop_bit 59 h)) n \<longleftrightarrow> bit (of_nat nfields :: u64) n"
      using nf by (auto simp: bit_take_bit_iff bit_drop_bit_eq b bit_of_nat_iff) (metis bit_take_bit_iff)+
  qed
  moreover have "unat (of_nat nfields :: u64) = nfields" using c(1) by (intro unat_of_nat64) simp
  ultimately show "compact_fields (md OR s) = nfields" unfolding h_def [symmetric] compact_fields_def offset_defs by simp
  have "unat (take_bit nfields scalars) < 2 ^ 8" using c(3) by (simp add: word_le_nat_alt)
  note bsc = bit_unat_less [OF this]
  show "compact_scalars (md OR s) = take_bit nfields scalars"
    unfolding h_def [symmetric] compact_scalars_def offset_defs m255
  proof (rule bit_word_eqI)
    fix n assume "n < LENGTH(64)"
    show "bit (take_bit 8 (drop_bit 51 h)) n \<longleftrightarrow> bit (take_bit nfields scalars) n"
      using bsc [of n] by (auto simp: bit_take_bit_iff bit_drop_bit_eq b)
  qed
  have "unat tag < 2 ^ 11" using c(2) by (simp add: word_le_nat_alt)
  note btag = bit_unat_less [OF this]
  show "compact_tag (md OR s) = ucast tag"
    unfolding h_def [symmetric] compact_tag_def offset_defs m2047
  proof (rule bit_word_eqI)
    fix n assume "n < LENGTH(64)"
    show "bit (take_bit 11 (drop_bit 40 h)) n \<longleftrightarrow> bit (ucast tag :: u64) n"
      using btag [of n] by (auto simp: bit_take_bit_iff bit_drop_bit_eq b bit_unsigned_iff)
  qed
  show "(md OR s) AND RC_STATE_MASK = s"
    unfolding h_def [symmetric] RC_STATE_MASK_def and_mask64
  proof (rule bit_word_eqI)
    fix n assume "n < LENGTH(64)"
    show "bit (take_bit 40 h) n \<longleftrightarrow> bit s n"
      using bit_unat_less [OF s, of n] \<open>n < LENGTH(64)\<close> by (auto simp: bit_take_bit_iff b)
  qed
qed

section \<open>Data cells\<close>

lemma rc_view_one: "unat s = 1 \<Longrightarrow> (w AND RC_STATE_MASK) = s \<Longrightarrow> rc_view w = Local 1"
  using state_word [of w] by (intro rc_viewI(1)) simp_all

lemma rc_view_1: "rc_view 1 = Local 1"
  by (rule rc_viewI(1)) simp_all

lemma not_compact_1: "\<not> is_compact 1"
  by (simp add: is_compact_bit)

lemma DataLayout_newD:
  assumes "DataLayout_new tag nfields scalars = Some lay"
  shows "dl_fields_offset lay = (if dl_metadata lay = None then 32 else 8)"
    and "dl_size lay = nfields * 8 + dl_fields_offset lay" and "dl_size lay \<le> MAX_ALLOCATION_SIZE"
    and "dl_metadata lay = u32_of_i64 tag \<bind> (\<lambda>t. compact_data_metadata t nfields scalars)"
  using assms
  by (auto simp: DataLayout_new_def Let_def bind_eq_Some_conv usize_mul_def usize_add_def offset_defs split: if_splits)

lemma DataLayout_new_total: "nfields * 8 + 32 \<le> MAX_ALLOCATION_SIZE \<Longrightarrow> DataLayout_new tag nfields scalars \<noteq> None"
  by (auto simp: DataLayout_new_def Let_def usize_mul_def usize_add_def usize_max_def MAX_ALLOCATION_SIZE_def offset_defs)

lemma u32_of_i64_ucast:
  assumes "u32_of_i64 tag = Some t"
  shows "ucast t = (tag :: u64)"
proof -
  define k where "k = sint tag"
  have r: "0 \<le> k" "k < 2 ^ 32" and t: "t = of_int k"
    using assms by (auto simp: u32_of_i64_def k_def split: if_splits)
  have "uint t = k" using r by (simp add: t unsigned_of_int take_bit_int_eq_self)
  then have "ucast t = (of_int k :: u64)" by (metis of_int_uint ucast_eq word_of_int_eq_iff)
  then show ?thesis by (simp add: k_def)
qed

definition slot_float :: "u64 \<Rightarrow> nat \<Rightarrow> bool" where
  "slot_float scalars i \<longleftrightarrow> i < 64 \<and> bit scalars i"

lemma slot_is_scalar_iff: "slot_is_scalar ds p i \<longleftrightarrow> slot_float (data_scalars ds p) i"
  unfolding slot_is_scalar_def slot_float_def using and_bit64 [of i "data_scalars ds p"] by auto

lemma data_cell_shape:
  assumes lay: "DataLayout_new tag nfields scalars = Some lay"
    and desc: "ds d = \<lparr>de_kind = KIND_DATA, de_scalar_bitmap = scalars\<rparr>"
    and p: "header_word p = header_word (DataLayout_initialize lay d tag p0)"
      "dl_metadata lay = None \<Longrightarrow> p DESC_OFFSET = d \<and> p SIZE_OFFSET = of_nat (dl_size lay) \<and> p DATA_TAG_OFFSET = tag"
  shows "data_tag p = tag" and "data_len p = nfields" and "data_offset p = dl_fields_offset lay"
    and "object_size p = dl_size lay" and "object_kind ds p = KIND_DATA" and "rc_view (header_word p) = Local 1"
    and "i < nfields \<Longrightarrow> slot_is_scalar ds p i \<longleftrightarrow> slot_float scalars i"
    and "is_compact (header_word p) \<longleftrightarrow> dl_metadata lay \<noteq> None"
proof -
  note d = DataLayout_newD [OF lay]
  have "data_tag p = tag \<and> data_len p = nfields \<and> data_offset p = dl_fields_offset lay \<and> object_size p = dl_size lay \<and>
    object_kind ds p = KIND_DATA \<and> rc_view (header_word p) = Local 1 \<and>
    (i < nfields \<longrightarrow> (slot_is_scalar ds p i \<longleftrightarrow> slot_float scalars i)) \<and>
    (is_compact (header_word p) \<longleftrightarrow> dl_metadata lay \<noteq> None)"
  proof (cases "dl_metadata lay")
    case None
    have "header_word p = 1"
      using p(1) None by (simp add: DataLayout_initialize_def header_word_def offset_defs)
    moreover have "unat (of_nat (dl_size lay) :: u64) = dl_size lay"
      using d(3) by (intro unat_of_nat64) (simp add: MAX_ALLOCATION_SIZE_def)
    ultimately show ?thesis
      using p(2) [OF None] None d(1,2) not_compact_1 rc_view_1
      by (simp add: data_tag_def data_len_def data_offset_def object_size_def object_kind_def obj_descriptor_def
          slot_is_scalar_iff data_scalars_def desc DATA_FIELDS_OFFSET_def HEADER_SIZE_def Let_def)
  next
    case (Some md)
    then obtain t where t: "u32_of_i64 tag = Some t" "compact_data_metadata t nfields scalars = Some md"
      using d(4) by (auto simp: bind_eq_Some_conv)
    have h: "header_word p = md OR 1"
      using p(1) Some by (simp add: DataLayout_initialize_def header_word_def offset_defs)
    have "unat (1 :: u64) < 2 ^ 40" by simp
    note c = compact_header_decodes [OF t(2) this]
    have "slot_is_scalar ds p i \<longleftrightarrow> slot_float scalars i" if "i < nfields"
      using that c(1,3) h by (simp add: slot_is_scalar_iff slot_float_def data_scalars_def bit_take_bit_iff Let_def)
    moreover have "rc_view (md OR 1) = Local 1" by (rule rc_view_one [OF _ c(5)]) simp
    ultimately show ?thesis
      using Some d(1,2) c u32_of_i64_ucast [OF t(1)] h
      by (simp add: data_tag_def data_len_def data_offset_def object_size_def object_kind_def Let_def COMPACT_FIELDS_OFFSET_def)
  qed
  then show "data_tag p = tag" and "data_len p = nfields" and "data_offset p = dl_fields_offset lay"
    and "object_size p = dl_size lay" and "object_kind ds p = KIND_DATA" and "rc_view (header_word p) = Local 1"
    and "i < nfields \<Longrightarrow> slot_is_scalar ds p i \<longleftrightarrow> slot_float scalars i"
    and "is_compact (header_word p) \<longleftrightarrow> dl_metadata lay \<noteq> None" by blast+
qed

section \<open>Properties\<close>

text \<open>
  C21: a data cell, compact or extended, reads back as it was made: its tag, field count, size, field
  offset, kind and float slots are those it was laid out with, its reference count is one and
  local, and its size stays within the allocation limit. This holds for every tag, field count and
  bitmap: a shape too wide for the compact header falls back to the extended one.
\<close>

theorem data_cell_roundtrip:
  assumes "DataLayout_new tag nfields scalars = Some lay"
    and "ds d = \<lparr>de_kind = KIND_DATA, de_scalar_bitmap = scalars\<rparr>"
    and "p = DataLayout_initialize lay d tag p0"
  shows "data_tag p = tag \<and> data_len p = nfields \<and> data_offset p = dl_fields_offset lay \<and>
         object_size p = dl_size lay \<and> dl_size lay = dl_fields_offset lay + 8 * nfields \<and>
         dl_size lay \<le> MAX_ALLOCATION_SIZE \<and> object_kind ds p = KIND_DATA \<and>
         rc_view (header_word p) = Local 1 \<and>
         (\<forall>i < nfields. slot_is_scalar ds p i \<longleftrightarrow> slot_float scalars i)"
proof -
  have h: "header_word p = header_word (DataLayout_initialize lay d tag p0)" using assms(3) by simp
  have e: "dl_metadata lay = None \<Longrightarrow> p DESC_OFFSET = d \<and> p SIZE_OFFSET = of_nat (dl_size lay) \<and> p DATA_TAG_OFFSET = tag"
    using assms(3) by (simp add: DataLayout_initialize_def offset_defs)
  note c = data_cell_shape [where ds = ds and d = d and p = p and ?p0.0 = p0, OF assms(1,2) h e]
  show ?thesis using c DataLayout_newD [OF assms(1)] by simp
qed

theorem data_cell_roundtrip_witness:
  "\<exists>lay. DataLayout_new 7 2 1 = Some lay \<and>
     data_tag (DataLayout_initialize lay 0 7 (\<lambda>_. 0)) = 7 \<and> data_len (DataLayout_initialize lay 0 7 (\<lambda>_. 0)) = 2"
proof -
  obtain lay where lay: "DataLayout_new 7 2 1 = Some lay"
    using DataLayout_new_total [of 2 7 1] by (auto simp: MAX_ALLOCATION_SIZE_def)
  from data_cell_roundtrip [OF lay, of "\<lambda>_. \<lparr>de_kind = KIND_DATA, de_scalar_bitmap = 1\<rparr>" 0, OF refl refl] lay
  show ?thesis by blast
qed

text \<open>
  C22: the count operations on a header word implement the three-state machine: a local or shared
  count goes up by one below the limit (and the process aborts at it), goes down by one with
  "last reference" reported exactly at one, and an immortal word never changes; marking turns a
  local count into the same shared count. None of them touches the metadata bits above the state,
  so a compact cell keeps its shape.
\<close>

theorem rc_words_refine:
  "(case rc_inc_word w of
      None \<Rightarrow> rc_view w \<noteq> Immortal \<and> 2 ^ 37 \<le> count_of (rc_view w)
    | Some w' \<Rightarrow> rc_view w' = with_count (rc_view w) (count_of (rc_view w) + 1) \<and> metadata_bits w' = metadata_bits w) \<and>
   (count_of (rc_view w) = 0 \<and> rc_view w \<noteq> Immortal \<or>
    (case rc_dec_word w of (dead, w') \<Rightarrow>
       (dead \<longleftrightarrow> count_of (rc_view w) = 1) \<and> rc_view w' = with_count (rc_view w) (count_of (rc_view w) - 1) \<and>
       metadata_bits w' = metadata_bits w)) \<and>
   (case mark_shared_word w of (changed, w') \<Rightarrow>
      rc_view w' = shared_view (rc_view w) \<and> (changed \<longleftrightarrow> rc_view w' \<noteq> rc_view w) \<and>
      metadata_bits w' = metadata_bits w)"
proof (cases "rc_view w")
  case (Local n)
  show ?thesis
    using rc_inc_local [OF Local] rc_dec_local [OF Local] mark_shared_local [OF Local] Local
    by (cases "n = 0") auto
next
  case (Shared n)
  show ?thesis
    using rc_inc_shared [OF Shared] rc_dec_shared [OF Shared] mark_shared_shared [OF Shared] Shared
    by (cases "n = 0") auto
next
  case Immortal
  show ?thesis using rc_immortal [OF Immortal] Immortal by simp
qed

lemma bit_shift_left_1: "bit (push_bit 1 (n :: u64)) j \<longleftrightarrow> 1 \<le> j \<and> j < 64 \<and> bit n (j - 1)"
  by (simp only: bit_push_bit_iff possible_bit_word) auto

lemma bit_shift_right_1: "i < 64 \<Longrightarrow> bit (signed_drop_bit 1 (m :: u64)) i \<longleftrightarrow> bit m (if i = 63 then 63 else i + 1)"
  by (auto simp: bit_signed_drop_bit_iff)

lemma bit_signed_shift: "i < 64 \<Longrightarrow> bit (signed_drop_bit 1 (push_bit 1 (n :: u64))) i \<longleftrightarrow> bit n (min i 62)"
  by (simp only: bit_shift_right_1 bit_shift_left_1) auto

lemma bit_imm_value_imm_int: "i < 64 \<Longrightarrow> bit (imm_value (imm_int n)) i \<longleftrightarrow> bit n (min i 62)"
  unfolding imm_value_def imm_int_def
  by (simp only: bit_shift_right_1 bit_or_iff bit_shift_left_1 bit_1_iff) auto

lemma fits_immediate_bits: "fits_immediate n \<longleftrightarrow> bit n 62 = bit n 63"
proof
  assume "fits_immediate n"
  then have "bit (signed_drop_bit 1 (push_bit 1 n)) 63 = bit n 63" by (simp add: fits_immediate_def)
  with bit_signed_shift [of 63 n] show "bit n 62 = bit n 63" by simp
next
  assume b: "bit n 62 = bit n 63"
  show "fits_immediate n"
    unfolding fits_immediate_def
  proof (rule bit_word_eqI)
    fix i assume "i < LENGTH(64)"
    with bit_signed_shift [of i n] b show "bit (signed_drop_bit 1 (push_bit 1 n)) i \<longleftrightarrow> bit n i"
      by (cases "i = 63") (auto simp: min_def)
  qed
qed

lemma fits_immediate_range: "fits_immediate n \<longleftrightarrow> - (2 ^ 62) \<le> sint n \<and> sint n < 2 ^ 62"
proof -
  have s: "bit (sint n) i \<longleftrightarrow> bit n (min i 63)" for i by (simp add: bit_signed_iff min_def)
  have "signed_take_bit 62 (sint n) = sint n \<longleftrightarrow> bit n 62 = bit n 63"
  proof
    assume "signed_take_bit 62 (sint n) = sint n"
    then have "bit (signed_take_bit 62 (sint n)) 63 = bit (sint n) 63" by simp
    then show "bit n 62 = bit n 63" by (simp add: bit_signed_take_bit_iff s)
  next
    assume b: "bit n 62 = bit n 63"
    show "signed_take_bit 62 (sint n) = sint n"
    proof (rule bit_eqI)
      fix i :: nat
      have "min (min 62 i) 63 = min 62 i" by simp
      then have "bit (signed_take_bit 62 (sint n)) i \<longleftrightarrow> bit n (min 62 i)"
        by (simp only: bit_signed_take_bit_iff s possible_bit_int simp_thms min.commute)
      also have "\<dots> \<longleftrightarrow> bit n (min i 63)"
      proof (cases "i \<le> 62")
        case True
        then have "min 62 i = i" "min i 63 = i" by simp_all
        then show ?thesis by (simp only:)
      next
        case False
        then have "min 62 i = 62" "min i 63 = 63" by simp_all
        with b show ?thesis by (simp only:)
      qed
      finally show "bit (signed_take_bit 62 (sint n)) i \<longleftrightarrow> bit (sint n) i" by (simp only: s)
    qed
  qed
  then show ?thesis unfolding fits_immediate_bits using signed_take_bit_int_eq_self_iff [of 62 "sint n"] by simp
qed

text \<open>
  C23: integers as tagged values: an immediate is never taken for a heap pointer, the range test
  accepts exactly the 63-bit signed integers, and exactly those survive the encoding.
\<close>

theorem immediate_integers:
  "\<not> is_boxed (imm_int n) \<and>
   (fits_immediate n \<longleftrightarrow> - (2 ^ 62) \<le> sint n \<and> sint n < 2 ^ 62) \<and>
   (imm_value (imm_int n) = n \<longleftrightarrow> fits_immediate n)"
proof -
  have "(imm_int n AND 1) \<noteq> 0"
    using and_bit64 [of 0 "imm_int n"] by (simp add: imm_int_def bit_or_iff)
  moreover have "imm_value (imm_int n) = signed_drop_bit 1 (push_bit 1 n)"
    by (rule bit_word_eqI) (simp only: bit_imm_value_imm_int bit_signed_shift len_bit0 len_num1)
  ultimately show ?thesis
    using fits_immediate_range [of n] by (simp add: is_boxed_def fits_immediate_def)
qed

lemma grow_loop_total:
  assumes "0 < c" and "c \<le> mx" and "needed \<le> mx" and "mx \<le> usize_max"
  shows "\<exists>r. grow_loop needed mx c = Some r \<and> needed \<le> r \<and> c \<le> r \<and> r \<le> mx \<and> (r = c \<or> r \<le> 2 * needed)"
  using assms
proof (induction "needed - c" arbitrary: c rule: less_induct)
  case less
  show ?case
  proof (cases "c < needed")
    case False
    with less.prems show ?thesis by (simp add: grow_loop.simps [of needed mx c])
  next
    case True
    let ?c = "min (min (c * 2) usize_max) mx"
    have c: "c < ?c" using True less.prems by simp
    then have "needed - ?c < needed - c" using True by linarith
    with c True less.prems obtain r where "grow_loop needed mx ?c = Some r" "needed \<le> r" "?c \<le> r" "r \<le> mx" "r = ?c \<or> r \<le> 2 * needed"
      using less.hyps [of ?c] by auto
    then show ?thesis using True c by (auto simp: grow_loop.simps [of needed mx c])
  qed
qed



end
