(* ===== verification/Fai_Heap.thy ===== *)
theory Fai_Heap
  imports Fai_Header "HOL-Library.Multiset"
begin

unbundle bit_operations_syntax

text \<open>
  The reference-counted heap of \<^verbatim>\<open>fai-runtime/src/lib.rs\<close>: dup and drop, the release of dead cells
  (the linear chain, compact cells, other kinds, arrays in batches), the drop worklist, marking a
  value as shared, and the construction of data cells.

  A heap maps the address of every live cell to its words. Reclaiming a cell (\<^verbatim>\<open>pool_push\<close>,
  \<^verbatim>\<open>free_storage\<close>, \<^verbatim>\<open>free_obj\<close>, or for a stack cell the end of its life) removes it from the map; the pool
  and the finalizers of native handles are not modelled. Reading or writing a cell that is not live
  is undefined behaviour, the result \<open>None\<close>; so are an abort and a loop that does not end. Static
  descriptors are the argument \<open>ds\<close>, the address a fresh cell gets is an argument too.
\<close>

section \<open>Cells, kinds and children\<close>

type_synonym address = u64
type_synonym heap = "address \<rightharpoonup> cell"

definition KIND_STRING :: u64 where "KIND_STRING = 0"
definition KIND_INT :: u64 where "KIND_INT = 1"
definition KIND_FLOAT :: u64 where "KIND_FLOAT = 2"
definition KIND_CLOSURE :: u64 where "KIND_CLOSURE = 3"
definition KIND_PAP :: u64 where "KIND_PAP = 4"
definition KIND_ARRAY :: u64 where "KIND_ARRAY = 6"
definition KIND_STRING_SLICE :: u64 where "KIND_STRING_SLICE = 7"
definition KIND_STACK_CLOSURE :: u64 where "KIND_STACK_CLOSURE = 9"
definition KIND_STACK_PAP :: u64 where "KIND_STACK_PAP = 10"
definition KIND_BYTES :: u64 where "KIND_BYTES = 14"
definition KIND_TEXT_PAIRS :: u64 where "KIND_TEXT_PAIRS = 23"

lemmas kind_defs = KIND_STRING_def KIND_INT_def KIND_FLOAT_def KIND_CLOSURE_def KIND_PAP_def
  KIND_DATA_def KIND_ARRAY_def KIND_STRING_SLICE_def KIND_STACK_CLOSURE_def KIND_STACK_PAP_def
  KIND_BYTES_def KIND_TEXT_PAIRS_def

definition ARRAY_LEN_OFFSET :: nat where "ARRAY_LEN_OFFSET = 24"
definition ARRAY_ELEMS_OFFSET :: nat where "ARRAY_ELEMS_OFFSET = 32"
definition SLICE_BASE_OFFSET :: nat where "SLICE_BASE_OFFSET = 32"
definition CLOSURE_ENV_COUNT_OFFSET :: nat where "CLOSURE_ENV_COUNT_OFFSET = 40"
definition CLOSURE_ENV_OFFSET :: nat where "CLOSURE_ENV_OFFSET = 48"
definition PAP_FUNC_OFFSET :: nat where "PAP_FUNC_OFFSET = 24"
definition PAP_NARGS_OFFSET :: nat where "PAP_NARGS_OFFSET = 32"
definition PAP_ARGS_OFFSET :: nat where "PAP_ARGS_OFFSET = 40"
definition PAIRS_SOURCE_OFFSET :: nat where "PAIRS_SOURCE_OFFSET = 24"
definition PAIRS_RANGES_OFFSET :: nat where "PAIRS_RANGES_OFFSET = 32"

lemmas slot_defs = ARRAY_LEN_OFFSET_def ARRAY_ELEMS_OFFSET_def SLICE_BASE_OFFSET_def
  CLOSURE_ENV_COUNT_OFFSET_def CLOSURE_ENV_OFFSET_def PAP_FUNC_OFFSET_def PAP_NARGS_OFFSET_def
  PAP_ARGS_OFFSET_def PAIRS_SOURCE_OFFSET_def PAIRS_RANGES_OFFSET_def

text \<open>The boxed values among consecutive slots, without the slots a predicate excludes.\<close>

definition boxed_slots :: "cell \<Rightarrow> nat \<Rightarrow> (nat \<Rightarrow> bool) \<Rightarrow> nat list \<Rightarrow> fai_value list" where
  "boxed_slots p offset skip is = filter is_boxed (map (\<lambda>i. p (offset + i * 8)) (filter (\<lambda>i. \<not> skip i) is))"

definition compact_children :: "cell \<Rightarrow> fai_value list" where
  "compact_children p =
     (let header = header_word p; scalars = compact_scalars header
      in boxed_slots p COMPACT_FIELDS_OFFSET (\<lambda>i. scalars AND push_bit i 1 \<noteq> 0) [0..<compact_fields header])"

definition array_obj_is_float :: "descriptors \<Rightarrow> cell \<Rightarrow> bool" where
  "array_obj_is_float ds p \<longleftrightarrow> de_scalar_bitmap (obj_descriptor ds p) \<noteq> 0"

text \<open>The values \<^verbatim>\<open>scan_push\<close> pushes, in order.\<close>

definition scan_children :: "descriptors \<Rightarrow> cell \<Rightarrow> fai_value list" where
  "scan_children ds p =
     (if is_compact (header_word p) then compact_children p
      else let kind = de_kind (obj_descriptor ds p)
        in if kind = KIND_DATA then
             boxed_slots p (data_offset p) (\<lambda>i. i < 64 \<and> data_scalars ds p AND push_bit i 1 \<noteq> 0) [0..<data_len p]
           else if kind = KIND_CLOSURE \<or> kind = KIND_STACK_CLOSURE then
             boxed_slots p CLOSURE_ENV_OFFSET (\<lambda>_. False) [0..<unat (p CLOSURE_ENV_COUNT_OFFSET)]
           else if kind = KIND_PAP \<or> kind = KIND_STACK_PAP then
             filter is_boxed [p PAP_FUNC_OFFSET] @
             boxed_slots p PAP_ARGS_OFFSET (\<lambda>_. False) [0..<unat (p PAP_NARGS_OFFSET)]
           else if kind = KIND_ARRAY then
             (if array_obj_is_float ds p then []
              else boxed_slots p ARRAY_ELEMS_OFFSET (\<lambda>_. False) [0..<unat (p ARRAY_LEN_OFFSET)])
           else if kind = KIND_TEXT_PAIRS then
             filter is_boxed [p PAIRS_SOURCE_OFFSET, p PAIRS_RANGES_OFFSET]
           else if kind = KIND_STRING_SLICE then filter is_boxed [p SLICE_BASE_OFFSET]
           else [])"

section \<open>Counting\<close>

definition write_header :: "heap \<Rightarrow> address \<Rightarrow> u64 \<Rightarrow> heap" where
  "write_header h p w = (case h p of None \<Rightarrow> h | Some c \<Rightarrow> h(p \<mapsto> c(RC_OFFSET := w)))"

definition rc_inc :: "heap \<Rightarrow> address \<Rightarrow> heap option" where
  "rc_inc h p = do { c \<leftarrow> h p; w \<leftarrow> rc_inc_word (header_word c); Some (write_header h p w) }"

definition rc_dec_is_dead :: "heap \<Rightarrow> address \<Rightarrow> (bool \<times> heap) option" where
  "rc_dec_is_dead h p = do {
     c \<leftarrow> h p;
     let (dead, w) = rc_dec_word (header_word c);
     Some (dead, write_header h p w) }"

definition fai_dup :: "heap \<Rightarrow> fai_value \<Rightarrow> heap option" where
  "fai_dup h v = (if is_boxed v then rc_inc h v else Some h)"

section \<open>The drop worklist\<close>

definition DROP_INLINE :: nat where "DROP_INLINE = 32"

record drop_work =
  dw_inline :: "fai_value list"
  dw_spill :: "fai_value list"

definition DropWork_new :: drop_work where
  "DropWork_new = \<lparr>dw_inline = [], dw_spill = []\<rparr>"

definition DropWork_push :: "fai_value \<Rightarrow> drop_work \<Rightarrow> drop_work" where
  "DropWork_push v w =
     (if length (dw_inline w) < DROP_INLINE then w\<lparr>dw_inline := dw_inline w @ [v]\<rparr>
      else w\<lparr>dw_spill := dw_spill w @ [v]\<rparr>)"

definition DropWork_pop :: "drop_work \<Rightarrow> fai_value option \<times> drop_work" where
  "DropWork_pop w =
     (if dw_spill w \<noteq> [] then (Some (last (dw_spill w)), w\<lparr>dw_spill := butlast (dw_spill w)\<rparr>)
      else if dw_inline w \<noteq> [] then (Some (last (dw_inline w)), w\<lparr>dw_inline := butlast (dw_inline w)\<rparr>)
      else (None, w))"

section \<open>Releasing dead cells\<close>

partial_function (option) release_linear :: "heap \<Rightarrow> address \<Rightarrow> (address option \<times> heap) option" where
  "release_linear h p = do {
     c \<leftarrow> h p;
     let header = header_word c;
     if \<not> is_compact header \<or> 2 < compact_fields header then Some (Some p, h)
     else let children = compact_children c
       in if 1 < length children then Some (Some p, h)
          else let h1 = h(p := None)
            in case children of
                 [] \<Rightarrow> Some (None, h1)
               | child # _ \<Rightarrow> do {
                   (dead, h2) \<leftarrow> rc_dec_is_dead h1 child;
                   if dead then release_linear h2 child else Some (None, h2) } }"

definition release_compact :: "heap \<Rightarrow> address \<Rightarrow> drop_work \<Rightarrow> (bool \<times> drop_work \<times> heap) option" where
  "release_compact h p work = do {
     c \<leftarrow> h p;
     if \<not> is_compact (header_word c) then Some (False, work, h)
     else Some (True, fold DropWork_push (compact_children c) work, h(p := None)) }"

text \<open>
  The batches of \<^verbatim>\<open>release_array\<close>, from the end of the array down. The first batch with a boxed
  element suspends the walk: the array, cut to the elements before the batch, goes back on the
  worklist with count one ahead of the batch's elements, unless the batch was the last one.
\<close>

function array_batches :: "heap \<Rightarrow> address \<Rightarrow> cell \<Rightarrow> drop_work \<Rightarrow> nat \<Rightarrow> drop_work \<times> heap" where
  "array_batches h p c work remaining =
     (if remaining = 0 then (work, h(p := None))
      else let start = remaining - (DROP_INLINE - 1);
               batch = boxed_slots c ARRAY_ELEMS_OFFSET (\<lambda>_. False) [start..<remaining]
           in if batch = [] then array_batches h p c work start
              else if 0 < start
              then (fold DropWork_push batch (DropWork_push p work),
                    h(p \<mapsto> c(ARRAY_LEN_OFFSET := of_nat start, RC_OFFSET := 1)))
              else (fold DropWork_push batch work, h(p := None)))"
  by pat_completeness auto
termination
  by (relation "measure (\<lambda>(h, p, c, work, remaining). remaining)") (auto simp: DROP_INLINE_def)

declare array_batches.simps [simp del]

definition release_array :: "descriptors \<Rightarrow> heap \<Rightarrow> address \<Rightarrow> drop_work \<Rightarrow> (drop_work \<times> heap) option" where
  "release_array ds h p work = do {
     c \<leftarrow> h p;
     Some (if array_obj_is_float ds c then (work, h(p := None))
           else array_batches h p c work (unat (c ARRAY_LEN_OFFSET))) }"

definition release_other :: "descriptors \<Rightarrow> heap \<Rightarrow> address \<Rightarrow> drop_work \<Rightarrow> (drop_work \<times> heap) option" where
  "release_other ds h p work = do {
     c \<leftarrow> h p;
     let kind = de_kind (obj_descriptor ds c);
     if kind = KIND_ARRAY then release_array ds h p work
     else if kind \<in> {KIND_INT, KIND_FLOAT, KIND_STRING, KIND_BYTES} then Some (work, h(p := None))
     else if kind \<in> {KIND_DATA, KIND_CLOSURE, KIND_PAP, KIND_STRING_SLICE, KIND_TEXT_PAIRS,
                     KIND_STACK_CLOSURE, KIND_STACK_PAP}
     then Some (fold DropWork_push (scan_children ds c) work, h(p := None))
     else Some (work, h(p := None)) }"

partial_function (option) drain :: "descriptors \<Rightarrow> drop_work \<Rightarrow> heap \<Rightarrow> heap option" where
  "drain ds work h =
     (case DropWork_pop work of
        (None, _) \<Rightarrow> Some h
      | (Some q, work1) \<Rightarrow> do {
          (dead, h1) \<leftarrow> rc_dec_is_dead h q;
          if \<not> dead then drain ds work1 h1
          else do {
            (next, h2) \<leftarrow> release_linear h1 q;
            case next of
              None \<Rightarrow> drain ds work1 h2
            | Some q' \<Rightarrow> do {
                (done, work2, h3) \<leftarrow> release_compact h2 q' work1;
                if done then drain ds work2 h3
                else do {
                  (work3, h4) \<leftarrow> release_other ds h3 q' work2;
                  drain ds work3 h4 } } } })"

definition release_branching :: "descriptors \<Rightarrow> heap \<Rightarrow> address \<Rightarrow> heap option" where
  "release_branching ds h p = do {
     (done, work, h1) \<leftarrow> release_compact h p DropWork_new;
     (work2, h2) \<leftarrow> (if done then Some (work, h1) else release_other ds h1 p work);
     drain ds work2 h2 }"

definition release_dead :: "descriptors \<Rightarrow> heap \<Rightarrow> address \<Rightarrow> heap option" where
  "release_dead ds h p = do {
     (next, h1) \<leftarrow> release_linear h p;
     case next of None \<Rightarrow> Some h1 | Some q \<Rightarrow> release_branching ds h1 q }"

definition fai_drop :: "descriptors \<Rightarrow> heap \<Rightarrow> fai_value \<Rightarrow> heap option" where
  "fai_drop ds h v =
     (if \<not> is_boxed v then Some h
      else do {
        (dead, h1) \<leftarrow> rc_dec_is_dead h v;
        if dead then release_dead ds h1 v else Some h1 })"

section \<open>Sharing\<close>

definition mark_shared_one :: "descriptors \<Rightarrow> heap \<Rightarrow> address \<Rightarrow> drop_work \<Rightarrow> (drop_work \<times> heap) option" where
  "mark_shared_one ds h p work = do {
     c \<leftarrow> h p;
     let (changed, w) = mark_shared_word (header_word c);
     Some (if changed then (fold DropWork_push (scan_children ds c) work, write_header h p w) else (work, h)) }"

partial_function (option) mark_loop :: "descriptors \<Rightarrow> drop_work \<Rightarrow> heap \<Rightarrow> heap option" where
  "mark_loop ds work h =
     (case DropWork_pop work of
        (None, _) \<Rightarrow> Some h
      | (Some w, work1) \<Rightarrow> do { (work2, h1) \<leftarrow> mark_shared_one ds h w work1; mark_loop ds work2 h1 })"

definition fai_mark_shared :: "descriptors \<Rightarrow> heap \<Rightarrow> fai_value \<Rightarrow> heap option" where
  "fai_mark_shared ds h v =
     (if \<not> is_boxed v then Some h
      else do { (work, h1) \<leftarrow> mark_shared_one ds h v DropWork_new; mark_loop ds work h1 })"

section \<open>Data cells\<close>

definition write_fields :: "nat \<Rightarrow> fai_value list \<Rightarrow> cell \<Rightarrow> cell" where
  "write_fields offset vs c = fold (\<lambda>(i, v) c. c(offset + i * 8 := v)) (enumerate 0 vs) c"

text \<open>\<open>p\<close> is the address \<^verbatim>\<open>alloc_raw\<close> returns and \<open>p0\<close> what the storage holds then.\<close>

definition fai_make_data_scalar ::
  "descriptors \<Rightarrow> address \<Rightarrow> cell \<Rightarrow> heap \<Rightarrow> u64 \<Rightarrow> u64 \<Rightarrow> fai_value list \<Rightarrow> (fai_value \<times> heap) option" where
  "fai_make_data_scalar ds p p0 h desc tag vs = do {
     lay \<leftarrow> DataLayout_new tag (length vs) (de_scalar_bitmap (ds desc));
     let c = write_fields (dl_fields_offset lay) vs (DataLayout_initialize lay desc tag p0);
     Some (p, h(p \<mapsto> c)) }"

section \<open>The worklist is a stack\<close>

definition dw_list :: "drop_work \<Rightarrow> fai_value list" where
  "dw_list w = dw_inline w @ dw_spill w"

definition dw_ok :: "drop_work \<Rightarrow> bool" where
  "dw_ok w \<longleftrightarrow> (dw_spill w = [] \<or> length (dw_inline w) = DROP_INLINE) \<and> length (dw_inline w) \<le> DROP_INLINE"

text \<open>What the release loops need of a worklist: a last-in, first-out sequence.\<close>

locale work_stack =
  fixes empty :: 'w and push :: "'v \<Rightarrow> 'w \<Rightarrow> 'w" and pop :: "'w \<Rightarrow> 'v option \<times> 'w"
    and contents :: "'w \<Rightarrow> 'v list" and ok :: "'w \<Rightarrow> bool"
  assumes empty_contents: "contents empty = []" and empty_ok: "ok empty"
    and push_contents: "ok w \<Longrightarrow> contents (push v w) = contents w @ [v] \<and> ok (push v w)"
    and pop_contents: "ok w \<Longrightarrow>
          (case pop w of
             (None, w') \<Rightarrow> contents w = [] \<and> w' = w
           | (Some v, w') \<Rightarrow> contents w = contents w' @ [v] \<and> ok w')"
begin

lemma fold_push: "ok w \<Longrightarrow> contents (fold push vs w) = contents w @ vs \<and> ok (fold push vs w)"
  by (induction vs arbitrary: w) (simp_all add: push_contents)

lemma pop_None: "ok w \<Longrightarrow> fst (pop w) = None \<longleftrightarrow> contents w = []"
  using pop_contents [of w] by (auto split: prod.splits option.splits)

lemma pop_last:
  assumes "ok w" and "pop w = (Some v, w')"
  shows "contents w = contents w' @ [v]" and "ok w'"
  using pop_contents [OF assms(1)] assms(2) by auto

end

interpretation dw: work_stack DropWork_new DropWork_push DropWork_pop dw_list dw_ok
proof
  show "dw_list DropWork_new = []" "dw_ok DropWork_new"
    by (simp_all add: dw_list_def dw_ok_def DropWork_new_def)
  show "dw_list (DropWork_push v w) = dw_list w @ [v] \<and> dw_ok (DropWork_push v w)" if "dw_ok w" for v w
    using that by (auto simp: dw_list_def dw_ok_def DropWork_push_def)
  show "case DropWork_pop w of
      (None, w') \<Rightarrow> dw_list w = [] \<and> w' = w
    | (Some v, w') \<Rightarrow> dw_list w = dw_list w' @ [v] \<and> dw_ok w'" if "dw_ok w" for w
    using that by (auto simp: dw_list_def dw_ok_def DropWork_pop_def)
qed

section \<open>Children do not depend on the count\<close>

lemma boxed_slots_upd: "k < offset \<Longrightarrow> boxed_slots (p(k := w)) offset skip is = boxed_slots p offset skip is"
  by (simp add: boxed_slots_def)

lemma scan_children_upd:
  assumes "metadata_bits w = metadata_bits (header_word c)"
  shows "scan_children ds (c(RC_OFFSET := w)) = scan_children ds c"
proof -
  have h: "header_word (c(RC_OFFSET := w)) = w" by (simp add: header_word_def)
  note m = shape_of_metadata [OF assms]
  have k: "compact_children (c(RC_OFFSET := w)) = compact_children c"
    unfolding compact_children_def Let_def h m
    by (simp add: boxed_slots_upd offset_defs)
  have d: "data_offset (c(RC_OFFSET := w)) = data_offset c" "data_len (c(RC_OFFSET := w)) = data_len c"
    "data_scalars ds (c(RC_OFFSET := w)) = data_scalars ds c" "obj_descriptor ds (c(RC_OFFSET := w)) = obj_descriptor ds c"
    unfolding data_offset_def data_len_def data_scalars_def obj_descriptor_def Let_def h m
    by (simp_all add: offset_defs)
  have o: "0 < data_offset c" by (simp add: data_offset_def offset_defs)
  show ?thesis
    unfolding scan_children_def Let_def h m k d array_obj_is_float_def
    using o by (simp add: boxed_slots_upd offset_defs slot_defs)
qed

section \<open>The counting invariant\<close>

text \<open>
  \<open>refs ds h R p\<close> is the number of references to \<open>p\<close>: those held outside the heap (the multiset \<open>R\<close>: the
  program's owned values and the worklist) and those held by the fields of live cells.
\<close>

definition child_refs :: "descriptors \<Rightarrow> heap \<Rightarrow> address \<Rightarrow> nat" where
  "child_refs ds h p = (\<Sum>q \<in> dom h. count_list (scan_children ds (the (h q))) p)"

definition refs :: "descriptors \<Rightarrow> heap \<Rightarrow> address multiset \<Rightarrow> address \<Rightarrow> nat" where
  "refs ds h R p = count R p + child_refs ds h p"

definition count_ok :: "rc_state \<Rightarrow> nat \<Rightarrow> bool" where
  "count_ok s n \<longleftrightarrow> s = Immortal \<or> (count_of s = n \<and> 0 < n)"

lemma acyclic_add_top:
  assumes "acyclic E" and "\<And>v q. (v, q) \<in> E \<Longrightarrow> v \<noteq> p" and "p \<notin> S"
  shows "acyclic (E \<union> S \<times> {p})"
proof -
  have "(x, y) \<in> (E \<union> S \<times> {p})\<^sup>+ \<Longrightarrow> x \<noteq> p \<and> (y = p \<or> (x, y) \<in> E\<^sup>+)" for x y
  proof (induction rule: trancl_induct)
    case (base y)
    with assms(2,3) show ?case by auto
  next
    case (step y z)
    then have "y \<noteq> p" using assms(2,3) by auto
    with step show ?case by (auto intro: trancl_into_trancl)
  qed
  with assms(1) show ?thesis unfolding acyclic_def by blast
qed

text \<open>Immutable values are built from older ones: no cell is part of itself.\<close>

definition heap_edges :: "descriptors \<Rightarrow> heap \<Rightarrow> (address \<times> address) set" where
  "heap_edges ds h = {(v, p). \<exists>c. h p = Some c \<and> v \<in> set (scan_children ds c)}"

lemma heap_edges_mono:
  assumes "acyclic (heap_edges ds h)"
    and "\<And>p c'. h' p = Some c' \<Longrightarrow> \<exists>c. h p = Some c \<and> set (scan_children ds c') \<subseteq> set (scan_children ds c)"
  shows "acyclic (heap_edges ds h')"
proof (rule acyclic_subset [OF assms(1)])
  show "heap_edges ds h' \<subseteq> heap_edges ds h" unfolding heap_edges_def using assms(2) by fast
qed

lemma heap_edges_upd:
  assumes "acyclic (heap_edges ds h)" and "h p = Some c" and "set (scan_children ds c') \<subseteq> set (scan_children ds c)"
  shows "acyclic (heap_edges ds (h(p \<mapsto> c')))"
  by (rule heap_edges_mono [OF assms(1)]) (use assms in \<open>auto split: if_splits\<close>)

text \<open>
  The invariant: references lead to live cells, no cell is part of itself, and every cell's count is
  the number of references to it, at least one, unless the cell is immortal. \<open>D\<close> is the cell being released, if any: its
  count has reached zero and nothing refers to it.
\<close>

definition rc_inv :: "descriptors \<Rightarrow> heap \<Rightarrow> address multiset \<Rightarrow> address option \<Rightarrow> bool" where
  "rc_inv ds h R D \<longleftrightarrow>
     finite (dom h) \<and> set_mset R \<subseteq> dom h \<and> set_option D \<subseteq> dom h \<and>
     acyclic (heap_edges ds h) \<and>
     (\<forall>p c. h p = Some c \<longrightarrow> set (scan_children ds c) \<subseteq> dom h) \<and>
     (\<forall>p c. h p = Some c \<longrightarrow>
        (if D = Some p then refs ds h R p = 0
         else count_ok (rc_view (header_word c)) (refs ds h R p)))"

lemma rc_invD:
  assumes "rc_inv ds h R D"
  shows "finite (dom h)" and "p \<in># R \<Longrightarrow> \<exists>c. h p = Some c"
    and "h p = Some c \<Longrightarrow> v \<in> set (scan_children ds c) \<Longrightarrow> \<exists>c'. h v = Some c'"
    and "h p = Some c \<Longrightarrow> D \<noteq> Some p \<Longrightarrow> count_ok (rc_view (header_word c)) (refs ds h R p)"
    and "D = Some p \<Longrightarrow> refs ds h R p = 0 \<and> (\<exists>c. h p = Some c)"
    and "acyclic (heap_edges ds h)"
  using assms unfolding rc_inv_def by (auto split: if_splits) blast+

lemma child_refs_same:
  assumes "h p = Some c" and "scan_children ds c' = scan_children ds c"
  shows "child_refs ds (h(p \<mapsto> c')) x = child_refs ds h x"
proof -
  have "dom (h(p \<mapsto> c')) = dom h" using assms(1) by auto
  then show ?thesis
    unfolding child_refs_def using assms by (intro sum.cong) auto
qed

lemma child_refs_remove:
  assumes "finite (dom h)" and "h p = Some c"
  shows "child_refs ds h x = child_refs ds (h(p := None)) x + count_list (scan_children ds c) x"
proof -
  have "child_refs ds h x = count_list (scan_children ds c) x + (\<Sum>q \<in> dom h - {p}. count_list (scan_children ds (the (h q))) x)"
    unfolding child_refs_def using assms by (subst sum.remove [of _ p]) auto
  also have "(\<Sum>q \<in> dom h - {p}. count_list (scan_children ds (the (h q))) x) = child_refs ds (h(p := None)) x"
    unfolding child_refs_def by (intro sum.cong) (auto split: if_splits)
  finally show ?thesis by simp
qed

lemma child_refs_ge:
  assumes "finite (dom h)" and "h p = Some c"
  shows "count_list (scan_children ds c) x \<le> child_refs ds h x"
  using child_refs_remove [of h p c ds x, OF assms] by simp

section \<open>Steps that keep the invariant\<close>

definition weight :: "descriptors \<Rightarrow> heap \<Rightarrow> nat" where
  "weight ds h = (\<Sum>q \<in> dom h. 2 * length (scan_children ds (the (h q))) + 1)"

lemma weight_same:
  assumes "h p = Some c" and "scan_children ds c' = scan_children ds c"
  shows "weight ds (h(p \<mapsto> c')) = weight ds h"
proof -
  have "dom (h(p \<mapsto> c')) = dom h" using assms(1) by auto
  then show ?thesis unfolding weight_def using assms by (intro sum.cong) auto
qed

lemma weight_remove:
  assumes "finite (dom h)" and "h p = Some c"
  shows "weight ds h = weight ds (h(p := None)) + 2 * length (scan_children ds c) + 1"
proof -
  have "weight ds h = 2 * length (scan_children ds c) + 1 + (\<Sum>q \<in> dom h - {p}. 2 * length (scan_children ds (the (h q))) + 1)"
    unfolding weight_def using assms by (subst sum.remove [of _ p]) auto
  also have "(\<Sum>q \<in> dom h - {p}. 2 * length (scan_children ds (the (h q))) + 1) = weight ds (h(p := None))"
    unfolding weight_def by (intro sum.cong) (auto split: if_splits)
  finally show ?thesis by simp
qed

lemma with_count_simps [simp]:
  "with_count s n = Immortal \<longleftrightarrow> s = Immortal" "s \<noteq> Immortal \<Longrightarrow> count_of (with_count s n) = n"
  by (cases s; simp)+

lemma write_header_Some: "h p = Some c \<Longrightarrow> write_header h p w = h(p \<mapsto> c(RC_OFFSET := w))"
  by (simp add: write_header_def)

lemma write_header_same: "h p = Some c \<Longrightarrow> write_header h p (header_word c) = h"
  by (auto simp: write_header_def header_word_def)

lemma header_word_upd [simp]: "header_word (c(RC_OFFSET := w)) = w"
  by (simp add: header_word_def)

text \<open>A new count in a cell's header, with the references it accounts for.\<close>

lemma rc_inv_header:
  assumes inv: "rc_inv ds h R D" and p: "h p = Some c" and m: "metadata_bits w = metadata_bits (header_word c)"
    and R': "set_mset R' \<subseteq> dom h" "\<And>q. q \<noteq> p \<Longrightarrow> count R' q = count R q"
    and D': "D' = (if E then Some p else None)" "D = None \<or> D = Some p"
    and ok: "if E then refs ds h R' p = 0 else count_ok (rc_view w) (refs ds h R' p)"
  shows "rc_inv ds (write_header h p w) R' D'"
proof -
  let ?c = "c(RC_OFFSET := w)" let ?h = "h(p \<mapsto> ?c)"
  have s: "scan_children ds ?c = scan_children ds c" by (rule scan_children_upd [OF m])
  have dom: "dom ?h = dom h" using p by auto
  have refs: "refs ds ?h R' q = refs ds h R' q" for q
    unfolding refs_def by (simp only: child_refs_same [of h p c ds ?c, OF p s])
  have other: "refs ds h R' q = refs ds h R q" if "q \<noteq> p" for q unfolding refs_def by (simp only: R'(2) [OF that])
  have cell: "if D' = Some q then refs ds ?h R' q = 0 else count_ok (rc_view (header_word d)) (refs ds ?h R' q)"
    if "?h q = Some d" for q d
  proof (cases "q = p")
    case True
    with that have "d = ?c" by simp
    with True ok D' refs show ?thesis by (auto split: if_splits)
  next
    case False
    with that have "h q = Some d" by simp
    from rc_invD(4) [of ds h R D q d, OF inv this] False D' refs other [OF False] show ?thesis by (auto split: if_splits)
  qed
  have kids: "set (scan_children ds d) \<subseteq> dom ?h" if "?h q = Some d" for q d
    using that s inv p unfolding dom rc_inv_def by (auto split: if_splits)
  have "acyclic (heap_edges ds ?h)" by (rule heap_edges_upd [of ds h p c ?c, OF rc_invD(6) [OF inv] p]) (simp add: s)
  moreover have "finite (dom h)" using inv by (simp add: rc_inv_def)
  ultimately show ?thesis
    using cell kids R'(1) D' p
    unfolding write_header_Some [of h p c, OF p] rc_inv_def dom by (auto split: if_splits)
qed

lemma rc_dec_step:
  assumes inv: "rc_inv ds h (add_mset p R) None"
  shows "\<exists>dead h'. rc_dec_is_dead h p = Some (dead, h') \<and> rc_inv ds h' R (if dead then Some p else None) \<and>
    weight ds h' = weight ds h \<and> dom h' = dom h"
proof -
  obtain c where p: "h p = Some c" using rc_invD(2) [OF inv] by auto
  have ok: "count_ok (rc_view (header_word c)) (refs ds h (add_mset p R) p)" using rc_invD(4) [OF inv p] by simp
  have R: "set_mset R \<subseteq> dom h" using inv by (simp add: rc_inv_def)
  let ?w = "header_word c"
  show ?thesis
  proof (cases "rc_view ?w = Immortal")
    case True
    then have "rc_dec_is_dead h p = Some (False, h)"
      using rc_immortal(2) [OF True] p write_header_same [of h p c, OF p] by (simp add: rc_dec_is_dead_def)
    moreover have "rc_inv ds (write_header h p ?w) R (if False then Some p else None)"
      by (rule rc_inv_header [OF inv p refl R, where E = False]) (use True in \<open>auto simp: count_ok_def\<close>)
    ultimately show ?thesis using write_header_same [of h p c, OF p] by auto
  next
    case False
    with ok have n: "count_of (rc_view ?w) = refs ds h R p + 1" by (simp add: count_ok_def refs_def)
    note d = rc_dec_counted [of ?w, OF False]
    let ?dead = "count_of (rc_view ?w) = 1"
    have "rc_inv ds (write_header h p (?w - 1)) R (if ?dead then Some p else None)"
      by (rule rc_inv_header [OF inv p _ R, where E = ?dead]) (use d n False in \<open>auto simp: count_ok_def\<close>)
    moreover have "rc_dec_is_dead h p = Some (?dead, write_header h p (?w - 1))"
      using p d(1) n by (simp add: rc_dec_is_dead_def)
    moreover have "weight ds (write_header h p (?w - 1)) = weight ds h"
      unfolding write_header_Some [of h p c, OF p] by (rule weight_same [of h p c, OF p scan_children_upd]) (use d(3) n in simp)
    moreover have "dom (write_header h p (?w - 1)) = dom h" using p by (auto simp: write_header_Some [of h p c, OF p])
    ultimately show ?thesis by blast
  qed
qed

lemma rc_inv_free:
  assumes inv: "rc_inv ds h R (Some p)" and p: "h p = Some c"
  shows "rc_inv ds (h(p := None)) (R + mset (scan_children ds c)) None"
proof -
  let ?h = "h(p := None)" let ?R = "R + mset (scan_children ds c)"
  have fin: "finite (dom h)" using inv by (simp add: rc_inv_def)
  have zero: "refs ds h R p = 0" using rc_invD(5) [OF inv] by simp
  then have noR: "p \<notin># R" by (simp add: refs_def not_in_iff)
  have nokid: "p \<notin> set (scan_children ds d)" if "h q = Some d" for q d
    using child_refs_ge [of h q d ds p, OF fin that] zero by (simp add: refs_def) (metis count_list_0_iff)
  have refs: "refs ds ?h ?R q = refs ds h R q" for q
    unfolding refs_def using child_refs_remove [of h p c ds q, OF fin p] by (simp add: count_mset)
  have dom: "dom ?h = dom h - {p}" by auto
  have "set (scan_children ds d) \<subseteq> dom h - {p}" if "h q = Some d" for q d
    using nokid [OF that] that inv unfolding rc_inv_def by blast
  moreover have "set_mset R \<subseteq> dom h - {p}" using noR inv by (auto simp: rc_inv_def)
  moreover have "count_ok (rc_view (header_word d)) (refs ds ?h ?R q)" if "h q = Some d" "q \<noteq> p" for q d
    using rc_invD(4) [OF inv that(1)] that(2) refs by simp
  moreover have "acyclic (heap_edges ds ?h)"
    by (rule heap_edges_mono [OF rc_invD(6) [OF inv]]) (auto split: if_splits)
  ultimately show ?thesis
    unfolding rc_inv_def dom using fin p by auto
qed

section \<open>Releasing keeps the invariant\<close>

lemma scan_children_compact: "is_compact (header_word c) \<Longrightarrow> scan_children ds c = compact_children c"
  by (simp add: scan_children_def)

lemma release_linear_inv:
  "rc_inv ds h R (Some p) \<Longrightarrow>
   \<exists>r h'. release_linear h p = Some (r, h') \<and> rc_inv ds h' R r \<and> weight ds h' \<le> weight ds h"
proof (induction "weight ds h" arbitrary: h p rule: less_induct)
  case less
  obtain c where p: "h p = Some c" using rc_invD(5) [OF less.prems] by blast
  let ?kids = "compact_children c"
  show ?case
  proof (cases "\<not> is_compact (header_word c) \<or> 2 < compact_fields (header_word c) \<or> 1 < length ?kids")
    case True
    then have "release_linear h p = Some (Some p, h)"
      using p by (subst release_linear.simps) (auto simp: Let_def)
    with less.prems show ?thesis by auto
  next
    case False
    then have kids: "scan_children ds c = ?kids" by (simp add: scan_children_compact)
    let ?h = "h(p := None)"
    have inv: "rc_inv ds ?h (R + mset ?kids) None" using rc_inv_free [of ds h R p c] less.prems p kids by simp
    have fin: "finite (dom h)" by (rule rc_invD(1) [OF less.prems])
    have w: "weight ds h = weight ds ?h + 2 * length ?kids + 1"
      using weight_remove [of h p c ds, OF fin p] kids by simp
    show ?thesis
    proof (cases ?kids)
      case Nil
      then have "release_linear h p = Some (None, ?h)"
        using p False by (subst release_linear.simps) (auto simp: Let_def)
      with inv Nil w show ?thesis by auto
    next
      case (Cons child rest)
      with False have rest: "rest = []" by (cases rest) auto
      with inv Cons have "rc_inv ds ?h (add_mset child R) None" by simp
      from rc_dec_step [OF this] obtain dead h2 where d: "rc_dec_is_dead ?h child = Some (dead, h2)"
        "rc_inv ds h2 R (if dead then Some child else None)" "weight ds h2 = weight ds ?h" by blast
      have step: "release_linear h p = (if dead then release_linear h2 child else Some (None, h2))"
        using p False Cons d(1) by (subst release_linear.simps) (simp add: Let_def)
      show ?thesis
      proof (cases dead)
        case True
        with less.hyps [of h2 child] d w obtain r h' where
          "release_linear h2 child = Some (r, h')" "rc_inv ds h' R r" "weight ds h' \<le> weight ds h2" by auto
        with True step d(3) w show ?thesis by auto
      next
        case False
        with step d w show ?thesis by auto
      qed
    qed
  qed
qed

text \<open>
  What a release of the dead cell \<open>p\<close> onto the worklist must do: push references that account for
  what the cell held, never more work than the cell weighed.
\<close>

definition releases :: "descriptors \<Rightarrow> heap \<Rightarrow> address multiset \<Rightarrow> drop_work \<Rightarrow> drop_work \<Rightarrow> heap \<Rightarrow> bool" where
  "releases ds h R work work' h' \<longleftrightarrow>
     (\<exists>new. dw_ok work' \<and> dw_list work' = dw_list work @ new \<and> rc_inv ds h' (R + mset new) None \<and>
        length new + weight ds h' \<le> weight ds h)"

lemma releases_free:
  assumes inv: "rc_inv ds h R (Some p)" and p: "h p = Some c" and ok: "dw_ok work"
    and kids: "vs = scan_children ds c"
  shows "releases ds h R work (fold DropWork_push vs work) (h(p := None))"
  unfolding releases_def
  using dw.fold_push [OF ok, of vs] rc_inv_free [OF inv p] weight_remove [of h p c ds, OF rc_invD(1) [OF inv] p] kids
  by (intro exI [of _ vs]) simp

lemma releases_suspend:
  assumes inv: "rc_inv ds h R (Some p)" and p: "h p = Some c" and ok: "dw_ok work"
    and split: "scan_children ds c = scan_children ds c' @ batch" and ne: "batch \<noteq> []"
    and one: "rc_view (header_word c') = Local 1"
  shows "releases ds h R work (fold DropWork_push batch (DropWork_push p work)) (h(p \<mapsto> c'))"
proof -
  let ?h = "h(p \<mapsto> c')" let ?new = "p # batch"
  have fin: "finite (dom h)" by (rule rc_invD(1) [OF inv])
  have fin': "finite (dom ?h)" using fin by simp
  have p': "?h p = Some c'" by simp
  have rm: "?h(p := None) = h(p := None)" by auto
  have kids: "child_refs ds h x = child_refs ds ?h x + count_list batch x" for x
    using child_refs_remove [of h p c ds x, OF fin p] child_refs_remove [of ?h p c' ds x, OF fin' p'] split
    unfolding rm by simp
  have refs: "refs ds ?h (R + mset ?new) q = refs ds h R q + (if q = p then 1 else 0)" for q
    unfolding refs_def using kids [of q] by (simp add: count_mset)
  have w: "weight ds h = weight ds ?h + 2 * length batch"
    using weight_remove [of h p c ds, OF fin p] weight_remove [of ?h p c' ds, OF fin' p'] split unfolding rm by simp
  have dom: "dom ?h = dom h" using p by auto
  have zero: "refs ds h R p = 0" using rc_invD(5) [OF inv] by simp
  have cell: "count_ok (rc_view (header_word d)) (refs ds ?h (R + mset ?new) q)" if "?h q = Some d" for q d
  proof (cases "q = p")
    case True
    with that refs zero one show ?thesis by (simp add: count_ok_def)
  next
    case False
    with that have "h q = Some d" by simp
    from rc_invD(4) [of ds h R "Some p" q d, OF inv this] False refs show ?thesis by simp
  qed
  have live: "set (scan_children ds d) \<subseteq> dom h" if "h q = Some d" for q d
    using that inv unfolding rc_inv_def by blast
  have kids_live: "set (scan_children ds d) \<subseteq> dom ?h" if "?h q = Some d" for q d
    using that live [of p c] live [of q d] split p unfolding dom by (auto split: if_splits)
  have ac: "acyclic (heap_edges ds ?h)"
    by (rule heap_edges_upd [of ds h p c c', OF rc_invD(6) [OF inv] p]) (simp add: split)
  have "rc_inv ds ?h (R + mset ?new) None"
    using ac cell kids_live live [of p c] p split inv fin unfolding rc_inv_def dom by (auto simp: dom_def)
  moreover have "length ?new + weight ds ?h \<le> weight ds h" using w ne by (cases batch) simp_all
  moreover have "dw_ok (DropWork_push p work)" "dw_list (DropWork_push p work) = dw_list work @ [p]"
    using dw.push_contents [OF ok, of p] by simp_all
  ultimately show ?thesis
    unfolding releases_def using dw.fold_push [of "DropWork_push p work" batch]
    by (intro exI [of _ ?new]) simp
qed

lemma boxed_slots_append:
  "boxed_slots c off skip (is @ js) = boxed_slots c off skip is @ boxed_slots c off skip js"
  by (simp add: boxed_slots_def)

lemma upt_split3: "(start :: nat) \<le> m \<Longrightarrow> m \<le> n \<Longrightarrow> [0..<n] = [0..<start] @ [start..<m] @ [m..<n]"
  by (metis append.assoc le_Suc_ex le0 order_trans upt_add_eq_append)

lemma scan_children_array:
  assumes "\<not> is_compact (header_word c)" and "de_kind (obj_descriptor ds c) = KIND_ARRAY" and "\<not> array_obj_is_float ds c"
  shows "scan_children ds c = boxed_slots c ARRAY_ELEMS_OFFSET (\<lambda>_. False) [0..<unat (c ARRAY_LEN_OFFSET)]"
  using assms by (simp add: scan_children_def kind_defs)

lemma scan_children_cut:
  assumes arr: "de_kind (obj_descriptor ds c) = KIND_ARRAY" "\<not> array_obj_is_float ds c" and n: "n < 2 ^ 64"
  shows "scan_children ds (c(ARRAY_LEN_OFFSET := of_nat n, RC_OFFSET := 1)) =
    boxed_slots c ARRAY_ELEMS_OFFSET (\<lambda>_. False) [0..<n]"
proof -
  let ?c = "c(ARRAY_LEN_OFFSET := of_nat n, RC_OFFSET := 1)"
  have "obj_descriptor ds ?c = obj_descriptor ds c"
    by (simp add: obj_descriptor_def offset_defs slot_defs)
  moreover have "\<not> is_compact (header_word ?c)" by (simp add: not_compact_1)
  moreover have "unat (?c ARRAY_LEN_OFFSET) = n" using unat_of_nat64 [OF n] by (simp add: offset_defs slot_defs)
  ultimately show ?thesis
    using arr by (subst scan_children_array) (simp_all add: array_obj_is_float_def boxed_slots_upd offset_defs slot_defs)
qed

lemma array_batches_releases:
  assumes inv: "rc_inv ds h R (Some p)" and p: "h p = Some c" and ok: "dw_ok work"
    and arr: "\<not> is_compact (header_word c)" "de_kind (obj_descriptor ds c) = KIND_ARRAY" "\<not> array_obj_is_float ds c"
  shows "m \<le> unat (c ARRAY_LEN_OFFSET) \<Longrightarrow>
    boxed_slots c ARRAY_ELEMS_OFFSET (\<lambda>_. False) [m..<unat (c ARRAY_LEN_OFFSET)] = [] \<Longrightarrow>
    array_batches h p c work m = (work', h') \<Longrightarrow> releases ds h R work work' h'"
proof (induction m rule: less_induct)
  case (less m)
  let ?n = "unat (c ARRAY_LEN_OFFSET)" let ?slots = "boxed_slots c ARRAY_ELEMS_OFFSET (\<lambda>_. False)"
  let ?start = "m - (DROP_INLINE - 1)" let ?batch = "?slots [?start..<m]"
  note kids = scan_children_array [OF arr]
  have split: "?slots [0..<?n] = ?slots [0..<?start] @ ?batch"
    using upt_split3 [of ?start m ?n] less.prems(1,2) by (simp add: boxed_slots_append)
  consider "m = 0" | "0 < m" "?batch = []" | "0 < m" "?batch \<noteq> []" "?start = 0" | "0 < m" "?batch \<noteq> []" "0 < ?start" by blast
  then show ?case
  proof cases
    case 1
    with less.prems have "work' = work" "h' = h(p := None)" "scan_children ds c = []"
      by (auto simp: array_batches.simps [of h p c work 0] kids)
    with releases_free [OF inv p ok, of "[]"] show ?thesis by (simp add: fun_upd_def)
  next
    case 2
    have "?start < m" "?start \<le> ?n" using 2(1) less.prems(1) by (auto simp: DROP_INLINE_def)
    moreover have "?slots [?start..<?n] = []"
      using 2(2) less.prems(1,2) boxed_slots_append [of c ARRAY_ELEMS_OFFSET "\<lambda>_. False" "[?start..<m]" "[m..<?n]"]
      by (metis append_Nil2 diff_le_self le_add_diff_inverse upt_add_eq_append)
    moreover have "array_batches h p c work ?start = (work', h')"
      using 2 less.prems(3) by (simp add: array_batches.simps [of h p c work m] Let_def)
    ultimately show ?thesis by (rule less.IH)
  next
    case 3
    with less.prems(3) have "work' = fold DropWork_push ?batch work" "h' = h(p := None)"
      by (auto simp: array_batches.simps [of h p c work m] Let_def)
    with releases_free [OF inv p ok, of ?batch] 3 kids split show ?thesis by (simp add: boxed_slots_def fun_upd_def)
  next
    case 4
    let ?c = "c(ARRAY_LEN_OFFSET := of_nat ?start, RC_OFFSET := 1)"
    from 4 less.prems(3) have e: "work' = fold DropWork_push ?batch (DropWork_push p work)" "h' = h(p \<mapsto> ?c)"
      by (auto simp: array_batches.simps [of h p c work m] Let_def)
    have "unat (c ARRAY_LEN_OFFSET) < 2 ^ 64" using unsigned_less [of "c ARRAY_LEN_OFFSET"] by simp
    then have "?start < 2 ^ 64" using less.prems(1) by (meson diff_le_self le_trans not_le)
    from scan_children_cut [OF arr(2,3) this] have kids': "scan_children ds ?c = ?slots [0..<?start]" .
    show ?thesis unfolding e
      by (rule releases_suspend [OF inv p ok]) (use 4 kids kids' split in \<open>simp_all add: rc_view_1\<close>)
  qed
qed

lemma release_compact_inv:
  assumes inv: "rc_inv ds h R (Some p)" and ok: "dw_ok work"
  shows "\<exists>done work' h'. release_compact h p work = Some (done, work', h') \<and>
    (if done then releases ds h R work work' h'
     else work' = work \<and> h' = h \<and> (\<forall>c. h p = Some c \<longrightarrow> \<not> is_compact (header_word c)))"
proof -
  obtain c where p: "h p = Some c" using rc_invD(5) [OF inv] by blast
  show ?thesis
  proof (cases "is_compact (header_word c)")
    case True
    with releases_free [OF inv p ok scan_children_compact [symmetric, OF True]] p show ?thesis
      by (auto simp: release_compact_def)
  next
    case False
    with p show ?thesis by (auto simp: release_compact_def)
  qed
qed

lemma scan_children_leaf:
  assumes "\<not> is_compact (header_word c)"
    and "de_kind (obj_descriptor ds c) \<notin> {KIND_ARRAY, KIND_DATA, KIND_CLOSURE, KIND_PAP, KIND_STRING_SLICE, KIND_TEXT_PAIRS, KIND_STACK_CLOSURE, KIND_STACK_PAP}"
  shows "scan_children ds c = []"
  using assms by (simp add: scan_children_def Let_def)

lemma release_other_inv:
  assumes inv: "rc_inv ds h R (Some p)" and ok: "dw_ok work"
    and plain: "\<And>c. h p = Some c \<Longrightarrow> \<not> is_compact (header_word c)"
  shows "\<exists>work' h'. release_other ds h p work = Some (work', h') \<and> releases ds h R work work' h'"
proof -
  obtain c where p: "h p = Some c" using rc_invD(5) [OF inv] by blast
  let ?kind = "de_kind (obj_descriptor ds c)"
  let ?scan = "{KIND_DATA, KIND_CLOSURE, KIND_PAP, KIND_STRING_SLICE, KIND_TEXT_PAIRS, KIND_STACK_CLOSURE, KIND_STACK_PAP}"
  note plain = plain [OF p]
  consider (arr) "?kind = KIND_ARRAY" | (scan) "?kind \<in> ?scan" | (leaf) "?kind \<noteq> KIND_ARRAY" "?kind \<notin> ?scan" by blast
  then show ?thesis
  proof cases
    case arr
    show ?thesis
    proof (cases "array_obj_is_float ds c")
      case True
      then have "scan_children ds c = []" using arr plain by (simp add: scan_children_def kind_defs)
      with releases_free [OF inv p ok, of "[]"] True arr p show ?thesis
        by (simp add: release_other_def release_array_def)
    next
      case False
      obtain work' h' where b: "array_batches h p c work (unat (c ARRAY_LEN_OFFSET)) = (work', h')" by fastforce
      have "releases ds h R work work' h'"
        by (rule array_batches_releases [OF inv p ok plain arr False order_refl _ b]) (simp add: boxed_slots_def)
      with False arr p b show ?thesis by (simp add: release_other_def release_array_def)
    qed
  next
    case scan
    then have "?kind \<notin> {KIND_INT, KIND_FLOAT, KIND_STRING, KIND_BYTES}" "?kind \<noteq> KIND_ARRAY"
      by (auto simp: kind_defs)
    with scan p releases_free [OF inv p ok refl] show ?thesis by (simp add: release_other_def Let_def)
  next
    case leaf
    then have "scan_children ds c = []" using plain by (intro scan_children_leaf) auto
    with releases_free [OF inv p ok, of "[]"] leaf p show ?thesis
      by (auto simp: release_other_def Let_def)
  qed
qed

lemma drain_inv:
  "dw_ok work \<Longrightarrow> rc_inv ds h (R + mset (dw_list work)) None \<Longrightarrow>
   \<exists>h'. drain ds work h = Some h' \<and> rc_inv ds h' R None"
proof (induction "length (dw_list work) + weight ds h" arbitrary: work h rule: less_induct)
  case less
  show ?case
  proof (cases "DropWork_pop work")
    case (Pair v work1)
    show ?thesis
    proof (cases v)
      case None
      then have "dw_list work = []" using dw.pop_None [OF less.prems(1)] Pair by simp
      with None Pair less.prems(2) show ?thesis by (subst drain.simps) simp
    next
      case (Some q)
      have w1: "dw_list work = dw_list work1 @ [q]" "dw_ok work1"
        using dw.pop_last [OF less.prems(1)] Pair Some by auto
      then have "rc_inv ds h (add_mset q (R + mset (dw_list work1))) None" using less.prems(2) by simp
      from rc_dec_step [OF this] obtain dead h1 where d: "rc_dec_is_dead h q = Some (dead, h1)"
        "rc_inv ds h1 (R + mset (dw_list work1)) (if dead then Some q else None)" "weight ds h1 = weight ds h" by blast
      have IH: "\<exists>h'. drain ds work' h'' = Some h' \<and> rc_inv ds h' R None"
        if "dw_ok work'" "rc_inv ds h'' (R + mset (dw_list work')) None" "length (dw_list work') + weight ds h'' \<le> length (dw_list work1) + weight ds h"
        for work' h''
        using less.hyps [OF _ that(1,2)] that(3) w1(1) by simp
      show ?thesis
      proof (cases dead)
        case False
        then have "drain ds work h = drain ds work1 h1" using Pair Some d(1) by (subst drain.simps) simp
        with IH [of work1 h1] w1(2) d False show ?thesis by simp
      next
        case True
        with d release_linear_inv [of ds h1 "R + mset (dw_list work1)" q] obtain r h2 where
          r: "release_linear h1 q = Some (r, h2)" "rc_inv ds h2 (R + mset (dw_list work1)) r" "weight ds h2 \<le> weight ds h" by auto
        show ?thesis
        proof (cases r)
          case None
          then have "drain ds work h = drain ds work1 h2" using Pair Some d(1) True r(1) by (subst drain.simps) simp
          with IH [of work1 h2] w1(2) r None show ?thesis by simp
        next
          case (Some q')
          from r(2) Some have inv: "rc_inv ds h2 (R + mset (dw_list work1)) (Some q')" by simp
          from release_compact_inv [OF inv w1(2)] obtain fin work2 h3 where
            c: "release_compact h2 q' work1 = Some (fin, work2, h3)"
              "if fin then releases ds h2 (R + mset (dw_list work1)) work1 work2 h3
               else work2 = work1 \<and> h3 = h2 \<and> (\<forall>c. h2 q' = Some c \<longrightarrow> \<not> is_compact (header_word c))" by blast
          have fin_rel: "\<exists>h'. drain ds work' h'' = Some h' \<and> rc_inv ds h' R None"
            if "releases ds h2 (R + mset (dw_list work1)) work1 work' h''" for work' h''
          proof -
            from that obtain new where "dw_ok work'" "dw_list work' = dw_list work1 @ new"
              "rc_inv ds h'' (R + mset (dw_list work1) + mset new) None" "length new + weight ds h'' \<le> weight ds h2"
              unfolding releases_def by blast
            with r(3) show ?thesis by (intro IH) (simp_all add: ac_simps)
          qed
          show ?thesis
          proof (cases fin)
            case True
            then have "drain ds work h = drain ds work2 h3"
              using Pair \<open>v = Some q\<close> d(1) \<open>dead\<close> r(1) Some c(1) by (subst drain.simps) simp
            with fin_rel c True show ?thesis by simp
          next
            case False
            with c(2) release_other_inv [OF inv w1(2)] obtain work4 h4 where
              o: "release_other ds h3 q' work2 = Some (work4, h4)" "releases ds h2 (R + mset (dw_list work1)) work1 work4 h4" by auto
            then have "drain ds work h = drain ds work4 h4"
              using Pair \<open>v = Some q\<close> d(1) \<open>dead\<close> r(1) Some c(1) False by (subst drain.simps) simp
            with fin_rel o(2) show ?thesis by simp
          qed
        qed
      qed
    qed
  qed
qed

lemma release_dead_inv:
  assumes "rc_inv ds h R (Some p)"
  shows "\<exists>h'. release_dead ds h p = Some h' \<and> rc_inv ds h' R None"
proof -
  from release_linear_inv [OF assms] obtain r h1 where r: "release_linear h p = Some (r, h1)" "rc_inv ds h1 R r" by blast
  show ?thesis
  proof (cases r)
    case None
    with r show ?thesis by (simp add: release_dead_def)
  next
    case (Some q)
    with r have inv: "rc_inv ds h1 R (Some q)" by simp
    from release_compact_inv [OF inv dw.empty_ok] obtain fin work2 h2 where
      c: "release_compact h1 q DropWork_new = Some (fin, work2, h2)"
        "if fin then releases ds h1 R DropWork_new work2 h2
         else work2 = DropWork_new \<and> h2 = h1 \<and> (\<forall>c. h1 q = Some c \<longrightarrow> \<not> is_compact (header_word c))" by blast
    obtain work3 h3 where w: "(if fin then Some (work2, h2) else release_other ds h2 q work2) = Some (work3, h3)"
      "releases ds h1 R DropWork_new work3 h3"
      using c(2) release_other_inv [OF inv dw.empty_ok] by (cases fin) auto
    then obtain new where "dw_ok work3" "dw_list work3 = new" "rc_inv ds h3 (R + mset new) None"
      unfolding releases_def dw.empty_contents by auto
    with drain_inv [of work3 ds h3 R] w(1) c(1) r(1) Some show ?thesis
      by (auto simp: release_dead_def release_branching_def)
  qed
qed

section \<open>Dup, make and share\<close>

lemma fai_dup_inv:
  assumes inv: "rc_inv ds h R None" and v: "is_boxed v" "h v = Some c"
    and room: "count_of (rc_view (header_word c)) < 2 ^ 37"
  shows "\<exists>h'. fai_dup h v = Some h' \<and> rc_inv ds h' (add_mset v R) None"
proof -
  let ?w = "header_word c"
  have R: "set_mset (add_mset v R) \<subseteq> dom h" using inv v(2) by (auto simp: rc_inv_def)
  have ok: "count_ok (rc_view ?w) (refs ds h R v)" using rc_invD(4) [OF inv v(2)] by simp
  show ?thesis
  proof (cases "rc_view ?w = Immortal")
    case True
    have "rc_inv ds (write_header h v ?w) (add_mset v R) None"
      by (rule rc_inv_header [OF inv v(2) refl R, where E = False]) (use True in \<open>auto simp: count_ok_def\<close>)
    moreover have "fai_dup h v = Some (write_header h v ?w)"
      using v rc_immortal(1) [OF True] by (simp add: fai_dup_def rc_inc_def)
    ultimately show ?thesis by blast
  next
    case False
    note i = rc_inc_counted [OF False]
    have "rc_inv ds (write_header h v (?w + 1)) (add_mset v R) None"
      by (rule rc_inv_header [OF inv v(2) _ R, where E = False])
        (use i room False ok in \<open>auto simp: count_ok_def refs_def\<close>)
    moreover have "fai_dup h v = Some (write_header h v (?w + 1))"
      using v i(1) room by (simp add: fai_dup_def rc_inc_def)
    ultimately show ?thesis by blast
  qed
qed

lemma write_fields_Nil [simp]: "write_fields off [] c = c"
  by (simp add: write_fields_def)

lemma write_fields_other: "(\<And>i. i < length vs \<Longrightarrow> k \<noteq> off + i * 8) \<Longrightarrow> write_fields off vs c k = c k"
proof (induction vs rule: rev_induct)
  case (snoc v vs)
  have "enumerate 0 (vs @ [v]) = enumerate 0 vs @ [(length vs, v)]" by (simp add: enumerate_append_eq)
  then have "write_fields off (vs @ [v]) c = (write_fields off vs c)(off + length vs * 8 := v)"
    by (simp add: write_fields_def)
  with snoc show ?case by (simp add: less_Suc_eq)
qed simp

lemma write_fields_nth: "i < length vs \<Longrightarrow> write_fields off vs c (off + i * 8) = vs ! i"
proof (induction vs rule: rev_induct)
  case (snoc v vs)
  have "enumerate 0 (vs @ [v]) = enumerate 0 vs @ [(length vs, v)]" by (simp add: enumerate_append_eq)
  then have "write_fields off (vs @ [v]) c = (write_fields off vs c)(off + length vs * 8 := v)"
    by (simp add: write_fields_def)
  with snoc show ?case by (cases "i = length vs") (auto simp: nth_append)
qed simp

text \<open>The owned references among the fields of a data cell: the boxed ones in slots that are no floats.\<close>

definition owned_fields :: "u64 \<Rightarrow> fai_value list \<Rightarrow> fai_value list" where
  "owned_fields scalars vs = filter is_boxed (map (\<lambda>i. vs ! i) (filter (\<lambda>i. \<not> slot_float scalars i) [0..<length vs]))"

lemma make_data_cell:
  assumes lay: "DataLayout_new tag (length vs) scalars = Some lay"
    and desc: "ds d = \<lparr>de_kind = KIND_DATA, de_scalar_bitmap = scalars\<rparr>"
    and c: "c = write_fields (dl_fields_offset lay) vs (DataLayout_initialize lay d tag p0)"
  shows "scan_children ds c = owned_fields scalars vs" and "rc_view (header_word c) = Local 1"
    and "data_tag c = tag" and "data_len c = length vs"
proof -
  note lo = DataLayout_newD(1) [OF lay]
  have low: "c k = DataLayout_initialize lay d tag p0 k" if "k < dl_fields_offset lay" for k
    unfolding c by (rule write_fields_other) (use that in auto)
  have h: "header_word c = header_word (DataLayout_initialize lay d tag p0)"
    using low [of RC_OFFSET] lo by (simp add: header_word_def RC_OFFSET_def)
  have e: "c DESC_OFFSET = d \<and> c SIZE_OFFSET = of_nat (dl_size lay) \<and> c DATA_TAG_OFFSET = tag" if "dl_metadata lay = None"
    using that low lo by (simp add: DataLayout_initialize_def offset_defs)
  note sh = data_cell_shape [where ds = ds and d = d and p = c and ?p0.0 = p0, OF lay desc h e]
  show "rc_view (header_word c) = Local 1" "data_tag c = tag" "data_len c = length vs" using sh by blast+
  have "scan_children ds c = boxed_slots c (data_offset c) (slot_is_scalar ds c) [0..<data_len c]"
  proof (cases "is_compact (header_word c)")
    case True
    have "compact_fields (header_word c) \<le> 15"
    proof -
      have "drop_bit COMPACT_FIELDS_SHIFT (header_word c) AND 15 \<le> 15" by (rule word_and_le1)
      then show ?thesis unfolding compact_fields_def by (simp add: word_le_nat_alt)
    qed
    then have "compact_scalars (header_word c) AND push_bit i 1 \<noteq> 0 \<longleftrightarrow> slot_is_scalar ds c i" if "i < compact_fields (header_word c)" for i
      using that True by (simp add: slot_is_scalar_def data_scalars_def Let_def)
    then have "filter (\<lambda>i. \<not> compact_scalars (header_word c) AND push_bit i 1 \<noteq> 0) [0..<compact_fields (header_word c)] =
        filter (\<lambda>i. \<not> slot_is_scalar ds c i) [0..<compact_fields (header_word c)]"
      by (intro filter_cong) (simp_all only: set_upt atLeastLessThan_iff)
    then show ?thesis
      using True unfolding scan_children_def compact_children_def boxed_slots_def data_offset_def data_len_def Let_def
      by (simp only: if_True)
  next
    case False
    then have "de_kind (obj_descriptor ds c) = KIND_DATA"
      using sh(5) by (simp add: object_kind_def)
    with False show ?thesis by (simp add: scan_children_def slot_is_scalar_def [abs_def])
  qed
  also have "\<dots> = owned_fields scalars vs"
  proof -
    have "filter (\<lambda>i. \<not> slot_is_scalar ds c i) [0..<length vs] = filter (\<lambda>i. \<not> slot_float scalars i) [0..<length vs]"
      by (intro filter_cong) (use sh(7) in auto)
    moreover have "c (dl_fields_offset lay + i * 8) = vs ! i" if "i < length vs" for i
      using that by (simp add: c write_fields_nth)
    ultimately have "map (\<lambda>i. c (dl_fields_offset lay + i * 8)) (filter (\<lambda>i. \<not> slot_is_scalar ds c i) [0..<length vs]) =
        map (\<lambda>i. vs ! i) (filter (\<lambda>i. \<not> slot_float scalars i) [0..<length vs])" by simp
    moreover have "data_len c = length vs" "data_offset c = dl_fields_offset lay" using sh(2,3) by blast+
    ultimately show ?thesis unfolding boxed_slots_def owned_fields_def by (simp only:)
  qed
  finally show "scan_children ds c = owned_fields scalars vs" .
qed

lemma rc_inv_add:
  assumes inv: "rc_inv ds h (R + mset (scan_children ds c)) None" and fresh: "h p = None"
    and one: "rc_view (header_word c) = Local 1"
  shows "rc_inv ds (h(p \<mapsto> c)) (add_mset p R) None"
proof -
  let ?h = "h(p \<mapsto> c)"
  have fin: "finite (dom h)" by (rule rc_invD(1) [OF inv])
  have rm: "?h(p := None) = h" using fresh by auto
  have kids: "child_refs ds ?h x = child_refs ds h x + count_list (scan_children ds c) x" for x
    using child_refs_remove [of ?h p c ds x] fin unfolding rm by simp
  have refs: "refs ds ?h (add_mset p R) q = refs ds h (R + mset (scan_children ds c)) q + (if q = p then 1 else 0)" for q
    unfolding refs_def kids by (simp add: count_mset)
  have sub: "set (scan_children ds d) \<subseteq> dom h" if "h q = Some d" for q d using that inv unfolding rc_inv_def by blast
  have "p \<notin> dom h" using fresh by auto
  have own: "set_mset R \<subseteq> dom h" "set (scan_children ds c) \<subseteq> dom h" using inv by (auto simp: rc_inv_def)
  have "child_refs ds h p = 0"
    unfolding child_refs_def using sub \<open>p \<notin> dom h\<close> by (intro sum.neutral) (force simp: count_list_0_iff)
  moreover have "count (R + mset (scan_children ds c)) p = 0" using own \<open>p \<notin> dom h\<close> by (auto simp: count_eq_zero_iff)
  ultimately have zero: "refs ds h (R + mset (scan_children ds c)) p = 0" by (simp add: refs_def)
  have cell: "count_ok (rc_view (header_word d)) (refs ds ?h (add_mset p R) q)" if "?h q = Some d" for q d
  proof (cases "q = p")
    case True
    with that refs zero one show ?thesis by (simp add: count_ok_def)
  next
    case False
    with that have "h q = Some d" by simp
    from rc_invD(4) [of ds h _ None q d, OF inv this] False refs show ?thesis by simp
  qed
  have e: "heap_edges ds ?h = heap_edges ds h \<union> set (scan_children ds c) \<times> {p}"
    using fresh by (auto simp: heap_edges_def split: if_splits)
  have old: "v \<noteq> p" if "(v, q) \<in> heap_edges ds ?h" for v q
    using that sub own(2) \<open>p \<notin> dom h\<close> unfolding e by (auto simp: heap_edges_def)
  have "acyclic (heap_edges ds ?h)"
    unfolding e using rc_invD(6) [OF inv] old by (intro acyclic_add_top) (auto simp: e)
  then show ?thesis
    using cell sub own fin unfolding rc_inv_def by (auto split: if_splits) blast+
qed

subsection \<open>Marking as shared\<close>

definition is_local :: "heap \<Rightarrow> address \<Rightarrow> bool" where
  "is_local h p \<longleftrightarrow> (case h p of None \<Rightarrow> False | Some c \<Rightarrow> \<exists>n. rc_view (header_word c) = Local n)"

definition share_closed :: "descriptors \<Rightarrow> heap \<Rightarrow> address set \<Rightarrow> bool" where
  "share_closed ds h W \<longleftrightarrow>
     (\<forall>p c. h p = Some c \<longrightarrow> \<not> is_local h p \<longrightarrow> (\<forall>v \<in> set (scan_children ds c). is_local h v \<longrightarrow> v \<in> W))"

definition local_weight :: "descriptors \<Rightarrow> heap \<Rightarrow> nat" where
  "local_weight ds h = (\<Sum>q \<in> {q \<in> dom h. is_local h q}. length (scan_children ds (the (h q))) + 1)"

text \<open>Cells change only in the state part of their headers.\<close>

definition same_payload :: "descriptors \<Rightarrow> heap \<Rightarrow> heap \<Rightarrow> bool" where
  "same_payload ds h h' \<longleftrightarrow> dom h' = dom h \<and>
     (\<forall>p c. h p = Some c \<longrightarrow> (\<exists>w. h' p = Some (c(RC_OFFSET := w)) \<and> metadata_bits w = metadata_bits (header_word c)))"

lemma same_payload_refl: "same_payload ds h h"
proof -
  have "c = c(RC_OFFSET := header_word c)" for c by (simp add: header_word_def)
  then show ?thesis unfolding same_payload_def by (metis)
qed

lemma same_payload_trans: "same_payload ds h h' \<Longrightarrow> same_payload ds h' h'' \<Longrightarrow> same_payload ds h h''"
  unfolding same_payload_def by (metis fun_upd_upd header_word_upd)

lemma mark_shared_one_step:
  assumes inv: "rc_inv ds h R None" and p: "h p = Some c" and ok: "dw_ok work"
    and closed: "share_closed ds h (insert p W)" and W: "W = set (dw_list work)"
  shows "\<exists>work' h'. mark_shared_one ds h p work = Some (work', h') \<and> dw_ok work' \<and> rc_inv ds h' R None \<and>
    share_closed ds h' (set (dw_list work')) \<and> set (dw_list work') \<subseteq> W \<union> dom h \<and>
    length (dw_list work') + local_weight ds h' \<le> length (dw_list work) + local_weight ds h \<and>
    \<not> is_local h' p \<and> (\<forall>q. is_local h' q \<longrightarrow> is_local h q) \<and> W \<subseteq> set (dw_list work') \<and> same_payload ds h h'"
proof (cases "is_local h p")
  case False
  then have "mark_shared_word (header_word c) = (False, header_word c)"
    using p rc_immortal(3) mark_shared_shared by (cases "rc_view (header_word c)") (auto simp: is_local_def)
  then have "mark_shared_one ds h p work = Some (work, h)" using p by (simp add: mark_shared_one_def)
  moreover have "share_closed ds h W" using closed False unfolding share_closed_def by blast
  ultimately show ?thesis using ok inv False W same_payload_refl by auto
next
  case True
  then obtain n where n: "rc_view (header_word c) = Local n" using p by (auto simp: is_local_def)
  let ?w = "header_word c OR MT_FLAG" let ?c = "c(RC_OFFSET := ?w)" let ?h = "write_header h p ?w"
  let ?kids = "scan_children ds c" let ?work = "fold DropWork_push ?kids work"
  note m = mark_shared_local [OF n]
  have h: "?h = h(p \<mapsto> ?c)" by (simp add: write_header_Some [of h p c, OF p])
  have dom: "dom ?h = dom h" using p by (auto simp: h)
  have kids: "scan_children ds ?c = ?kids" by (rule scan_children_upd [OF m(3)])
  have fin: "finite (dom h)" by (rule rc_invD(1) [OF inv])
  have loc: "is_local ?h q \<longleftrightarrow> is_local h q \<and> q \<noteq> p" for q
    using p m(2) by (auto simp: is_local_def h)
  have e: "mark_shared_one ds h p work = Some (?work, ?h)" using p m(1) by (simp add: mark_shared_one_def)
  have f: "dw_list ?work = dw_list work @ ?kids" "dw_ok ?work" using dw.fold_push [OF ok] by auto
  have R: "set_mset R \<subseteq> dom h" using inv by (simp add: rc_inv_def)
  have "count_ok (rc_view (header_word c)) (refs ds h R p)" using rc_invD(4) [OF inv p] by simp
  then have inv': "rc_inv ds ?h R None"
    by (intro rc_inv_header [OF inv p m(3) R, where E = False]) (use n m(2) in \<open>auto simp: count_ok_def\<close>)
  have "v \<in> set (dw_list ?work)" if q: "?h q = Some d" "\<not> is_local ?h q" and v: "v \<in> set (scan_children ds d)" "is_local ?h v" for q d v
  proof (cases "q = p")
    case True
    with q(1) v(1) kids have "v \<in> set ?kids" by (simp add: h)
    then show ?thesis by (simp add: f)
  next
    case False
    then have "h q = Some d" "\<not> is_local h q" using q loc by (auto simp: h)
    with closed v loc show ?thesis unfolding share_closed_def W f(1) by auto
  qed
  then have closed': "share_closed ds ?h (set (dw_list ?work))" unfolding share_closed_def by blast
  have sets: "{q \<in> dom h. is_local h q} = insert p {q \<in> dom ?h. is_local ?h q}" "p \<notin> {q \<in> dom ?h. is_local ?h q}"
    unfolding dom loc using True p by auto
  have "local_weight ds h = length ?kids + 1 + (\<Sum>q \<in> {q \<in> dom ?h. is_local ?h q}. length (scan_children ds (the (h q))) + 1)"
    unfolding local_weight_def sets(1) using p fin sets(2) dom by (subst sum.insert) auto
  also have "(\<Sum>q \<in> {q \<in> dom ?h. is_local ?h q}. length (scan_children ds (the (h q))) + 1) = local_weight ds ?h"
    unfolding local_weight_def by (intro sum.cong refl) (use p kids in \<open>auto simp: h\<close>)
  finally have w: "local_weight ds h = length ?kids + 1 + local_weight ds ?h" .
  have "same_payload ds h ?h"
    unfolding same_payload_def dom
  proof (intro conjI allI impI refl)
    fix q d assume q: "h q = Some d"
    show "\<exists>w. ?h q = Some (d(RC_OFFSET := w)) \<and> metadata_bits w = metadata_bits (header_word d)"
    proof (cases "q = p")
      case True
      with q p m(3) show ?thesis unfolding h by (intro exI [of _ ?w]) simp
    next
      case False
      with q show ?thesis unfolding h by (intro exI [of _ "header_word d"]) (simp add: header_word_def)
    qed
  qed
  moreover have "set ?kids \<subseteq> dom h" using inv p unfolding rc_inv_def by blast
  ultimately show ?thesis using e f inv' closed' w loc W by auto
qed

lemma mark_loop_inv:
  "rc_inv ds h R None \<Longrightarrow> dw_ok work \<Longrightarrow> set (dw_list work) \<subseteq> dom h \<Longrightarrow> share_closed ds h (set (dw_list work)) \<Longrightarrow>
   \<exists>h'. mark_loop ds work h = Some h' \<and> rc_inv ds h' R None \<and> share_closed ds h' {} \<and> same_payload ds h h' \<and>
     (\<forall>q. is_local h' q \<longrightarrow> is_local h q)"
proof (induction "length (dw_list work) + local_weight ds h" arbitrary: work h rule: less_induct)
  case less
  obtain v work1 where pop: "DropWork_pop work = (v, work1)" by fastforce
  show ?case
  proof (cases v)
    case None
    then have "dw_list work = []" using dw.pop_None [OF less.prems(2)] pop by simp
    with None pop less.prems same_payload_refl show ?thesis by (subst mark_loop.simps) simp
  next
    case (Some p)
    have w1: "dw_list work = dw_list work1 @ [p]" "dw_ok work1" using dw.pop_last [OF less.prems(2)] pop Some by auto
    obtain c where p: "h p = Some c" using less.prems(3) w1(1) by auto
    have closed: "share_closed ds h (insert p (set (dw_list work1)))" using less.prems(4) w1(1) by simp
    from mark_shared_one_step [OF less.prems(1) p w1(2) closed refl]
    obtain work2 h1 where m: "mark_shared_one ds h p work1 = Some (work2, h1)" "dw_ok work2" "rc_inv ds h1 R None"
      "share_closed ds h1 (set (dw_list work2))" "set (dw_list work2) \<subseteq> set (dw_list work1) \<union> dom h"
      "length (dw_list work2) + local_weight ds h1 \<le> length (dw_list work1) + local_weight ds h"
      "\<forall>q. is_local h1 q \<longrightarrow> is_local h q" "same_payload ds h h1" by (elim exE conjE) (rule that)
    have "dom h1 = dom h" using m(8) by (simp add: same_payload_def)
    then have dom: "set (dw_list work2) \<subseteq> dom h1" using m(5) less.prems(3) w1(1) by auto
    have lt: "length (dw_list work2) + local_weight ds h1 < length (dw_list work) + local_weight ds h"
      using m(6) w1(1) by simp
    from less.hyps [OF lt m(3,2) dom m(4)] obtain h' where
      h': "mark_loop ds work2 h1 = Some h'" "rc_inv ds h' R None" "share_closed ds h' {}" "same_payload ds h1 h'"
        "\<forall>q. is_local h' q \<longrightarrow> is_local h1 q" by (elim exE conjE) (rule that)
    then have "mark_loop ds work h = Some h'" using pop Some m(1) by (subst mark_loop.simps) simp
    with h'(2,3) m(7) h'(5) same_payload_trans [OF m(8) h'(4)] show ?thesis by (intro exI [of _ h']) simp
  qed
qed

inductive reaches :: "descriptors \<Rightarrow> heap \<Rightarrow> address \<Rightarrow> address \<Rightarrow> bool" for ds h where
  reaches_refl: "reaches ds h p p"
| reaches_step: "reaches ds h p q \<Longrightarrow> h q = Some c \<Longrightarrow> v \<in> set (scan_children ds c) \<Longrightarrow> reaches ds h p v"

inductive_cases reaches_cases: "reaches ds h p q"

lemma share_closedD:
  "share_closed ds h {} \<Longrightarrow> h q = Some c \<Longrightarrow> \<not> is_local h q \<Longrightarrow> v \<in> set (scan_children ds c) \<Longrightarrow> \<not> is_local h v"
  unfolding share_closed_def by blast

lemma share_closed_reaches:
  "reaches ds h p q \<Longrightarrow> share_closed ds h {} \<Longrightarrow> \<not> is_local h p \<Longrightarrow> \<not> is_local h q"
  by (induction rule: reaches.induct) (simp, simp add: share_closedD)

lemma fai_mark_shared_inv:
  assumes inv: "rc_inv ds h R None" and v: "is_boxed v" "h v = Some c" and closed: "share_closed ds h {}"
  shows "\<exists>h'. fai_mark_shared ds h v = Some h' \<and> rc_inv ds h' R None \<and> share_closed ds h' {} \<and> same_payload ds h h' \<and> \<not> is_local h' v"
proof -
  have "share_closed ds h (insert v {})" using closed unfolding share_closed_def by auto
  from mark_shared_one_step [OF inv v(2) dw.empty_ok this] obtain work h1 where
    m: "mark_shared_one ds h v DropWork_new = Some (work, h1)" "dw_ok work" "rc_inv ds h1 R None"
      "share_closed ds h1 (set (dw_list work))" "set (dw_list work) \<subseteq> {} \<union> dom h" "\<not> is_local h1 v" "same_payload ds h h1"
    unfolding dw.empty_contents by auto
  have "set (dw_list work) \<subseteq> dom h1" using m(5,7) by (simp add: same_payload_def)
  from mark_loop_inv [OF m(3,2) this m(4)] obtain h' where
    "mark_loop ds work h1 = Some h'" "rc_inv ds h' R None" "share_closed ds h' {}" "same_payload ds h1 h'" "\<not> is_local h' v"
    using m(6) by blast
  with m(1,7) v(1) same_payload_trans show ?thesis by (auto simp: fai_mark_shared_def)
qed

section \<open>Nothing leaks\<close>

lemma live_has_owner:
  assumes inv: "rc_inv ds h R None" and p: "h p = Some c" "rc_view (header_word c) \<noteq> Immortal"
  shows "p \<in># R \<or> (\<exists>q d. h q = Some d \<and> p \<in> set (scan_children ds d))"
proof (rule ccontr)
  assume n: "\<not> ?thesis"
  then have "count R p = 0" by (simp add: not_in_iff)
  moreover have "child_refs ds h p = 0"
    unfolding child_refs_def using n by (intro sum.neutral) (force simp: count_list_0_iff)
  ultimately have "refs ds h R p = 0" by (simp add: refs_def)
  with rc_invD(4) [OF inv p(1)] p(2) show False by (simp add: count_ok_def)
qed

lemma live_reachable:
  assumes inv: "rc_inv ds h R None" and p: "h p = Some c"
  shows "\<exists>r. reaches ds h r p \<and> (r \<in># R \<or> (\<exists>d. h r = Some d \<and> rc_view (header_word d) = Immortal))"
proof -
  let ?E = "heap_edges ds h"
  have "?E \<subseteq> dom h \<times> dom h" using rc_invD(3) [OF inv] by (auto simp: heap_edges_def)
  then have "finite ?E" using rc_invD(1) [OF inv] by (meson finite_SigmaI finite_subset)
  then have wf: "wf (?E\<inverse>)" using rc_invD(6) [OF inv] by (rule finite_acyclic_wf_converse)
  show ?thesis using p
  proof (induction p arbitrary: c rule: wf_induct_rule [OF wf])
    case (1 p)
    show ?case
    proof (cases "rc_view (header_word c) = Immortal \<or> p \<in># R")
      case True
      with 1(2) show ?thesis by (intro exI [of _ p]) (auto intro: reaches_refl)
    next
      case False
      with live_has_owner [OF inv 1(2)] obtain q d where q: "h q = Some d" "p \<in> set (scan_children ds d)" by auto
      then have "(q, p) \<in> ?E\<inverse>" by (auto simp: heap_edges_def)
      from 1(1) [OF this q(1)] obtain r where
        "reaches ds h r q" "r \<in># R \<or> (\<exists>d. h r = Some d \<and> rc_view (header_word d) = Immortal)" by auto
      with reaches_step [of ds h r q d p, OF _ q] show ?thesis by (intro exI [of _ r]) simp
    qed
  qed
qed

section \<open>Properties\<close>

lemma fai_drop_inv:
  assumes inv: "rc_inv ds h (add_mset v R) None" and v: "is_boxed v"
  shows "\<exists>h'. fai_drop ds h v = Some h' \<and> rc_inv ds h' R None"
proof -
  from rc_dec_step [OF inv] obtain dead h1 where
    d: "rc_dec_is_dead h v = Some (dead, h1)" "rc_inv ds h1 R (if dead then Some v else None)" by blast
  show ?thesis
  proof (cases dead)
    case True
    with d release_dead_inv [of ds h1 R v] v show ?thesis by (simp add: fai_drop_def)
  next
    case False
    with d v show ?thesis by (simp add: fai_drop_def)
  qed
qed

lemma fai_make_data_inv:
  assumes inv: "rc_inv ds h (R + mset (owned_fields (de_scalar_bitmap (ds d)) vs)) None"
    and desc: "de_kind (ds d) = KIND_DATA" and fresh: "h p = None"
    and lay: "DataLayout_new tag (length vs) (de_scalar_bitmap (ds d)) = Some lay"
  shows "\<exists>c. fai_make_data_scalar ds p p0 h d tag vs = Some (p, h(p \<mapsto> c)) \<and>
    rc_inv ds (h(p \<mapsto> c)) (add_mset p R) None \<and> rc_view (header_word c) = Local 1 \<and> data_tag c = tag \<and> data_len c = length vs \<and>
    (\<forall>i < length vs. c (dl_fields_offset lay + i * 8) = vs ! i)"
proof -
  let ?c = "write_fields (dl_fields_offset lay) vs (DataLayout_initialize lay d tag p0)"
  have "ds d = \<lparr>de_kind = KIND_DATA, de_scalar_bitmap = de_scalar_bitmap (ds d)\<rparr>" using desc by (cases "ds d") simp
  note c = make_data_cell [where ds = ds and d = d and ?p0.0 = p0, OF lay this refl]
  have "rc_inv ds (h(p \<mapsto> ?c)) (add_mset p R) None"
    by (rule rc_inv_add [of ds h R ?c p, OF _ fresh c(2)]) (use inv c(1) in simp)
  with lay c(2-4) write_fields_nth show ?thesis by (intro exI [of _ ?c]) (simp add: fai_make_data_scalar_def)
qed

lemma rc_inv_empty: "rc_inv ds Map.empty {#} None"
  by (simp add: rc_inv_def heap_edges_def acyclic_def)

text \<open>A heap to try the operations on: a cell with two fields, the integer 3 and another cell.\<close>

definition sample_descriptors :: descriptors where
  "sample_descriptors = (\<lambda>_. \<lparr>de_kind = KIND_DATA, de_scalar_bitmap = 0\<rparr>)"

lemma sample_layout: "length vs \<le> 2 \<Longrightarrow> \<exists>lay. DataLayout_new tag (length (vs :: u64 list)) 0 = Some lay"
  using DataLayout_new_total [of "length vs" tag 0] by (auto simp: MAX_ALLOCATION_SIZE_def)

lemma sample_heap:
  "\<exists>h c d. h = [8 \<mapsto> c, 16 \<mapsto> d] \<and> rc_inv sample_descriptors h {#16#} None \<and>
     rc_view (header_word c) = Local 1 \<and> rc_view (header_word d) = Local 1"
proof -
  let ?ds = sample_descriptors
  have z: "de_kind (?ds 0) = KIND_DATA" "de_scalar_bitmap (?ds 0) = 0" by (simp_all add: sample_descriptors_def)
  obtain l1 l2 where l: "DataLayout_new 5 (length []) 0 = Some l1" "DataLayout_new 6 (length [7 :: u64, 8]) 0 = Some l2"
    using sample_layout [of "[]" 5] sample_layout [of "[7, 8]" 6] by auto
  have k1: "owned_fields 0 [] = []" by (simp add: owned_fields_def)
  have k2: "owned_fields 0 [7 :: u64, 8] = [8]"
    by (simp add: owned_fields_def slot_float_def upt_rec is_boxed_def)
  from fai_make_data_inv [of ?ds Map.empty "{#}" 0 "[]" 8 5 l1] obtain c where
    c: "rc_inv ?ds [8 \<mapsto> c] {#8#} None" "rc_view (header_word c) = Local 1" using rc_inv_empty z l(1) k1 by auto
  from fai_make_data_inv [of ?ds "[8 \<mapsto> c]" "{#}" 0 "[7, 8]" 16 6 l2] obtain d where
    "rc_inv ?ds [8 \<mapsto> c, 16 \<mapsto> d] {#16#} None" "rc_view (header_word d) = Local 1" using c(1) z l(2) k2 by auto
  with c(2) show ?thesis by blast
qed

text \<open>
  C1: dropping an owned boxed value always returns, without reading or writing a reclaimed cell, and
  leaves a heap whose counts are right for the remaining owners; every cell still live is then
  reachable from one of them or from an immortal cell, so nothing dead is kept and nothing live is
  freed.
\<close>

theorem fai_drop_exact:
  assumes "rc_inv ds h (add_mset v R) None" and "is_boxed v"
  shows "\<exists>h'. fai_drop ds h v = Some h' \<and> rc_inv ds h' R None \<and>
    (\<forall>p \<in> dom h'. \<exists>r. reaches ds h' r p \<and> (r \<in># R \<or> (\<exists>d. h' r = Some d \<and> rc_view (header_word d) = Immortal)))"
proof -
  from fai_drop_inv [OF assms] obtain h' where h': "fai_drop ds h v = Some h'" "rc_inv ds h' R None" by blast
  then show ?thesis using live_reachable [OF h'(2)] by (intro exI [of _ h']) auto
qed

theorem fai_drop_exact_witness:
  "\<exists>h h'. 8 \<in> dom h \<and> 16 \<in> dom h \<and> rc_inv sample_descriptors h {#16#} None \<and>
     fai_drop sample_descriptors h 16 = Some h' \<and> rc_inv sample_descriptors h' {#} None"
proof -
  obtain h c d where h: "h = [8 \<mapsto> c, 16 \<mapsto> d]" "rc_inv sample_descriptors h {#16#} None" using sample_heap by blast
  with fai_drop_exact [of sample_descriptors h 16 "{#}"] show ?thesis by - (rule exI [of _ h], auto simp: is_boxed_def)
qed

text \<open>
  C16: a data cell built from a tag and owned field values takes over the ownership of exactly the
  boxed, non-scalar fields; its owner is the caller, and the tag, the length and every field read
  back as given.
\<close>

theorem fai_make_data_owns_fields:
  assumes "rc_inv ds h (R + mset (owned_fields (de_scalar_bitmap (ds d)) vs)) None"
    and "de_kind (ds d) = KIND_DATA" and "h p = None"
    and "DataLayout_new tag (length vs) (de_scalar_bitmap (ds d)) = Some lay"
  shows "\<exists>c. fai_make_data_scalar ds p p0 h d tag vs = Some (p, h(p \<mapsto> c)) \<and>
    rc_inv ds (h(p \<mapsto> c)) (add_mset p R) None \<and> rc_view (header_word c) = Local 1 \<and> data_tag c = tag \<and> data_len c = length vs \<and>
    (\<forall>i < length vs. c (dl_fields_offset lay + i * 8) = vs ! i)"
  by (rule fai_make_data_inv [OF assms])

theorem fai_make_data_owns_fields_witness:
  "\<exists>c. fai_make_data_scalar sample_descriptors 8 (\<lambda>_. 0) Map.empty 0 5 [7, 9] = Some (8, [8 \<mapsto> c]) \<and>
     rc_inv sample_descriptors [8 \<mapsto> c] {#8#} None \<and> data_tag c = 5 \<and> data_len c = 2"
proof -
  obtain lay where l: "DataLayout_new 5 (length [7 :: u64, 9]) 0 = Some lay"
    using sample_layout [of "[7, 9]" 5] by auto
  have "owned_fields 0 [7 :: u64, 9] = []" by (simp add: owned_fields_def slot_float_def upt_rec is_boxed_def)
  with fai_make_data_owns_fields [of sample_descriptors Map.empty "{#}" 0 "[7, 9]" 8 5 lay "\<lambda>_. 0"] l rc_inv_empty
  show ?thesis by (auto simp: sample_descriptors_def)
qed

text \<open>
  C15: marking a value as shared returns and keeps every cell's fields, count and shape; afterwards
  no cell reachable from the value is counted without atomics.
\<close>

theorem fai_mark_shared_deep:
  assumes "rc_inv ds h R None" and "is_boxed v" and "h v = Some c" and "share_closed ds h {}"
  shows "\<exists>h'. fai_mark_shared ds h v = Some h' \<and> rc_inv ds h' R None \<and> same_payload ds h h' \<and>
    share_closed ds h' {} \<and> (\<forall>q. reaches ds h' v q \<longrightarrow> \<not> is_local h' q)"
proof -
  from fai_mark_shared_inv [OF assms] obtain h' where
    h': "fai_mark_shared ds h v = Some h'" "rc_inv ds h' R None" "share_closed ds h' {}" "same_payload ds h h'" "\<not> is_local h' v"
    by blast
  then show ?thesis using share_closed_reaches [OF _ h'(3,5)] by (intro exI [of _ h']) simp
qed

theorem fai_mark_shared_deep_witness:
  "\<exists>h h'. 8 \<in> dom h \<and> rc_inv sample_descriptors h {#16#} None \<and> is_local h 16 \<and>
     fai_mark_shared sample_descriptors h 16 = Some h' \<and> \<not> is_local h' 16"
proof -
  let ?ds = sample_descriptors
  obtain h c d where h: "h = [8 \<mapsto> c, 16 \<mapsto> d]" "rc_inv ?ds h {#16#} None" "rc_view (header_word c) = Local 1"
    "rc_view (header_word d) = Local 1" using sample_heap by blast
  have l: "is_local h 16" using h(1,4) by (simp add: is_local_def)
  have "share_closed ?ds h {}" using h by (auto simp: share_closed_def is_local_def split: if_splits)
  with fai_mark_shared_deep [of ?ds h "{#16#}" 16 d] h(1,2) obtain h' where
    "fai_mark_shared ?ds h 16 = Some h'" "\<not> is_local h' 16" by (auto simp: is_boxed_def intro: reaches_refl)
  with l h(1,2) show ?thesis by - (rule exI [of _ h], auto)
qed

text \<open>
  C17: duplicating a reference adds an owner, and dropping the duplicate gives back the very same
  heap.
\<close>

theorem fai_dup_drop:
  assumes "rc_inv ds h R None" and "is_boxed v" and "h v = Some c" and "count_of (rc_view (header_word c)) < 2 ^ 37"
  shows "\<exists>h'. fai_dup h v = Some h' \<and> rc_inv ds h' (add_mset v R) None \<and> fai_drop ds h' v = Some h"
proof -
  from fai_dup_inv [OF assms] obtain h' where h': "fai_dup h v = Some h'" "rc_inv ds h' (add_mset v R) None" by blast
  have ok: "count_ok (rc_view (header_word c)) (refs ds h R v)" using rc_invD(4) [OF assms(1,3)] by simp
  have "fai_drop ds h' v = Some h"
  proof (cases "rc_view (header_word c) = Immortal")
    case True
    then have "h' = h"
      using h'(1) assms(2,3) rc_immortal(1) [OF True] write_header_same [of h v c] by (simp add: fai_dup_def rc_inc_def)
    then show ?thesis
      using assms(2,3) rc_immortal(2) [OF True] write_header_same [of h v c]
      by (simp add: fai_drop_def rc_dec_is_dead_def)
  next
    case False
    let ?w = "header_word c"
    have e: "h' = h(v \<mapsto> c(RC_OFFSET := ?w + 1))"
      using h'(1) assms rc_inc_counted(1) [OF False] by (simp add: fai_dup_def rc_inc_def write_header_Some)
    have n: "rc_view (?w + 1) = with_count (rc_view ?w) (count_of (rc_view ?w) + 1)"
      using rc_inc_counted(2) [OF False assms(4)] by simp
    have "rc_dec_word (?w + 1) = (False, ?w)"
      using rc_dec_counted(1) [of "?w + 1"] n False ok by (simp add: count_ok_def)
    moreover have "c(RC_OFFSET := ?w) = c" by (simp add: header_word_def)
    ultimately show ?thesis
      using assms(2,3) e by (auto simp: fai_drop_def rc_dec_is_dead_def write_header_def fun_eq_iff)
  qed
  with h' show ?thesis by blast
qed

theorem fai_dup_drop_witness:
  "\<exists>h h'. rc_inv sample_descriptors h {#16#} None \<and> fai_dup h 16 = Some h' \<and>
     rc_inv sample_descriptors h' {#16, 16#} None \<and> fai_drop sample_descriptors h' 16 = Some h"
proof -
  obtain h c d where h: "h = [8 \<mapsto> c, 16 \<mapsto> d]" "rc_inv sample_descriptors h {#16#} None"
    "rc_view (header_word d) = Local 1" using sample_heap by blast
  with fai_dup_drop [of sample_descriptors h "{#16#}" 16 d] show ?thesis
    by - (rule exI [of _ h], auto simp: is_boxed_def)
qed

end
