(* ===== verification/Fai_Pool.thy ===== *)
theory Fai_Pool
  imports Fai_Header "HOL-Library.Monad_Syntax"
begin

text \<open>
  The recycling allocator of small cells: \<^verbatim>\<open>fai-runtime/src/slab.rs\<close> and the thread-local \<^verbatim>\<open>Pool\<close> of
  \<^verbatim>\<open>fai-runtime/src/lib.rs\<close>. A pool cuts aligned slabs of 64 KiB into cells of one size class, keeps its free
  cells in lists linked through their first words, and may be given cells that another thread has taken. A
  slab counts its outstanding cells and the cursor of the pool that fills it, and is unmapped when nobody
  holds a reference.

  Addresses are natural numbers, 0 the null pointer. The address of a new mapping comes from the operating
  system and is an argument; what is relied on is that it is aligned, not null and not mapped already. A
  read or a count of an unmapped slab, an index out of range and a failed assertion are \<open>None\<close>. A step of
  the system is one call by one thread: calls of different threads share only the atomic counters of slabs.
  The counters of \<^verbatim>\<open>allocation_stats.rs\<close> are left out.
\<close>

unbundle bit_operations_syntax

section \<open>Slabs\<close>

definition BYTES :: nat where "BYTES = 64 * 1024"
definition START :: nat where "START = 8"

text \<open>The counts of the mapped slabs, by base address, and the words of memory.\<close>

record slab_heap =
  sl_remaining :: "nat \<rightharpoonup> nat"
  sl_words :: "nat \<Rightarrow> nat"

text \<open>The slab kept of a reservation of twice its size, and the lengths of the two ends that are trimmed.\<close>

definition map_aligned :: "nat \<Rightarrow> nat \<times> nat \<times> nat" where
  "map_aligned raw =
     (let address = nat ((int raw + int BYTES - 1) AND NOT (int BYTES - 1));
          start = address - raw
      in (address, start, BYTES - start))"

definition slab_allocate :: "nat \<Rightarrow> slab_heap \<Rightarrow> slab_heap" where
  "slab_allocate slab h = h\<lparr>sl_remaining := (sl_remaining h)(slab \<mapsto> 1)\<rparr>"

definition slab_issue :: "nat \<Rightarrow> nat \<Rightarrow> slab_heap \<Rightarrow> slab_heap option" where
  "slab_issue slab n h = do {
     r \<leftarrow> sl_remaining h slab;
     Some (h\<lparr>sl_remaining := (sl_remaining h)(slab \<mapsto> r + n)\<rparr>) }"

definition release_many :: "nat \<Rightarrow> nat \<Rightarrow> slab_heap \<Rightarrow> (bool \<times> slab_heap) option" where
  "release_many slab n h =
     (if n = 0 then None
      else do {
        previous \<leftarrow> sl_remaining h slab;
        if previous < n then None
        else if previous \<noteq> n then Some (False, h\<lparr>sl_remaining := (sl_remaining h)(slab \<mapsto> previous - n)\<rparr>)
        else Some (True, h\<lparr>sl_remaining := (sl_remaining h)(slab := None)\<rparr>) })"

definition slab_release :: "nat \<Rightarrow> slab_heap \<Rightarrow> (bool \<times> slab_heap) option" where
  "slab_release slab h = release_many slab 1 h"

definition owner :: "nat \<Rightarrow> nat" where
  "owner cell = nat (int cell AND NOT (int BYTES - 1))"

text \<open>The first word of a cell.\<close>

definition read_link :: "nat \<Rightarrow> slab_heap \<Rightarrow> nat option" where
  "read_link p h = (if sl_remaining h (owner p) = None then None else Some (sl_words h p))"

definition write_word :: "nat \<Rightarrow> nat \<Rightarrow> slab_heap \<Rightarrow> slab_heap option" where
  "write_word p w h = (if sl_remaining h (owner p) = None then None else Some (h\<lparr>sl_words := (sl_words h)(p := w)\<rparr>))"

section \<open>Pools\<close>

definition SIZE_STEP :: nat where "SIZE_STEP = ALIGN"
definition MAX_POOLED_SIZE :: nat where "MAX_POOLED_SIZE = 512"
definition NUM_CLASSES :: nat where "NUM_CLASSES = MAX_POOLED_SIZE div SIZE_STEP + 1"

record pool =
  po_heads :: "nat \<Rightarrow> nat"
  po_active :: "nat \<Rightarrow> nat"
  po_offsets :: "nat \<Rightarrow> nat"
  po_reclaim :: bool

definition Pool_new :: pool where
  "Pool_new = \<lparr>po_heads = \<lambda>_. 0, po_active = \<lambda>_. 0, po_offsets = \<lambda>_. 0, po_reclaim = True\<rparr>"

text \<open>The links of the cells of a batch after its first one, written from the last to the first.\<close>

definition link_batch :: "nat \<Rightarrow> nat \<Rightarrow> nat \<Rightarrow> (nat \<Rightarrow> nat) \<Rightarrow> nat \<times> (nat \<Rightarrow> nat)" where
  "link_batch first sz n words =
     fold (\<lambda>i (next, words). (first + i * sz, words(first + i * sz := next))) (rev [1..<n]) (0, words)"

definition Pool_refill :: "nat \<Rightarrow> nat \<Rightarrow> pool \<Rightarrow> slab_heap \<Rightarrow> (nat \<times> pool \<times> slab_heap) option" where
  "Pool_refill fresh c po h =
     (if NUM_CLASSES \<le> c \<or> c = 0 then None
      else let
        sz = c * SIZE_STEP;
        (po, h) =
          (if po_active po c = 0
           then (po\<lparr>po_active := (po_active po)(c := fresh), po_offsets := (po_offsets po)(c := START)\<rparr>, slab_allocate fresh h)
           else (po, h));
        active = po_active po c;
        offset = po_offsets po c;
        batch = (if offset = START then 8 else 64);
        count = min ((BYTES - offset) div sz) batch
      in if count = 0 then None
      else do {
        h \<leftarrow> slab_issue active count h;
        let first = active + offset;
        let (next, words) = link_batch first sz count (sl_words h);
        let h = h\<lparr>sl_words := words\<rparr>;
        let end = offset + count * sz;
        let po = po\<lparr>po_heads := (po_heads po)(c := next), po_offsets := (po_offsets po)(c := end)\<rparr>;
        if BYTES - end < sz then do {
          (_, h) \<leftarrow> slab_release active h;
          Some (first, po\<lparr>po_active := (po_active po)(c := 0)\<rparr>, h) }
        else Some (first, po, h) })"

definition Pool_take :: "nat \<Rightarrow> nat \<Rightarrow> pool \<Rightarrow> slab_heap \<Rightarrow> (nat \<times> pool \<times> slab_heap) option" where
  "Pool_take fresh c po h =
     (if NUM_CLASSES \<le> c then None
      else let head = po_heads po c in
        if head = 0 then Pool_refill fresh c po h
        else do {
          next \<leftarrow> read_link head h;
          Some (head, po\<lparr>po_heads := (po_heads po)(c := next)\<rparr>, h) })"

definition pool_push :: "nat \<Rightarrow> nat \<Rightarrow> pool \<Rightarrow> slab_heap \<Rightarrow> (pool \<times> slab_heap) option" where
  "pool_push c p po h =
     (if NUM_CLASSES \<le> c then None
      else do {
        h \<leftarrow> write_word p (po_heads po c) h;
        Some (po\<lparr>po_heads := (po_heads po)(c := p)\<rparr>, h) })"

text \<open>Dropping a pool walks each list and releases runs of cells of one slab together.\<close>

definition release_run :: "nat \<Rightarrow> nat \<Rightarrow> slab_heap \<Rightarrow> slab_heap option" where
  "release_run slab n h = (if n \<noteq> 0 then do { (_, h) \<leftarrow> release_many slab n h; Some h } else Some h)"

partial_function (option) drop_walk :: "nat \<Rightarrow> nat \<Rightarrow> nat \<Rightarrow> slab_heap \<Rightarrow> (nat \<times> nat \<times> slab_heap) option" where
  "drop_walk p current count h =
     (if p = 0 then Some (current, count, h)
      else do {
        next \<leftarrow> read_link p h;
        if owner p \<noteq> current then do {
          h \<leftarrow> release_run current count h;
          drop_walk next (owner p) 1 h }
        else drop_walk next current (count + 1) h })"

definition drop_class :: "pool \<Rightarrow> nat \<Rightarrow> slab_heap \<Rightarrow> slab_heap option" where
  "drop_class po c h = do {
     (current, count, h) \<leftarrow> drop_walk (po_heads po c) 0 0 h;
     h \<leftarrow> release_run current count h;
     if po_active po c \<noteq> 0 then do { (_, h) \<leftarrow> slab_release (po_active po c) h; Some h } else Some h }"

primrec drop_classes :: "pool \<Rightarrow> nat list \<Rightarrow> slab_heap \<Rightarrow> slab_heap option" where
  "drop_classes po [] h = Some h"
| "drop_classes po (c # cs) h = do { h \<leftarrow> drop_class po c h; drop_classes po cs h }"

definition Pool_drop :: "pool \<Rightarrow> slab_heap \<Rightarrow> slab_heap option" where
  "Pool_drop po h = (if po_reclaim po then drop_classes po [0..<NUM_CLASSES] h else Some h)"

section \<open>A running system\<close>

text \<open>The pool of every thread, the memory, and the size classes of the cells in use.\<close>

record pool_system =
  ps_pools :: "nat \<Rightarrow> pool"
  ps_heap :: slab_heap
  ps_live :: "nat \<rightharpoonup> nat"

definition empty_system :: pool_system where
  "empty_system = \<lparr>ps_pools = \<lambda>_. Pool_new, ps_heap = \<lparr>sl_remaining = Map.empty, sl_words = \<lambda>_. 0\<rparr>, ps_live = Map.empty\<rparr>"

text \<open>What the operating system promises of a new mapping.\<close>

definition mappable :: "nat \<Rightarrow> slab_heap \<Rightarrow> bool" where
  "mappable fresh h \<longleftrightarrow> fresh \<noteq> 0 \<and> BYTES dvd fresh \<and> sl_remaining h fresh = None"

text \<open>
  A thread takes a cell of a pooled class, gives back a cell in use, whichever thread took it, writes a
  word of a cell in use, ends, or is told that the process ends and that nothing needs to be given back.
\<close>

inductive pool_step :: "pool_system \<Rightarrow> pool_system \<Rightarrow> bool" where
  take: "0 < c \<Longrightarrow> c < NUM_CLASSES \<Longrightarrow> mappable fresh (ps_heap s) \<Longrightarrow>
    Pool_take fresh c (ps_pools s t) (ps_heap s) = Some (p, po, h) \<Longrightarrow>
    pool_step s \<lparr>ps_pools = (ps_pools s)(t := po), ps_heap = h, ps_live = (ps_live s)(p \<mapsto> c)\<rparr>"
| push: "ps_live s p = Some c \<Longrightarrow> pool_push c p (ps_pools s t) (ps_heap s) = Some (po, h) \<Longrightarrow>
    pool_step s \<lparr>ps_pools = (ps_pools s)(t := po), ps_heap = h, ps_live = (ps_live s)(p := None)\<rparr>"
| store: "ps_live s p = Some c \<Longrightarrow> k < c \<Longrightarrow> write_word (p + SIZE_STEP * k) w (ps_heap s) = Some h \<Longrightarrow>
    pool_step s (s\<lparr>ps_heap := h\<rparr>)"
| exit: "po_reclaim (ps_pools s t) \<Longrightarrow> Pool_drop (ps_pools s t) (ps_heap s) = Some h \<Longrightarrow>
    pool_step s (s\<lparr>ps_pools := (ps_pools s)(t := Pool_new), ps_heap := h\<rparr>)"
| finish: "pool_step s (s\<lparr>ps_pools := (ps_pools s)(t := (ps_pools s t)\<lparr>po_reclaim := False\<rparr>)\<rparr>)"

abbreviation pool_reachable :: "pool_system \<Rightarrow> bool" where
  "pool_reachable s \<equiv> pool_step\<^sup>*\<^sup>* empty_system s"

lemmas pool_consts = BYTES_def START_def SIZE_STEP_def ALIGN_def MAX_POOLED_SIZE_def NUM_CLASSES_def

section \<open>Addresses\<close>

lemma and_not_bytes: "x AND NOT (int BYTES - 1) = x div int BYTES * int BYTES"
proof -
  have "int BYTES - 1 = mask 16" by (simp add: BYTES_def mask_eq_exp_minus_1)
  moreover have "x AND NOT (mask 16) = push_bit 16 (drop_bit 16 x)"
    by (rule bit_eqI) (auto simp: bit_simps)
  ultimately show ?thesis by (simp add: push_bit_eq_mult drop_bit_eq_div BYTES_def)
qed

lemma owner_eq: "owner p = p div BYTES * BYTES"
proof -
  have "int p div int BYTES * int BYTES = int (p div BYTES * BYTES)" by (simp add: zdiv_int)
  then show ?thesis unfolding owner_def and_not_bytes by (simp only: nat_int)
qed

lemma owner_le: "owner p \<le> p" and less_owner: "p < owner p + BYTES" and owner_dvd: "BYTES dvd owner p"
  unfolding owner_eq by (simp_all add: BYTES_def)

lemma owner_self: "BYTES dvd s \<Longrightarrow> owner s = s"
  by (simp add: owner_eq)

lemma owner_in: "BYTES dvd s \<Longrightarrow> s \<le> p \<Longrightarrow> p < s + BYTES \<Longrightarrow> owner p = s"
  unfolding owner_eq by (elim dvdE) (simp add: BYTES_def)

lemma owner_apart: "owner p \<noteq> owner q \<Longrightarrow> p < q \<Longrightarrow> owner p + BYTES \<le> owner q"
  unfolding owner_eq by (simp add: BYTES_def)

text \<open>A cell of a class lies behind the header of its slab, at a multiple of its size.\<close>

definition cell_at :: "nat \<Rightarrow> nat \<Rightarrow> bool" where
  "cell_at c p \<longleftrightarrow>
     0 < c \<and> c < NUM_CLASSES \<and> (\<exists>i. p = owner p + START + i * (c * SIZE_STEP) \<and> START + Suc i * (c * SIZE_STEP) \<le> BYTES)"

lemma cell_at_nonzero: "cell_at c p \<Longrightarrow> p \<noteq> 0"
  by (auto simp: cell_at_def START_def)

lemma grid_apart: "i < j \<Longrightarrow> Suc i * (z :: nat) \<le> j * z"
  using mult_le_mono1 [of "Suc i" j z] by simp

lemma cells_apart:
  assumes "cell_at c p" "cell_at d q" "p < q" "owner p = owner q \<Longrightarrow> c = d"
  shows "p + c * SIZE_STEP \<le> q"
proof -
  from assms(1) obtain i where i: "p = owner p + START + i * (c * SIZE_STEP)" "START + Suc i * (c * SIZE_STEP) \<le> BYTES"
    by (auto simp: cell_at_def)
  from assms(2) obtain j where j: "q = owner q + START + j * (d * SIZE_STEP)" by (auto simp: cell_at_def)
  show ?thesis
  proof (cases "owner p = owner q")
    case True
    with assms(4) have "d = c" by simp
    note j = j [unfolded this]
    from assms(3) i(1) j True have "i * (c * SIZE_STEP) < j * (c * SIZE_STEP)" by linarith
    then have "i < j" using mult_less_cancel2 by blast
    from grid_apart [OF this, of "c * SIZE_STEP"] have "i * (c * SIZE_STEP) + c * SIZE_STEP \<le> j * (c * SIZE_STEP)" by simp
    with i(1) j True show ?thesis by linarith
  next
    case False
    have "i * (c * SIZE_STEP) + c * SIZE_STEP + START \<le> BYTES" using i(2) by simp
    with owner_apart [OF False assms(3)] i(1) j show ?thesis by linarith
  qed
qed

section \<open>Free lists\<close>

primrec free_list :: "(nat \<Rightarrow> nat) \<Rightarrow> nat \<Rightarrow> nat list \<Rightarrow> bool" where
  "free_list w p [] \<longleftrightarrow> p = 0"
| "free_list w p (a # as) \<longleftrightarrow> p = a \<and> a \<noteq> 0 \<and> free_list w (w a) as"

lemma free_list_cong: "(\<And>p. p \<in> set ps \<Longrightarrow> w' p = w p) \<Longrightarrow> free_list w' x ps = free_list w x ps"
  by (induction ps arbitrary: x) simp_all

lemma free_list_null: "free_list w 0 ps \<longleftrightarrow> ps = []"
  by (cases ps) auto

lemma free_list_unique: "free_list w x ps \<Longrightarrow> free_list w x qs \<Longrightarrow> ps = qs"
proof (induction ps arbitrary: x qs)
  case Nil
  then show ?case by (cases qs) auto
next
  case (Cons p ps)
  then show ?case by (cases qs) auto
qed

definition batch_cells :: "nat \<Rightarrow> nat \<Rightarrow> nat \<Rightarrow> nat list" where
  "batch_cells first sz n = map (\<lambda>i. first + i * sz) [0..<n]"

lemma link_batch_suffix:
  assumes "0 < sz" "0 < first"
  shows "m \<le> n \<Longrightarrow> (let (p, w') = fold (\<lambda>i (next, words). (first + i * sz, words(first + i * sz := next))) (rev [m..<n]) (0, w)
    in free_list w' p (map (\<lambda>i. first + i * sz) [m..<n]) \<and> (\<forall>q. q \<notin> (\<lambda>i. first + i * sz) ` {m..<n} \<longrightarrow> w' q = w q))"
proof (induction "n - m" arbitrary: m)
  case (Suc k)
  then have m: "m < n" "[m..<n] = m # [Suc m..<n]" by (simp_all add: upt_conv_Cons)
  let ?f = "\<lambda>i (next, words). (first + i * sz, words(first + i * sz := next))"
  obtain p w' where r: "fold ?f (rev [Suc m..<n]) (0, w) = (p, w')" by force
  with Suc.hyps(1) [of "Suc m"] Suc.hyps(2) m have IH: "free_list w' p (map (\<lambda>i. first + i * sz) [Suc m..<n])"
    "\<forall>q. q \<notin> (\<lambda>i. first + i * sz) ` {Suc m..<n} \<longrightarrow> w' q = w q" by simp_all
  have "free_list (w'(first + m * sz := p)) p (map (\<lambda>i. first + i * sz) [Suc m..<n])"
    using IH(1) assms(1) by (subst free_list_cong [where w = w']) (auto simp: Suc_le_eq)
  moreover have "{m..<n} = insert m {Suc m..<n}" using m(1) by auto
  ultimately show ?case using IH(2) r m assms(2) by simp
qed simp

lemma link_batch_spec:
  assumes "0 < sz" "0 < first" "0 < n" "link_batch first sz n w = (p, w')"
  obtains ps where "batch_cells first sz n = first # ps" "free_list w' p ps" "\<And>q. q \<notin> set ps \<Longrightarrow> w' q = w q"
proof -
  have "batch_cells first sz n = first # map (\<lambda>i. first + i * sz) [1..<n]"
    using assms(3) by (simp add: batch_cells_def upt_conv_Cons)
  moreover have "free_list w' p (map (\<lambda>i. first + i * sz) [1..<n])" "\<forall>q. q \<notin> (\<lambda>i. first + i * sz) ` {1..<n} \<longrightarrow> w' q = w q"
    using link_batch_suffix [OF assms(1,2), of 1 n w] assms(3,4) by (simp_all add: link_batch_def)
  ultimately show ?thesis by (intro that) auto
qed

section \<open>References to slabs\<close>

text \<open>
  What the pool relies on: a count per slab, 0 for a slab that is not mapped, that grows by the cells that
  are issued and shrinks by the references that are given back, and does not go below 0.
\<close>

locale slab_references =
  fixes refs :: "'h \<Rightarrow> nat \<Rightarrow> nat" and contents :: "'h \<Rightarrow> 'w" and ok :: "'h \<Rightarrow> bool"
    and issue :: "nat \<Rightarrow> nat \<Rightarrow> 'h \<Rightarrow> 'h option" and release :: "nat \<Rightarrow> nat \<Rightarrow> 'h \<Rightarrow> (bool \<times> 'h) option"
  assumes issue_refs: "ok h \<Longrightarrow> 0 < refs h b \<Longrightarrow>
      \<exists>h'. issue b n h = Some h' \<and> ok h' \<and> contents h' = contents h \<and> refs h' = (refs h)(b := refs h b + n)"
    and release_refs: "ok h \<Longrightarrow> 0 < n \<Longrightarrow> n \<le> refs h b \<Longrightarrow>
      \<exists>h'. release b n h = Some (n = refs h b, h') \<and> ok h' \<and> contents h' = contents h \<and> refs h' = (refs h)(b := refs h b - n)"
begin

lemma release_if:
  assumes "ok h" "n \<le> refs h b"
  obtains h' where "(if n \<noteq> 0 then do { (_, h) \<leftarrow> release b n h; Some h } else Some h) = Some h'" "ok h'" "contents h' = contents h"
    "refs h' = (refs h)(b := refs h b - n)"
proof (cases "n = 0")
  case False
  then obtain h' where "release b n h = Some (n = refs h b, h')" "ok h'" "contents h' = contents h" "refs h' = (refs h)(b := refs h b - n)"
    using release_refs [OF assms(1) _ assms(2)] by auto
  with False that show ?thesis by simp
qed (use assms that in simp)

end

definition slab_refs :: "slab_heap \<Rightarrow> nat \<Rightarrow> nat" where
  "slab_refs h b = (case sl_remaining h b of None \<Rightarrow> 0 | Some r \<Rightarrow> r)"

definition refs_ok :: "slab_heap \<Rightarrow> bool" where
  "refs_ok h \<longleftrightarrow> (\<forall>b. sl_remaining h b \<noteq> Some 0)"

lemma refs_words [simp]: "slab_refs (h\<lparr>sl_words := w\<rparr>) = slab_refs h" "refs_ok (h\<lparr>sl_words := w\<rparr>) = refs_ok h"
  by (simp_all add: slab_refs_def refs_ok_def fun_eq_iff)

lemma mapped_iff:
  assumes "refs_ok h"
  shows "sl_remaining h b = None \<longleftrightarrow> slab_refs h b = 0"
proof -
  have "sl_remaining h b \<noteq> Some 0" using assms by (simp add: refs_ok_def)
  then show ?thesis by (auto simp: slab_refs_def split: option.split)
qed

interpretation slab: slab_references slab_refs sl_words refs_ok slab_issue release_many
proof
  fix h b n
  assume ok: "refs_ok h" and "0 < slab_refs h b"
  then obtain r where r: "sl_remaining h b = Some r" "0 < r" by (auto simp: slab_refs_def split: option.splits)
  then show "\<exists>h'. slab_issue b n h = Some h' \<and> refs_ok h' \<and> sl_words h' = sl_words h \<and> slab_refs h' = (slab_refs h)(b := slab_refs h b + n)"
    using ok by (auto simp: slab_issue_def refs_ok_def slab_refs_def fun_eq_iff)
next
  fix h n b
  assume ok: "refs_ok h" and n: "0 < n" "n \<le> slab_refs h b"
  then obtain r where "sl_remaining h b = Some r" "n \<le> r" by (auto simp: slab_refs_def split: option.splits)
  then show "\<exists>h'. release_many b n h = Some (n = slab_refs h b, h') \<and> refs_ok h' \<and> sl_words h' = sl_words h \<and>
      slab_refs h' = (slab_refs h)(b := slab_refs h b - n)"
    using ok n by (auto simp: release_many_def refs_ok_def slab_refs_def fun_eq_iff)
qed

lemma release_run_spec:
  assumes "refs_ok h" "n \<le> slab_refs h b"
  obtains h' where "release_run b n h = Some h'" "refs_ok h'" "sl_words h' = sl_words h" "slab_refs h' = (slab_refs h)(b := slab_refs h b - n)"
  using slab.release_if [OF assms] unfolding release_run_def by blast

lemma drop_walk_spec:
  assumes "free_list (sl_words h) p ps" "refs_ok h"
    and "\<And>b. slab_refs h b = need b + length (filter (\<lambda>q. owner q = b) ps) + (if b = cur then n else 0)"
  shows "\<exists>cur' n' h'. drop_walk p cur n h = Some (cur', n', h') \<and> refs_ok h' \<and> sl_words h' = sl_words h \<and>
    (\<forall>b. slab_refs h' b = need b + (if b = cur' then n' else 0))"
  using assms
proof (induction ps arbitrary: p cur n h)
  case Nil
  then show ?case by (subst drop_walk.simps) auto
next
  case (Cons q ps)
  then have q: "p = q" "q \<noteq> 0" "free_list (sl_words h) (sl_words h q) ps" by auto
  have "slab_refs h (owner q) \<noteq> 0" using Cons.prems(3) [of "owner q"] by simp
  with Cons.prems(2) have read: "read_link p h = Some (sl_words h q)" using mapped_iff q(1) by (simp add: read_link_def)
  show ?case
  proof (cases "owner q = cur")
    case True
    have "drop_walk p cur n h = drop_walk (sl_words h q) cur (n + 1) h" using q read True by (subst drop_walk.simps) simp
    moreover have "slab_refs h b = need b + length (filter (\<lambda>q. owner q = b) ps) + (if b = cur then n + 1 else 0)" for b
      using Cons.prems(3) [of b] True by auto
    ultimately show ?thesis using Cons.IH [OF q(3) Cons.prems(2)] by simp
  next
    case False
    obtain h' where h': "release_run cur n h = Some h'" "refs_ok h'" "sl_words h' = sl_words h" "slab_refs h' = (slab_refs h)(cur := slab_refs h cur - n)"
      by (rule release_run_spec [OF Cons.prems(2), of n cur]) (use Cons.prems(3) [of cur] in auto)
    have "drop_walk p cur n h = drop_walk (sl_words h q) (owner q) 1 h'" using q read False h'(1) by (subst drop_walk.simps) simp
    moreover have "slab_refs h' b = need b + length (filter (\<lambda>q. owner q = b) ps) + (if b = owner q then 1 else 0)" for b
      using Cons.prems(3) [of b] False by (auto simp: h'(4))
    ultimately show ?thesis using Cons.IH [of h' "sl_words h q" "owner q" 1] q(3) h'(2,3) by simp
  qed
qed

section \<open>Who holds which cell\<close>

datatype holder = Held nat | Pooled nat nat

primrec holder_class :: "holder \<Rightarrow> nat" where
  "holder_class (Held c) = c"
| "holder_class (Pooled t c) = c"

abbreviation cells_of :: "(nat \<rightharpoonup> holder) \<Rightarrow> nat \<Rightarrow> nat set" where
  "cells_of place b \<equiv> {p \<in> dom place. owner p = b}"

definition cursors :: "(nat \<Rightarrow> pool) \<Rightarrow> nat \<Rightarrow> nat" where
  "cursors pools b = (if b \<noteq> 0 \<and> (\<exists>t c. po_active (pools t) c = b) then 1 else 0)"

definition cursor_ok :: "(nat \<rightharpoonup> holder) \<Rightarrow> nat \<Rightarrow> nat \<Rightarrow> nat \<Rightarrow> bool" where
  "cursor_ok place a c off \<longleftrightarrow>
     0 < c \<and> c < NUM_CLASSES \<and> (\<exists>i. off = START + i * (c * SIZE_STEP) \<and> START + Suc i * (c * SIZE_STEP) \<le> BYTES) \<and>
     (\<forall>p \<in> cells_of place a. p < a + off)"

text \<open>
  A place for every outstanding cell and a class for every slab: cells in use and free cells lie on the grid
  of their slab, the lists hold exactly the free cells, cursors are past every cell of their slab, and the
  count of a slab is the number of its cells and cursors.
\<close>

definition accounts :: "(nat \<Rightarrow> pool) \<Rightarrow> slab_heap \<Rightarrow> (nat \<rightharpoonup> nat) \<Rightarrow> (nat \<rightharpoonup> holder) \<Rightarrow> (nat \<Rightarrow> nat) \<Rightarrow> bool" where
  "accounts pools h live place cls \<longleftrightarrow>
     finite (dom place) \<and> refs_ok h \<and>
     (\<forall>p c. live p = Some c \<longleftrightarrow> place p = Some (Held c)) \<and>
     (\<forall>p k. place p = Some k \<longrightarrow> cell_at (holder_class k) p \<and> cls (owner p) = holder_class k) \<and>
     (\<forall>t c. \<exists>ps. distinct ps \<and> free_list (sl_words h) (po_heads (pools t) c) ps \<and> set ps = {p. place p = Some (Pooled t c)}) \<and>
     (\<forall>t c. po_active (pools t) c \<noteq> 0 \<longrightarrow>
        cls (po_active (pools t) c) = c \<and> cursor_ok place (po_active (pools t) c) c (po_offsets (pools t) c)) \<and>
     (\<forall>t c t' c'. po_active (pools t) c = po_active (pools t') c' \<longrightarrow> po_active (pools t) c \<noteq> 0 \<longrightarrow> t = t' \<and> c = c') \<and>
     (\<forall>b. slab_refs h b = card (cells_of place b) + cursors pools b) \<and>
     (\<forall>b. 0 < slab_refs h b \<longrightarrow> b \<noteq> 0 \<and> BYTES dvd b)"

lemma accountsD:
  assumes "accounts pools h live place cls"
  shows "finite (dom place)" "refs_ok h" "live p = Some c \<longleftrightarrow> place p = Some (Held c)"
    "place p = Some k \<Longrightarrow> cell_at (holder_class k) p" "place p = Some k \<Longrightarrow> cls (owner p) = holder_class k"
    "\<exists>ps. distinct ps \<and> free_list (sl_words h) (po_heads (pools t) c) ps \<and> set ps = {p. place p = Some (Pooled t c)}"
    "po_active (pools t) c \<noteq> 0 \<Longrightarrow> cls (po_active (pools t) c) = c"
    "po_active (pools t) c \<noteq> 0 \<Longrightarrow> cursor_ok place (po_active (pools t) c) c (po_offsets (pools t) c)"
    "po_active (pools t) c = po_active (pools t') c' \<Longrightarrow> po_active (pools t) c \<noteq> 0 \<Longrightarrow> t = t' \<and> c = c'"
    "slab_refs h b = card (cells_of place b) + cursors pools b"
    "0 < slab_refs h b \<Longrightarrow> b \<noteq> 0 \<and> BYTES dvd b"
  using assms unfolding accounts_def by blast+

lemma accountsI:
  assumes "finite (dom place)" "refs_ok h" "\<And>p c. live p = Some c \<longleftrightarrow> place p = Some (Held c)"
    "\<And>p k. place p = Some k \<Longrightarrow> cell_at (holder_class k) p \<and> cls (owner p) = holder_class k"
    "\<And>t c. \<exists>ps. distinct ps \<and> free_list (sl_words h) (po_heads (pools t) c) ps \<and> set ps = {p. place p = Some (Pooled t c)}"
    "\<And>t c. po_active (pools t) c \<noteq> 0 \<Longrightarrow>
        cls (po_active (pools t) c) = c \<and> cursor_ok place (po_active (pools t) c) c (po_offsets (pools t) c)"
    "\<And>t c t' c'. po_active (pools t) c = po_active (pools t') c' \<Longrightarrow> po_active (pools t) c \<noteq> 0 \<Longrightarrow> t = t' \<and> c = c'"
    "\<And>b. slab_refs h b = card (cells_of place b) + cursors pools b"
    "\<And>b. 0 < slab_refs h b \<Longrightarrow> b \<noteq> 0 \<and> BYTES dvd b"
  shows "accounts pools h live place cls"
  using assms unfolding accounts_def by blast

lemma finite_cells: "accounts pools h live place cls \<Longrightarrow> finite (cells_of place b)"
  using accountsD(1) [of pools h live place cls] by simp

lemma held_mapped: "accounts pools h live place cls \<Longrightarrow> place p = Some k \<Longrightarrow> 0 < slab_refs h (owner p)"
  using accountsD(10) [of pools h live place cls "owner p"] finite_cells [of pools h live place cls "owner p"]
  by (auto simp: card_gt_0_iff)

lemma held_apart:
  assumes a: "accounts pools h live place cls" and "place p = Some k" "place q = Some l" "p < q"
  shows "p + holder_class k * SIZE_STEP \<le> q"
proof (rule cells_apart [OF accountsD(4) [OF a assms(2)] accountsD(4) [OF a assms(3)] assms(4)])
  assume "owner p = owner q"
  with accountsD(5) [OF a assms(2)] accountsD(5) [OF a assms(3)] show "holder_class k = holder_class l" by simp
qed

lemma accounts_empty: "accounts (ps_pools empty_system) (ps_heap empty_system) (ps_live empty_system) Map.empty cls"
  by (rule accountsI) (auto simp: empty_system_def Pool_new_def refs_ok_def slab_refs_def cursors_def)

section \<open>Every step keeps the accounts\<close>

lemma cursors_cong: "(\<And>t. po_active (pools' t) = po_active (pools t)) \<Longrightarrow> cursors pools' = cursors pools"
  by (simp add: cursors_def fun_eq_iff)

lemma cursors_eq:
  "(b \<noteq> 0 \<Longrightarrow> (\<exists>t c. po_active (pools' t) c = b) \<longleftrightarrow> (\<exists>t c. po_active (pools t) c = b)) \<Longrightarrow> cursors pools' b = cursors pools b"
  unfolding cursors_def by auto

text \<open>Steps that move cells between holders.\<close>

lemma accounts_move:
  assumes a: "accounts pools h live place cls" and "refs_ok h'" "slab_refs h' = slab_refs h"
    and active: "\<And>u. po_active (pools' u) = po_active (pools u)" and "\<And>u. po_offsets (pools' u) = po_offsets (pools u)"
    and dom: "dom place' = dom place" and moved: "\<And>p k. place' p = Some k \<Longrightarrow> \<exists>l. place p = Some l \<and> holder_class l = holder_class k"
    and "\<And>p c. live' p = Some c \<longleftrightarrow> place' p = Some (Held c)"
    and "\<And>u d. \<exists>ps. distinct ps \<and> free_list (sl_words h') (po_heads (pools' u) d) ps \<and> set ps = {p. place' p = Some (Pooled u d)}"
  shows "accounts pools' h' live' place' cls"
proof (rule accountsI)
  show "cell_at (holder_class k) p \<and> cls (owner p) = holder_class k" if "place' p = Some k" for p k
    using moved [OF that] accountsD(4,5) [OF a] by metis
  have "cells_of place' b = cells_of place b" for b using dom by simp
  then have "cursor_ok place' = cursor_ok place" unfolding cursor_ok_def by simp
  then show "cls (po_active (pools' t) c) = c \<and> cursor_ok place' (po_active (pools' t) c) c (po_offsets (pools' t) c)"
    if "po_active (pools' t) c \<noteq> 0" for t c using that accountsD(7,8) [OF a] assms(4,5) by simp
  show "slab_refs h' b = card (cells_of place' b) + cursors pools' b" for b
    using accountsD(10) [OF a, of b] assms(3) dom cursors_cong [of pools' pools, OF active] by simp
  show "finite (dom place')" "refs_ok h'" using dom accountsD(1) [OF a] assms(2) by simp_all
  show "t = t' \<and> c = c'" if "po_active (pools' t) c = po_active (pools' t') c'" "po_active (pools' t) c \<noteq> 0" for t c t' c'
    using that accountsD(9) [OF a] unfolding active by blast
  show "b \<noteq> 0 \<and> BYTES dvd b" if "0 < slab_refs h' b" for b using that accountsD(11) [OF a, of b] assms(3) by simp
qed (rule assms(8), rule assms(9))

lemma take_accounts:
  assumes a: "accounts pools h live place cls" and p: "po_heads (pools t) c = p" "p \<noteq> 0"
  shows "accounts (pools(t := (pools t)\<lparr>po_heads := (po_heads (pools t))(c := sl_words h p)\<rparr>)) h (live(p \<mapsto> c)) (place(p \<mapsto> Held c)) cls"
    "place p = Some (Pooled t c)"
proof -
  obtain ps where ps: "distinct ps" "free_list (sl_words h) p ps" "set ps = {p. place p = Some (Pooled t c)}"
    using accountsD(6) [OF a, of t c] p(1) by auto
  with p(2) obtain qs where qs: "ps = p # qs" by (cases ps) auto
  with ps show here: "place p = Some (Pooled t c)" by auto
  let ?pools = "pools(t := (pools t)\<lparr>po_heads := (po_heads (pools t))(c := sl_words h p)\<rparr>)"
  show "accounts ?pools h (live(p \<mapsto> c)) (place(p \<mapsto> Held c)) cls"
  proof (rule accounts_move [OF a accountsD(2) [OF a] refl])
    show "\<exists>ps. distinct ps \<and> free_list (sl_words h) (po_heads (?pools u) d) ps \<and> set ps = {q. (place(p \<mapsto> Held c)) q = Some (Pooled u d)}" for u d
    proof (cases "u = t \<and> d = c")
      case True
      have "set qs = {q. (place(p \<mapsto> Held c)) q = Some (Pooled t c)}" using ps qs by auto
      with True ps qs show ?thesis by (intro exI [of _ qs]) auto
    next
      case False
      obtain rs where rs: "distinct rs" "free_list (sl_words h) (po_heads (pools u) d) rs" "set rs = {p. place p = Some (Pooled u d)}"
        using accountsD(6) [OF a, of u d] by blast
      moreover have "{q. (place(p \<mapsto> Held c)) q = Some (Pooled u d)} = {q. place q = Some (Pooled u d)}" using here False by auto
      moreover have "po_heads (?pools u) d = po_heads (pools u) d" using False by auto
      ultimately show ?thesis by auto
    qed
    show "(live(p \<mapsto> c)) q = Some d \<longleftrightarrow> (place(p \<mapsto> Held c)) q = Some (Held d)" for q d
      using accountsD(3) [OF a, of q d] by auto
  qed (use here in \<open>auto split: if_splits\<close>)
qed

lemma push_accounts:
  assumes a: "accounts pools h live place cls" and p: "live p = Some c"
  shows "accounts (pools(t := (pools t)\<lparr>po_heads := (po_heads (pools t))(c := p)\<rparr>))
    (h\<lparr>sl_words := (sl_words h)(p := po_heads (pools t) c)\<rparr>) (live(p := None)) (place(p \<mapsto> Pooled t c)) cls"
proof -
  have here: "place p = Some (Held c)" using p accountsD(3) [OF a] by blast
  let ?pools = "pools(t := (pools t)\<lparr>po_heads := (po_heads (pools t))(c := p)\<rparr>)" and ?h = "h\<lparr>sl_words := (sl_words h)(p := po_heads (pools t) c)\<rparr>"
  have refs: "refs_ok ?h" "slab_refs ?h = slab_refs h" using accountsD(2) [OF a] by simp_all
  show ?thesis
  proof (rule accounts_move [OF a refs])
    fix u d
    obtain rs where rs: "distinct rs" "free_list (sl_words h) (po_heads (pools u) d) rs" "set rs = {p. place p = Some (Pooled u d)}"
      using accountsD(6) [OF a, of u d] by blast
    then have "p \<notin> set rs" using here by simp
    then have keep: "free_list (sl_words ?h) x rs = free_list (sl_words h) x rs" for x by (intro free_list_cong) auto
    show "\<exists>ps. distinct ps \<and> free_list (sl_words ?h) (po_heads (?pools u) d) ps \<and> set ps = {q. (place(p \<mapsto> Pooled t c)) q = Some (Pooled u d)}"
    proof (cases "u = t \<and> d = c")
      case True
      have "free_list (sl_words ?h) p (p # rs)" using True rs(2) keep cell_at_nonzero [OF accountsD(4) [OF a here]] by simp
      with True rs \<open>p \<notin> set rs\<close> show ?thesis by (intro exI [of _ "p # rs"]) auto
    next
      case False
      have "{q. (place(p \<mapsto> Pooled t c)) q = Some (Pooled u d)} = {q. place q = Some (Pooled u d)}" using here False by auto
      moreover have "po_heads (?pools u) d = po_heads (pools u) d" using False by auto
      ultimately show ?thesis using rs keep by auto
    qed
  next
    show "(live(p := None)) q = Some d \<longleftrightarrow> (place(p \<mapsto> Pooled t c)) q = Some (Held d)" for q d
      using accountsD(3) [OF a, of q d] by auto
  qed (use here in \<open>auto split: if_splits\<close>)
qed

lemma held_word_apart:
  assumes a: "accounts pools h live place cls" and "place p = Some (Held c)" "place q = Some (Pooled u d)" "k < c"
  shows "q \<noteq> p + SIZE_STEP * k"
proof (cases "p < q")
  case True
  from held_apart [OF a assms(2,3) True] have "p + c * SIZE_STEP \<le> q" by simp
  moreover have "SIZE_STEP * k < c * SIZE_STEP" using assms(4) by (simp add: SIZE_STEP_def ALIGN_def)
  ultimately show ?thesis by linarith
qed (use assms(2,3) in auto)

lemma write_accounts:
  assumes a: "accounts pools h live place cls" and p: "live p = Some c" "k < c"
  shows "accounts pools (h\<lparr>sl_words := (sl_words h)(p + SIZE_STEP * k := w)\<rparr>) live place cls"
proof -
  let ?h = "h\<lparr>sl_words := (sl_words h)(p + SIZE_STEP * k := w)\<rparr>"
  have refs: "refs_ok ?h" "slab_refs ?h = slab_refs h" using accountsD(2) [OF a] by simp_all
  have here: "place p = Some (Held c)" using p(1) accountsD(3) [OF a] by blast
  show ?thesis
  proof (rule accounts_move [OF a refs refl refl refl])
    fix u d
    obtain rs where rs: "distinct rs" "free_list (sl_words h) (po_heads (pools u) d) rs" "set rs = {p. place p = Some (Pooled u d)}"
      using accountsD(6) [OF a, of u d] by blast
    then have "free_list (sl_words ?h) x rs = free_list (sl_words h) x rs" for x
      using held_word_apart [OF a here _ p(2)] by (intro free_list_cong) auto
    with rs show "\<exists>ps. distinct ps \<and> free_list (sl_words ?h) (po_heads (pools u) d) ps \<and> set ps = {p. place p = Some (Pooled u d)}" by auto
  qed (use accountsD(3) [OF a] in auto)
qed

text \<open>A new slab for a class without one.\<close>

lemma open_accounts:
  assumes a: "accounts pools h live place cls" and "po_active (pools t) c = 0" "mappable fresh h" "0 < c" "c < NUM_CLASSES"
  shows "accounts (pools(t := (pools t)\<lparr>po_active := (po_active (pools t))(c := fresh), po_offsets := (po_offsets (pools t))(c := START)\<rparr>))
    (slab_allocate fresh h) live place (cls(fresh := c))"
proof -
  let ?pools = "pools(t := (pools t)\<lparr>po_active := (po_active (pools t))(c := fresh), po_offsets := (po_offsets (pools t))(c := START)\<rparr>)"
  have unmapped: "slab_refs h fresh = 0" and f: "fresh \<noteq> 0" "BYTES dvd fresh" using assms(3) by (simp_all add: mappable_def slab_refs_def)
  have none: "cells_of place fresh = {}" "cursors pools fresh = 0"
    using accountsD(10) [OF a, of fresh] unmapped finite_cells [OF a, of fresh] by auto
  then have other: "po_active (pools u) d \<noteq> fresh" for u d using f(1) by (auto simp: cursors_def split: if_splits)
  have active: "po_active (?pools u) d = (if u = t \<and> d = c then fresh else po_active (pools u) d)" for u d by simp
  have refs: "slab_refs (slab_allocate fresh h) = (slab_refs h)(fresh := 1)" by (auto simp: slab_refs_def slab_allocate_def fun_eq_iff)
  show ?thesis
  proof (rule accountsI)
    show "refs_ok (slab_allocate fresh h)" using accountsD(2) [OF a] by (simp add: refs_ok_def slab_allocate_def)
    show "cell_at (holder_class k) p \<and> (cls(fresh := c)) (owner p) = holder_class k" if "place p = Some k" for p k
      using accountsD(4,5) [OF a that] none(1) that by auto
    show "\<exists>ps. distinct ps \<and> free_list (sl_words (slab_allocate fresh h)) (po_heads (?pools u) d) ps \<and> set ps = {p. place p = Some (Pooled u d)}" for u d
    proof -
      have "po_heads (?pools u) d = po_heads (pools u) d" by simp
      with accountsD(6) [OF a, of u d] show ?thesis by (simp only:) (simp add: slab_allocate_def)
    qed
    show "(cls(fresh := c)) (po_active (?pools u) d) = d \<and> cursor_ok place (po_active (?pools u) d) d (po_offsets (?pools u) d)"
      if "po_active (?pools u) d \<noteq> 0" for u d
    proof (cases "u = t \<and> d = c")
      case True
      have "START + c * SIZE_STEP \<le> BYTES" using assms(5) by (simp add: pool_consts)
      then have "cursor_ok place fresh c START" using none(1) assms(4,5) by (auto simp: cursor_ok_def intro: exI [of _ 0])
      with True show ?thesis by simp
    next
      case False
      then have same: "po_active (?pools u) d = po_active (pools u) d" "po_offsets (?pools u) d = po_offsets (pools u) d" by auto
      show ?thesis using that other [of u d] accountsD(7,8) [OF a, of u d] unfolding same by simp
    qed
    show "u = u' \<and> d = d'" if "po_active (?pools u) d = po_active (?pools u') d'" "po_active (?pools u) d \<noteq> 0" for u d u' d'
      using that other [of u d] other [of u' d'] accountsD(9) [OF a, of u d u' d'] unfolding active by (auto split: if_splits)
    show "slab_refs (slab_allocate fresh h) b = card (cells_of place b) + cursors ?pools b" for b
    proof (cases "b = fresh")
      case True
      have "po_active (?pools t) c = fresh" by simp
      then have "\<exists>u d. po_active (?pools u) d = fresh" by blast
      with f(1) have "cursors ?pools fresh = 1" by (simp only: cursors_def) simp
      then show ?thesis unfolding True none(1) refs by simp
    next
      case False
      have "(\<exists>u d. po_active (?pools u) d = b) \<longleftrightarrow> (\<exists>u d. po_active (pools u) d = b)" if "b \<noteq> 0"
        using assms(2) False that unfolding active by (metis (no_types))
      then have "cursors ?pools b = cursors pools b" by (rule cursors_eq)
      with False accountsD(10) [OF a, of b] refs show ?thesis by simp
    qed
    show "b \<noteq> 0 \<and> BYTES dvd b" if "0 < slab_refs (slab_allocate fresh h) b" for b
      using that f accountsD(11) [OF a, of b] unfolding refs by (auto split: if_splits)
  qed (use accountsD(1,3) [OF a] in auto)
qed

text \<open>A batch of cells cut from the slab of a class: one is used, the others are listed.\<close>

lemma batch_cells_in:
  assumes "BYTES dvd b" "cursor_ok place b c off" "off + n * (c * SIZE_STEP) \<le> BYTES" "q \<in> set (batch_cells (b + off) (c * SIZE_STEP) n)"
  shows "owner q = b" "cell_at c q" "b + off \<le> q" "q < b + off + n * (c * SIZE_STEP)"
proof -
  let ?z = "c * SIZE_STEP"
  from assms(4) obtain i where i: "i < n" "q = b + off + i * ?z" by (auto simp: batch_cells_def)
  from assms(2) obtain j where j: "off = START + j * ?z" "0 < c" "c < NUM_CLASSES" by (auto simp: cursor_ok_def)
  have z: "0 < ?z" using j(2) by (simp add: pool_consts)
  have next_cell: "i * ?z + ?z \<le> n * ?z" using grid_apart [OF i(1), of ?z] by simp
  show "b + off \<le> q" "q < b + off + n * ?z" using i(2) next_cell z by linarith+
  then show own: "owner q = b" using assms(3) by (intro owner_in [OF assms(1)]) linarith+
  have "q = b + START + (j + i) * ?z" using i(2) j(1) by (simp add: add_mult_distrib)
  moreover have "START + Suc (j + i) * ?z \<le> BYTES" using assms(3) next_cell j(1) by (simp add: add_mult_distrib)
  ultimately show "cell_at c q" using j(2,3) unfolding cell_at_def own by blast
qed

lemma batch_accounts:
  assumes a: "accounts pools h live place cls" and act: "po_active (pools t) c = b" "b \<noteq> 0"
    and head: "po_heads (pools t) c = 0" and off: "po_offsets (pools t) c = off"
    and n: "0 < n" "off + n * (c * SIZE_STEP) \<le> BYTES" and cells: "batch_cells (b + off) (c * SIZE_STEP) n = first # ps"
    and list: "free_list (sl_words h') x ps" "\<And>q. q \<notin> set ps \<Longrightarrow> sl_words h' q = sl_words h q"
    and refs: "refs_ok h'" "slab_refs h' = (slab_refs h)(b := slab_refs h b + n - (if closed then 1 else 0))"
    and closed: "closed \<longleftrightarrow> BYTES - (off + n * (c * SIZE_STEP)) < c * SIZE_STEP"
  defines "po \<equiv> (pools t)\<lparr>po_heads := (po_heads (pools t))(c := x), po_offsets := (po_offsets (pools t))(c := off + n * (c * SIZE_STEP)),
      po_active := (po_active (pools t))(c := if closed then 0 else b)\<rparr>"
    and "place' \<equiv> \<lambda>p. if p = first then Some (Held c) else if p \<in> set ps then Some (Pooled t c) else place p"
  shows "accounts (pools(t := po)) h' (live(first \<mapsto> c)) place' cls"
proof -
  let ?z = "c * SIZE_STEP" and ?cells = "set (batch_cells (b + off) (c * SIZE_STEP) n)"
  have cur: "cls b = c" "cursor_ok place b c off" using accountsD(7,8) [OF a, of t c] act off by simp_all
  then have c: "0 < c" "c < NUM_CLASSES" by (auto simp: cursor_ok_def)
  then have z: "0 < ?z" by (simp add: pool_consts)
  have "\<exists>u d. po_active (pools u) d = b" using act(1) by blast
  then have one: "cursors pools b = 1" using act(2) by (simp add: cursors_def)
  then have b: "BYTES dvd b" using accountsD(10,11) [OF a, of b] by simp
  note new = batch_cells_in [OF b cur(2) n(2)]
  have dist: "distinct (first # ps)" unfolding cells [symmetric] batch_cells_def using z by (auto simp: distinct_map inj_on_def)
  have set_cells: "?cells = insert first (set ps)" by (simp add: cells)
  have fresh: "place q = None" if "q \<in> ?cells" for q
  proof (rule ccontr)
    assume "place q \<noteq> None"
    with new(1) [OF that] cur(2) have "q < b + off" by (auto simp: cursor_ok_def)
    with new(3) [OF that] show False by simp
  qed
  have dom: "dom place' = dom place \<union> ?cells" by (auto simp: place'_def set_cells)
  have cells_b: "cells_of place' b = cells_of place b \<union> ?cells" using new(1) dom by auto
  have cells_other: "cells_of place' d = cells_of place d" if "d \<noteq> b" for d using new(1) dom that by auto
  have disj: "cells_of place b \<inter> ?cells = {}" using fresh by auto
  have "card ?cells = n" using dist cells by (metis batch_cells_def distinct_card length_map length_upt minus_nat.diff_0)
  then have card_b: "card (cells_of place' b) = card (cells_of place b) + n"
    unfolding cells_b by (subst card_Un_disjoint) (use finite_cells [OF a] disj in auto)
  have active: "po_active ((pools(t := po)) u) d = (if u = t \<and> d = c then if closed then 0 else b else po_active (pools u) d)" for u d
    by (simp add: po_def)
  have other: "po_active (pools u) d \<noteq> b" if "\<not> (u = t \<and> d = c)" for u d
    using accountsD(9) [OF a, of u d t c] act that by auto
  show ?thesis
  proof (rule accountsI)
    show "finite (dom place')" using accountsD(1) [OF a] dom by simp
    show "(live(first \<mapsto> c)) p = Some d \<longleftrightarrow> place' p = Some (Held d)" for p d
      using accountsD(3) [OF a, of p d] fresh [of p] set_cells by (auto simp: place'_def)
    show "cell_at (holder_class k) p \<and> cls (owner p) = holder_class k" if "place' p = Some k" for p k
    proof (cases "p \<in> ?cells")
      case True
      with that have "holder_class k = c" by (auto simp: place'_def set_cells split: if_splits)
      with new(1,2) [OF True] cur(1) show ?thesis by simp
    next
      case False
      with that have "place p = Some k" by (auto simp: place'_def set_cells split: if_splits)
      with accountsD(4,5) [OF a] show ?thesis by blast
    qed
    show "\<exists>qs. distinct qs \<and> free_list (sl_words h') (po_heads ((pools(t := po)) u) d) qs \<and> set qs = {p. place' p = Some (Pooled u d)}" for u d
    proof -
      obtain qs where qs: "distinct qs" "free_list (sl_words h) (po_heads (pools u) d) qs" "set qs = {p. place p = Some (Pooled u d)}"
        using accountsD(6) [OF a, of u d] by blast
      show ?thesis
      proof (cases "u = t \<and> d = c")
        case True
        with qs head have "qs = []" by (simp add: free_list_null)
        with qs(3) True have "{p. place' p = Some (Pooled u d)} = set ps" using dist by (auto simp: place'_def)
        with True list(1) dist show ?thesis by (intro exI [of _ ps]) (simp add: po_def)
      next
        case False
        have "free_list (sl_words h') y qs = free_list (sl_words h) y qs" for y
        proof (rule free_list_cong, rule list(2))
          show "p \<notin> set ps" if "p \<in> set qs" for p using fresh [of p] that qs(3) set_cells by auto
        qed
        moreover have "place' p = Some (Pooled u d) \<longleftrightarrow> place p = Some (Pooled u d)" for p
        proof (cases "p \<in> ?cells")
          case True
          with fresh [OF True] False show ?thesis unfolding set_cells by (auto simp: place'_def)
        qed (simp add: place'_def set_cells)
        moreover have "po_heads ((pools(t := po)) u) d = po_heads (pools u) d" using False by (auto simp: po_def)
        ultimately show ?thesis using qs by auto
      qed
    qed
    show "cls (po_active ((pools(t := po)) u) d) = d \<and> cursor_ok place' (po_active ((pools(t := po)) u) d) d (po_offsets ((pools(t := po)) u) d)"
      if "po_active ((pools(t := po)) u) d \<noteq> 0" for u d
    proof (cases "u = t \<and> d = c")
      case True
      have open_slab: "\<not> closed" using that True active [of u d] by metis
      from cur(2) obtain i where i: "off = START + i * ?z" by (auto simp: cursor_ok_def)
      have "off + n * ?z = START + (i + n) * ?z" "START + Suc (i + n) * ?z \<le> BYTES"
        using i open_slab closed n(2) by (simp_all add: add_mult_distrib)
      moreover have "p < b + (off + n * ?z)" if "p \<in> cells_of place' b" for p
      proof (cases "p \<in> ?cells")
        case True
        from new(4) [OF True] show ?thesis by simp
      next
        case False
        with that have "p \<in> cells_of place b" unfolding cells_b by blast
        with cur(2) have "p < b + off" unfolding cursor_ok_def by blast
        then show ?thesis by simp
      qed
      ultimately have "cursor_ok place' b c (off + n * ?z)" using c unfolding cursor_ok_def by blast
      with True open_slab cur(1) show ?thesis by (simp add: po_def)
    next
      case False
      then have same: "po_active ((pools(t := po)) u) d = po_active (pools u) d" "po_offsets ((pools(t := po)) u) d = po_offsets (pools u) d"
        by (auto simp: po_def)
      have "cells_of place' (po_active (pools u) d) = cells_of place (po_active (pools u) d)" by (rule cells_other [OF other [OF False]])
      with that accountsD(7,8) [OF a, of u d] show ?thesis unfolding same cursor_ok_def by simp
    qed
    show "u = u' \<and> d = d'" if "po_active ((pools(t := po)) u) d = po_active ((pools(t := po)) u') d'" "po_active ((pools(t := po)) u) d \<noteq> 0" for u d u' d'
      using that other [of u d] other [of u' d'] accountsD(9) [OF a, of u d u' d'] unfolding active by (auto split: if_splits)
    show "slab_refs h' d = card (cells_of place' d) + cursors (pools(t := po)) d" for d
    proof (cases "d = b")
      case True
      have "(\<exists>u d. po_active ((pools(t := po)) u) d = b) \<longleftrightarrow> \<not> closed"
        using active other act(2) by (auto split: if_splits)
      then have "cursors (pools(t := po)) b = (if closed then 0 else 1)" using act(2) unfolding cursors_def by simp
      with True refs(2) accountsD(10) [OF a, of b] card_b one n(1) show ?thesis by simp
    next
      case False
      have "(\<exists>u e. po_active ((pools(t := po)) u) e = d) \<longleftrightarrow> (\<exists>u e. po_active (pools u) e = d)" if "d \<noteq> 0"
        using active act(1) False that by (metis (no_types))
      then have "cursors (pools(t := po)) d = cursors pools d" by (rule cursors_eq)
      with False accountsD(10) [OF a, of d] refs(2) cells_other [OF False] show ?thesis by simp
    qed
    show "d \<noteq> 0 \<and> BYTES dvd d" if "0 < slab_refs h' d" for d
      using that refs(2) accountsD(11) [OF a, of d] act(2) b by (cases "d = b") auto
  qed (rule refs(1))
qed

lemma Pool_refill_active:
  assumes "po_active po c = b" "b \<noteq> 0" "po_offsets po c = off" "0 < c" "c < NUM_CLASSES"
    and "min ((BYTES - off) div (c * SIZE_STEP)) (if off = START then 8 else 64) = n" "0 < n"
  shows "Pool_refill fresh c po h = do {
    h \<leftarrow> slab_issue b n h;
    let (next, words) = link_batch (b + off) (c * SIZE_STEP) n (sl_words h);
    let po = po\<lparr>po_heads := (po_heads po)(c := next), po_offsets := (po_offsets po)(c := off + n * (c * SIZE_STEP))\<rparr>;
    if BYTES - (off + n * (c * SIZE_STEP)) < c * SIZE_STEP then do {
      (_, h) \<leftarrow> slab_release b (h\<lparr>sl_words := words\<rparr>);
      Some (b + off, po\<lparr>po_active := (po_active po)(c := 0)\<rparr>, h) }
    else Some (b + off, po, h\<lparr>sl_words := words\<rparr>) }"
  unfolding Pool_refill_def Let_def using assms by (simp split del: if_split cong: if_cong)

lemma refill_active:
  assumes a: "accounts pools h live place cls" and act: "po_active (pools t) c \<noteq> 0" and head: "po_heads (pools t) c = 0"
  obtains p po h' place' where "Pool_refill fresh c (pools t) h = Some (p, po, h')" "accounts (pools(t := po)) h' (live(p \<mapsto> c)) place' cls"
    "live p = None"
proof -
  define b where "b = po_active (pools t) c"
  define off where "off = po_offsets (pools t) c"
  define z where "z = c * SIZE_STEP"
  define n where "n = min ((BYTES - off) div z) (if off = START then 8 else 64)"
  have cur: "cursor_ok place b c off" using accountsD(8) [OF a act] by (simp add: b_def off_def)
  then obtain i where i: "off = START + i * z" "START + Suc i * z \<le> BYTES" "0 < c" "c < NUM_CLASSES" unfolding cursor_ok_def z_def by blast
  then have room: "off + z \<le> BYTES" by simp
  have z: "0 < z" using i(3) by (simp add: z_def pool_consts)
  have "1 \<le> (BYTES - off) div z" using room z by (simp add: div_greater_zero_iff Suc_le_eq)
  then have n: "0 < n" by (simp add: n_def)
  have "n * z \<le> (BYTES - off) div z * z" by (rule mult_le_mono1) (simp add: n_def)
  also have "\<dots> \<le> BYTES - off" by (rule div_times_less_eq_dividend)
  finally have fits: "off + n * z \<le> BYTES" using room by linarith
  define closed where "closed \<longleftrightarrow> BYTES - (off + n * z) < z"
  have "cursors pools b = 1" using act unfolding cursors_def b_def by auto
  then have mapped: "0 < slab_refs h b" using accountsD(10) [OF a, of b] by simp
  obtain h1 where h1: "slab_issue b n h = Some h1" "refs_ok h1" "sl_words h1 = sl_words h" "slab_refs h1 = (slab_refs h)(b := slab_refs h b + n)"
    using slab.issue_refs [OF accountsD(2) [OF a] mapped] by blast
  obtain x w where link: "link_batch (b + off) z n (sl_words h) = (x, w)" by force
  have "0 < b + off" using i(1) by (simp add: START_def)
  from link_batch_spec [OF z this n link] obtain ps where ps: "batch_cells (b + off) z n = (b + off) # ps" "free_list w x ps"
    "\<And>q. q \<notin> set ps \<Longrightarrow> w q = sl_words h q" by blast
  define h2 where "h2 = h1\<lparr>sl_words := w\<rparr>"
  have h2: "refs_ok h2" "slab_refs h2 = (slab_refs h)(b := slab_refs h b + n)" using h1(2,4) by (simp_all add: h2_def)
  obtain h3 where h3: "slab_release b h2 = Some (1 = slab_refs h2 b, h3)" "refs_ok h3" "sl_words h3 = w" "slab_refs h3 = (slab_refs h2)(b := slab_refs h2 b - 1)"
    using slab.release_refs [OF h2(1), of 1 b] mapped h2(2) unfolding slab_release_def h2_def by auto
  define h' where "h' = (if closed then h3 else h2)"
  define po where "po = (pools t)\<lparr>po_heads := (po_heads (pools t))(c := x), po_offsets := (po_offsets (pools t))(c := off + n * z),
    po_active := (po_active (pools t))(c := if closed then 0 else b)\<rparr>"
  have "b \<noteq> 0" using act by (simp add: b_def)
  note run = Pool_refill_active [OF b_def [symmetric] this off_def [symmetric] i(3,4) n_def [unfolded z_def, symmetric] n, of fresh h, folded z_def]
  have keep: "(po_active (pools t))(c := b) = po_active (pools t)" by (simp add: b_def)
  have "Pool_refill fresh c (pools t) h = Some (b + off, po, h')"
  proof (cases closed)
    case True
    with h1(1,3) link h3(1) show ?thesis unfolding run by (simp add: closed_def h'_def po_def h2_def)
  next
    case False
    with h1(1,3) link show ?thesis unfolding run by (simp add: closed_def h'_def po_def h2_def keep)
  qed
  moreover have "accounts (pools(t := po)) h' (live(b + off \<mapsto> c))
      (\<lambda>p. if p = b + off then Some (Held c) else if p \<in> set ps then Some (Pooled t c) else place p) cls"
    unfolding po_def z_def
  proof (rule batch_accounts [OF a b_def [symmetric] _ head off_def [symmetric] n])
    show "b \<noteq> 0" using act by (simp add: b_def)
    show "slab_refs h' = (slab_refs h)(b := slab_refs h b + n - (if closed then 1 else 0))"
      using h2(2) h3(4) by (auto simp: h'_def fun_eq_iff)
  qed (use fits ps h2(1) h3(2,3) in \<open>simp_all add: z_def h'_def h2_def closed_def\<close>)
  moreover have "live (b + off) = None"
  proof (rule ccontr)
    assume "live (b + off) \<noteq> None"
    then have "b + off \<in> dom place" using accountsD(3) [OF a, of "b + off"] by fastforce
    moreover have "owner (b + off) = b"
      using accountsD(11) [OF a mapped] room z by (intro owner_in) auto
    ultimately show False using cur unfolding cursor_ok_def by blast
  qed
  ultimately show ?thesis by (rule that)
qed

lemma refill_accounts:
  assumes a: "accounts pools h live place cls" and head: "po_heads (pools t) c = 0"
    and "mappable fresh h" "0 < c" "c < NUM_CLASSES"
  obtains p po h' place' cls' where "Pool_refill fresh c (pools t) h = Some (p, po, h')" "accounts (pools(t := po)) h' (live(p \<mapsto> c)) place' cls'"
    "live p = None"
proof (cases "po_active (pools t) c = 0")
  case True
  let ?po = "(pools t)\<lparr>po_active := (po_active (pools t))(c := fresh), po_offsets := (po_offsets (pools t))(c := START)\<rparr>"
  have "fresh \<noteq> 0" using assms(3) by (simp add: mappable_def)
  then have eq: "Pool_refill fresh c (pools t) h = Pool_refill fresh c ?po (slab_allocate fresh h)"
    using True by (simp add: Pool_refill_def Let_def)
  obtain p po h' place' where r: "Pool_refill fresh c ?po (slab_allocate fresh h) = Some (p, po, h')"
    "accounts (pools(t := po)) h' (live(p \<mapsto> c)) place' (cls(fresh := c))" "live p = None"
  proof (rule refill_active [OF open_accounts [OF a True assms(3-5)], of t c fresh])
    fix p po h' place'
    assume r: "Pool_refill fresh c ((pools(t := ?po)) t) (slab_allocate fresh h) = Some (p, po, h')"
      "accounts (pools(t := ?po, t := po)) h' (live(p \<mapsto> c)) place' (cls(fresh := c))" "live p = None"
    show thesis by (rule that) (use r in simp_all)
  qed (use \<open>fresh \<noteq> 0\<close> head in simp_all)
  show ?thesis by (rule that [OF trans [OF eq r(1)] r(2,3)])
next
  case False
  obtain p po h' place' where "Pool_refill fresh c (pools t) h = Some (p, po, h')" "accounts (pools(t := po)) h' (live(p \<mapsto> c)) place' cls" "live p = None"
    by (rule refill_active [OF a False head])
  then show ?thesis by (rule that)
qed

text \<open>The end of a thread, one class at a time.\<close>

lemma drop_class_accounts:
  assumes a: "accounts pools h live place cls" and po: "po_heads po c = po_heads (pools t) c" "po_active po c = po_active (pools t) c"
  obtains h' place' where "drop_class po c h = Some h'"
    "accounts (pools(t := (pools t)\<lparr>po_heads := (po_heads (pools t))(c := 0), po_active := (po_active (pools t))(c := 0)\<rparr>)) h' live place' cls"
proof -
  define b where "b = po_active (pools t) c"
  let ?pools = "pools(t := (pools t)\<lparr>po_heads := (po_heads (pools t))(c := 0), po_active := (po_active (pools t))(c := 0)\<rparr>)"
  define place' where "place' = (\<lambda>p. if place p = Some (Pooled t c) then None else place p)"
  obtain ps where ps: "distinct ps" "free_list (sl_words h) (po_heads po c) ps" "set ps = {p. place p = Some (Pooled t c)}"
    using accountsD(6) [OF a, of t c] po(1) by auto
  define need where "need d = card (cells_of place' d) + cursors pools d" for d
  have dom: "dom place = dom place' \<union> set ps" "dom place' \<inter> set ps = {}" using ps(3) by (auto simp: place'_def split: if_splits)
  have refs: "slab_refs h d = need d + length (filter (\<lambda>q. owner q = d) ps)" for d
  proof -
    have "cells_of place d = cells_of place' d \<union> set (filter (\<lambda>q. owner q = d) ps)" using dom(1) by auto
    moreover have "card (set (filter (\<lambda>q. owner q = d) ps)) = length (filter (\<lambda>q. owner q = d) ps)"
      by (rule distinct_card) (simp add: ps(1))
    moreover have "cells_of place' d \<inter> set (filter (\<lambda>q. owner q = d) ps) = {}" using dom(2) by auto
    moreover have "finite (cells_of place' d)" using accountsD(1) [OF a] dom(1) by simp
    ultimately have "card (cells_of place d) = card (cells_of place' d) + length (filter (\<lambda>q. owner q = d) ps)"
      by (simp only: card_Un_disjoint finite_set)
    then show ?thesis using accountsD(10) [OF a, of d] by (simp add: need_def)
  qed
  obtain cur n h1 where h1: "drop_walk (po_heads po c) 0 0 h = Some (cur, n, h1)" "refs_ok h1" "sl_words h1 = sl_words h"
    "\<forall>d. slab_refs h1 d = need d + (if d = cur then n else 0)"
    using drop_walk_spec [OF ps(2) accountsD(2) [OF a], of need 0 0] refs by auto
  obtain h2 where h2: "release_run cur n h1 = Some h2" "refs_ok h2" "sl_words h2 = sl_words h" "slab_refs h2 = need"
    by (rule release_run_spec [OF h1(2), of n cur]) (use h1(3,4) in \<open>auto simp: fun_eq_iff\<close>)
  have active: "po_active (?pools u) d = (if u = t \<and> d = c then 0 else po_active (pools u) d)" for u d by simp
  have other: "po_active (pools u) d \<noteq> b" if "\<not> (u = t \<and> d = c)" "b \<noteq> 0" for u d
    using accountsD(9) [OF a, of u d t c] that by (auto simp: b_def)
  have cursor_b: "cursors pools b = 1" "cursors ?pools b = 0" if "b \<noteq> 0"
    using that other unfolding cursors_def active by (auto simp: b_def split: if_splits)
  have cursor_other: "cursors ?pools d = cursors pools d" if "d \<noteq> b" for d
  proof (rule cursors_eq)
    show "(\<exists>u e. po_active (?pools u) e = d) \<longleftrightarrow> (\<exists>u e. po_active (pools u) e = d)" if "d \<noteq> 0"
      using \<open>d \<noteq> b\<close> that unfolding active b_def by (metis (no_types))
  qed
  obtain h3 where h3: "drop_class po c h = Some h3" "refs_ok h3" "sl_words h3 = sl_words h" "\<And>d. slab_refs h3 d = card (cells_of place' d) + cursors ?pools d"
  proof (cases "b = 0")
    case True
    have "cursors ?pools 0 = cursors pools 0" by (simp add: cursors_def)
    with True cursor_other have "cursors ?pools d = cursors pools d" for d by (cases "d = b") simp_all
    with True h1(1) h2 po(2) show ?thesis by (intro that [of h2]) (simp_all add: drop_class_def need_def b_def)
  next
    case False
    then have "1 \<le> slab_refs h2 b" using h2(4) cursor_b(1) by (simp add: need_def)
    then obtain h3 where "release_many b 1 h2 = Some (1 = slab_refs h2 b, h3)" "refs_ok h3" "sl_words h3 = sl_words h2"
      "slab_refs h3 = (slab_refs h2)(b := slab_refs h2 b - 1)" using slab.release_refs [OF h2(2), of 1 b] by auto
    moreover from this h1(1) h2(1) False po(2) have "drop_class po c h = Some h3" by (simp add: drop_class_def slab_release_def b_def)
    moreover have "slab_refs h3 d = card (cells_of place' d) + cursors ?pools d" for d
      using calculation(4) h2(4) cursor_b [OF False] cursor_other [of d] by (cases "d = b") (simp_all add: need_def)
    ultimately show ?thesis using h2(3) by (intro that [of h3]) simp_all
  qed
  have "accounts ?pools h3 live place' cls"
  proof (rule accountsI)
    show "finite (dom place')" using accountsD(1) [OF a] dom(1) by simp
    show "live p = Some d \<longleftrightarrow> place' p = Some (Held d)" for p d using accountsD(3) [OF a, of p d] by (simp add: place'_def)
    show "cell_at (holder_class k) p \<and> cls (owner p) = holder_class k" if "place' p = Some k" for p k
      using that accountsD(4,5) [OF a, of p k] by (simp add: place'_def split: if_splits)
    show "\<exists>qs. distinct qs \<and> free_list (sl_words h3) (po_heads (?pools u) d) qs \<and> set qs = {p. place' p = Some (Pooled u d)}" for u d
    proof (cases "u = t \<and> d = c")
      case True
      then show ?thesis by (intro exI [of _ "[]"]) (simp add: place'_def)
    next
      case False
      have "place' p = Some (Pooled u d) \<longleftrightarrow> place p = Some (Pooled u d)" for p using False by (auto simp: place'_def)
      moreover have "po_heads (?pools u) d = po_heads (pools u) d" using False by auto
      ultimately show ?thesis using accountsD(6) [OF a, of u d] h3(3) by simp
    qed
    show "cls (po_active (?pools u) d) = d \<and> cursor_ok place' (po_active (?pools u) d) d (po_offsets (?pools u) d)"
      if "po_active (?pools u) d \<noteq> 0" for u d
    proof -
      have same: "po_active (?pools u) d = po_active (pools u) d" "po_offsets (?pools u) d = po_offsets (pools u) d"
        using that unfolding active by (auto split: if_splits)
      have "dom place' \<subseteq> dom place" using dom(1) by blast
      then have "cursor_ok place x e y \<Longrightarrow> cursor_ok place' x e y" for x e y unfolding cursor_ok_def by blast
      with that accountsD(7,8) [OF a, of u d] show ?thesis unfolding same by blast
    qed
    show "u = u' \<and> d = d'" if "po_active (?pools u) d = po_active (?pools u') d'" "po_active (?pools u) d \<noteq> 0" for u d u' d'
      using that accountsD(9) [OF a, of u d u' d'] unfolding active by (auto split: if_splits)
    show "d \<noteq> 0 \<and> BYTES dvd d" if "0 < slab_refs h3 d" for d
    proof -
      have "cursors ?pools d \<le> cursors pools d" by (cases "d = b") (use cursor_b cursor_other in \<open>auto simp: cursors_def\<close>)
      then have "0 < slab_refs h d" using that h3(4) [of d] refs [of d, unfolded need_def] by linarith
      then show ?thesis by (rule accountsD(11) [OF a])
    qed
  qed (rule h3)+
  with h3(1) that show ?thesis by blast
qed

lemma drop_classes_accounts:
  "accounts pools h live place cls \<Longrightarrow> distinct cs \<Longrightarrow>
   \<forall>c \<in> set cs. po_heads po c = po_heads (pools t) c \<and> po_active po c = po_active (pools t) c \<Longrightarrow>
   \<exists>h' place' pl. drop_classes po cs h = Some h' \<and> accounts (pools(t := pl)) h' live place' cls \<and>
     (\<forall>c. po_heads pl c = (if c \<in> set cs then 0 else po_heads (pools t) c) \<and> po_active pl c = (if c \<in> set cs then 0 else po_active (pools t) c))"
proof (induction cs arbitrary: pools h place)
  case Nil
  then show ?case by (intro exI [of _ h] exI [of _ place] exI [of _ "pools t"]) simp
next
  case (Cons c cs)
  let ?pl = "(pools t)\<lparr>po_heads := (po_heads (pools t))(c := 0), po_active := (po_active (pools t))(c := 0)\<rparr>"
  obtain h1 place1 where 1: "drop_class po c h = Some h1" "accounts (pools(t := ?pl)) h1 live place1 cls"
    by (rule drop_class_accounts [OF Cons.prems(1), of po c t]) (use Cons.prems(3) in auto)
  have "\<forall>d \<in> set cs. po_heads po d = po_heads ((pools(t := ?pl)) t) d \<and> po_active po d = po_active ((pools(t := ?pl)) t) d"
    using Cons.prems(2,3) by auto
  moreover have "distinct cs" using Cons.prems(2) by simp
  ultimately have "\<exists>h' place' pl. drop_classes po cs h1 = Some h' \<and> accounts (pools(t := pl)) h' live place' cls \<and>
      (\<forall>d. po_heads pl d = (if d \<in> set cs then 0 else po_heads ?pl d) \<and> po_active pl d = (if d \<in> set cs then 0 else po_active ?pl d))"
    using Cons.IH [OF 1(2)] unfolding fun_upd_same fun_upd_upd by blast
  then obtain h' place' pl where 2: "drop_classes po cs h1 = Some h'" "accounts (pools(t := pl)) h' live place' cls"
    "\<forall>d. po_heads pl d = (if d \<in> set cs then 0 else po_heads ?pl d) \<and> po_active pl d = (if d \<in> set cs then 0 else po_active ?pl d)"
    by blast
  show ?case
  proof (intro exI conjI)
    show "drop_classes po (c # cs) h = Some h'" using 1(1) 2(1) by simp
    show "accounts (pools(t := pl)) h' live place' cls" by (rule 2(2))
    show "\<forall>d. po_heads pl d = (if d \<in> set (c # cs) then 0 else po_heads (pools t) d) \<and> po_active pl d = (if d \<in> set (c # cs) then 0 else po_active (pools t) d)"
      using 2(3) by simp
  qed
qed

lemma accounts_cong:
  assumes a: "accounts pools h live place cls" and heads: "\<And>u. po_heads (pools' u) = po_heads (pools u)"
    and active: "\<And>u. po_active (pools' u) = po_active (pools u)" and "\<And>u c. po_active (pools u) c \<noteq> 0 \<Longrightarrow> po_offsets (pools' u) c = po_offsets (pools u) c"
  shows "accounts pools' h live place cls"
proof (rule accountsI)
  show "cls (po_active (pools' t) c) = c \<and> cursor_ok place (po_active (pools' t) c) c (po_offsets (pools' t) c)"
    if "po_active (pools' t) c \<noteq> 0" for t c using that accountsD(7,8) [OF a, of t c] assms(4) [of t c] unfolding active by simp
  show "cell_at (holder_class k) p \<and> cls (owner p) = holder_class k" if "place p = Some k" for p k
    using accountsD(4,5) [OF a that] by blast
  show "\<exists>ps. distinct ps \<and> free_list (sl_words h) (po_heads (pools' t) c) ps \<and> set ps = {p. place p = Some (Pooled t c)}" for t c
    unfolding heads by (rule accountsD(6) [OF a])
  show "t = t' \<and> c = c'" if "po_active (pools' t) c = po_active (pools' t') c'" "po_active (pools' t) c \<noteq> 0" for t c t' c'
    using that accountsD(9) [OF a] unfolding active by blast
  show "slab_refs h b = card (cells_of place b) + cursors pools' b" for b
    unfolding cursors_cong [of pools' pools, OF active] by (rule accountsD(10) [OF a])
qed (rule accountsD(1) [OF a] accountsD(2) [OF a] accountsD(3) [OF a] accountsD(11) [OF a], assumption?)+

lemma no_class:
  assumes a: "accounts pools h live place cls" and c: "\<not> c < NUM_CLASSES"
  shows "po_heads (pools t) c = 0" "po_active (pools t) c = 0"
proof -
  obtain ps where ps: "free_list (sl_words h) (po_heads (pools t) c) ps" "set ps = {p. place p = Some (Pooled t c)}"
    using accountsD(6) [OF a, of t c] by blast
  have "place p \<noteq> Some (Pooled t c)" for p using accountsD(4) [OF a, of p "Pooled t c"] c by (auto simp: cell_at_def)
  with ps show "po_heads (pools t) c = 0" by (cases ps) auto
  show "po_active (pools t) c = 0" using accountsD(8) [OF a, of t c] c by (auto simp: cursor_ok_def)
qed

lemma exit_accounts:
  assumes a: "accounts pools h live place cls"
  obtains h' place' where "Pool_drop (pools t) h = Some h'" "po_reclaim (pools t) \<Longrightarrow> accounts (pools(t := Pool_new)) h' live place' cls"
proof (cases "po_reclaim (pools t)")
  case True
  from drop_classes_accounts [OF a, of "[0..<NUM_CLASSES]" "pools t" t] obtain h' place' pl where
    r: "drop_classes (pools t) [0..<NUM_CLASSES] h = Some h'" "accounts (pools(t := pl)) h' live place' cls"
    "\<And>c. po_heads pl c = (if c < NUM_CLASSES then 0 else po_heads (pools t) c)" "\<And>c. po_active pl c = (if c < NUM_CLASSES then 0 else po_active (pools t) c)"
    by auto
  have idle: "po_heads pl = (\<lambda>_. 0)" "po_active pl = (\<lambda>_. 0)" using r(3,4) no_class [OF a] by (auto simp: fun_eq_iff)
  have "accounts (pools(t := Pool_new)) h' live place' cls"
    by (rule accounts_cong [OF r(2)]) (use idle in \<open>auto simp: Pool_new_def\<close>)
  with r(1) True that show ?thesis by (simp add: Pool_drop_def)
qed (use that in \<open>simp add: Pool_drop_def\<close>)

lemma take_total:
  assumes a: "accounts pools h live place cls" and "mappable fresh h" "0 < c" "c < NUM_CLASSES"
  obtains p po h' place' cls' where "Pool_take fresh c (pools t) h = Some (p, po, h')" "accounts (pools(t := po)) h' (live(p \<mapsto> c)) place' cls'"
    "live p = None"
proof (cases "po_heads (pools t) c = 0")
  case True
  with assms(4) have eq: "Pool_take fresh c (pools t) h = Pool_refill fresh c (pools t) h" by (simp add: Pool_take_def)
  obtain p po h' place' cls' where "Pool_refill fresh c (pools t) h = Some (p, po, h')" "accounts (pools(t := po)) h' (live(p \<mapsto> c)) place' cls'"
    "live p = None" by (rule refill_accounts [OF a True assms(2-4)])
  with eq show ?thesis by (intro that) simp_all
next
  case False
  define p where "p = po_heads (pools t) c"
  note t = take_accounts [OF a p_def [symmetric] False [folded p_def]]
  have "sl_remaining h (owner p) \<noteq> None" using held_mapped [OF a t(2)] mapped_iff [OF accountsD(2) [OF a]] by simp
  then have "Pool_take fresh c (pools t) h = Some (p, (pools t)\<lparr>po_heads := (po_heads (pools t))(c := sl_words h p)\<rparr>, h)"
    using False assms(4) by (simp add: Pool_take_def read_link_def p_def [symmetric])
  moreover have "live p = None"
  proof (rule ccontr)
    assume "live p \<noteq> None"
    then obtain d where "live p = Some d" by auto
    with accountsD(3) [OF a] t(2) show False by simp
  qed
  ultimately show ?thesis using that t(1) by blast
qed

lemma push_total:
  assumes a: "accounts pools h live place cls" and p: "live p = Some c"
  shows "pool_push c p (pools t) h =
    Some ((pools t)\<lparr>po_heads := (po_heads (pools t))(c := p)\<rparr>, h\<lparr>sl_words := (sl_words h)(p := po_heads (pools t) c)\<rparr>)"
proof -
  have here: "place p = Some (Held c)" using p accountsD(3) [OF a] by blast
  then have "sl_remaining h (owner p) \<noteq> None" using held_mapped [OF a here] mapped_iff [OF accountsD(2) [OF a]] by simp
  moreover have "c < NUM_CLASSES" using accountsD(4) [OF a here] by (simp add: cell_at_def)
  ultimately show ?thesis by (simp add: pool_push_def write_word_def)
qed

text \<open>A cell in use, by its address and class, lies in its slab.\<close>

lemma cell_at_range:
  assumes "cell_at c p"
  shows "owner p + START \<le> p" "p + c * SIZE_STEP \<le> owner p + BYTES" "SIZE_STEP dvd p"
proof -
  from assms obtain i where i: "p = owner p + START + i * (c * SIZE_STEP)" "START + Suc i * (c * SIZE_STEP) \<le> BYTES"
    by (auto simp: cell_at_def)
  from i(2) have "START + i * (c * SIZE_STEP) + c * SIZE_STEP \<le> BYTES" by simp
  with i(1) show "owner p + START \<le> p" "p + c * SIZE_STEP \<le> owner p + BYTES" by linarith+
  have "SIZE_STEP dvd owner p" using owner_dvd [of p] by (rule dvd_trans [rotated]) (simp add: pool_consts)
  moreover have "SIZE_STEP dvd START" by (simp add: pool_consts)
  ultimately have "SIZE_STEP dvd owner p + START + i * (c * SIZE_STEP)" by simp
  with i(1) show "SIZE_STEP dvd p" by metis
qed

lemma write_total:
  assumes a: "accounts pools h live place cls" and p: "live p = Some c" "k < c"
  shows "write_word (p + SIZE_STEP * k) w h = Some (h\<lparr>sl_words := (sl_words h)(p + SIZE_STEP * k := w)\<rparr>)"
proof -
  have here: "place p = Some (Held c)" using p(1) accountsD(3) [OF a] by blast
  have cell: "cell_at c p" using accountsD(4) [OF a here] by simp
  have "SIZE_STEP * k < c * SIZE_STEP" using p(2) by (simp add: pool_consts)
  then have "owner (p + SIZE_STEP * k) = owner p"
    using cell_at_range(1,2) [OF cell] by (intro owner_in owner_dvd) linarith+
  then show ?thesis using held_mapped [OF a here] mapped_iff [OF accountsD(2) [OF a]] by (simp add: write_word_def)
qed

text \<open>A state of the system is accounted for when there are such places and classes.\<close>

definition accounted :: "pool_system \<Rightarrow> bool" where
  "accounted s \<longleftrightarrow> (\<exists>place cls. accounts (ps_pools s) (ps_heap s) (ps_live s) place cls)"

lemma step_accounted:
  assumes "pool_step s s'" "accounted s"
  shows "accounted s'"
proof -
  from assms(2) obtain place cls where a: "accounts (ps_pools s) (ps_heap s) (ps_live s) place cls" unfolding accounted_def by blast
  from assms(1) show ?thesis
  proof cases
    case (take c fresh t p po h)
    obtain p' po' h' place' cls' where "Pool_take fresh c (ps_pools s t) (ps_heap s) = Some (p', po', h')"
      "accounts ((ps_pools s)(t := po')) h' ((ps_live s)(p' \<mapsto> c)) place' cls'"
      by (rule take_total [OF a take(4,2,3)])
    with take(1,5) show ?thesis by (auto simp: accounted_def)
  next
    case (push p c t po h)
    with push_total [OF a push(2), of t] push_accounts [OF a push(2), of t] show ?thesis by (auto simp: accounted_def)
  next
    case (store p c k w h)
    with write_total [OF a store(2,3), of w] write_accounts [OF a store(2,3), of w] show ?thesis by (auto simp: accounted_def)
  next
    case (exit t h)
    obtain h' place' where "Pool_drop (ps_pools s t) (ps_heap s) = Some h'" "accounts ((ps_pools s)(t := Pool_new)) h' (ps_live s) place' cls"
      using exit_accounts [OF a, of t] exit(2) by metis
    with exit(1,3) show ?thesis by (auto simp: accounted_def)
  next
    case (finish t)
    have "accounts ((ps_pools s)(t := (ps_pools s t)\<lparr>po_reclaim := False\<rparr>)) (ps_heap s) (ps_live s) place cls"
      by (rule accounts_cong [OF a]) auto
    with finish show ?thesis by (auto simp: accounted_def)
  qed
qed

lemma reachable_accounted: "pool_reachable s \<Longrightarrow> accounted s"
proof (induction rule: rtranclp_induct)
  case base
  show ?case unfolding accounted_def using accounts_empty by blast
qed (rule step_accounted)

text \<open>A run: one thread takes two cells of 48 bytes.\<close>

lemma two_taken:
  "case Pool_take 65536 6 Pool_new (ps_heap empty_system) of
     None \<Rightarrow> False
   | Some (p, po, h) \<Rightarrow> p = 65544 \<and> sl_remaining h 131072 = None \<and>
       (case Pool_take 131072 6 po h of None \<Rightarrow> False | Some (q, po', h') \<Rightarrow> q = 65592)"
  by (simp add: Pool_take_def Pool_refill_def Pool_new_def empty_system_def slab_allocate_def slab_issue_def read_link_def link_batch_def
      pool_consts Let_def upt_rec [of _ "numeral _"] owner_eq)

lemma two_cells: "\<exists>s. pool_reachable s \<and> ps_live s 65544 = Some 6 \<and> ps_live s 65592 = Some 6"
proof -
  obtain po h po' h' where run: "Pool_take 65536 6 Pool_new (ps_heap empty_system) = Some (65544, po, h)" "sl_remaining h 131072 = None"
    "Pool_take 131072 6 po h = Some (65592, po', h')"
    using two_taken by (auto split: option.splits)
  let ?s = "\<lparr>ps_pools = (ps_pools empty_system)(0 := po), ps_heap = h, ps_live = (ps_live empty_system)(65544 \<mapsto> 6)\<rparr>"
  let ?s' = "\<lparr>ps_pools = (ps_pools ?s)(0 := po'), ps_heap = h', ps_live = (ps_live ?s)(65592 \<mapsto> 6)\<rparr>"
  have "pool_step empty_system ?s"
    by (rule pool_step.take [where fresh = 65536]) (use run(1) in \<open>simp_all add: empty_system_def mappable_def pool_consts\<close>)
  moreover have "pool_step ?s ?s'"
    by (rule pool_step.take [where fresh = 131072]) (use run(2,3) in \<open>simp_all add: mappable_def pool_consts\<close>)
  ultimately have "pool_reachable ?s'" by (meson converse_rtranclp_into_rtranclp r_into_rtranclp)
  then show ?thesis by (intro exI [of _ ?s']) simp
qed

section \<open>What programs get from the allocator\<close>

text \<open>
  C18: However threads take, write, return and exchange cells and end, a cell in use lies in a mapped slab,
  behind its header, aligned, with the room of its class, and shares no byte with another cell in use.
\<close>

theorem pool_cells_separate:
  assumes "pool_reachable s" "ps_live s p = Some c"
  shows "sl_remaining (ps_heap s) (owner p) \<noteq> None \<and> owner p + START \<le> p \<and> p + c * SIZE_STEP \<le> owner p + BYTES \<and> SIZE_STEP dvd p \<and>
    (\<forall>q d. ps_live s q = Some d \<longrightarrow> q \<noteq> p \<longrightarrow> {p..<p + c * SIZE_STEP} \<inter> {q..<q + d * SIZE_STEP} = {})"
proof -
  from reachable_accounted [OF assms(1)] obtain place cls where a: "accounts (ps_pools s) (ps_heap s) (ps_live s) place cls"
    unfolding accounted_def by blast
  have held: "place q = Some (Held d)" if "ps_live s q = Some d" for q d using that accountsD(3) [OF a] by blast
  note p = held [OF assms(2)]
  have cell: "cell_at c p" using accountsD(4) [OF a p] by simp
  have mapped: "sl_remaining (ps_heap s) (owner p) \<noteq> None" using held_mapped [OF a p] mapped_iff [OF accountsD(2) [OF a]] by simp
  have "{p..<p + c * SIZE_STEP} \<inter> {q..<q + d * SIZE_STEP} = {}" if q: "ps_live s q = Some d" "q \<noteq> p" for q d
  proof (cases "p < q")
    case True
    from held_apart [OF a p held [OF q(1)] True] show ?thesis by auto
  next
    case False
    with q(2) have "q < p" by simp
    from held_apart [OF a held [OF q(1)] p this] show ?thesis by auto
  qed
  with cell_at_range [OF cell] mapped show ?thesis by blast
qed

theorem pool_cells_separate_witness:
  "\<exists>s. pool_reachable s \<and> ps_live s 65592 = Some 6 \<and> {65544..<65592 :: nat} \<inter> {65592..<65640} = {} \<and>
    (sl_remaining (ps_heap s) (owner 65544) \<noteq> None \<and> owner 65544 + START \<le> 65544 \<and> 65544 + 6 * SIZE_STEP \<le> owner 65544 + BYTES \<and> SIZE_STEP dvd 65544 \<and>
    (\<forall>q d. ps_live s q = Some d \<longrightarrow> q \<noteq> 65544 \<longrightarrow> {65544..<65544 + 6 * SIZE_STEP} \<inter> {q..<q + d * SIZE_STEP} = {}))"
proof -
  obtain s where s: "pool_reachable s" "ps_live s 65544 = Some 6" "ps_live s 65592 = Some 6" using two_cells by blast
  show ?thesis using pool_cells_separate [OF s(1,2)] s by (intro exI [of _ s]) auto
qed

text \<open>
  C19: In every state the allocator can get into, no call reads or counts a slab that is not mapped, runs
  a counter below 0 or follows a free list forever: a cell of any pooled class can be taken, and is not one
  in use; a cell in use can be written and given back to any thread; and every thread can end.
\<close>

theorem pool_never_faults:
  assumes "pool_reachable s"
  shows "(\<forall>c fresh. 0 < c \<longrightarrow> c < NUM_CLASSES \<longrightarrow> mappable fresh (ps_heap s) \<longrightarrow>
      (\<exists>p po h. Pool_take fresh c (ps_pools s t) (ps_heap s) = Some (p, po, h) \<and> ps_live s p = None)) \<and>
    (\<forall>p c. ps_live s p = Some c \<longrightarrow>
      pool_push c p (ps_pools s t) (ps_heap s) \<noteq> None \<and> (\<forall>k w. k < c \<longrightarrow> write_word (p + SIZE_STEP * k) w (ps_heap s) \<noteq> None)) \<and>
    Pool_drop (ps_pools s t) (ps_heap s) \<noteq> None"
proof -
  from reachable_accounted [OF assms] obtain place cls where a: "accounts (ps_pools s) (ps_heap s) (ps_live s) place cls"
    unfolding accounted_def by blast
  have "\<exists>p po h. Pool_take fresh c (ps_pools s t) (ps_heap s) = Some (p, po, h) \<and> ps_live s p = None"
    if "0 < c" "c < NUM_CLASSES" "mappable fresh (ps_heap s)" for c fresh
    by (rule take_total [OF a that(3,1,2), of t]) blast
  moreover have "Pool_drop (ps_pools s t) (ps_heap s) \<noteq> None" by (rule exit_accounts [OF a, of t]) simp
  ultimately show ?thesis using push_total [OF a] write_total [OF a] by simp
qed

theorem pool_never_faults_witness:
  "\<exists>s. pool_reachable s \<and> ps_live s 65544 = Some 6 \<and> pool_push 6 65544 (ps_pools s 1) (ps_heap s) \<noteq> None \<and>
    Pool_drop (ps_pools s 1) (ps_heap s) \<noteq> None"
proof -
  obtain s where s: "pool_reachable s" "ps_live s 65544 = Some 6" using two_cells by blast
  show ?thesis using pool_never_faults [OF s(1), of 1] s by (intro exI [of _ s]) simp
qed

text \<open>
  C20: A slab is mapped exactly as long as somebody owns a part of it: a cell in use, the cursor of a pool,
  or a cell on a free list.
\<close>

theorem pool_slab_mapped_iff:
  assumes "pool_reachable s"
  shows "sl_remaining (ps_heap s) b \<noteq> None \<longleftrightarrow>
    (\<exists>p c. ps_live s p = Some c \<and> owner p = b) \<or>
    (b \<noteq> 0 \<and> (\<exists>t c. po_active (ps_pools s t) c = b)) \<or>
    (\<exists>t c ps p. free_list (sl_words (ps_heap s)) (po_heads (ps_pools s t) c) ps \<and> p \<in> set ps \<and> owner p = b)"
    (is "?mapped \<longleftrightarrow> ?used \<or> ?cursor \<or> ?listed")
proof -
  from reachable_accounted [OF assms] obtain place cls where a: "accounts (ps_pools s) (ps_heap s) (ps_live s) place cls"
    unfolding accounted_def by blast
  have listed: "?listed \<longleftrightarrow> (\<exists>t c p. place p = Some (Pooled t c) \<and> owner p = b)"
  proof -
    have "(\<exists>ps p. free_list (sl_words (ps_heap s)) (po_heads (ps_pools s t) c) ps \<and> p \<in> set ps \<and> owner p = b) \<longleftrightarrow>
        (\<exists>p. place p = Some (Pooled t c) \<and> owner p = b)" for t c
    proof -
      obtain qs where qs: "free_list (sl_words (ps_heap s)) (po_heads (ps_pools s t) c) qs" "set qs = {p. place p = Some (Pooled t c)}"
        using accountsD(6) [OF a, of t c] by blast
      have "free_list (sl_words (ps_heap s)) (po_heads (ps_pools s t) c) ps \<longleftrightarrow> ps = qs" for ps
        using free_list_unique [OF _ qs(1)] qs(1) by blast
      then have "(\<exists>ps p. free_list (sl_words (ps_heap s)) (po_heads (ps_pools s t) c) ps \<and> p \<in> set ps \<and> owner p = b) \<longleftrightarrow> (\<exists>p \<in> set qs. owner p = b)"
        by (simp add: Bex_def)
      then show ?thesis unfolding qs(2) by simp
    qed
    then show ?thesis by blast
  qed
  have "?mapped \<longleftrightarrow> 0 < card (cells_of place b) + cursors (ps_pools s) b"
    using mapped_iff [OF accountsD(2) [OF a], of b] accountsD(10) [OF a, of b] by simp
  also have "\<dots> \<longleftrightarrow> (\<exists>p \<in> dom place. owner p = b) \<or> ?cursor"
    using finite_cells [OF a, of b] by (auto simp: card_gt_0_iff cursors_def)
  also have "(\<exists>p \<in> dom place. owner p = b) \<longleftrightarrow> ?used \<or> ?listed"
  proof -
    have dom: "p \<in> dom place \<longleftrightarrow> (\<exists>c. ps_live s p = Some c) \<or> (\<exists>t c. place p = Some (Pooled t c))" for p
      using accountsD(3) [OF a, of p] by (metis domD domI holder.exhaust)
    show ?thesis unfolding listed Bex_def dom by blast
  qed
  finally show ?thesis by blast
qed

theorem pool_slab_mapped_iff_witness:
  "\<exists>s. pool_reachable s \<and> ps_live s 65544 = Some 6 \<and> sl_remaining (ps_heap s) (owner 65544) \<noteq> None"
proof -
  obtain s where s: "pool_reachable s" "ps_live s 65544 = Some 6" using two_cells by blast
  show ?thesis using pool_slab_mapped_iff [OF s(1), of "owner 65544"] s by (intro exI [of _ s]) blast
qed

text \<open>What remains of a reservation after its ends are trimmed is one aligned slab inside it.\<close>

lemma map_aligned_spec:
  assumes "map_aligned raw = (address, before, after)"
  shows "BYTES dvd address" "address = raw + before" "before + after = BYTES" "address + BYTES + after = raw + 2 * BYTES"
proof -
  have "(int raw + int BYTES - 1) AND NOT (int BYTES - 1) = int ((raw + BYTES - 1) div BYTES * BYTES)"
    unfolding and_not_bytes by (simp add: zdiv_int BYTES_def)
  with assms have a: "address = (raw + BYTES - 1) div BYTES * BYTES" "before = address - raw" "after = BYTES - before"
    by (auto simp: map_aligned_def Let_def simp del: of_nat_mult of_nat_add)
  show "BYTES dvd address" by (simp add: a(1))
  have "raw \<le> address" "address < raw + BYTES" unfolding a(1) by (simp_all add: BYTES_def)
  with a(2,3) show "address = raw + before" "before + after = BYTES" "address + BYTES + after = raw + 2 * BYTES" by auto
qed

end
