(* ===== verification/Fai_Doc.thy ===== *)
theory Fai_Doc
  imports Fai_Prelude
begin

text \<open>
  The pretty-printing documents of the formatter, \<^verbatim>\<open>fai-fmt/src/doc.rs\<close>: the document type, the fit
  test and the printer. The stacks of the printer and of the fit test are lists with the top first.
  Columns are compared as 32-bit signed numbers, which \<open>as_i32\<close> and \<open>i32_sub\<close> wrap around.
\<close>

section \<open>Documents\<close>

datatype doc =
    Text utext
  | LineSuffix utext
  | Line
  | Softline
  | Hardline
  | Nest nat doc
  | Concat "doc list"
  | Group doc

fun has_line_suffix :: "doc \<Rightarrow> bool" where
  "has_line_suffix (LineSuffix _) = True"
| "has_line_suffix (Concat docs) = list_ex has_line_suffix docs"
| "has_line_suffix (Nest _ inner) = has_line_suffix inner"
| "has_line_suffix (Group inner) = has_line_suffix inner"
| "has_line_suffix _ = False"

datatype mode = Flat | Break

definition newline :: scalar where "newline = 10"
definition blank :: scalar where "blank = 32"

section \<open>The fit test\<close>

definition as_i32 :: "int \<Rightarrow> int" where
  "as_i32 n = (n + 2 ^ 31) mod 2 ^ 32 - 2 ^ 31"

definition i32_sub :: "int \<Rightarrow> int \<Rightarrow> int" where
  "i32_sub a b = as_i32 (a - b)"

type_synonym items = "(nat \<times> mode \<times> doc) list"

text \<open>
  The loop of \<^verbatim>\<open>fits\<close>. The worklist is what is left of the tested group, the rest is the printer's
  stack, taken from when the worklist is empty.
\<close>

definition total :: "doc list \<Rightarrow> nat" where
  "total docs = (\<Sum>d \<leftarrow> docs. size d + 1)"

lemma total_simps [simp]:
  "total [] = 0" "total (d # docs) = size d + 1 + total docs" "total (docs @ docs') = total docs + total docs'"
  by (simp_all add: total_def)

lemma size_list_total: "size_list size docs = total docs"
  by (induction docs) simp_all

function fits_loop :: "int \<Rightarrow> (mode \<times> doc) list \<Rightarrow> items \<Rightarrow> bool" where
  "fits_loop remaining [] [] = True"
| "fits_loop remaining [] ((_, mode, doc) # rest) = fits_loop remaining [(mode, doc)] rest"
| "fits_loop remaining ((mode, LineSuffix s) # work) rest =
     (let r = i32_sub remaining (as_i32 (int (length s)) + 1) in 0 \<le> r \<and> fits_loop r work rest)"
| "fits_loop remaining ((mode, Text s) # work) rest =
     (newline \<in> set s \<or>
      (let r = i32_sub remaining (as_i32 (int (length s))) in 0 \<le> r \<and> fits_loop r work rest))"
| "fits_loop remaining ((mode, Concat docs) # work) rest = fits_loop remaining (map (Pair mode) docs @ work) rest"
| "fits_loop remaining ((mode, Nest n inner) # work) rest = fits_loop remaining ((mode, inner) # work) rest"
| "fits_loop remaining ((mode, Group inner) # work) rest = fits_loop remaining ((Flat, inner) # work) rest"
| "fits_loop remaining ((Flat, Line) # work) rest =
     (let r = i32_sub remaining 1 in 0 \<le> r \<and> fits_loop r work rest)"
| "fits_loop remaining ((Break, Line) # work) rest = True"
| "fits_loop remaining ((Flat, Softline) # work) rest = fits_loop remaining work rest"
| "fits_loop remaining ((Break, Softline) # work) rest = True"
| "fits_loop remaining ((Flat, Hardline) # work) rest = False"
| "fits_loop remaining ((Break, Hardline) # work) rest = True"
  by pat_completeness auto

termination fits_loop
  by (relation "measures [\<lambda>(r, w, s). total (map snd w) + total (map (snd \<circ> snd) s), \<lambda>(r, w, s). length s]")
    (auto simp: size_list_total comp_def)

definition fits :: "int \<Rightarrow> doc \<Rightarrow> items \<Rightarrow> bool" where
  "fits remaining doc rest = (if remaining < 0 then False else fits_loop remaining [(Flat, doc)] rest)"

section \<open>The printer\<close>

record printer =
  pr_out :: utext
  pr_col :: nat
  pr_pending :: "nat option"
  pr_suffixes :: "utext list"

definition flush_indent :: "printer \<Rightarrow> printer" where
  "flush_indent p =
     (case pr_pending p of
        Some indent \<Rightarrow> p\<lparr>pr_out := pr_out p @ replicate indent blank, pr_pending := None\<rparr>
      | None \<Rightarrow> p)"

text \<open>The separator before the \<open>i\<close>-th suffix, then the suffix.\<close>

definition suffix_text :: "nat \<Rightarrow> nat \<times> utext \<Rightarrow> utext" where
  "suffix_text indent = (\<lambda>(i, s). (if i = 0 then [blank] else newline # replicate indent blank) @ s)"

definition flush_suffixes :: "nat \<Rightarrow> printer \<Rightarrow> printer" where
  "flush_suffixes indent p =
     p\<lparr>pr_out := pr_out p @ concat (map (suffix_text indent) (enumerate 0 (pr_suffixes p))), pr_suffixes := []\<rparr>"

definition break_line :: "nat \<Rightarrow> printer \<Rightarrow> printer" where
  "break_line indent p = p\<lparr>pr_out := pr_out p @ [newline], pr_pending := Some indent, pr_col := indent\<rparr>"

text \<open>The characters after the last newline, \<^verbatim>\<open>rfind\<close> and the slice after it.\<close>

definition last_line :: "utext \<Rightarrow> utext" where
  "last_line s = rev (takeWhile (\<lambda>c. c \<noteq> newline) (rev s))"

definition print_text :: "utext \<Rightarrow> printer \<Rightarrow> printer" where
  "print_text s p =
     (let p1 = (if s \<noteq> [] then let q = flush_indent p in q\<lparr>pr_out := pr_out q @ s\<rparr> else p)
      in p1\<lparr>pr_col := (if newline \<in> set s then length (last_line s) else pr_col p + length s)\<rparr>)"

definition print_line :: "nat \<Rightarrow> mode \<Rightarrow> printer \<Rightarrow> printer" where
  "print_line indent mode p =
     (if pr_suffixes p \<noteq> [] then break_line indent (flush_suffixes indent p)
      else case mode of
        Flat \<Rightarrow> (let q = flush_indent p in q\<lparr>pr_out := pr_out q @ [blank], pr_col := pr_col q + 1\<rparr>)
      | Break \<Rightarrow> break_line indent p)"

definition print_softline :: "nat \<Rightarrow> mode \<Rightarrow> printer \<Rightarrow> printer" where
  "print_softline indent mode p =
     (if pr_suffixes p \<noteq> [] then break_line indent (flush_suffixes indent p)
      else case mode of Flat \<Rightarrow> p | Break \<Rightarrow> break_line indent p)"

definition print_hardline :: "nat \<Rightarrow> printer \<Rightarrow> printer" where
  "print_hardline indent p = break_line indent (flush_suffixes indent p)"

definition group_mode :: "nat \<Rightarrow> doc \<Rightarrow> items \<Rightarrow> printer \<Rightarrow> mode" where
  "group_mode width inner stack p =
     (let remaining = i32_sub (as_i32 (int width)) (as_i32 (int (pr_col p)))
      in if fits remaining inner stack then Flat else Break)"

function print_loop :: "nat \<Rightarrow> items \<Rightarrow> printer \<Rightarrow> printer" where
  "print_loop width [] p = p"
| "print_loop width ((indent, mode, LineSuffix s) # stack) p =
     print_loop width stack (p\<lparr>pr_suffixes := pr_suffixes p @ [s]\<rparr>)"
| "print_loop width ((indent, mode, Text s) # stack) p = print_loop width stack (print_text s p)"
| "print_loop width ((indent, mode, Concat docs) # stack) p =
     print_loop width (map (\<lambda>d. (indent, mode, d)) docs @ stack) p"
| "print_loop width ((indent, mode, Nest n inner) # stack) p =
     print_loop width ((indent + n, mode, inner) # stack) p"
| "print_loop width ((indent, mode, Line) # stack) p = print_loop width stack (print_line indent mode p)"
| "print_loop width ((indent, mode, Softline) # stack) p = print_loop width stack (print_softline indent mode p)"
| "print_loop width ((indent, mode, Hardline) # stack) p = print_loop width stack (print_hardline indent p)"
| "print_loop width ((indent, mode, Group inner) # stack) p =
     print_loop width ((indent, group_mode width inner stack p, inner) # stack) p"
  by pat_completeness auto

termination print_loop
  by (relation "measure (\<lambda>(w, s, p). total (map (snd \<circ> snd) s))") (auto simp: size_list_total comp_def)

definition print_doc :: "doc \<Rightarrow> nat \<Rightarrow> utext" where
  "print_doc doc width =
     pr_out (flush_suffixes 0 (print_loop width [(0, Break, doc)]
       \<lparr>pr_out = [], pr_col = 0, pr_pending = None, pr_suffixes = []\<rparr>))"

section \<open>What the output is made of\<close>

text \<open>The output as pieces: texts of the document, its line comments, line breaks and blanks.\<close>

datatype piece = Code utext | Comment utext | Newline | Spaces nat

fun piece_text :: "piece \<Rightarrow> utext" where
  "piece_text (Code s) = s"
| "piece_text (Comment s) = s"
| "piece_text Newline = [newline]"
| "piece_text (Spaces n) = replicate n blank"

definition pieces_text :: "piece list \<Rightarrow> utext" where
  "pieces_text ps = concat (map piece_text ps)"

fun codes :: "piece list \<Rightarrow> utext list" where
  "codes [] = []"
| "codes (Code s # ps) = s # codes ps"
| "codes (_ # ps) = codes ps"

fun comments :: "piece list \<Rightarrow> utext list" where
  "comments [] = []"
| "comments (Comment s # ps) = s # comments ps"
| "comments (_ # ps) = comments ps"

text \<open>Every comment but possibly the last piece is followed by a line break.\<close>

fun comments_end_lines :: "piece list \<Rightarrow> bool" where
  "comments_end_lines (Comment s # q # ps) = (q = Newline \<and> comments_end_lines ps)"
| "comments_end_lines (_ # ps) = comments_end_lines ps"
| "comments_end_lines [] = True"

text \<open>The non-empty texts and the line comments of a document, in order.\<close>

fun doc_texts :: "doc \<Rightarrow> utext list" where
  "doc_texts (Text s) = (if s = [] then [] else [s])"
| "doc_texts (Nest n inner) = doc_texts inner"
| "doc_texts (Concat docs) = concat (map doc_texts docs)"
| "doc_texts (Group inner) = doc_texts inner"
| "doc_texts _ = []"

fun doc_suffixes :: "doc \<Rightarrow> utext list" where
  "doc_suffixes (LineSuffix s) = [s]"
| "doc_suffixes (Nest n inner) = doc_suffixes inner"
| "doc_suffixes (Concat docs) = concat (map doc_suffixes docs)"
| "doc_suffixes (Group inner) = doc_suffixes inner"
| "doc_suffixes _ = []"

lemma pieces_text_simps [simp]:
  "pieces_text [] = []" "pieces_text (p # ps) = piece_text p @ pieces_text ps"
  "pieces_text (ps @ qs) = pieces_text ps @ pieces_text qs"
  by (simp_all add: pieces_text_def)

lemma codes_append [simp]: "codes (ps @ qs) = codes ps @ codes qs"
  by (induction ps rule: codes.induct) simp_all

lemma comments_append [simp]: "comments (ps @ qs) = comments ps @ comments qs"
  by (induction ps rule: comments.induct) simp_all

text \<open>A closed sequence has a line break after every comment, the last one included.\<close>

definition closed :: "piece list \<Rightarrow> bool" where
  "closed ps \<longleftrightarrow> (\<forall>xs s ys. ps = xs @ Comment s # ys \<longrightarrow> (\<exists>zs. ys = Newline # zs))"

lemma closed_Nil [simp]: "closed []"
  by (simp add: closed_def)

lemma closed_Cons: "closed (p # ps) \<longleftrightarrow> (case p of Comment s \<Rightarrow> \<exists>zs. ps = Newline # zs | _ \<Rightarrow> True) \<and> closed ps"
  unfolding closed_def by (auto simp: Cons_eq_append_conv split: piece.splits)

lemma closed_append: "closed ps \<Longrightarrow> comments_end_lines qs \<Longrightarrow> comments_end_lines (ps @ qs)"
  by (induction ps rule: comments_end_lines.induct) (auto simp: closed_Cons split: piece.splits)

lemma closed_append_closed: "closed ps \<Longrightarrow> closed qs \<Longrightarrow> closed (ps @ qs)"
  by (induction ps) (auto simp: closed_Cons split: piece.splits)

subsection \<open>Flushing the line comments\<close>

fun suffix_pieces :: "nat \<Rightarrow> bool \<Rightarrow> utext list \<Rightarrow> piece list" where
  "suffix_pieces n first [] = []"
| "suffix_pieces n first (s # ss) =
     (if first then [Spaces 1] else [Newline, Spaces n]) @ Comment s # suffix_pieces n False ss"

lemma suffix_pieces_text:
  "concat (map (suffix_text n) (enumerate k ss)) = pieces_text (suffix_pieces n (k = 0) ss)"
  by (induction ss arbitrary: k) (simp_all add: suffix_text_def)

lemma suffix_pieces_parts [simp]: "codes (suffix_pieces n b ss) = []" "comments (suffix_pieces n b ss) = ss"
  by (induction ss arbitrary: b) simp_all

lemma suffix_pieces_closed: "closed (suffix_pieces n b ss @ [Newline])"
  by (induction ss arbitrary: b) (auto simp: closed_Cons, (case_tac ss; simp)+)

lemma suffix_pieces_end_lines: "comments_end_lines (suffix_pieces n b ss)"
proof (induction ss arbitrary: b)
  case (Cons s ss)
  from Cons.IH [of False] show ?case by (cases ss) simp_all
qed simp

subsection \<open>The printer's output is the document's contents\<close>

definition represents :: "printer \<Rightarrow> utext list \<Rightarrow> utext list \<Rightarrow> bool" where
  "represents p T S \<longleftrightarrow>
     (\<exists>ps. pr_out p = pieces_text ps \<and> closed ps \<and> codes ps = T \<and> comments ps @ pr_suffixes p = S)"

lemma representsI:
  "pr_out p = pieces_text ps \<Longrightarrow> closed ps \<Longrightarrow> codes ps = T \<Longrightarrow> comments ps @ pr_suffixes p = S \<Longrightarrow> represents p T S"
  unfolding represents_def by blast

lemma represents_add:
  assumes "represents p T S" and "pr_out q = pr_out p @ pieces_text qs" and "closed qs"
    and "comments qs @ pr_suffixes q = pr_suffixes p" and "T' = T @ codes qs"
  shows "represents q T' S"
proof -
  from assms(1) obtain ps where
    ps: "pr_out p = pieces_text ps" "closed ps" "codes ps = T" "comments ps @ pr_suffixes p = S"
    unfolding represents_def by blast
  show ?thesis by (rule representsI [of q "ps @ qs"]) (use ps assms closed_append_closed in auto)
qed

lemma represents_flush_indent: "represents p T S \<Longrightarrow> represents (flush_indent p) T S"
  by (erule represents_add [where qs = "case pr_pending p of None \<Rightarrow> [] | Some n \<Rightarrow> [Spaces n]"])
    (auto simp: flush_indent_def closed_Cons split: option.splits)

lemma represents_break_line: "represents p T S \<Longrightarrow> represents (break_line n p) T S"
  by (erule represents_add [where qs = "[Newline]"]) (auto simp: break_line_def closed_Cons)

lemma represents_hardline: "represents p T S \<Longrightarrow> represents (print_hardline n p) T S"
  by (erule represents_add [where qs = "suffix_pieces n True (pr_suffixes p) @ [Newline]"])
    (simp_all add: print_hardline_def break_line_def flush_suffixes_def suffix_pieces_text suffix_pieces_closed)

lemma represents_text: "represents p T S \<Longrightarrow> represents (print_text s p) (T @ (if s = [] then [] else [s])) S"
proof (cases "s = []")
  case True
  then show "represents p T S \<Longrightarrow> ?thesis" by (simp add: print_text_def represents_def)
next
  case False
  assume "represents p T S"
  then have "represents (flush_indent p) T S" by (rule represents_flush_indent)
  then show ?thesis
    by (rule represents_add [where qs = "[Code s]"]) (use False in \<open>auto simp: print_text_def closed_Cons Let_def\<close>)
qed

lemma represents_line: "represents p T S \<Longrightarrow> represents (print_line n m p) T S"
proof -
  assume r: "represents p T S"
  have "represents (let q = flush_indent p in q\<lparr>pr_out := pr_out q @ [blank], pr_col := pr_col q + 1\<rparr>) T S"
    using represents_flush_indent [OF r] by (rule represents_add [where qs = "[Spaces 1]"]) (auto simp: closed_Cons Let_def)
  then show ?thesis
    using represents_hardline [OF r] represents_break_line [OF r]
    by (cases m) (auto simp: print_line_def print_hardline_def)
qed

lemma represents_softline: "represents p T S \<Longrightarrow> represents (print_softline n m p) T S"
  using represents_hardline represents_break_line
  by (cases m) (auto simp: print_softline_def print_hardline_def)

lemma represents_suffix: "represents p T S \<Longrightarrow> represents (p\<lparr>pr_suffixes := pr_suffixes p @ [s]\<rparr>) T (S @ [s])"
  unfolding represents_def by auto

definition stack_texts :: "items \<Rightarrow> utext list" where
  "stack_texts st = concat (map (doc_texts \<circ> snd \<circ> snd) st)"

definition stack_suffixes :: "items \<Rightarrow> utext list" where
  "stack_suffixes st = concat (map (doc_suffixes \<circ> snd \<circ> snd) st)"

lemma print_loop_represents:
  "represents p T S \<Longrightarrow> represents (print_loop w st p) (T @ stack_texts st) (S @ stack_suffixes st)"
proof (induction w st p arbitrary: T S rule: print_loop.induct)
  case (2 w i m s st p)
  from "2.IH" [OF represents_suffix [OF "2.prems"]] show ?case by (simp add: stack_texts_def stack_suffixes_def)
next
  case (3 w i m s st p)
  from "3.IH" [OF represents_text [OF "3.prems"]] show ?case by (simp add: stack_texts_def stack_suffixes_def)
next
  case (4 w i m docs st p)
  from "4.IH" [OF "4.prems"] show ?case by (simp add: stack_texts_def stack_suffixes_def comp_def)
next
  case (6 w i m st p)
  from "6.IH" [OF represents_line [OF "6.prems"]] show ?case by (simp add: stack_texts_def stack_suffixes_def)
next
  case (7 w i m st p)
  from "7.IH" [OF represents_softline [OF "7.prems"]] show ?case by (simp add: stack_texts_def stack_suffixes_def)
next
  case (8 w i m st p)
  from "8.IH" [OF represents_hardline [OF "8.prems"]] show ?case by (simp add: stack_texts_def stack_suffixes_def)
qed (simp_all add: stack_texts_def stack_suffixes_def)

text \<open>
  C25: at every width the formatter prints all of a document and nothing else but blanks: the output
  is made of the document's texts in order, its line comments in order, line breaks and spaces, and
  a line comment always ends its line, so it never swallows code that follows.
\<close>

theorem print_doc_keeps_contents:
  "\<exists>ps. print_doc d w = pieces_text ps \<and> codes ps = doc_texts d \<and> comments ps = doc_suffixes d \<and> comments_end_lines ps"
proof -
  let ?p = "\<lparr>pr_out = [], pr_col = 0, pr_pending = None, pr_suffixes = []\<rparr>"
  let ?q = "print_loop w [(0, Break, d)] ?p"
  have "represents ?p [] []" by (rule representsI [of _ "[]"]) simp_all
  from print_loop_represents [OF this, of w "[(0, Break, d)]"] obtain ps where
    ps: "pr_out ?q = pieces_text ps" "closed ps" "codes ps = doc_texts d" "comments ps @ pr_suffixes ?q = doc_suffixes d"
    unfolding represents_def by (auto simp: stack_texts_def stack_suffixes_def)
  let ?ss = "suffix_pieces 0 True (pr_suffixes ?q)"
  have "print_doc d w = pieces_text (ps @ ?ss)"
    by (simp add: print_doc_def flush_suffixes_def suffix_pieces_text ps(1))
  then show ?thesis
    using ps closed_append [OF ps(2) suffix_pieces_end_lines] by (intro exI [of _ "ps @ ?ss"]) simp
qed

section \<open>Groups are flat exactly when they fit\<close>

text \<open>The text of a document on one line, if it has no comment and no forced line break.\<close>

fun flat :: "doc \<Rightarrow> utext option" where
  "flat (Text s) = (if newline \<in> set s then None else Some s)"
| "flat (LineSuffix s) = None"
| "flat Line = Some [blank]"
| "flat Softline = Some []"
| "flat Hardline = None"
| "flat (Nest n inner) = flat inner"
| "flat (Concat docs) = map_option concat (those (map flat docs))"
| "flat (Group inner) = flat inner"

definition flat_items :: "(mode \<times> doc) list \<Rightarrow> bool" where
  "flat_items ws \<longleftrightarrow> (\<forall>(m, d) \<in> set ws. m = Flat \<and> flat d \<noteq> None)"

definition flat_text :: "(mode \<times> doc) list \<Rightarrow> utext" where
  "flat_text ws = concat (map (the \<circ> flat \<circ> snd) ws)"

lemma flat_items_simps [simp]:
  "flat_items []" "flat_items (w # ws) \<longleftrightarrow> fst w = Flat \<and> flat (snd w) \<noteq> None \<and> flat_items ws"
  "flat_items (ws @ vs) \<longleftrightarrow> flat_items ws \<and> flat_items vs"
  by (auto simp: flat_items_def)

lemma flat_text_simps [simp]:
  "flat_text [] = []" "flat_text (w # ws) = the (flat (snd w)) @ flat_text ws"
  "flat_text (ws @ vs) = flat_text ws @ flat_text vs"
  by (simp_all add: flat_text_def)

lemma those_Some: "those xs = Some ys \<longleftrightarrow> xs = map Some ys"
  by (induction xs arbitrary: ys) (auto split: option.splits)

lemma flat_Concat:
  assumes "flat (Concat docs) \<noteq> None"
  shows "flat_items (map (Pair Flat) docs)" and "flat_text (map (Pair Flat) docs) = the (flat (Concat docs))"
proof -
  from assms obtain ss where "those (map flat docs) = Some ss" by auto
  then have ss: "map flat docs = map Some ss" by (simp add: those_Some)
  then have "flat d \<noteq> None" if "d \<in> set docs" for d
    using that by (metis imageE list.set_map option.distinct(1) imageI)
  then show "flat_items (map (Pair Flat) docs)" by (auto simp: flat_items_def)
  have "map (the \<circ> flat) docs = ss" using ss by (metis list.map_comp list.map_id0 id_apply option.sel comp_def map_idI)
  then show "flat_text (map (Pair Flat) docs) = the (flat (Concat docs))"
    using \<open>those (map flat docs) = Some ss\<close> by (simp add: flat_text_def comp_def)
qed

lemma as_i32_id: "- (2 ^ 31) \<le> n \<Longrightarrow> n < 2 ^ 31 \<Longrightarrow> as_i32 n = n"
  by (simp add: as_i32_def)

abbreviation flat_stack :: "items \<Rightarrow> (mode \<times> doc) list" where
  "flat_stack st \<equiv> map snd st"

lemma fits_flat:
  "flat_items work \<Longrightarrow> flat_items (flat_stack rest) \<Longrightarrow> 0 \<le> r \<Longrightarrow> r < 2 ^ 31 \<Longrightarrow>
   length (flat_text work) + length (flat_text (flat_stack rest)) < 2 ^ 31 \<Longrightarrow>
   fits_loop r work rest \<longleftrightarrow> int (length (flat_text work) + length (flat_text (flat_stack rest))) \<le> r"
proof (induction r work rest rule: fits_loop.induct)
  case (4 r m s work rest)
  then have s: "newline \<notin> set s" by (auto split: if_splits)
  let ?r = "i32_sub r (as_i32 (int (length s)))"
  have r: "?r = r - int (length s)"
    using "4.prems" s by (simp add: i32_sub_def as_i32_id)
  show ?case
  proof (cases "0 \<le> ?r")
    case True
    from "4.IH" [OF refl] "4.prems" s True r show ?thesis by (auto simp: Let_def)
  next
    case False
    with s r show ?thesis by (simp add: Let_def)
  qed
next
  case (5 r m docs work rest)
  then have m: "m = Flat" and f: "flat (Concat docs) \<noteq> None" by auto
  from "5.IH" "5.prems" flat_Concat [OF f] m show ?case by simp
next
  case (8 r work rest)
  let ?r = "i32_sub r 1"
  have r: "?r = r - 1" using "8.prems" by (simp add: i32_sub_def as_i32_id)
  show ?case
  proof (cases "0 \<le> ?r")
    case True
    from "8.IH" [OF refl] "8.prems" True r show ?thesis by (auto simp: Let_def)
  next
    case False
    with r show ?thesis by (simp add: Let_def)
  qed
qed auto

lemma print_flat:
  "flat_items (flat_stack st) \<Longrightarrow> pr_pending p = None \<Longrightarrow> pr_suffixes p = [] \<Longrightarrow>
   pr_col p + length (flat_text (flat_stack st)) \<le> w \<Longrightarrow> w < 2 ^ 31 \<Longrightarrow>
   print_loop w st p =
     p\<lparr>pr_out := pr_out p @ flat_text (flat_stack st), pr_col := pr_col p + length (flat_text (flat_stack st))\<rparr>"
proof (induction w st p rule: print_loop.induct)
  case (3 w i m s st p)
  then show ?case by (auto simp: print_text_def flush_indent_def Let_def split: if_splits)
next
  case (4 w i m docs st p)
  then have m: "m = Flat" and f: "flat (Concat docs) \<noteq> None" by auto
  have e: "flat_stack (map (\<lambda>d. (i, m, d)) docs) = map (Pair Flat) docs" by (simp add: m)
  from "4.IH" "4.prems" flat_Concat [OF f] e m show ?case by (simp add: comp_def)
next
  case (6 w i m st p)
  then show ?case by (auto simp: print_line_def flush_indent_def Let_def)
next
  case (7 w i m st p)
  then show ?case by (auto simp: print_softline_def)
next
  case (9 w i m inner st p)
  have "fits_loop (int w - int (pr_col p)) [(Flat, inner)] st"
    using "9.prems" by (subst fits_flat) auto
  moreover have "i32_sub (as_i32 (int w)) (as_i32 (int (pr_col p))) = int w - int (pr_col p)"
    using "9.prems" by (simp add: i32_sub_def as_i32_id)
  ultimately have "group_mode w inner st p = Flat" using "9.prems" by (simp add: group_mode_def fits_def)
  with "9.IH" "9.prems" show ?case by simp
qed auto

text \<open>
  C26: a group whose contents can stand on one line does so exactly when they fit the width: it prints
  as that one line, and otherwise as if it were not grouped.
\<close>

theorem group_flat_iff_fits:
  assumes "flat d = Some s" and "length s < 2 ^ 31" and "w < 2 ^ 31"
  shows "print_doc (Group d) w = (if length s \<le> w then s else print_doc d w)"
proof -
  let ?p = "\<lparr>pr_out = [], pr_col = 0, pr_pending = None, pr_suffixes = []\<rparr>"
  have i: "i32_sub (as_i32 (int w)) (as_i32 (int (pr_col ?p))) = int w"
    using assms(3) by (simp add: i32_sub_def as_i32_id)
  have "fits_loop (int w) [(Flat, d)] [] \<longleftrightarrow> length s \<le> w"
    using assms by (subst fits_flat) auto
  then have m: "group_mode w d [] ?p = (if length s \<le> w then Flat else Break)"
    unfolding group_mode_def i by (simp add: fits_def)
  have "print_loop w [(0, Flat, d)] ?p = ?p\<lparr>pr_out := s, pr_col := length s\<rparr>" if "length s \<le> w"
    using assms that by (subst print_flat) auto
  then show ?thesis by (simp add: print_doc_def m flush_suffixes_def)
qed

theorem group_flat_iff_fits_witness:
  "print_doc (Group (Concat [Text (str ''ab''), Line, Text (str ''c'')])) 4 = str ''ab c'' \<and>
   print_doc (Group (Concat [Text (str ''ab''), Line, Text (str ''c'')])) 3 =
   print_doc (Concat [Text (str ''ab''), Line, Text (str ''c'')]) 3"
proof -
  have f: "flat (Concat [Text (str ''ab''), Line, Text (str ''c'')]) = Some (str ''ab c'')"
    by (simp add: str_def newline_def blank_def)
  show ?thesis
    using group_flat_iff_fits [OF f, of 4] group_flat_iff_fits [OF f, of 3] by (simp add: str_def)
qed

end
