(* ===== verification/Fai_Types.thy ===== *)
theory Fai_Types
  imports Fai_Prelude
begin

text \<open>
  The reified types of \<^verbatim>\<open>fai-types/src/ty.rs\<close>: types, record and effect rows, schemes, the naming of
  variables and the rendering of types.

  Symbols and strings are texts. A record row is written out as the two arguments of the record
  constructor. Functions that append to an output buffer return what they append; functions that
  collect into a vector take and return it.
\<close>

section \<open>Types\<close>

type_synonym symbol = utext
type_synonym ty_var_id = nat
type_synonym row_var_id = nat
type_synonym eff_row_var_id = nat

record nominal_ref =
  nr_file :: nat
  nr_name :: symbol

datatype row_end = RowClosed | RowOpen row_var_id

datatype eff_end = EffClosed | EffOpen eff_row_var_id

record effect_row =
  eff_labels :: "nominal_ref list"
  eff_tail :: eff_end

definition EffectRow_pure :: effect_row where
  "EffectRow_pure = \<lparr>eff_labels = [], eff_tail = EffClosed\<rparr>"

definition EffectRow_is_pure :: "effect_row \<Rightarrow> bool" where
  "EffectRow_is_pure e \<longleftrightarrow> eff_labels e = [] \<and> eff_tail e = EffClosed"

datatype con = CInt | CFloat | CBool | CString | CBytes | CChar | CList | CArray

datatype ty =
    TVar ty_var_id
  | TCon con
  | TAdt nominal_ref
  | TInterface nominal_ref
  | TEffectArg effect_row
  | TApp ty ty
  | TArrow ty ty effect_row
  | TTuple "ty list"
  | TRecord "(symbol \<times> ty) list" row_end
  | TUnit
  | TError

fun Con_name :: "con \<Rightarrow> utext" where
  "Con_name CInt = str ''Int''"
| "Con_name CFloat = str ''Float''"
| "Con_name CBool = str ''Bool''"
| "Con_name CString = str ''String''"
| "Con_name CBytes = str ''Bytes''"
| "Con_name CChar = str ''Char''"
| "Con_name CList = str ''List''"
| "Con_name CArray = str ''Array''"

definition Con_from_name :: "utext \<Rightarrow> con option" where
  "Con_from_name name =
     (if name = str ''Int'' then Some CInt
      else if name = str ''Float'' then Some CFloat
      else if name = str ''Bool'' then Some CBool
      else if name = str ''String'' then Some CString
      else if name = str ''Bytes'' then Some CBytes
      else if name = str ''Char'' then Some CChar
      else if name = str ''List'' then Some CList
      else if name = str ''Array'' then Some CArray
      else None)"

definition con_or_unit :: "utext \<Rightarrow> ty option" where
  "con_or_unit name = (if name = str ''Unit'' then Some TUnit else map_option TCon (Con_from_name name))"

definition Ty_bool :: ty where "Ty_bool = TCon CBool"
definition Ty_int :: ty where "Ty_int = TCon CInt"
definition Ty_list :: "ty \<Rightarrow> ty" where "Ty_list elem = TApp (TCon CList) elem"
definition Ty_array :: "ty \<Rightarrow> ty" where "Ty_array elem = TApp (TCon CArray) elem"
definition Ty_arrow :: "ty \<Rightarrow> ty \<Rightarrow> ty" where "Ty_arrow from to = TArrow from to EffectRow_pure"
definition Ty_arrow_eff :: "ty \<Rightarrow> ty \<Rightarrow> effect_row \<Rightarrow> ty" where "Ty_arrow_eff from to eff = TArrow from to eff"

definition Ty_arrows :: "ty list \<Rightarrow> ty \<Rightarrow> ty" where
  "Ty_arrows params result = fold Ty_arrow (rev params) result"

section \<open>Schemes\<close>

record scheme =
  sc_vars :: "ty_var_id list"
  sc_ty :: ty
  sc_names :: "utext list"
  sc_row_vars :: "row_var_id list"
  sc_row_names :: "utext list"
  sc_effect_vars :: "eff_row_var_id list"
  sc_effect_names :: "utext list"

definition Scheme_new :: "ty_var_id list \<Rightarrow> ty \<Rightarrow> scheme" where
  "Scheme_new vars t = \<lparr>sc_vars = vars, sc_ty = t, sc_names = [], sc_row_vars = [], sc_row_names = [],
     sc_effect_vars = [], sc_effect_names = []\<rparr>"

definition Scheme_mono :: "ty \<Rightarrow> scheme" where
  "Scheme_mono t = \<lparr>sc_vars = [], sc_ty = t, sc_names = [], sc_row_vars = [], sc_row_names = [],
     sc_effect_vars = [], sc_effect_names = []\<rparr>"

definition Scheme_with_names :: "utext list \<Rightarrow> scheme \<Rightarrow> scheme" where
  "Scheme_with_names names s = s\<lparr>sc_names := names\<rparr>"

definition Scheme_with_rows :: "row_var_id list \<Rightarrow> utext list \<Rightarrow> scheme \<Rightarrow> scheme" where
  "Scheme_with_rows row_vars row_names s = s\<lparr>sc_row_vars := row_vars, sc_row_names := row_names\<rparr>"

definition Scheme_with_effects :: "eff_row_var_id list \<Rightarrow> utext list \<Rightarrow> scheme \<Rightarrow> scheme" where
  "Scheme_with_effects effect_vars effect_names s =
     s\<lparr>sc_effect_vars := effect_vars, sc_effect_names := effect_names\<rparr>"

section \<open>Variable names\<close>

definition canonical_name :: "nat \<Rightarrow> utext" where
  "canonical_name n =
     (let letter = 97 + n mod 26; suffix = n div 26
      in if suffix = 0 then [39, letter] else [39, letter] @ str (show_nat suffix))"

definition eff_canonical_name :: "nat \<Rightarrow> utext" where
  "eff_canonical_name n =
     (let letter = 101 + n mod 22; suffix = n div 22
      in if suffix = 0 then [39, letter] else [39, letter] @ str (show_nat suffix))"

record var_names =
  vn_names :: "ty_var_id \<rightharpoonup> utext"
  vn_row_names :: "row_var_id \<rightharpoonup> utext"
  vn_eff_names :: "eff_row_var_id \<rightharpoonup> utext"

definition VarNames_new :: var_names where
  "VarNames_new = \<lparr>vn_names = Map.empty, vn_row_names = Map.empty, vn_eff_names = Map.empty\<rparr>"

definition VarNames_set :: "ty_var_id \<Rightarrow> utext \<Rightarrow> var_names \<Rightarrow> var_names" where
  "VarNames_set v name n = n\<lparr>vn_names := (vn_names n)(v \<mapsto> name)\<rparr>"

definition VarNames_set_row :: "row_var_id \<Rightarrow> utext \<Rightarrow> var_names \<Rightarrow> var_names" where
  "VarNames_set_row v name n = n\<lparr>vn_row_names := (vn_row_names n)(v \<mapsto> name)\<rparr>"

definition VarNames_set_eff :: "eff_row_var_id \<Rightarrow> utext \<Rightarrow> var_names \<Rightarrow> var_names" where
  "VarNames_set_eff v name n = n\<lparr>vn_eff_names := (vn_eff_names n)(v \<mapsto> name)\<rparr>"

definition VarNames_get :: "var_names \<Rightarrow> ty_var_id \<Rightarrow> utext" where
  "VarNames_get n v = (case vn_names n v of Some name \<Rightarrow> name | None \<Rightarrow> canonical_name v)"

definition VarNames_get_row :: "var_names \<Rightarrow> row_var_id \<Rightarrow> utext" where
  "VarNames_get_row n v = (case vn_row_names n v of Some name \<Rightarrow> name | None \<Rightarrow> str ''_'')"

definition VarNames_get_eff :: "var_names \<Rightarrow> eff_row_var_id \<Rightarrow> utext" where
  "VarNames_get_eff n v = (case vn_eff_names n v of Some name \<Rightarrow> name | None \<Rightarrow> str ''_'')"

text \<open>Insertions into a map in the order of a list of pairs, a later one winning.\<close>

definition insert_all :: "('k \<times> 'v) list \<Rightarrow> ('k \<rightharpoonup> 'v) \<Rightarrow> ('k \<rightharpoonup> 'v)" where
  "insert_all kvs m = fold (\<lambda>(k, v) m. m(k \<mapsto> v)) kvs m"

definition VarNames_canonical :: "scheme \<Rightarrow> var_names" where
  "VarNames_canonical s =
     \<lparr>vn_names =
        (if length (sc_names s) = length (sc_vars s) \<and> sc_names s \<noteq> []
         then insert_all (zip (sc_vars s) (sc_names s)) Map.empty
         else insert_all (map (\<lambda>(i, v). (v, canonical_name i)) (enumerate 0 (sort (sc_vars s)))) Map.empty),
      vn_row_names =
        (if length (sc_row_names s) = length (sc_row_vars s)
         then insert_all (zip (sc_row_vars s) (sc_row_names s)) Map.empty else Map.empty),
      vn_eff_names =
        (if length (sc_effect_names s) = length (sc_effect_vars s)
         then insert_all (zip (sc_effect_vars s) (sc_effect_names s)) Map.empty else Map.empty)\<rparr>"

definition push_new :: "'a \<Rightarrow> 'a list \<Rightarrow> 'a list" where
  "push_new v out = (if v \<in> set out then out else out @ [v])"

fun collect_vars :: "ty \<Rightarrow> ty_var_id list \<Rightarrow> ty_var_id list" where
  "collect_vars (TVar v) out = push_new v out"
| "collect_vars (TApp f a) out = collect_vars a (collect_vars f out)"
| "collect_vars (TArrow f a _) out = collect_vars a (collect_vars f out)"
| "collect_vars (TTuple elems) out = fold collect_vars elems out"
| "collect_vars (TRecord fs _) out = fold (\<lambda>(_, t). collect_vars t) fs out"
| "collect_vars _ out = out"

fun push_eff_tail :: "eff_end \<Rightarrow> eff_row_var_id list \<Rightarrow> eff_row_var_id list" where
  "push_eff_tail (EffOpen v) out = push_new v out"
| "push_eff_tail EffClosed out = out"

fun collect_eff_vars :: "ty \<Rightarrow> eff_row_var_id list \<Rightarrow> eff_row_var_id list" where
  "collect_eff_vars (TArrow f a eff) out = push_eff_tail (eff_tail eff) (collect_eff_vars a (collect_eff_vars f out))"
| "collect_eff_vars (TApp f a) out = collect_eff_vars a (collect_eff_vars f out)"
| "collect_eff_vars (TTuple elems) out = fold collect_eff_vars elems out"
| "collect_eff_vars (TRecord fs _) out = fold (\<lambda>(_, t). collect_eff_vars t) fs out"
| "collect_eff_vars (TEffectArg eff) out = push_eff_tail (eff_tail eff) out"
| "collect_eff_vars _ out = out"

section \<open>Rendering\<close>

datatype prec = PTop | PArrow | PProduct | PApp | PAtom

fun prec_rank :: "prec \<Rightarrow> nat" where
  "prec_rank PTop = 0"
| "prec_rank PArrow = 1"
| "prec_rank PProduct = 2"
| "prec_rank PApp = 3"
| "prec_rank PAtom = 4"

lemma prec_rank_inj: "prec_rank p = prec_rank q \<Longrightarrow> p = q"
  by (cases p; cases q) simp_all

instantiation prec :: linorder
begin

definition less_eq_prec :: "prec \<Rightarrow> prec \<Rightarrow> bool" where
  "p \<le> q \<longleftrightarrow> prec_rank p \<le> prec_rank q"

definition less_prec :: "prec \<Rightarrow> prec \<Rightarrow> bool" where
  "p < q \<longleftrightarrow> prec_rank p < prec_rank q"

instance
  by standard (auto simp: less_eq_prec_def less_prec_def intro: prec_rank_inj)

end

text \<open>Texts in a row, the first after one separator and the others after another.\<close>

fun separated :: "utext \<Rightarrow> utext \<Rightarrow> utext list \<Rightarrow> utext" where
  "separated s0 s1 [] = []"
| "separated s0 s1 (x # xs) = s0 @ x @ concat (map (\<lambda>y. s1 @ y) xs)"

definition parens :: "bool \<Rightarrow> utext \<Rightarrow> utext" where
  "parens b s = (if b then str ''('' @ s @ str '')'' else s)"

definition effect_atoms :: "effect_row \<Rightarrow> utext" where
  "effect_atoms eff = separated (str '' '') (str '', '') (map nr_name (eff_labels eff))"

fun effect_tail_text :: "var_names \<Rightarrow> eff_end \<Rightarrow> utext" where
  "effect_tail_text names (EffOpen ev) = str '' | '' @ VarNames_get_eff names ev"
| "effect_tail_text names EffClosed = []"

definition write_effect :: "var_names \<Rightarrow> effect_row \<Rightarrow> utext" where
  "write_effect names eff =
     (if EffectRow_is_pure eff then []
      else case (eff_labels eff, eff_tail eff) of
        ([], EffOpen ev) \<Rightarrow> str '' / '' @ VarNames_get_eff names ev
      | _ \<Rightarrow> str '' / {'' @ effect_atoms eff @ effect_tail_text names (eff_tail eff) @ str '' }'')"

definition write_effect_arg :: "var_names \<Rightarrow> effect_row \<Rightarrow> utext" where
  "write_effect_arg names eff =
     (if eff_labels eff = [] then
        (case eff_tail eff of EffOpen ev \<Rightarrow> VarNames_get_eff names ev | EffClosed \<Rightarrow> str ''{}'')
      else str ''{'' @ effect_atoms eff @ effect_tail_text names (eff_tail eff) @ str '' }'')"

fun row_tail_text :: "var_names \<Rightarrow> row_end \<Rightarrow> utext" where
  "row_tail_text names RowClosed = []"
| "row_tail_text names (RowOpen rv) = str '' | '' @ VarNames_get_row names rv"

fun write_ty :: "var_names \<Rightarrow> prec \<Rightarrow> ty \<Rightarrow> utext" where
  "write_ty names prec (TVar v) = VarNames_get names v"
| "write_ty names prec (TCon c) = Con_name c"
| "write_ty names prec (TAdt adt) = nr_name adt"
| "write_ty names prec (TInterface i) = nr_name i"
| "write_ty names prec (TEffectArg eff) = write_effect_arg names eff"
| "write_ty names prec TUnit = str ''()''"
| "write_ty names prec TError = str ''{error}''"
| "write_ty names prec (TApp func arg) =
     parens (prec > PApp) (write_ty names PApp func @ str '' '' @ write_ty names PAtom arg)"
| "write_ty names prec (TArrow from to eff) =
     parens (prec \<ge> PProduct)
       (write_ty names PProduct from @ str '' -> '' @ write_ty names PArrow to @ write_effect names eff)"
| "write_ty names prec (TTuple elems) =
     parens (prec \<ge> PApp) (separated [] (str '' * '') (map (write_ty names PApp) elems))"
| "write_ty names prec (TRecord fs tail) =
     str ''{'' @
     separated (str '' '') (str '', '') (map (\<lambda>(label, t). label @ str '' : '' @ write_ty names PTop t) fs) @
     row_tail_text names tail @ str '' }''"

definition render :: "var_names \<Rightarrow> ty \<Rightarrow> utext" where
  "render names t = write_ty names PTop t"

definition render_scheme :: "scheme \<Rightarrow> utext" where
  "render_scheme s = render (VarNames_canonical s) (sc_ty s)"

definition render_effect :: "effect_row \<Rightarrow> utext" where
  "render_effect eff =
     (if eff_labels eff = [] \<and> eff_tail eff = EffClosed then str ''{}''
      else str ''{'' @ effect_atoms eff @
        (case eff_tail eff of EffOpen _ \<Rightarrow> str '' | _'' | EffClosed \<Rightarrow> []) @ str '' }'')"

definition render_canonical :: "ty \<Rightarrow> utext" where
  "render_canonical t =
     (let names = fold (\<lambda>(i, v). VarNames_set v (canonical_name i)) (enumerate 0 (collect_vars t [])) VarNames_new;
          names = fold (\<lambda>(i, v). VarNames_set_eff v (eff_canonical_name i)) (enumerate 0 (collect_eff_vars t [])) names
      in render names t)"

definition Ty_display :: "ty \<Rightarrow> utext" where
  "Ty_display t = render VarNames_new t"

section \<open>Rendering does not depend on variable numbers\<close>

fun rename_eff :: "(eff_row_var_id \<Rightarrow> eff_row_var_id) \<Rightarrow> eff_end \<Rightarrow> eff_end" where
  "rename_eff e (EffOpen v) = EffOpen (e v)"
| "rename_eff e EffClosed = EffClosed"

definition rename_row :: "(eff_row_var_id \<Rightarrow> eff_row_var_id) \<Rightarrow> effect_row \<Rightarrow> effect_row" where
  "rename_row e r = r\<lparr>eff_tail := rename_eff e (eff_tail r)\<rparr>"

fun rename_ty :: "(ty_var_id \<Rightarrow> ty_var_id) \<Rightarrow> (eff_row_var_id \<Rightarrow> eff_row_var_id) \<Rightarrow> ty \<Rightarrow> ty" where
  "rename_ty f e (TVar v) = TVar (f v)"
| "rename_ty f e (TEffectArg r) = TEffectArg (rename_row e r)"
| "rename_ty f e (TApp a b) = TApp (rename_ty f e a) (rename_ty f e b)"
| "rename_ty f e (TArrow a b r) = TArrow (rename_ty f e a) (rename_ty f e b) (rename_row e r)"
| "rename_ty f e (TTuple ts) = TTuple (map (rename_ty f e) ts)"
| "rename_ty f e (TRecord fs rt) = TRecord (map (\<lambda>(l, t). (l, rename_ty f e t)) fs) rt"
| "rename_ty f e t = t"

lemma push_new_map: "inj f \<Longrightarrow> push_new (f v) (map f out) = map f (push_new v out)"
  by (auto simp: push_new_def dest: injD)

lemma fold_map_commute:
  assumes "\<And>x out. x \<in> set xs \<Longrightarrow> g (r x) (map f out) = map f (g x out)"
  shows "fold g (map r xs) (map f out) = map f (fold g xs out)"
  using assms by (induction xs arbitrary: out) auto

lemma collect_vars_rename: "inj f \<Longrightarrow> collect_vars (rename_ty f e t) (map f out) = map f (collect_vars t out)"
proof (induction t arbitrary: out)
  case (TTuple ts)
  then show ?case by (auto intro!: fold_map_commute)
next
  case (TRecord fs rt)
  have "fold (\<lambda>(_, t). collect_vars t) (map (\<lambda>(l, t). (l, rename_ty f e t)) fs) (map f out) =
      map f (fold (\<lambda>(_, t). collect_vars t) fs out)"
    by (rule fold_map_commute) (use TRecord in \<open>auto intro: snds.intros\<close>)
  then show ?case by simp
qed (auto simp: push_new_map)

lemma push_eff_tail_rename: "inj e \<Longrightarrow> push_eff_tail (rename_eff e rt) (map e out) = map e (push_eff_tail rt out)"
  by (cases rt) (simp_all add: push_new_map)

lemma collect_eff_vars_rename:
  "inj e \<Longrightarrow> collect_eff_vars (rename_ty f e t) (map e out) = map e (collect_eff_vars t out)"
proof (induction t arbitrary: out)
  case (TTuple ts)
  then show ?case by (auto intro!: fold_map_commute)
next
  case (TRecord fs rt)
  have "fold (\<lambda>(_, t). collect_eff_vars t) (map (\<lambda>(l, t). (l, rename_ty f e t)) fs) (map e out) =
      map e (fold (\<lambda>(_, t). collect_eff_vars t) fs out)"
    by (rule fold_map_commute) (use TRecord in \<open>auto intro: snds.intros\<close>)
  then show ?case by simp
qed (auto simp: push_eff_tail_rename rename_row_def)

text \<open>What a variable is called after naming the variables of a list in order.\<close>

lemma fold_names:
  "vn_names (fold (\<lambda>(i, v). VarNames_set v (c i)) ivs n) = insert_all (map (\<lambda>(i, v). (v, c i)) ivs) (vn_names n)"
  "vn_row_names (fold (\<lambda>(i, v). VarNames_set v (c i)) ivs n) = vn_row_names n"
  "vn_eff_names (fold (\<lambda>(i, v). VarNames_set v (c i)) ivs n) = vn_eff_names n"
  by (induction ivs arbitrary: n) (auto simp: insert_all_def VarNames_set_def)

lemma fold_eff_names:
  "vn_eff_names (fold (\<lambda>(i, v). VarNames_set_eff v (c i)) ivs n) = insert_all (map (\<lambda>(i, v). (v, c i)) ivs) (vn_eff_names n)"
  "vn_row_names (fold (\<lambda>(i, v). VarNames_set_eff v (c i)) ivs n) = vn_row_names n"
  "vn_names (fold (\<lambda>(i, v). VarNames_set_eff v (c i)) ivs n) = vn_names n"
  by (induction ivs arbitrary: n) (auto simp: insert_all_def VarNames_set_eff_def)

lemma insert_all_Cons: "insert_all ((k, x) # kvs) m = insert_all kvs (m(k \<mapsto> x))"
  by (simp add: insert_all_def)

lemma insert_all_rename:
  assumes "inj f" and "\<And>v. m' (f v) = m v"
  shows "insert_all (map (\<lambda>(i, v). (v, c i)) (enumerate k (map f vs))) m' (f v) =
    insert_all (map (\<lambda>(i, v). (v, c i)) (enumerate k vs)) m v"
  using assms(2)
proof (induction vs arbitrary: k m m')
  case (Cons u vs)
  have "(m'(f u \<mapsto> c k)) (f w) = (m(u \<mapsto> c k)) w" for w
    using Cons.prems assms(1) by (auto dest: injD)
  from Cons.IH [of "m'(f u \<mapsto> c k)" "m(u \<mapsto> c k)" "Suc k", OF this] show ?case
    by (simp only: list.map enumerate_simps prod.case insert_all_Cons)
qed (simp add: insert_all_def)

lemma insert_all_dom: "v \<in> fst ` set kvs \<or> v \<in> dom m \<Longrightarrow> insert_all kvs m v \<noteq> None"
proof (induction kvs arbitrary: m)
  case (Cons kv kvs)
  obtain k x where kv: "kv = (k, x)" by fastforce
  have "v \<in> fst ` set kvs \<or> v \<in> dom (m(k \<mapsto> x))" using Cons.prems kv by auto
  from Cons.IH [OF this] show ?case by (simp only: insert_all_Cons kv not_False_eq_True)
qed (auto simp: insert_all_def)

lemma enumerate_keys: "fst ` set (map (\<lambda>(i, v). (v, c i)) (enumerate k vs)) = set vs"
  by (induction vs arbitrary: k) simp_all

definition named :: "var_names \<Rightarrow> var_names \<Rightarrow> (nat \<Rightarrow> nat) \<Rightarrow> (nat \<Rightarrow> nat) \<Rightarrow> nat set \<Rightarrow> nat set \<Rightarrow> bool" where
  "named n n' f e V E \<longleftrightarrow>
     (\<forall>v \<in> V. VarNames_get n' (f v) = VarNames_get n v) \<and>
     (\<forall>v \<in> E. VarNames_get_eff n' (e v) = VarNames_get_eff n v) \<and> vn_row_names n' = vn_row_names n"

fun eff_vars :: "eff_end \<Rightarrow> eff_row_var_id set" where
  "eff_vars (EffOpen v) = {v}"
| "eff_vars EffClosed = {}"

fun ty_vars :: "ty \<Rightarrow> ty_var_id set" where
  "ty_vars (TVar v) = {v}"
| "ty_vars (TApp a b) = ty_vars a \<union> ty_vars b"
| "ty_vars (TArrow a b _) = ty_vars a \<union> ty_vars b"
| "ty_vars (TTuple ts) = (\<Union>t \<in> set ts. ty_vars t)"
| "ty_vars (TRecord fs _) = (\<Union>(l, t) \<in> set fs. ty_vars t)"
| "ty_vars _ = {}"

fun ty_eff_vars :: "ty \<Rightarrow> eff_row_var_id set" where
  "ty_eff_vars (TApp a b) = ty_eff_vars a \<union> ty_eff_vars b"
| "ty_eff_vars (TArrow a b r) = ty_eff_vars a \<union> ty_eff_vars b \<union> eff_vars (eff_tail r)"
| "ty_eff_vars (TTuple ts) = (\<Union>t \<in> set ts. ty_eff_vars t)"
| "ty_eff_vars (TRecord fs _) = (\<Union>(l, t) \<in> set fs. ty_eff_vars t)"
| "ty_eff_vars (TEffectArg r) = eff_vars (eff_tail r)"
| "ty_eff_vars _ = {}"

lemma set_push_new [simp]: "set (push_new v out) = insert v (set out)"
  by (auto simp: push_new_def)

lemma set_fold_collect:
  assumes "\<And>x out. x \<in> set xs \<Longrightarrow> set (g x out) = S x \<union> set out"
  shows "set (fold g xs out) = (\<Union>x \<in> set xs. S x) \<union> set out"
  using assms by (induction xs arbitrary: out) auto

lemma set_collect_vars: "set (collect_vars t out) = ty_vars t \<union> set out"
proof (induction t arbitrary: out)
  case (TTuple ts)
  then show ?case by (simp add: set_fold_collect [where S = ty_vars])
next
  case (TRecord fs rt)
  have "set (fold (\<lambda>(_, t). collect_vars t) fs out) = (\<Union>x \<in> set fs. case x of (l, t) \<Rightarrow> ty_vars t) \<union> set out"
    by (rule set_fold_collect) (use TRecord in \<open>auto intro: snds.intros\<close>)
  then show ?case by simp
qed auto

lemma set_push_eff_tail: "set (push_eff_tail rt out) = eff_vars rt \<union> set out"
  by (cases rt) auto

lemma set_collect_eff_vars: "set (collect_eff_vars t out) = ty_eff_vars t \<union> set out"
proof (induction t arbitrary: out)
  case (TTuple ts)
  then show ?case by (simp add: set_fold_collect [where S = ty_eff_vars])
next
  case (TRecord fs rt)
  have "set (fold (\<lambda>(_, t). collect_eff_vars t) fs out) = (\<Union>x \<in> set fs. case x of (l, t) \<Rightarrow> ty_eff_vars t) \<union> set out"
    by (rule set_fold_collect) (use TRecord in \<open>auto intro: snds.intros\<close>)
  then show ?case by simp
qed (auto simp: set_push_eff_tail)

lemma write_effect_rename:
  assumes "named n n' f e V E" and "eff_vars (eff_tail r) \<subseteq> E"
  shows "write_effect n' (rename_row e r) = write_effect n r"
    and "write_effect_arg n' (rename_row e r) = write_effect_arg n r"
  using assms
  by (cases "eff_tail r"; auto simp: named_def write_effect_def write_effect_arg_def rename_row_def
      EffectRow_is_pure_def effect_atoms_def split: list.splits)+

lemma write_ty_rename:
  "named n n' f e V E \<Longrightarrow> ty_vars t \<subseteq> V \<Longrightarrow> ty_eff_vars t \<subseteq> E \<Longrightarrow> write_ty n' p (rename_ty f e t) = write_ty n p t"
proof (induction t arbitrary: p)
  case (TTuple ts)
  have "map (write_ty n' PApp) (map (rename_ty f e) ts) = map (write_ty n PApp) ts"
    using TTuple by (simp add: UN_subset_iff)
  then show ?case by (simp only: rename_ty.simps write_ty.simps)
next
  case (TRecord fs rt)
  have "map (\<lambda>(l, t). l @ str '' : '' @ write_ty n' PTop t) (map (\<lambda>(l, t). (l, rename_ty f e t)) fs) =
      map (\<lambda>(l, t). l @ str '' : '' @ write_ty n PTop t) fs"
    using TRecord by (force simp: UN_subset_iff intro: snds.intros)
  moreover have "row_tail_text n' rt = row_tail_text n rt"
    using TRecord.prems(1) by (cases rt) (auto simp: named_def VarNames_get_row_def)
  ultimately show ?case by (simp only: rename_ty.simps write_ty.simps)
next
  case (TEffectArg r)
  then show ?case using write_effect_rename(2) [OF TEffectArg.prems(1), of r] by simp
next
  case (TArrow a b r)
  then show ?case using write_effect_rename(1) [OF TArrow.prems(1), of r] by simp
qed (auto simp: named_def)

text \<open>
  C27: the canonical rendering of a type does not depend on how its type and effect variables are
  numbered: renaming them apart, in any way, renders the same.
\<close>

theorem render_canonical_renaming:
  assumes "inj f" and "inj e"
  shows "render_canonical (rename_ty f e t) = render_canonical t"
proof -
  let ?names = "\<lambda>t. fold (\<lambda>(i, v). VarNames_set v (canonical_name i)) (enumerate 0 (collect_vars t [])) VarNames_new"
  let ?all = "\<lambda>t. fold (\<lambda>(i, v). VarNames_set_eff v (eff_canonical_name i)) (enumerate 0 (collect_eff_vars t [])) (?names t)"
  let ?t = "rename_ty f e t"
  have c: "collect_vars ?t [] = map f (collect_vars t [])" "collect_eff_vars ?t [] = map e (collect_eff_vars t [])"
    using collect_vars_rename [OF assms(1), of e t "[]"] collect_eff_vars_rename [OF assms(2), of f t "[]"] by simp_all
  have m: "vn_names (?all ?t) (f v) = vn_names (?all t) v" for v
    unfolding fold_eff_names fold_names c by (rule insert_all_rename [OF assms(1)]) (simp add: VarNames_new_def)
  have em: "vn_eff_names (?all ?t) (e v) = vn_eff_names (?all t) v" for v
    unfolding fold_eff_names fold_names c by (rule insert_all_rename [OF assms(2)]) (simp add: VarNames_new_def)
  have some: "vn_names (?all t) v \<noteq> None" if "v \<in> ty_vars t" for v
    unfolding fold_eff_names fold_names
    by (rule insert_all_dom) (use that set_collect_vars [of t "[]"] in \<open>simp only: enumerate_keys, simp\<close>)
  have "named (?all t) (?all ?t) f e (ty_vars t) (ty_eff_vars t)"
    unfolding named_def VarNames_get_def VarNames_get_eff_def m em
    by (intro conjI ballI) (auto simp: fold_eff_names fold_names dest: some split: option.splits)
  then show ?thesis
    unfolding render_canonical_def render_def Let_def by (rule write_ty_rename) simp_all
qed

theorem render_canonical_renaming_witness:
  "render_canonical (rename_ty ((+) 3) ((+) 1) (TArrow (TVar 0) (TVar 1) \<lparr>eff_labels = [], eff_tail = EffOpen 0\<rparr>)) =
   render_canonical (TArrow (TVar 0) (TVar 1) \<lparr>eff_labels = [], eff_tail = EffOpen 0\<rparr>)"
  by (rule render_canonical_renaming) simp_all

section \<open>Names tell variables apart\<close>

lemma show_nat_nonempty: "show_nat n \<noteq> []"
  by (subst show_nat.simps) simp

lemma digit_char_inj:
  assumes "m < 10" and "n < 10" and "char_of (48 + m :: nat) = char_of (48 + n)"
  shows "m = n"
proof -
  have "of_char (char_of (48 + m)) = 48 + m" "of_char (char_of (48 + n)) = 48 + n"
    using assms(1,2) by (simp_all add: of_char_of take_bit_nat_eq_self)
  with assms(3) show ?thesis by simp
qed

lemma show_nat_inj: "show_nat m = show_nat n \<Longrightarrow> m = n"
proof (induction m arbitrary: n rule: show_nat.induct)
  case (1 m)
  have one: "length (show_nat k) = 1 \<longleftrightarrow> k < 10" for k
    by (subst show_nat.simps) (auto simp: show_nat_nonempty)
  show ?case
  proof (cases "m < 10")
    case True
    with one [of m] one [of n] "1.prems" have n: "n < 10" by simp
    with True "1.prems" show ?thesis by (subst (asm) (1 2) show_nat.simps) (auto intro: digit_char_inj)
  next
    case False
    with one [of m] one [of n] "1.prems" have n: "\<not> n < 10" by auto
    with False "1.prems" have e: "show_nat (m div 10) @ [char_of (48 + m mod 10)] = show_nat (n div 10) @ [char_of (48 + n mod 10)]"
      by (subst (asm) (1 2) show_nat.simps) simp
    then have "m div 10 = n div 10" using "1.IH" [OF False] by simp
    moreover have "m mod 10 = n mod 10" using e by (intro digit_char_inj) simp_all
    ultimately show ?thesis by (metis div_mult_mod_eq)
  qed
qed

lemma str_inj: "str a = str b \<longleftrightarrow> a = b"
  unfolding str_def by (rule inj_map_eq_map) (simp add: inj_on_def)

text \<open>A letter counting up to \<open>k\<close>, then a number: different counts give different names.\<close>

lemma letter_names_inj:
  assumes "(if m div k = 0 then [q, b + m mod k] else [q, b + m mod k] @ str (show_nat (m div k))) =
    (if n div k = 0 then [q, b + n mod k] else [q, b + n mod k] @ str (show_nat (n div k)))"
  shows "m = n"
proof -
  have z: "str (show_nat i) \<noteq> []" "[] \<noteq> str (show_nat i)" for i by (simp_all add: str_def show_nat_nonempty)
  have "m mod k = n mod k" using assms by (auto split: if_splits)
  moreover have "m div k = n div k"
    using assms z by (auto simp: str_inj dest: show_nat_inj split: if_splits)
  ultimately show ?thesis by (metis div_mult_mod_eq)
qed

text \<open>
  Names identify what they stand for: distinct variables of one kind get distinct canonical names,
  and the name of a built-in type constructor is read back as that constructor and no other name is.
\<close>

theorem names_identify:
  "(canonical_name m = canonical_name n \<longleftrightarrow> m = n) \<and>
   (eff_canonical_name m = eff_canonical_name n \<longleftrightarrow> m = n) \<and>
   (Con_from_name s = Some c \<longleftrightarrow> s = Con_name c)"
proof (intro conjI)
  show "canonical_name m = canonical_name n \<longleftrightarrow> m = n"
    using letter_names_inj [of m 26 39 97 n] by (auto simp: canonical_name_def Let_def)
  show "eff_canonical_name m = eff_canonical_name n \<longleftrightarrow> m = n"
    using letter_names_inj [of m 22 39 101 n] by (auto simp: eff_canonical_name_def Let_def)
  show "Con_from_name s = Some c \<longleftrightarrow> s = Con_name c"
    by (cases c) (auto simp: Con_from_name_def str_inj split: if_splits)
qed

section \<open>Where rendering is ambiguous\<close>

text \<open>
  C31: an effect annotation is read as belonging to the innermost arrow, but the renderer writes an
  effect of the outer arrow in the same place, so a function that performs the effect when it gets
  its first argument renders like one that performs it when it gets the second.
\<close>

theorem outer_effect_renders_as_inner:
  "render n (TArrow a (TArrow b c EffectRow_pure) r) = render n (TArrow a (TArrow b c r) EffectRow_pure)"
  by (simp add: render_def parens_def less_eq_prec_def write_effect_def EffectRow_is_pure_def EffectRow_pure_def)

text \<open>
  the canonical names of type variables and of effect variables overlap: in a type with five type
  variables and an effect variable, the fifth type variable and the effect variable render alike.
\<close>

theorem canonical_names_overlap:
  "canonical_name 4 = eff_canonical_name 0 \<and>
   render_canonical (TArrow (TTuple (map TVar [0, 1, 2, 3, 4])) TUnit \<lparr>eff_labels = [], eff_tail = EffOpen 0\<rparr>) =
     separated [] (str '' * '') (map canonical_name [0, 1, 2, 3, 4]) @ str '' -> () / '' @ canonical_name 4"
  by (simp add: render_canonical_def render_def parens_def less_eq_prec_def write_effect_def EffectRow_is_pure_def
      EffectRow_pure_def push_new_def VarNames_set_def VarNames_set_eff_def VarNames_new_def VarNames_get_def
      VarNames_get_eff_def canonical_name_def eff_canonical_name_def str_def)

end
