(* ===== verification/Fai_Exhaustive.thy ===== *)
theory Fai_Exhaustive
  imports Fai_Types Fai_Literal
begin

text \<open>
  Exhaustiveness and redundancy of \<^verbatim>\<open>match\<close>, \<^verbatim>\<open>fai-types/src/exhaustive.rs\<close>: the lowering of surface
  patterns, constructor signatures, the usefulness algorithm on pattern matrices and the check of
  one match. Surface patterns are trees here: every node carries the arena index the code finds it
  by. What the check asks other phases is the record \<open>match_env\<close>: the declarations of a file, the
  file of a source, what a constructor pattern resolves to, the inferred type of a pattern, the
  field types the solver gives for a constructor at a type, and the decoding of float literals.

  A panic (a row that is too short for the default matrix, a missing column type) is \<open>None\<close>.
\<close>

section \<open>Declarations\<close>

text \<open>The summaries of declarations, without the fields the check does not read.\<close>

record type_decl_info =
  tdi_is_alias :: bool
  tdi_ctors :: "symbol list"

record ctor_info =
  ci_name :: symbol
  ci_adt :: symbol
  ci_tag :: nat
  ci_arity :: nat

text \<open>The declarations of a file; constructors by name, in the order the hash map lists them.\<close>

record type_decls =
  td_types :: "symbol \<rightharpoonup> type_decl_info"
  td_ctors :: "(symbol \<times> ctor_info) list"

definition TypeDecls_type_named :: "type_decls \<Rightarrow> symbol \<Rightarrow> type_decl_info option" where
  "TypeDecls_type_named d name = td_types d name"

definition TypeDecls_ctor :: "type_decls \<Rightarrow> symbol \<Rightarrow> ctor_info option" where
  "TypeDecls_ctor d name = map_of (td_ctors d) name"

record match_env =
  me_file_of :: "nat \<Rightarrow> nat"
  me_decls :: "nat \<Rightarrow> type_decls"
  me_pat_res :: "nat \<Rightarrow> nominal_ref option"
  me_pat_type :: "nat \<Rightarrow> ty option"
  me_solved_fields :: "nat \<Rightarrow> symbol \<Rightarrow> ty \<Rightarrow> nat \<Rightarrow> ty list option"
  me_parse_f64 :: "utext \<Rightarrow> nat option"

section \<open>Patterns\<close>

definition NIL_TAG :: int where "NIL_TAG = 0"
definition CONS_TAG :: int where "CONS_TAG = 1"

datatype con_key = KTag int | KTuple | KRecord | KUnit

datatype literal_key =
    LInt "64 word"
  | LFloat nat
  | LString "nat list"
  | LChar scalar
  | LInvalid nat

datatype ipat =
    IWild
  | ICon con_key "ipat list"
  | ILit literal_key
  | IOr "ipat list"

record sig_ctor =
  sg_key :: con_key
  sg_name :: utext
  sg_fields :: "ty list"

datatype type_sig = Finite "sig_ctor list" | Infinite

text \<open>Surface patterns, each node with its arena index.\<close>

datatype pat =
    PVar nat symbol
  | PWildcard nat
  | PUnit nat
  | PTuple nat "pat list"
  | PParen nat pat
  | PConstructor nat symbol "pat list"
  | PInt nat symbol
  | PFloat nat symbol
  | PString nat symbol
  | PChar nat symbol
  | PBool nat bool
  | PList nat "pat list"
  | PCons nat pat pat
  | POr nat "pat list"
  | PAs nat pat symbol
  | PRecord nat "(symbol \<times> pat) list" bool
  | PError nat

section \<open>Signatures\<close>

fun peel_loop :: "ty \<Rightarrow> ty list \<Rightarrow> ty \<times> ty list" where
  "peel_loop (TApp f a) args = peel_loop f (args @ [a])"
| "peel_loop t args = (t, args)"

definition peel_ty :: "ty \<Rightarrow> ty \<times> ty list" where
  "peel_ty t = (case peel_loop t [] of (head, args) \<Rightarrow> (head, rev args))"

definition ctor_file :: "match_env \<Rightarrow> nat \<Rightarrow> nat" where
  "ctor_file env file = me_file_of env file"

definition first_arg :: "ty list \<Rightarrow> ty" where
  "first_arg args = (case args of [] \<Rightarrow> TError | a # _ \<Rightarrow> a)"

text \<open>The end of \<^verbatim>\<open>instantiate_fields\<close>: the solver's answer counts only when it has every field.\<close>

definition instantiate_fields :: "match_env \<Rightarrow> nat \<Rightarrow> symbol \<Rightarrow> ty \<Rightarrow> nat \<Rightarrow> ty list option" where
  "instantiate_fields env file cname t arity =
     map_option (\<lambda>reified. if length reified = arity then reified else replicate arity TError)
       (me_solved_fields env file cname t arity)"

definition adt_field_types :: "match_env \<Rightarrow> ty \<Rightarrow> nominal_ref \<Rightarrow> int \<Rightarrow> nat \<Rightarrow> ty list" where
  "adt_field_types env t adt tag arity =
     (let file = ctor_file env (nr_file adt);
          cname = map_option ci_name
            (find (\<lambda>c. int (ci_tag c) = tag \<and> ci_adt c = nr_name adt) (map snd (td_ctors (me_decls env file))))
      in case Option.bind cname (\<lambda>n. instantiate_fields env file n t arity) of
           Some fs \<Rightarrow> fs
         | None \<Rightarrow> replicate arity TError)"

definition ctor_field_types :: "match_env \<Rightarrow> ty \<Rightarrow> con_key \<Rightarrow> nat \<Rightarrow> ty list" where
  "ctor_field_types env t key arity =
     (case peel_ty t of (head, args) \<Rightarrow>
        (case (head, key) of
           (TCon CList, KTag tag) \<Rightarrow>
             if tag = CONS_TAG then [first_arg args, Ty_list (first_arg args)] else replicate arity TError
         | (TTuple elems, KTuple) \<Rightarrow> elems
         | (TRecord fs _, KRecord) \<Rightarrow> map snd fs
         | (TAdt adt, KTag tag) \<Rightarrow> adt_field_types env t adt tag arity
         | _ \<Rightarrow> replicate arity TError))"

definition adt_signature :: "match_env \<Rightarrow> ty \<Rightarrow> nominal_ref \<Rightarrow> type_sig" where
  "adt_signature env t adt =
     (let decls = me_decls env (ctor_file env (nr_file adt))
      in case TypeDecls_type_named decls (nr_name adt) of
           None \<Rightarrow> Infinite
         | Some info \<Rightarrow>
             if tdi_is_alias info then Infinite
             else Finite (List.map_filter (\<lambda>cname.
               map_option (\<lambda>cinfo.
                 \<lparr>sg_key = KTag (int (ci_tag cinfo)), sg_name = cname,
                  sg_fields = ctor_field_types env t (KTag (int (ci_tag cinfo))) (ci_arity cinfo)\<rparr>)
               (TypeDecls_ctor decls cname)) (tdi_ctors info)))"

definition signature_of :: "match_env \<Rightarrow> ty \<Rightarrow> type_sig" where
  "signature_of env t =
     (case peel_ty t of (head, args) \<Rightarrow>
        (case head of
           TCon CBool \<Rightarrow> Finite
             [\<lparr>sg_key = KTag 0, sg_name = str ''false'', sg_fields = []\<rparr>,
              \<lparr>sg_key = KTag 1, sg_name = str ''true'', sg_fields = []\<rparr>]
         | TCon CList \<Rightarrow> Finite
             [\<lparr>sg_key = KTag NIL_TAG, sg_name = str ''[]'', sg_fields = []\<rparr>,
              \<lparr>sg_key = KTag CONS_TAG, sg_name = str ''_ :: _'', sg_fields = [first_arg args, Ty_list (first_arg args)]\<rparr>]
         | TUnit \<Rightarrow> Finite [\<lparr>sg_key = KUnit, sg_name = str ''()'', sg_fields = []\<rparr>]
         | TTuple elems \<Rightarrow> Finite [\<lparr>sg_key = KTuple, sg_name = str ''('' @ [8230] @ str '')'', sg_fields = elems\<rparr>]
         | TRecord fs _ \<Rightarrow> Finite [\<lparr>sg_key = KRecord, sg_name = str ''{ '' @ [8230] @ str '' }'', sg_fields = map snd fs\<rparr>]
         | TAdt adt \<Rightarrow> adt_signature env t adt
         | _ \<Rightarrow> Infinite))"

section \<open>Lowering\<close>

definition ctor_tag_arity :: "match_env \<Rightarrow> nat \<Rightarrow> (nat \<times> nat) option" where
  "ctor_tag_arity env p =
     (case me_pat_res env p of
        None \<Rightarrow> None
      | Some ctor \<Rightarrow>
          map_option (\<lambda>info. (ci_tag info, ci_arity info))
            (TypeDecls_ctor (me_decls env (ctor_file env (nr_file ctor))) (nr_name ctor)))"

text \<open>\<^verbatim>\<open>Vec::resize\<close>: cut or fill up to a length.\<close>

definition resize :: "nat \<Rightarrow> 'a \<Rightarrow> 'a list \<Rightarrow> 'a list" where
  "resize n x xs = take n xs @ replicate (n - length xs) x"

definition lower_literal :: "nat \<Rightarrow> ('a \<Rightarrow> literal_key) \<Rightarrow> 'a option \<Rightarrow> ipat" where
  "lower_literal p key decoded = ILit (case decoded of Some v \<Rightarrow> key v | None \<Rightarrow> LInvalid p)"

definition decode_float_literal :: "match_env \<Rightarrow> utext \<Rightarrow> nat option" where
  "decode_float_literal env raw = me_parse_f64 env (filter (\<lambda>c. c \<noteq> ch CHR ''_'') raw)"

text \<open>
  The sub-patterns of a record in the order of the row, taking each field that is used out of the
  map; the second result is what is left of it.
\<close>

fun record_args :: "(symbol \<times> ty) list \<Rightarrow> (symbol \<times> ipat) list \<Rightarrow> ipat list \<times> (symbol \<times> ipat) list" where
  "record_args [] by_name = ([], by_name)"
| "record_args ((name, _) # row) by_name =
     (let arg = (case map_of by_name name of None \<Rightarrow> IWild | Some q \<Rightarrow> q);
          (args, left) = record_args row (filter (\<lambda>(n, _). n \<noteq> name) by_name)
      in (arg # args, left))"

text \<open>A record pattern, given its lowered fields and the inferred type.\<close>

definition lower_record :: "nat \<Rightarrow> ty option \<Rightarrow> (symbol \<times> ipat) list \<Rightarrow> bool \<Rightarrow> ipat" where
  "lower_record p t fs opn =
     (case t of
        Some (TRecord row rt) \<Rightarrow>
          if \<not> opn \<and> (rt \<noteq> RowClosed \<or> length row \<noteq> length fs) then ILit (LInvalid p)
          else if \<not> distinct (map fst fs) then ILit (LInvalid p)
          else (case record_args row fs of
                  (args, []) \<Rightarrow> ICon KRecord args
                | (_, _ # _) \<Rightarrow> ILit (LInvalid p))
      | _ \<Rightarrow> ILit (LInvalid p))"

fun lower_pat :: "match_env \<Rightarrow> pat \<Rightarrow> ipat" where
  "lower_pat env (PVar p _) = IWild"
| "lower_pat env (PWildcard p) = IWild"
| "lower_pat env (PError p) = IWild"
| "lower_pat env (PUnit p) = ICon KUnit []"
| "lower_pat env (PParen p inner) = lower_pat env inner"
| "lower_pat env (PAs p inner _) = lower_pat env inner"
| "lower_pat env (PBool p b) = ICon (KTag (if b then 1 else 0)) []"
| "lower_pat env (PInt p s) = lower_literal p LInt (decode_int_literal s)"
| "lower_pat env (PFloat p s) = lower_literal p LFloat (decode_float_literal env s)"
| "lower_pat env (PString p s) = lower_literal p LString (decode_string_literal s)"
| "lower_pat env (PChar p s) = lower_literal p LChar (decode_char_literal s)"
| "lower_pat env (PTuple p elems) = ICon KTuple (map (lower_pat env) elems)"
| "lower_pat env (PCons p h tail) = ICon (KTag CONS_TAG) [lower_pat env h, lower_pat env tail]"
| "lower_pat env (PList p elems) =
     foldr (\<lambda>e list. ICon (KTag CONS_TAG) [e, list]) (map (lower_pat env) elems) (ICon (KTag NIL_TAG) [])"
| "lower_pat env (PConstructor p _ args) =
     (case ctor_tag_arity env p of
        None \<Rightarrow> ILit (LInvalid p)
      | Some (tag, arity) \<Rightarrow> ICon (KTag (int tag)) (resize arity IWild (map (lower_pat env) args)))"
| "lower_pat env (POr p alts) = IOr (map (lower_pat env) alts)"
| "lower_pat env (PRecord p fs opn) =
     lower_record p (me_pat_type env p) (map (\<lambda>(name, q). (name, lower_pat env q)) fs) opn"

section \<open>Pattern matrices\<close>

text \<open>The rows of the Cartesian product, the last column varying fastest.\<close>

definition product_rows :: "'a list list \<Rightarrow> 'a list list" where
  "product_rows cols = fold (\<lambda>col rows. concat (map (\<lambda>row. map (\<lambda>e. row @ [e]) col) rows)) cols [[]]"

fun expand_or :: "ipat \<Rightarrow> ipat list" where
  "expand_or (IOr alts) = concat (map expand_or alts)"
| "expand_or (ICon key args) = map (ICon key) (product_rows (map expand_or args))"
| "expand_or IWild = [IWild]"
| "expand_or (ILit l) = [ILit l]"

fun is_or :: "ipat \<Rightarrow> bool" where
  "is_or (IOr _) = True"
| "is_or _ = False"

lemma expand_or_no_or: "p \<in> set (expand_or q) \<Longrightarrow> \<not> is_or p"
  by (induction q rule: expand_or.induct) auto

function specialize_row :: "con_key \<Rightarrow> nat \<Rightarrow> ipat list \<Rightarrow> ipat list list" where
  "specialize_row key arity [] = []"
| "specialize_row key arity (ICon k args # rest) = (if k = key then [args @ rest] else [])"
| "specialize_row key arity (IWild # rest) = [replicate arity IWild @ rest]"
| "specialize_row key arity (IOr alts # rest) =
     concat (map (\<lambda>alt. specialize_row key arity (alt # rest)) (expand_or (IOr alts)))"
| "specialize_row key arity (ILit _ # rest) = []"
  by pat_completeness auto
termination
  by (relation "measure (\<lambda>(k, a, row). if row \<noteq> [] \<and> is_or (hd row) then 1 else 0)") (auto dest: expand_or_no_or)

definition specialize :: "ipat list list \<Rightarrow> con_key \<Rightarrow> nat \<Rightarrow> ipat list list" where
  "specialize matrix key arity = concat (map (specialize_row key arity) matrix)"

function specialize_lit_row :: "literal_key \<Rightarrow> ipat list \<Rightarrow> ipat list list" where
  "specialize_lit_row l [] = []"
| "specialize_lit_row l (ILit v # rest) = (if v = l then [rest] else [])"
| "specialize_lit_row l (IWild # rest) = [rest]"
| "specialize_lit_row l (IOr alts # rest) =
     concat (map (\<lambda>alt. specialize_lit_row l (alt # rest)) (expand_or (IOr alts)))"
| "specialize_lit_row l (ICon _ _ # rest) = []"
  by pat_completeness auto
termination
  by (relation "measure (\<lambda>(l, row). if row \<noteq> [] \<and> is_or (hd row) then 1 else 0)") (auto dest: expand_or_no_or)

definition specialize_lit :: "ipat list list \<Rightarrow> literal_key \<Rightarrow> ipat list list" where
  "specialize_lit matrix l = concat (map (specialize_lit_row l) matrix)"

text \<open>The default matrix of one row; an empty row panics.\<close>

function default_row :: "ipat list \<Rightarrow> ipat list list option" where
  "default_row [] = None"
| "default_row (IWild # rest) = Some [rest]"
| "default_row (IOr alts # rest) =
     map_option concat (those (map (\<lambda>alt. default_row (alt # rest)) (expand_or (IOr alts))))"
| "default_row (ICon _ _ # rest) = Some []"
| "default_row (ILit _ # rest) = Some []"
  by pat_completeness auto
termination
  by (relation "measure (\<lambda>row. if row \<noteq> [] \<and> is_or (hd row) then 1 else 0)") (auto dest: expand_or_no_or)

definition default_matrix :: "ipat list list \<Rightarrow> ipat list list option" where
  "default_matrix matrix = map_option concat (those (map default_row matrix))"

fun collect_keys :: "ipat \<Rightarrow> con_key list \<Rightarrow> con_key list" where
  "collect_keys (ICon key _) out = (if key \<in> set out then out else out @ [key])"
| "collect_keys (IOr alts) out = fold collect_keys alts out"
| "collect_keys _ out = out"

definition head_keys :: "ipat list list \<Rightarrow> con_key list" where
  "head_keys matrix = fold (\<lambda>row keys. case row of [] \<Rightarrow> keys | first # _ \<Rightarrow> collect_keys first keys) matrix []"

section \<open>Termination of the usefulness test\<close>

text \<open>
  A weight for patterns under which splitting an or-pattern loses weight and so does taking a
  constructor apart. Rows multiply, matrices add.
\<close>

fun pat_weight :: "ipat \<Rightarrow> nat" where
  "pat_weight IWild = 1"
| "pat_weight (ILit _) = 1"
| "pat_weight (ICon _ args) = 2 * prod_list (map pat_weight args)"
| "pat_weight (IOr alts) = 1 + sum_list (map pat_weight alts)"

definition row_weight :: "ipat list \<Rightarrow> nat" where
  "row_weight row = prod_list (map pat_weight row)"

definition matrix_weight :: "ipat list list \<Rightarrow> nat" where
  "matrix_weight matrix = sum_list (map row_weight matrix)"

lemma prod_list_pos: "(\<And>x. x \<in> set xs \<Longrightarrow> 0 < (x :: nat)) \<Longrightarrow> 0 < prod_list xs"
  by (induction xs) simp_all

lemma pat_weight_pos: "0 < pat_weight p"
  by (induction p rule: pat_weight.induct) (simp_all add: prod_list_pos image_iff, metis prod_list_pos imageE list.set_map neq0_conv)

lemma row_weight_simps [simp]:
  "row_weight [] = 1" "row_weight (p # row) = pat_weight p * row_weight row"
  "row_weight (row @ row') = row_weight row * row_weight row'" "row_weight (replicate n IWild) = 1"
proof -
  show "row_weight (replicate n IWild) = 1" by (induction n) (simp_all add: row_weight_def)
qed (simp_all add: row_weight_def)

lemma row_weight_pos: "0 < row_weight row"
  unfolding row_weight_def by (rule prod_list_pos) (auto simp: pat_weight_pos)

lemma product_rows_weight:
  "sum_list (map row_weight (product_rows cols)) = prod_list (map (\<lambda>col. sum_list (map pat_weight col)) cols)"
proof -
  let ?step = "\<lambda>col rows. concat (map (\<lambda>row. map (\<lambda>e. row @ [e]) col) rows)"
  have e: "sum_list (map (\<lambda>e. row_weight (row @ [e])) col) = row_weight row * sum_list (map pat_weight col)" for row col
    by (induction col) (simp_all add: algebra_simps)
  have one: "sum_list (map row_weight (?step col rows)) = sum_list (map row_weight rows) * sum_list (map pat_weight col)" for col rows
    by (induction rows) (simp_all only: list.map concat.simps map_append sum_list_append map_map comp_def e, simp_all add: algebra_simps)
  have "sum_list (map row_weight (fold ?step cols rows)) =
      sum_list (map row_weight rows) * prod_list (map (\<lambda>col. sum_list (map pat_weight col)) cols)" for rows
    by (induction cols arbitrary: rows) (simp_all add: one algebra_simps)
  from this [of "[[]]"] show ?thesis by (simp add: product_rows_def)
qed

lemma prod_list_mono: "(\<And>x. x \<in> set xs \<Longrightarrow> f x \<le> (g x :: nat)) \<Longrightarrow> prod_list (map f xs) \<le> prod_list (map g xs)"
  by (induction xs) (auto intro: mult_le_mono)

lemma expand_or_weight: "sum_list (map pat_weight (expand_or p)) \<le> pat_weight p"
proof (induction p rule: expand_or.induct)
  case (1 alts)
  have "sum_list (map pat_weight (concat (map expand_or alts))) \<le> sum_list (map pat_weight alts)"
    using 1 by (induction alts) (auto intro: add_mono)
  then show ?case by simp
next
  case (2 key args)
  have "sum_list (map (\<lambda>row. 2 * row_weight row) (product_rows (map expand_or args))) \<le> 2 * prod_list (map pat_weight args)"
    unfolding sum_list_const_mult product_rows_weight map_map comp_def
    by (intro mult_le_mono2 prod_list_mono) (use 2 in auto)
  then show ?case by (simp add: comp_def row_weight_def)
qed simp_all

lemma expand_IOr_weight: "sum_list (map pat_weight (expand_or (IOr alts))) < pat_weight (IOr alts)"
proof -
  have "sum_list (map pat_weight (concat (map expand_or alts))) \<le> sum_list (map pat_weight alts)"
    using expand_or_weight by (induction alts) (auto intro: add_mono)
  then show ?thesis by simp
qed

lemma weight_alternatives:
  assumes "\<And>alt. alt \<in> set alts \<Longrightarrow> matrix_weight (f (alt # rest)) \<le> row_weight (alt # rest)"
  shows "matrix_weight (concat (map (\<lambda>alt. f (alt # rest)) alts)) \<le> sum_list (map pat_weight alts) * row_weight rest"
  using assms by (induction alts) (auto simp: matrix_weight_def algebra_simps intro!: add_mono)

lemma weight_IOr:
  assumes "\<And>alt. alt \<in> set (expand_or (IOr alts)) \<Longrightarrow> matrix_weight (f (alt # rest)) \<le> row_weight (alt # rest)"
  shows "matrix_weight (concat (map (\<lambda>alt. f (alt # rest)) (expand_or (IOr alts)))) < row_weight (IOr alts # rest)"
proof -
  have "matrix_weight (concat (map (\<lambda>alt. f (alt # rest)) (expand_or (IOr alts)))) \<le>
      sum_list (map pat_weight (expand_or (IOr alts))) * row_weight rest"
    by (rule weight_alternatives) (rule assms)
  also have "\<dots> < pat_weight (IOr alts) * row_weight rest"
    using expand_IOr_weight row_weight_pos by (simp only: mult_less_mono1)
  finally show ?thesis by (simp only: row_weight_simps)
qed

lemma matrix_weight_simps [simp]:
  "matrix_weight [] = 0" "matrix_weight (row # m) = row_weight row + matrix_weight m"
  "matrix_weight (m @ m') = matrix_weight m + matrix_weight m'"
  by (simp_all add: matrix_weight_def)

lemma specialize_row_weight: "matrix_weight (specialize_row key arity row) \<le> row_weight row"
proof (induction key arity row rule: specialize_row.induct)
  case (4 key arity alts rest)
  then show ?case using weight_IOr [of alts "specialize_row key arity" rest] by (simp only: specialize_row.simps less_imp_le)
qed (auto simp: row_weight_def)

lemma specialize_row_weight_less:
  assumes "key \<in> set (collect_keys p [])"
  shows "matrix_weight (specialize_row key arity (p # rest)) < row_weight (p # rest)"
proof (cases p)
  case (ICon k args)
  then show ?thesis using assms row_weight_pos [of args] row_weight_pos [of rest] by (auto simp: row_weight_def split: if_splits)
next
  case (IOr alts)
  then show ?thesis
    using weight_IOr [of alts "specialize_row key arity" rest] specialize_row_weight by (simp only: specialize_row.simps)
qed (use assms in auto)

lemma specialize_lit_row_weight: "matrix_weight (specialize_lit_row l row) \<le> row_weight row"
proof (induction l row rule: specialize_lit_row.induct)
  case (4 l alts rest)
  then show ?case using weight_IOr [of alts "specialize_lit_row l" rest] by (simp only: specialize_lit_row.simps less_imp_le)
qed auto

lemma those_eq_Some: "those xs = Some ys \<longleftrightarrow> xs = map Some ys"
  by (induction xs arbitrary: ys) (auto split: option.splits)

lemma default_row_weight: "default_row row = Some m \<Longrightarrow> matrix_weight m \<le> row_weight row"
proof (induction row arbitrary: m rule: default_row.induct)
  case (3 alts rest)
  then obtain ms where ms: "map (\<lambda>alt. default_row (alt # rest)) (expand_or (IOr alts)) = map Some ms" and m: "m = concat ms"
    by (auto simp: those_eq_Some simp del: expand_or.simps)
  let ?f = "\<lambda>row. the (default_row row)"
  have "map (\<lambda>alt. ?f (alt # rest)) (expand_or (IOr alts)) = map the (map Some ms)"
    by (simp only: ms [symmetric] map_map comp_def)
  then have e: "ms = map (\<lambda>alt. ?f (alt # rest)) (expand_or (IOr alts))" by (simp add: comp_def)
  have "matrix_weight (?f (alt # rest)) \<le> row_weight (alt # rest)" if alt: "alt \<in> set (expand_or (IOr alts))" for alt
  proof -
    have "default_row (alt # rest) \<in> set (map Some ms)" unfolding ms [symmetric] set_map using alt by (rule imageI)
    then obtain y where "default_row (alt # rest) = Some y" by auto
    with "3.IH" [OF alt this] show ?thesis by simp
  qed
  from weight_IOr [of alts ?f rest, OF this] show ?case unfolding m e by (rule less_imp_le)
qed auto

lemma matrix_weight_concat:
  "(\<And>row. row \<in> set m \<Longrightarrow> matrix_weight (f row) \<le> row_weight row) \<Longrightarrow> matrix_weight (concat (map f m)) \<le> matrix_weight m"
  by (induction m) (auto intro: add_mono)

lemma specialize_weight: "matrix_weight (specialize m key arity) \<le> matrix_weight m"
  unfolding specialize_def by (rule matrix_weight_concat) (rule specialize_row_weight)

lemma specialize_lit_weight: "matrix_weight (specialize_lit m l) \<le> matrix_weight m"
  unfolding specialize_lit_def by (rule matrix_weight_concat) (rule specialize_lit_row_weight)

lemma default_matrix_simps:
  "default_matrix [] = Some []"
  "default_matrix (row # m) = (case default_row row of None \<Rightarrow> None | Some r \<Rightarrow> map_option ((@) r) (default_matrix m))"
  by (simp_all add: default_matrix_def option.map_comp comp_def split: option.splits)

lemma default_matrix_weight: "default_matrix m = Some d \<Longrightarrow> matrix_weight d \<le> matrix_weight m"
  by (induction m arbitrary: d) (auto simp: default_matrix_simps dest!: default_row_weight split: option.splits intro: add_mono)

lemma set_collect_keys: "set (collect_keys p out) = set (collect_keys p []) \<union> set out"
proof (induction p arbitrary: out)
  case (IOr alts)
  have "set (fold collect_keys alts out) = (\<Union>a \<in> set alts. set (collect_keys a [])) \<union> set out" for out
    by (rule set_fold_collect) (rule IOr)
  then show ?case by simp
qed auto

lemma head_keysD: "key \<in> set (head_keys m) \<Longrightarrow> \<exists>p rest. p # rest \<in> set m \<and> key \<in> set (collect_keys p [])"
proof -
  let ?g = "\<lambda>row keys. case row of [] \<Rightarrow> keys | first # _ \<Rightarrow> collect_keys first keys"
  have "set (fold ?g m out) = (\<Union>row \<in> set m. set (?g row [])) \<union> set out" for out
  proof (rule set_fold_collect)
    show "set (?g row out) = set (?g row []) \<union> set out" for row out
      using set_collect_keys [of "hd row" out] by (cases row) simp_all
  qed
  then show "key \<in> set (head_keys m) \<Longrightarrow> ?thesis" by (auto simp: head_keys_def split: list.splits)
qed

lemma specialize_weight_less:
  assumes "key \<in> set (head_keys m)"
  shows "matrix_weight (specialize m key arity) < matrix_weight m"
proof -
  from head_keysD [OF assms] obtain p rest where p: "p # rest \<in> set m" "key \<in> set (collect_keys p [])" by blast
  then obtain m1 m2 where m: "m = m1 @ (p # rest) # m2" by (meson split_list)
  have "matrix_weight (specialize m key arity) =
      matrix_weight (specialize m1 key arity) + matrix_weight (specialize_row key arity (p # rest)) + matrix_weight (specialize m2 key arity)"
    by (simp add: m specialize_def)
  also have "\<dots> < matrix_weight m1 + row_weight (p # rest) + matrix_weight m2"
    using specialize_weight [of m1 key arity] specialize_weight [of m2 key arity] specialize_row_weight_less [OF p(2), of arity rest] by linarith
  finally show ?thesis by (simp add: m)
qed

section \<open>Usefulness\<close>

text \<open>\<^verbatim>\<open>Iterator::any\<close> with a test that can panic: it stops at the first success.\<close>

fun any_opt :: "('a \<Rightarrow> bool option) \<Rightarrow> 'a list \<Rightarrow> bool option" where
  "any_opt f [] = Some False"
| "any_opt f (x # xs) = (case f x of None \<Rightarrow> None | Some True \<Rightarrow> Some True | Some False \<Rightarrow> any_opt f xs)"

lemma any_opt_cong [fundef_cong]: "xs = ys \<Longrightarrow> (\<And>x. x \<in> set ys \<Longrightarrow> f x = g x) \<Longrightarrow> any_opt f xs = any_opt g ys"
  by (induction ys arbitrary: xs) (auto split: option.splits bool.splits)

fun q_size :: "ipat list \<Rightarrow> nat" where
  "q_size [] = 0"
| "q_size (p # q) = size p + 1 + q_size q"

lemma q_size_append [simp]: "q_size (p @ q) = q_size p + q_size q"
  by (induction p) simp_all

lemma size_list_q_size: "size_list size q = q_size q"
  by (induction q) simp_all

lemma q_size_mem: "p \<in> set q \<Longrightarrow> size p + 1 \<le> q_size q"
  by (induction q) auto

definition useful_measure :: "(match_env \<times> ipat list list \<times> ipat list \<times> ty list) + (match_env \<times> ipat list list \<times> ipat list \<times> ty list) \<Rightarrow> nat \<times> nat" where
  "useful_measure x =
     (case x of
        Inl (env, m, q, ts) \<Rightarrow> (matrix_weight m, 2 * q_size q)
      | Inr (env, m, q, ts) \<Rightarrow> (matrix_weight m, 2 * q_size q + 1))"

function useful :: "match_env \<Rightarrow> ipat list list \<Rightarrow> ipat list \<Rightarrow> ty list \<Rightarrow> bool option"
  and useful_wild :: "match_env \<Rightarrow> ipat list list \<Rightarrow> ipat list \<Rightarrow> ty list \<Rightarrow> bool option" where
  "useful env matrix [] col_types = Some (matrix = [])"
| "useful env matrix (p # rest) [] = None"
| "useful env matrix (IOr alts # rest) (t # ts) = any_opt (\<lambda>alt. useful env matrix (alt # rest) (t # ts)) alts"
| "useful env matrix (ICon key args # rest) (t # ts) =
     useful env (specialize matrix key (length args)) (args @ rest) (ctor_field_types env t key (length args) @ ts)"
| "useful env matrix (ILit v # rest) (t # ts) = useful env (specialize_lit matrix v) rest ts"
| "useful env matrix (IWild # rest) (t # ts) = useful_wild env matrix rest (t # ts)"
| "useful_wild env matrix rest [] = None"
| "useful_wild env matrix rest (t # ts) =
     (case signature_of env t of
        Finite ctors \<Rightarrow>
          if list_all (\<lambda>c. sg_key c \<in> set (head_keys matrix)) ctors
          then any_opt (\<lambda>c. useful env (specialize matrix (sg_key c) (length (sg_fields c)))
                              (replicate (length (sg_fields c)) IWild @ rest) (sg_fields c @ ts)) ctors
          else (case default_matrix matrix of None \<Rightarrow> None | Some d \<Rightarrow> useful env d rest ts)
      | Infinite \<Rightarrow> (case default_matrix matrix of None \<Rightarrow> None | Some d \<Rightarrow> useful env d rest ts))"
  by pat_completeness auto

termination
proof (relation "inv_image (less_than <*lex*> less_than) useful_measure")
  show "wf (inv_image (less_than <*lex*> less_than) useful_measure)" by (simp add: wf_lex_prod)
qed (auto simp: useful_measure_def size_list_q_size list_all_iff
      dest: q_size_mem specialize_weight_less default_matrix_weight le_neq_implies_less
      intro: le_neq_implies_less specialize_weight specialize_lit_weight)

section \<open>Checking a match\<close>

text \<open>The missing constructors of a finite type, for the help message.\<close>

definition missing_hint :: "match_env \<Rightarrow> ipat list list \<Rightarrow> ty \<Rightarrow> utext" where
  "missing_hint env matrix t =
     (let catch_all = str ''add the missing arms, or a `_` catch-all''
      in case signature_of env t of
           Finite ctors \<Rightarrow>
             (let missing = map sg_name (filter (\<lambda>c. sg_key c \<notin> set (head_keys matrix)) ctors)
              in if missing \<noteq> [] then str ''add arms for: '' @ separated [] (str '', '') missing else catch_all)
         | Infinite \<Rightarrow> catch_all)"

text \<open>The arms in order: whether each is unreachable, and the matrix of all their rows.\<close>

fun check_arms :: "match_env \<Rightarrow> ty \<Rightarrow> pat list \<Rightarrow> ipat list list \<Rightarrow> (bool list \<times> ipat list list) option" where
  "check_arms env t [] matrix = Some ([], matrix)"
| "check_arms env t (arm # arms) matrix = do {
     let rows = expand_or (lower_pat env arm);
     useful_here \<leftarrow> any_opt (\<lambda>row. useful env matrix [row] [t]) rows;
     (flags, final) \<leftarrow> check_arms env t arms (matrix @ map (\<lambda>row. [row]) rows);
     Some ((\<not> useful_here) # flags, final) }"

record match_report =
  mr_unreachable :: "bool list"
  mr_missing :: "utext option"

definition check_match :: "match_env \<Rightarrow> ty \<Rightarrow> pat list \<Rightarrow> match_report option" where
  "check_match env t arms = do {
     (flags, matrix) \<leftarrow> check_arms env t arms [];
     escapes \<leftarrow> useful env matrix [IWild] [t];
     Some \<lparr>mr_unreachable = flags, mr_missing = (if escapes then Some (missing_hint env matrix t) else None)\<rparr> }"

section \<open>Values and matching\<close>

datatype val = VCon con_key "val list" | VLit literal_key | VOpaque nat

fun pmatches :: "ipat \<Rightarrow> val \<Rightarrow> bool" where
  "pmatches IWild v \<longleftrightarrow> True"
| "pmatches (ICon k ps) (VCon k' vs) \<longleftrightarrow> k = k' \<and> list_all2 pmatches ps vs"
| "pmatches (ICon k ps) v \<longleftrightarrow> False"
| "pmatches (ILit l) v \<longleftrightarrow> v = VLit l"
| "pmatches (IOr alts) v \<longleftrightarrow> (\<exists>p \<in> set alts. pmatches p v)"

abbreviation matches_row :: "ipat list \<Rightarrow> val list \<Rightarrow> bool" where
  "matches_row \<equiv> list_all2 pmatches"

text \<open>
  The values of a type: at a type with a signature, a constructor of it with values of its fields;
  at any other type, any value but the ones that stand for literals that do not decode.
\<close>

fun has_type :: "match_env \<Rightarrow> val \<Rightarrow> ty \<Rightarrow> bool" where
  "has_type env (VCon k us) t \<longleftrightarrow>
     (case signature_of env t of
        Infinite \<Rightarrow> True
      | Finite ctors \<Rightarrow> (\<exists>c \<in> set ctors. sg_key c = k \<and> list_all2 (has_type env) us (sg_fields c)))"
| "has_type env (VLit l) t \<longleftrightarrow> signature_of env t = Infinite \<and> (\<forall>p. l \<noteq> LInvalid p)"
| "has_type env (VOpaque n) t \<longleftrightarrow> signature_of env t = Infinite"

text \<open>
  Well-formed patterns: constructor patterns stand at types that have the constructor and have as
  many arguments as it has fields.
\<close>

fun wf_pat :: "match_env \<Rightarrow> ipat \<Rightarrow> ty \<Rightarrow> bool" where
  "wf_pat env IWild t \<longleftrightarrow> True"
| "wf_pat env (ILit l) t \<longleftrightarrow> True"
| "wf_pat env (IOr alts) t \<longleftrightarrow> (\<forall>p \<in> set alts. wf_pat env p t)"
| "wf_pat env (ICon k ps) t \<longleftrightarrow>
     (case signature_of env t of
        Infinite \<Rightarrow> False
      | Finite ctors \<Rightarrow>
          k \<in> sg_key ` set ctors \<and>
          (\<forall>c \<in> set ctors. sg_key c = k \<longrightarrow> length (sg_fields c) = length ps) \<and>
          list_all2 (wf_pat env) ps (ctor_field_types env t k (length ps)))"

abbreviation wf_row :: "match_env \<Rightarrow> ty list \<Rightarrow> ipat list \<Rightarrow> bool" where
  "wf_row env ts row \<equiv> list_all2 (wf_pat env) row ts"

text \<open>Patterns some value matches as far as their literals go.\<close>

fun clean_pat :: "match_env \<Rightarrow> ipat \<Rightarrow> ty \<Rightarrow> bool" where
  "clean_pat env IWild t \<longleftrightarrow> True"
| "clean_pat env (ILit l) t \<longleftrightarrow> signature_of env t = Infinite \<and> (\<forall>p. l \<noteq> LInvalid p)"
| "clean_pat env (IOr alts) t \<longleftrightarrow> (\<forall>p \<in> set alts. clean_pat env p t)"
| "clean_pat env (ICon k ps) t \<longleftrightarrow> list_all2 (clean_pat env) ps (ctor_field_types env t k (length ps))"

section \<open>Expansion and specialization keep what rows match\<close>

lemma product_rows_iff: "row \<in> set (product_rows cols) \<longleftrightarrow> list_all2 (\<lambda>e col. e \<in> set col) row cols"
proof -
  let ?step = "\<lambda>col rows. concat (map (\<lambda>row. map (\<lambda>e. row @ [e]) col) rows)"
  have "row \<in> set (fold ?step cols rows) \<longleftrightarrow> (\<exists>r es. row = r @ es \<and> r \<in> set rows \<and> list_all2 (\<lambda>e col. e \<in> set col) es cols)" for rows row
  proof (induction cols arbitrary: rows)
    case (Cons col cols)
    show ?case
      unfolding fold_simps comp_apply Cons.IH
    proof (intro iffI; elim exE conjE)
      fix r es assume "row = r @ es" "r \<in> set (?step col rows)" "list_all2 (\<lambda>e col. e \<in> set col) es cols"
      then obtain r0 e where "row = r0 @ e # es" "r0 \<in> set rows" "e \<in> set col" by auto
      with \<open>list_all2 _ es cols\<close> show "\<exists>r es. row = r @ es \<and> r \<in> set rows \<and> list_all2 (\<lambda>e col. e \<in> set col) es (col # cols)"
        by - (rule exI [of _ r0], rule exI [of _ "e # es"], simp)
    next
      fix r es assume a: "row = r @ es" "r \<in> set rows" "list_all2 (\<lambda>e col. e \<in> set col) es (col # cols)"
      then obtain e es' where "es = e # es'" "e \<in> set col" "list_all2 (\<lambda>e col. e \<in> set col) es' cols"
        by (auto simp: list_all2_Cons2)
      with a(1,2) show "\<exists>r es. row = r @ es \<and> r \<in> set (?step col rows) \<and> list_all2 (\<lambda>e col. e \<in> set col) es cols"
        by - (rule exI [of _ "r @ [e]"], rule exI [of _ es'], auto)
    qed
  qed simp
  then show ?thesis by (simp add: product_rows_def)
qed

lemma expand_or_matches: "(\<exists>e \<in> set (expand_or p). pmatches e v) \<longleftrightarrow> pmatches p v"
proof (induction p arbitrary: v rule: expand_or.induct)
  case (2 key args)
  show ?case
  proof (cases v)
    case (VCon k vs)
    have "(\<exists>row \<in> set (product_rows (map expand_or args)). list_all2 pmatches row vs) \<longleftrightarrow> list_all2 pmatches args vs"
    proof
      assume "\<exists>row \<in> set (product_rows (map expand_or args)). list_all2 pmatches row vs"
      then obtain row where r: "list_all2 (\<lambda>e col. e \<in> set col) row (map expand_or args)" "list_all2 pmatches row vs"
        by (auto simp: product_rows_iff)
      then have "length args = length vs" by (auto dest!: list_all2_lengthD)
      then show "list_all2 pmatches args vs"
        using r 2 by (auto simp: list_all2_conv_all_nth) (metis nth_mem)
    next
      assume m: "list_all2 pmatches args vs"
      then have l: "length args = length vs" by (rule list_all2_lengthD)
      have "\<exists>e \<in> set (expand_or (args ! i)). pmatches e (vs ! i)" if "i < length args" for i
        using 2 [of "args ! i" "vs ! i"] m that by (simp add: list_all2_conv_all_nth)
      then obtain f where f: "f i \<in> set (expand_or (args ! i))" "pmatches (f i) (vs ! i)" if "i < length args" for i
        by metis
      let ?row = "map f [0..<length args]"
      have "?row \<in> set (product_rows (map expand_or args))" "list_all2 pmatches ?row vs"
        using f l by (auto simp: product_rows_iff list_all2_conv_all_nth)
      then show "\<exists>row \<in> set (product_rows (map expand_or args)). list_all2 pmatches row vs" by blast
    qed
    then show ?thesis using VCon by auto
  qed auto
qed auto

lemma expand_args:
  "list_all2 (\<lambda>e col. e \<in> set col) row (map expand_or args) \<Longrightarrow> list_all2 P args ts \<Longrightarrow>
   (\<And>x t e. x \<in> set args \<Longrightarrow> P x t \<Longrightarrow> e \<in> set (expand_or x) \<Longrightarrow> P e t) \<Longrightarrow> list_all2 P row ts"
proof (induction args arbitrary: row ts)
  case (Cons a args)
  then obtain r row' t ts' where r: "row = r # row'" "r \<in> set (expand_or a)" "list_all2 (\<lambda>e col. e \<in> set col) row' (map expand_or args)"
    and t: "ts = t # ts'" "P a t" "list_all2 P args ts'" by (auto simp: list_all2_Cons1 list_all2_Cons2)
  have "list_all2 P row' ts'" by (rule Cons.IH [OF r(3) t(3)]) (rule Cons.prems(3), rule list.set_intros(2))
  moreover have "P r t" by (rule Cons.prems(3) [OF _ t(2) r(2)]) simp
  ultimately show ?case by (simp add: r(1) t(1))
qed simp

lemma expand_or_wf: "wf_pat env p t \<Longrightarrow> e \<in> set (expand_or p) \<Longrightarrow> wf_pat env e t"
proof (induction p arbitrary: e t rule: expand_or.induct)
  case (2 key args)
  then obtain row where row: "e = ICon key row" "list_all2 (\<lambda>e col. e \<in> set col) row (map expand_or args)"
    by (auto simp: product_rows_iff)
  then have l: "length row = length args" by (auto dest: list_all2_lengthD)
  have "list_all2 (wf_pat env) row ts" if "list_all2 (wf_pat env) args ts" for ts
    by (rule expand_args [OF row(2) that]) (rule 2(1))
  then show ?case using "2.prems"(1) row(1) l by (auto split: type_sig.splits)
qed auto

lemma expand_or_clean: "clean_pat env p t \<Longrightarrow> e \<in> set (expand_or p) \<Longrightarrow> clean_pat env e t"
proof (induction p arbitrary: e t rule: expand_or.induct)
  case (2 key args)
  then obtain row where row: "e = ICon key row" "list_all2 (\<lambda>e col. e \<in> set col) row (map expand_or args)"
    by (auto simp: product_rows_iff)
  then have l: "length row = length args" by (auto dest: list_all2_lengthD)
  have "list_all2 (clean_pat env) row ts" if "list_all2 (clean_pat env) args ts" for ts
    by (rule expand_args [OF row(2) that]) (rule 2(1))
  then show ?case using "2.prems"(1) row(1) l by auto
qed auto

lemma matches_row_expand:
  "(\<exists>alt \<in> set (expand_or p). matches_row (alt # rest) (v # vs)) \<longleftrightarrow> matches_row (p # rest) (v # vs)"
  using expand_or_matches [of p v] by auto

lemma specialize_row_matches:
  "wf_row env (t # ts) row \<Longrightarrow> signature_of env t = Finite ctors \<Longrightarrow> c \<in> set ctors \<Longrightarrow> k = sg_key c \<Longrightarrow>
   n = length (sg_fields c) \<Longrightarrow> length us = n \<Longrightarrow>
   (\<exists>r \<in> set (specialize_row k n row). matches_row r (us @ vs)) \<longleftrightarrow> matches_row row (VCon k us # vs)"
proof (induction k n row rule: specialize_row.induct)
  case (2 key n k args rest)
  then have "k = key \<Longrightarrow> length args = n" by auto
  with "2.prems"(6) show ?case by (auto simp: list_all2_append)
next
  case (3 key n rest)
  have "list_all2 pmatches (replicate n IWild) us" using "3.prems"(6) by (simp add: list_all2_conv_all_nth)
  with "3.prems"(6) show ?case by (simp add: list_all2_append)
next
  case (4 key n alts rest)
  have w: "wf_row env (t # ts) (alt # rest)" if "alt \<in> set (expand_or (IOr alts))" for alt
    using expand_or_wf [OF _ that] "4.prems"(1) by simp
  have "(\<exists>r \<in> set (specialize_row key n (IOr alts # rest)). matches_row r (us @ vs)) \<longleftrightarrow>
      (\<exists>alt \<in> set (expand_or (IOr alts)). matches_row (alt # rest) (VCon key us # vs))"
    using "4.IH" [OF _ w "4.prems"(2-)] by (simp del: expand_or.simps list.rel_inject)
  then show ?case unfolding matches_row_expand .
qed auto

lemma specialize_lit_row_matches:
  "(\<exists>r \<in> set (specialize_lit_row l row). matches_row r vs) \<longleftrightarrow> matches_row row (VLit l # vs)"
proof (induction l row rule: specialize_lit_row.induct)
  case (4 l alts rest)
  then have "(\<exists>r \<in> set (specialize_lit_row l (IOr alts # rest)). matches_row r vs) \<longleftrightarrow>
      (\<exists>alt \<in> set (expand_or (IOr alts)). matches_row (alt # rest) (VLit l # vs))"
    by (simp del: expand_or.simps list.rel_inject)
  then show ?case unfolding matches_row_expand .
qed auto

text \<open>The values a default row speaks for: those no constructor or literal in the column names.\<close>

definition other_value :: "ipat \<Rightarrow> val \<Rightarrow> bool" where
  "other_value p v \<longleftrightarrow> (\<forall>k us. v = VCon k us \<longrightarrow> k \<notin> set (collect_keys p [])) \<and> (\<forall>l. v \<noteq> VLit l)"

lemma collect_keys_expand: "e \<in> set (expand_or p) \<Longrightarrow> set (collect_keys e []) \<subseteq> set (collect_keys p [])"
proof (induction p arbitrary: e rule: expand_or.induct)
  case (1 alts)
  have "set (fold collect_keys alts out) = (\<Union>a \<in> set alts. set (collect_keys a [])) \<union> set out" for out
    by (rule set_fold_collect) (rule set_collect_keys)
  with 1 show ?case by fastforce
qed auto

lemma default_row_matches:
  "default_row row = Some d \<Longrightarrow> (\<exists>r \<in> set d. matches_row r vs) \<Longrightarrow> matches_row row (v # vs)"
proof (induction row arbitrary: d rule: default_row.induct)
  case (3 alts rest)
  then obtain ms where ms: "map (\<lambda>alt. default_row (alt # rest)) (expand_or (IOr alts)) = map Some ms" and d: "d = concat ms"
    by (auto simp: those_eq_Some simp del: expand_or.simps)
  from "3.prems"(2) d obtain m where m: "m \<in> set ms" "\<exists>r \<in> set m. matches_row r vs" by auto
  then have "Some m \<in> set (map (\<lambda>alt. default_row (alt # rest)) (expand_or (IOr alts)))" unfolding ms by simp
  then obtain alt where alt: "alt \<in> set (expand_or (IOr alts))" "default_row (alt # rest) = Some m"
    by (auto simp del: expand_or.simps)
  from "3.IH" [OF alt m(2)] alt(1) matches_row_expand [of "IOr alts" rest v vs] show ?case by blast
qed auto

lemma default_row_others:
  "default_row row = Some d \<Longrightarrow> other_value (hd row) v \<Longrightarrow> matches_row row (v # vs) \<Longrightarrow> \<exists>r \<in> set d. matches_row r vs"
proof (induction row arbitrary: d rule: default_row.induct)
  case (3 alts rest)
  then obtain ms where ms: "map (\<lambda>alt. default_row (alt # rest)) (expand_or (IOr alts)) = map Some ms" and d: "d = concat ms"
    by (auto simp: those_eq_Some simp del: expand_or.simps)
  from "3.prems"(3) obtain alt where alt: "alt \<in> set (expand_or (IOr alts))" "matches_row (alt # rest) (v # vs)"
    using matches_row_expand [of "IOr alts" rest v vs] by blast
  then have "default_row (alt # rest) \<in> set (map Some ms)" unfolding ms [symmetric] set_map by (intro imageI)
  then obtain m where m: "default_row (alt # rest) = Some m" "m \<in> set ms" by auto
  have "other_value (hd (alt # rest)) v"
    using "3.prems"(2) collect_keys_expand [OF alt(1)] by (auto simp: other_value_def simp del: collect_keys.simps)
  from "3.IH" [OF alt(1) m(1) this alt(2)] m(2) d show ?case by auto
next
  case (4 k args rest)
  then show ?case by (cases v) (auto simp: other_value_def)
qed (auto simp: other_value_def)

section \<open>Well-formed matrices stay well-formed\<close>

text \<open>The fields a constructor has in the signature are those the specialization uses.\<close>

lemma length_adt_field_types: "length (adt_field_types env t adt tag arity) = arity"
  by (auto simp: adt_field_types_def instantiate_fields_def Let_def split: option.splits Option.bind_splits if_splits)

lemma ctor_field_types_ADT:
  "fst (peel_ty t) = TAdt adt \<Longrightarrow> ctor_field_types env t (KTag tag) arity = adt_field_types env t adt tag arity"
  by (auto simp: ctor_field_types_def split: prod.splits)

lemma set_map_filter_iff: "y \<in> set (List.map_filter f xs) \<longleftrightarrow> (\<exists>x \<in> set xs. f x = Some y)"
  by (force simp: List.map_filter_def)

lemma signature_fields:
  assumes "signature_of env t = Finite ctors" and "c \<in> set ctors"
  shows "ctor_field_types env t (sg_key c) (length (sg_fields c)) = sg_fields c"
proof (cases "\<exists>adt. fst (peel_ty t) = TAdt adt")
  case True
  then obtain adt args where p: "peel_ty t = (TAdt adt, args)" by (metis prod.collapse)
  then have "adt_signature env t adt = Finite ctors" using assms(1) by (simp add: signature_of_def)
  then obtain decls names where "ctors = List.map_filter (\<lambda>cname. map_option (\<lambda>cinfo.
      \<lparr>sg_key = KTag (int (ci_tag cinfo)), sg_name = cname,
       sg_fields = ctor_field_types env t (KTag (int (ci_tag cinfo))) (ci_arity cinfo)\<rparr>) (TypeDecls_ctor decls cname)) names"
    by (auto simp: adt_signature_def Let_def split: option.splits if_splits)
  with assms(2) obtain cname and cinfo :: ctor_info where "\<lparr>sg_key = KTag (int (ci_tag cinfo)), sg_name = cname,
      sg_fields = ctor_field_types env t (KTag (int (ci_tag cinfo))) (ci_arity cinfo)\<rparr> = c"
    by (simp only: set_map_filter_iff map_option_eq_Some) blast
  then have c: "sg_key c = KTag (int (ci_tag cinfo))"
      "sg_fields c = ctor_field_types env t (KTag (int (ci_tag cinfo))) (ci_arity cinfo)" by auto
  have "length (sg_fields c) = ci_arity cinfo"
    using ctor_field_types_ADT [of t adt env] p c(2) length_adt_field_types by simp
  with c show ?thesis by simp
next
  case False
  with assms show ?thesis
    by (auto simp: signature_of_def ctor_field_types_def CONS_TAG_def NIL_TAG_def split: prod.splits ty.splits con.splits)
qed

lemma specialize_row_wf:
  "wf_row env (t # ts) row \<Longrightarrow> signature_of env t = Finite ctors \<Longrightarrow> c \<in> set ctors \<Longrightarrow> k = sg_key c \<Longrightarrow>
   n = length (sg_fields c) \<Longrightarrow> r \<in> set (specialize_row k n row) \<Longrightarrow> wf_row env (ctor_field_types env t k n @ ts) r"
proof (induction k n row rule: specialize_row.induct)
  case (2 key n k args rest)
  then have "k = key" "r = args @ rest" by (auto split: if_splits)
  moreover have "length args = n" using "2.prems"(1-5) calculation by auto
  ultimately show ?case using "2.prems"(1,2) by (auto intro!: list_all2_appendI)
next
  case (3 key n rest)
  have "length (ctor_field_types env t key n) = n"
    using signature_fields [OF "3.prems"(2,3)] "3.prems"(4,5) by simp
  then have "list_all2 (wf_pat env) (replicate n IWild) (ctor_field_types env t key n)" by (simp add: list_all2_conv_all_nth)
  with "3.prems"(1,6) show ?case by (auto intro: list_all2_appendI)
next
  case (4 key n alts rest)
  then obtain alt where alt: "alt \<in> set (expand_or (IOr alts))" "r \<in> set (specialize_row key n (alt # rest))"
    by (auto simp del: expand_or.simps)
  have "wf_row env (t # ts) (alt # rest)" using expand_or_wf [OF _ alt(1)] "4.prems"(1) by simp
  from "4.IH" [OF alt(1) this "4.prems"(2-5) alt(2)] show ?case .
qed auto

lemma specialize_lit_row_wf:
  "wf_row env (t # ts) row \<Longrightarrow> r \<in> set (specialize_lit_row l row) \<Longrightarrow> wf_row env ts r"
proof (induction l row rule: specialize_lit_row.induct)
  case (4 l alts rest)
  then obtain alt where alt: "alt \<in> set (expand_or (IOr alts))" "r \<in> set (specialize_lit_row l (alt # rest))"
    by (auto simp del: expand_or.simps)
  have "wf_row env (t # ts) (alt # rest)" using expand_or_wf [OF _ alt(1)] "4.prems"(1) by simp
  from "4.IH" [OF alt(1) this alt(2)] show ?case .
qed (auto split: if_splits)

lemma default_row_wf:
  "wf_row env (t # ts) row \<Longrightarrow> \<exists>d. default_row row = Some d \<and> (\<forall>r \<in> set d. wf_row env ts r)"
proof (induction row rule: default_row.induct)
  case (3 alts rest)
  have "\<exists>d. default_row (alt # rest) = Some d \<and> (\<forall>r \<in> set d. wf_row env ts r)" if "alt \<in> set (expand_or (IOr alts))" for alt
    using "3.IH" [OF that] expand_or_wf [OF _ that] "3.prems" by simp
  then obtain f where f: "default_row (alt # rest) = Some (f alt)" "\<forall>r \<in> set (f alt). wf_row env ts r"
    if "alt \<in> set (expand_or (IOr alts))" for alt by metis
  then have "map (\<lambda>alt. default_row (alt # rest)) (expand_or (IOr alts)) = map Some (map f (expand_or (IOr alts)))"
    by (simp del: expand_or.simps)
  then have "those (map (\<lambda>alt. default_row (alt # rest)) (expand_or (IOr alts))) = Some (map f (expand_or (IOr alts)))"
    unfolding those_eq_Some .
  then have "default_row (IOr alts # rest) = Some (concat (map f (expand_or (IOr alts))))"
    by (simp only: default_row.simps option.map)
  with f(2) show ?case by (auto simp del: expand_or.simps default_row.simps)
qed auto

lemma default_matrix_wf:
  "\<forall>row \<in> set m. wf_row env (t # ts) row \<Longrightarrow>
   \<exists>d. default_matrix m = Some d \<and> (\<forall>r \<in> set d. wf_row env ts r)"
proof (induction m)
  case (Cons row m)
  with default_row_wf [where env = env and t = t and ts = ts and row = row] obtain d1 d2 where
    "default_row row = Some d1" "\<forall>r \<in> set d1. wf_row env ts r" "default_matrix m = Some d2" "\<forall>r \<in> set d2. wf_row env ts r"
    by auto
  then show ?case by (auto simp: default_matrix_simps)
qed (simp add: default_matrix_simps)

lemma default_matrixD:
  "default_matrix m = Some d \<Longrightarrow> r \<in> set d \<Longrightarrow> \<exists>row \<in> set m. \<exists>d0. default_row row = Some d0 \<and> r \<in> set d0"
  "default_matrix m = Some d \<Longrightarrow> row \<in> set m \<Longrightarrow> \<exists>d0. default_row row = Some d0 \<and> set d0 \<subseteq> set d"
  by (induction m arbitrary: d) (auto simp: default_matrix_simps split: option.splits, blast+)

section \<open>Usefulness decides whether a value escapes\<close>

text \<open>Some values of the column types match the row \<open>q\<close> and no row of the matrix.\<close>

definition escapes :: "match_env \<Rightarrow> ipat list list \<Rightarrow> ipat list \<Rightarrow> ty list \<Rightarrow> bool" where
  "escapes env m q ts \<longleftrightarrow>
     (\<exists>vs. list_all2 (has_type env) vs ts \<and> matches_row q vs \<and> (\<forall>row \<in> set m. \<not> matches_row row vs))"

lemma escapes_Nil: "\<forall>row \<in> set m. wf_row env [] row \<Longrightarrow> escapes env m [] [] \<longleftrightarrow> m = []"
  by (cases m) (auto simp: escapes_def)

lemma escapes_Or: "escapes env m (IOr alts # rest) ts \<longleftrightarrow> (\<exists>alt \<in> set alts. escapes env m (alt # rest) ts)"
  by (fastforce simp: escapes_def list_all2_Cons1)

lemma specialize_matches:
  assumes "\<forall>row \<in> set m. wf_row env (t # ts) row" and "signature_of env t = Finite ctors" and "c \<in> set ctors"
    and "length us = length (sg_fields c)"
  shows "(\<exists>r \<in> set (specialize m (sg_key c) (length (sg_fields c))). matches_row r (us @ vs)) \<longleftrightarrow>
    (\<exists>row \<in> set m. matches_row row (VCon (sg_key c) us # vs))"
  using specialize_row_matches [OF _ assms(2,3) refl refl assms(4), where ts = ts and vs = vs] assms(1)
  by (auto simp: specialize_def)

text \<open>Values of the form of one constructor escape exactly when their fields escape the specialized matrix.\<close>

lemma escapes_ctor:
  assumes m: "\<forall>row \<in> set m. wf_row env (t # ts) row" and sig: "signature_of env t = Finite ctors" "c \<in> set ctors"
    and q: "length q = length (sg_fields c)"
  shows "escapes env (specialize m (sg_key c) (length (sg_fields c))) (q @ rest) (sg_fields c @ ts) \<longleftrightarrow>
    (\<exists>us vs. list_all2 (has_type env) us (sg_fields c) \<and> list_all2 (has_type env) vs ts \<and> matches_row q us \<and>
       matches_row rest vs \<and> (\<forall>row \<in> set m. \<not> matches_row row (VCon (sg_key c) us # vs)))" (is "?L \<longleftrightarrow> ?R")
proof
  assume ?L
  then obtain ws where ws: "list_all2 (has_type env) ws (sg_fields c @ ts)" "matches_row (q @ rest) ws"
    "\<forall>r \<in> set (specialize m (sg_key c) (length (sg_fields c))). \<not> matches_row r ws"
    unfolding escapes_def by blast
  then obtain us vs where u: "ws = us @ vs" "list_all2 (has_type env) us (sg_fields c)" "list_all2 (has_type env) vs ts"
    by (auto simp: list_all2_append2)
  then have l: "length us = length (sg_fields c)" by (simp add: list_all2_lengthD)
  have "matches_row q us" "matches_row rest vs" using ws(2) u(1) l q by (auto simp: list_all2_append)
  moreover have "\<forall>row \<in> set m. \<not> matches_row row (VCon (sg_key c) us # vs)"
    using ws(3) specialize_matches [OF m sig l, of vs] u(1) by blast
  ultimately show ?R using u by blast
next
  assume ?R
  then obtain us vs where u: "list_all2 (has_type env) us (sg_fields c)" "list_all2 (has_type env) vs ts" "matches_row q us"
    "matches_row rest vs" "\<forall>row \<in> set m. \<not> matches_row row (VCon (sg_key c) us # vs)" by blast
  then have l: "length us = length (sg_fields c)" by (simp add: list_all2_lengthD)
  have "\<forall>r \<in> set (specialize m (sg_key c) (length (sg_fields c))). \<not> matches_row r (us @ vs)"
    using u(5) specialize_matches [OF m sig l, of vs] by blast
  then show ?L using u unfolding escapes_def by (blast intro: list_all2_appendI)
qed

lemma escapes_Con:
  assumes m: "\<forall>row \<in> set m. wf_row env (t # ts) row" and q: "wf_pat env (ICon k args) t"
  shows "escapes env m (ICon k args # rest) (t # ts) \<longleftrightarrow>
    escapes env (specialize m k (length args)) (args @ rest) (ctor_field_types env t k (length args) @ ts)"
proof -
  from q obtain ctors where sig: "signature_of env t = Finite ctors" and k: "k \<in> sg_key ` set ctors"
    and len: "\<forall>c \<in> set ctors. sg_key c = k \<longrightarrow> length (sg_fields c) = length args"
    by (auto split: type_sig.splits)
  from k obtain c where c: "c \<in> set ctors" "sg_key c = k" by auto
  have fields: "sg_fields c' = ctor_field_types env t k (length args)" if "c' \<in> set ctors" "sg_key c' = k" for c'
    using signature_fields [OF sig that(1)] len that by simp
  have l: "length args = length (sg_fields c)" using len c by simp
  have t: "has_type env (VCon k us) t \<longleftrightarrow> list_all2 (has_type env) us (sg_fields c)" for us
    using sig c fields by auto
  have "escapes env m (ICon k args # rest) (t # ts) \<longleftrightarrow>
    (\<exists>us vs. has_type env (VCon k us) t \<and> list_all2 (has_type env) vs ts \<and> matches_row args us \<and>
       matches_row rest vs \<and> (\<forall>row \<in> set m. \<not> matches_row row (VCon k us # vs)))" (is "_ \<longleftrightarrow> ?R")
  proof
    assume "escapes env m (ICon k args # rest) (t # ts)"
    then obtain v vs where v: "has_type env v t" "list_all2 (has_type env) vs ts" "pmatches (ICon k args) v" "matches_row rest vs"
      "\<forall>row \<in> set m. \<not> matches_row row (v # vs)" unfolding escapes_def by (auto simp: list_all2_Cons2)
    moreover obtain us where "v = VCon k us" "matches_row args us" using v(3) by (cases v) auto
    ultimately show ?R by blast
  next
    assume ?R
    then obtain us vs where u: "has_type env (VCon k us) t" "list_all2 (has_type env) vs ts" "matches_row args us"
      "matches_row rest vs" "\<forall>row \<in> set m. \<not> matches_row row (VCon k us # vs)" by blast
    then show "escapes env m (ICon k args # rest) (t # ts)"
      unfolding escapes_def by (intro exI [of _ "VCon k us # vs"]) (simp del: has_type.simps)
  qed
  also have "\<dots> \<longleftrightarrow> escapes env (specialize m (sg_key c) (length (sg_fields c))) (args @ rest) (sg_fields c @ ts)"
    using escapes_ctor [OF m sig c(1) l, of rest] unfolding t c(2) by simp
  finally show ?thesis unfolding c(2) l [symmetric] unfolding fields [OF c] .
qed

lemma escapes_Wild_finite:
  assumes m: "\<forall>row \<in> set m. wf_row env (t # ts) row" and sig: "signature_of env t = Finite ctors"
  shows "escapes env m (IWild # rest) (t # ts) \<longleftrightarrow>
    (\<exists>c \<in> set ctors. escapes env (specialize m (sg_key c) (length (sg_fields c)))
       (replicate (length (sg_fields c)) IWild @ rest) (sg_fields c @ ts))" (is "?L \<longleftrightarrow> ?R")
proof -
  have wild: "matches_row (replicate n IWild) us \<longleftrightarrow> length us = n" for us n
    by (auto simp: list_all2_conv_all_nth)
  have e: "escapes env (specialize m (sg_key c) (length (sg_fields c))) (replicate (length (sg_fields c)) IWild @ rest) (sg_fields c @ ts) \<longleftrightarrow>
    (\<exists>us vs. list_all2 (has_type env) us (sg_fields c) \<and> list_all2 (has_type env) vs ts \<and>
       matches_row rest vs \<and> (\<forall>row \<in> set m. \<not> matches_row row (VCon (sg_key c) us # vs)))" if "c \<in> set ctors" for c
    using escapes_ctor [OF m sig that, of "replicate (length (sg_fields c)) IWild" rest] list_all2_lengthD [of "has_type env" _ "sg_fields c"]
    unfolding wild by (simp only: length_replicate simp_thms) blast
  show ?thesis
  proof
    assume ?L
    then obtain v vs where v: "has_type env v t" "list_all2 (has_type env) vs ts" "matches_row rest vs"
      "\<forall>row \<in> set m. \<not> matches_row row (v # vs)" unfolding escapes_def by (auto simp: list_all2_Cons2)
    then obtain c us where "v = VCon (sg_key c) us" "c \<in> set ctors" "list_all2 (has_type env) us (sg_fields c)"
      using sig by (cases v) auto
    with v(2-4) show ?R using e by blast
  next
    assume ?R
    then obtain c us vs where u: "c \<in> set ctors" "list_all2 (has_type env) us (sg_fields c)" "list_all2 (has_type env) vs ts"
      "matches_row rest vs" "\<forall>row \<in> set m. \<not> matches_row row (VCon (sg_key c) us # vs)" using e by blast
    then have "has_type env (VCon (sg_key c) us) t" using sig by auto
    with u show ?L unfolding escapes_def by (intro exI [of _ "VCon (sg_key c) us # vs"]) simp
  qed
qed

lemma escapes_default:
  assumes "default_matrix m = Some d" and "escapes env m (IWild # rest) (t # ts)"
  shows "escapes env d rest ts"
proof -
  from assms(2) obtain v vs where v: "list_all2 (has_type env) vs ts" "matches_row rest vs"
    "\<forall>row \<in> set m. \<not> matches_row row (v # vs)" unfolding escapes_def by (auto simp: list_all2_Cons2)
  have "\<forall>r \<in> set d. \<not> matches_row r vs"
    using default_matrixD(1) [OF assms(1)] default_row_matches v(3) by meson
  with v show ?thesis unfolding escapes_def by blast
qed

lemma escapes_other:
  assumes d: "default_matrix m = Some d" and e: "escapes env d rest ts" and t: "has_type env v t"
    and other: "\<And>p rest. p # rest \<in> set m \<Longrightarrow> other_value p v"
  shows "escapes env m (IWild # rest) (t # ts)"
proof -
  from e obtain vs where v: "list_all2 (has_type env) vs ts" "matches_row rest vs" "\<forall>r \<in> set d. \<not> matches_row r vs"
    unfolding escapes_def by blast
  have "\<not> matches_row row (v # vs)" if row: "row \<in> set m" for row
  proof
    assume mt: "matches_row row (v # vs)"
    then obtain p r where p: "row = p # r" by (cases row) auto
    from default_matrixD(2) [OF d row] obtain d0 where d0: "default_row row = Some d0" "set d0 \<subseteq> set d" by blast
    have "other_value (hd row) v" using other row p by simp
    from default_row_others [OF d0(1) this mt] d0(2) v(3) show False by blast
  qed
  with v t show ?thesis unfolding escapes_def by (intro exI [of _ "v # vs"]) simp
qed

lemma escapes_lit:
  "escapes env m (ILit l # rest) (t # ts) \<Longrightarrow> escapes env (specialize_lit m l) rest ts"
  "escapes env (specialize_lit m l) rest ts \<Longrightarrow> has_type env (VLit l) t \<Longrightarrow> escapes env m (ILit l # rest) (t # ts)"
proof -
  have e: "(\<exists>r \<in> set (specialize_lit m l). matches_row r vs) \<longleftrightarrow> (\<exists>row \<in> set m. matches_row row (VLit l # vs))" for vs
    using specialize_lit_row_matches [of l _ vs] by (auto simp: specialize_lit_def)
  show "escapes env (specialize_lit m l) rest ts" if l: "escapes env m (ILit l # rest) (t # ts)"
  proof -
    from l obtain vs where "list_all2 (has_type env) vs ts" "matches_row rest vs" "\<forall>row \<in> set m. \<not> matches_row row (VLit l # vs)"
      unfolding escapes_def by (auto simp: list_all2_Cons2 simp del: list_all2_Cons)
    with e [of vs] show ?thesis unfolding escapes_def by blast
  qed
  show "escapes env m (ILit l # rest) (t # ts)" if l: "escapes env (specialize_lit m l) rest ts" and t: "has_type env (VLit l) t"
  proof -
    from l obtain vs where "list_all2 (has_type env) vs ts" "matches_row rest vs" "\<forall>row \<in> set (specialize_lit m l). \<not> matches_row row vs"
      unfolding escapes_def by blast
    then have "list_all2 (has_type env) (VLit l # vs) (t # ts)" "matches_row (ILit l # rest) (VLit l # vs)"
      "\<forall>row \<in> set m. \<not> matches_row row (VLit l # vs)" using e [of vs] t by (simp_all del: has_type.simps)
    then show ?thesis unfolding escapes_def by blast
  qed
qed

definition inhabited :: "match_env \<Rightarrow> bool" where
  "inhabited env \<longleftrightarrow> (\<forall>t. \<exists>v. has_type env v t)"

text \<open>The test answers, never misses a value that escapes, and is right when it finds one.\<close>

definition decides :: "match_env \<Rightarrow> bool option \<Rightarrow> ipat list list \<Rightarrow> ipat list \<Rightarrow> ty list \<Rightarrow> bool" where
  "decides env r m q ts \<longleftrightarrow>
     (\<exists>b. r = Some b \<and> (escapes env m q ts \<longrightarrow> b) \<and>
        (b \<longrightarrow> list_all2 (clean_pat env) q ts \<longrightarrow> inhabited env \<longrightarrow> escapes env m q ts))"

lemma decidesD: "decides env r m q ts \<Longrightarrow> \<exists>b. r = Some b"
  by (auto simp: decides_def)

lemma decides_any:
  assumes "\<And>x. x \<in> set xs \<Longrightarrow> decides env (f x) (m x) (q x) (ts x)"
    and "escapes env m0 q0 ts0 \<longleftrightarrow> (\<exists>x \<in> set xs. escapes env (m x) (q x) (ts x))"
    and "\<And>x. x \<in> set xs \<Longrightarrow> list_all2 (clean_pat env) q0 ts0 \<Longrightarrow> list_all2 (clean_pat env) (q x) (ts x)"
  shows "decides env (any_opt f xs) m0 q0 ts0"
proof -
  have "\<exists>b. any_opt f xs = Some b \<and> ((\<exists>x \<in> set xs. escapes env (m x) (q x) (ts x)) \<longrightarrow> b) \<and>
      (b \<longrightarrow> list_all2 (clean_pat env) q0 ts0 \<longrightarrow> inhabited env \<longrightarrow> (\<exists>x \<in> set xs. escapes env (m x) (q x) (ts x)))"
    using assms(1,3)
  proof (induction xs)
    case (Cons x xs)
    from Cons.prems(1) [of x] obtain b where b: "f x = Some b" "escapes env (m x) (q x) (ts x) \<longrightarrow> b"
      "b \<longrightarrow> list_all2 (clean_pat env) (q x) (ts x) \<longrightarrow> inhabited env \<longrightarrow> escapes env (m x) (q x) (ts x)"
      by (auto simp: decides_def)
    from Cons b show ?case by (cases b) auto
  next
    case Nil
    show ?case by (rule exI [of _ False]) simp
  qed
  then show ?thesis unfolding decides_def assms(2) .
qed

lemma clean_wilds: "length ts = n \<Longrightarrow> list_all2 (clean_pat env) (replicate n IWild) ts"
  by (auto simp: list_all2_conv_all_nth)

lemma wf_wilds: "length ts = n \<Longrightarrow> list_all2 (wf_pat env) (replicate n IWild) ts"
  by (auto simp: list_all2_conv_all_nth)

lemma specialize_wf:
  assumes "\<forall>row \<in> set m. wf_row env (t # ts) row" and "signature_of env t = Finite ctors" and "c \<in> set ctors"
  shows "\<forall>row \<in> set (specialize m (sg_key c) (length (sg_fields c))). wf_row env (sg_fields c @ ts) row"
  using specialize_row_wf [OF _ assms(2,3) refl refl, where ts = ts] assms(1) signature_fields [OF assms(2,3)]
  by (auto simp: specialize_def)

lemma head_keys_other:
  assumes "k \<notin> set (head_keys m)" and "p # rest \<in> set m"
  shows "other_value p (VCon k us)"
proof -
  let ?g = "\<lambda>row keys. case row of [] \<Rightarrow> keys | first # _ \<Rightarrow> collect_keys first keys"
  have "set (fold ?g m out) = (\<Union>row \<in> set m. set (?g row [])) \<union> set out" for out
  proof (rule set_fold_collect)
    show "set (?g row out) = set (?g row []) \<union> set out" for row out
      using set_collect_keys [of "hd row" out] by (cases row) simp_all
  qed
  with assms show ?thesis by (force simp: head_keys_def other_value_def)
qed

lemma useful_decides_default:
  assumes m: "\<forall>row \<in> set m. wf_row env (t # ts) row" and d: "default_matrix m = Some d"
    and dec: "decides env r d rest ts"
    and v: "inhabited env \<Longrightarrow> \<exists>v. has_type env v t \<and> (\<forall>p rest. p # rest \<in> set m \<longrightarrow> other_value p v)"
  shows "decides env r m (IWild # rest) (t # ts)"
proof -
  have "escapes env m (IWild # rest) (t # ts)" if "escapes env d rest ts" "inhabited env"
    using v [OF that(2)] escapes_other [OF d that(1)] by blast
  with dec escapes_default [OF d] show ?thesis unfolding decides_def by auto
qed

lemma useful_decides:
  "wf_row env ts q \<Longrightarrow> \<forall>row \<in> set m. wf_row env ts row \<Longrightarrow> decides env (useful env m q ts) m q ts"
  "wf_row env ts (IWild # q) \<Longrightarrow> \<forall>row \<in> set m. wf_row env ts row \<Longrightarrow> decides env (useful_wild env m q ts) m (IWild # q) ts"
proof (induction env m q ts and env m q ts rule: useful_useful_wild.induct)
  case (1 env m ts)
  then show ?case using escapes_Nil [of m env] by (simp add: decides_def)
next
  case (3 env m alts rest t ts)
  show ?case unfolding useful.simps
    by (rule decides_any [where m = "\<lambda>_. m" and q = "\<lambda>alt. alt # rest" and ts = "\<lambda>_. t # ts"])
      (use 3 in \<open>auto simp: escapes_Or\<close>)
next
  case (4 env m key args rest t ts)
  from "4.prems"(1) have q: "wf_pat env (ICon key args) t" "wf_row env ts rest" by auto
  then obtain ctors c where sig: "signature_of env t = Finite ctors" and c: "c \<in> set ctors" "sg_key c = key"
    and l: "length (sg_fields c) = length args" and a: "list_all2 (wf_pat env) args (ctor_field_types env t key (length args))"
    by (auto split: type_sig.splits)
  have f: "ctor_field_types env t key (length args) = sg_fields c" using signature_fields [OF sig c(1)] c(2) l by simp
  have "decides env (useful env m (ICon key args # rest) (t # ts)) (specialize m key (length args)) (args @ rest)
      (ctor_field_types env t key (length args) @ ts)"
    unfolding useful.simps
    by (rule "4.IH") (use specialize_wf [OF "4.prems"(2) sig c(1)] a q(2) f l c(2) in \<open>auto intro: list_all2_appendI\<close>)
  then show ?case
    unfolding decides_def escapes_Con [OF "4.prems"(2) q(1)] by (auto intro: list_all2_appendI)
next
  case (5 env m l rest t ts)
  have w: "\<forall>row \<in> set (specialize_lit m l). wf_row env ts row"
    using specialize_lit_row_wf "5.prems"(2) unfolding specialize_lit_def by auto
  have "decides env (useful env m (ILit l # rest) (t # ts)) (specialize_lit m l) rest ts"
    unfolding useful.simps by (rule "5.IH") (use "5.prems"(1) w in auto)
  then show ?case
    unfolding decides_def using escapes_lit [where env = env and m = m and l = l and rest = rest and t = t and ts = ts] by auto
next
  case (8 env m rest t ts)
  from default_matrix_wf [OF "8.prems"(2)] obtain d where d: "default_matrix m = Some d" "\<forall>r \<in> set d. wf_row env ts r" by blast
  have rest: "wf_row env ts rest" using "8.prems"(1) by simp
  show ?case
  proof (cases "signature_of env t")
    case Infinite
    have "decides env (useful env d rest ts) m (IWild # rest) (t # ts)"
      by (rule useful_decides_default [OF "8.prems"(2) d(1) "8.IH"(3) [OF Infinite d(1) rest d(2)]])
        (use Infinite in \<open>auto simp: other_value_def intro: exI [of _ "VOpaque 0"]\<close>)
    then show ?thesis using Infinite d(1) by simp
  next
    case (Finite ctors)
    show ?thesis
    proof (cases "list_all (\<lambda>c. sg_key c \<in> set (head_keys m)) ctors")
      case True
      have "decides env (any_opt (\<lambda>c. useful env (specialize m (sg_key c) (length (sg_fields c)))
          (replicate (length (sg_fields c)) IWild @ rest) (sg_fields c @ ts)) ctors) m (IWild # rest) (t # ts)"
      proof (rule decides_any)
        show "escapes env m (IWild # rest) (t # ts) \<longleftrightarrow> (\<exists>c \<in> set ctors. escapes env (specialize m (sg_key c) (length (sg_fields c)))
          (replicate (length (sg_fields c)) IWild @ rest) (sg_fields c @ ts))"
          by (rule escapes_Wild_finite [OF "8.prems"(2) Finite])
        fix c assume c: "c \<in> set ctors"
        show "decides env (useful env (specialize m (sg_key c) (length (sg_fields c))) (replicate (length (sg_fields c)) IWild @ rest)
            (sg_fields c @ ts)) (specialize m (sg_key c) (length (sg_fields c))) (replicate (length (sg_fields c)) IWild @ rest) (sg_fields c @ ts)"
          by (rule "8.IH"(1) [OF Finite True c]) (use rest specialize_wf [OF "8.prems"(2) Finite c] in \<open>auto intro!: list_all2_appendI wf_wilds\<close>)
        show "list_all2 (clean_pat env) (IWild # rest) (t # ts) \<Longrightarrow>
            list_all2 (clean_pat env) (replicate (length (sg_fields c)) IWild @ rest) (sg_fields c @ ts)"
          by (auto intro!: list_all2_appendI clean_wilds)
      qed
      then show ?thesis using Finite True by simp
    next
      case False
      then obtain c where c: "c \<in> set ctors" "sg_key c \<notin> set (head_keys m)" by (auto simp: list_all_iff)
      have "decides env (useful env d rest ts) m (IWild # rest) (t # ts)"
      proof (rule useful_decides_default [OF "8.prems"(2) d(1) "8.IH"(2) [OF Finite False d(1) rest d(2)]])
        assume "inhabited env"
        then obtain f where f: "has_type env (f t) t" for t unfolding inhabited_def by metis
        have "list_all2 (has_type env) (map f (sg_fields c)) (sg_fields c)" by (simp add: list_all2_conv_all_nth f)
        then have "has_type env (VCon (sg_key c) (map f (sg_fields c))) t" using Finite c(1) by auto
        with head_keys_other [OF c(2)] show "\<exists>v. has_type env v t \<and> (\<forall>p rest. p # rest \<in> set m \<longrightarrow> other_value p v)" by blast
      qed
      then show ?thesis using Finite False d(1) by simp
    qed
  qed
qed auto

section \<open>The check of a match is right\<close>

definition covered :: "ipat list list \<Rightarrow> val \<Rightarrow> bool" where
  "covered m v \<longleftrightarrow> (\<exists>row \<in> set m. matches_row row [v])"

definition arm_rows :: "ipat \<Rightarrow> ipat list list" where
  "arm_rows p = map (\<lambda>row. [row]) (expand_or p)"

lemma covered_append [simp]: "covered (m @ arm_rows p) v \<longleftrightarrow> covered m v \<or> pmatches p v"
  using expand_or_matches [of p v] by (auto simp: covered_def arm_rows_def)

lemma escapes_single: "escapes env m [p] [t] \<longleftrightarrow> (\<exists>v. has_type env v t \<and> pmatches p v \<and> \<not> covered m v)"
proof
  assume "escapes env m [p] [t]"
  then obtain vs where vs: "list_all2 (has_type env) vs [t]" "matches_row [p] vs" "\<forall>row \<in> set m. \<not> matches_row row vs"
    unfolding escapes_def by blast
  then obtain v where "vs = [v]" by (auto simp: list_all2_Cons2)
  with vs show "\<exists>v. has_type env v t \<and> pmatches p v \<and> \<not> covered m v" by (auto simp: covered_def)
next
  assume "\<exists>v. has_type env v t \<and> pmatches p v \<and> \<not> covered m v"
  then obtain v where "has_type env v t" "pmatches p v" "\<not> covered m v" by blast
  then show "escapes env m [p] [t]" unfolding escapes_def by (intro exI [of _ "[v]"]) (simp add: covered_def)
qed

lemma arm_decided:
  assumes "\<forall>row \<in> set m. wf_row env [t] row" and "wf_pat env p t"
  shows "decides env (any_opt (\<lambda>row. useful env m [row] [t]) (expand_or p)) m [p] [t]"
proof (rule decides_any [where m = "\<lambda>_. m" and q = "\<lambda>row. [row]" and ts = "\<lambda>_. [t]"])
  show "escapes env m [p] [t] \<longleftrightarrow> (\<exists>x \<in> set (expand_or p). escapes env m [x] [t])"
    unfolding escapes_single using expand_or_matches [of p] by blast
  fix x assume x: "x \<in> set (expand_or p)"
  show "decides env (useful env m [x] [t]) m [x] [t]"
    by (rule useful_decides(1)) (use assms expand_or_wf [OF assms(2) x] in auto)
  show "list_all2 (clean_pat env) [p] [t] \<Longrightarrow> list_all2 (clean_pat env) [x] [t]" using expand_or_clean [OF _ x] by auto
qed

text \<open>The value reaches an arm: it matches the arm and nothing before it.\<close>

definition reaches_arm :: "match_env \<Rightarrow> ty \<Rightarrow> ipat list list \<Rightarrow> ipat list \<Rightarrow> nat \<Rightarrow> val \<Rightarrow> bool" where
  "reaches_arm env t m ps i v \<longleftrightarrow>
     has_type env v t \<and> pmatches (ps ! i) v \<and> \<not> covered m v \<and> (\<forall>j < i. \<not> pmatches (ps ! j) v)"

lemma reaches_arm_Cons:
  "reaches_arm env t m (p # ps) (Suc i) v \<longleftrightarrow> reaches_arm env t (m @ arm_rows p) ps i v"
  by (auto simp: reaches_arm_def All_less_Suc2)

lemma check_arms_decides:
  assumes "\<forall>row \<in> set m. wf_row env [t] row" and "\<forall>arm \<in> set arms. wf_pat env (lower_pat env arm) t"
  shows "\<exists>flags. check_arms env t arms m = Some (flags, m @ concat (map (\<lambda>arm. arm_rows (lower_pat env arm)) arms)) \<and> length flags = length arms \<and>
    (\<forall>i < length arms.
       (flags ! i \<longrightarrow> (\<nexists>v. reaches_arm env t m (map (lower_pat env) arms) i v)) \<and>
       (\<not> flags ! i \<longrightarrow> clean_pat env (lower_pat env (arms ! i)) t \<longrightarrow> inhabited env \<longrightarrow>
          (\<exists>v. reaches_arm env t m (map (lower_pat env) arms) i v)))"
  using assms
proof (induction arms arbitrary: m)
  case (Cons arm arms)
  let ?p = "lower_pat env arm"
  have p: "wf_pat env ?p t" using Cons.prems(2) by simp
  from arm_decided [OF Cons.prems(1) p] obtain b where
    b: "any_opt (\<lambda>row. useful env m [row] [t]) (expand_or ?p) = Some b" "escapes env m [?p] [t] \<longrightarrow> b"
      "b \<longrightarrow> clean_pat env ?p t \<longrightarrow> inhabited env \<longrightarrow> escapes env m [?p] [t]"
    unfolding decides_def by auto
  have z: "reaches_arm env t m (map (lower_pat env) (arm # arms)) 0 v \<longleftrightarrow> has_type env v t \<and> pmatches ?p v \<and> \<not> covered m v" for v
    by (simp add: reaches_arm_def)
  have "\<forall>row \<in> set (m @ arm_rows ?p). wf_row env [t] row"
    using Cons.prems(1) expand_or_wf [OF p] by (auto simp: arm_rows_def)
  from Cons.IH [OF this] Cons.prems(2) obtain flags where
    f: "check_arms env t arms (m @ arm_rows ?p) = Some (flags, (m @ arm_rows ?p) @ concat (map (\<lambda>arm. arm_rows (lower_pat env arm)) arms))"
      "length flags = length arms"
      "\<forall>i < length arms. (flags ! i \<longrightarrow> (\<nexists>v. reaches_arm env t (m @ arm_rows ?p) (map (lower_pat env) arms) i v)) \<and>
       (\<not> flags ! i \<longrightarrow> clean_pat env (lower_pat env (arms ! i)) t \<longrightarrow> inhabited env \<longrightarrow>
          (\<exists>v. reaches_arm env t (m @ arm_rows ?p) (map (lower_pat env) arms) i v))" by auto
  have "check_arms env t (arm # arms) m = Some ((\<not> b) # flags, m @ concat (map (\<lambda>arm. arm_rows (lower_pat env arm)) (arm # arms)))"
    using b(1) f(1) by (simp add: arm_rows_def)
  moreover have "(((\<not> b) # flags) ! i \<longrightarrow> (\<nexists>v. reaches_arm env t m (map (lower_pat env) (arm # arms)) i v)) \<and>
    (\<not> ((\<not> b) # flags) ! i \<longrightarrow> clean_pat env (lower_pat env ((arm # arms) ! i)) t \<longrightarrow> inhabited env \<longrightarrow>
       (\<exists>v. reaches_arm env t m (map (lower_pat env) (arm # arms)) i v))" if i: "i < length (arm # arms)" for i
  proof (cases i)
    case 0
    have "(\<exists>v. reaches_arm env t m (map (lower_pat env) (arm # arms)) 0 v) \<longleftrightarrow> escapes env m [?p] [t]"
      unfolding escapes_single z ..
    with b(2,3) show ?thesis unfolding 0 nth_Cons_0 by blast
  next
    case (Suc k)
    then have "k < length arms" using i by simp
    from f(3) [rule_format, OF this] show ?thesis unfolding Suc nth_Cons_Suc list.map reaches_arm_Cons .
  qed
  ultimately show ?case using f(2) by (intro exI [of _ "(\<not> b) # flags"]) simp
qed simp

lemma check_match_decides:
  assumes "\<forall>arm \<in> set arms. wf_pat env (lower_pat env arm) t"
  shows "\<exists>r. check_match env t arms = Some r \<and> length (mr_unreachable r) = length arms \<and>
    (\<forall>i < length arms.
       (mr_unreachable r ! i \<longrightarrow> (\<nexists>v. reaches_arm env t [] (map (lower_pat env) arms) i v)) \<and>
       (\<not> mr_unreachable r ! i \<longrightarrow> clean_pat env (lower_pat env (arms ! i)) t \<longrightarrow> inhabited env \<longrightarrow>
          (\<exists>v. reaches_arm env t [] (map (lower_pat env) arms) i v))) \<and>
    (mr_missing r = None \<longrightarrow> (\<forall>v. has_type env v t \<longrightarrow> (\<exists>arm \<in> set arms. pmatches (lower_pat env arm) v))) \<and>
    (mr_missing r \<noteq> None \<longrightarrow> inhabited env \<longrightarrow> (\<exists>v. has_type env v t \<and> (\<forall>arm \<in> set arms. \<not> pmatches (lower_pat env arm) v)))"
proof -
  let ?m = "concat (map (\<lambda>arm. arm_rows (lower_pat env arm)) arms)"
  from check_arms_decides [of "[]" env t arms] assms obtain flags where
    f: "check_arms env t arms [] = Some (flags, ?m)" "length flags = length arms"
      "\<forall>i < length arms. (flags ! i \<longrightarrow> (\<nexists>v. reaches_arm env t [] (map (lower_pat env) arms) i v)) \<and>
       (\<not> flags ! i \<longrightarrow> clean_pat env (lower_pat env (arms ! i)) t \<longrightarrow> inhabited env \<longrightarrow>
          (\<exists>v. reaches_arm env t [] (map (lower_pat env) arms) i v))" by auto
  have cov: "covered ?m v \<longleftrightarrow> (\<exists>arm \<in> set arms. pmatches (lower_pat env arm) v)" for v
    using expand_or_matches by (force simp: covered_def arm_rows_def)
  have "\<forall>row \<in> set ?m. wf_row env [t] row" using assms expand_or_wf by (auto simp: arm_rows_def)
  from useful_decides(1) [OF _ this, of "[IWild]"] obtain b where
    b: "useful env ?m [IWild] [t] = Some b" "escapes env ?m [IWild] [t] \<longrightarrow> b" "b \<longrightarrow> inhabited env \<longrightarrow> escapes env ?m [IWild] [t]"
    by (auto simp: decides_def)
  let ?r = "\<lparr>mr_unreachable = flags, mr_missing = (if b then Some (missing_hint env ?m t) else None)\<rparr>"
  have "check_match env t arms = Some ?r" using f(1) b(1) by (simp add: check_match_def)
  then show ?thesis using f(2,3) b(2,3) by (intro exI [of _ ?r]) (cases b; simp add: escapes_single cov)
qed

subsection \<open>Record patterns\<close>

lemma record_args_Cons:
  "fst (record_args ((name, u) # row) by_name) =
     (case map_of by_name name of None \<Rightarrow> IWild | Some q \<Rightarrow> q) # fst (record_args row (filter (\<lambda>nq. fst nq \<noteq> name) by_name))"
  "snd (record_args ((name, u) # row) by_name) = snd (record_args row (filter (\<lambda>nq. fst nq \<noteq> name) by_name))"
  by (simp_all add: Let_def case_prod_unfold)

lemma record_args_left:
  "snd (record_args row by_name) = filter (\<lambda>nq. fst nq \<notin> fst ` set row) by_name"
proof (induction row arbitrary: by_name)
  case (Cons f row)
  obtain name u where f: "f = (name, u)" by fastforce
  have "(\<lambda>nq :: symbol \<times> ipat. fst nq \<noteq> name \<and> fst nq \<notin> fst ` set row) = (\<lambda>nq. fst nq \<notin> fst ` set (f # row))"
    by (auto simp: f)
  then show ?case unfolding f record_args_Cons Cons.IH filter_filter by (simp add: f conj_commute)
qed simp

lemma map_of_filter_other: "n \<noteq> name \<Longrightarrow> map_of (filter (\<lambda>nq. fst nq \<noteq> name) xs) n = map_of xs n"
  by (induction xs) auto

lemma record_args_args:
  "distinct (map fst row) \<Longrightarrow>
   fst (record_args row by_name) = map (\<lambda>f. case map_of by_name (fst f) of None \<Rightarrow> IWild | Some q \<Rightarrow> q) row"
proof (induction row arbitrary: by_name)
  case (Cons f row)
  obtain name u where f: "f = (name, u)" by fastforce
  have "fst g \<noteq> name" if "g \<in> set row" for g using Cons.prems f that by auto
  then show ?case
    using Cons.prems unfolding f record_args_Cons by (simp add: Cons.IH map_of_filter_other)
qed simp

text \<open>
  a record pattern whose labels are labels of the inferred record type matches a record exactly
  when every sub-pattern matches the field of its label, whatever the order the pattern lists them
  in; fields it does not mention are free when the pattern is open.
\<close>

theorem record_pattern_by_label:
  assumes "distinct (map fst row)" and "distinct (map fst fs)" and "fst ` set fs \<subseteq> fst ` set row"
    and "opn \<or> (rt = RowClosed \<and> length row = length fs)" and "length vs = length row"
  shows "pmatches (lower_record p (Some (TRecord row rt)) fs opn) (VCon KRecord vs) \<longleftrightarrow>
    (\<forall>(name, q) \<in> set fs. \<forall>i < length row. fst (row ! i) = name \<longrightarrow> pmatches q (vs ! i))"
proof -
  have "snd (record_args row fs) = []" using assms(3) unfolding record_args_left filter_empty_conv by blast
  then have "lower_record p (Some (TRecord row rt)) fs opn = ICon KRecord (fst (record_args row fs))"
    using assms(2,4) by (auto simp: lower_record_def split: prod.splits)
  also have "pmatches \<dots> (VCon KRecord vs) \<longleftrightarrow>
      (\<forall>i < length row. case map_of fs (fst (row ! i)) of None \<Rightarrow> True | Some q \<Rightarrow> pmatches q (vs ! i))"
    using assms(5) by (auto simp: record_args_args [OF assms(1)] list_all2_conv_all_nth split: prod.splits option.splits)
  also have "\<dots> \<longleftrightarrow> (\<forall>(name, q) \<in> set fs. \<forall>i < length row. fst (row ! i) = name \<longrightarrow> pmatches q (vs ! i))"
    using assms(2) by (fastforce split: option.splits dest: map_of_SomeD)
  finally show ?thesis .
qed

theorem record_pattern_by_label_witness:
  "pmatches (lower_record 0 (Some (TRecord [(str ''a'', TUnit), (str ''b'', TUnit)] RowClosed))
      [(str ''b'', ICon KUnit []), (str ''a'', IWild)] False) (VCon KRecord [VOpaque 0, VCon KUnit []])"
  using record_pattern_by_label [of "[(str ''a'', TUnit), (str ''b'', TUnit)]"
      "[(str ''b'', ICon KUnit []), (str ''a'', IWild)]" False RowClosed "[VOpaque 0, VCon KUnit []]" 0]
  by (auto simp: str_def less_Suc_eq)

subsection \<open>Reports on a match\<close>


definition sample_env :: match_env where
  "sample_env = \<lparr>me_file_of = id, me_decls = (\<lambda>_. \<lparr>td_types = Map.empty, td_ctors = []\<rparr>), me_pat_res = Map.empty,
     me_pat_type = Map.empty, me_solved_fields = (\<lambda>_ _ _ _. None), me_parse_f64 = Map.empty\<rparr>"

lemma sample_bool: "signature_of env (TCon CBool) = Finite
    [\<lparr>sg_key = KTag 0, sg_name = str ''false'', sg_fields = []\<rparr>, \<lparr>sg_key = KTag 1, sg_name = str ''true'', sg_fields = []\<rparr>]"
  by (simp add: signature_of_def peel_ty_def)

lemma sample_arms: "\<forall>arm \<in> set [PBool 0 True, PBool 1 False]. wf_pat sample_env (lower_pat sample_env arm) (TCon CBool)"
  by (simp add: sample_bool ctor_field_types_def peel_ty_def)



lemma size_peel_loop: "size (fst (peel_loop t args)) \<le> size t"
  by (induction t args rule: peel_loop.induct) auto

lemma size_peel_ty: "peel_ty t = (h, args) \<Longrightarrow> size h \<le> size t"
  using size_peel_loop [of t "[]"] by (auto simp: peel_ty_def split: prod.splits)

lemma size_elem: "x \<in> set xs \<Longrightarrow> size x < size (TTuple xs)" "x \<in> snd ` set fs \<Longrightarrow> size x < size (TRecord fs rt)"
proof -
  show "x \<in> set xs \<Longrightarrow> size x < size (TTuple xs)" by (induction xs) auto
  have "(l, x) \<in> set fs \<Longrightarrow> size x < size (TRecord fs rt)" for l by (induction fs) auto
  then show "x \<in> snd ` set fs \<Longrightarrow> size x < size (TRecord fs rt)" by auto
qed

lemma inhabited_fields:
  assumes "\<And>x. x \<in> set ts \<Longrightarrow> \<exists>v. has_type env v x"
  shows "\<exists>vs. list_all2 (has_type env) vs ts"
proof -
  from assms obtain f where f: "has_type env (f x) x" if "x \<in> set ts" for x by metis
  have "list_all2 (has_type env) (map f ts) ts" using f by (simp add: list_all2_conv_all_nth)
  then show ?thesis by blast
qed

lemma inhabited_ctor:
  assumes "signature_of env t = Finite ctors" and "c \<in> set ctors" and "\<And>x. x \<in> set (sg_fields c) \<Longrightarrow> \<exists>v. has_type env v x"
  shows "\<exists>v. has_type env v t"
proof -
  from inhabited_fields [OF assms(3)] obtain vs where "list_all2 (has_type env) vs (sg_fields c)" by blast
  with assms(1,2) have "has_type env (VCon (sg_key c) vs) t" by auto
  then show ?thesis by blast
qed

lemma sample_inhabited: "inhabited sample_env"
proof -
  have "\<exists>v. has_type sample_env v t" for t
  proof (induction t rule: measure_induct_rule [of size])
    case (less t)
    obtain h args where p: "peel_ty t = (h, args)" by fastforce
    have sz: "size h \<le> size t" by (rule size_peel_ty [OF p])
    show ?case
    proof (cases "signature_of sample_env t")
      case Infinite
      then have "has_type sample_env (VOpaque 0) t" by simp
      then show ?thesis by blast
    next
      case (Finite ctors)
      have "\<exists>c \<in> set ctors. \<forall>x \<in> set (sg_fields c). size x < size t"
      proof (cases h)
        case (TTuple elems)
        then show ?thesis using Finite p order_less_le_trans [OF size_elem(1) [of _ elems] sz [unfolded TTuple]] by (auto simp: signature_of_def)
      next
        case (TRecord fs rt)
        then show ?thesis using Finite p order_less_le_trans [OF size_elem(2) [of _ fs rt] sz [unfolded TRecord]] by (auto simp: signature_of_def)
      next
        case (TCon k)
        then show ?thesis using Finite p by (cases k) (auto simp: signature_of_def)
      next
        case (TAdt adt)
        then show ?thesis using Finite p by (simp add: signature_of_def adt_signature_def sample_env_def TypeDecls_type_named_def)
      qed (use Finite p in \<open>auto simp: signature_of_def\<close>)
      then obtain c where c: "c \<in> set ctors" "\<forall>x \<in> set (sg_fields c). size x < size t" by blast
      show ?thesis by (rule inhabited_ctor [OF Finite c(1)]) (use less c(2) in blast)
    qed
  qed
  then show ?thesis by (simp add: inhabited_def)
qed


end
