(* ===== verification/Fai_Core.thy ===== *)
theory Fai_Core
  imports Fai_Types "HOL-Library.Word"
begin

text \<open>
  The Core intermediate representation of \<^verbatim>\<open>fai-core/src/ir.rs\<close>: primitives with their ownership table,
  literals, expressions, compiled functions and lowered definitions.

  The variants of the enum \<^verbatim>\<open>Prim\<close> are grouped by the kind of value they work on; a group and its
  variant stand for the variant. Local slots are natural numbers, unbounded where the code has 32
  bits. The data-shape table of a lowered definition is read by code generation only and is left out.
\<close>

section \<open>Identifiers\<close>

type_synonym local_id = nat
type_synonym fn_id = nat

record def_id =
  def_file :: nat
  def_name :: symbol

section \<open>Primitives\<close>

datatype int_prim = PIntAdd | PIntBox | PIntSub | PIntMul | PIntDiv | PIntRem | PIntAnd | PIntOr | PIntXor
    | PIntShl | PIntShr | PIntShrLogical | PIntComplement | PIntLt | PIntLe | PIntGt | PIntGe | PIntToString
    | PIntToFloat

datatype float_prim = PFloatAdd | PFloatSub | PFloatNeg | PFloatMul | PFloatDiv | PFloatLt | PFloatLe
    | PFloatGt | PFloatGe | PFloatToString | PFloatToInt | PSqrt | PFloatFromBits | PFloatToBits

datatype value_prim = PCompare | PHash | PEq | PNot | PRecordUpdate | PDataPeek | PListReversePrefix

datatype text_prim = PStrConcat | PCharToString | PCharToCode | PCharFromCode | PIsValidCharCode
    | PStringLength | PToUpper | PToLower | PTrim | PStringContains | PStringFind | PStringSplit
    | PStringJoin | PStringSubstring | PStringTake | PStringDrop

datatype array_prim = PArrayWithCapacity | PArrayRepeat | PArrayLength | PArrayGet | PArrayPeek | PArraySet
    | PArrayUnique | PArrayTake | PArrayPut | PArrayPush | PArrayPushReserved | PArraySplit | PArrayJoin

datatype bytes_prim = PBytesLength | PBytesGet | PBytesFind | PBytesFindUtf8 | PBytesConcat
    | PBytesConcatMany | PBytesSlice | PBytesFromList | PBytesToList | PBytesFromString | PBytesToString
    | PBytesIsUtf8 | PBytesSpan

datatype native_prim = PCryptoSha256 | PCryptoHmacSha256 | PCryptoPbkdf2Sha256 | PCryptoEqual
    | PCryptoScramPassword | PTextGraphemes | PTextWidth | PPathOperation | PPathComponents | PRegexCompile
    | PRegexFindText | PRegexFindBytes | PRegexTestText | PRegexTestBytes | PRegexNames | PRegexByteIndex
    | PRegexSlice | PRegexEscape | PCompressionCreate | PCompressionStep

datatype pairs_prim = PTextPairsFromList | PTextPairsFromRanges | PTextPairsToList | PTextPairsGet
    | PTextPairsGetAll | PTextPairsIsEmpty | PTextPairsRenderList | PTextPairsRenderRows

datatype prim =
    IntPrim int_prim
  | FloatPrim float_prim
  | ValuePrim value_prim
  | TextPrim text_prim
  | ArrayPrim array_prim
  | BytesPrim bytes_prim
  | NativePrim native_prim
  | PairsPrim pairs_prim

definition native_result_symbol :: "prim \<Rightarrow> bool \<Rightarrow> utext option" where
  "native_result_symbol op borrowed =
     (if op = NativePrim PRegexSlice
      then Some (if borrowed then str ''fai_regex_slice_parts_borrowed'' else str ''fai_regex_slice_parts'')
      else None)"

fun boxed_head :: "ty \<Rightarrow> bool" where
  "boxed_head (TAdt _) \<longleftrightarrow> True"
| "boxed_head (TInterface _) \<longleftrightarrow> True"
| "boxed_head (TCon c) \<longleftrightarrow> c \<in> {CList, CArray}"
| "boxed_head (TApp head _) \<longleftrightarrow> boxed_head head"
| "boxed_head _ \<longleftrightarrow> False"

definition is_boxed_rc :: "ty \<Rightarrow> bool" where
  "is_boxed_rc t \<longleftrightarrow>
     (case t of TRecord _ _ \<Rightarrow> True | TTuple _ \<Rightarrow> True | TCon c \<Rightarrow> c \<in> {CString, CBytes, CFloat} | _ \<Rightarrow> False) \<or>
     boxed_head t"

definition inspecting_prims :: "prim list" where
  "inspecting_prims =
     [ValuePrim PEq, ValuePrim PCompare, ValuePrim PHash, TextPrim PStringLength,
      TextPrim PStringContains, TextPrim PStringFind, TextPrim PToUpper, TextPrim PToLower,
      TextPrim PTrim, TextPrim PStringSplit, TextPrim PStringJoin, NativePrim PRegexSlice,
      PairsPrim PTextPairsGet, PairsPrim PTextPairsGetAll, PairsPrim PTextPairsIsEmpty,
      PairsPrim PTextPairsRenderList, PairsPrim PTextPairsRenderRows, BytesPrim PBytesLength,
      BytesPrim PBytesGet, BytesPrim PBytesFind, BytesPrim PBytesFindUtf8, BytesPrim PBytesSpan,
      BytesPrim PBytesIsUtf8, ArrayPrim PArrayLength, ArrayPrim PArrayGet, ArrayPrim PArrayPeek,
      ArrayPrim PArrayTake, ArrayPrim PArraySplit, ArrayPrim PArrayJoin]"

definition borrows_operand :: "prim \<Rightarrow> ty \<Rightarrow> bool" where
  "borrows_operand op t \<longleftrightarrow>
     op = ValuePrim PDataPeek \<or>
     op \<in> set inspecting_prims \<and>
     (is_boxed_rc t \<or>
      op \<in> {ValuePrim PEq, ValuePrim PCompare, ValuePrim PHash} \<and> (case t of TVar _ \<Rightarrow> True | _ \<Rightarrow> False))"

definition borrows_argument :: "prim \<Rightarrow> nat \<Rightarrow> ty \<Rightarrow> bool" where
  "borrows_argument op index first_operand_ty \<longleftrightarrow>
     borrows_operand op first_operand_ty \<and>
     (if op \<in> {BytesPrim PBytesGet, NativePrim PRegexSlice} then index = 0
      else if op \<in> {BytesPrim PBytesFind, BytesPrim PBytesFindUtf8} then index < 2
      else if op = BytesPrim PBytesSpan then index = 0 \<or> index = 3
      else if op = PairsPrim PTextPairsRenderRows then index < 4 \<or> index = 6
      else True)"

definition borrowed_runtime_symbol :: "prim \<Rightarrow> utext option" where
  "borrowed_runtime_symbol = map_of
     [(ValuePrim PEq, str ''fai_equal_borrowed''),
      (ValuePrim PCompare, str ''fai_compare_borrowed''),
      (ValuePrim PHash, str ''fai_hash_borrowed''),
      (TextPrim PStringLength, str ''fai_string_length_borrowed''),
      (TextPrim PStringContains, str ''fai_string_contains_borrowed''),
      (TextPrim PStringFind, str ''fai_string_find_borrowed''),
      (TextPrim PToUpper, str ''fai_to_upper_borrowed''),
      (TextPrim PToLower, str ''fai_to_lower_borrowed''),
      (TextPrim PTrim, str ''fai_trim_borrowed''),
      (TextPrim PStringSplit, str ''fai_string_split_borrowed''),
      (BytesPrim PBytesLength, str ''fai_bytes_length_borrowed''),
      (BytesPrim PBytesGet, str ''fai_bytes_get_borrowed''),
      (BytesPrim PBytesFind, str ''fai_bytes_find_borrowed''),
      (BytesPrim PBytesFindUtf8, str ''fai_bytes_find_utf8_borrowed''),
      (BytesPrim PBytesSpan, str ''fai_bytes_span_borrowed''),
      (BytesPrim PBytesIsUtf8, str ''fai_bytes_is_utf8_borrowed''),
      (ArrayPrim PArrayLength, str ''fai_array_length_borrowed''),
      (ArrayPrim PArrayGet, str ''fai_array_get_borrowed''),
      (ArrayPrim PArrayPeek, str ''fai_array_peek''),
      (ValuePrim PDataPeek, str ''fai_data_peek''),
      (ArrayPrim PArrayTake, str ''fai_array_take''),
      (TextPrim PStringJoin, str ''fai_string_join_borrowed''),
      (NativePrim PRegexSlice, str ''fai_regex_slice_borrowed''),
      (PairsPrim PTextPairsGet, str ''fai_text_pairs_get_borrowed''),
      (PairsPrim PTextPairsGetAll, str ''fai_text_pairs_get_all_borrowed''),
      (PairsPrim PTextPairsIsEmpty, str ''fai_text_pairs_is_empty_borrowed''),
      (PairsPrim PTextPairsRenderList, str ''fai_text_pairs_render_list_borrowed''),
      (PairsPrim PTextPairsRenderRows, str ''fai_text_pairs_render_rows_borrowed''),
      (ArrayPrim PArraySplit, str ''fai_array_split_borrowed''),
      (ArrayPrim PArrayJoin, str ''fai_array_join_borrowed'')]"

section \<open>Expressions\<close>

datatype lit =
    LInt "64 word"
  | LFloat "64 word"
  | LChar scalar
  | LBool bool
  | LStr "nat list"
  | LUnit

datatype niche_kind = NicheA | NicheB

datatype field_index = FConst nat | FDyn nat local_id

datatype closure_alloc = AllocStatic | AllocStack | AllocHeap

datatype expr_kind =
    KLit lit
  | KLocal local_id
  | KGlobal def_id
  | KPrim prim "cexpr list"
  | KForeign symbol "cexpr list" bool
  | KApp cexpr "cexpr list" "local_id option list" closure_alloc
  | KIf cexpr cexpr cexpr
  | KLet local_id cexpr cexpr
  | KSpread "cexpr list"
  | KLetMany "local_id list" cexpr cexpr
  | KMakeClosure fn_id "local_id list" closure_alloc
  | KMakeData nat "cexpr list" "local_id option" "64 word" "niche_kind option"
  | KDataTag cexpr "niche_kind option"
  | KDataField cexpr field_index bool "niche_kind option"
  | KReset cexpr local_id cexpr
  | KFreeReuse local_id cexpr
  | KDup local_id cexpr
  | KDrop local_id cexpr
  | KJoin "local_id list" cexpr
  | KRecur "cexpr list"
  | KHoleStart local_id cexpr
  | KHoleFill local_id cexpr nat
  | KHoleClose local_id cexpr
  | KError
  and cexpr = CExpr (ce_kind: expr_kind) (ce_ty: ty)

section \<open>Functions and definitions\<close>

record core_fn =
  cf_params :: "local_id list"
  cf_captures :: "local_id list"
  cf_body :: cexpr

record lowered_def =
  ld_def :: def_id
  ld_fns :: "core_fn list"
  ld_entry_borrowed :: "bool list"
  ld_reuse_entry :: "core_fn option"
  ld_entry_spread_params :: "local_id list option list"

text \<open>\<^verbatim>\<open>flags.get(i).copied().unwrap_or(false)\<close>.\<close>

definition flag_at :: "bool list \<Rightarrow> nat \<Rightarrow> bool" where
  "flag_at flags i \<longleftrightarrow> i < length flags \<and> flags ! i"

definition entry_param_borrowed :: "lowered_def \<Rightarrow> nat \<Rightarrow> bool" where
  "entry_param_borrowed d i \<longleftrightarrow> flag_at (ld_entry_borrowed d) i"

definition borrows_any :: "lowered_def \<Rightarrow> bool" where
  "borrows_any d \<longleftrightarrow> list_ex (\<lambda>b. b) (ld_entry_borrowed d)"

fun collect_globals :: "cexpr \<Rightarrow> def_id list" where
  "collect_globals (CExpr (KGlobal d) _) = [d]"
| "collect_globals (CExpr (KLit _) _) = []"
| "collect_globals (CExpr (KLocal _) _) = []"
| "collect_globals (CExpr (KMakeClosure _ _ _) _) = []"
| "collect_globals (CExpr KError _) = []"
| "collect_globals (CExpr (KPrim _ args) _) = concat (map collect_globals args)"
| "collect_globals (CExpr (KForeign _ args _) _) = concat (map collect_globals args)"
| "collect_globals (CExpr (KMakeData _ args _ _ _) _) = concat (map collect_globals args)"
| "collect_globals (CExpr (KDataTag base _) _) = collect_globals base"
| "collect_globals (CExpr (KDataField base _ _ _) _) = collect_globals base"
| "collect_globals (CExpr (KApp func args _ _) _) = collect_globals func @ concat (map collect_globals args)"
| "collect_globals (CExpr (KIf c a b) _) = collect_globals c @ collect_globals a @ collect_globals b"
| "collect_globals (CExpr (KLet _ value body) _) = collect_globals value @ collect_globals body"
| "collect_globals (CExpr (KSpread args) _) = concat (map collect_globals args)"
| "collect_globals (CExpr (KLetMany _ value body) _) = collect_globals value @ collect_globals body"
| "collect_globals (CExpr (KReset value _ body) _) = collect_globals value @ collect_globals body"
| "collect_globals (CExpr (KFreeReuse _ body) _) = collect_globals body"
| "collect_globals (CExpr (KDup _ body) _) = collect_globals body"
| "collect_globals (CExpr (KDrop _ body) _) = collect_globals body"
| "collect_globals (CExpr (KJoin _ body) _) = collect_globals body"
| "collect_globals (CExpr (KRecur args) _) = concat (map collect_globals args)"
| "collect_globals (CExpr (KHoleStart _ body) _) = collect_globals body"
| "collect_globals (CExpr (KHoleFill _ cell _) _) = collect_globals cell"
| "collect_globals (CExpr (KHoleClose _ base) _) = collect_globals base"

definition referenced_globals :: "lowered_def \<Rightarrow> def_id list" where
  "referenced_globals d = concat (map (\<lambda>f. collect_globals (cf_body f)) (ld_fns d))"

section \<open>The ownership table\<close>

text \<open>
  C28: the primitives whose operands may be lent are exactly those with a runtime entry that does
  not consume its operands: code generation finds an entry whenever reference counting lends.
\<close>

theorem lent_operands_have_entry:
  "(\<exists>t. borrows_operand op t) \<longleftrightarrow> borrowed_runtime_symbol op \<noteq> None"
proof -
  have "(\<exists>t. borrows_operand op t) \<longleftrightarrow> op = ValuePrim PDataPeek \<or> op \<in> set inspecting_prims"
  proof
    assume "op = ValuePrim PDataPeek \<or> op \<in> set inspecting_prims"
    then have "borrows_operand op (TCon CString)" by (auto simp: borrows_operand_def is_boxed_rc_def)
    then show "\<exists>t. borrows_operand op t" by blast
  qed (auto simp: borrows_operand_def)
  also have "\<dots> \<longleftrightarrow> borrowed_runtime_symbol op \<noteq> None"
    unfolding borrowed_runtime_symbol_def map_of_eq_None_iff inspecting_prims_def by (simp; blast)
  finally show ?thesis .
qed

end
