(* ===== verification/Fai_Ownership.thy ===== *)
theory Fai_Ownership
  imports Fai_Core "HOL-Library.Finite_Map"
begin

text \<open>
  The ownership checker of \<^verbatim>\<open>fai-rc/src/verify.rs\<close>.

  The checker's mutable maps are finite maps that are passed along; the fields it restores before it
  returns (\<^verbatim>\<open>projections\<close>, \<^verbatim>\<open>loop_borrowed\<close>) are part of the environment. An error message is a
  constructor that carries what the message prints. Two outcomes of the code are no messages: a
  failed \<^verbatim>\<open>expect\<close> and the unbounded recursion of \<^verbatim>\<open>borrow\<close> over a cyclic chain of slots; both are
  constructors here, and neither happens when no slot is a capture. Counts are
  unbounded integers where the code has 64 bits. Leftover counts are reported for the smallest local,
  where the code takes the iteration order of a hash map.
\<close>

section \<open>The checker\<close>

type_synonym refs = "(local_id, int) fmap"
type_synonym arg_borrows = "def_id \<Rightarrow> nat \<Rightarrow> bool list"

datatype rc_error =
    ConsumptionOfBorrowedSlot nat local_id
  | ConsumeOfUnbound nat local_id
  | UseOfReleased nat local_id
  | BorrowOfReleased nat local_id
  | InconsistentBranches nat
  | ReboundSlot nat local_id
  | SlotLeft nat local_id int
  | Rebound nat local_id
  | LetLeft nat local_id int
  | DupOfUnbound nat local_id
  | DupOfReleased nat local_id
  | DropOfCaptured nat local_id
  | ReboundToken nat local_id
  | TokenLeft nat local_id int
  | LetManyLeft nat local_id int
  | ReboundHole nat local_id
  | HoleLeft nat local_id int
  | BaseNotAtom nat
  | LeftAtExit nat local_id int
  | ReuseEntryLeft local_id int
  | ExpectFailed
  | BorrowDiverges

record checker =
  ck_captures :: "local_id set"
  ck_fn_index :: nat
  ck_arg_borrows :: arg_borrows
  ck_projections :: "(local_id, local_id) fmap"
  ck_loop_borrowed :: "bool list option"

definition owned_by :: "checker \<Rightarrow> local_id \<Rightarrow> bool" where
  "owned_by ck x \<longleftrightarrow> x \<notin> ck_captures ck"

definition consume :: "checker \<Rightarrow> local_id \<Rightarrow> refs \<Rightarrow> rc_error + refs" where
  "consume ck x refs =
     (if fmlookup (ck_projections ck) x \<noteq> None then
        (case fmlookup refs x of
           None \<Rightarrow> Inl ExpectFailed
         | Some count \<Rightarrow>
             if count = 0 then Inl (ConsumptionOfBorrowedSlot (ck_fn_index ck) x)
             else Inr (fmupd x (count - 1) refs))
      else if \<not> owned_by ck x then Inr refs
      else
        (case fmlookup refs x of
           None \<Rightarrow> Inl (ConsumeOfUnbound (ck_fn_index ck) x)
         | Some n \<Rightarrow>
             if n < 1 then Inl (UseOfReleased (ck_fn_index ck) x) else Inr (fmupd x (n - 1) refs)))"

text \<open>
  The chain of lenders from a slot is followed at most once per slot: a longer chain is cyclic, and
  the code's recursion does not end on it.
\<close>

fun borrow_chain :: "nat \<Rightarrow> checker \<Rightarrow> local_id \<Rightarrow> refs \<Rightarrow> rc_error + refs" where
  "borrow_chain fuel ck x refs =
     (case fmlookup (ck_projections ck) x of
        Some parent \<Rightarrow>
          (if (case fmlookup refs x of Some count \<Rightarrow> count > 0 | None \<Rightarrow> False) then Inr refs
           else (case fuel of 0 \<Rightarrow> Inl BorrowDiverges | Suc fuel' \<Rightarrow> borrow_chain fuel' ck parent refs))
      | None \<Rightarrow>
          (if \<not> owned_by ck x then Inr refs
           else if (case fmlookup refs x of Some n \<Rightarrow> n | None \<Rightarrow> 0) < 1
           then Inl (BorrowOfReleased (ck_fn_index ck) x)
           else Inr refs))"

declare borrow_chain.simps [simp del]

definition borrow :: "checker \<Rightarrow> local_id \<Rightarrow> refs \<Rightarrow> rc_error + refs" where
  "borrow ck x refs = borrow_chain (fcard (fmdom (ck_projections ck))) ck x refs"

definition borrow_atom :: "checker \<Rightarrow> cexpr \<Rightarrow> refs \<Rightarrow> rc_error + refs" where
  "borrow_atom ck base refs =
     (case ce_kind base of KLocal x \<Rightarrow> borrow ck x refs | _ \<Rightarrow> Inl (BaseNotAtom (ck_fn_index ck)))"

definition insert_new :: "rc_error \<Rightarrow> local_id \<Rightarrow> int \<Rightarrow> refs \<Rightarrow> rc_error + refs" where
  "insert_new err x n refs = (if fmlookup refs x = None then Inr (fmupd x n refs) else Inl err)"

definition remove_spent :: "(int \<Rightarrow> rc_error) \<Rightarrow> local_id \<Rightarrow> refs \<Rightarrow> rc_error + refs" where
  "remove_spent err x refs =
     (let n = (case fmlookup refs x of Some n \<Rightarrow> n | None \<Rightarrow> 0)
      in if n \<noteq> 0 then Inl (err n) else Inr (fmdrop x refs))"

definition acquire :: "checker \<Rightarrow> local_id \<Rightarrow> refs \<Rightarrow> rc_error + refs" where
  "acquire ck x refs =
     (if fmlookup (ck_projections ck) x \<noteq> None then
        and_then (borrow ck x refs) (\<lambda>refs.
          case fmlookup refs x of None \<Rightarrow> Inl ExpectFailed | Some count \<Rightarrow> Inr (fmupd x (count + 1) refs))
      else if owned_by ck x then
        (case fmlookup refs x of
           None \<Rightarrow> Inl (DupOfUnbound (ck_fn_index ck) x)
         | Some n \<Rightarrow>
             if n < 1 then Inl (DupOfReleased (ck_fn_index ck) x) else Inr (fmupd x (n + 1) refs))
      else Inr refs)"

definition prim_borrows :: "prim \<Rightarrow> cexpr list \<Rightarrow> bool list" where
  "prim_borrows op args = map (\<lambda>index. borrows_argument op index (ce_ty (hd args))) [0..<length args]"

text \<open>The arguments with their borrow flags, \<open>False\<close> where the list of flags is too short.\<close>

definition with_flags :: "bool list \<Rightarrow> cexpr list \<Rightarrow> (bool \<times> cexpr) list" where
  "with_flags flags args = zip (map (flag_at flags) [0..<length args]) args"

definition call_flags :: "arg_borrows \<Rightarrow> cexpr \<Rightarrow> nat \<Rightarrow> bool list" where
  "call_flags ab func n = (case ce_kind func of KGlobal d \<Rightarrow> ab d n | _ \<Rightarrow> [])"

text \<open>The lender of a slot that a \<open>let\<close> binds to a peek into a local.\<close>

definition peek_parent :: "cexpr \<Rightarrow> local_id option" where
  "peek_parent value =
     (case ce_kind value of
        KPrim op (a # _) \<Rightarrow>
          (if op \<in> {ArrayPrim PArrayPeek, ValuePrim PDataPeek}
           then (case ce_kind a of KLocal parent \<Rightarrow> Some parent | _ \<Rightarrow> None) else None)
      | _ \<Rightarrow> None)"

definition local_of :: "cexpr \<Rightarrow> local_id option" where
  "local_of e = (case ce_kind e of KLocal x \<Rightarrow> Some x | _ \<Rightarrow> None)"

definition evidence_of :: "field_index \<Rightarrow> local_id option" where
  "evidence_of index = (case index of FConst _ \<Rightarrow> None | FDyn _ evidence \<Rightarrow> Some evidence)"

lemma with_flags_size: "(flag, a) \<in> set (with_flags flags args) \<Longrightarrow> size a \<le> size_list size args"
  unfolding with_flags_def by (rule size_list_estimation' [of a args]) (auto dest: set_zip_rightD)

lemma member_size: "(a :: cexpr) \<in> set args \<Longrightarrow> size a \<le> size_list size args"
  by (rule size_list_estimation' [of a args]) auto

function eval :: "checker \<Rightarrow> cexpr \<Rightarrow> refs \<Rightarrow> rc_error + refs" where
  "eval ck (CExpr (KLit _) _) refs = Inr refs"
| "eval ck (CExpr (KGlobal _) _) refs = Inr refs"
| "eval ck (CExpr KError _) refs = Inr refs"
| "eval ck (CExpr (KLocal x) _) refs = consume ck x refs"
| "eval ck (CExpr (KPrim op args) _) refs =
     try_fold (\<lambda>(flag, a) refs. case (if flag then local_of a else None) of
         Some x \<Rightarrow> borrow ck x refs | None \<Rightarrow> eval ck a refs)
       (with_flags (prim_borrows op args) args) refs"
| "eval ck (CExpr (KForeign _ args _) _) refs = try_fold (eval ck) args refs"
| "eval ck (CExpr (KMakeData _ args reuse _ _) _) refs =
     and_then (try_fold (eval ck) args refs) (\<lambda>refs.
       case reuse of None \<Rightarrow> Inr refs | Some t \<Rightarrow> consume ck t refs)"
| "eval ck (CExpr (KApp func args reuse _) _) refs =
     and_then (eval ck func refs) (\<lambda>refs.
     and_then (try_fold (\<lambda>(flag, a) refs. case (if flag then local_of a else None) of
         Some x \<Rightarrow> borrow ck x refs | None \<Rightarrow> eval ck a refs)
       (with_flags (call_flags (ck_arg_borrows ck) func (length args)) args) refs)
       (try_fold (consume ck) (List.map_filter (\<lambda>t. t) reuse)))"
| "eval ck (CExpr (KMakeClosure _ captures _) _) refs = try_fold (consume ck) captures refs"
| "eval ck (CExpr (KDataTag base _) _) refs = borrow_atom ck base refs"
| "eval ck (CExpr (KDataField base index _ _) _) refs =
     and_then (borrow_atom ck base refs) (\<lambda>refs.
       case evidence_of index of None \<Rightarrow> Inr refs | Some evidence \<Rightarrow> borrow ck evidence refs)"
| "eval ck (CExpr (KIf cond a b) _) refs =
     and_then (eval ck cond refs) (\<lambda>refs.
     and_then (eval ck a refs) (\<lambda>t.
     and_then (eval ck b refs) (\<lambda>e2.
       if t \<noteq> e2 then Inl (InconsistentBranches (ck_fn_index ck)) else Inr t)))"
| "eval ck (CExpr (KLet x value body) _) refs =
     and_then (eval ck value refs) (\<lambda>refs.
       case peek_parent value of
         Some parent \<Rightarrow>
           if fmlookup (ck_projections ck) x \<noteq> None \<or> fmlookup refs x \<noteq> None
           then Inl (ReboundSlot (ck_fn_index ck) x)
           else and_then
             (eval (ck\<lparr>ck_projections := fmupd x parent (ck_projections ck)\<rparr>) body (fmupd x 0 refs))
             (remove_spent (SlotLeft (ck_fn_index ck) x) x)
       | None \<Rightarrow>
           and_then (insert_new (Rebound (ck_fn_index ck) x) x 1 refs) (\<lambda>refs.
           and_then (eval ck body refs) (remove_spent (LetLeft (ck_fn_index ck) x) x)))"
| "eval ck (CExpr (KDup x body) _) refs = and_then (acquire ck x refs) (eval ck body)"
| "eval ck (CExpr (KDrop x body) _) refs =
     (if \<not> owned_by ck x then Inl (DropOfCaptured (ck_fn_index ck) x)
      else and_then (consume ck x refs) (eval ck body))"
| "eval ck (CExpr (KReset value token body) _) refs =
     and_then (eval ck value refs) (\<lambda>refs.
     and_then (insert_new (ReboundToken (ck_fn_index ck) token) token 1 refs) (\<lambda>refs.
     and_then (eval ck body refs) (remove_spent (TokenLeft (ck_fn_index ck) token) token)))"
| "eval ck (CExpr (KSpread args) _) refs = try_fold (eval ck) args refs"
| "eval ck (CExpr (KLetMany locals value body) _) refs =
     and_then (eval ck value refs) (\<lambda>refs.
     and_then (try_fold (\<lambda>x. insert_new (Rebound (ck_fn_index ck) x) x 1) locals refs) (\<lambda>refs.
     and_then (eval ck body refs)
       (try_fold (\<lambda>x. remove_spent (LetManyLeft (ck_fn_index ck) x) x) locals)))"
| "eval ck (CExpr (KFreeReuse token body) _) refs = and_then (consume ck token refs) (eval ck body)"
| "eval ck (CExpr (KJoin params body) _) refs =
     eval (ck\<lparr>ck_loop_borrowed := Some (map (\<lambda>p. p \<in> ck_captures ck) params)\<rparr>) body refs"
| "eval ck (CExpr (KRecur args) _) refs =
     try_fold (\<lambda>(flag, a) refs. if flag then borrow_atom ck a refs else eval ck a refs)
       (with_flags (case ck_loop_borrowed ck of None \<Rightarrow> [] | Some borrowed \<Rightarrow> borrowed) args) refs"
| "eval ck (CExpr (KHoleStart hole body) _) refs =
     and_then (insert_new (ReboundHole (ck_fn_index ck) hole) hole 1 refs) (\<lambda>refs.
     and_then (eval ck body refs) (remove_spent (HoleLeft (ck_fn_index ck) hole) hole))"
| "eval ck (CExpr (KHoleFill hole cell _) _) refs = and_then (eval ck cell refs) (consume ck hole)"
| "eval ck (CExpr (KHoleClose hole base) _) refs = and_then (eval ck base refs) (consume ck hole)"
  by pat_completeness auto
termination
  by (relation "measure (\<lambda>(ck, e, refs). size e)") (auto dest!: with_flags_size member_size)

definition usize_max :: nat where
  "usize_max = 2 ^ 64 - 1"

definition check_body ::
  "arg_borrows \<Rightarrow> nat \<Rightarrow> (local_id \<Rightarrow> int \<Rightarrow> rc_error) \<Rightarrow> local_id set \<Rightarrow> refs \<Rightarrow> cexpr \<Rightarrow> rc_error + unit" where
  "check_body ab i err captures refs body =
     and_then (eval \<lparr>ck_captures = captures, ck_fn_index = i, ck_arg_borrows = ab,
                     ck_projections = fmempty, ck_loop_borrowed = None\<rparr> body refs) (\<lambda>refs.
       case filter (\<lambda>l. fmlookup refs l \<noteq> Some 0) (sorted_list_of_fset (fmdom refs)) of
         [] \<Rightarrow> Inr ()
       | l # _ \<Rightarrow> Inl (err l (the (fmlookup refs l))))"

text \<open>The parameters a function owns: \<open>lent pos\<close> says the one at a position is lent by the caller.\<close>

definition owned_params :: "(nat \<Rightarrow> bool) \<Rightarrow> core_fn \<Rightarrow> local_id list" where
  "owned_params lent f = map snd (filter (\<lambda>(pos, p). \<not> lent pos) (enumerate 0 (cf_params f)))"

definition lent_locals :: "(nat \<Rightarrow> bool) \<Rightarrow> core_fn \<Rightarrow> local_id set" where
  "lent_locals lent f =
     set (cf_captures f) \<union> set (map snd (filter (\<lambda>(pos, p). lent pos) (enumerate 0 (cf_params f))))"

definition initial_refs :: "(nat \<Rightarrow> bool) \<Rightarrow> core_fn \<Rightarrow> refs" where
  "initial_refs lent f = fold (\<lambda>p. fmupd p 1) (owned_params lent f) fmempty"

definition fn_lends :: "lowered_def \<Rightarrow> nat \<Rightarrow> nat \<Rightarrow> bool" where
  "fn_lends d i pos \<longleftrightarrow> i = 0 \<and> entry_param_borrowed d pos"

definition reuse_lends :: "lowered_def \<Rightarrow> core_fn \<Rightarrow> nat \<Rightarrow> bool" where
  "reuse_lends d re pos \<longleftrightarrow>
     (let tokens = length (cf_params re) - length (cf_params (hd (ld_fns d)))
      in tokens \<le> pos \<and> entry_param_borrowed d (pos - tokens))"

definition check_fn :: "arg_borrows \<Rightarrow> lowered_def \<Rightarrow> nat \<Rightarrow> core_fn \<Rightarrow> rc_error + unit" where
  "check_fn ab d i f =
     check_body ab i (LeftAtExit i) (lent_locals (fn_lends d i) f) (initial_refs (fn_lends d i) f) (cf_body f)"

definition check_reuse_entry :: "arg_borrows \<Rightarrow> lowered_def \<Rightarrow> core_fn \<Rightarrow> rc_error + unit" where
  "check_reuse_entry ab d re =
     check_body ab usize_max ReuseEntryLeft
       (lent_locals (reuse_lends d re) re) (initial_refs (reuse_lends d re) re) (cf_body re)"

definition check_rc :: "arg_borrows \<Rightarrow> lowered_def \<Rightarrow> rc_error + unit" where
  "check_rc ab d =
     and_then (try_fold (\<lambda>(i, f) _. check_fn ab d i f) (enumerate 0 (ld_fns d)) ()) (\<lambda>_.
       case ld_reuse_entry d of None \<Rightarrow> Inr () | Some re \<Rightarrow> check_reuse_entry ab d re)"

end
