(* ===== verification/Fai_Paths.thy ===== *)
theory Fai_Paths
  imports Fai_Ownership
begin

text \<open>
  What the ownership checker promises: the execution paths of Core expressions as traces of what
  happens to references, when a trace uses references soundly, and that every run of a function the
  checker accepts does.
\<close>

section \<open>Execution paths\<close>

text \<open>
  What the execution of an expression does with references, in order: \<open>Own x\<close> binds \<open>x\<close> to a value it
  owns, \<open>Lend x p\<close> binds \<open>x\<close> to a value read out of \<open>p\<close>, \<open>Acquire x\<close> duplicates a reference, \<open>Move x\<close>
  hands one on (to a result, a cell, a closure, a callee), \<open>Free x\<close> drops one, \<open>Read x\<close> looks at the
  value and \<open>End x\<close> ends the scope of \<open>x\<close>.
\<close>

datatype event =
    Own local_id
  | Lend local_id local_id
  | Acquire local_id
  | Move local_id
  | Free local_id
  | Read local_id
  | End local_id

text \<open>
  The paths of an expression, one trace each, with a flag that tells the paths that end in a jump
  back to the loop header. A loop is unrolled \<open>n\<close> times: the paths of every \<open>n\<close> together are all
  finite runs of the loop, the ones cut off at a back edge included.
\<close>

type_synonym paths = "(event list \<times> bool) list"

definition then_do :: "paths \<Rightarrow> paths \<Rightarrow> paths" where
  "then_do ps qs = concat (map (\<lambda>(t, jump). if jump then [(t, True)] else map (\<lambda>(u, j). (t @ u, j)) qs) ps)"

definition emit :: "event list \<Rightarrow> paths" where
  "emit es = [(es, False)]"

fun in_order :: "paths list \<Rightarrow> paths" where
  "in_order [] = emit []"
| "in_order (p # ps) = then_do p (in_order ps)"

definition leave :: "local_id list \<Rightarrow> paths \<Rightarrow> paths" where
  "leave xs ps = map (\<lambda>(t, jump). (t @ map End xs, jump)) ps"

fun unroll :: "nat \<Rightarrow> event list \<Rightarrow> paths \<Rightarrow> paths" where
  "unroll 0 rebind ps = ps"
| "unroll (Suc n) rebind ps =
     concat (map (\<lambda>(t, jump). if jump then map (\<lambda>(u, j). (t @ rebind @ u, j)) (unroll n rebind ps)
                              else [(t, False)]) ps)"

definition read_atom :: "cexpr \<Rightarrow> paths \<Rightarrow> paths" where
  "read_atom e otherwise = (case local_of e of Some x \<Rightarrow> emit [Read x] | None \<Rightarrow> otherwise)"

function paths :: "arg_borrows \<Rightarrow> local_id set \<Rightarrow> nat \<Rightarrow> bool list \<Rightarrow> cexpr \<Rightarrow> paths" where
  "paths ab lent n lb (CExpr (KLit _) _) = emit []"
| "paths ab lent n lb (CExpr (KGlobal _) _) = emit []"
| "paths ab lent n lb (CExpr KError _) = emit []"
| "paths ab lent n lb (CExpr (KLocal x) _) = emit [Move x]"
| "paths ab lent n lb (CExpr (KPrim op args) _) =
     in_order (map (\<lambda>(flag, a). if flag then read_atom a (paths ab lent n lb a) else paths ab lent n lb a)
       (with_flags (prim_borrows op args) args))"
| "paths ab lent n lb (CExpr (KForeign _ args _) _) = in_order (map (paths ab lent n lb) args)"
| "paths ab lent n lb (CExpr (KMakeData _ args reuse _ _) _) =
     then_do (in_order (map (paths ab lent n lb) args)) (emit (case reuse of None \<Rightarrow> [] | Some t \<Rightarrow> [Move t]))"
| "paths ab lent n lb (CExpr (KApp func args reuse _) _) =
     then_do (paths ab lent n lb func) (then_do
       (in_order (map (\<lambda>(flag, a). if flag then read_atom a (paths ab lent n lb a) else paths ab lent n lb a)
         (with_flags (call_flags ab func (length args)) args)))
       (emit (map Move (List.map_filter (\<lambda>t. t) reuse))))"
| "paths ab lent n lb (CExpr (KMakeClosure _ captures _) _) = emit (map Move captures)"
| "paths ab lent n lb (CExpr (KDataTag base _) _) = read_atom base (paths ab lent n lb base)"
| "paths ab lent n lb (CExpr (KDataField base index _ _) _) =
     then_do (read_atom base (paths ab lent n lb base))
       (emit (case evidence_of index of None \<Rightarrow> [] | Some evidence \<Rightarrow> [Read evidence]))"
| "paths ab lent n lb (CExpr (KIf cond a b) _) =
     then_do (paths ab lent n lb cond) (paths ab lent n lb a @ paths ab lent n lb b)"
| "paths ab lent n lb (CExpr (KLet x value body) _) =
     then_do (paths ab lent n lb value) (then_do
       (emit [case peek_parent value of Some parent \<Rightarrow> Lend x parent | None \<Rightarrow> Own x])
       (leave [x] (paths ab lent n lb body)))"
| "paths ab lent n lb (CExpr (KDup x body) _) = then_do (emit [Acquire x]) (paths ab lent n lb body)"
| "paths ab lent n lb (CExpr (KDrop x body) _) = then_do (emit [Free x]) (paths ab lent n lb body)"
| "paths ab lent n lb (CExpr (KReset value token body) _) =
     then_do (paths ab lent n lb value) (then_do (emit [Own token]) (leave [token] (paths ab lent n lb body)))"
| "paths ab lent n lb (CExpr (KSpread args) _) = in_order (map (paths ab lent n lb) args)"
| "paths ab lent n lb (CExpr (KLetMany locals value body) _) =
     then_do (paths ab lent n lb value) (then_do (emit (map Own locals)) (leave locals (paths ab lent n lb body)))"
| "paths ab lent n lb (CExpr (KFreeReuse token body) _) = then_do (emit [Move token]) (paths ab lent n lb body)"
| "paths ab lent n lb (CExpr (KJoin params body) _) =
     unroll n (map Own (filter (\<lambda>p. p \<notin> lent) params))
       (paths ab lent n (map (\<lambda>p. p \<in> lent) params) body)"
| "paths ab lent n lb (CExpr (KRecur args) _) =
     then_do (in_order (map (\<lambda>(flag, a). if flag then read_atom a (paths ab lent n lb a) else paths ab lent n lb a)
       (with_flags lb args))) [([], True)]"
| "paths ab lent n lb (CExpr (KHoleStart hole body) _) =
     then_do (emit [Own hole]) (leave [hole] (paths ab lent n lb body))"
| "paths ab lent n lb (CExpr (KHoleFill hole cell _) _) = then_do (paths ab lent n lb cell) (emit [Move hole])"
| "paths ab lent n lb (CExpr (KHoleClose hole base) _) = then_do (paths ab lent n lb base) (emit [Move hole])"
  by pat_completeness auto
termination
  by (relation "measure (\<lambda>(ab, lent, n, lb, e). size e)") (auto dest!: with_flags_size member_size)

text \<open>The runs of a function: it starts with the parameters it owns.\<close>

definition fn_runs :: "arg_borrows \<Rightarrow> (nat \<Rightarrow> bool) \<Rightarrow> nat \<Rightarrow> core_fn \<Rightarrow> event list list" where
  "fn_runs ab lent n f =
     map (\<lambda>(t, jump). map Own (owned_params lent f) @ t) (paths ab (lent_locals lent f) n [] (cf_body f))"

section \<open>Sound use of references\<close>

text \<open>The references a local holds after a trace, and who lent it its value.\<close>

definition held :: "event list \<Rightarrow> local_id \<Rightarrow> int" where
  "held t x = int (count_list t (Own x)) + int (count_list t (Acquire x))
                - int (count_list t (Move x)) - int (count_list t (Free x))"

fun lender_step :: "event \<Rightarrow> (local_id \<rightharpoonup> local_id) \<Rightarrow> (local_id \<rightharpoonup> local_id)" where
  "lender_step (Lend x p) m = m(x \<mapsto> p)"
| "lender_step (End x) m = m(x := None)"
| "lender_step _ m = m"

definition lender :: "event list \<Rightarrow> local_id \<rightharpoonup> local_id" where
  "lender t = fold lender_step t Map.empty"

text \<open>
  A local is alive when it holds a reference, when its caller lent it, or when the local it was read
  out of is alive.
\<close>

inductive alive :: "local_id set \<Rightarrow> event list \<Rightarrow> local_id \<Rightarrow> bool" for lent t where
  holds: "1 \<le> held t x \<Longrightarrow> alive lent t x"
| lent: "x \<in> lent \<Longrightarrow> lender t x = None \<Longrightarrow> alive lent t x"
| slot: "lender t x = Some p \<Longrightarrow> alive lent t p \<Longrightarrow> alive lent t x"

text \<open>
  An event is safe after a trace when it binds no live name, reads only live values, hands on or
  drops only references that are held, drops nothing that is lent, and ends a scope with no
  reference left.
\<close>

fun event_safe :: "local_id set \<Rightarrow> event list \<Rightarrow> event \<Rightarrow> bool" where
  "event_safe lent t (Own x) \<longleftrightarrow> held t x = 0 \<and> lender t x = None"
| "event_safe lent t (Lend x p) \<longleftrightarrow> held t x = 0 \<and> lender t x = None"
| "event_safe lent t (Acquire x) \<longleftrightarrow> alive lent t x"
| "event_safe lent t (Read x) \<longleftrightarrow> alive lent t x"
| "event_safe lent t (Move x) \<longleftrightarrow> x \<in> lent \<or> 1 \<le> held t x"
| "event_safe lent t (Free x) \<longleftrightarrow> x \<notin> lent \<and> 1 \<le> held t x"
| "event_safe lent t (End x) \<longleftrightarrow> held t x = 0"

fun safe_after :: "local_id set \<Rightarrow> event list \<Rightarrow> event list \<Rightarrow> bool" where
  "safe_after lent pre [] \<longleftrightarrow> True"
| "safe_after lent pre (e # t) \<longleftrightarrow> event_safe lent pre e \<and> safe_after lent (pre @ [e]) t"

definition sound_run :: "local_id set \<Rightarrow> event list \<Rightarrow> bool" where
  "sound_run lent t \<longleftrightarrow> safe_after lent [] t \<and> (\<forall>x. x \<notin> lent \<longrightarrow> held t x = 0)"

section \<open>The shape of compiled functions\<close>

text \<open>
  Loops come from the tail-call transform (\<^verbatim>\<open>rewrite_into_loop\<close> in \<^verbatim>\<open>trmc.rs\<close>): the header is the whole
  body, or all of it below the start of a destination, and carries every parameter and the
  destination. Jumps back stand in tail position.
\<close>

fun no_jump :: "bool \<Rightarrow> cexpr \<Rightarrow> bool" where
  "no_jump tail (CExpr (KLit _) _) \<longleftrightarrow> True"
| "no_jump tail (CExpr (KGlobal _) _) \<longleftrightarrow> True"
| "no_jump tail (CExpr KError _) \<longleftrightarrow> True"
| "no_jump tail (CExpr (KLocal _) _) \<longleftrightarrow> True"
| "no_jump tail (CExpr (KMakeClosure _ _ _) _) \<longleftrightarrow> True"
| "no_jump tail (CExpr (KPrim _ args) _) \<longleftrightarrow> (\<forall>a \<in> set args. no_jump False a)"
| "no_jump tail (CExpr (KForeign _ args _) _) \<longleftrightarrow> (\<forall>a \<in> set args. no_jump False a)"
| "no_jump tail (CExpr (KMakeData _ args _ _ _) _) \<longleftrightarrow> (\<forall>a \<in> set args. no_jump False a)"
| "no_jump tail (CExpr (KApp func args _ _) _) \<longleftrightarrow> no_jump False func \<and> (\<forall>a \<in> set args. no_jump False a)"
| "no_jump tail (CExpr (KSpread args) _) \<longleftrightarrow> (\<forall>a \<in> set args. no_jump False a)"
| "no_jump tail (CExpr (KDataTag base _) _) \<longleftrightarrow> no_jump False base"
| "no_jump tail (CExpr (KDataField base _ _ _) _) \<longleftrightarrow> no_jump False base"
| "no_jump tail (CExpr (KIf c a b) _) \<longleftrightarrow> no_jump False c \<and> no_jump tail a \<and> no_jump tail b"
| "no_jump tail (CExpr (KLet _ value body) _) \<longleftrightarrow> no_jump False value \<and> no_jump tail body"
| "no_jump tail (CExpr (KLetMany _ value body) _) \<longleftrightarrow> no_jump False value \<and> no_jump tail body"
| "no_jump tail (CExpr (KReset value _ body) _) \<longleftrightarrow> no_jump False value \<and> no_jump tail body"
| "no_jump tail (CExpr (KFreeReuse _ body) _) \<longleftrightarrow> no_jump tail body"
| "no_jump tail (CExpr (KDup _ body) _) \<longleftrightarrow> no_jump tail body"
| "no_jump tail (CExpr (KDrop _ body) _) \<longleftrightarrow> no_jump tail body"
| "no_jump tail (CExpr (KJoin _ _) _) \<longleftrightarrow> False"
| "no_jump tail (CExpr (KRecur args) _) \<longleftrightarrow> tail \<and> (\<forall>a \<in> set args. no_jump False a)"
| "no_jump tail (CExpr (KHoleStart _ body) _) \<longleftrightarrow> no_jump tail body"
| "no_jump tail (CExpr (KHoleFill _ cell _) _) \<longleftrightarrow> no_jump False cell"
| "no_jump tail (CExpr (KHoleClose _ base) _) \<longleftrightarrow> no_jump False base"

fun binders :: "cexpr \<Rightarrow> local_id set" where
  "binders (CExpr (KLit _) _) = {}"
| "binders (CExpr (KGlobal _) _) = {}"
| "binders (CExpr KError _) = {}"
| "binders (CExpr (KLocal _) _) = {}"
| "binders (CExpr (KMakeClosure _ _ _) _) = {}"
| "binders (CExpr (KPrim _ args) _) = (\<Union>a \<in> set args. binders a)"
| "binders (CExpr (KForeign _ args _) _) = (\<Union>a \<in> set args. binders a)"
| "binders (CExpr (KMakeData _ args _ _ _) _) = (\<Union>a \<in> set args. binders a)"
| "binders (CExpr (KApp func args _ _) _) = binders func \<union> (\<Union>a \<in> set args. binders a)"
| "binders (CExpr (KSpread args) _) = (\<Union>a \<in> set args. binders a)"
| "binders (CExpr (KDataTag base _) _) = binders base"
| "binders (CExpr (KDataField base _ _ _) _) = binders base"
| "binders (CExpr (KIf c a b) _) = binders c \<union> binders a \<union> binders b"
| "binders (CExpr (KLet x value body) _) = insert x (binders value \<union> binders body)"
| "binders (CExpr (KLetMany xs value body) _) = set xs \<union> binders value \<union> binders body"
| "binders (CExpr (KReset value x body) _) = insert x (binders value \<union> binders body)"
| "binders (CExpr (KFreeReuse _ body) _) = binders body"
| "binders (CExpr (KDup _ body) _) = binders body"
| "binders (CExpr (KDrop _ body) _) = binders body"
| "binders (CExpr (KJoin _ body) _) = binders body"
| "binders (CExpr (KRecur args) _) = (\<Union>a \<in> set args. binders a)"
| "binders (CExpr (KHoleStart x body) _) = insert x (binders body)"
| "binders (CExpr (KHoleFill _ cell _) _) = binders cell"
| "binders (CExpr (KHoleClose _ base) _) = binders base"

definition carries :: "local_id set \<Rightarrow> local_id set \<Rightarrow> local_id list \<Rightarrow> bool" where
  "carries lent owned ps \<longleftrightarrow>
     distinct (filter (\<lambda>p. p \<notin> lent) ps) \<and> set (filter (\<lambda>p. p \<notin> lent) ps) = owned"

definition loop_shape :: "local_id set \<Rightarrow> local_id set \<Rightarrow> cexpr \<Rightarrow> bool" where
  "loop_shape lent owned body \<longleftrightarrow>
     (case ce_kind body of
        KJoin ps b \<Rightarrow> carries lent owned ps \<and> no_jump True b
      | KHoleStart h e \<Rightarrow>
          (case ce_kind e of
             KJoin ps b \<Rightarrow> carries lent (insert h owned) ps \<and> no_jump True b
           | _ \<Rightarrow> no_jump False body)
      | _ \<Rightarrow> no_jump False body)"

definition fn_shape :: "(nat \<Rightarrow> bool) \<Rightarrow> core_fn \<Rightarrow> bool" where
  "fn_shape lent f \<longleftrightarrow>
     distinct (owned_params lent f) \<and>
     lent_locals lent f \<inter> (set (owned_params lent f) \<union> binders (cf_body f)) = {} \<and>
     loop_shape (lent_locals lent f) (set (owned_params lent f)) (cf_body f)"

section \<open>The checker follows every path\<close>

lemma held_simps [simp]:
  "held [] x = 0"
  "held (t @ u) x = held t x + held u x"
  "held [Own y] x = (if x = y then 1 else 0)"
  "held [Acquire y] x = (if x = y then 1 else 0)"
  "held [Move y] x = (if x = y then -1 else 0)"
  "held [Free y] x = (if x = y then -1 else 0)"
  "held [Read y] x = 0"
  "held [End y] x = 0"
  "held [Lend y p] x = 0"
  by (simp_all add: held_def)

lemma lender_simps [simp]:
  "lender [] = Map.empty"
  "lender (t @ [e]) = lender_step e (lender t)"
  by (simp_all add: lender_def)

lemma safe_after_append [simp]:
  "safe_after lent pre (t @ u) \<longleftrightarrow> safe_after lent pre t \<and> safe_after lent (pre @ t) u"
  by (induction t arbitrary: pre) simp_all

definition lookup_count :: "refs \<Rightarrow> local_id \<Rightarrow> int" where
  "lookup_count R x = (case fmlookup R x of Some n \<Rightarrow> n | None \<Rightarrow> 0)"

definition agrees :: "local_id set \<Rightarrow> event list \<Rightarrow> refs \<Rightarrow> (local_id, local_id) fmap \<Rightarrow> bool" where
  "agrees lent t R P \<longleftrightarrow>
     (\<forall>x. x \<notin> lent \<longrightarrow> held t x = lookup_count R x) \<and>
     (\<forall>x n. fmlookup R x = Some n \<longrightarrow> 0 \<le> n \<and> x \<notin> lent) \<and>
     lender t = fmlookup P \<and> fmdom P |\<subseteq>| fmdom R"

lemma agreesD:
  assumes "agrees lent t R P"
  shows "x \<notin> lent \<Longrightarrow> held t x = lookup_count R x"
    and "fmlookup R x = Some n \<Longrightarrow> 0 \<le> n \<and> x \<notin> lent"
    and "lender t x = fmlookup P x"
    and "fmlookup P x = Some p \<Longrightarrow> \<exists>n. fmlookup R x = Some n"
    and "fmlookup R x = None \<Longrightarrow> fmlookup P x = None"
proof -
  show "x \<notin> lent \<Longrightarrow> held t x = lookup_count R x" "fmlookup R x = Some n \<Longrightarrow> 0 \<le> n \<and> x \<notin> lent"
    "lender t x = fmlookup P x" using assms unfolding agrees_def by simp_all
  have sub: "fmdom P |\<subseteq>| fmdom R" using assms unfolding agrees_def by simp
  show "fmlookup P x = Some p \<Longrightarrow> \<exists>n. fmlookup R x = Some n" using sub by (meson fmdomE fmdomI fsubsetD)
  show "fmlookup R x = None \<Longrightarrow> fmlookup P x = None" using sub by (meson fmdom_notD fmdom_notI fsubsetD)
qed

text \<open>Changing one count, and the events that do.\<close>

lemma lookup_count_upd [simp]: "lookup_count (fmupd y n R) x = (if x = y then n else lookup_count R x)"
  by (simp add: lookup_count_def)

lemma agrees_count:
  assumes "agrees lent t R P" "fmlookup R x = Some n" "0 \<le> m" "\<And>y. held [e] y = (if y = x then m - n else 0)"
    "lender_step e (lender t) = lender t"
  shows "agrees lent (t @ [e]) (fmupd x m R) P"
  using assms agreesD(1,2) [OF assms(1), of x] unfolding agrees_def
  by (auto simp: lookup_count_def fmdomI finsert_absorb)

lemma agrees_same:
  assumes "agrees lent t R P" "\<And>y. y \<notin> lent \<Longrightarrow> held [e] y = 0" "lender_step e (lender t) = lender t"
  shows "agrees lent (t @ [e]) R P"
  using assms unfolding agrees_def by auto

lemma alive_counted:
  assumes "agrees lent t R P" "fmlookup R x = Some n" "1 \<le> n"
  shows "alive lent t x"
  using assms agreesD(1,2) [OF assms(1), of x] by (auto simp: lookup_count_def intro: alive.holds)

lemma fmdom_upd_same [simp]: "fmlookup R x = Some n \<Longrightarrow> fmdom (fmupd x m R) = fmdom R"
  by (simp add: fmdomI finsert_absorb)

text \<open>What the checker's elementary steps accept is safe.\<close>

lemma consume_dom: "consume ck x R = Inr R' \<Longrightarrow> fmdom R' = fmdom R"
  by (auto simp: consume_def split: if_splits option.splits intro: fmdomI)

lemma borrow_chain_same: "borrow_chain fuel ck x R = Inr R' \<Longrightarrow> R' = R"
proof (induction fuel arbitrary: x)
  case 0
  then show ?case by (subst (asm) borrow_chain.simps) (auto split: option.splits if_splits)
next
  case (Suc fuel)
  then show ?case by (subst (asm) (2) borrow_chain.simps) (auto split: option.splits if_splits)
qed

lemma borrow_same: "borrow ck x R = Inr R' \<Longrightarrow> R' = R"
  by (simp add: borrow_def borrow_chain_same)

lemma acquire_dom: "acquire ck x R = Inr R' \<Longrightarrow> fmdom R' = fmdom R"
  using borrow_same by (fastforce simp: acquire_def split: if_splits option.splits intro: fmdomI)

lemma consume_step:
  assumes "consume ck x R = Inr R'" "agrees (ck_captures ck) t R (ck_projections ck)"
  shows "event_safe (ck_captures ck) t (Move x)" "agrees (ck_captures ck) (t @ [Move x]) R' (ck_projections ck)"
    "x \<notin> ck_captures ck \<Longrightarrow> event_safe (ck_captures ck) t (Free x)"
    "x \<notin> ck_captures ck \<Longrightarrow> agrees (ck_captures ck) (t @ [Free x]) R' (ck_projections ck)"
proof -
  have "(x \<in> ck_captures ck \<and> R' = R) \<or> (\<exists>n. fmlookup R x = Some n \<and> 1 \<le> n \<and> R' = fmupd x (n - 1) R)"
    using assms(1) agreesD(2,4) [OF assms(2), of x]
    by (auto simp: consume_def owned_by_def split: if_splits option.splits)
  then consider "x \<in> ck_captures ck" "R' = R" | n where "fmlookup R x = Some n" "1 \<le> n" "R' = fmupd x (n - 1) R"
    by blast
  then have "event_safe (ck_captures ck) t (Move x) \<and> agrees (ck_captures ck) (t @ [Move x]) R' (ck_projections ck)
    \<and> (x \<notin> ck_captures ck \<longrightarrow> event_safe (ck_captures ck) t (Free x)
    \<and> agrees (ck_captures ck) (t @ [Free x]) R' (ck_projections ck))"
  proof cases
    case 1
    with assms(2) show ?thesis by (auto intro!: agrees_same)
  next
    case 2
    moreover have "1 \<le> held t x" "x \<notin> ck_captures ck"
      using 2 agreesD(1,2) [OF assms(2), of x] by (auto simp: lookup_count_def)
    ultimately show ?thesis by (auto intro!: agrees_count [OF assms(2)] intro: fmdomI)
  qed
  then show "event_safe (ck_captures ck) t (Move x)" "agrees (ck_captures ck) (t @ [Move x]) R' (ck_projections ck)"
    "x \<notin> ck_captures ck \<Longrightarrow> event_safe (ck_captures ck) t (Free x)"
    "x \<notin> ck_captures ck \<Longrightarrow> agrees (ck_captures ck) (t @ [Free x]) R' (ck_projections ck)" by blast+
qed

lemma borrow_chain_step:
  assumes "borrow_chain fuel ck x R = Inr R'" "agrees (ck_captures ck) t R (ck_projections ck)"
  shows "R' = R \<and> alive (ck_captures ck) t x"
  using assms(1)
proof (induction fuel arbitrary: x)
  case 0
  then show ?case
    using agreesD(3) [OF assms(2), of x]
    by (subst (asm) borrow_chain.simps)
      (auto simp: owned_by_def split: option.splits if_splits intro: alive_counted [OF assms(2)] alive.lent)
next
  case (Suc fuel)
  then show ?case
    using agreesD(3) [OF assms(2), of x]
    by (subst (asm) (2) borrow_chain.simps)
      (auto simp: owned_by_def split: option.splits if_splits intro: alive_counted [OF assms(2)] alive.lent alive.slot)
qed

lemma borrow_step:
  assumes "borrow ck x R = Inr R'" "agrees (ck_captures ck) t R (ck_projections ck)"
  shows "event_safe (ck_captures ck) t (Read x)" "agrees (ck_captures ck) (t @ [Read x]) R' (ck_projections ck)"
    "R' = R" "event_safe (ck_captures ck) t (Acquire x)"
proof -
  have r: "R' = R" "alive (ck_captures ck) t x" using borrow_chain_step assms unfolding borrow_def by blast+
  then show "event_safe (ck_captures ck) t (Read x)" "R' = R" "event_safe (ck_captures ck) t (Acquire x)" by simp_all
  show "agrees (ck_captures ck) (t @ [Read x]) R' (ck_projections ck)"
    using r(1) assms(2) by (auto intro: agrees_same)
qed

lemma acquire_step:
  assumes "acquire ck x R = Inr R'" "agrees (ck_captures ck) t R (ck_projections ck)"
  shows "event_safe (ck_captures ck) t (Acquire x)" "agrees (ck_captures ck) (t @ [Acquire x]) R' (ck_projections ck)"
proof -
  consider "x \<in> ck_captures ck" "fmlookup (ck_projections ck) x = None" "R' = R"
    | n where "fmlookup R x = Some n" "0 \<le> n" "R' = fmupd x (n + 1) R" "alive (ck_captures ck) t x"
  proof (cases "fmlookup (ck_projections ck) x")
    case None
    with assms(1) show thesis
      by (auto simp: acquire_def owned_by_def split: if_splits option.splits
        intro: that(1) that(2) [OF _ _ _ alive_counted [OF assms(2)]])
  next
    case (Some p)
    with assms(1) obtain R1 n where "borrow ck x R = Inr R1" "fmlookup R1 x = Some n" "R' = fmupd x (n + 1) R1"
      by (auto simp: acquire_def split: option.splits)
    with borrow_step(3,4) [OF _ assms(2)] agreesD(2) [OF assms(2)] show thesis by (intro that(2)) fastforce+
  qed
  then have "event_safe (ck_captures ck) t (Acquire x) \<and>
    agrees (ck_captures ck) (t @ [Acquire x]) R' (ck_projections ck)"
  proof cases
    case 1
    with assms(2) agreesD(3) [OF assms(2), of x] show ?thesis by (auto intro!: agrees_same intro: alive.lent)
  next
    case 2
    then show ?thesis by (auto intro!: agrees_count [OF assms(2)] intro: fmdomI)
  qed
  then show "event_safe (ck_captures ck) t (Acquire x)"
    "agrees (ck_captures ck) (t @ [Acquire x]) R' (ck_projections ck)" by blast+
qed

text \<open>
  A set of paths leads from one state of the checker to another when every path is safe and ends in
  agreement with the second; only in tail position may a path jump.
\<close>

definition leads :: "local_id set \<Rightarrow> (local_id, local_id) fmap \<Rightarrow> bool \<Rightarrow> refs \<Rightarrow> paths \<Rightarrow> refs \<Rightarrow> bool" where
  "leads lent P tail R ps R' \<longleftrightarrow>
     fmdom R' = fmdom R \<and>
     (\<forall>pre t jump. agrees lent pre R P \<longrightarrow> (t, jump) \<in> set ps \<longrightarrow>
        safe_after lent pre t \<and> agrees lent (pre @ t) R' P \<and> (jump \<longrightarrow> tail))"

lemma leads_emit:
  assumes "fmdom R' = fmdom R" "\<And>pre. agrees lent pre R P \<Longrightarrow> safe_after lent pre es \<and> agrees lent (pre @ es) R' P"
  shows "leads lent P tail R (emit es) R'"
  using assms by (auto simp: leads_def emit_def)

lemma leads_nothing [simp, intro]: "leads lent P tail R (emit []) R"
  by (rule leads_emit) simp_all

lemma leads_jump [intro]: "leads lent P True R [([], True)] R"
  by (auto simp: leads_def)

lemma leads_then:
  assumes "leads lent P False R ps R1" "leads lent P tail R1 qs R2"
  shows "leads lent P tail R (then_do ps qs) R2"
  unfolding leads_def
proof (intro conjI allI impI)
  show "fmdom R2 = fmdom R" using assms by (simp add: leads_def)
  fix pre t jump
  assume a: "agrees lent pre R P" "(t, jump) \<in> set (then_do ps qs)"
  then obtain t1 j1 where t1: "(t1, j1) \<in> set ps" "if j1 then (t, jump) = (t1, True) else \<exists>u. t = t1 @ u \<and> (u, jump) \<in> set qs"
    by (auto simp: then_do_def split: if_splits)
  with assms(1) a(1) have s1: "safe_after lent pre t1" "agrees lent (pre @ t1) R1 P" "\<not> j1"
    unfolding leads_def by blast+
  with t1 obtain u where u: "t = t1 @ u" "(u, jump) \<in> set qs" by auto
  with assms(2) s1 have "safe_after lent (pre @ t1) u \<and> agrees lent ((pre @ t1) @ u) R2 P \<and> (jump \<longrightarrow> tail)"
    unfolding leads_def by blast
  with s1 u show "safe_after lent pre t" "agrees lent (pre @ t) R2 P" "jump \<Longrightarrow> tail" by simp_all
qed

lemma leads_choice:
  "leads lent P tail R ps R' \<Longrightarrow> leads lent P tail R qs R' \<Longrightarrow> leads lent P tail R (ps @ qs) R'"
  unfolding leads_def by auto

lemma leads_mono: "leads lent P False R ps R' \<Longrightarrow> leads lent P tail R ps R'"
  unfolding leads_def by blast

lemma leads_in_order:
  assumes "try_fold f xs R = Inr R'" "\<And>x R R'. x \<in> set xs \<Longrightarrow> f x R = Inr R' \<Longrightarrow> leads lent P False R (g x) R'"
  shows "leads lent P False R (in_order (map g xs)) R'"
  using assms
proof (induction xs arbitrary: R)
  case (Cons x xs)
  then obtain R1 where "f x R = Inr R1" "try_fold f xs R1 = Inr R'" by auto
  with Cons show ?case by (auto intro!: leads_then [of lent P R "g x" R1])
qed auto

lemma leads_consume:
  assumes "consume ck x R = Inr R'"
  shows "leads (ck_captures ck) (ck_projections ck) tail R (emit [Move x]) R'"
    and "x \<notin> ck_captures ck \<Longrightarrow> leads (ck_captures ck) (ck_projections ck) tail R (emit [Free x]) R'"
  using consume_step [OF assms] consume_dom [OF assms] by (auto intro!: leads_emit)

lemma leads_consume_all:
  assumes "try_fold (consume ck) xs R = Inr R'"
  shows "leads (ck_captures ck) (ck_projections ck) tail R (emit (map Move xs)) R'"
proof -
  have "leads (ck_captures ck) (ck_projections ck) False R (in_order (map (\<lambda>x. emit [Move x]) xs)) R'"
    by (rule leads_in_order [OF assms leads_consume(1)])
  moreover have "in_order (map (\<lambda>x. emit [Move x]) xs) = emit (map Move xs)"
    by (induction xs) (auto simp: emit_def then_do_def)
  ultimately show ?thesis by (simp add: leads_mono)
qed

lemma leads_borrow:
  assumes "borrow ck x R = Inr R'"
  shows "leads (ck_captures ck) (ck_projections ck) tail R (emit [Read x]) R'"
  using borrow_step [OF assms] borrow_same [OF assms] by (auto intro!: leads_emit)

lemma leads_borrow_atom:
  "borrow_atom ck a R = Inr R' \<Longrightarrow> leads (ck_captures ck) (ck_projections ck) tail R (read_atom a ps) R'"
  by (auto simp: borrow_atom_def read_atom_def local_of_def split: expr_kind.splits intro: leads_borrow)

lemma leads_acquire:
  assumes "acquire ck x R = Inr R'"
  shows "leads (ck_captures ck) (ck_projections ck) tail R (emit [Acquire x]) R'"
  using acquire_step [OF assms] acquire_dom [OF assms] by (auto intro!: leads_emit)

text \<open>Scopes.\<close>

lemma insert_new_Inr [simp]: "insert_new err x n R = Inr R' \<longleftrightarrow> fmlookup R x = None \<and> R' = fmupd x n R"
  by (auto simp: insert_new_def)

lemma remove_spent_Inr [simp]: "remove_spent err x R = Inr R' \<longleftrightarrow> lookup_count R x = 0 \<and> R' = fmdrop x R"
  by (auto simp: remove_spent_def lookup_count_def Let_def)

lemma insert_all:
  assumes "try_fold (\<lambda>x. insert_new (err x) x 1) xs R = Inr R'" "agrees lent t R P" "set xs \<inter> lent = {}"
  shows "safe_after lent t (map Own xs)" "agrees lent (t @ map Own xs) R' P"
proof -
  have "safe_after lent t (map Own xs) \<and> agrees lent (t @ map Own xs) R' P"
    using assms
  proof (induction xs arbitrary: R t)
    case (Cons x xs)
    from Cons.prems(1) have new: "fmlookup R x = None"
      and rest: "try_fold (\<lambda>x. insert_new (err x) x 1) xs (fmupd x 1 R) = Inr R'"
      by simp_all
    have safe: "event_safe lent t (Own x)"
      using new Cons.prems(3) agreesD(1,3,5) [OF Cons.prems(2), of x] by (simp add: lookup_count_def)
    have "agrees lent (t @ [Own x]) (fmupd x 1 R) P"
      using Cons.prems(2,3) safe new unfolding agrees_def by (auto simp: lookup_count_def)
    from Cons.IH [OF rest this] safe Cons.prems(3) show ?case by simp
  qed simp
  then show "safe_after lent t (map Own xs)" "agrees lent (t @ map Own xs) R' P" by blast+
qed

lemma insert_new_dom:
  "try_fold (\<lambda>x. insert_new (err x) x n) xs R = Inr R' \<Longrightarrow> fmdom R' = fset_of_list xs |\<union>| fmdom R \<and> (\<forall>x \<in> set xs. fmlookup R x = None)"
proof (induction xs arbitrary: R)
  case (Cons x xs)
  then have "fmlookup R x = None" "fmdom R' = fset_of_list xs |\<union>| fmdom (fmupd x n R)"
    "\<forall>y \<in> set xs. fmlookup (fmupd x n R) y = None" by fastforce+
  then show ?case by (auto split: if_splits)
qed simp

lemma remove_all:
  assumes "try_fold (\<lambda>x. remove_spent (err x) x) xs R = Inr R'" "agrees lent t R P" "set xs \<inter> lent = {}"
    "set xs \<inter> fset (fmdom P) = {}"
  shows "safe_after lent t (map End xs)" "agrees lent (t @ map End xs) R' P"
proof -
  have "safe_after lent t (map End xs) \<and> agrees lent (t @ map End xs) R' P"
    using assms
  proof (induction xs arbitrary: R t)
    case (Cons x xs)
    from Cons.prems(1) have zero: "lookup_count R x = 0"
      and rest: "try_fold (\<lambda>x. remove_spent (err x) x) xs (fmdrop x R) = Inr R'"
      by simp_all
    have safe: "event_safe lent t (End x)"
      using zero Cons.prems(3) agreesD(1) [OF Cons.prems(2), of x] by simp
    have "fmlookup P x = None" using Cons.prems(4) by (simp add: fmdom_notD)
    then have "lender_step (End x) (lender t) = fmlookup P" "fmdom P |\<subseteq>| fmdom (fmdrop x R)"
      using Cons.prems(2) unfolding agrees_def by (auto simp: fun_upd_idem fmdom_notI)
    then have "agrees lent (t @ [End x]) (fmdrop x R) P"
      using Cons.prems(2) zero unfolding agrees_def by (simp add: lookup_count_def)
    from Cons.IH [OF rest this] safe Cons.prems(3,4) show ?case by simp
  qed simp
  then show "safe_after lent t (map End xs)" "agrees lent (t @ map End xs) R' P" by blast+
qed

lemma remove_spent_dom:
  "try_fold (\<lambda>x. remove_spent (err x) x) xs R = Inr R' \<Longrightarrow> fmdom R' = fmdom R |-| fset_of_list xs"
  by (induction xs arbitrary: R) auto

lemma leads_scope:
  assumes "try_fold (\<lambda>x. insert_new (err x) x 1) xs R = Inr R1" "leads lent P tail R1 ps R2"
    "try_fold (\<lambda>x. remove_spent (err' x) x) xs R2 = Inr R3" "set xs \<inter> lent = {}"
  shows "leads lent P tail R (then_do (emit (map Own xs)) (leave xs ps)) R3"
  unfolding leads_def
proof (intro conjI allI impI)
  note dom = insert_new_dom [OF assms(1)] remove_spent_dom [OF assms(3)]
  have "fmdom R2 = fmdom R1" using assms(2) by (simp add: leads_def)
  with dom show "fmdom R3 = fmdom R" by (auto simp: fmdom_notI fset_of_list_elem)
  fix pre t jump
  assume a: "agrees lent pre R P" "(t, jump) \<in> set (then_do (emit (map Own xs)) (leave xs ps))"
  then obtain u where u: "t = map Own xs @ u @ map End xs" "(u, jump) \<in> set ps"
    by (auto simp: then_do_def emit_def leave_def)
  note i = insert_all [OF assms(1) a(1) assms(4)]
  from assms(2) i(2) u(2) have b: "safe_after lent (pre @ map Own xs) u" "agrees lent ((pre @ map Own xs) @ u) R2 P"
    "jump \<longrightarrow> tail" unfolding leads_def by blast+
  have "fmdom P |\<subseteq>| fmdom R" using a(1) by (simp add: agrees_def)
  then have "set xs \<inter> fset (fmdom P) = {}" using dom(1) by (auto dest: fmdom_notI fsubsetD)
  from remove_all [OF assms(3) b(2) assms(4) this] i b u
  show "safe_after lent pre t" "agrees lent (pre @ t) R3 P" "jump \<Longrightarrow> tail" by simp_all
qed

lemma leads_scope1:
  assumes "fmlookup R x = None" "leads lent P tail (fmupd x 1 R) ps R2" "remove_spent err x R2 = Inr R3" "x \<notin> lent"
  shows "leads lent P tail R (then_do (emit [Own x]) (leave [x] ps)) R3"
  using leads_scope [of "\<lambda>_. err 0" "[x]" R "fmupd x 1 R" lent P tail ps R2 "\<lambda>_. err" R3] assms by simp

lemma leads_slot:
  assumes new: "fmlookup R x = None" "x \<notin> lent"
    and body: "leads lent (fmupd x p P) tail (fmupd x 0 R) ps R2"
    and left: "remove_spent err x R2 = Inr R3"
  shows "leads lent P tail R (then_do (emit [Lend x p]) (leave [x] ps)) R3"
  unfolding leads_def
proof (intro conjI allI impI)
  have dom: "fmdom R2 = finsert x (fmdom R)" using body by (simp add: leads_def)
  with left new show "fmdom R3 = fmdom R" by (auto simp: fmdom_notI)
  fix pre t jump
  assume a: "agrees lent pre R P" "(t, jump) \<in> set (then_do (emit [Lend x p]) (leave [x] ps))"
  then obtain u where u: "t = [Lend x p] @ u @ [End x]" "(u, jump) \<in> set ps"
    by (auto simp: then_do_def emit_def leave_def)
  have P: "fmlookup P x = None" "held pre x = 0" "lender pre x = None"
    using agreesD(1,3,5) [OF a(1), of x] new by (simp_all add: lookup_count_def)
  have "agrees lent (pre @ [Lend x p]) (fmupd x 0 R) (fmupd x p P)"
    using a(1) new P(2) unfolding agrees_def by (auto simp: lookup_count_def)
  with body u(2) have b: "safe_after lent (pre @ [Lend x p]) u"
    "agrees lent ((pre @ [Lend x p]) @ u) R2 (fmupd x p P)" "jump \<longrightarrow> tail" unfolding leads_def by blast+
  have zero: "lookup_count R2 x = 0" "R3 = fmdrop x R2" using left by simp_all
  have "held ((pre @ [Lend x p]) @ u) x = 0" using agreesD(1) [OF b(2) new(2)] zero by simp
  with b(1) P u(1) show "safe_after lent pre t" by simp
  have "fmdom P |\<subseteq>| fmdom R" using a(1) by (simp add: agrees_def)
  then have sub: "fmdom P |\<subseteq>| fmdom R3" using P(1) dom zero(2) by (auto simp: fmdom_notI)
  have "lender (((pre @ [Lend x p]) @ u) @ [End x]) = fmlookup P"
    using b(2) P(1) unfolding agrees_def by (auto simp del: append_assoc)
  with b(2) zero sub have "agrees lent (((pre @ [Lend x p]) @ u) @ [End x]) R3 P"
    unfolding agrees_def by (auto simp: lookup_count_def simp del: append_assoc)
  with u(1) show "agrees lent (pre @ t) R3 P" by simp
  show "jump \<Longrightarrow> tail" using b(3) by simp
qed

lemma leads_operands:
  assumes "try_fold (\<lambda>(flag, a) R. case (if flag then local_of a else None) of
      Some x \<Rightarrow> borrow ck x R | None \<Rightarrow> eval ck a R) (with_flags flags args) R = Inr R'"
    and "\<And>flag a R R'. (flag, a) \<in> set (with_flags flags args) \<Longrightarrow> (if flag then local_of a else None) = None \<Longrightarrow>
      eval ck a R = Inr R' \<Longrightarrow> leads (ck_captures ck) (ck_projections ck) False R (g a) R'"
  shows "leads (ck_captures ck) (ck_projections ck) False R
    (in_order (map (\<lambda>(flag, a). if flag then read_atom a (g a) else g a) (with_flags flags args))) R'"
  using assms(1)
proof (rule leads_in_order)
  fix fa R R'
  assume fa: "fa \<in> set (with_flags flags args)" "(case fa of (flag, a) \<Rightarrow> \<lambda>R. case (if flag then local_of a else None) of
      Some x \<Rightarrow> borrow ck x R | None \<Rightarrow> eval ck a R) R = Inr R'"
  obtain flag a where eq: "fa = (flag, a)" by (cases fa)
  show "leads (ck_captures ck) (ck_projections ck) False R
    (case fa of (flag, a) \<Rightarrow> if flag then read_atom a (g a) else g a) R'"
    using fa assms(2) unfolding eq
    by (auto simp: read_atom_def split: option.splits if_splits intro: leads_borrow)
qed

lemma with_flags_arg: "(flag, a) \<in> set (with_flags flags args) \<Longrightarrow> a \<in> set args"
  unfolding with_flags_def by (rule set_zip_rightD)

lemma disjoint_UN: "(\<Union> (f ` A)) \<inter> C = {} \<longleftrightarrow> (\<forall>a \<in> A. f a \<inter> C = {})"
  by auto

definition loop_flags :: "checker \<Rightarrow> bool list" where
  "loop_flags ck = (case ck_loop_borrowed ck of None \<Rightarrow> [] | Some borrowed \<Rightarrow> borrowed)"

abbreviation check_paths :: "checker \<Rightarrow> nat \<Rightarrow> cexpr \<Rightarrow> paths" where
  "check_paths ck n e \<equiv> paths (ck_arg_borrows ck) (ck_captures ck) n (loop_flags ck) e"

lemma loop_flags_projections [simp]: "loop_flags (ck\<lparr>ck_projections := P\<rparr>) = loop_flags ck"
  by (simp add: loop_flags_def)

lemma disjoint_Un: "(A \<union> B) \<inter> C = {} \<longleftrightarrow> A \<inter> C = {} \<and> B \<inter> C = {}"
  by auto

lemma disjoint_insert_left: "insert a B \<inter> C = {} \<longleftrightarrow> a \<notin> C \<and> B \<inter> C = {}"
  by auto

lemmas disjoint_parts = disjoint_UN disjoint_Un disjoint_insert_left

lemmas leads_binding = leads_then [OF _ leads_scope1] leads_then [OF _ leads_slot] leads_then [OF _ leads_scope]

lemma eval_leads:
  assumes "eval ck e R = Inr R'" "no_jump tail e" "binders e \<inter> ck_captures ck = {}"
  shows "leads (ck_captures ck) (ck_projections ck) tail R (check_paths ck n e) R'"
  using assms
proof (induction ck e R arbitrary: R' tail rule: eval.induct)
  case (4 ck x t R)
  then show ?case by (simp add: leads_consume)
next
  case (5 ck op args t R)
  have "leads (ck_captures ck) (ck_projections ck) False R (check_paths ck n (CExpr (KPrim op args) t)) R'"
    unfolding paths.simps
  proof (rule leads_operands)
    fix flag a R R'
    assume a: "(flag, a) \<in> set (with_flags (prim_borrows op args) args)" "(if flag then local_of a else None) = None"
      "eval ck a R = Inr R'"
    from with_flags_arg [OF a(1)] have "no_jump False a" "binders a \<inter> ck_captures ck = {}" using 5 by auto
    with "5.IH" [OF a(1) refl a(2,3)] show "leads (ck_captures ck) (ck_projections ck) False R (check_paths ck n a) R'" by blast
  qed (use 5 in simp)
  then show ?case by (rule leads_mono)
next
  case (6 ck s args m t R)
  have "leads (ck_captures ck) (ck_projections ck) False R (in_order (map (check_paths ck n) args)) R'"
    by (rule leads_in_order [of "eval ck"]) (use 6 in \<open>simp_all add: disjoint_UN\<close>)
  then show ?case by (simp add: leads_mono)
next
  case (7 ck tag args reuse sc ni t R)
  then obtain R1 where R1: "try_fold (eval ck) args R = Inr R1" "(case reuse of None \<Rightarrow> Inr R1 | Some t \<Rightarrow> consume ck t R1) = Inr R'"
    by auto
  have "leads (ck_captures ck) (ck_projections ck) False R (in_order (map (check_paths ck n) args)) R1"
    by (rule leads_in_order [OF R1(1)]) (use 7 in \<open>simp_all add: disjoint_UN\<close>)
  with R1(2) show ?case by (auto intro!: leads_then leads_consume split: option.splits)
next
  case (8 ck func args reuse al t R)
  then obtain R1 R2 where R1: "eval ck func R = Inr R1" and R2: "try_fold (\<lambda>(flag, a) R. case (if flag then local_of a else None) of
      Some x \<Rightarrow> borrow ck x R | None \<Rightarrow> eval ck a R) (with_flags (call_flags (ck_arg_borrows ck) func (length args)) args) R1 = Inr R2"
    and R3: "try_fold (consume ck) (List.map_filter (\<lambda>t. t) reuse) R2 = Inr R'" by auto
  have "leads (ck_captures ck) (ck_projections ck) False R1
    (in_order (map (\<lambda>(flag, a). if flag then read_atom a (check_paths ck n a) else check_paths ck n a)
       (with_flags (call_flags (ck_arg_borrows ck) func (length args)) args))) R2"
    by (rule leads_operands [OF R2], rule "8.IH"(2) [OF R1])
      (use 8 in \<open>auto simp: disjoint_parts dest: with_flags_arg\<close>)
  with 8 R1 show ?case by (auto simp: disjoint_parts intro!: leads_then leads_consume_all [OF R3])
next
  case (9 ck f xs al t R)
  then show ?case by (simp add: leads_consume_all)
next
  case (10 ck base ni t R)
  then show ?case by (simp add: leads_borrow_atom)
next
  case (11 ck base index sc ni t R)
  then show ?case by (auto intro!: leads_then leads_borrow_atom leads_borrow split: option.splits)
next
  case (12 ck c a b t R)
  then obtain R1 where R1: "eval ck c R = Inr R1" "eval ck a R1 = Inr R'" "eval ck b R1 = Inr R'"
    by (auto split: if_splits)
  with 12 show ?case by (auto simp: disjoint_parts intro!: leads_then leads_choice)
next
  case (13 ck x v b t R)
  then obtain R1 where R1: "eval ck v R = Inr R1" by auto
  then have v: "leads (ck_captures ck) (ck_projections ck) False R (check_paths ck n v) R1"
    using 13 by (auto simp: disjoint_parts)
  show ?case
  proof (cases "peek_parent v")
    case None
    with 13 R1 obtain R2 where "fmlookup R1 x = None" "eval ck b (fmupd x 1 R1) = Inr R2"
      "remove_spent (LetLeft (ck_fn_index ck) x) x R2 = Inr R'" by auto
    with 13 R1 v None show ?thesis by (auto simp: disjoint_parts intro!: leads_binding)
  next
    case (Some p)
    with 13 R1 obtain R2 where "fmlookup R1 x = None" "fmlookup (ck_projections ck) x = None"
      "eval (ck\<lparr>ck_projections := fmupd x p (ck_projections ck)\<rparr>) b (fmupd x 0 R1) = Inr R2"
      "remove_spent (SlotLeft (ck_fn_index ck) x) x R2 = Inr R'" by (auto split: if_splits)
    with 13 R1 v Some show ?thesis by (auto simp: disjoint_parts intro!: leads_binding)
  qed
next
  case (14 ck x b t R)
  then show ?case by (auto intro!: leads_then leads_acquire)
next
  case (15 ck x b t R)
  then show ?case by (auto simp: owned_by_def split: if_splits intro!: leads_then leads_consume)
next
  case (16 ck v x b t R)
  then show ?case by (auto simp: disjoint_parts intro!: leads_binding)
next
  case (17 ck args t R)
  have "leads (ck_captures ck) (ck_projections ck) False R (in_order (map (check_paths ck n) args)) R'"
    by (rule leads_in_order [of "eval ck"]) (use 17 in \<open>simp_all add: disjoint_UN\<close>)
  then show ?case by (simp add: leads_mono)
next
  case (18 ck xs v b t R)
  then show ?case by (auto simp: disjoint_parts intro!: leads_binding)
next
  case (19 ck x b t R)
  then show ?case by (auto intro!: leads_then leads_consume)
next
  case (21 ck args t R)
  have "leads (ck_captures ck) (ck_projections ck) False R
    (in_order (map (\<lambda>(flag, a). if flag then read_atom a (check_paths ck n a) else check_paths ck n a)
       (with_flags (loop_flags ck) args))) R'"
  proof (rule leads_in_order)
    show "try_fold (\<lambda>(flag, a) R. if flag then borrow_atom ck a R else eval ck a R) (with_flags (loop_flags ck) args) R = Inr R'"
      using 21 by (simp add: loop_flags_def)
    fix fa R R'
    assume fa: "fa \<in> set (with_flags (loop_flags ck) args)"
      "(case fa of (flag, a) \<Rightarrow> \<lambda>R. if flag then borrow_atom ck a R else eval ck a R) R = Inr R'"
    obtain flag a where eq: "fa = (flag, a)" by (cases fa)
    with fa(1) have "a \<in> set args" by (simp add: with_flags_arg)
    with 21 have "no_jump False a" "binders a \<inter> ck_captures ck = {}" by auto
    with "21.IH" [of fa flag a R R' False] fa eq
    show "leads (ck_captures ck) (ck_projections ck) False R
      (case fa of (flag, a) \<Rightarrow> if flag then read_atom a (check_paths ck n a) else check_paths ck n a) R'"
      by (cases flag) (auto simp: loop_flags_def intro: leads_borrow_atom)
  qed
  with 21 show ?case by (auto intro!: leads_then)
next
  case (22 ck x b t R)
  then show ?case by (auto simp: disjoint_parts intro!: leads_scope1)
next
  case (23 ck x c f t R)
  then show ?case by (auto intro!: leads_then leads_consume)
next
  case (24 ck x b t R)
  then show ?case by (auto intro!: leads_then leads_consume)
qed simp_all

section \<open>Runs of functions\<close>

lemma initial_refs_lookup:
  "fmlookup (initial_refs lent f) x = (if x \<in> set (owned_params lent f) then Some 1 else None)"
proof -
  have "fmlookup (fold (\<lambda>p. fmupd p 1) ps R) x = (if x \<in> set ps then Some (1 :: int) else fmlookup R x)" for ps R
    by (induction ps arbitrary: R) auto
  then show ?thesis by (simp add: initial_refs_def)
qed

text \<open>Binding the carried locals anew takes the state of a back edge to the state of the header.\<close>

definition all_spent :: "refs \<Rightarrow> bool" where
  "all_spent R \<longleftrightarrow> (\<forall>x. lookup_count R x = 0)"

definition starts_with :: "local_id set \<Rightarrow> refs \<Rightarrow> bool" where
  "starts_with xs R \<longleftrightarrow> (\<forall>x. fmlookup R x = (if x \<in> xs then Some 1 else None))"

lemma held_bindings: "distinct xs \<Longrightarrow> held (map Own xs) x = (if x \<in> set xs then 1 else 0)"
proof (induction xs)
  case (Cons y ys)
  then show ?case using held_simps(2) [of "[Own y]" "map Own ys" x] by auto
qed simp

lemma lender_bindings: "lender (t @ map Own xs) = lender t"
proof -
  have "fold lender_step (map Own xs) m = m" for m by (induction xs) auto
  then show ?thesis by (simp add: lender_def)
qed

lemma safe_bindings:
  assumes "\<forall>x \<in> set xs. held t x = 0" "lender t = Map.empty" "distinct xs"
  shows "safe_after lent t (map Own xs)"
  using assms
proof (induction xs arbitrary: t)
  case (Cons y ys)
  have "safe_after lent (t @ [Own y]) (map Own ys)" by (rule Cons.IH) (use Cons.prems in auto)
  with Cons.prems show ?case by simp
qed simp

lemma rebind_agrees:
  assumes "agrees lent t R fmempty" "all_spent R" "distinct xs" "set xs \<inter> lent = {}" "starts_with (set xs) R0"
  shows "safe_after lent t (map Own xs)" "agrees lent (t @ map Own xs) R0 fmempty"
proof -
  have "\<forall>x. x \<notin> lent \<longrightarrow> held t x = 0" "lender t = Map.empty"
    using assms(1,2) unfolding agrees_def all_spent_def by auto
  moreover have "\<forall>x \<in> set xs. held t x = 0" using calculation(1) assms(4) by blast
  ultimately show "safe_after lent t (map Own xs)" "agrees lent (t @ map Own xs) R0 fmempty"
    using assms(3-5) safe_bindings [of xs t lent] unfolding agrees_def starts_with_def lookup_count_def
    by (auto simp: held_bindings lender_bindings)
qed

abbreviation safe_body :: "local_id set \<Rightarrow> refs \<Rightarrow> refs \<Rightarrow> paths \<Rightarrow> bool" where
  "safe_body lent R0 R1 ps \<equiv> leads lent fmempty True R0 ps R1"

lemma safe_unroll:
  assumes body: "safe_body lent R0 R1 ps" and spent: "all_spent R1" and xs: "distinct xs" "set xs \<inter> lent = {}"
    "starts_with (set xs) R0"
  shows "safe_body lent R0 R1 (unroll n (map Own xs) ps)"
proof (induction n)
  case (Suc n)
  show ?case unfolding leads_def
  proof (intro conjI allI impI)
    show "fmdom R1 = fmdom R0" using body by (simp add: leads_def)
  next
    fix pre t jump
    assume a: "agrees lent pre R0 fmempty" "(t, jump) \<in> set (unroll (Suc n) (map Own xs) ps)"
    then obtain u j where u: "(u, j) \<in> set ps"
      "if j then \<exists>v. t = u @ map Own xs @ v \<and> (v, jump) \<in> set (unroll n (map Own xs) ps) else t = u"
      by (auto split: if_splits)
    from body a(1) u(1) have s: "safe_after lent pre u" "agrees lent (pre @ u) R1 fmempty"
      unfolding leads_def by blast+
    have "safe_after lent pre t \<and> agrees lent (pre @ t) R1 fmempty"
    proof (cases j)
      case True
      with u obtain v where v: "t = u @ map Own xs @ v" "(v, jump) \<in> set (unroll n (map Own xs) ps)" by auto
      note r = rebind_agrees [OF s(2) spent xs]
      from Suc r(2) v(2) have "safe_after lent ((pre @ u) @ map Own xs) v \<and> agrees lent (((pre @ u) @ map Own xs) @ v) R1 fmempty"
        unfolding leads_def by blast
      with s r v(1) show ?thesis by simp
    qed (use s u in simp)
    then show "safe_after lent pre t" "agrees lent (pre @ t) R1 fmempty" True by simp_all
  qed
qed (use body in simp)

lemma eval_safe_body:
  assumes "eval ck e R = Inr R'" "no_jump tail e" "binders e \<inter> ck_captures ck = {}" "ck_projections ck = fmempty"
  shows "safe_body (ck_captures ck) R R' (check_paths ck n e)"
  using eval_leads [OF assms(1-3), of n] unfolding assms(4) leads_def by simp

lemma eval_loop:
  assumes ev: "eval (ck\<lparr>ck_loop_borrowed := Some (map (\<lambda>p. p \<in> ck_captures ck) ps)\<rparr>) b R = Inr R'"
    and shape: "no_jump True b" "binders b \<inter> ck_captures ck = {}" "ck_projections ck = fmempty"
    and carried: "carries (ck_captures ck) owned ps" "starts_with owned R" "all_spent R'"
  shows "safe_body (ck_captures ck) R R' (check_paths ck n (CExpr (KJoin ps b) t))"
proof -
  note body = eval_safe_body [OF ev shape(1), of n, simplified, OF shape(2,3)]
  show ?thesis
    using safe_unroll [OF body carried(3), of "filter (\<lambda>p. p \<notin> ck_captures ck) ps" n] carried(1,2)
    by (auto simp: carries_def loop_flags_def)
qed

lemma starts_with_upd: "starts_with xs R \<Longrightarrow> starts_with (insert x xs) (fmupd x 1 R)"
  by (auto simp: starts_with_def)

lemma starts_with_initial: "starts_with (set (owned_params lent f)) (initial_refs lent f)"
  by (simp add: starts_with_def initial_refs_lookup)

lemma all_spent_drop: "lookup_count R x = 0 \<Longrightarrow> all_spent (fmdrop x R) \<Longrightarrow> all_spent R"
  by (simp add: all_spent_def lookup_count_def) metis

lemma check_bodyD:
  assumes "check_body ab i err lent R body = Inr ()"
  obtains R' where "eval \<lparr>ck_captures = lent, ck_fn_index = i, ck_arg_borrows = ab,
      ck_projections = fmempty, ck_loop_borrowed = None\<rparr> body R = Inr R'" "all_spent R'"
proof -
  from assms obtain R' where R': "eval \<lparr>ck_captures = lent, ck_fn_index = i, ck_arg_borrows = ab,
      ck_projections = fmempty, ck_loop_borrowed = None\<rparr> body R = Inr R'"
    and none: "filter (\<lambda>l. fmlookup R' l \<noteq> Some 0) (sorted_list_of_fset (fmdom R')) = []"
    unfolding check_body_def and_then_Inr by (metis (no_types, lifting) Inl_Inr_False list.case(2) list.exhaust)
  have "lookup_count R' x = 0" for x
  proof (cases "fmlookup R' x")
    case (Some m)
    then have "x \<in> set (sorted_list_of_fset (fmdom R'))" by (simp add: fmdomI)
    with none have "fmlookup R' x = Some 0" unfolding filter_empty_conv by blast
    with Some show ?thesis by (simp add: lookup_count_def)
  qed (simp add: lookup_count_def)
  with R' that show thesis by (simp add: all_spent_def)
qed

lemma checked_body_safe:
  assumes "check_body ab i err lent R body = Inr ()" "starts_with owned R" "loop_shape lent owned body"
    "binders body \<inter> lent = {}"
  obtains R' where "all_spent R'" "safe_body lent R R' (paths ab lent n [] body)"
proof -
  let ?ck = "\<lparr>ck_captures = lent, ck_fn_index = i, ck_arg_borrows = ab, ck_projections = fmempty, ck_loop_borrowed = None\<rparr>"
  from assms(1) obtain R' where R': "eval ?ck body R = Inr R'" "all_spent R'" by (rule check_bodyD)
  obtain k ty where body: "body = CExpr k ty" by (cases body)
  have plain: "safe_body lent R R' (paths ab lent n [] body)" if "no_jump False body"
    using eval_safe_body [OF R'(1) that, of n] assms(4) by (simp add: loop_flags_def)
  consider (loop) ps b where "k = KJoin ps b" "carries lent owned ps" "no_jump True b"
    | (hole) h ps b ty' where "k = KHoleStart h (CExpr (KJoin ps b) ty')" "carries lent (insert h owned) ps" "no_jump True b"
    | (flat) "no_jump False body"
    using assms(3) unfolding body loop_shape_def
    by (auto split: expr_kind.splits) (metis cexpr.exhaust_sel)
  then show thesis
  proof cases
    case loop
    have "safe_body lent R R' (paths ab lent n [] body)"
      using eval_loop [of ?ck ps b R R' owned n ty] loop R' assms(2,4) body by (simp add: loop_flags_def)
    with R'(2) show thesis by (rule that)
  next
    case hole
    from R'(1) obtain R1 where R1: "fmlookup R h = None"
      "eval (?ck\<lparr>ck_loop_borrowed := Some (map (\<lambda>p. p \<in> lent) ps)\<rparr>) b (fmupd h 1 R) = Inr R1"
      "lookup_count R1 h = 0" "R' = fmdrop h R1" by (auto simp: body hole)
    have h: "h \<notin> lent" "binders b \<inter> lent = {}" using assms(4) by (auto simp: body hole)
    have "safe_body lent (fmupd h 1 R) R1 (paths ab lent n [] (CExpr (KJoin ps b) ty'))"
      using eval_loop [of ?ck ps b "fmupd h 1 R" R1 "insert h owned" n ty'] hole R1 h assms(2)
        all_spent_drop R'(2) by (simp add: loop_flags_def starts_with_upd)
    then have "safe_body lent R R' (paths ab lent n [] body)"
      using leads_scope1 [OF R1(1) _ _ h(1), where err = "HoleLeft 0 h"] R1(3,4) by (simp add: body hole)
    with R'(2) show thesis by (rule that)
  qed (use plain R'(2) that in blast)
qed

text \<open>The functions of a definition with the parameters their callers lend.\<close>

definition checked_functions :: "lowered_def \<Rightarrow> ((nat \<Rightarrow> bool) \<times> core_fn) list" where
  "checked_functions d =
     map (\<lambda>(i, f). (fn_lends d i, f)) (enumerate 0 (ld_fns d)) @
     (case ld_reuse_entry d of None \<Rightarrow> [] | Some re \<Rightarrow> [(reuse_lends d re, re)])"

lemma try_fold_unitD: "try_fold (\<lambda>x _. f x) xs () = Inr () \<Longrightarrow> x \<in> set xs \<Longrightarrow> f x = Inr ()"
  by (induction xs) (auto simp: old.unit.exhaust)

lemma check_rc_functions:
  assumes "check_rc ab d = Inr ()" "(lent, f) \<in> set (checked_functions d)"
  obtains i err where "check_body ab i err (lent_locals lent f) (initial_refs lent f) (cf_body f) = Inr ()"
proof -
  from assms(1) have fns: "try_fold (\<lambda>(i, f) _. check_fn ab d i f) (enumerate 0 (ld_fns d)) () = Inr ()"
    and re: "\<And>re. ld_reuse_entry d = Some re \<Longrightarrow> check_reuse_entry ab d re = Inr ()"
    by (auto simp: check_rc_def)
  from fns have "check_fn ab d i g = Inr ()" if "(i, g) \<in> set (enumerate 0 (ld_fns d))" for i g
    using try_fold_unitD [of "\<lambda>(i, f). check_fn ab d i f" "enumerate 0 (ld_fns d)"] that by (fastforce simp: case_prod_unfold)
  note fn = this
  from assms(2) consider i where "(i, f) \<in> set (enumerate 0 (ld_fns d))" "lent = fn_lends d i"
    | "ld_reuse_entry d = Some f" "lent = reuse_lends d f"
    by (auto simp: checked_functions_def split: option.splits)
  then show thesis
  proof cases
    case 1
    with fn [OF 1(1)] show thesis by (intro that) (simp add: check_fn_def)
  next
    case 2
    with re [OF 2(1)] show thesis by (intro that) (simp add: check_reuse_entry_def)
  qed
qed

lemma checked_fn_sound:
  assumes ok: "check_body ab i err (lent_locals lent f) (initial_refs lent f) (cf_body f) = Inr ()"
    and "fn_shape lent f" and "t \<in> set (fn_runs ab lent n f)"
  shows "sound_run (lent_locals lent f) t"
proof -
  have shape: "distinct (owned_params lent f)" "set (owned_params lent f) \<inter> lent_locals lent f = {}"
    "binders (cf_body f) \<inter> lent_locals lent f = {}"
    "loop_shape (lent_locals lent f) (set (owned_params lent f)) (cf_body f)"
    using assms(2) by (auto simp: fn_shape_def)
  from ok starts_with_initial shape(4,3) obtain R' where R': "all_spent R'"
    "safe_body (lent_locals lent f) (initial_refs lent f) R' (paths ab (lent_locals lent f) n [] (cf_body f))"
    by (rule checked_body_safe)
  from assms(3) obtain u jump where u: "t = map Own (owned_params lent f) @ u"
    "(u, jump) \<in> set (paths ab (lent_locals lent f) n [] (cf_body f))" by (auto simp: fn_runs_def)
  have "agrees (lent_locals lent f) [] fmempty fmempty" "all_spent fmempty"
    by (auto simp: agrees_def all_spent_def lookup_count_def)
  note start = rebind_agrees [OF this shape(1,2) starts_with_initial, simplified]
  from R'(2) start(2) u(2) have "safe_after (lent_locals lent f) (map Own (owned_params lent f)) u"
    "agrees (lent_locals lent f) (map Own (owned_params lent f) @ u) R' fmempty" unfolding leads_def by blast+
  with start R'(1) u(1) show ?thesis by (simp add: sound_run_def agrees_def all_spent_def)
qed


section \<open>Examples\<close>

abbreviation at_unit :: "expr_kind \<Rightarrow> cexpr" where
  "at_unit k \<equiv> CExpr k TUnit"

text \<open>
  A loop over a list in parameter 0 that reads the tail, recycles the cell and jumps back, and returns
  parameter 1 at the end.
\<close>

definition sample_loop :: core_fn where
  "sample_loop = \<lparr>cf_params = [0, 1], cf_captures = [],
     cf_body = at_unit (KJoin [0, 1] (at_unit
       (KIf (at_unit (KDataTag (at_unit (KLocal 0)) None))
         (at_unit (KLet 2 (at_unit (KDataField (at_unit (KLocal 0)) (FConst 1) False None))
           (at_unit (KDup 2 (at_unit (KReset (at_unit (KLocal 0)) 3
             (at_unit (KDrop 2 (at_unit (KFreeReuse 3
               (at_unit (KRecur [at_unit (KLocal 2), at_unit (KLocal 1)]))))))))))))
         (at_unit (KDrop 0 (at_unit (KLocal 1)))))))\<rparr>"

definition sample_def :: "core_fn \<Rightarrow> lowered_def" where
  "sample_def f = \<lparr>ld_def = \<lparr>def_file = 0, def_name = []\<rparr>, ld_fns = [f], ld_entry_borrowed = [],
     ld_reuse_entry = None, ld_entry_spread_params = []\<rparr>"

lemma sample_loop_accepted: "check_rc (\<lambda>_ _. []) (sample_def sample_loop) = Inr ()"
  by code_simp

lemma sample_loop_shape: "fn_shape (fn_lends (sample_def sample_loop) 0) sample_loop"
  by (simp add: fn_shape_def lent_locals_def owned_params_def enumerate_eq_zip sample_loop_def fn_lends_def
    sample_def_def entry_param_borrowed_def flag_at_def loop_shape_def carries_def insert_commute)

definition sample_run :: "event list" where
  "sample_run =
     [Own 0, Own 1, Read 0, Read 0, Own 2, Acquire 2, Move 0, Own 3, Free 2, Move 3, Move 2, Move 1, End 3, End 2,
      Own 0, Own 1, Read 0, Free 0, Move 1]"

lemma sample_run_is_run:
  "sample_run \<in> set (fn_runs (\<lambda>_ _. []) (fn_lends (sample_def sample_loop) 0) 1 sample_loop)"
  by code_simp


text \<open>A definition whose loop drops a local that is bound outside the loop and not carried by it.\<close>

definition sample_outer :: core_fn where
  "sample_outer = \<lparr>cf_params = [], cf_captures = [],
     cf_body = at_unit (KLet 0 (at_unit (KLit LUnit)) (at_unit (KJoin [] (at_unit
       (KIf (at_unit (KLit (LBool True)))
         (at_unit (KDrop 0 (at_unit (KRecur []))))
         (at_unit (KDrop 0 (at_unit (KLit LUnit)))))))))\<rparr>"

text \<open>
  C29: the shape of loops matters: the checker evaluates a loop body once, so it accepts a loop that
  drops a local of an enclosing scope, and the second iteration drops it again.
\<close>

theorem loop_drops_outer_local:
  "check_rc (\<lambda>_ _. []) (sample_def sample_outer) = Inr () \<and>
   (\<exists>t \<in> set (fn_runs (\<lambda>_ _. []) (fn_lends (sample_def sample_outer) 0) 1 sample_outer).
      count_list t (Own 0) = 1 \<and> count_list t (Free 0) = 2 \<and> \<not> sound_run {} t)"
proof (intro conjI bexI)
  show "check_rc (\<lambda>_ _. []) (sample_def sample_outer) = Inr ()" by code_simp
  show "[Own 0, Free 0, Free 0, End 0] \<in> set (fn_runs (\<lambda>_ _. []) (fn_lends (sample_def sample_outer) 0) 1 sample_outer)"
    by code_simp
qed (simp_all add: sound_run_def held_def)

end
