(* ===== verification/Fai_Insertion.thy ===== *)
theory Fai_Insertion
  imports Fai_Paths
begin

text \<open>
  Reference-count insertion, the core of \<^verbatim>\<open>fai-rc/src/lib.rs\<close>: A-normal form, free owned locals and the
  pass that adds the duplications and drops (\<^verbatim>\<open>Rc::owned\<close>).

  The mutable counter of fresh locals and the vector of bindings are passed along. Reaching an
  \<^verbatim>\<open>unreachable!\<close> is the result \<open>None\<close>. Hash sets of locals are sets; where the code iterates over
  one it sorts what it collects.
\<close>

section \<open>Fresh locals\<close>

fun max_local :: "cexpr \<Rightarrow> nat \<Rightarrow> nat" where
  "max_local (CExpr (KLocal x) _) m = max m (x + 1)"
| "max_local (CExpr (KLit _) _) m = m"
| "max_local (CExpr (KGlobal _) _) m = m"
| "max_local (CExpr KError _) m = m"
| "max_local (CExpr (KPrim _ args) _) m = fold max_local args m"
| "max_local (CExpr (KForeign _ args _) _) m = fold max_local args m"
| "max_local (CExpr (KMakeData _ args _ _ _) _) m = fold max_local args m"
| "max_local (CExpr (KApp func args reuse _) _) m =
     fold (\<lambda>t m. max m (t + 1)) (List.map_filter (\<lambda>t. t) reuse) (fold max_local args (max_local func m))"
| "max_local (CExpr (KIf c a b) _) m = max_local b (max_local a (max_local c m))"
| "max_local (CExpr (KLet x value body) _) m = max_local body (max_local value (max m (x + 1)))"
| "max_local (CExpr (KMakeClosure _ captures _) _) m = fold (\<lambda>c m. max m (c + 1)) captures m"
| "max_local (CExpr (KSpread args) _) m = fold max_local args m"
| "max_local (CExpr (KLetMany xs value body) _) m =
     max_local body (max_local value (fold (\<lambda>x m. max m (x + 1)) xs m))"
| "max_local (CExpr (KDataTag base _) _) m = max_local base m"
| "max_local (CExpr (KDataField base index _ _) _) m =
     (case evidence_of index of None \<Rightarrow> max_local base m | Some x \<Rightarrow> max (max_local base m) (x + 1))"
| "max_local (CExpr (KReset value token body) _) m = max_local body (max_local value (max m (token + 1)))"
| "max_local (CExpr (KFreeReuse token body) _) m = max_local body (max m (token + 1))"
| "max_local (CExpr (KDup x body) _) m = max_local body (max m (x + 1))"
| "max_local (CExpr (KDrop x body) _) m = max_local body (max m (x + 1))"
| "max_local (CExpr (KJoin params body) _) m = max_local body (fold (\<lambda>p m. max m (p + 1)) params m)"
| "max_local (CExpr (KRecur args) _) m = fold max_local args m"
| "max_local (CExpr (KHoleStart x body) _) m = max_local body (max m (x + 1))"
| "max_local (CExpr (KHoleFill x cell _) _) m = max_local cell (max m (x + 1))"
| "max_local (CExpr (KHoleClose x base) _) m = max_local base (max m (x + 1))"

definition next_free_local :: "lowered_def \<Rightarrow> nat" where
  "next_free_local d =
     fold (\<lambda>f m. max_local (cf_body f)
         (fold (\<lambda>c m. max m (c + 1)) (cf_captures f) (fold (\<lambda>p m. max m (p + 1)) (cf_params f) m)))
       (ld_fns d) 0"

section \<open>A-normal form\<close>

definition is_atom :: "cexpr \<Rightarrow> bool" where
  "is_atom e = (case ce_kind e of KLit _ \<Rightarrow> True | KLocal _ \<Rightarrow> True | KGlobal _ \<Rightarrow> True | KError \<Rightarrow> True | _ \<Rightarrow> False)"

type_synonym binds = "(local_id \<times> cexpr) list"
type_synonym anf_result = "(cexpr \<times> binds \<times> nat) option"

definition wrap_binds :: "binds \<Rightarrow> cexpr \<Rightarrow> cexpr" where
  "wrap_binds bs inner = foldr (\<lambda>(x, value) e. CExpr (KLet x value e) (ce_ty e)) bs inner"

definition bind_fresh :: "cexpr \<Rightarrow> binds \<Rightarrow> nat \<Rightarrow> cexpr \<times> binds \<times> nat" where
  "bind_fresh r bs next_local = (CExpr (KLocal next_local) (ce_ty r), bs @ [(next_local, r)], next_local + 1)"

text \<open>What \<^verbatim>\<open>anf\<close>, \<^verbatim>\<open>atomize\<close> and \<^verbatim>\<open>to_local\<close> do with the result of \<^verbatim>\<open>anf_op\<close>.\<close>

definition anf_wrap :: "anf_result \<Rightarrow> (cexpr \<times> nat) option" where
  "anf_wrap r = (case r of None \<Rightarrow> None | Some (oper, bs, n) \<Rightarrow> Some (wrap_binds bs oper, n))"

definition bind_unless :: "(cexpr \<Rightarrow> bool) \<Rightarrow> anf_result \<Rightarrow> anf_result" where
  "bind_unless ok r =
     (case r of None \<Rightarrow> None | Some (e, bs, n) \<Rightarrow> Some (if ok e then (e, bs, n) else bind_fresh e bs n))"

definition is_local :: "cexpr \<Rightarrow> bool" where
  "is_local e \<longleftrightarrow> local_of e \<noteq> None"

fun thread :: "('a \<Rightarrow> binds \<Rightarrow> nat \<Rightarrow> anf_result) \<Rightarrow> 'a list \<Rightarrow> binds \<Rightarrow> nat \<Rightarrow> (cexpr list \<times> binds \<times> nat) option" where
  "thread f [] bs n = Some ([], bs, n)"
| "thread f (x # xs) bs n =
     (case f x bs n of
        None \<Rightarrow> None
      | Some (e, bs, n) \<Rightarrow> (case thread f xs bs n of None \<Rightarrow> None | Some (es, bs, n) \<Rightarrow> Some (e # es, bs, n)))"

lemma thread_cong [fundef_cong]:
  assumes "xs = ys" "bs = bs'" "n = n'" "\<And>x bs n. x \<in> set ys \<Longrightarrow> f x bs n = g x bs n"
  shows "thread f xs bs n = thread g ys bs' n'"
  unfolding assms(1-3) using assms(4) by (induction ys arbitrary: bs' n') (auto split: option.splits)

function anf_op :: "cexpr \<Rightarrow> binds \<Rightarrow> nat \<Rightarrow> anf_result" where
  "anf_op (CExpr (KLit l) t) bs n = Some (CExpr (KLit l) t, bs, n)"
| "anf_op (CExpr (KLocal x) t) bs n = Some (CExpr (KLocal x) t, bs, n)"
| "anf_op (CExpr (KGlobal d) t) bs n = Some (CExpr (KGlobal d) t, bs, n)"
| "anf_op (CExpr KError t) bs n = Some (CExpr KError t, bs, n)"
| "anf_op (CExpr (KPrim op args) t) bs n =
     (case thread (\<lambda>a bs n. bind_unless is_atom (anf_op a bs n)) args bs n of
        None \<Rightarrow> None | Some (args, bs, n) \<Rightarrow> Some (CExpr (KPrim op args) t, bs, n))"
| "anf_op (CExpr (KForeign s args m) t) bs n =
     (case thread (\<lambda>a bs n. bind_unless is_atom (anf_op a bs n)) args bs n of
        None \<Rightarrow> None | Some (args, bs, n) \<Rightarrow> Some (CExpr (KForeign s args m) t, bs, n))"
| "anf_op (CExpr (KMakeData tag args reuse sc ni) t) bs n =
     (case thread (\<lambda>a bs n. bind_unless is_atom (anf_op a bs n)) args bs n of
        None \<Rightarrow> None | Some (args, bs, n) \<Rightarrow> Some (CExpr (KMakeData tag args reuse sc ni) t, bs, n))"
| "anf_op (CExpr (KApp func args reuse alloc) t) bs n =
     (case bind_unless is_atom (anf_op func bs n) of
        None \<Rightarrow> None
      | Some (func, bs, n) \<Rightarrow>
          (case thread (\<lambda>a bs n. bind_unless is_atom (anf_op a bs n)) args bs n of
             None \<Rightarrow> None | Some (args, bs, n) \<Rightarrow> Some (CExpr (KApp func args reuse alloc) t, bs, n)))"
| "anf_op (CExpr (KSpread args) t) bs n =
     (case thread (\<lambda>a bs n. bind_unless is_atom (anf_op a bs n)) args bs n of
        None \<Rightarrow> None | Some (args, bs, n) \<Rightarrow> Some (CExpr (KSpread args) t, bs, n))"
| "anf_op (CExpr (KLetMany xs value body) t) bs n =
     (case anf_wrap (anf_op value [] n) of
        None \<Rightarrow> None
      | Some (value, n) \<Rightarrow>
          (case anf_wrap (anf_op body [] n) of
             None \<Rightarrow> None | Some (body, n) \<Rightarrow> Some (CExpr (KLetMany xs value body) t, bs, n)))"
| "anf_op (CExpr (KDataTag base ni) t) bs n =
     (case bind_unless is_local (anf_op base bs n) of
        None \<Rightarrow> None | Some (base, bs, n) \<Rightarrow> Some (CExpr (KDataTag base ni) t, bs, n))"
| "anf_op (CExpr (KDataField base index sc ni) t) bs n =
     (case bind_unless is_local (anf_op base bs n) of
        None \<Rightarrow> None | Some (base, bs, n) \<Rightarrow> Some (CExpr (KDataField base index sc ni) t, bs, n))"
| "anf_op (CExpr (KIf c a b) t) bs n =
     (case bind_unless is_atom (anf_op c bs n) of
        None \<Rightarrow> None
      | Some (c, bs, n) \<Rightarrow>
          (case anf_wrap (anf_op a [] n) of
             None \<Rightarrow> None
           | Some (a, n) \<Rightarrow>
               (case anf_wrap (anf_op b [] n) of None \<Rightarrow> None | Some (b, n) \<Rightarrow> Some (CExpr (KIf c a b) t, bs, n))))"
| "anf_op (CExpr (KLet x value body) t) bs n =
     (case anf_op value bs n of None \<Rightarrow> None | Some (value, bs, n) \<Rightarrow> anf_op body (bs @ [(x, value)]) n)"
| "anf_op (CExpr (KMakeClosure f xs alloc) t) bs n = Some (CExpr (KMakeClosure f xs alloc) t, bs, n)"
| "anf_op (CExpr (KReset value token body) t) bs n =
     (case anf_wrap (anf_op value [] n) of
        None \<Rightarrow> None
      | Some (value, n) \<Rightarrow>
          (case anf_wrap (anf_op body [] n) of
             None \<Rightarrow> None | Some (body, n) \<Rightarrow> Some (CExpr (KReset value token body) t, bs, n)))"
| "anf_op (CExpr (KFreeReuse token body) t) bs n =
     (case anf_wrap (anf_op body [] n) of None \<Rightarrow> None | Some (body, n) \<Rightarrow> Some (CExpr (KFreeReuse token body) t, bs, n))"
| "anf_op (CExpr (KDup x body) t) bs n =
     (case anf_wrap (anf_op body [] n) of None \<Rightarrow> None | Some (body, n) \<Rightarrow> Some (CExpr (KDup x body) t, bs, n))"
| "anf_op (CExpr (KDrop x body) t) bs n =
     (case anf_wrap (anf_op body [] n) of None \<Rightarrow> None | Some (body, n) \<Rightarrow> Some (CExpr (KDrop x body) t, bs, n))"
| "anf_op (CExpr (KJoin _ _) t) bs n = None"
| "anf_op (CExpr (KRecur _) t) bs n = None"
| "anf_op (CExpr (KHoleStart _ _) t) bs n = None"
| "anf_op (CExpr (KHoleFill _ _ _) t) bs n = None"
| "anf_op (CExpr (KHoleClose _ _) t) bs n = None"
  by pat_completeness auto
termination
  by (relation "measure (\<lambda>(e, bs, n). size e)") (auto dest!: member_size)

definition atomize :: "cexpr \<Rightarrow> binds \<Rightarrow> nat \<Rightarrow> anf_result" where
  "atomize e bs n = bind_unless is_atom (anf_op e bs n)"

definition to_local :: "cexpr \<Rightarrow> binds \<Rightarrow> nat \<Rightarrow> anf_result" where
  "to_local e bs n = bind_unless is_local (anf_op e bs n)"

definition anf :: "cexpr \<Rightarrow> nat \<Rightarrow> (cexpr \<times> nat) option" where
  "anf e n = anf_wrap (anf_op e [] n)"

section \<open>Free owned locals\<close>

definition note_local :: "local_id set \<Rightarrow> local_id set \<Rightarrow> local_id \<Rightarrow> local_id set \<Rightarrow> local_id set" where
  "note_local captures bound x acc = (if x \<notin> captures \<and> x \<notin> bound then insert x acc else acc)"

fun collect_fv :: "cexpr \<Rightarrow> local_id set \<Rightarrow> local_id set \<Rightarrow> local_id set \<Rightarrow> local_id set" where
  "collect_fv (CExpr (KLocal x) _) cs bd acc = note_local cs bd x acc"
| "collect_fv (CExpr (KLit _) _) cs bd acc = acc"
| "collect_fv (CExpr (KGlobal _) _) cs bd acc = acc"
| "collect_fv (CExpr KError _) cs bd acc = acc"
| "collect_fv (CExpr (KPrim _ args) _) cs bd acc = fold (\<lambda>a. collect_fv a cs bd) args acc"
| "collect_fv (CExpr (KForeign _ args _) _) cs bd acc = fold (\<lambda>a. collect_fv a cs bd) args acc"
| "collect_fv (CExpr (KMakeData _ args _ _ _) _) cs bd acc = fold (\<lambda>a. collect_fv a cs bd) args acc"
| "collect_fv (CExpr (KSpread args) _) cs bd acc = fold (\<lambda>a. collect_fv a cs bd) args acc"
| "collect_fv (CExpr (KApp func args _ _) _) cs bd acc =
     fold (\<lambda>a. collect_fv a cs bd) args (collect_fv func cs bd acc)"
| "collect_fv (CExpr (KIf c a b) _) cs bd acc = collect_fv b cs bd (collect_fv a cs bd (collect_fv c cs bd acc))"
| "collect_fv (CExpr (KLet x value body) _) cs bd acc = collect_fv body cs (insert x bd) (collect_fv value cs bd acc)"
| "collect_fv (CExpr (KLetMany xs value body) _) cs bd acc =
     collect_fv body cs (set xs \<union> bd) (collect_fv value cs bd acc)"
| "collect_fv (CExpr (KMakeClosure _ xs _) _) cs bd acc = fold (note_local cs bd) xs acc"
| "collect_fv (CExpr (KDataTag base _) _) cs bd acc = collect_fv base cs bd acc"
| "collect_fv (CExpr (KDataField base index _ _) _) cs bd acc =
     (case evidence_of index of
        None \<Rightarrow> collect_fv base cs bd acc
      | Some x \<Rightarrow> note_local cs bd x (collect_fv base cs bd acc))"
| "collect_fv (CExpr (KReset value token body) _) cs bd acc =
     collect_fv body cs (insert token bd) (collect_fv value cs bd acc)"
| "collect_fv (CExpr (KFreeReuse token body) _) cs bd acc = collect_fv body cs bd (note_local cs bd token acc)"
| "collect_fv (CExpr (KDup x body) _) cs bd acc = collect_fv body cs bd (note_local cs bd x acc)"
| "collect_fv (CExpr (KDrop x body) _) cs bd acc = collect_fv body cs bd (note_local cs bd x acc)"
| "collect_fv (CExpr (KJoin params body) _) cs bd acc = collect_fv body cs (set params \<union> bd) acc"
| "collect_fv (CExpr (KRecur args) _) cs bd acc = fold (\<lambda>a. collect_fv a cs bd) args acc"
| "collect_fv (CExpr (KHoleStart x body) _) cs bd acc = collect_fv body cs (insert x bd) acc"
| "collect_fv (CExpr (KHoleFill x cell _) _) cs bd acc = collect_fv cell cs bd (note_local cs bd x acc)"
| "collect_fv (CExpr (KHoleClose x base) _) cs bd acc = collect_fv base cs bd (note_local cs bd x acc)"

definition fv_owned :: "cexpr \<Rightarrow> local_id set \<Rightarrow> local_id set" where
  "fv_owned e captures = collect_fv e captures {} {}"

section \<open>Precise reference counting\<close>

record rc_env =
  re_captures :: "local_id set"
  re_call_borrows :: arg_borrows

definition dup_op :: "local_id \<Rightarrow> cexpr \<Rightarrow> cexpr" where
  "dup_op x body = CExpr (KDup x body) (ce_ty body)"

definition drop_op :: "local_id \<Rightarrow> cexpr \<Rightarrow> cexpr" where
  "drop_op x body = CExpr (KDrop x body) (ce_ty body)"

definition dropify :: "local_id list \<Rightarrow> cexpr \<Rightarrow> cexpr" where
  "dropify drops e = foldr drop_op (remdups_adj (sort drops)) e"

definition is_projection :: "cexpr \<Rightarrow> bool" where
  "is_projection e =
     (case ce_kind e of
        KDataField _ _ _ _ \<Rightarrow> True
      | KDataTag _ _ \<Rightarrow> True
      | KPrim op _ \<Rightarrow> op \<in> {ValuePrim PDataPeek, ArrayPrim PArrayPeek}
      | _ \<Rightarrow> False)"

definition projection_borrows :: "cexpr \<Rightarrow> local_id list" where
  "projection_borrows e =
     (case ce_kind e of
        KPrim op args \<Rightarrow>
          (if op \<in> {ValuePrim PDataPeek, ArrayPrim PArrayPeek} then List.map_filter local_of args else [])
      | KDataTag base _ \<Rightarrow> List.map_filter local_of [base]
      | KDataField base index _ _ \<Rightarrow> List.map_filter local_of [base] @ List.map_filter evidence_of [index]
      | _ \<Rightarrow> [])"

text \<open>
  The operands an operation consumes, the ones to duplicate before it (a borrowed slot, a local that
  lives on, a local consumed again by a later operand), and the lent ones to drop after it.
\<close>

fun consumed_locals :: "(bool \<times> cexpr) list \<Rightarrow> local_id list" where
  "consumed_locals [] = []"
| "consumed_locals ((flag, a) # fas) =
     (case (if flag then None else local_of a) of
        Some x \<Rightarrow> x # consumed_locals fas | None \<Rightarrow> consumed_locals fas)"

fun operand_dups :: "local_id set \<Rightarrow> local_id set \<Rightarrow> (bool \<times> cexpr) list \<Rightarrow> local_id list" where
  "operand_dups cs live [] = []"
| "operand_dups cs live ((flag, a) # fas) =
     (case (if flag then None else local_of a) of
        Some x \<Rightarrow>
          (if x \<in> cs \<or> x \<in> live \<or> x \<in> set (consumed_locals fas) then x # operand_dups cs live fas
           else operand_dups cs live fas)
      | None \<Rightarrow> operand_dups cs live fas)"

definition dead_step ::
  "local_id set \<Rightarrow> local_id set \<Rightarrow> local_id set \<Rightarrow> bool \<times> cexpr \<Rightarrow> local_id list \<Rightarrow> local_id list" where
  "dead_step cs live consumed fa dead =
     (case (if fst fa then local_of (snd fa) else None) of
        Some x \<Rightarrow> (if x \<notin> cs \<and> x \<notin> live \<and> x \<notin> consumed \<and> x \<notin> set dead then dead @ [x] else dead)
      | None \<Rightarrow> dead)"

definition dead_operands :: "local_id set \<Rightarrow> local_id set \<Rightarrow> (bool \<times> cexpr) list \<Rightarrow> local_id list" where
  "dead_operands cs live fas = fold (dead_step cs live (set (consumed_locals fas))) fas []"

text \<open>A borrowed operand that is no local is bound to a fresh one first.\<close>

fun bind_lent :: "(bool \<times> cexpr) list \<Rightarrow> binds \<Rightarrow> nat \<Rightarrow> (bool \<times> cexpr) list \<times> binds \<times> nat" where
  "bind_lent [] pre n = ([], pre, n)"
| "bind_lent ((flag, a) # fas) pre n =
     (if flag \<and> \<not> is_local a
      then (let (fas, pre, m) = bind_lent fas (pre @ [(n, a)]) (n + 1) in ((flag, CExpr (KLocal n) (ce_ty a)) # fas, pre, m))
      else (let (fas, pre, m) = bind_lent fas pre n in ((flag, a) # fas, pre, m)))"

definition drop_after :: "local_id list \<Rightarrow> cexpr \<Rightarrow> nat \<Rightarrow> cexpr \<times> nat" where
  "drop_after dead e n =
     (if dead = [] then (e, n)
      else (CExpr (KLet n e (dropify dead (CExpr (KLocal n) (ce_ty e)))) (ce_ty e), n + 1))"

definition operands_rc ::
  "rc_env \<Rightarrow> cexpr list \<Rightarrow> bool list \<Rightarrow> local_id set \<Rightarrow> (cexpr list \<Rightarrow> cexpr) \<Rightarrow> nat \<Rightarrow> cexpr \<times> nat" where
  "operands_rc env operands borrows live rebuild n =
     (let (fas, pre, n) = bind_lent (with_flags borrows operands) [] n;
          dups = operand_dups (re_captures env) live fas;
          dead = dead_operands (re_captures env) live fas;
          (e, n) = drop_after dead (rebuild (map snd fas)) n
      in (wrap_binds pre (foldr dup_op dups e), n))"

definition dead_borrows :: "rc_env \<Rightarrow> local_id list \<Rightarrow> local_id set \<Rightarrow> local_id list" where
  "dead_borrows env borrows live = filter (\<lambda>b. b \<notin> re_captures env \<and> b \<notin> live) borrows"

definition borrow_tail :: "rc_env \<Rightarrow> cexpr \<Rightarrow> local_id list \<Rightarrow> local_id set \<Rightarrow> nat \<Rightarrow> cexpr \<times> nat" where
  "borrow_tail env proj borrows live n = drop_after (dead_borrows env borrows live) proj n"

fun closure_dups :: "local_id set \<Rightarrow> local_id set \<Rightarrow> local_id list \<Rightarrow> local_id list" where
  "closure_dups cs live [] = []"
| "closure_dups cs live (x # xs) =
     (if x \<in> cs \<or> x \<in> live \<or> x \<in> set xs then x # closure_dups cs live xs else closure_dups cs live xs)"

text \<open>The arguments of the value of a multi-result binding that are counted in place.\<close>

definition many_operands :: "rc_env \<Rightarrow> cexpr \<Rightarrow> (bool \<times> cexpr) list option" where
  "many_operands env value =
     (case ce_kind value of
        KApp func args _ _ \<Rightarrow> Some (with_flags (call_flags (re_call_borrows env) func (length args)) args)
      | KPrim op args \<Rightarrow>
          (if native_result_symbol op False \<noteq> None then Some (with_flags (prim_borrows op args) args) else None)
      | _ \<Rightarrow> None)"

function rc_owned :: "rc_env \<Rightarrow> cexpr \<Rightarrow> local_id set \<Rightarrow> nat \<Rightarrow> (cexpr \<times> nat) option" where
  "rc_owned env (CExpr (KLit l) t) live n = Some (CExpr (KLit l) t, n)"
| "rc_owned env (CExpr (KGlobal d) t) live n = Some (CExpr (KGlobal d) t, n)"
| "rc_owned env (CExpr KError t) live n = Some (CExpr KError t, n)"
| "rc_owned env (CExpr (KLocal x) t) live n =
     (let used = CExpr (KLocal x) t
      in Some (if x \<in> re_captures env \<or> x \<in> live then dup_op x used else used, n))"
| "rc_owned env (CExpr (KPrim op args) t) live n =
     Some (operands_rc env args (prim_borrows op args) live (\<lambda>args. CExpr (KPrim op args) t) n)"
| "rc_owned env (CExpr (KForeign s args m) t) live n =
     Some (operands_rc env args (replicate (length args) False) live (\<lambda>args. CExpr (KForeign s args m) t) n)"
| "rc_owned env (CExpr (KMakeData tag args reuse sc ni) t) live n =
     Some (operands_rc env args (replicate (length args) False) live (\<lambda>args. CExpr (KMakeData tag args reuse sc ni) t) n)"
| "rc_owned env (CExpr (KSpread args) t) live n =
     Some (operands_rc env args (replicate (length args) False) live (\<lambda>args. CExpr (KSpread args) t) n)"
| "rc_owned env (CExpr (KLetMany xs value body) t) live n =
     (let fvb = fv_owned body (re_captures env);
          live_after = (fvb - set xs) \<union> live
      in case rc_owned env body live n of
           None \<Rightarrow> None
         | Some (body2, n) \<Rightarrow>
             (let body2 = dropify (filter (\<lambda>x. x \<notin> fvb) xs) body2
              in case many_operands env value of
                   None \<Rightarrow>
                     (case rc_owned env value live_after n of
                        None \<Rightarrow> None
                      | Some (value2, n) \<Rightarrow> Some (CExpr (KLetMany xs value2 body2) t, n))
                 | Some fas \<Rightarrow>
                     (let dups = operand_dups (re_captures env) live_after fas;
                          inner = dropify (dead_operands (re_captures env) live_after fas) body2
                      in Some (foldr dup_op dups (CExpr (KLetMany xs value inner) t), n))))"
| "rc_owned env (CExpr (KApp func args reuse alloc) t) live n =
     (let borrows = (case ce_kind func of
                       KGlobal d \<Rightarrow> re_call_borrows env d (length args)
                     | _ \<Rightarrow> replicate (length args) False)
      in Some (operands_rc env (func # args) (False # borrows) live
           (\<lambda>ops. CExpr (KApp (hd ops) (tl ops) reuse alloc) t) n))"
| "rc_owned env (CExpr (KMakeClosure f xs alloc) t) live n =
     Some (foldr dup_op (closure_dups (re_captures env) live xs) (CExpr (KMakeClosure f xs alloc) t), n)"
| "rc_owned env (CExpr (KDataField base index sc ni) t) live n =
     (let proj = CExpr (KDataField base index sc ni) t
      in Some (borrow_tail env proj (projection_borrows proj) live n))"
| "rc_owned env (CExpr (KDataTag base ni) t) live n =
     (let proj = CExpr (KDataTag base ni) t
      in Some (borrow_tail env proj (projection_borrows proj) live n))"
| "rc_owned env (CExpr (KIf cond a b) t) live n =
     (let fvt = fv_owned a (re_captures env);
          fve = fv_owned b (re_captures env);
          branch_in = live \<union> fvt \<union> fve
      in case rc_owned env a live n of
           None \<Rightarrow> None
         | Some (a2, n) \<Rightarrow>
             (case rc_owned env b live n of
                None \<Rightarrow> None
              | Some (b2, n) \<Rightarrow>
                  (let a2 = dropify (sorted_list_of_set (branch_in - fvt - live)) a2;
                       b2 = dropify (sorted_list_of_set (branch_in - fve - live)) b2;
                       if_expr = CExpr (KIf cond a2 b2) t
                   in Some ((case local_of cond of
                               Some c \<Rightarrow> (if c \<in> re_captures env \<or> c \<in> branch_in then dup_op c if_expr else if_expr)
                             | None \<Rightarrow> if_expr), n))))"
| "rc_owned env (CExpr (KLet x value body) t) live n =
     (let fvb = fv_owned body (re_captures env);
          live_value = (fvb - {x}) \<union> live
      in case rc_owned env body live n of
           None \<Rightarrow> None
         | Some (body2, n) \<Rightarrow>
             (let body2 = (if x \<notin> fvb \<and> x \<notin> re_captures env then drop_op x body2 else body2)
              in if is_projection value
                 then (let dead = dead_borrows env (projection_borrows value) live_value
                       in Some (CExpr (KLet x value (dropify dead body2)) t, n))
                 else (case rc_owned env value live_value n of
                         None \<Rightarrow> None
                       | Some (value2, n) \<Rightarrow> Some (CExpr (KLet x value2 body2) t, n))))"
| "rc_owned env (CExpr (KReset value token body) t) live n =
     (case rc_owned env body live n of None \<Rightarrow> None | Some (body, n) \<Rightarrow> Some (CExpr (KReset value token body) t, n))"
| "rc_owned env (CExpr (KFreeReuse token body) t) live n =
     (case rc_owned env body live n of None \<Rightarrow> None | Some (body, n) \<Rightarrow> Some (CExpr (KFreeReuse token body) t, n))"
| "rc_owned env (CExpr (KDup x body) t) live n =
     (case rc_owned env body live n of None \<Rightarrow> None | Some (body, n) \<Rightarrow> Some (dup_op x body, n))"
| "rc_owned env (CExpr (KDrop x body) t) live n =
     (case rc_owned env body live n of None \<Rightarrow> None | Some (body, n) \<Rightarrow> Some (drop_op x body, n))"
| "rc_owned env (CExpr (KJoin _ _) t) live n = None"
| "rc_owned env (CExpr (KRecur _) t) live n = None"
| "rc_owned env (CExpr (KHoleStart _ _) t) live n = None"
| "rc_owned env (CExpr (KHoleFill _ _ _) t) live n = None"
| "rc_owned env (CExpr (KHoleClose _ _) t) live n = None"
  by pat_completeness auto
termination
  by (relation "measure (\<lambda>(env, e, live, n). size e)") auto

text \<open>Parameters the body never mentions are dropped at entry.\<close>

definition drop_unused :: "local_id list \<Rightarrow> local_id set \<Rightarrow> local_id set \<Rightarrow> cexpr \<Rightarrow> cexpr" where
  "drop_unused params used borrowed body =
     foldr (\<lambda>p e. if p \<notin> used \<and> p \<notin> borrowed then drop_op p e else e) params body"

text \<open>
  The insertion for one function: normalize, count, drop the unused parameters. The rewrites that
  \<^verbatim>\<open>rc_lowered\<close> runs between these steps are other components.
\<close>

definition insert_rc :: "rc_env \<Rightarrow> local_id list \<Rightarrow> cexpr \<Rightarrow> nat \<Rightarrow> (cexpr \<times> nat) option" where
  "insert_rc env params body n =
     (case anf body n of
        None \<Rightarrow> None
      | Some (body, n) \<Rightarrow>
          (case rc_owned env body {} n of
             None \<Rightarrow> None
           | Some (e, n) \<Rightarrow> Some (drop_unused params (fv_owned body (re_captures env)) (re_captures env) e, n)))"

text \<open>
  The loop of \<^verbatim>\<open>rc_lowered\<close> over the functions of a definition: the fresh-slot counter runs through
  all of them, captures are lent to every function and the signature's parameters to the entry.
\<close>

definition fn_env :: "arg_borrows \<Rightarrow> (nat \<Rightarrow> bool) \<Rightarrow> core_fn \<Rightarrow> rc_env" where
  "fn_env ab lent f = \<lparr>re_captures = lent_locals lent f, re_call_borrows = ab\<rparr>"

fun insert_fns :: "arg_borrows \<Rightarrow> lowered_def \<Rightarrow> nat \<Rightarrow> core_fn list \<Rightarrow> nat \<Rightarrow> core_fn list option" where
  "insert_fns ab d i [] n = Some []"
| "insert_fns ab d i (f # fs) n =
     (case insert_rc (fn_env ab (fn_lends d i) f) (cf_params f) (cf_body f) n of
        None \<Rightarrow> None
      | Some (body, n) \<Rightarrow>
          (case insert_fns ab d (i + 1) fs n of None \<Rightarrow> None | Some fs \<Rightarrow> Some (f\<lparr>cf_body := body\<rparr> # fs)))"

definition insert_def :: "arg_borrows \<Rightarrow> lowered_def \<Rightarrow> bool list \<Rightarrow> lowered_def option" where
  "insert_def ab d self_sig =
     (case insert_fns ab (d\<lparr>ld_entry_borrowed := self_sig\<rparr>) 0 (ld_fns d) (next_free_local d) of
        None \<Rightarrow> None
      | Some fs \<Rightarrow> Some \<lparr>ld_def = ld_def d, ld_fns = fs, ld_entry_borrowed = self_sig,
                           ld_reuse_entry = None, ld_entry_spread_params = []\<rparr>)"

end
