(* ===== verification/Fai_Counting.thy ===== *)
theory Fai_Counting
  imports Fai_Insertion
begin

text \<open>
  Reference-count insertion is exact: what it produces is accepted by the ownership checker, so every
  run of it uses references soundly.
\<close>

section \<open>What the insertion expects\<close>

text \<open>No operation lends and consumes the same local.\<close>

definition lent_operands :: "(bool \<times> cexpr) list \<Rightarrow> local_id set" where
  "lent_operands fas = {x. \<exists>a. (True, a) \<in> set fas \<and> local_of a = Some x}"

definition unmixed_operands :: "(bool \<times> cexpr) list \<Rightarrow> bool" where
  "unmixed_operands fas \<longleftrightarrow> lent_operands fas \<inter> set (consumed_locals fas) = {}"

fun unmixed :: "rc_env \<Rightarrow> cexpr \<Rightarrow> bool" where
  "unmixed env (CExpr (KPrim op args) _) \<longleftrightarrow> unmixed_operands (with_flags (prim_borrows op args) args)"
| "unmixed env (CExpr (KApp func args _ _) _) \<longleftrightarrow>
     unmixed_operands (with_flags (False # call_flags (re_call_borrows env) func (length args)) (func # args))"
| "unmixed env (CExpr (KIf c a b) _) \<longleftrightarrow> unmixed env a \<and> unmixed env b"
| "unmixed env (CExpr (KLet _ value body) _) \<longleftrightarrow> unmixed env value \<and> unmixed env body"
| "unmixed env (CExpr (KLetMany _ value body) _) \<longleftrightarrow> unmixed env value \<and> unmixed env body"
| "unmixed env _ \<longleftrightarrow> True"

text \<open>
  A-normal form over the owned locals in scope: operands are atoms, projections read a local, no name
  is bound twice in nested scopes, and none of the forms that later passes introduce occurs.
\<close>

fun normal :: "local_id set \<Rightarrow> local_id set \<Rightarrow> cexpr \<Rightarrow> bool" where
  "normal cs D (CExpr (KLit _) _) \<longleftrightarrow> True"
| "normal cs D (CExpr (KGlobal _) _) \<longleftrightarrow> True"
| "normal cs D (CExpr KError _) \<longleftrightarrow> True"
| "normal cs D (CExpr (KLocal x) _) \<longleftrightarrow> x \<in> D \<union> cs"
| "normal cs D (CExpr (KPrim op args) _) \<longleftrightarrow>
     op \<notin> {ArrayPrim PArrayPeek, ValuePrim PDataPeek} \<and> (\<forall>a \<in> set args. is_atom a \<and> normal cs D a)"
| "normal cs D (CExpr (KForeign _ args _) _) \<longleftrightarrow> (\<forall>a \<in> set args. is_atom a \<and> normal cs D a)"
| "normal cs D (CExpr (KMakeData _ args reuse _ _) _) \<longleftrightarrow> reuse = None \<and> (\<forall>a \<in> set args. is_atom a \<and> normal cs D a)"
| "normal cs D (CExpr (KSpread args) _) \<longleftrightarrow> (\<forall>a \<in> set args. is_atom a \<and> normal cs D a)"
| "normal cs D (CExpr (KApp func args reuse _) _) \<longleftrightarrow>
     reuse = [] \<and> is_atom func \<and> normal cs D func \<and> (\<forall>a \<in> set args. is_atom a \<and> normal cs D a)"
| "normal cs D (CExpr (KMakeClosure _ xs _) _) \<longleftrightarrow> set xs \<subseteq> D \<union> cs"
| "normal cs D (CExpr (KDataTag base _) _) \<longleftrightarrow> is_local base \<and> normal cs D base"
| "normal cs D (CExpr (KDataField base index _ _) _) \<longleftrightarrow>
     is_local base \<and> normal cs D base \<and> (\<forall>x. evidence_of index = Some x \<longrightarrow> x \<in> D \<union> cs)"
| "normal cs D (CExpr (KIf c a b) _) \<longleftrightarrow> is_atom c \<and> normal cs D c \<and> normal cs D a \<and> normal cs D b"
| "normal cs D (CExpr (KLet x value body) _) \<longleftrightarrow>
     x \<notin> D \<union> cs \<and> normal cs D value \<and> normal cs (insert x D) body"
| "normal cs D (CExpr (KLetMany xs value body) _) \<longleftrightarrow>
     distinct xs \<and> set xs \<inter> (D \<union> cs) = {} \<and> normal cs D value \<and> normal cs (set xs \<union> D) body \<and>
     (case ce_kind value of KApp func _ _ _ \<Rightarrow> (case ce_kind func of KGlobal _ \<Rightarrow> True | _ \<Rightarrow> False) | _ \<Rightarrow> True)"
| "normal cs D _ \<longleftrightarrow> False"

section \<open>Counts\<close>

definition spend :: "local_id set \<Rightarrow> refs \<Rightarrow> refs" where
  "spend A R = fmmap_keys (\<lambda>x n. if x \<in> A then 0 else n) R"

definition adjust :: "(local_id \<Rightarrow> int) \<Rightarrow> refs \<Rightarrow> refs" where
  "adjust d R = fmmap_keys (\<lambda>x n. n + d x) R"

lemma spend_lookup [simp]: "fmlookup (spend A R) x = map_option (\<lambda>n. if x \<in> A then 0 else n) (fmlookup R x)"
  by (simp add: spend_def)

lemma adjust_lookup [simp]: "fmlookup (adjust d R) x = map_option (\<lambda>n. n + d x) (fmlookup R x)"
  by (simp add: adjust_def)

definition plain :: "checker \<Rightarrow> rc_env \<Rightarrow> bool" where
  "plain ck env \<longleftrightarrow> ck_captures ck = re_captures env \<and> ck_arg_borrows ck = re_call_borrows env \<and> ck_projections ck = fmempty"

lemma plainD [simp]:
  assumes "plain ck env"
  shows "ck_captures ck = re_captures env" "ck_arg_borrows ck = re_call_borrows env" "ck_projections ck = fmempty"
  using assms by (simp_all add: plain_def)

lemma consume_captured: "plain ck env \<Longrightarrow> x \<in> re_captures env \<Longrightarrow> consume ck x R = Inr R"
  by (simp add: consume_def owned_by_def)

lemma consume_held:
  "plain ck env \<Longrightarrow> x \<notin> re_captures env \<Longrightarrow> fmlookup R x = Some n \<Longrightarrow> 1 \<le> n \<Longrightarrow> consume ck x R = Inr (fmupd x (n - 1) R)"
  by (simp add: consume_def owned_by_def)

lemma borrow_captured: "plain ck env \<Longrightarrow> x \<in> re_captures env \<Longrightarrow> borrow ck x R = Inr R"
  by (simp add: borrow_def borrow_chain.simps owned_by_def)

lemma borrow_held: "plain ck env \<Longrightarrow> fmlookup R x = Some n \<Longrightarrow> 1 \<le> n \<Longrightarrow> borrow ck x R = Inr R"
  by (simp add: borrow_def borrow_chain.simps)

lemma acquire_captured: "plain ck env \<Longrightarrow> x \<in> re_captures env \<Longrightarrow> acquire ck x R = Inr R"
  by (simp add: acquire_def owned_by_def)

lemma acquire_held:
  "plain ck env \<Longrightarrow> x \<notin> re_captures env \<Longrightarrow> fmlookup R x = Some n \<Longrightarrow> 1 \<le> n \<Longrightarrow> acquire ck x R = Inr (fmupd x (n + 1) R)"
  by (simp add: acquire_def owned_by_def)

text \<open>A sequence of duplications, and a sequence of drops.\<close>

lemma eval_dup_op [simp]: "eval ck (dup_op x e) R = and_then (acquire ck x R) (eval ck e)"
  by (simp add: dup_op_def)

lemma eval_drop_op [simp]:
  "plain ck env \<Longrightarrow> x \<notin> re_captures env \<Longrightarrow> eval ck (drop_op x e) R = and_then (consume ck x R) (eval ck e)"
  by (simp add: drop_op_def owned_by_def)

lemma eval_dups:
  assumes "plain ck env" "\<And>x. x \<in> set dups \<Longrightarrow> x \<notin> re_captures env \<Longrightarrow> \<exists>n. fmlookup R x = Some n \<and> 1 \<le> n"
    "\<And>x. x \<in> re_captures env \<Longrightarrow> fmlookup R x = None"
  shows "eval ck (foldr dup_op dups e) R = eval ck e (adjust (\<lambda>x. int (count_list dups x)) R)"
  using assms(2,3)
proof (induction dups arbitrary: R)
  case Nil
  have "adjust (\<lambda>x. 0) R = R" by (rule fmap_ext) (simp add: option.map_ident)
  then show ?case by simp
next
  case (Cons y ys)
  show ?case
  proof (cases "y \<in> re_captures env")
    case True
    then have "adjust (\<lambda>x. int (count_list (y # ys) x)) R = adjust (\<lambda>x. int (count_list ys x)) R"
      using Cons.prems(2) by (intro fmap_ext) auto
    with True Cons show ?thesis by (simp add: acquire_captured [OF assms(1)])
  next
    case False
    with Cons.prems(1) obtain n where n: "fmlookup R y = Some n" "1 \<le> n" by auto
    have "eval ck (foldr dup_op ys e) (fmupd y (n + 1) R) = eval ck e (adjust (\<lambda>x. int (count_list ys x)) (fmupd y (n + 1) R))"
      by (rule Cons.IH) (use Cons.prems n False in auto)
    moreover have "adjust (\<lambda>x. int (count_list ys x)) (fmupd y (n + 1) R) = adjust (\<lambda>x. int (count_list (y # ys) x)) R"
      using n by (intro fmap_ext) auto
    ultimately show ?thesis using n False by (simp add: acquire_held [OF assms(1)])
  qed
qed

lemma eval_drops:
  assumes "plain ck env" "distinct ds" "\<And>x. x \<in> set ds \<Longrightarrow> x \<notin> re_captures env \<and> fmlookup R x = Some 1"
  shows "eval ck (foldr drop_op ds e) R = eval ck e (spend (set ds) R)"
  using assms(2,3)
proof (induction ds arbitrary: R)
  case Nil
  have "spend {} R = R" by (rule fmap_ext) (simp add: option.map_ident)
  then show ?case by simp
next
  case (Cons y ys)
  then have y: "y \<notin> re_captures env" "fmlookup R y = Some 1" by simp_all
  have "eval ck (foldr drop_op ys e) (fmupd y 0 R) = eval ck e (spend (set ys) (fmupd y 0 R))"
    by (rule Cons.IH) (use Cons.prems in auto)
  moreover have "spend (set ys) (fmupd y 0 R) = spend (set (y # ys)) R"
    using y by (intro fmap_ext) auto
  ultimately show ?case
    using y consume_held [OF assms(1) y] assms(1) by simp
qed

lemma distinct_remdups_adj_sorted: "sorted xs \<Longrightarrow> distinct (remdups_adj (xs :: nat list))"
  by (induction xs rule: remdups_adj.induct) auto

lemma eval_dropify:
  assumes "plain ck env" "\<And>x. x \<in> set ds \<Longrightarrow> x \<notin> re_captures env \<and> fmlookup R x = Some 1"
  shows "eval ck (dropify ds e) R = eval ck e (spend (set ds) R)"
  unfolding dropify_def using eval_drops [OF assms(1), of "remdups_adj (sort ds)" R e] assms(2)
  by (simp add: distinct_remdups_adj_sorted)

section \<open>Operands\<close>

definition operand_step :: "checker \<Rightarrow> bool \<times> cexpr \<Rightarrow> refs \<Rightarrow> rc_error + refs" where
  "operand_step ck fa R =
     (case (if fst fa then local_of (snd fa) else None) of Some x \<Rightarrow> borrow ck x R | None \<Rightarrow> eval ck (snd fa) R)"

lemma operand_step_eq:
  "(\<lambda>(flag, a) refs. case (if flag then local_of a else None) of Some x \<Rightarrow> borrow ck x refs | None \<Rightarrow> eval ck a refs) = operand_step ck"
  unfolding operand_step_def fun_eq_iff by (simp split: option.splits prod.splits)

lemma eval_atom:
  "is_atom a \<Longrightarrow> eval ck a R = (case local_of a of Some x \<Rightarrow> consume ck x R | None \<Rightarrow> Inr R)"
  by (cases a) (auto simp: is_atom_def local_of_def split: expr_kind.splits)

text \<open>
  Enough references for a list of operands: one for every consuming use, and for the lent locals,
  which are not consumed, one that stays.
\<close>

definition enough :: "rc_env \<Rightarrow> (bool \<times> cexpr) list \<Rightarrow> refs \<Rightarrow> bool" where
  "enough env fas R \<longleftrightarrow>
     (\<forall>x. x \<in> re_captures env \<longrightarrow> fmlookup R x = None) \<and>
     (\<forall>x \<in> set (consumed_locals fas) - re_captures env. \<exists>n. fmlookup R x = Some n \<and> int (count_list (consumed_locals fas) x) \<le> n) \<and>
     (\<forall>x \<in> lent_operands fas - re_captures env. \<exists>n. fmlookup R x = Some n \<and> 1 \<le> n) \<and>
     (\<forall>a \<in> snd ` set fas. is_atom a) \<and> unmixed_operands fas"

lemma lent_operands_simps [simp]:
  "lent_operands [] = {}"
  "lent_operands ((flag, a) # fas) = (case (if flag then local_of a else None) of None \<Rightarrow> {} | Some x \<Rightarrow> {x}) \<union> lent_operands fas"
  by (auto simp: lent_operands_def split: option.splits)

lemma eval_operands:
  assumes "plain ck env" "enough env fas R"
  shows "try_fold (operand_step ck) fas R = Inr (adjust (\<lambda>x. - int (count_list (consumed_locals fas) x)) R)"
  using assms(2)
proof (induction fas arbitrary: R)
  case Nil
  have "adjust (\<lambda>x. 0) R = R" by (rule fmap_ext) (simp add: option.map_ident)
  then show ?case by simp
next
  case (Cons fa fas)
  obtain flag a where fa: "fa = (flag, a)" by (cases fa)
  have atom: "is_atom a" using Cons.prems by (simp add: enough_def fa)
  show ?case
  proof (cases "if flag then None else local_of a")
    case None
    then have same: "consumed_locals (fa # fas) = consumed_locals fas" by (simp add: fa)
    have "operand_step ck fa R = Inr R"
    proof (cases "if flag then local_of a else None")
      case None
      with \<open>(if flag then None else local_of a) = None\<close> show ?thesis
        by (auto simp: operand_step_def fa eval_atom [OF atom] split: if_splits)
    next
      case (Some x)
      then have "x \<in> re_captures env \<or> (\<exists>n. fmlookup R x = Some n \<and> 1 \<le> n)"
        using Cons.prems by (auto simp: enough_def fa)
      with Some show ?thesis
        by (auto simp: operand_step_def fa borrow_captured [OF assms(1)] borrow_held [OF assms(1)])
    qed
    moreover have "enough env fas R" using Cons.prems same by (auto simp: enough_def fa unmixed_operands_def split: option.splits)
    ultimately show ?thesis using Cons.IH [of R] same by simp
  next
    case (Some x)
    then have flag: "\<not> flag" "local_of a = Some x" by (auto split: if_splits)
    then have more: "consumed_locals (fa # fas) = x # consumed_locals fas" by (simp add: fa)
    have step: "operand_step ck fa R = consume ck x R" using flag by (simp add: operand_step_def fa eval_atom [OF atom])
    show ?thesis
    proof (cases "x \<in> re_captures env")
      case True
      have "enough env fas R" using Cons.prems more flag True
        by (auto simp: enough_def fa unmixed_operands_def split: if_splits)
      moreover have "adjust (\<lambda>y. - int (count_list (consumed_locals fas) y)) R = adjust (\<lambda>y. - int (count_list (consumed_locals (fa # fas)) y)) R"
        using Cons.prems True by (intro fmap_ext) (auto simp: more enough_def)
      ultimately show ?thesis using Cons.IH [of R] step True by (simp add: consume_captured [OF assms(1)])
    next
      case False
      with Cons.prems more obtain n where n: "fmlookup R x = Some n" "int (count_list (consumed_locals fas) x) + 1 \<le> n"
        unfolding enough_def by fastforce
      have "enough env fas (fmupd x (n - 1) R)"
        using Cons.prems more flag n False by (auto simp: enough_def fa unmixed_operands_def split: if_splits)
      moreover have "adjust (\<lambda>y. - int (count_list (consumed_locals fas) y)) (fmupd x (n - 1) R)
          = adjust (\<lambda>y. - int (count_list (consumed_locals (fa # fas)) y)) R"
        using n by (intro fmap_ext) (auto simp: more)
      ultimately show ?thesis using Cons.IH [of "fmupd x (n - 1) R"] step n False
        by (simp add: consume_held [OF assms(1)])
    qed
  qed
qed

lemma set_operand_dups: "set (operand_dups cs live fas) \<subseteq> set (consumed_locals fas)"
  by (induction cs live fas rule: operand_dups.induct) (auto split: option.splits if_splits)

lemma operand_dups_count:
  "x \<notin> cs \<Longrightarrow> int (count_list (operand_dups cs live fas) x) =
     (if x \<in> set (consumed_locals fas) then int (count_list (consumed_locals fas) x) - 1 + (if x \<in> live then 1 else 0) else 0)"
proof (induction fas)
  case (Cons fa fas)
  obtain flag a where fa: "fa = (flag, a)" by (cases fa)
  have none: "count_list (operand_dups cs live fas) x = 0" "count_list (consumed_locals fas) x = 0" if "x \<notin> set (consumed_locals fas)"
    using that set_operand_dups [of cs live fas] by (auto simp: count_list_0_iff)
  show ?case
  proof (cases "if flag then None else local_of a")
    case (Some y)
    then show ?thesis using Cons none by (auto simp: fa)
  qed (use Cons in \<open>simp add: fa\<close>)
qed simp

lemma set_dead_operands:
  "set (dead_operands cs live fas) = lent_operands fas - cs - live - set (consumed_locals fas)"
proof -
  have "set (fold (dead_step cs live C) fas ds) = set ds \<union> (lent_operands fas - cs - live - C)" for C ds
    by (induction fas arbitrary: ds) (auto simp: dead_step_def split: option.splits if_splits)
  then show ?thesis by (simp add: dead_operands_def)
qed

section \<open>Free locals\<close>

lemma note_local_eq: "note_local cs bd x acc = acc \<union> ({x} - cs - bd)"
  by (auto simp: note_local_def)

lemma fold_union:
  assumes "\<And>a acc. a \<in> set xs \<Longrightarrow> f a acc = acc \<union> g a"
  shows "fold f xs acc = acc \<union> (\<Union>a \<in> set xs. g a)"
  using assms by (induction xs arbitrary: acc) auto

fun free_locals :: "cexpr \<Rightarrow> local_id set" where
  "free_locals (CExpr (KLit _) _) = {}"
| "free_locals (CExpr (KGlobal _) _) = {}"
| "free_locals (CExpr KError _) = {}"
| "free_locals (CExpr (KLocal x) _) = {x}"
| "free_locals (CExpr (KMakeClosure _ xs _) _) = set xs"
| "free_locals (CExpr (KPrim _ args) _) = (\<Union>a \<in> set args. free_locals a)"
| "free_locals (CExpr (KForeign _ args _) _) = (\<Union>a \<in> set args. free_locals a)"
| "free_locals (CExpr (KMakeData _ args _ _ _) _) = (\<Union>a \<in> set args. free_locals a)"
| "free_locals (CExpr (KApp func args _ _) _) = free_locals func \<union> (\<Union>a \<in> set args. free_locals a)"
| "free_locals (CExpr (KSpread args) _) = (\<Union>a \<in> set args. free_locals a)"
| "free_locals (CExpr (KDataTag base _) _) = free_locals base"
| "free_locals (CExpr (KDataField base index _ _) _) = free_locals base \<union> set_option (evidence_of index)"
| "free_locals (CExpr (KIf c a b) _) = free_locals c \<union> free_locals a \<union> free_locals b"
| "free_locals (CExpr (KLet x value body) _) = free_locals value \<union> (free_locals body - {x})"
| "free_locals (CExpr (KLetMany xs value body) _) = free_locals value \<union> (free_locals body - set xs)"
| "free_locals (CExpr (KReset value x body) _) = free_locals value \<union> (free_locals body - {x})"
| "free_locals (CExpr (KFreeReuse x body) _) = insert x (free_locals body)"
| "free_locals (CExpr (KDup x body) _) = insert x (free_locals body)"
| "free_locals (CExpr (KDrop x body) _) = insert x (free_locals body)"
| "free_locals (CExpr (KJoin params body) _) = free_locals body - set params"
| "free_locals (CExpr (KRecur args) _) = (\<Union>a \<in> set args. free_locals a)"
| "free_locals (CExpr (KHoleStart x body) _) = free_locals body - {x}"
| "free_locals (CExpr (KHoleFill x cell _) _) = insert x (free_locals cell)"
| "free_locals (CExpr (KHoleClose x base) _) = insert x (free_locals base)"

lemma collect_fv_eq: "collect_fv e cs bd acc = acc \<union> (free_locals e - cs - bd)"
proof (induction e arbitrary: bd acc rule: free_locals.induct)
  case (5 f xs al t)
  have "fold (note_local cs bd) xs acc = acc \<union> (\<Union>x \<in> set xs. {x} - cs - bd)"
    by (rule fold_union) (simp add: note_local_eq)
  then show ?case by auto
next
  case (6 op args t)
  then show ?case by (subst collect_fv.simps, subst fold_union [where g = "\<lambda>a. free_locals a - cs - bd"]) auto
next
  case (7 s args m t)
  then show ?case by (subst collect_fv.simps, subst fold_union [where g = "\<lambda>a. free_locals a - cs - bd"]) auto
next
  case (8 tag args re sc ni t)
  then show ?case by (subst collect_fv.simps, subst fold_union [where g = "\<lambda>a. free_locals a - cs - bd"]) auto
next
  case (9 func args re al t)
  then show ?case by (subst collect_fv.simps, subst fold_union [where g = "\<lambda>a. free_locals a - cs - bd"]) auto
next
  case (10 args t)
  then show ?case by (subst collect_fv.simps, subst fold_union [where g = "\<lambda>a. free_locals a - cs - bd"]) auto
next
  case (21 args t)
  then show ?case by (subst collect_fv.simps, subst fold_union [where g = "\<lambda>a. free_locals a - cs - bd"]) auto
qed (auto simp: note_local_eq split: option.splits)

lemma fv_owned_eq: "fv_owned e cs = free_locals e - cs"
  by (simp add: fv_owned_def collect_fv_eq)

lemma is_local_atom: "is_local a \<Longrightarrow> is_atom a"
  by (auto simp: is_local_def local_of_def is_atom_def split: expr_kind.splits)

lemma local_ofD: "local_of a = Some x \<Longrightarrow> \<exists>t. a = CExpr (KLocal x) t"
  by (cases a) (auto simp: local_of_def split: expr_kind.splits)

lemma free_atom: "is_atom a \<Longrightarrow> free_locals a = set_option (local_of a)"
  by (cases a) (auto simp: is_atom_def local_of_def split: expr_kind.splits)

lemma normal_free: "normal cs D e \<Longrightarrow> free_locals e \<subseteq> D \<union> cs"
  by (induction cs D e rule: normal.induct) fastforce+

lemma operands_free:
  assumes "\<forall>a \<in> snd ` set fas. is_atom a"
  shows "(\<Union>a \<in> snd ` set fas. free_locals a) = set (consumed_locals fas) \<union> lent_operands fas"
  using assms
proof (induction fas)
  case (Cons fa fas)
  then show ?case by (cases fa) (auto simp: free_atom split: if_splits option.splits)
qed simp

lemma with_flags_args: "snd ` set (with_flags flags args) = set args"
proof -
  have "map snd (with_flags flags args) = args" by (simp add: with_flags_def)
  then show ?thesis by (metis set_map)
qed

section \<open>Counted operations\<close>

text \<open>
  The state in which an expression is counted: every local in scope has a count, captures have none,
  and the locals the expression or its continuation uses have exactly one reference.
\<close>

definition ready :: "rc_env \<Rightarrow> nat \<Rightarrow> local_id set \<Rightarrow> refs \<Rightarrow> bool" where
  "ready env n A R \<longleftrightarrow>
     (\<forall>x. x \<in> re_captures env \<longrightarrow> x < n \<and> fmlookup R x = None) \<and>
     (\<forall>x k. fmlookup R x = Some k \<longrightarrow> x < n) \<and>
     (\<forall>x \<in> A - re_captures env. fmlookup R x = Some 1)"

lemma readyD:
  assumes "ready env n A R"
  shows "x \<in> re_captures env \<Longrightarrow> fmlookup R x = None" "x \<in> A \<Longrightarrow> x \<notin> re_captures env \<Longrightarrow> fmlookup R x = Some 1"
    "n \<le> m \<Longrightarrow> m \<notin> re_captures env" "n \<le> m \<Longrightarrow> fmlookup R m = None"
proof -
  show "x \<in> re_captures env \<Longrightarrow> fmlookup R x = None" "x \<in> A \<Longrightarrow> x \<notin> re_captures env \<Longrightarrow> fmlookup R x = Some 1"
    "n \<le> m \<Longrightarrow> m \<notin> re_captures env" using assms unfolding ready_def by auto
  show "n \<le> m \<Longrightarrow> fmlookup R m = None" using assms unfolding ready_def by (cases "fmlookup R m") auto
qed

lemma ready_subset: "ready env n A R \<Longrightarrow> B \<subseteq> A \<union> re_captures env \<Longrightarrow> n \<le> m \<Longrightarrow> ready env m B R"
  unfolding ready_def by (meson Diff_iff UnE less_le_trans subsetD)

lemma ready_spend: "ready env n A R \<Longrightarrow> ready env n (A - B) (spend B R)"
  by (auto simp: ready_def)

lemma spend_empty [simp]: "spend {} R = R"
  by (rule fmap_ext) (simp add: option.map_ident)

lemma spend_spend [simp]: "spend A (spend B R) = spend (A \<union> B) R"
  by (rule fmap_ext) (auto simp: map_option_case split: option.splits)

lemma spend_cong: "(\<And>x k. fmlookup R x = Some k \<Longrightarrow> x \<in> A \<longleftrightarrow> x \<in> B) \<Longrightarrow> spend A R = spend B R"
  by (rule fmap_ext) (auto split: option.splits simp: map_option_case)

text \<open>A binding of an owned local.\<close>

lemma eval_let:
  assumes "eval ck v R = Inr R1" "peek_parent v = None" "fmlookup R1 x = None"
    "eval ck b (fmupd x 1 R1) = Inr R2" "lookup_count R2 x = 0"
  shows "eval ck (CExpr (KLet x v b) t) R = Inr (fmdrop x R2)"
proof -
  have "insert_new (Rebound (ck_fn_index ck) x) x 1 R1 = Inr (fmupd x 1 R1)" using assms(3) by simp
  moreover have "remove_spent (LetLeft (ck_fn_index ck) x) x R2 = Inr (fmdrop x R2)" using assms(5) by simp
  ultimately show ?thesis using assms(1,2,4) by simp
qed

lemma eval_drop_after:
  assumes ck: "plain ck env" and e: "eval ck e R = Inr R1" "peek_parent e = None"
    and n: "n \<notin> re_captures env" "fmlookup R1 n = None"
    and dead: "\<And>x. x \<in> set ds \<Longrightarrow> x \<notin> re_captures env \<and> fmlookup R1 x = Some 1"
  shows "eval ck (fst (drop_after ds e n)) R = Inr (spend (set ds) R1)"
proof (cases "ds = []")
  case True
  have "spend {} R1 = R1" by (rule fmap_ext) (simp add: option.map_ident)
  with True e show ?thesis by (simp add: drop_after_def)
next
  case False
  let ?t = "ce_ty e"
  have "eval ck (dropify ds (CExpr (KLocal n) ?t)) (fmupd n 1 R1) = eval ck (CExpr (KLocal n) ?t) (spend (set ds) (fmupd n 1 R1))"
    by (rule eval_dropify [OF ck]) (use dead n in auto)
  also have "\<dots> = Inr (fmupd n 0 (spend (set ds) (fmupd n 1 R1)))"
    using consume_held [OF ck n(1), of "spend (set ds) (fmupd n 1 R1)" 1] dead [of n] n(2) by (cases "n \<in> set ds") auto
  finally have b: "eval ck (dropify ds (CExpr (KLocal n) ?t)) (fmupd n 1 R1) = Inr (fmupd n 0 (spend (set ds) (fmupd n 1 R1)))" .
  have "fmdrop n (fmupd n 0 (spend (set ds) (fmupd n 1 R1))) = spend (set ds) R1"
    using n(2) by (intro fmap_ext) auto
  then show ?thesis
    using eval_let [OF e n(2) b] False by (simp add: drop_after_def lookup_count_def)
qed

lemma eval_dup_operands:
  assumes ck: "plain ck env" and ops: "\<forall>a \<in> snd ` set fas. is_atom a" "unmixed_operands fas"
    and R: "ready env n (set (consumed_locals fas) \<union> lent_operands fas \<union> live) R"
  obtains R1 where "\<And>e. eval ck (foldr dup_op (operand_dups (re_captures env) live fas) e) R = eval ck e R1"
    "try_fold (operand_step ck) fas R1 = Inr (spend (set (consumed_locals fas) - live) R)"
proof -
  let ?C = "set (consumed_locals fas)" and ?L = "lent_operands fas" and ?cs = "re_captures env"
  let ?dups = "operand_dups ?cs live fas"
  let ?R1 = "adjust (\<lambda>x. int (count_list ?dups x)) R"
  have cs: "\<And>x. x \<in> ?cs \<Longrightarrow> fmlookup R x = None" and one: "\<And>x. x \<in> ?C \<union> ?L \<union> live \<Longrightarrow> x \<notin> ?cs \<Longrightarrow> fmlookup R x = Some 1"
    using readyD [OF R] by blast+
  have dup: "eval ck (foldr dup_op ?dups e) R = eval ck e ?R1" for e
    by (rule eval_dups [OF ck]) (use set_operand_dups [of ?cs live fas] one cs in fastforce)+
  have "enough env fas ?R1"
    using cs one ops unfolding enough_def unmixed_operands_def by (auto simp: operand_dups_count disjoint_iff)
  then have "try_fold (operand_step ck) fas ?R1 = Inr (adjust (\<lambda>x. - int (count_list (consumed_locals fas) x)) ?R1)"
    by (rule eval_operands [OF ck])
  also have "adjust (\<lambda>x. - int (count_list (consumed_locals fas) x)) ?R1 = spend (?C - live) R"
  proof (rule fmap_ext)
    fix x
    show "fmlookup (adjust (\<lambda>x. - int (count_list (consumed_locals fas) x)) ?R1) x = fmlookup (spend (?C - live) R) x"
    proof (cases "fmlookup R x")
      case (Some k)
      then have "x \<notin> ?cs" using cs by auto
      with Some one [of x] show ?thesis by (auto simp: operand_dups_count count_list_0_iff)
    qed simp
  qed
  finally show thesis using dup that by blast
qed

lemma eval_counted:
  assumes ck: "plain ck env" and e: "\<And>R. eval ck e R = try_fold (operand_step ck) fas R" "peek_parent e = None"
    and ops: "\<forall>a \<in> snd ` set fas. is_atom a" "unmixed_operands fas"
    and R: "ready env n (set (consumed_locals fas) \<union> lent_operands fas \<union> live) R" and n: "n \<le> m"
  shows "eval ck (foldr dup_op (operand_dups (re_captures env) live fas)
       (fst (drop_after (dead_operands (re_captures env) live fas) e m))) R
     = Inr (spend (set (consumed_locals fas) \<union> lent_operands fas - live) R)"
proof -
  let ?C = "set (consumed_locals fas)" and ?L = "lent_operands fas" and ?cs = "re_captures env"
  let ?dead = "dead_operands ?cs live fas"
  from ck ops R obtain R1 where R1: "\<And>e. eval ck (foldr dup_op (operand_dups ?cs live fas) e) R = eval ck e R1"
    "try_fold (operand_step ck) fas R1 = Inr (spend (?C - live) R)" by (rule eval_dup_operands) blast
  have "eval ck (fst (drop_after ?dead e m)) R1 = Inr (spend (set ?dead) (spend (?C - live) R))"
  proof (rule eval_drop_after [OF ck])
    show "eval ck e R1 = Inr (spend (?C - live) R)" using e(1) R1(2) by simp
    fix x assume "x \<in> set ?dead"
    then have "x \<in> ?L" "x \<notin> ?cs" "x \<notin> live" "x \<notin> ?C" by (simp_all add: set_dead_operands)
    with readyD(2) [OF R, of x] show "x \<notin> ?cs \<and> fmlookup (spend (?C - live) R) x = Some 1" by simp
  qed (use e(2) readyD(3,4) [OF R n] in simp_all)
  also have "spend (set ?dead) (spend (?C - live) R) = spend (?C \<union> ?L - live) R"
    unfolding spend_spend by (rule spend_cong) (use readyD(1) [OF R] in \<open>auto simp: set_dead_operands\<close>)
  finally show ?thesis using R1(1) by simp
qed

text \<open>Lent operands that are no locals, bound before the operation.\<close>

definition bind_ones :: "local_id list \<Rightarrow> refs \<Rightarrow> refs" where
  "bind_ones xs R = fold (\<lambda>x. fmupd x 1) xs R"

lemma bind_ones_lookup [simp]: "fmlookup (bind_ones xs R) x = (if x \<in> set xs then Some 1 else fmlookup R x)"
  unfolding bind_ones_def by (induction xs arbitrary: R) auto

lemma eval_wrap_atoms:
  assumes "\<And>x a. (x, a) \<in> set pre \<Longrightarrow> is_atom a \<and> local_of a = None" "distinct (map fst pre)"
    "\<And>x. x \<in> fst ` set pre \<Longrightarrow> fmlookup R x = None"
    "eval ck e (bind_ones (map fst pre) R) = Inr R'" "\<And>x. x \<in> fst ` set pre \<Longrightarrow> lookup_count R' x = 0"
  shows "eval ck (wrap_binds pre e) R = Inr (fmdrop_set (fst ` set pre) R')"
  using assms
proof (induction pre arbitrary: R)
  case Nil
  then show ?case by (simp add: wrap_binds_def bind_ones_def)
next
  case (Cons p pre)
  obtain x a where p: "p = (x, a)" by (cases p)
  have a: "is_atom a" "local_of a = None" using Cons.prems(1) by (auto simp: p)
  then have v: "eval ck a R = Inr R" "peek_parent a = None"
    by (simp_all add: eval_atom) (cases a, auto simp: is_atom_def peek_parent_def split: expr_kind.splits)
  have new: "fmlookup R x = None" "x \<notin> fst ` set pre" using Cons.prems(2,3) by (auto simp: p)
  have b: "eval ck (wrap_binds pre e) (fmupd x 1 R) = Inr (fmdrop_set (fst ` set pre) R')"
  proof (rule Cons.IH)
    show "eval ck e (bind_ones (map fst pre) (fmupd x 1 R)) = Inr R'" using Cons.prems(4) by (simp add: bind_ones_def p)
  qed (use Cons.prems new in \<open>auto simp: p\<close>)
  have "lookup_count (fmdrop_set (fst ` set pre) R') x = 0" using Cons.prems(5) [of x] by (simp add: p lookup_count_def)
  from eval_let [OF v new(1) b this] show ?case
    by (simp add: wrap_binds_def p)
qed

lemma bind_lent_shape:
  assumes "bind_lent fas pre n = (fas', pre', m)" "\<forall>a \<in> snd ` set fas. is_atom a"
  shows "\<exists>new. pre' = pre @ new \<and> map fst new = [n..<m] \<and> n \<le> m
     \<and> (\<forall>(x, a) \<in> set new. is_atom a \<and> local_of a = None)
     \<and> map fst fas' = map fst fas \<and> map (\<lambda>fa. ce_ty (snd fa)) fas' = map (\<lambda>fa. ce_ty (snd fa)) fas
     \<and> (\<forall>a \<in> snd ` set fas'. is_atom a) \<and> consumed_locals fas' = consumed_locals fas
     \<and> lent_operands fas' = lent_operands fas \<union> {n..<m}
     \<and> filter (\<lambda>fa. \<not> fst fa) fas' = filter (\<lambda>fa. \<not> fst fa) fas"
  using assms
proof (induction fas arbitrary: pre n fas' pre' m)
  case (Cons fa fas)
  obtain flag a where fa: "fa = (flag, a)" by (cases fa)
  have atom: "is_atom a" "\<forall>a \<in> snd ` set fas. is_atom a" using Cons.prems(2) by (auto simp: fa)
  show ?case
  proof (cases "flag \<and> \<not> is_local a")
    case True
    then obtain fas1 where r: "bind_lent fas (pre @ [(n, a)]) (n + 1) = (fas1, pre', m)"
      "fas' = (flag, CExpr (KLocal n) (ce_ty a)) # fas1"
      using Cons.prems(1) by (auto simp: fa Let_def split: prod.splits)
    from Cons.IH [OF r(1) atom(2)] obtain new where new: "pre' = (pre @ [(n, a)]) @ new" "map fst new = [n + 1..<m]" "n + 1 \<le> m"
      "\<forall>(x, a) \<in> set new. is_atom a \<and> local_of a = None"
      "map fst fas1 = map fst fas" "map (\<lambda>fa. ce_ty (snd fa)) fas1 = map (\<lambda>fa. ce_ty (snd fa)) fas" "\<forall>a \<in> snd ` set fas1. is_atom a"
      "consumed_locals fas1 = consumed_locals fas" "lent_operands fas1 = lent_operands fas \<union> {n + 1..<m}"
      "filter (\<lambda>fa. \<not> fst fa) fas1 = filter (\<lambda>fa. \<not> fst fa) fas" by blast
    have "local_of a = None" using True by (simp add: is_local_def)
    with True new atom r(2) show ?thesis
      by (intro exI [of _ "(n, a) # new"])
        (auto simp: fa upt_conv_Cons is_atom_def [of "CExpr _ _"] local_of_def [of "CExpr _ _"])
  next
    case False
    then obtain fas1 where r: "bind_lent fas pre n = (fas1, pre', m)" "fas' = (flag, a) # fas1"
      using Cons.prems(1) by (auto simp: fa Let_def split: prod.splits)
    from Cons.IH [OF r(1) atom(2)] obtain new where "pre' = pre @ new" "map fst new = [n..<m]" "n \<le> m"
      "\<forall>(x, a) \<in> set new. is_atom a \<and> local_of a = None"
      "map fst fas1 = map fst fas" "map (\<lambda>fa. ce_ty (snd fa)) fas1 = map (\<lambda>fa. ce_ty (snd fa)) fas" "\<forall>a \<in> snd ` set fas1. is_atom a"
      "consumed_locals fas1 = consumed_locals fas" "lent_operands fas1 = lent_operands fas \<union> {n..<m}"
      "filter (\<lambda>fa. \<not> fst fa) fas1 = filter (\<lambda>fa. \<not> fst fa) fas" by blast
    with atom r(2) show ?thesis by (intro exI [of _ new]) (auto simp: fa split: option.splits)
  qed
qed simp

lemma peek_parent_forms [simp]:
  "peek_parent (CExpr (KLet x v b) t) = None"
  "peek_parent (dup_op x e) = None"
  by (simp_all add: peek_parent_def dup_op_def)

lemma peek_parent_dups: "peek_parent e = None \<Longrightarrow> peek_parent (foldr dup_op ds e) = None"
  by (cases ds) simp_all

lemma peek_parent_wrap: "peek_parent e = None \<Longrightarrow> peek_parent (wrap_binds bs e) = None"
  by (cases bs) (auto simp: wrap_binds_def)

lemma peek_parent_drop_after: "peek_parent e = None \<Longrightarrow> peek_parent (fst (drop_after ds e n)) = None"
  by (simp add: drop_after_def)

text \<open>An operation with its operands counted spends what it used last.\<close>

lemma eval_operands_rc:
  assumes ck: "plain ck env" and r: "operands_rc env operands borrows live rebuild n = (e', n')"
    and ops: "\<forall>a \<in> set operands. is_atom a" "unmixed_operands (with_flags borrows operands)"
    and R: "ready env n ((\<Union>a \<in> set operands. free_locals a) \<union> live) R" and live: "\<forall>x \<in> live. x < n"
    and small: "\<forall>a \<in> set operands. \<forall>x \<in> free_locals a. x < n"
    and rebuild: "\<And>fas R. map fst fas = map fst (with_flags borrows operands) \<Longrightarrow>
      map (\<lambda>fa. ce_ty (snd fa)) fas = map ce_ty operands \<Longrightarrow>
      filter (\<lambda>fa. \<not> fst fa) fas = filter (\<lambda>fa. \<not> fst fa) (with_flags borrows operands) \<Longrightarrow>
      eval ck (rebuild (map snd fas)) R = try_fold (operand_step ck) fas R \<and> peek_parent (rebuild (map snd fas)) = None"
  shows "eval ck e' R = Inr (spend ((\<Union>a \<in> set operands. free_locals a) - live) R)" "n \<le> n'" "peek_parent e' = None"
proof -
  let ?fas = "with_flags borrows operands"
  obtain fas pre m where b: "bind_lent ?fas [] n = (fas, pre, m)" by (cases "bind_lent ?fas [] n") auto
  have args: "snd ` set ?fas = set operands" by (rule with_flags_args)
  from bind_lent_shape [OF b] ops(1) args obtain
    pre: "map fst pre = [n..<m]" "n \<le> m" "\<forall>(x, a) \<in> set pre. is_atom a \<and> local_of a = None" and
    fas: "map fst fas = map fst ?fas" "map (\<lambda>fa. ce_ty (snd fa)) fas = map (\<lambda>fa. ce_ty (snd fa)) ?fas"
      "\<forall>a \<in> snd ` set fas. is_atom a" "consumed_locals fas = consumed_locals ?fas"
      "lent_operands fas = lent_operands ?fas \<union> {n..<m}"
      "filter (\<lambda>fa. \<not> fst fa) fas = filter (\<lambda>fa. \<not> fst fa) ?fas" by auto
  let ?F = "set (consumed_locals ?fas) \<union> lent_operands ?fas"
  have F: "(\<Union>a \<in> set operands. free_locals a) = ?F" using operands_free [of ?fas] ops(1) args by simp
  have small': "x < n" if "x \<in> ?F" for x using that small unfolding F [symmetric] by auto
  have e': "e' = wrap_binds pre (foldr dup_op (operand_dups (re_captures env) live fas)
      (fst (drop_after (dead_operands (re_captures env) live fas) (rebuild (map snd fas)) m)))"
    "n' = snd (drop_after (dead_operands (re_captures env) live fas) (rebuild (map snd fas)) m)"
    using r by (auto simp: operands_rc_def b Let_def split: prod.splits)
  have types: "map (\<lambda>fa. ce_ty (snd fa)) ?fas = map ce_ty operands"
    by (simp add: with_flags_def flip: map_map [of ce_ty snd, unfolded comp_def])
  note rb = rebuild [OF fas(1) fas(2) [unfolded types] fas(6)]
  have fst_pre: "fst ` set pre = {n..<m}" using pre(1) by (metis set_map set_upt)
  have "ready env m (set (consumed_locals fas) \<union> lent_operands fas \<union> live) (bind_ones (map fst pre) R)"
    using R pre(1,2) unfolding ready_def F fas(4,5) by (auto simp: fst_pre)
  then have "eval ck (foldr dup_op (operand_dups (re_captures env) live fas)
      (fst (drop_after (dead_operands (re_captures env) live fas) (rebuild (map snd fas)) m))) (bind_ones (map fst pre) R)
    = Inr (spend (set (consumed_locals fas) \<union> lent_operands fas - live) (bind_ones (map fst pre) R))"
    using rb fas(3) ops(2) fas(4,5) small' by (intro eval_counted [OF ck]) (fastforce simp: unmixed_operands_def)+
  note op = this
  have none: "fmlookup R x = None" if "x \<in> {n..<m}" for x using readyD(4) [OF R] that by simp
  have "eval ck e' R = Inr (fmdrop_set (fst ` set pre) (spend (set (consumed_locals fas) \<union> lent_operands fas - live) (bind_ones (map fst pre) R)))"
    unfolding e'(1)
  proof (rule eval_wrap_atoms [OF _ _ _ op])
    fix x assume "x \<in> fst ` set pre"
    then have "x \<in> lent_operands fas - live" using live by (auto simp: fst_pre fas(5))
    then show "lookup_count (spend (set (consumed_locals fas) \<union> lent_operands fas - live) (bind_ones (map fst pre) R)) x = 0"
      by (simp add: lookup_count_def split: option.splits)
  qed (use pre none in \<open>auto simp: fst_pre\<close>)
  also have "fmdrop_set (fst ` set pre) (spend (set (consumed_locals fas) \<union> lent_operands fas - live) (bind_ones (map fst pre) R))
      = spend ((\<Union>a \<in> set operands. free_locals a) - live) R"
    using none unfolding F fas(4,5) fst_pre pre(1) by (intro fmap_ext) auto
  finally show "eval ck e' R = Inr (spend ((\<Union>a \<in> set operands. free_locals a) - live) R)" .
  show "n \<le> n'" using pre(2) e'(2) by (simp add: drop_after_def split: if_splits)
  show "peek_parent e' = None" using rb unfolding e'(1) by (intro peek_parent_wrap peek_parent_dups peek_parent_drop_after) blast
qed

section \<open>Bindings of several locals\<close>

lemma insert_all_ones:
  "distinct xs \<Longrightarrow> (\<And>x. x \<in> set xs \<Longrightarrow> fmlookup R x = None) \<Longrightarrow>
     try_fold (\<lambda>x. insert_new (err x) x 1) xs R = Inr (bind_ones xs R)"
proof (induction xs arbitrary: R)
  case (Cons x xs)
  have "insert_new (err x) x 1 R = Inr (fmupd x 1 R)" using Cons.prems(2) by simp
  moreover have "try_fold (\<lambda>x. insert_new (err x) x 1) xs (fmupd x 1 R) = Inr (bind_ones xs (fmupd x 1 R))"
    by (rule Cons.IH) (use Cons.prems in auto)
  ultimately show ?case by (simp add: bind_ones_def)
qed (simp add: bind_ones_def)

lemma remove_all_spent:
  "distinct xs \<Longrightarrow> (\<And>x. x \<in> set xs \<Longrightarrow> lookup_count R x = 0) \<Longrightarrow>
     try_fold (\<lambda>x. remove_spent (err x) x) xs R = Inr (fmdrop_set (set xs) R)"
proof (induction xs arbitrary: R)
  case (Cons x xs)
  have "remove_spent (err x) x R = Inr (fmdrop x R)" using Cons.prems(2) by simp
  moreover have "try_fold (\<lambda>x. remove_spent (err x) x) xs (fmdrop x R) = Inr (fmdrop_set (set xs) (fmdrop x R))"
    by (rule Cons.IH) (use Cons.prems in \<open>auto simp: lookup_count_def\<close>)
  moreover have "fmdrop_set (set xs) (fmdrop x R) = fmdrop_set (set (x # xs)) R" by (rule fmap_ext) simp
  ultimately show ?case by simp
qed simp

lemma eval_let_many:
  assumes "eval ck v R = Inr R1" "distinct xs" "\<And>x. x \<in> set xs \<Longrightarrow> fmlookup R1 x = None"
    "eval ck b (bind_ones xs R1) = Inr R2" "\<And>x. x \<in> set xs \<Longrightarrow> lookup_count R2 x = 0"
  shows "eval ck (CExpr (KLetMany xs v b) t) R = Inr (fmdrop_set (set xs) R2)"
  using assms insert_all_ones [of xs R1] remove_all_spent [of xs R2] by simp

text \<open>
  The scope of bound locals: the body spends the ones it uses last, and the ones it does not use are
  dropped first.
\<close>

lemma eval_scope:
  assumes ck: "plain ck env" and xs: "set xs \<inter> re_captures env = {}" "set xs \<inter> live = {}"
    and body: "eval ck b (spend (set xs - F) (bind_ones xs R)) = Inr (spend (F - live) (spend (set xs - F) (bind_ones xs R)))"
    and drops: "set ds = set xs - F"
  shows "eval ck (dropify ds b) (bind_ones xs R) = Inr (spend ((F - live) \<union> set xs) (bind_ones xs R))"
proof -
  have "eval ck (dropify ds b) (bind_ones xs R) = eval ck b (spend (set ds) (bind_ones xs R))"
    by (rule eval_dropify [OF ck]) (use xs(1) drops in auto)
  also have "\<dots> = Inr (spend ((F - live) \<union> set xs) (bind_ones xs R))"
    unfolding drops body using xs(2) by (auto intro!: spend_cong)
  finally show ?thesis .
qed

section \<open>Rebuilding operations\<close>

lemma map_fst_with_flags: "map fst (with_flags flags args) = map (flag_at flags) [0..<length args]"
  by (simp add: with_flags_def)

lemma with_flags_same:
  assumes "map fst fas = map fst (with_flags flags args)"
  shows "with_flags flags (map snd fas) = fas"
proof -
  from assms have eq: "map fst fas = map (flag_at flags) [0..<length args]" by (simp add: map_fst_with_flags)
  then have "length fas = length args" by (metis length_map length_upt diff_zero)
  with eq have "with_flags flags (map snd fas) = zip (map fst fas) (map snd fas)" by (simp add: with_flags_def)
  then show ?thesis by (simp add: zip_map_fst_snd)
qed

lemma with_flags_Cons: "with_flags (f # flags) (a # args) = (f, a) # with_flags flags args"
proof -
  have "flag_at (f # flags) 0 = f" "(\<lambda>i. flag_at (f # flags) (Suc i)) = flag_at flags" by (auto simp: flag_at_def)
  then show ?thesis
    by (simp add: with_flags_def upt_conv_Cons map_Suc_upt [symmetric] comp_def del: upt_Suc)
qed

lemma with_flags_none: "with_flags (replicate n False) args = with_flags [] args"
proof -
  have "flag_at (replicate n False) = flag_at []" by (rule ext) (auto simp: flag_at_def)
  then show ?thesis by (simp add: with_flags_def)
qed

lemma no_flags: "fa \<in> set (with_flags [] args) \<Longrightarrow> \<not> fst fa"
  by (cases fa) (auto simp: with_flags_def flag_at_def dest!: set_zip_leftD)

lemma fold_unflagged:
  "(\<And>fa. fa \<in> set fas \<Longrightarrow> \<not> fst fa) \<Longrightarrow> try_fold (operand_step ck) fas R = try_fold (eval ck) (map snd fas) R"
proof (induction fas arbitrary: R)
  case (Cons fa fas)
  have "operand_step ck fa R = eval ck (snd fa) R" using Cons.prems by (simp add: operand_step_def)
  moreover have "try_fold (operand_step ck) fas R1 = try_fold (eval ck) (map snd fas) R1" for R1
    using Cons by simp
  ultimately show ?case by (simp cong: and_then_cong)
qed simp

lemma prim_borrows_cong: "map ce_ty args' = map ce_ty args \<Longrightarrow> prim_borrows op args' = prim_borrows op args"
proof -
  assume types: "map ce_ty args' = map ce_ty args"
  then have "length args' = length args" by (metis length_map)
  moreover have "ce_ty (hd args') = ce_ty (hd args)" if "args \<noteq> []"
    using that types by (metis hd_map map_is_Nil_conv)
  ultimately show ?thesis by (cases "args = []") (simp_all add: prim_borrows_def)
qed

lemma rebuild_prim:
  assumes "map fst fas = map fst (with_flags (prim_borrows op args) args)"
    "map (\<lambda>fa. ce_ty (snd fa)) fas = map ce_ty args" "op \<notin> {ArrayPrim PArrayPeek, ValuePrim PDataPeek}"
  shows "eval ck (CExpr (KPrim op (map snd fas)) t) R = try_fold (operand_step ck) fas R"
    "peek_parent (CExpr (KPrim op (map snd fas)) t) = None"
proof -
  have "prim_borrows op (map snd fas) = prim_borrows op args"
    by (rule prim_borrows_cong) (use assms(2) in \<open>simp add: comp_def\<close>)
  with with_flags_same [OF assms(1)] show "eval ck (CExpr (KPrim op (map snd fas)) t) R = try_fold (operand_step ck) fas R"
    by (simp add: operand_step_eq)
  show "peek_parent (CExpr (KPrim op (map snd fas)) t) = None"
    using assms(3) by (auto simp: peek_parent_def split: list.splits)
qed

lemma unflagged_list:
  assumes "map fst fas = map fst (with_flags [] args)" "(fa :: bool \<times> cexpr) \<in> set fas"
  shows "\<not> fst fa"
  using with_flags_same [OF assms(1)] no_flags [of fa "map snd fas"] assms(2) by simp

lemma readyD_less: "ready env n A R \<Longrightarrow> x \<in> A \<Longrightarrow> x < n"
  unfolding ready_def by (cases "x \<in> re_captures env") auto

section \<open>Insertion is exact\<close>

definition exact :: "checker \<Rightarrow> cexpr \<Rightarrow> local_id set \<Rightarrow> nat \<Rightarrow> refs \<Rightarrow> cexpr \<Rightarrow> nat \<Rightarrow> bool" where
  "exact ck e live n R e' n' \<longleftrightarrow>
     eval ck e' R = Inr (spend (free_locals e - live) R) \<and> n \<le> n' \<and> peek_parent e' = None"

text \<open>Operations whose operands are all consumed.\<close>

lemma exact_consuming:
  assumes ck: "plain ck env" and r: "operands_rc env args (replicate (length args) False) live rebuild n = (e', n')"
    and atoms: "\<forall>a \<in> set args. is_atom a"
    and R: "ready env n (free_locals e \<union> live) R" and live: "\<forall>x \<in> live. x < n"
    and free: "free_locals e = (\<Union>a \<in> set args. free_locals a)"
    and rebuild: "\<And>args R. eval ck (rebuild args) R = try_fold (eval ck) args R \<and> peek_parent (rebuild args) = None"
  shows "exact ck e live n R e' n'"
  unfolding exact_def free
proof (intro conjI)
  have mix: "unmixed_operands (with_flags (replicate (length args) False) args)"
    using no_flags [of _ args] by (force simp: unmixed_operands_def lent_operands_def with_flags_none)
  have rb: "eval ck (rebuild (map snd fas)) R = try_fold (operand_step ck) fas R \<and> peek_parent (rebuild (map snd fas)) = None"
    if "map fst fas = map fst (with_flags (replicate (length args) False) args)" for fas :: "(bool \<times> cexpr) list" and R
  proof -
    have "\<not> fst fa" if "fa \<in> set fas" for fa
      using unflagged_list [OF _ that, of args] \<open>map fst fas = _\<close> by (simp add: with_flags_none)
    then have "try_fold (operand_step ck) fas R = try_fold (eval ck) (map snd fas) R" by (rule fold_unflagged)
    with rebuild show ?thesis by simp
  qed
  have small: "\<forall>a \<in> set args. \<forall>x \<in> free_locals a. x < n" using readyD_less [OF R] unfolding free by blast
  note * = eval_operands_rc [OF ck r atoms mix R [unfolded free] live small rb]
  show "eval ck e' R = Inr (spend ((\<Union>a \<in> set args. free_locals a) - live) R)" "n \<le> n'" "peek_parent e' = None"
    by (rule *; assumption)+
qed

lemma exact_app:
  assumes ck: "plain ck env" and r: "operands_rc env (func # args) (False # flags) live (\<lambda>ops. CExpr (KApp (hd ops) (tl ops) [] alloc) t) n = (e', n')"
    and flags: "with_flags flags args = with_flags (call_flags (re_call_borrows env) func (length args)) args"
    and atoms: "is_atom func" "\<forall>a \<in> set args. is_atom a"
    and mix: "unmixed_operands ((False, func) # with_flags flags args)"
    and R: "ready env n (free_locals func \<union> (\<Union>a \<in> set args. free_locals a) \<union> live) R" and live: "\<forall>x \<in> live. x < n"
  shows "exact ck (CExpr (KApp func args [] alloc) t) live n R e' n'"
proof -
  have rb: "eval ck (CExpr (KApp (hd (map snd fas)) (tl (map snd fas)) [] alloc) t) R = try_fold (operand_step ck) fas R \<and>
      peek_parent (CExpr (KApp (hd (map snd fas)) (tl (map snd fas)) [] alloc) t) = None"
    if fas: "map fst fas = map fst (with_flags (False # flags) (func # args))"
      "filter (\<lambda>fa. \<not> fst fa) fas = filter (\<lambda>fa. \<not> fst fa) (with_flags (False # flags) (func # args))"
    for fas :: "(bool \<times> cexpr) list" and R
  proof -
    from fas obtain rest where rest: "fas = (False, func) # rest" "map fst rest = map fst (with_flags flags args)"
      by (cases fas) (auto simp: with_flags_Cons)
    have "length rest = length args" using arg_cong [OF rest(2), of length] by (simp add: with_flags_def)
    moreover have "with_flags (call_flags (re_call_borrows env) func (length args)) (map snd rest) = rest"
      by (rule with_flags_same) (use rest(2) flags in simp)
    ultimately show ?thesis
      using rest(1) by (simp add: operand_step_eq operand_step_def plainD [OF ck] peek_parent_def List.map_filter_def)
        (simp add: and_then_def split: sum.splits)
  qed
  have small: "\<forall>a \<in> set (func # args). \<forall>x \<in> free_locals a. x < n" using readyD_less [OF R] by auto
  have R': "ready env n ((\<Union>a \<in> set (func # args). free_locals a) \<union> live) R" using R by simp
  have atoms': "\<forall>a \<in> set (func # args). is_atom a" using atoms by simp
  note * = eval_operands_rc [OF ck r atoms' mix [folded with_flags_Cons] R' live small rb]
  show ?thesis unfolding exact_def
    using * by simp
qed

text \<open>
  What a binding does once its value has been evaluated: \<open>V\<close> and \<open>F\<close> are the free locals of the
  value and of the body.
\<close>

lemma exact_scope:
  fixes V F live :: "local_id set" and env :: rc_env and xs :: "local_id list"
  defines "LA \<equiv> (F - re_captures env - set xs) \<union> live"
  assumes ck: "plain ck env" and xs: "set xs \<inter> re_captures env = {}" "\<And>x. x \<in> set xs \<Longrightarrow> fmlookup R x = None \<and> x < n"
    and live: "live \<inter> re_captures env = {}"
    and R: "ready env n (V \<union> (F - set xs) \<union> live) R"
    and body: "\<And>R'. ready env n (F \<union> live) R' \<Longrightarrow> fmdom R' = fset_of_list xs |\<union>| fmdom R \<Longrightarrow> eval ck b R' = Inr (spend (F - live) R')"
    and drops: "set ds = set xs - F"
  obtains R2 where "eval ck (dropify ds b) (bind_ones xs (spend (V - LA) R)) = Inr R2"
    "\<And>x. x \<in> set xs \<Longrightarrow> lookup_count R2 x = 0" "fmdrop_set (set xs) R2 = spend (V \<union> (F - set xs) - live) R"
proof -
  let ?R1 = "bind_ones xs (spend (V - LA) R)"
  have fresh: "set xs \<inter> live = {}" using xs live readyD(2) [OF R] by (fastforce simp: disjoint_iff)
  have dom: "fmdom (spend (set xs - F) ?R1) = fset_of_list xs |\<union>| fmdom R"
    by (rule fset_eqI) (auto simp: fmlookup_dom_iff fset_of_list_elem split: if_splits)
  have "ready env n (F \<union> live) (spend (set xs - F) ?R1)"
    using R xs fresh unfolding ready_def LA_def by (auto split: if_splits)
  from eval_scope [OF ck xs(1) fresh body [OF this dom] drops]
  have *: "eval ck (dropify ds b) ?R1 = Inr (spend ((F - live) \<union> set xs) ?R1)" .
  show thesis
  proof (rule that [OF *])
    show "fmdrop_set (set xs) (spend ((F - live) \<union> set xs) ?R1) = spend (V \<union> (F - set xs) - live) R"
    proof (rule fmap_ext)
      fix x
      show "fmlookup (fmdrop_set (set xs) (spend ((F - live) \<union> set xs) ?R1)) x = fmlookup (spend (V \<union> (F - set xs) - live) R) x"
      proof (cases "fmlookup R x")
        case (Some k)
        then have "x \<notin> set xs" "x \<notin> re_captures env" using xs(2) readyD(1) [OF R] by force+
        with Some show ?thesis by (auto simp: LA_def)
      qed (auto simp: xs(2))
    qed
  qed (simp add: lookup_count_def)
qed

lemma bind_ones_single: "bind_ones [x] R = fmupd x 1 R"
  by (simp add: bind_ones_def)

lemma dropify_single: "dropify [x] e = drop_op x e"
  by (simp add: dropify_def)

lemma dropify_Nil [simp]: "dropify [] e = e"
  by (simp add: dropify_def)

lemma spend_bind_ones: "set xs \<inter> A = {} \<Longrightarrow> spend A (bind_ones xs R) = bind_ones xs (spend A R)"
  by (rule fmap_ext) auto

text \<open>Reading a projection leaves the counts as they are.\<close>

lemma eval_projection:
  assumes ck: "plain ck env" and p: "normal (re_captures env) D e" "is_projection e" and R: "ready env n (free_locals e \<union> A) R"
  shows "eval ck e R = Inr R" "peek_parent e = None" "set (projection_borrows e) = free_locals e"
proof -
  obtain k t where e: "e = CExpr k t" by (cases e)
  have read: "borrow ck x R = Inr R" if "x \<in> free_locals e" for x
  proof (cases "x \<in> re_captures env")
    case False
    with readyD(2) [OF R, of x] that show ?thesis by (auto intro: borrow_held [OF ck])
  qed (rule borrow_captured [OF ck])
  have base: "\<exists>x t. b = CExpr (KLocal x) t" if "is_local b" for b
    using that local_ofD [of b] by (cases "local_of b") (auto simp: is_local_def)
  have "eval ck e R = Inr R \<and> peek_parent e = None \<and> set (projection_borrows e) = free_locals e"
  proof (cases k)
    case (KDataField b index sc ni)
    with p base [of b] obtain x t' where b: "b = CExpr (KLocal x) t'" by (auto simp: e)
    have "borrow ck x R = Inr R" "\<And>y. evidence_of index = Some y \<Longrightarrow> borrow ck y R = Inr R"
      by (rule read, simp add: e KDataField b)+
    then show ?thesis
      by (auto simp: e KDataField b borrow_atom_def peek_parent_def projection_borrows_def List.map_filter_def
        local_of_def split: option.splits)
  next
    case (KDataTag b ni)
    with p base [of b] obtain x t' where b: "b = CExpr (KLocal x) t'" by (auto simp: e)
    have "borrow ck x R = Inr R" by (rule read) (simp add: e KDataTag b)
    then show ?thesis
      by (simp add: e KDataTag b borrow_atom_def peek_parent_def projection_borrows_def List.map_filter_def local_of_def)
  qed (use p in \<open>auto simp: e is_projection_def\<close>)
  then show "eval ck e R = Inr R" "peek_parent e = None" "set (projection_borrows e) = free_locals e" by blast+
qed

lemma set_dead_borrows: "set (dead_borrows env bs live) = set bs - re_captures env - live"
  by (auto simp: dead_borrows_def)

lemma exact_projection:
  assumes ck: "plain ck env" and p: "normal (re_captures env) D e" "is_projection e" and R: "ready env n (free_locals e \<union> live) R"
    and r: "borrow_tail env e (projection_borrows e) live n = (e', n')"
  shows "exact ck e live n R e' n'"
proof -
  note proj = eval_projection [OF ck p R]
  let ?ds = "dead_borrows env (projection_borrows e) live"
  have "eval ck (fst (drop_after ?ds e n)) R = Inr (spend (set ?ds) R)"
    by (rule eval_drop_after [OF ck proj(1,2)])
      (use readyD [OF R] in \<open>auto simp: set_dead_borrows proj(3)\<close>)
  also have "spend (set ?ds) R = spend (free_locals e - live) R"
    by (rule spend_cong) (use readyD(1) [OF R] in \<open>auto simp: set_dead_borrows proj(3)\<close>)
  finally have ev: "eval ck e' R = Inr (spend (free_locals e - live) R)" using r by (simp add: borrow_tail_def)
  have "peek_parent e' = None" using peek_parent_drop_after [OF proj(2), of ?ds n] r by (simp add: borrow_tail_def)
  moreover have "n \<le> n'" using r by (auto simp: borrow_tail_def drop_after_def split: if_splits)
  ultimately show ?thesis using ev by (simp add: exact_def)
qed

text \<open>The condition of a branch: its reference is kept when a branch or the continuation uses it.\<close>

lemma eval_condition:
  assumes ck: "plain ck env" and c: "is_atom c" and R: "ready env n (free_locals c \<union> B) R" and B: "B \<inter> re_captures env = {}"
  shows "eval ck (case local_of c of Some x \<Rightarrow> if x \<in> re_captures env \<or> x \<in> B then dup_op x (CExpr (KIf c a b) t) else CExpr (KIf c a b) t
      | None \<Rightarrow> CExpr (KIf c a b) t) R
    = and_then (eval ck a (spend (free_locals c - B) R)) (\<lambda>t. and_then (eval ck b (spend (free_locals c - B) R)) (\<lambda>e2.
        if t \<noteq> e2 then Inl (InconsistentBranches (ck_fn_index ck)) else Inr t))"
proof (cases "local_of c")
  case None
  have "spend {} R = R" by (rule fmap_ext) (simp add: option.map_ident)
  with None show ?thesis by (simp add: eval_atom [OF c] free_atom [OF c])
next
  case (Some x)
  have free: "free_locals c = {x}" using Some by (simp add: free_atom [OF c])
  consider (cap) "x \<in> re_captures env" | (kept) "x \<notin> re_captures env" "x \<in> B" | (last) "x \<notin> re_captures env" "x \<notin> B" by blast
  then show ?thesis
  proof cases
    case cap
    then have "spend ({x} - B) R = R" using readyD(1) [OF R, of x] by (intro fmap_ext) (auto simp: map_option_case split: option.splits)
    with cap Some free show ?thesis by (simp add: acquire_captured [OF ck] consume_captured [OF ck] eval_atom [OF c])
  next
    case kept
    then have x: "fmlookup R x = Some 1" using readyD(2) [OF R] free by simp
    have "spend ({x} - B) R = R" using kept by (intro fmap_ext) (auto simp: map_option_case split: option.splits)
    moreover have "fmupd x 1 (fmupd x 2 R) = R" using x by (intro fmap_ext) auto
    ultimately show ?thesis using kept Some free x acquire_held [OF ck kept(1) x] consume_held [OF ck kept(1), of "fmupd x 2 R" 2]
      by (simp add: eval_atom [OF c])
  next
    case last
    then have x: "fmlookup R x = Some 1" using readyD(2) [OF R] free by simp
    have "spend ({x} - B) R = fmupd x 0 R" using last x by (intro fmap_ext) (auto simp: map_option_case split: option.splits)
    then show ?thesis using last Some free consume_held [OF ck last(1) x] by (simp add: eval_atom [OF c])
  qed
qed

lemma exact_if:
  assumes ck: "plain ck env" and c: "is_atom c" and live: "live \<inter> re_captures env = {}"
    and R: "ready env n (free_locals c \<union> free_locals a \<union> free_locals b \<union> live) R"
    and fin: "finite (free_locals a)" "finite (free_locals b)"
    and a2: "\<And>R. ready env n (free_locals a \<union> live) R \<Longrightarrow> fmdom R = D \<Longrightarrow> eval ck a2 R = Inr (spend (free_locals a - live) R)"
    and b2: "\<And>R. ready env n (free_locals b \<union> live) R \<Longrightarrow> fmdom R = D \<Longrightarrow> eval ck b2 R = Inr (spend (free_locals b - live) R)"
    and D: "fmdom R = D"
    and B: "B = live \<union> (free_locals a - re_captures env) \<union> (free_locals b - re_captures env)"
  shows "eval ck (case local_of c of
      Some x \<Rightarrow> if x \<in> re_captures env \<or> x \<in> B
        then dup_op x (CExpr (KIf c (dropify (sorted_list_of_set (B - (free_locals a - re_captures env) - live)) a2)
                            (dropify (sorted_list_of_set (B - (free_locals b - re_captures env) - live)) b2)) t)
        else CExpr (KIf c (dropify (sorted_list_of_set (B - (free_locals a - re_captures env) - live)) a2)
                            (dropify (sorted_list_of_set (B - (free_locals b - re_captures env) - live)) b2)) t
    | None \<Rightarrow> CExpr (KIf c (dropify (sorted_list_of_set (B - (free_locals a - re_captures env) - live)) a2)
                            (dropify (sorted_list_of_set (B - (free_locals b - re_captures env) - live)) b2)) t) R
    = Inr (spend (free_locals c \<union> free_locals a \<union> free_locals b - live) R)"
proof -
  let ?cs = "re_captures env" and ?R1 = "spend (free_locals c - B) R"
  have Bcs: "B \<inter> ?cs = {}" using live unfolding B by auto
  have branch: "eval ck (dropify (sorted_list_of_set (B - (F - ?cs) - live)) e) ?R1 = Inr (spend (B - live) ?R1)"
    if F: "finite (B - (F - ?cs) - live)" "F - ?cs \<subseteq> B"
      and e: "\<And>R. ready env n (F \<union> live) R \<Longrightarrow> fmdom R = D \<Longrightarrow> eval ck e R = Inr (spend (F - live) R)" for F e
  proof -
    have one: "fmlookup ?R1 x = Some 1" if "x \<in> B" for x
      using that readyD(2) [OF R, of x] live unfolding B by auto
    have "eval ck (dropify (sorted_list_of_set (B - (F - ?cs) - live)) e) ?R1 = eval ck e (spend (B - (F - ?cs) - live) ?R1)"
    proof -
      have "x \<notin> ?cs \<and> fmlookup ?R1 x = Some 1" if "x \<in> set (sorted_list_of_set (B - (F - ?cs) - live))" for x
        using that one [of x] Bcs unfolding set_sorted_list_of_set [OF F(1)] by auto
      from eval_dropify [OF ck, of "sorted_list_of_set (B - (F - ?cs) - live)" ?R1 e, OF this]
      show ?thesis unfolding set_sorted_list_of_set [OF F(1)] .
    qed
    also have "\<dots> = Inr (spend (F - live) (spend (B - (F - ?cs) - live) ?R1))"
    proof (rule e)
      show "ready env n (F \<union> live) (spend (B - (F - ?cs) - live) ?R1)"
        using R one F(2) unfolding ready_def B by auto
      show "fmdom (spend (B - (F - ?cs) - live) ?R1) = D"
        using D by (auto intro!: fset_eqI simp: fmlookup_dom_iff)
    qed
    also have "spend (F - live) (spend (B - (F - ?cs) - live) ?R1) = spend (B - live) ?R1"
      unfolding spend_spend by (rule spend_cong) (use F(2) readyD(1) [OF R] in \<open>auto split: if_splits\<close>)
    finally show ?thesis .
  qed
  have fin': "finite (B - (free_locals a - ?cs) - live)" "finite (B - (free_locals b - ?cs) - live)"
    using fin unfolding B by (auto intro: finite_subset)
  have "ready env n (free_locals c \<union> B) R" by (rule ready_subset [OF R]) (auto simp: B)
  note cond = eval_condition [OF ck c this]
  have "spend (B - live) ?R1 = spend (free_locals c \<union> free_locals a \<union> free_locals b - live) R"
    unfolding spend_spend by (rule spend_cong) (use readyD(1) [OF R] in \<open>auto simp: B\<close>)
  moreover have "eval ck (dropify (sorted_list_of_set (B - (free_locals a - ?cs) - live)) a2) ?R1 = Inr (spend (B - live) ?R1)"
    by (rule branch [OF fin'(1) _ a2]) (auto simp: B)
  moreover have "eval ck (dropify (sorted_list_of_set (B - (free_locals b - ?cs) - live)) b2) ?R1 = Inr (spend (B - live) ?R1)"
    by (rule branch [OF fin'(2) _ b2]) (auto simp: B)
  ultimately show ?thesis unfolding cond [OF Bcs] by simp
qed

lemma finite_free: "finite (free_locals e)"
  by (induction e rule: free_locals.induct) auto

lemma ready_weaken: "ready env n (A \<union> live) R \<Longrightarrow> B \<subseteq> A \<Longrightarrow> n \<le> m \<Longrightarrow> ready env m (B \<union> live) R"
  by (erule ready_subset) auto

definition fits :: "rc_env \<Rightarrow> local_id set \<Rightarrow> cexpr \<Rightarrow> local_id set \<Rightarrow> nat \<Rightarrow> refs \<Rightarrow> bool" where
  "fits env D e live n R \<longleftrightarrow>
     normal (re_captures env) D e \<and> unmixed env e \<and> ready env n (free_locals e \<union> live) R \<and>
     live \<inter> re_captures env = {} \<and> fset (fmdom R) \<subseteq> D \<and> (\<forall>x \<in> binders e. x < n)"

lemma fits_live: "fits env D e live n R \<Longrightarrow> \<forall>x \<in> live. x < n"
  using readyD_less unfolding fits_def by blast

lemma closure_dups_eq: "closure_dups cs live xs = operand_dups cs live (map (\<lambda>x. (False, CExpr (KLocal x) t)) xs)"
proof -
  have "consumed_locals (map (\<lambda>x. (False, CExpr (KLocal x) t)) xs) = xs" for xs
    by (induction xs) (simp_all add: local_of_def)
  then show ?thesis by (induction xs) (simp_all add: local_of_def)
qed

lemma exact_closure:
  assumes ck: "plain ck env" and R: "ready env n (set xs \<union> live) R"
  shows "exact ck (CExpr (KMakeClosure f xs al) t) live n R
    (foldr dup_op (closure_dups (re_captures env) live xs) (CExpr (KMakeClosure f xs al) t)) n"
proof -
  let ?fas = "map (\<lambda>x. (False, CExpr (KLocal x) t)) xs"
  have C: "consumed_locals ?fas = xs" "lent_operands ?fas = {}"
    by (induction xs) (simp_all add: local_of_def)
  have ev: "eval ck (CExpr (KMakeClosure f xs al) t) R = try_fold (operand_step ck) ?fas R" for R
    by (induction xs arbitrary: R) (simp_all add: operand_step_def cong: and_then_cong)
  have "dead_operands (re_captures env) live ?fas = []"
    using set_dead_operands [of "re_captures env" live ?fas] by (simp add: C)
  then have "eval ck (foldr dup_op (operand_dups (re_captures env) live ?fas) (CExpr (KMakeClosure f xs al) t)) R
    = Inr (spend (set xs - live) R)"
    using eval_counted [OF ck ev, of n live R n] R by (simp add: C drop_after_def is_atom_def unmixed_operands_def peek_parent_def)
  moreover have "peek_parent (foldr dup_op (operand_dups (re_captures env) live ?fas) (CExpr (KMakeClosure f xs al) t)) = None"
    by (rule peek_parent_dups) (simp add: peek_parent_def)
  ultimately show ?thesis unfolding closure_dups_eq [of _ _ _ t] by (simp add: exact_def)
qed

lemma exact_local:
  assumes ck: "plain ck env" and R: "ready env n ({x} \<union> live) R"
  shows "exact ck (CExpr (KLocal x) t) live n R
    (if x \<in> re_captures env \<or> x \<in> live then dup_op x (CExpr (KLocal x) t) else CExpr (KLocal x) t) n"
proof -
  let ?fas = "[(False, CExpr (KLocal x) t)]"
  have C: "consumed_locals ?fas = [x]" "lent_operands ?fas = {}" by (simp_all add: local_of_def)
  have "dead_operands (re_captures env) live ?fas = []"
    using set_dead_operands [of "re_captures env" live ?fas] by (simp add: C)
  moreover have "eval ck (CExpr (KLocal x) t) R = try_fold (operand_step ck) ?fas R" for R
    by (simp add: operand_step_def and_then_def split: sum.splits)
  ultimately have "eval ck (foldr dup_op (operand_dups (re_captures env) live ?fas) (CExpr (KLocal x) t)) R = Inr (spend ({x} - live) R)"
    using eval_counted [OF ck, of "CExpr (KLocal x) t" ?fas n live R n] R
    by (simp add: C drop_after_def is_atom_def unmixed_operands_def peek_parent_def local_of_def)
  then show ?thesis by (auto simp: exact_def local_of_def peek_parent_def dup_op_def split: if_splits)
qed

lemma bind_lent_mono: "bind_lent fas pre n = (fas', pre', m) \<Longrightarrow> n \<le> m"
proof (induction fas arbitrary: pre n fas' pre' m)
  case (Cons fa fas)
  obtain flag a where fa: "fa = (flag, a)" by (cases fa)
  show ?case
  proof (cases "flag \<and> \<not> is_local a")
    case True
    with Cons.prems obtain fas1 where "bind_lent fas (pre @ [(n, a)]) (n + 1) = (fas1, pre', m)"
      by (auto simp: fa Let_def split: prod.splits)
    from Cons.IH [OF this] show ?thesis by simp
  next
    case False
    with Cons.prems obtain fas1 where "bind_lent fas pre n = (fas1, pre', m)" by (auto simp: fa Let_def split: prod.splits)
    from Cons.IH [OF this] show ?thesis .
  qed
qed simp

lemma drop_after_mono: "n \<le> snd (drop_after ds e n)"
  by (simp add: drop_after_def)

lemma operands_rc_mono:
  assumes "operands_rc env ops bs live rebuild n = (e', n')"
  shows "n \<le> n'"
proof -
  obtain fas pre m where b: "bind_lent (with_flags bs ops) [] n = (fas, pre, m)" by (cases "bind_lent (with_flags bs ops) [] n") auto
  from assms have "n' = snd (drop_after (dead_operands (re_captures env) live fas) (rebuild (map snd fas)) m)"
    by (auto simp: operands_rc_def b Let_def split: prod.splits)
  with bind_lent_mono [OF b] drop_after_mono [of m] show ?thesis by (metis le_trans)
qed

lemma rc_owned_mono: "rc_owned env e live n = Some (e', n') \<Longrightarrow> n \<le> n'"
proof (induction env e live n arbitrary: e' n' rule: rc_owned.induct)
  case (9 env xs v b t live n)
  then show ?case by (auto simp: Let_def split: option.splits) (meson le_trans)
next
  case (14 env c a b t live n)
  then show ?case by (auto simp: Let_def split: option.splits) (meson le_trans)+
next
  case (15 env x v b t live n)
  then show ?case by (auto simp: Let_def split: option.splits if_splits) (meson le_trans)+
qed (auto simp: Let_def borrow_tail_def drop_after_def split: option.splits if_splits dest: operands_rc_mono)

lemma many_operands_eval:
  assumes ck: "plain ck env" and v: "normal (re_captures env) D v" "unmixed env v"
    "case ce_kind v of KApp func _ _ _ \<Rightarrow> (case ce_kind func of KGlobal _ \<Rightarrow> True | _ \<Rightarrow> False) | _ \<Rightarrow> True"
    and fas: "many_operands env v = Some fas"
  shows "eval ck v R = try_fold (operand_step ck) fas R" "free_locals v = set (consumed_locals fas) \<union> lent_operands fas"
    "\<forall>a \<in> snd ` set fas. is_atom a" "unmixed_operands fas"
proof -
  obtain k t where k: "v = CExpr k t" by (cases v)
  have "eval ck v R = try_fold (operand_step ck) fas R \<and> free_locals v = set (consumed_locals fas) \<union> lent_operands fas
    \<and> (\<forall>a \<in> snd ` set fas. is_atom a) \<and> unmixed_operands fas"
  proof (cases k)
    case (KApp func args reuse al)
    with v(3) k obtain d t' where func: "func = CExpr (KGlobal d) t'" by (cases func) (auto split: expr_kind.splits)
    have fas': "fas = with_flags (call_flags (re_call_borrows env) func (length args)) args"
      using fas by (simp add: many_operands_def k KApp)
    have a: "\<forall>a \<in> snd ` set fas. is_atom a" using v(1) by (simp add: k KApp fas' with_flags_args)
    moreover have "free_locals v = set (consumed_locals fas) \<union> lent_operands fas"
      using operands_free [OF a] by (simp add: k KApp func fas' with_flags_args)
    moreover have "unmixed_operands fas" using v(2)
      by (simp add: k KApp fas' with_flags_Cons unmixed_operands_def func local_of_def)
    moreover have "eval ck v R = try_fold (operand_step ck) fas R"
      using v(1) by (simp add: k KApp fas' func operand_step_eq plainD [OF ck] List.map_filter_def)
        (simp add: and_then_def split: sum.splits)
    ultimately show ?thesis by blast
  next
    case (KPrim op args)
    with fas have fas': "fas = with_flags (prim_borrows op args) args" by (simp add: many_operands_def k split: if_splits)
    have a: "\<forall>a \<in> snd ` set fas. is_atom a" using v(1) by (simp add: k KPrim fas' with_flags_args)
    moreover have "free_locals v = set (consumed_locals fas) \<union> lent_operands fas"
      using operands_free [OF a] by (simp add: k KPrim fas' with_flags_args)
    ultimately show ?thesis using v(2) by (simp add: k KPrim fas' operand_step_eq)
  qed (use fas in \<open>simp_all add: many_operands_def k\<close>)
  then show "eval ck v R = try_fold (operand_step ck) fas R" "free_locals v = set (consumed_locals fas) \<union> lent_operands fas"
    "\<forall>a \<in> snd ` set fas. is_atom a" "unmixed_operands fas" by blast+
qed

lemma rc_owned_exact:
  assumes "rc_owned env e live n = Some (e', n')" "fits env D e live n R" "plain ck env"
  shows "exact ck e live n R e' n'"
  using assms
proof (induction env e live n arbitrary: e' n' D R rule: rc_owned.induct)
  case (1 env l t live n)
  then show ?case by (auto simp: exact_def peek_parent_def)
next
  case (4 env x t live n)
  then show ?case using exact_local [of ck env n x live R t] by (auto simp: fits_def Let_def)
next
  case (5 env op args t live n)
  have "normal (re_captures env) D (CExpr (KPrim op args) t)" "unmixed env (CExpr (KPrim op args) t)"
    and R: "ready env n ((\<Union>a \<in> set args. free_locals a) \<union> live) R" using 5 by (auto simp: fits_def)
  then have *: "\<forall>a \<in> set args. is_atom a" "unmixed_operands (with_flags (prim_borrows op args) args)"
    "op \<notin> {ArrayPrim PArrayPeek, ValuePrim PDataPeek}" by auto
  have small: "\<forall>a \<in> set args. \<forall>x \<in> free_locals a. x < n" using readyD_less [OF R] by blast
  have r: "operands_rc env args (prim_borrows op args) live (\<lambda>args. CExpr (KPrim op args) t) n = (e', n')" using 5 by simp
  show ?case unfolding exact_def
    using eval_operands_rc [OF "5.prems"(3) r *(1,2) R fits_live [OF "5.prems"(2)] small] rebuild_prim [OF _ _ *(3)]
    by simp
next
  case (6 env s args m t live n)
  show ?case
    by (rule exact_consuming [of ck env args live "\<lambda>args. CExpr (KForeign s args m) t"])
      (use 6 fits_live [OF "6.prems"(2)] in \<open>auto simp: fits_def peek_parent_def\<close>)
next
  case (7 env tag args reuse sc ni t live n)
  show ?case
    by (rule exact_consuming [of ck env args live "\<lambda>args. CExpr (KMakeData tag args reuse sc ni) t"])
      (use 7 fits_live [OF "7.prems"(2)] in \<open>auto simp: fits_def peek_parent_def and_then_def split: sum.splits\<close>)
next
  case (8 env args t live n)
  show ?case
    by (rule exact_consuming [of ck env args live "\<lambda>args. CExpr (KSpread args) t"])
      (use 8 fits_live [OF "8.prems"(2)] in \<open>auto simp: fits_def peek_parent_def\<close>)
next
  case (10 env func args reuse al t live n)
  let ?flags = "case ce_kind func of KGlobal d \<Rightarrow> re_call_borrows env d (length args) | _ \<Rightarrow> replicate (length args) False"
  have same: "with_flags ?flags args = with_flags (call_flags (re_call_borrows env) func (length args)) args"
    by (auto simp: call_flags_def with_flags_none split: expr_kind.splits)
  have *: "reuse = []" "is_atom func" "\<forall>a \<in> set args. is_atom a"
    "unmixed_operands ((False, func) # with_flags ?flags args)"
    "ready env n (free_locals func \<union> (\<Union>a \<in> set args. free_locals a) \<union> live) R"
    using "10.prems"(2) by (auto simp: fits_def with_flags_Cons same)
  have "operands_rc env (func # args) (False # ?flags) live (\<lambda>ops. CExpr (KApp (hd ops) (tl ops) [] al) t) n = (e', n')"
    using "10.prems"(1) *(1) by (simp add: Let_def)
  from exact_app [OF "10.prems"(3) this same *(2-5) fits_live [OF "10.prems"(2)]] show ?case using *(1) by simp
next
  case (11 env f xs al t live n)
  then show ?case using exact_closure [of ck env n xs live R f al t] by (auto simp: fits_def)
next
  case (12 env base index sc ni t live n)
  then show ?case
    by (intro exact_projection [of ck env D]) (auto simp: fits_def is_projection_def Let_def)
next
  case (13 env base ni t live n)
  then show ?case
    by (intro exact_projection [of ck env D]) (auto simp: fits_def is_projection_def Let_def)
next
  case (14 env c a b t live n)
  let ?cs = "re_captures env"
  from "14.prems"(1) obtain a2 n1 b2 where a2: "rc_owned env a live n = Some (a2, n1)" and b2: "rc_owned env b live n1 = Some (b2, n')"
    and e': "e' = (let B = live \<union> fv_owned a ?cs \<union> fv_owned b ?cs;
        i = CExpr (KIf c (dropify (sorted_list_of_set (B - fv_owned a ?cs - live)) a2) (dropify (sorted_list_of_set (B - fv_owned b ?cs - live)) b2)) t
      in case local_of c of Some x \<Rightarrow> if x \<in> ?cs \<or> x \<in> B then dup_op x i else i | None \<Rightarrow> i)"
    by (auto simp: Let_def split: option.splits prod.splits)
  note mono = rc_owned_mono [OF a2] rc_owned_mono [OF b2]
  have f: "is_atom c" "live \<inter> ?cs = {}" "fset (fmdom R) \<subseteq> D"
    "ready env n (free_locals c \<union> free_locals a \<union> free_locals b \<union> live) R" using "14.prems"(2) by (auto simp: fits_def)
  have fa: "fits env D a live n R'" if "ready env n (free_locals a \<union> live) R'" "fmdom R' = fmdom R" for R'
    using "14.prems"(2) that by (auto simp: fits_def)
  have fb: "fits env D b live n1 R'" if "ready env n (free_locals b \<union> live) R'" "fmdom R' = fmdom R" for R'
    using "14.prems"(2) that ready_subset [OF that(1) _ mono(1)] mono(1)
    by (auto simp: fits_def intro: less_le_trans)
  have "eval ck e' R = Inr (spend (free_locals c \<union> free_locals a \<union> free_locals b - live) R)"
    unfolding e' Let_def fv_owned_eq
  proof (rule exact_if [OF "14.prems"(3) f(1,2,4) finite_free finite_free _ _ refl refl])
    show "eval ck a2 R' = Inr (spend (free_locals a - live) R')" if "ready env n (free_locals a \<union> live) R'" "fmdom R' = fmdom R" for R'
      using "14.IH"(1) [OF refl refl refl a2 fa [OF that] "14.prems"(3)] by (simp add: exact_def)
    show "eval ck b2 R' = Inr (spend (free_locals b - live) R')" if "ready env n (free_locals b \<union> live) R'" "fmdom R' = fmdom R" for R'
      using "14.IH"(2) [OF refl refl refl a2 refl b2 fb [OF that] "14.prems"(3)] by (simp add: exact_def)
  qed
  moreover have "peek_parent e' = None" unfolding e' Let_def by (simp add: peek_parent_def dup_op_def split: option.splits)
  ultimately show ?case using mono by (simp add: exact_def)
next
  case (15 env x v b t live n)
  let ?cs = "re_captures env" and ?LV = "(free_locals b - re_captures env - set [x]) \<union> live" and ?ds = "filter (\<lambda>y. y \<notin> free_locals b) [x]"
  have f: "x \<notin> D \<union> ?cs" "normal ?cs D v" "unmixed env v" "live \<inter> ?cs = {}" "fset (fmdom R) \<subseteq> D" "x < n" "\<forall>y \<in> binders v. y < n"
    "ready env n (free_locals v \<union> (free_locals b - set [x]) \<union> live) R" using "15.prems"(2) by (auto simp: fits_def)
  have new: "fmlookup R x = None" using f(1,5) by (auto simp: fmdom_notD)
  from "15.prems"(1) obtain b2 n1 where b2: "rc_owned env b live n = Some (b2, n1)"
    by (auto simp: Let_def split: option.splits if_splits prod.splits)
  have b3: "(if x \<notin> fv_owned b ?cs \<and> x \<notin> ?cs then drop_op x b2 else b2) = dropify ?ds b2"
    using f(1) by (auto simp: fv_owned_eq dropify_single)
  note mono = rc_owned_mono [OF b2]
  have body: "eval ck b2 R' = Inr (spend (free_locals b - live) R')"
    if "ready env n (free_locals b \<union> live) R'" "fmdom R' = fset_of_list [x] |\<union>| fmdom R" for R'
  proof -
    have "fits env (insert x D) b live n R'" using "15.prems"(2) that by (auto simp: fits_def)
    from "15.IH"(1) [OF refl refl b2 this "15.prems"(3)] show ?thesis by (simp add: exact_def)
  qed
  obtain R2 where R2: "eval ck (dropify ?ds b2) (bind_ones [x] (spend (free_locals v - ?LV) R)) = Inr R2"
    "\<And>y. y \<in> set [x] \<Longrightarrow> lookup_count R2 y = 0"
    "fmdrop_set (set [x]) R2 = spend (free_locals v \<union> (free_locals b - set [x]) - live) R"
    by (rule exact_scope [OF "15.prems"(3) _ _ f(4,8) body, of ?ds]) (use f(1,6) new in auto)
  have goal: "exact ck (CExpr (KLet x v b) t) live n R (CExpr (KLet x v' b') t) n'"
    if "eval ck v' R = Inr R1" "peek_parent v' = None" "eval ck b' (fmupd x 1 R1) = Inr R2" "fmlookup R1 x = None" "n \<le> n'" for v' b' R1
    using eval_let [OF that(1,2,4,3) R2(2)] R2(3) that(5) by (simp add: exact_def peek_parent_def)
  have fvs: "(fv_owned b ?cs - {x}) \<union> live = ?LV" by (auto simp: fv_owned_eq)
  show ?case
  proof (cases "is_projection v")
    case True
    let ?dead = "dead_borrows env (projection_borrows v) ?LV"
    have e': "e' = CExpr (KLet x v (dropify ?dead (dropify ?ds b2))) t" "n' = n1"
      using "15.prems"(1) True b2 by (simp_all add: Let_def fvs b3)
    have Rv: "ready env n (free_locals v \<union> ((free_locals b - set [x]) \<union> live)) R" using f(8) by (simp add: Un_assoc)
    note proj = eval_projection [OF "15.prems"(3) f(2) True Rv]
    have dead: "set ?dead = free_locals v - ?cs - ?LV" unfolding set_dead_borrows proj(3) by simp
    have "eval ck (dropify ?dead (dropify ?ds b2)) (bind_ones [x] R) = eval ck (dropify ?ds b2) (spend (set ?dead) (bind_ones [x] R))"
    proof (rule eval_dropify [OF "15.prems"(3)])
      fix y assume "y \<in> set ?dead"
      then have "y \<in> free_locals v" "y \<notin> ?cs" unfolding dead by auto
      moreover from this have "fmlookup R y = Some 1" using readyD(2) [OF f(8)] by blast
      ultimately show "y \<notin> ?cs \<and> fmlookup (bind_ones [x] R) y = Some 1" by simp
    qed
    also have "set [x] \<inter> set ?dead = {}" using new readyD(2) [OF f(8), of x] unfolding dead by auto
    then have "spend (set ?dead) (bind_ones [x] R) = bind_ones [x] (spend (set ?dead) R)" by (rule spend_bind_ones)
    also have "spend (set ?dead) R = spend (free_locals v - ?LV) R"
      unfolding dead by (rule spend_cong) (use readyD(1) [OF f(8)] in auto)
    finally have "eval ck (dropify ?dead (dropify ?ds b2)) (fmupd x 1 R) = Inr R2" using R2(1) by (simp add: bind_ones_single)
    from goal [OF proj(1,2) this new] e' mono show ?thesis by simp
  next
    case False
    then obtain v2 where v2: "rc_owned env v ?LV n1 = Some (v2, n')" and e': "e' = CExpr (KLet x v2 (dropify ?ds b2)) t"
      using "15.prems"(1) b2 by (auto simp: Let_def fvs b3 split: option.splits prod.splits)
    have "fits env D v ?LV n1 R"
      using f mono ready_subset [OF f(8) _ mono, of "free_locals v \<union> ?LV"]
      by (auto simp: fits_def intro: less_le_trans)
    from "15.IH"(2) [OF refl refl b2 refl refl False v2 [folded fvs] this [folded fvs] "15.prems"(3)]
    have "exact ck v ?LV n1 R v2 n'" unfolding fvs .
    then show ?thesis unfolding e' using R2(1) new mono
      by (intro goal [of v2 "spend (free_locals v - ?LV) R"]) (auto simp: exact_def bind_ones_single)
  qed
next
  case (9 env xs v b t live n)
  let ?cs = "re_captures env" and ?LA = "(free_locals b - re_captures env - set xs) \<union> live" and ?ds = "filter (\<lambda>y. y \<notin> fv_owned b (re_captures env)) xs"
  have f: "set xs \<inter> (D \<union> ?cs) = {}" "normal ?cs D v" "unmixed env v" "live \<inter> ?cs = {}" "fset (fmdom R) \<subseteq> D" "\<forall>x \<in> set xs. x < n"
    "\<forall>y \<in> binders v. y < n" "ready env n (free_locals v \<union> (free_locals b - set xs) \<union> live) R" "distinct xs"
    "case ce_kind v of KApp func _ _ _ \<Rightarrow> (case ce_kind func of KGlobal _ \<Rightarrow> True | _ \<Rightarrow> False) | _ \<Rightarrow> True"
    using "9.prems"(2) by (auto simp: fits_def)
  have new: "fmlookup R x = None" if "x \<in> set xs" for x using f(1,5) that by (auto simp: fmdom_notD disjoint_iff)
  from "9.prems"(1) obtain b2 n1 where b2: "rc_owned env b live n = Some (b2, n1)"
    by (auto simp: Let_def split: option.splits if_splits prod.splits)
  note mono = rc_owned_mono [OF b2]
  have body: "eval ck b2 R' = Inr (spend (free_locals b - live) R')"
    if "ready env n (free_locals b \<union> live) R'" "fmdom R' = fset_of_list xs |\<union>| fmdom R" for R'
  proof -
    have "fits env (set xs \<union> D) b live n R'" using "9.prems"(2) that by (auto simp: fits_def fset_of_list_elem)
    from "9.IH"(1) [OF refl refl b2 this "9.prems"(3)] show ?thesis by (simp add: exact_def)
  qed
  obtain R2 where R2: "eval ck (dropify ?ds b2) (bind_ones xs (spend (free_locals v - ?LA) R)) = Inr R2"
    "\<And>y. y \<in> set xs \<Longrightarrow> lookup_count R2 y = 0"
    "fmdrop_set (set xs) R2 = spend (free_locals v \<union> (free_locals b - set xs) - live) R"
    by (rule exact_scope [OF "9.prems"(3) _ _ f(4,8) body, of ?ds]) (use f(1,6) new in \<open>auto simp: fv_owned_eq\<close>)
  have fvs: "(fv_owned b ?cs - set xs) \<union> live = ?LA" by (simp add: fv_owned_eq)
  show ?case
  proof (cases "many_operands env v")
    case None
    then obtain v2 where v2: "rc_owned env v ?LA n1 = Some (v2, n')" and e': "e' = CExpr (KLetMany xs v2 (dropify ?ds b2)) t"
      using "9.prems"(1) b2 by (auto simp: Let_def fvs split: option.splits prod.splits)
    have "fits env D v ?LA n1 R"
      using f mono ready_subset [OF f(8) _ mono, of "free_locals v \<union> ?LA"]
      by (auto simp: fits_def intro: less_le_trans)
    from "9.IH"(2) [OF refl refl b2 refl refl None v2 [folded fvs] this [folded fvs] "9.prems"(3)]
    have v: "exact ck v ?LA n1 R v2 n'" unfolding fvs .
    have "eval ck e' R = Inr (fmdrop_set (set xs) R2)" unfolding e'
      by (rule eval_let_many [OF _ f(9) _ R2(1,2)]) (use v new in \<open>simp_all add: exact_def\<close>)
    with v mono R2(3) show ?thesis by (simp add: exact_def e' peek_parent_def)
  next
    case (Some fas)
    let ?dead = "dead_operands ?cs ?LA fas" and ?dups = "operand_dups ?cs ?LA fas"
    have e': "e' = foldr dup_op ?dups (CExpr (KLetMany xs v (dropify ?dead (dropify ?ds b2))) t)" "n' = n1"
      using "9.prems"(1) b2 Some by (simp_all add: Let_def fvs)
    note ops = many_operands_eval [OF "9.prems"(3) f(2,3,10) Some]
    have "ready env n (set (consumed_locals fas) \<union> lent_operands fas \<union> ?LA) R"
      by (rule ready_subset [OF f(8)]) (auto simp: ops(2))
    with "9.prems"(3) ops(3,4) obtain R1 where R1: "\<And>e. eval ck (foldr dup_op ?dups e) R = eval ck e R1"
      "try_fold (operand_step ck) fas R1 = Inr (spend (set (consumed_locals fas) - ?LA) R)" by (rule eval_dup_operands) blast
    let ?Rv = "spend (set (consumed_locals fas) - ?LA) R"
    have dead: "set ?dead = lent_operands fas - ?cs - ?LA - set (consumed_locals fas)" by (rule set_dead_operands)
    have one: "fmlookup R y = Some 1" if "y \<in> set ?dead" for y
      using that readyD(2) [OF f(8), of y] by (auto simp: dead ops(2))
    have "eval ck (dropify ?dead (dropify ?ds b2)) (bind_ones xs ?Rv) = eval ck (dropify ?ds b2) (spend (set ?dead) (bind_ones xs ?Rv))"
    proof (rule eval_dropify [OF "9.prems"(3)])
      fix y assume "y \<in> set ?dead"
      with one [of y] show "y \<notin> ?cs \<and> fmlookup (bind_ones xs ?Rv) y = Some 1" by (auto simp: dead)
    qed
    also have "set xs \<inter> set ?dead = {}" using new one by (fastforce simp: disjoint_iff)
    then have "spend (set ?dead) (bind_ones xs ?Rv) = bind_ones xs (spend (set ?dead) ?Rv)" by (rule spend_bind_ones)
    also have "spend (set ?dead) ?Rv = spend (free_locals v - ?LA) R"
      unfolding spend_spend dead ops(2) by (rule spend_cong) (use readyD(1) [OF f(8)] in auto)
    finally have b: "eval ck (dropify ?dead (dropify ?ds b2)) (bind_ones xs ?Rv) = Inr R2" using R2(1) by simp
    have "eval ck (CExpr (KLetMany xs v (dropify ?dead (dropify ?ds b2))) t) R1 = Inr (fmdrop_set (set xs) R2)"
      by (rule eval_let_many [OF _ f(9) _ b R2(2)]) (use ops(1) R1(2) new in simp_all)
    moreover have "peek_parent e' = None" unfolding e'(1) by (rule peek_parent_dups) (simp add: peek_parent_def)
    ultimately show ?thesis using R1(1) R2(3) mono by (simp add: exact_def e')
  qed
qed (auto simp: fits_def exact_def peek_parent_def)

end
