(* ===== verification/Fai_Anf.thy ===== *)
theory Fai_Anf
  imports Fai_Counting
begin

text \<open>
  The insertion as a whole: it returns on every lowered body, A-normal form delivers what counting
  expects, and the functions it produces are accepted by the checker, so all their runs use
  references soundly.
\<close>

section \<open>The shape of counted bodies\<close>

lemma rc_owned_total: "normal cs D e \<Longrightarrow> \<exists>e' n'. rc_owned env e live n = Some (e', n')"
proof (induction cs D e arbitrary: live n rule: normal.induct)
  case (13 cs D c a b t)
  then obtain a2 n1 where a: "rc_owned env a live n = Some (a2, n1)" by fastforce
  from 13 obtain b2 n2 where "rc_owned env b live n1 = Some (b2, n2)" by fastforce
  with a show ?case by (simp add: Let_def)
next
  case (14 cs D x v b t)
  then obtain b2 n1 where b: "rc_owned env b live n = Some (b2, n1)" by fastforce
  from 14 obtain v2 n2 where "rc_owned env v ((fv_owned b (re_captures env) - {x}) \<union> live) n1 = Some (v2, n2)" by fastforce
  with b show ?case by (simp add: Let_def)
next
  case (15 cs D xs v b t)
  then obtain b2 n1 where b: "rc_owned env b live n = Some (b2, n1)" by fastforce
  from 15 obtain v2 n2 where "rc_owned env v ((fv_owned b (re_captures env) - set xs) \<union> live) n1 = Some (v2, n2)" by fastforce
  with b show ?case by (auto simp: Let_def split: option.splits)
qed (auto simp: Let_def)

text \<open>Binders of the result are binders of the input or fresh, and no jump appears.\<close>

definition plain_shape :: "cexpr \<Rightarrow> local_id set \<Rightarrow> bool" where
  "plain_shape e A \<longleftrightarrow> binders e \<subseteq> A \<and> no_jump False e"

lemma plain_shape_simps [simp]:
  "plain_shape (CExpr (KLit l) t) A" "plain_shape (CExpr (KGlobal d) t) A" "plain_shape (CExpr KError t) A"
  "plain_shape (CExpr (KLocal x) t) A" "plain_shape (CExpr (KMakeClosure f xs al) t) A"
  "plain_shape (CExpr (KPrim op args) t) A \<longleftrightarrow> (\<forall>a \<in> set args. plain_shape a A)"
  "plain_shape (CExpr (KForeign s args m) t) A \<longleftrightarrow> (\<forall>a \<in> set args. plain_shape a A)"
  "plain_shape (CExpr (KMakeData tag args reuse sc ni) t) A \<longleftrightarrow> (\<forall>a \<in> set args. plain_shape a A)"
  "plain_shape (CExpr (KSpread args) t) A \<longleftrightarrow> (\<forall>a \<in> set args. plain_shape a A)"
  "plain_shape (CExpr (KApp func args toks al) t) A \<longleftrightarrow> plain_shape func A \<and> (\<forall>a \<in> set args. plain_shape a A)"
  "plain_shape (CExpr (KDataTag base ni) t) A \<longleftrightarrow> plain_shape base A"
  "plain_shape (CExpr (KDataField base ix fl ni) t) A \<longleftrightarrow> plain_shape base A"
  "plain_shape (CExpr (KIf c a b) t) A \<longleftrightarrow> plain_shape c A \<and> plain_shape a A \<and> plain_shape b A"
  "plain_shape (CExpr (KLet x v b) t) A \<longleftrightarrow> x \<in> A \<and> plain_shape v A \<and> plain_shape b A"
  "plain_shape (CExpr (KLetMany xs v b) t) A \<longleftrightarrow> set xs \<subseteq> A \<and> plain_shape v A \<and> plain_shape b A"
  "plain_shape (dup_op x e) A \<longleftrightarrow> plain_shape e A"
  "plain_shape (drop_op x e) A \<longleftrightarrow> plain_shape e A"
  by (auto simp: plain_shape_def dup_op_def drop_op_def)

lemma plain_shape_mono: "plain_shape e A \<Longrightarrow> A \<subseteq> B \<Longrightarrow> plain_shape e B"
  by (auto simp: plain_shape_def)

lemma plain_shape_dups [simp]: "plain_shape (foldr dup_op ds e) A \<longleftrightarrow> plain_shape e A"
  by (induction ds) simp_all

lemma plain_shape_dropify [simp]: "plain_shape (dropify ds e) A \<longleftrightarrow> plain_shape e A"
proof -
  have "plain_shape (foldr drop_op ds e) A \<longleftrightarrow> plain_shape e A" for ds by (induction ds) simp_all
  then show ?thesis by (simp add: dropify_def)
qed

lemma plain_shape_atom: "is_atom a \<Longrightarrow> plain_shape a A"
  by (cases a) (auto simp: is_atom_def split: expr_kind.splits)

lemma plain_shape_wrap:
  "plain_shape (wrap_binds bs e) A \<longleftrightarrow> (\<forall>(x, v) \<in> set bs. x \<in> A \<and> plain_shape v A) \<and> plain_shape e A"
  by (induction bs) (auto simp: wrap_binds_def)

lemma operands_rc_shape:
  assumes r: "operands_rc env ops bs live rebuild n = (e', n')" and atoms: "\<forall>a \<in> set ops. is_atom a"
    and rebuild: "\<And>ops'. length ops' = length ops \<Longrightarrow> \<forall>a \<in> set ops'. is_atom a \<Longrightarrow> plain_shape (rebuild ops') {}"
  shows "plain_shape e' {n..<n'}"
proof -
  obtain fas pre m where b: "bind_lent (with_flags bs ops) [] n = (fas, pre, m)" by (cases "bind_lent (with_flags bs ops) [] n") auto
  from bind_lent_shape [OF b] atoms obtain pre: "map fst pre = [n..<m]" "n \<le> m" "\<forall>(x, a) \<in> set pre. is_atom a \<and> local_of a = None"
    and fas: "map fst fas = map fst (with_flags bs ops)" "\<forall>a \<in> snd ` set fas. is_atom a" by (auto simp: with_flags_args)
  have "length fas = length ops" using arg_cong [OF fas(1), of length] by (simp add: with_flags_def)
  then have re: "plain_shape (rebuild (map snd fas)) {}" by (intro rebuild) (use fas(2) in auto)
  from r have e': "e' = wrap_binds pre (foldr dup_op (operand_dups (re_captures env) live fas)
      (fst (drop_after (dead_operands (re_captures env) live fas) (rebuild (map snd fas)) m)))"
    "n' = snd (drop_after (dead_operands (re_captures env) live fas) (rebuild (map snd fas)) m)"
    by (auto simp: operands_rc_def b Let_def split: prod.splits)
  have "m \<le> n'" using drop_after_mono e'(2) by simp
  moreover have "fst ` set pre = {n..<m}" using pre(1) by (metis set_map set_upt)
  ultimately have "x \<in> {n..<n'} \<and> plain_shape v {n..<n'}" if "(x, v) \<in> set pre" for x v
    using pre(3) that plain_shape_atom [of v] by (metis (no_types, lifting) atLeastLessThan_iff case_prodD fst_conv imageI less_le_trans)
  then have "\<forall>(x, v) \<in> set pre. x \<in> {n..<n'} \<and> plain_shape v {n..<n'}" by blast
  moreover have "plain_shape (fst (drop_after (dead_operands (re_captures env) live fas) (rebuild (map snd fas)) m)) {n..<n'}"
    using plain_shape_mono [OF re] pre(2) e'(2) by (auto simp: drop_after_def)
  ultimately show ?thesis unfolding e'(1) by (simp add: plain_shape_wrap)
qed

lemma rc_owned_shape:
  "rc_owned env e live n = Some (e', n') \<Longrightarrow> normal cs D e \<Longrightarrow> plain_shape e' (binders e \<union> {n..<n'})"
proof (induction env e live n arbitrary: e' n' D rule: rc_owned.induct)
  case (5 env op args t live n)
  then have "plain_shape e' {n..<n'}"
    by (intro operands_rc_shape [of env args "prim_borrows op args" live "\<lambda>args. CExpr (KPrim op args) t"])
      (auto intro: plain_shape_atom)
  then show ?case by (rule plain_shape_mono) auto
next
  case (6 env s args m t live n)
  then have "plain_shape e' {n..<n'}"
    by (intro operands_rc_shape [of env args "replicate (length args) False" live "\<lambda>args. CExpr (KForeign s args m) t"])
      (auto intro: plain_shape_atom)
  then show ?case by (rule plain_shape_mono) auto
next
  case (7 env tag args re sc ni t live n)
  then have "plain_shape e' {n..<n'}"
    by (intro operands_rc_shape [of env args "replicate (length args) False" live "\<lambda>args. CExpr (KMakeData tag args re sc ni) t"])
      (auto intro: plain_shape_atom)
  then show ?case by (rule plain_shape_mono) auto
next
  case (8 env args t live n)
  then have "plain_shape e' {n..<n'}"
    by (intro operands_rc_shape [of env args "replicate (length args) False" live "\<lambda>args. CExpr (KSpread args) t"])
      (auto intro: plain_shape_atom)
  then show ?case by (rule plain_shape_mono) auto
next
  case (10 env func args toks al t live n)
  have "plain_shape e' {n..<n'}"
  proof (rule operands_rc_shape)
    show "operands_rc env (func # args) (False # (case ce_kind func of KGlobal d \<Rightarrow> re_call_borrows env d (length args)
        | _ \<Rightarrow> replicate (length args) False)) live (\<lambda>ops. CExpr (KApp (hd ops) (tl ops) toks al) t) n = (e', n')"
      using 10 by (simp add: Let_def)
    show "plain_shape (CExpr (KApp (hd ops) (tl ops) toks al) t) {}"
      if "length ops = length (func # args)" "\<forall>a \<in> set ops. is_atom a" for ops
      using that by (cases ops) (auto intro: plain_shape_atom)
  qed (use 10 in auto)
  then show ?case by (rule plain_shape_mono) auto
next
  case (9 env xs v b t live n)
  from "9.prems"(1) obtain b2 n1 where b2: "rc_owned env b live n = Some (b2, n1)"
    by (auto simp: Let_def split: option.splits if_splits prod.splits)
  have v: "plain_shape v (binders v)" if "many_operands env v = Some fas" for fas
    using that "9.prems"(2) plain_shape_atom by (cases v) (auto simp: many_operands_def split: expr_kind.splits if_splits)
  have b: "plain_shape b2 (binders b \<union> {n..<n1})" using 9 b2 by auto
  show ?case
  proof (cases "many_operands env v")
    case None
    then obtain v2 where v2: "rc_owned env v ((fv_owned b (re_captures env) - set xs) \<union> live) n1 = Some (v2, n')"
      and e': "e' = CExpr (KLetMany xs v2 (dropify (filter (\<lambda>x. x \<notin> fv_owned b (re_captures env)) xs) b2)) t"
      using "9.prems"(1) b2 by (auto simp: Let_def split: option.splits prod.splits)
    have "plain_shape v2 (binders v \<union> {n1..<n'})" using "9.IH"(2) [OF refl refl b2 refl refl None v2] "9.prems"(2) by auto
    with b show ?thesis using rc_owned_mono [OF b2] rc_owned_mono [OF v2] unfolding e'
      by (auto elim!: plain_shape_mono)
  next
    case (Some fas)
    with "9.prems"(1) b2 have "plain_shape e' A \<longleftrightarrow> set xs \<subseteq> A \<and> plain_shape v A \<and> plain_shape b2 A" "n' = n1" for A
      by (auto simp: Let_def)
    with b v [OF Some] show ?thesis by (auto elim!: plain_shape_mono)
  qed
next
  case (14 env c a b t live n)
  from "14.prems"(1) obtain a2 n1 b2 where a2: "rc_owned env a live n = Some (a2, n1)" and b2: "rc_owned env b live n1 = Some (b2, n')"
    by (auto simp: Let_def split: option.splits prod.splits)
  have sub: "plain_shape a2 (binders a \<union> {n..<n1})" "plain_shape b2 (binders b \<union> {n1..<n'})" "plain_shape c {}"
    using "14.IH"(1) [OF refl refl refl a2] "14.IH"(2) [OF refl refl refl a2 refl b2] "14.prems"(2)
    by (auto intro: plain_shape_atom)
  have "plain_shape e' A \<longleftrightarrow> plain_shape c A \<and> plain_shape a2 A \<and> plain_shape b2 A" for A
    using "14.prems"(1) a2 b2 by (auto simp: Let_def split: option.splits if_splits)
  with sub show ?case using rc_owned_mono [OF a2] rc_owned_mono [OF b2] by (auto elim!: plain_shape_mono)
next
  case (15 env x v b t live n)
  from "15.prems"(1) obtain b2 n1 where b2: "rc_owned env b live n = Some (b2, n1)"
    by (auto simp: Let_def split: option.splits if_splits prod.splits)
  have b: "plain_shape b2 (binders b \<union> {n..<n1})" using "15.IH"(1) [OF refl refl b2] "15.prems"(2) by auto
  show ?case
  proof (cases "is_projection v")
    case True
    then have v: "plain_shape v {}" using "15.prems"(2)
      by (cases v) (auto simp: is_projection_def split: expr_kind.splits intro: plain_shape_atom is_local_atom)
    have "plain_shape e' A \<longleftrightarrow> x \<in> A \<and> plain_shape v A \<and> plain_shape b2 A" "n' = n1" for A
      using "15.prems"(1) b2 True by (auto simp: Let_def split: if_splits)
    with v b show ?thesis by (auto elim!: plain_shape_mono)
  next
    case False
    then obtain v2 where v2: "rc_owned env v ((fv_owned b (re_captures env) - {x}) \<union> live) n1 = Some (v2, n')"
      using "15.prems"(1) b2 by (auto simp: Let_def split: option.splits prod.splits)
    have v: "plain_shape v2 (binders v \<union> {n1..<n'})" using "15.IH"(2) [OF refl refl b2 refl refl False v2] "15.prems"(2) by auto
    have e': "plain_shape e' A \<longleftrightarrow> x \<in> A \<and> plain_shape v2 A \<and> plain_shape b2 A" for A
      using "15.prems"(1) b2 False v2 by (auto simp: Let_def split: if_splits)
    have "plain_shape v2 (insert x (binders v \<union> binders b) \<union> {n..<n'})" "plain_shape b2 (insert x (binders v \<union> binders b) \<union> {n..<n'})"
      using rc_owned_mono [OF b2] rc_owned_mono [OF v2] by (intro plain_shape_mono [OF v] plain_shape_mono [OF b]; auto)+
    then show ?thesis by (simp add: e')
  qed
qed (auto simp: Let_def borrow_tail_def drop_after_def is_local_atom plain_shape_atom split: if_splits)

section \<open>Counted functions are accepted\<close>

lemma no_jump_loop_shape:
  assumes "no_jump False e"
  shows "loop_shape lent owned e"
proof -
  obtain k t where e: "e = CExpr k t" by (cases e)
  show ?thesis
  proof (cases k)
    case (KHoleStart h b)
    obtain kb tb where "b = CExpr kb tb" by (cases b)
    with assms show ?thesis by (cases kb) (simp_all add: loop_shape_def e KHoleStart)
  qed (use assms in \<open>simp_all add: loop_shape_def e\<close>)
qed

lemma owned_params_filter:
  assumes "set (owned_params lent f) \<inter> lent_locals lent f = {}"
  shows "filter (\<lambda>p. p \<notin> lent_locals lent f) (cf_params f) = owned_params lent f"
proof -
  let ?e = "enumerate 0 (cf_params f)"
  have "p \<in> lent_locals lent f \<longleftrightarrow> lent pos" if "(pos, p) \<in> set ?e" for pos p
    using that assms unfolding lent_locals_def owned_params_def by (fastforce simp: disjoint_iff image_iff)
  then have "filter (\<lambda>(pos, p). \<not> lent pos) ?e = filter (\<lambda>(pos, p). p \<notin> lent_locals lent f) ?e"
    by (intro filter_cong) auto
  moreover have "map snd (filter (\<lambda>(pos, p). P p) ?e) = filter P (map snd ?e)" for P
    unfolding case_prod_unfold filter_map [of P snd, unfolded comp_def, symmetric] by simp
  ultimately show ?thesis by (simp add: owned_params_def)
qed

lemma eval_drop_unused:
  assumes ck: "plain ck env" and ps: "distinct (filter (\<lambda>p. p \<notin> re_captures env) params)"
    "\<And>p. p \<in> set params \<Longrightarrow> p \<notin> re_captures env \<Longrightarrow> fmlookup R p = Some 1"
  shows "eval ck (drop_unused params used (re_captures env) e) R = eval ck e (spend (set params - used - re_captures env) R)"
proof -
  have "drop_unused params used (re_captures env) e = foldr drop_op (filter (\<lambda>p. p \<notin> used \<and> p \<notin> re_captures env) params) e"
    unfolding drop_unused_def by (induction params) auto
  moreover have "eval ck (foldr drop_op (filter (\<lambda>p. p \<notin> used \<and> p \<notin> re_captures env) params) e) R
    = eval ck e (spend (set (filter (\<lambda>p. p \<notin> used \<and> p \<notin> re_captures env) params)) R)"
  proof (rule eval_drops [OF ck])
    have "distinct (filter (\<lambda>p. p \<notin> used) (filter (\<lambda>p. p \<notin> re_captures env) params))" using ps(1) by (rule distinct_filter)
    then show "distinct (filter (\<lambda>p. p \<notin> used \<and> p \<notin> re_captures env) params)" by (simp add: conj_commute)
  qed (use ps(2) in auto)
  moreover have "set (filter (\<lambda>p. p \<notin> used \<and> p \<notin> re_captures env) params) = set params - used - re_captures env" by auto
  ultimately show ?thesis by simp
qed

text \<open>A function the insertion can count: its names are distinct and below the counter.\<close>

definition countable :: "(nat \<Rightarrow> bool) \<Rightarrow> core_fn \<Rightarrow> nat \<Rightarrow> bool" where
  "countable lent f n \<longleftrightarrow>
     distinct (owned_params lent f) \<and> set (owned_params lent f) \<inter> lent_locals lent f = {} \<and>
     (\<forall>x \<in> set (owned_params lent f) \<union> lent_locals lent f. x < n)"

lemma counted_accepted:
  assumes f: "countable lent f n" and env: "re_captures env = lent_locals lent f" "re_call_borrows env = ab"
    and b: "normal (re_captures env) (set (owned_params lent f)) b" "unmixed env b" "\<forall>x \<in> binders b. x < n"
    and r: "rc_owned env b {} n = Some (e, n')"
  shows "check_body ab i err (lent_locals lent f) (initial_refs lent f)
    (drop_unused (cf_params f) (fv_owned b (re_captures env)) (re_captures env) e) = Inr ()"
proof -
  let ?ck = "\<lparr>ck_captures = lent_locals lent f, ck_fn_index = i, ck_arg_borrows = ab, ck_projections = fmempty, ck_loop_borrowed = None\<rparr>"
  let ?cs = "re_captures env" and ?R = "initial_refs lent f" and ?U = "set (cf_params f) - fv_owned b (re_captures env) - re_captures env"
  have ck: "plain ?ck env" by (simp add: plain_def env)
  have owned: "filter (\<lambda>p. p \<notin> ?cs) (cf_params f) = owned_params lent f"
    unfolding env by (rule owned_params_filter) (use f in \<open>simp add: countable_def\<close>)
  then have ps: "p \<in> set (owned_params lent f)" if "p \<in> set (cf_params f)" "p \<notin> ?cs" for p using that unfolding owned [symmetric] by simp
  have free: "x \<in> set (owned_params lent f)" if "x \<in> free_locals b" "x \<notin> ?cs" for x using normal_free [OF b(1)] that by blast
  have "eval ?ck (drop_unused (cf_params f) (fv_owned b ?cs) ?cs e) ?R = eval ?ck e (spend ?U ?R)"
    by (rule eval_drop_unused [OF ck]) (use f ps in \<open>simp_all add: owned countable_def initial_refs_lookup\<close>)
  also have "fits env (set (owned_params lent f)) b {} n (spend ?U ?R)"
    using f b free unfolding fits_def ready_def countable_def env
    by (auto simp: initial_refs_lookup fmlookup_dom_iff fv_owned_eq env split: if_splits)
  with rc_owned_exact [OF r _ ck] have "eval ?ck e (spend ?U ?R) = Inr (spend (free_locals b) (spend ?U ?R))" by (simp add: exact_def)
  finally have ev: "eval ?ck (drop_unused (cf_params f) (fv_owned b ?cs) ?cs e) ?R = Inr (spend (free_locals b \<union> ?U) ?R)" by simp
  have "fmlookup (spend (free_locals b \<union> ?U) ?R) x = Some 0" if "x |\<in>| fmdom (spend (free_locals b \<union> ?U) ?R)" for x
  proof -
    from that have x: "x \<in> set (owned_params lent f)" by (auto simp: fmlookup_dom_iff initial_refs_lookup split: if_splits)
    then have "x \<in> set (cf_params f)" "x \<notin> ?cs" unfolding owned [symmetric] by simp_all
    with x show ?thesis by (auto simp: initial_refs_lookup fv_owned_eq)
  qed
  then have "filter (\<lambda>l. fmlookup (spend (free_locals b \<union> ?U) ?R) l \<noteq> Some 0) (sorted_list_of_fset (fmdom (spend (free_locals b \<union> ?U) ?R))) = []"
    by (auto simp: filter_empty_conv)
  with ev show ?thesis by (simp add: check_body_def)
qed

section \<open>A-normal form\<close>

text \<open>
  The bodies lowering produces: none of the forms of later passes, and no name bound twice, so that
  hoisting a binding out of an operand captures nothing.
\<close>

fun source_form :: "cexpr \<Rightarrow> bool" where
  "source_form (CExpr (KLit _) _) \<longleftrightarrow> True"
| "source_form (CExpr (KGlobal _) _) \<longleftrightarrow> True"
| "source_form (CExpr KError _) \<longleftrightarrow> True"
| "source_form (CExpr (KLocal _) _) \<longleftrightarrow> True"
| "source_form (CExpr (KMakeClosure _ _ _) _) \<longleftrightarrow> True"
| "source_form (CExpr (KPrim op args) _) \<longleftrightarrow>
     op \<notin> {ArrayPrim PArrayPeek, ValuePrim PDataPeek} \<and> (\<forall>a \<in> set args. source_form a)"
| "source_form (CExpr (KForeign _ args _) _) \<longleftrightarrow> (\<forall>a \<in> set args. source_form a)"
| "source_form (CExpr (KMakeData _ args reuse _ _) _) \<longleftrightarrow> reuse = None \<and> (\<forall>a \<in> set args. source_form a)"
| "source_form (CExpr (KSpread args) _) \<longleftrightarrow> (\<forall>a \<in> set args. source_form a)"
| "source_form (CExpr (KApp func args toks _) _) \<longleftrightarrow> toks = [] \<and> source_form func \<and> (\<forall>a \<in> set args. source_form a)"
| "source_form (CExpr (KDataTag base _) _) \<longleftrightarrow> source_form base"
| "source_form (CExpr (KDataField base _ _ _) _) \<longleftrightarrow> source_form base"
| "source_form (CExpr (KIf c a b) _) \<longleftrightarrow> source_form c \<and> source_form a \<and> source_form b"
| "source_form (CExpr (KLet _ v b) _) \<longleftrightarrow> source_form v \<and> source_form b"
| "source_form (CExpr (KLetMany xs v b) _) \<longleftrightarrow>
     source_form v \<and> source_form b \<and>
     (case ce_kind v of KApp func _ _ _ \<Rightarrow> (case ce_kind func of KGlobal _ \<Rightarrow> True | _ \<Rightarrow> False) | _ \<Rightarrow> True)"
| "source_form _ \<longleftrightarrow> False"

fun binder_list :: "cexpr \<Rightarrow> local_id list" where
  "binder_list (CExpr (KPrim _ args) _) = concat (map binder_list args)"
| "binder_list (CExpr (KForeign _ args _) _) = concat (map binder_list args)"
| "binder_list (CExpr (KMakeData _ args _ _ _) _) = concat (map binder_list args)"
| "binder_list (CExpr (KSpread args) _) = concat (map binder_list args)"
| "binder_list (CExpr (KApp func args _ _) _) = binder_list func @ concat (map binder_list args)"
| "binder_list (CExpr (KDataTag base _) _) = binder_list base"
| "binder_list (CExpr (KDataField base _ _ _) _) = binder_list base"
| "binder_list (CExpr (KIf c a b) _) = binder_list c @ binder_list a @ binder_list b"
| "binder_list (CExpr (KLet x v b) _) = x # binder_list v @ binder_list b"
| "binder_list (CExpr (KLetMany xs v b) _) = xs @ binder_list v @ binder_list b"
| "binder_list _ = []"

lemma set_binder_list: "source_form e \<Longrightarrow> set (binder_list e) = binders e"
  by (induction e rule: source_form.induct) auto

lemma normal_weaken: "normal cs D e \<Longrightarrow> E \<inter> binders e = {} \<Longrightarrow> normal cs (D \<union> E) e"
proof (induction cs D e rule: normal.induct)
  case (14 cs D x v b t)
  then have "normal cs (insert x D \<union> E) b" by (auto simp: disjoint_iff)
  with 14 show ?case by (auto simp: disjoint_iff)
next
  case (15 cs D xs v b t)
  then have "normal cs ((set xs \<union> D) \<union> E) b" by (auto simp: disjoint_iff)
  with 15 show ?case by (auto simp: disjoint_iff Un_assoc)
qed (auto simp: disjoint_iff)

lemma binders_atom: "is_atom a \<Longrightarrow> binders a = {}"
  by (cases a) (auto simp: is_atom_def split: expr_kind.splits)

text \<open>A sequence of bindings, and the scope after it.\<close>

fun binds_ok :: "local_id set \<Rightarrow> local_id set \<Rightarrow> binds \<Rightarrow> bool" where
  "binds_ok cs D [] \<longleftrightarrow> True"
| "binds_ok cs D ((x, v) # bs) \<longleftrightarrow> x \<notin> D \<union> cs \<and> normal cs D v \<and> binds_ok cs (insert x D) bs"

abbreviation names :: "binds \<Rightarrow> local_id set" where
  "names bs \<equiv> fst ` set bs"

definition bound :: "binds \<Rightarrow> local_id set" where
  "bound bs = (\<Union>(x, v) \<in> set bs. insert x (binders v))"

lemma bound_simps [simp]: "bound [] = {}" "bound ((x, v) # bs) = insert x (binders v) \<union> bound bs" "bound (as @ bs) = bound as \<union> bound bs"
  by (auto simp: bound_def)

lemma names_bound: "names bs \<subseteq> bound bs"
  by (force simp: bound_def)

lemma binds_ok_append: "binds_ok cs D (as @ bs) \<longleftrightarrow> binds_ok cs D as \<and> binds_ok cs (D \<union> names as) bs"
  by (induction cs D as rule: binds_ok.induct) auto

lemma normal_wrap: "normal cs D (wrap_binds bs e) \<longleftrightarrow> binds_ok cs D bs \<and> normal cs (D \<union> names bs) e"
  by (induction cs D bs rule: binds_ok.induct) (auto simp: wrap_binds_def)

lemma binders_wrap: "binders (wrap_binds bs e) = bound bs \<union> binders e"
  by (induction bs) (auto simp: wrap_binds_def)

text \<open>
  What normalizing an expression yields: bindings and an operation, well-formed one after the other,
  whose binders come from the expression or the counter.
\<close>

definition in_scope :: "local_id set \<Rightarrow> local_id set \<Rightarrow> local_id set \<Rightarrow> local_id set \<Rightarrow> nat \<Rightarrow> bool" where
  "in_scope cs D A F n \<longleftrightarrow> A \<inter> (D \<union> cs) = {} \<and> F \<subseteq> D \<union> cs \<and> (\<forall>x \<in> D \<union> cs \<union> A. x < n)"

definition yields :: "local_id set \<Rightarrow> local_id set \<Rightarrow> local_id set \<Rightarrow> nat \<Rightarrow> binds \<Rightarrow> cexpr \<Rightarrow> nat \<Rightarrow> bool" where
  "yields cs D A n new oper n' \<longleftrightarrow>
     n \<le> n' \<and> binds_ok cs D new \<and> normal cs (D \<union> names new) oper \<and> bound new \<union> binders oper \<subseteq> A \<union> {n..<n'}"

definition normalizes :: "cexpr \<Rightarrow> bool" where
  "normalizes e \<longleftrightarrow>
     (\<forall>cs D bs n. distinct (binder_list e) \<longrightarrow> in_scope cs D (binders e) (free_locals e) n \<longrightarrow>
        (\<exists>oper new n'. anf_op e bs n = Some (oper, bs @ new, n') \<and> yields cs D (binders e) n new oper n'))"

lemma in_scope_after:
  assumes "in_scope cs D A F n" "bound new \<subseteq> B \<union> {n..<m}" "n \<le> m" "B \<inter> A = {}" "\<forall>x \<in> B. x < n"
  shows "in_scope cs (D \<union> names new) A F m"
proof -
  have names: "names new \<subseteq> B \<union> {n..<m}" using assms(2) names_bound by blast
  have small: "\<forall>x \<in> D \<union> cs \<union> A. x < n" and sep: "A \<inter> (D \<union> cs) = {}" "F \<subseteq> D \<union> cs" using assms(1) by (simp_all add: in_scope_def)
  have "x < n" if "x \<in> A" for x using small that by blast
  then have "A \<inter> {n..<m} = {}" by (meson atLeastLessThan_iff disjoint_iff leD)
  with sep assms(4) names have "A \<inter> (D \<union> names new \<union> cs) = {}" by blast
  moreover have "\<forall>x \<in> D \<union> cs \<union> A \<union> B \<union> {n..<m}. x < m" using small assms(3,5) by (auto intro: less_le_trans)
  with names have "\<forall>x \<in> D \<union> names new \<union> cs \<union> A. x < m" by blast
  ultimately show ?thesis using sep(2) by (auto simp: in_scope_def)
qed

lemma in_scope_sub: "in_scope cs D A F n \<Longrightarrow> A' \<subseteq> A \<Longrightarrow> F' \<subseteq> F \<Longrightarrow> in_scope cs D A' F' n"
  unfolding in_scope_def by blast

text \<open>An operand: an atom, or a fresh local bound to the operation.\<close>

lemma operand_normalizes:
  assumes e: "normalizes e" "distinct (binder_list e)" "in_scope cs D (binders e) (free_locals e) n"
    and ok: "\<And>a. ok a \<Longrightarrow> is_atom a" "\<And>x t. ok (CExpr (KLocal x) t)"
  obtains a new n' where "bind_unless ok (anf_op e bs n) = Some (a, bs @ new, n')" "ok a" "yields cs D (binders e) n new a n'"
proof -
  from e obtain oper new n' where r: "anf_op e bs n = Some (oper, bs @ new, n')" and y: "yields cs D (binders e) n new oper n'"
    unfolding normalizes_def by blast
  show thesis
  proof (cases "ok oper")
    case True
    with r y show thesis by (intro that [of oper new n']) (simp_all add: bind_unless_def)
  next
    case False
    have fresh: "n' \<notin> D \<union> names new \<union> cs"
    proof -
      have "\<forall>x \<in> D \<union> cs \<union> binders e \<union> {n..<n'}. x < n'"
        using e(3) y by (auto simp: in_scope_def yields_def intro: less_le_trans)
      moreover have "names new \<subseteq> binders e \<union> {n..<n'}" using y names_bound by (auto simp: yields_def)
      ultimately show ?thesis by blast
    qed
    have "yields cs D (binders e) n (new @ [(n', oper)]) (CExpr (KLocal n') (ce_ty oper)) (n' + 1)"
      using y fresh unfolding yields_def by (auto simp: binds_ok_append)
    with False r show thesis
      by (intro that [of "CExpr (KLocal n') (ce_ty oper)" "new @ [(n', oper)]" "n' + 1"])
        (simp_all add: bind_unless_def bind_fresh_def ok(2))
  qed
qed

lemma operands_normalize:
  assumes "\<And>a. a \<in> set args \<Longrightarrow> normalizes a" "distinct (concat (map binder_list args))" "\<And>a. a \<in> set args \<Longrightarrow> source_form a"
    and "in_scope cs D (\<Union>a \<in> set args. binders a) (\<Union>a \<in> set args. free_locals a) n"
  obtains as new n' where "thread (\<lambda>a bs n. bind_unless is_atom (anf_op a bs n)) args bs n = Some (as, bs @ new, n')"
    "n \<le> n'" "binds_ok cs D new" "length as = length args" "\<forall>a \<in> set as. is_atom a \<and> normal cs (D \<union> names new) a"
    "bound new \<subseteq> (\<Union>a \<in> set args. binders a) \<union> {n..<n'}"
  using assms
proof (induction args arbitrary: D bs n thesis)
  case Nil
  show thesis by (rule Nil.prems(1) [of "[]" "[]" n]) simp_all
next
  case (Cons e args)
  have e: "normalizes e" "distinct (binder_list e)" "in_scope cs D (binders e) (free_locals e) n"
    using Cons.prems in_scope_sub by (auto intro: in_scope_sub)
  obtain a new1 n1 where 1: "bind_unless is_atom (anf_op e bs n) = Some (a, bs @ new1, n1)" "is_atom a" "yields cs D (binders e) n new1 a n1"
    by (rule operand_normalizes [OF e, of is_atom bs]) (auto simp: is_atom_def)
  have disj: "binders e \<inter> (\<Union>a \<in> set args. binders a) = {}"
  proof -
    have "set (binder_list e) \<inter> (\<Union>a \<in> set args. set (binder_list a)) = {}" using Cons.prems(3) by auto
    then show ?thesis using Cons.prems(4) by (simp add: set_binder_list)
  qed
  have "in_scope cs (D \<union> names new1) (\<Union>a \<in> set args. binders a) (\<Union>a \<in> set args. free_locals a) n1"
    by (rule in_scope_after [where B = "binders e"])
      (use 1 Cons.prems(5) disj in \<open>auto simp: yields_def in_scope_def intro: in_scope_sub\<close>)
  note scope = this
  obtain as new2 n2 where 2: "thread (\<lambda>a bs n. bind_unless is_atom (anf_op a bs n)) args (bs @ new1) n1 = Some (as, (bs @ new1) @ new2, n2)"
    "n1 \<le> n2" "binds_ok cs (D \<union> names new1) new2" "length as = length args" "\<forall>a \<in> set as. is_atom a \<and> normal cs (D \<union> names new1 \<union> names new2) a"
    "bound new2 \<subseteq> (\<Union>a \<in> set args. binders a) \<union> {n1..<n2}"
    by (rule Cons.IH [OF _ _ _ _ scope, of "bs @ new1"]) (use Cons.prems in auto)
  show thesis
  proof (rule Cons.prems(1) [of "a # as" "new1 @ new2" n2])
    show "thread (\<lambda>a bs n. bind_unless is_atom (anf_op a bs n)) (e # args) bs n = Some (a # as, bs @ new1 @ new2, n2)"
      using 1 2 by simp
    show "binds_ok cs D (new1 @ new2)" using 1 2 by (simp add: binds_ok_append yields_def)
    have "normal cs (D \<union> names new1 \<union> names new2) a"
      by (rule normal_weaken [of cs "D \<union> names new1"]) (use 1 in \<open>simp_all add: yields_def binders_atom\<close>)
    with 1 2 show "\<forall>b \<in> set (a # as). is_atom b \<and> normal cs (D \<union> names (new1 @ new2)) b" by (simp add: image_Un Un_assoc)
    show "bound (new1 @ new2) \<subseteq> (\<Union>a \<in> set (e # args). binders a) \<union> {n..<n2}" using 1 2 by (auto simp: yields_def)
  qed (use 1 2 in \<open>simp_all add: yields_def\<close>)
qed

lemma wrapped_normalizes:
  assumes "normalizes e" "distinct (binder_list e)" "in_scope cs D (binders e) (free_locals e) n"
  obtains e' n' where "anf_wrap (anf_op e [] n) = Some (e', n')" "n \<le> n'" "normal cs D e'" "binders e' \<subseteq> binders e \<union> {n..<n'}"
proof -
  from assms obtain oper new n' where "anf_op e [] n = Some (oper, [] @ new, n')" "yields cs D (binders e) n new oper n'"
    unfolding normalizes_def by blast
  then show thesis
    by (intro that [of "wrap_binds new oper" n']) (simp_all add: anf_wrap_def normal_wrap binders_wrap yields_def)
qed

lemma normalizesI:
  assumes "\<And>cs D bs n. distinct (binder_list e) \<Longrightarrow> in_scope cs D (binders e) (free_locals e) n \<Longrightarrow>
    \<exists>oper new n'. anf_op e bs n = Some (oper, bs @ new, n') \<and> yields cs D (binders e) n new oper n'"
  shows "normalizes e"
  using assms by (simp add: normalizes_def)

lemma operation_normalizes:
  assumes args: "\<And>a. a \<in> set args \<Longrightarrow> normalizes a" "\<And>a. a \<in> set args \<Longrightarrow> source_form a"
    and e: "binder_list e = concat (map binder_list args)" "binders e = (\<Union>a \<in> set args. binders a)" "free_locals e = (\<Union>a \<in> set args. free_locals a)"
    and op: "\<And>bs n. anf_op e bs n = (case thread (\<lambda>a bs n. bind_unless is_atom (anf_op a bs n)) args bs n of
        None \<Rightarrow> None | Some (as, bs, n) \<Rightarrow> Some (rebuild as, bs, n))"
    and rebuild: "\<And>as cs D. length as = length args \<Longrightarrow> \<forall>a \<in> set as. is_atom a \<and> normal cs D a \<Longrightarrow> normal cs D (rebuild as) \<and> binders (rebuild as) = {}"
  shows "normalizes e"
proof (rule normalizesI)
  fix cs D bs n
  assume d: "distinct (binder_list e)" and s: "in_scope cs D (binders e) (free_locals e) n"
  obtain as new n' where r: "thread (\<lambda>a bs n. bind_unless is_atom (anf_op a bs n)) args bs n = Some (as, bs @ new, n')"
    "n \<le> n'" "binds_ok cs D new" "length as = length args" "\<forall>a \<in> set as. is_atom a \<and> normal cs (D \<union> names new) a"
    "bound new \<subseteq> (\<Union>a \<in> set args. binders a) \<union> {n..<n'}"
    by (rule operands_normalize [OF args(1) d [unfolded e] args(2) s [unfolded e]])
  from rebuild [OF r(4,5)] r show "\<exists>oper new n'. anf_op e bs n = Some (oper, bs @ new, n') \<and> yields cs D (binders e) n new oper n'"
    by (intro exI [of _ "rebuild as"] exI [of _ new] exI [of _ n']) (simp add: op yields_def e)
qed

lemma binders_disjoint:
  assumes "distinct (binder_list a @ binder_list b)" "source_form a" "source_form b"
  shows "binders a \<inter> binders b = {}"
  using assms(1) by (simp add: set_binder_list [OF assms(2)] set_binder_list [OF assms(3)])

lemma is_local_KLocal: "is_local (CExpr (KLocal x) t)"
  by (simp add: is_local_def local_of_def)

lemma is_atom_KLocal: "is_atom (CExpr (KLocal x) t)"
  by (simp add: is_atom_def)

lemma thread_binds:
  assumes "thread f args bs n = Some (as, bs', n')"
    "\<And>a bs n a' bs' n'. a \<in> set args \<Longrightarrow> f a bs n = Some (a', bs', n') \<Longrightarrow> length bs \<le> length bs'"
  shows "length bs \<le> length bs'"
  using assms
proof (induction args arbitrary: bs n as)
  case (Cons a args)
  from Cons.prems(1) obtain a1 bs1 n1 as1 where "f a bs n = Some (a1, bs1, n1)" "thread f args bs1 n1 = Some (as1, bs', n')"
    by (auto split: option.splits)
  then show ?case using Cons.IH Cons.prems(2) by (meson le_trans list.set_intros)
qed simp

lemma bind_unless_binds:
  assumes "bind_unless ok r = Some (a, bs', n')" "\<And>e bs1 n1. r = Some (e, bs1, n1) \<Longrightarrow> length bs \<le> length bs1"
  shows "length bs \<le> length bs'"
  using assms by (auto simp: bind_unless_def bind_fresh_def split: option.splits if_splits)

text \<open>Normalization only ever adds bindings after the ones it was given.\<close>

lemma anf_op_binds: "anf_op e bs n = Some (oper, bs', n') \<Longrightarrow> length bs \<le> length bs'"
proof (induction e bs n arbitrary: oper bs' n' rule: anf_op.induct)
  case (8 func args reuse alloc t bs n)
  from 8(3) obtain func' bs1 n1 args' where f: "bind_unless is_atom (anf_op func bs n) = Some (func', bs1, n1)"
    and a: "thread (\<lambda>a bs n. bind_unless is_atom (anf_op a bs n)) args bs1 n1 = Some (args', bs', n')"
    by (auto split: option.splits)
  have "length bs \<le> length bs1" by (rule bind_unless_binds [OF f]) (rule 8(1))
  also have "\<dots> \<le> length bs'" by (rule thread_binds [OF a]) (auto intro: bind_unless_binds 8(2) [OF f refl refl])
  finally show ?case .
next
  case (14 x v body t bs n)
  from 14(3) obtain v' bs1 n1 where v: "anf_op v bs n = Some (v', bs1, n1)"
    and b: "anf_op body (bs1 @ [(x, v')]) n1 = Some (oper, bs', n')"
    by (auto split: option.splits)
  from 14(1) [OF v] 14(2) [OF v refl refl b] show ?case by simp
qed (auto split: option.splits dest!: thread_binds bind_unless_binds intro: bind_unless_binds)

text \<open>
  A several-result binding still binds a direct call, or no call at all, once its value is normalized.
\<close>

lemma anf_value_call:
  assumes "anf_wrap (anf_op v [] n) = Some (v', n')"
    and "case ce_kind v of KApp func _ _ _ \<Rightarrow> (case ce_kind func of KGlobal _ \<Rightarrow> True | _ \<Rightarrow> False) | _ \<Rightarrow> True"
  shows "case ce_kind v' of KApp func _ _ _ \<Rightarrow> (case ce_kind func of KGlobal _ \<Rightarrow> True | _ \<Rightarrow> False) | _ \<Rightarrow> True"
proof -
  from assms(1) obtain oper new where r: "anf_op v [] n = Some (oper, new, n')" and v': "v' = wrap_binds new oper"
    by (auto simp: anf_wrap_def split: option.splits)
  show ?thesis
  proof (cases new)
    case (Cons b bs)
    then show ?thesis by (cases b) (simp add: v' wrap_binds_def)
  next
    case Nil
    obtain k t where v: "v = CExpr k t" by (cases v)
    show ?thesis
    proof (cases k)
      case (KApp func args reuse alloc)
      then obtain d u where "func = CExpr (KGlobal d) u"
        using assms(2) v by (cases func) (auto split: expr_kind.splits)
      with r Nil v KApp show ?thesis
        by (auto simp: v' wrap_binds_def bind_unless_def is_atom_def split: option.splits)
    next
      case (KLet x u body)
      then obtain u' bs1 n1 where "anf_op body (bs1 @ [(x, u')]) n1 = Some (oper, [], n')"
        using r Nil v by (auto split: option.splits)
      from anf_op_binds [OF this] show ?thesis by simp
    qed (use r Nil v in \<open>auto simp: v' wrap_binds_def split: option.splits\<close>)
  qed
qed


lemma source_normalizes: "source_form e \<Longrightarrow> normalizes e"
proof (induction e rule: source_form.induct)
  case (14 x v b t)
  have forms: "source_form v" "source_form b" using 14 by simp_all
  show ?case
  proof (rule normalizesI)
    fix cs D bs n
    assume d: "distinct (binder_list (CExpr (KLet x v b) t))"
      and s: "in_scope cs D (binders (CExpr (KLet x v b) t)) (free_locals (CExpr (KLet x v b) t)) n"
    have dis: "distinct (binder_list v)" "distinct (binder_list b)" "binders v \<inter> binders b = {}" "x \<notin> binders v" "x \<notin> binders b"
      using d forms by (auto simp: set_binder_list)
    have "in_scope cs D (binders v) (free_locals v) n" by (rule in_scope_sub [OF s]) auto
    then obtain v' new1 n1 where v': "anf_op v bs n = Some (v', bs @ new1, n1)" "yields cs D (binders v) n new1 v' n1"
      using 14(1) forms dis(1) unfolding normalizes_def by blast
    have fresh: "x \<notin> D \<union> names new1 \<union> cs"
    proof -
      have "names new1 \<subseteq> binders v \<union> {n..<n1}" using v'(2) names_bound by (auto simp: yields_def)
      with s dis(4) show ?thesis by (auto simp: in_scope_def)
    qed
    have "in_scope cs (insert x D) (binders b) (free_locals b) n"
      using s dis(5) by (auto simp: in_scope_def)
    then have "in_scope cs (insert x D \<union> names (new1 @ [(x, v')])) (binders b) (free_locals b) n1"
      by (rule in_scope_after [where B = "insert x (binders v)"]) (use v'(2) dis s in \<open>auto simp: yields_def in_scope_def\<close>)
    then have "in_scope cs (insert x (D \<union> names new1)) (binders b) (free_locals b) n1" by simp
    then obtain b' new2 n2 where b': "anf_op b ((bs @ new1) @ [(x, v')]) n1 = Some (b', ((bs @ new1) @ [(x, v')]) @ new2, n2)"
      "yields cs (insert x (D \<union> names new1)) (binders b) n1 new2 b' n2"
      using 14(2) forms dis(2) unfolding normalizes_def by blast
    have "yields cs D (binders (CExpr (KLet x v b) t)) n (new1 @ (x, v') # new2) b' n2"
    proof -
      have D: "D \<union> names (new1 @ (x, v') # new2) = insert x (D \<union> names new1) \<union> names new2" by auto
      show ?thesis using v'(2) b'(2) fresh unfolding yields_def D by (auto simp: binds_ok_append)
    qed
    then show "\<exists>oper new n'. anf_op (CExpr (KLet x v b) t) bs n = Some (oper, bs @ new, n') \<and> yields cs D (binders (CExpr (KLet x v b) t)) n new oper n'"
      using v'(1) b'(1) by (intro exI [of _ b'] exI [of _ "new1 @ (x, v') # new2"] exI [of _ n2]) simp
  qed
next
  case (15 xs v b t)
  have forms: "source_form v" "source_form b" using 15 by simp_all
  show ?case
  proof (rule normalizesI)
    fix cs D bs n
    assume d: "distinct (binder_list (CExpr (KLetMany xs v b) t))"
      and s: "in_scope cs D (binders (CExpr (KLetMany xs v b) t)) (free_locals (CExpr (KLetMany xs v b) t)) n"
    have dis: "distinct xs" "distinct (binder_list v)" "distinct (binder_list b)" "set xs \<inter> binders b = {}"
      using d forms by (auto simp: set_binder_list)
    have "in_scope cs D (binders v) (free_locals v) n" by (rule in_scope_sub [OF s]) auto
    then obtain v' n1 where v': "anf_wrap (anf_op v [] n) = Some (v', n1)" "n \<le> n1" "normal cs D v'" "binders v' \<subseteq> binders v \<union> {n..<n1}"
      using wrapped_normalizes [of v cs D n] 15 dis(2) by auto
    have "in_scope cs (set xs \<union> D) (binders b) (free_locals b) n1"
      using s dis(4) v'(2) by (auto simp: in_scope_def intro: less_le_trans)
    then obtain b' n2 where b': "anf_wrap (anf_op b [] n1) = Some (b', n2)" "n1 \<le> n2" "normal cs (set xs \<union> D) b'" "binders b' \<subseteq> binders b \<union> {n1..<n2}"
      using wrapped_normalizes [of b cs "set xs \<union> D" n1] 15 dis(3) by auto
    have "case ce_kind v' of KApp func _ _ _ \<Rightarrow> (case ce_kind func of KGlobal _ \<Rightarrow> True | _ \<Rightarrow> False) | _ \<Rightarrow> True"
      by (rule anf_value_call [OF v'(1)]) (use 15(3) in simp)
    moreover have "set xs \<inter> (D \<union> cs) = {}" using s by (auto simp: in_scope_def)
    ultimately have "yields cs D (binders (CExpr (KLetMany xs v b) t)) n [] (CExpr (KLetMany xs v' b') t) n2"
      using v' b' dis(1) by (auto simp: yields_def)
    then show "\<exists>oper new n'. anf_op (CExpr (KLetMany xs v b) t) bs n = Some (oper, bs @ new, n') \<and> yields cs D (binders (CExpr (KLetMany xs v b) t)) n new oper n'"
      using v'(1) b'(1) by (intro exI [of _ "CExpr (KLetMany xs v' b') t"] exI [of _ "[]"] exI [of _ n2]) simp
  qed
next
  case (6 op args t)
  show ?case
    by (rule operation_normalizes [of args _ "\<lambda>as. CExpr (KPrim op as) t"]) (use 6 in \<open>simp_all add: binders_atom\<close>)
next
  case (7 s args m t)
  show ?case
    by (rule operation_normalizes [of args _ "\<lambda>as. CExpr (KForeign s as m) t"]) (use 7 in \<open>simp_all add: binders_atom\<close>)
next
  case (8 tag args re sc ni t)
  show ?case
    by (rule operation_normalizes [of args _ "\<lambda>as. CExpr (KMakeData tag as None sc ni) t"]) (use 8 in \<open>simp_all add: binders_atom\<close>)
next
  case (9 args t)
  show ?case
    by (rule operation_normalizes [of args _ "\<lambda>as. CExpr (KSpread as) t"]) (use 9 in \<open>simp_all add: binders_atom\<close>)
next
  case (10 func args toks al t)
  have "normalizes (CExpr (KApp func args [] al) t)"
  proof (rule operation_normalizes [of "func # args" _ "\<lambda>as. CExpr (KApp (hd as) (tl as) [] al) t"])
    fix bs n
    show "anf_op (CExpr (KApp func args [] al) t) bs n = (case thread (\<lambda>a bs n. bind_unless is_atom (anf_op a bs n)) (func # args) bs n of
        None \<Rightarrow> None | Some (as, bs, n) \<Rightarrow> Some (CExpr (KApp (hd as) (tl as) [] al) t, bs, n))"
      by (auto split: option.splits)
  next
    fix as cs D assume "length as = length (func # args)" "\<forall>a \<in> set as. is_atom a \<and> normal cs D a"
    then show "normal cs D (CExpr (KApp (hd as) (tl as) [] al) t) \<and> binders (CExpr (KApp (hd as) (tl as) [] al) t) = {}"
      by (cases as) (simp_all add: binders_atom)
  qed (use 10 in auto)
  with 10 show ?case by simp
next
  case (11 base ni t)
  show ?case
  proof (rule normalizesI)
    fix cs D bs n
    assume "distinct (binder_list (CExpr (KDataTag base ni) t))" "in_scope cs D (binders (CExpr (KDataTag base ni) t)) (free_locals (CExpr (KDataTag base ni) t)) n"
    with 11 obtain a new n' where "bind_unless is_local (anf_op base bs n) = Some (a, bs @ new, n')" "is_local a" "yields cs D (binders base) n new a n'"
      using operand_normalizes [of base cs D n is_local bs] is_local_KLocal is_local_atom by auto
    then show "\<exists>oper new n'. anf_op (CExpr (KDataTag base ni) t) bs n = Some (oper, bs @ new, n') \<and> yields cs D (binders (CExpr (KDataTag base ni) t)) n new oper n'"
      by (intro exI [of _ "CExpr (KDataTag a ni) t"] exI [of _ new] exI [of _ n']) (simp add: yields_def)
  qed
next
  case (12 base ix sc ni t)
  show ?case
  proof (rule normalizesI)
    fix cs D bs n
    assume d: "distinct (binder_list (CExpr (KDataField base ix sc ni) t))"
      and s: "in_scope cs D (binders (CExpr (KDataField base ix sc ni) t)) (free_locals (CExpr (KDataField base ix sc ni) t)) n"
    have "in_scope cs D (binders base) (free_locals base) n" by (rule in_scope_sub [OF s]) simp_all
    with d 12 obtain a new n' where r: "bind_unless is_local (anf_op base bs n) = Some (a, bs @ new, n')" "is_local a" "yields cs D (binders base) n new a n'"
      using operand_normalizes [of base cs D n is_local bs] is_local_KLocal is_local_atom by auto
    have "x \<in> D \<union> cs" if "evidence_of ix = Some x" for x using s that by (auto simp: in_scope_def)
    with r show "\<exists>oper new n'. anf_op (CExpr (KDataField base ix sc ni) t) bs n = Some (oper, bs @ new, n') \<and>
        yields cs D (binders (CExpr (KDataField base ix sc ni) t)) n new oper n'"
      by (intro exI [of _ "CExpr (KDataField a ix sc ni) t"] exI [of _ new] exI [of _ n']) (auto simp: yields_def)
  qed
next
  case (13 c a b t)
  have forms: "source_form c" "source_form a" "source_form b" using 13 by simp_all
  show ?case
  proof (rule normalizesI)
    fix cs D bs n
    assume d: "distinct (binder_list (CExpr (KIf c a b) t))"
      and s: "in_scope cs D (binders (CExpr (KIf c a b) t)) (free_locals (CExpr (KIf c a b) t)) n"
    have dis: "distinct (binder_list c)" "distinct (binder_list a)" "distinct (binder_list b)"
      "binders c \<inter> binders a = {}" "binders c \<inter> binders b = {}" "binders a \<inter> binders b = {}"
      using d forms by (auto simp: set_binder_list)
    have "in_scope cs D (binders c) (free_locals c) n" by (rule in_scope_sub [OF s]) auto
    then obtain c' new n1 where c': "bind_unless is_atom (anf_op c bs n) = Some (c', bs @ new, n1)" "is_atom c'" "yields cs D (binders c) n new c' n1"
      using operand_normalizes [of c cs D n is_atom bs] 13 dis(1) is_atom_KLocal by auto
    have s1: "in_scope cs (D \<union> names new) (binders a \<union> binders b) (free_locals a \<union> free_locals b) n1"
      by (rule in_scope_after [OF in_scope_sub [OF s], where B = "binders c"])
        (use c' dis s in \<open>auto simp: yields_def in_scope_def\<close>)
    obtain a' n2 where a': "anf_wrap (anf_op a [] n1) = Some (a', n2)" "n1 \<le> n2" "normal cs (D \<union> names new) a'" "binders a' \<subseteq> binders a \<union> {n1..<n2}"
      using wrapped_normalizes [of a cs "D \<union> names new" n1] 13 dis(2) in_scope_sub [OF s1, of "binders a" "free_locals a"] by auto
    have s2: "in_scope cs (D \<union> names new) (binders b) (free_locals b) n2"
      using s1 a'(2) by (auto simp: in_scope_def intro: less_le_trans)
    obtain b' n3 where b': "anf_wrap (anf_op b [] n2) = Some (b', n3)" "n2 \<le> n3" "normal cs (D \<union> names new) b'" "binders b' \<subseteq> binders b \<union> {n2..<n3}"
      using wrapped_normalizes [of b cs "D \<union> names new" n2] 13 dis(3) s2 by auto
    have "yields cs D (binders (CExpr (KIf c a b) t)) n new (CExpr (KIf c' a' b') t) n3"
      using c' a' b' by (auto simp: yields_def binders_atom)
    then show "\<exists>oper new n'. anf_op (CExpr (KIf c a b) t) bs n = Some (oper, bs @ new, n') \<and> yields cs D (binders (CExpr (KIf c a b) t)) n new oper n'"
      using c'(1) a'(1) b'(1) by (intro exI [of _ "CExpr (KIf c' a' b') t"] exI [of _ new] exI [of _ n3]) simp
  qed
qed (auto intro!: normalizesI simp: yields_def in_scope_def)

section \<open>Fresh slots\<close>

definition covers :: "local_id set \<Rightarrow> nat \<Rightarrow> nat \<Rightarrow> bool" where
  "covers S m m' \<longleftrightarrow> m \<le> m' \<and> (\<forall>x \<in> S. x < m')"

lemma covers_then: "covers S m m1 \<Longrightarrow> covers T m1 m2 \<Longrightarrow> U \<subseteq> S \<union> T \<Longrightarrow> covers U m m2"
  unfolding covers_def by (meson UnE le_trans less_le_trans subsetD)

lemma covers_fold:
  assumes "\<And>a m. a \<in> set as \<Longrightarrow> covers (S a) m (f a m)"
  shows "covers (\<Union>a \<in> set as. S a) m (fold f as m)"
  using assms
proof (induction as arbitrary: m)
  case (Cons a as)
  have "covers (S a) m (f a m)" "covers (\<Union>a \<in> set as. S a) (f a m) (fold f as (f a m))"
    using Cons by (auto intro: Cons.IH)
  then show ?case by (auto intro: covers_then)
qed (simp add: covers_def)

lemma covers_bump: "covers {x} m (max m (x + 1))"
  by (simp add: covers_def)

lemma covers_bumps: "covers (set xs) m (fold (\<lambda>x m. max m (x + 1)) xs m)"
  using covers_fold [of xs "\<lambda>x. {x}" "\<lambda>x m. max m (x + 1)" m] covers_bump by simp

lemma covers_nothing: "covers {} m m"
  by (simp add: covers_def)

lemma covers_args:
  assumes "\<And>a m. a \<in> set args \<Longrightarrow> covers (binders a \<union> free_locals a) m (max_local a m)"
  shows "covers ((\<Union>a \<in> set args. binders a) \<union> (\<Union>a \<in> set args. free_locals a)) m (fold max_local args m)"
proof -
  have "(\<Union>a \<in> set args. binders a) \<union> (\<Union>a \<in> set args. free_locals a) = (\<Union>a \<in> set args. binders a \<union> free_locals a)" by auto
  with covers_fold [of args "\<lambda>a. binders a \<union> free_locals a" max_local m] assms show ?thesis by simp
qed

lemma max_local_covers: "covers (binders e \<union> free_locals e) m (max_local e m)"
proof (induction e m rule: max_local.induct)
  case (8 func args reuse alloc t m)
  have "covers ((\<Union>a \<in> set args. binders a) \<union> (\<Union>a \<in> set args. free_locals a)) (max_local func m) (fold max_local args (max_local func m))"
    by (rule covers_args) (rule 8(2))
  note all = covers_then [OF covers_then [OF 8(1) this order_refl] covers_bumps [of "List.map_filter (\<lambda>t. t) reuse"]]
  show ?case unfolding max_local.simps by (rule all) auto
next
  case (15 base ix sc ni t m)
  then show ?case by (cases "evidence_of ix") (auto simp: covers_def less_max_iff_disj)
next
  case (9 c a b t m)
  show ?case unfolding max_local.simps by (rule covers_then [OF covers_then [OF 9(1,2) order_refl] 9(3)]) auto
next
  case (10 x v b t m)
  show ?case unfolding max_local.simps by (rule covers_then [OF covers_then [OF covers_bump 10(1) order_refl] 10(2)]) auto
next
  case (13 xs v b t m)
  show ?case unfolding max_local.simps by (rule covers_then [OF covers_then [OF covers_bumps 13(1) order_refl] 13(2)]) auto
next
  case (16 v x b t m)
  show ?case unfolding max_local.simps by (rule covers_then [OF covers_then [OF covers_bump 16(1) order_refl] 16(2)]) auto
next
  case (20 xs b t m)
  show ?case unfolding max_local.simps by (rule covers_then [OF covers_bumps 20]) auto
qed (use covers_bumps covers_bump in \<open>auto intro: covers_args covers_nothing covers_then [OF covers_bump [unfolded Suc_eq_plus1 [symmetric]]]\<close>)

lemma next_free_local_covers:
  assumes "f \<in> set (ld_fns d)" "x \<in> set (cf_params f) \<union> set (cf_captures f) \<union> binders (cf_body f) \<union> free_locals (cf_body f)"
  shows "x < next_free_local d"
proof -
  let ?step = "\<lambda>f m. max_local (cf_body f)
    (fold (\<lambda>c m. max m (c + 1)) (cf_captures f) (fold (\<lambda>p m. max m (p + 1)) (cf_params f) m))"
  have "covers (set (cf_params f) \<union> set (cf_captures f) \<union> (binders (cf_body f) \<union> free_locals (cf_body f))) m (?step f m)" for f m
    by (rule covers_then [OF covers_then [OF covers_bumps covers_bumps order_refl] max_local_covers order_refl])
  then have "covers (\<Union>f \<in> set (ld_fns d). set (cf_params f) \<union> set (cf_captures f) \<union> (binders (cf_body f) \<union> free_locals (cf_body f)))
      0 (next_free_local d)"
    unfolding next_free_local_def by (rule covers_fold)
  moreover have "x \<in> (\<Union>f \<in> set (ld_fns d). set (cf_params f) \<union> set (cf_captures f) \<union> (binders (cf_body f) \<union> free_locals (cf_body f)))"
    using assms by (auto intro!: bexI [of _ f])
  ultimately show ?thesis unfolding covers_def by (rule conjunct2 [THEN bspec])
qed

section \<open>Insertion, end to end\<close>

text \<open>
  What lowering promises of a function: its parameters are distinct, names are bound once, and the body
  mentions only what is in scope.
\<close>

definition well_scoped :: "(nat \<Rightarrow> bool) \<Rightarrow> core_fn \<Rightarrow> bool" where
  "well_scoped lent f \<longleftrightarrow>
     distinct (owned_params lent f) \<and> set (owned_params lent f) \<inter> lent_locals lent f = {} \<and>
     source_form (cf_body f) \<and> distinct (binder_list (cf_body f)) \<and>
     set (binder_list (cf_body f)) \<inter> (set (owned_params lent f) \<union> lent_locals lent f) = {} \<and>
     free_locals (cf_body f) \<subseteq> set (owned_params lent f) \<union> lent_locals lent f"

lemma param_sets: "set (owned_params lent f) \<union> lent_locals lent f \<subseteq> set (cf_params f) \<union> set (cf_captures f)"
  by (auto simp: owned_params_def lent_locals_def in_set_enumerate_eq)

lemma well_scoped_ready:
  assumes "well_scoped lent f" "f \<in> set (ld_fns d)" "next_free_local d \<le> n"
  shows "countable lent f n" "in_scope (lent_locals lent f) (set (owned_params lent f)) (binders (cf_body f)) (free_locals (cf_body f)) n"
proof -
  have "x < n" if "x \<in> set (owned_params lent f) \<union> lent_locals lent f \<union> binders (cf_body f)" for x
    using next_free_local_covers [OF assms(2)] that param_sets assms(3) by (blast intro: less_le_trans)
  moreover have "binders (cf_body f) = set (binder_list (cf_body f))" using assms(1) by (simp add: well_scoped_def set_binder_list)
  ultimately show "countable lent f n" "in_scope (lent_locals lent f) (set (owned_params lent f)) (binders (cf_body f)) (free_locals (cf_body f)) n"
    using assms(1) by (auto simp: well_scoped_def countable_def in_scope_def)
qed

lemma anf_normal:
  assumes "well_scoped lent f" "f \<in> set (ld_fns d)" "next_free_local d \<le> n"
  obtains b m where "anf (cf_body f) n = Some (b, m)" "n \<le> m" "normal (lent_locals lent f) (set (owned_params lent f)) b"
    "binders b \<subseteq> binders (cf_body f) \<union> {n..<m}"
  using wrapped_normalizes [of "cf_body f", OF source_normalizes _ well_scoped_ready(2) [OF assms]] assms(1)
  unfolding anf_def well_scoped_def by blast

lemma drop_unused_shape:
  "binders (drop_unused params used borrowed e) = binders e" "no_jump False (drop_unused params used borrowed e) = no_jump False e"
  unfolding drop_unused_def by (induction params) (auto simp: drop_op_def)

lemma insert_rc_accepted:
  assumes "well_scoped lent f" "f \<in> set (ld_fns d)" "next_free_local d \<le> n"
    and unmixed: "\<And>b m. anf (cf_body f) n = Some (b, m) \<Longrightarrow> unmixed (fn_env ab lent f) b"
  obtains e n' where "insert_rc (fn_env ab lent f) (cf_params f) (cf_body f) n = Some (e, n')" "n \<le> n'"
    "\<And>i err. check_body ab i err (lent_locals lent f) (initial_refs lent f) e = Inr ()" "fn_shape lent (f\<lparr>cf_body := e\<rparr>)"
proof -
  let ?env = "fn_env ab lent f"
  have env: "re_captures ?env = lent_locals lent f" "re_call_borrows ?env = ab" by (simp_all add: fn_env_def)
  obtain b m where b: "anf (cf_body f) n = Some (b, m)" "n \<le> m" "normal (lent_locals lent f) (set (owned_params lent f)) b"
    "binders b \<subseteq> binders (cf_body f) \<union> {n..<m}"
    by (rule anf_normal [OF assms(1-3)])
  from rc_owned_total [OF b(3)] obtain e0 n' where e0: "rc_owned ?env b {} m = Some (e0, n')" by blast
  let ?e = "drop_unused (cf_params f) (fv_owned b (re_captures ?env)) (re_captures ?env) e0"
  have ready: "countable lent f n" "in_scope (lent_locals lent f) (set (owned_params lent f)) (binders (cf_body f)) (free_locals (cf_body f)) n"
    by (rule well_scoped_ready [OF assms(1-3)])+
  then have f: "countable lent f m" using b(2) by (auto simp: countable_def intro: less_le_trans)
  have "\<forall>x \<in> binders (cf_body f). x < m" using ready(2) b(2) unfolding in_scope_def by (meson UnI2 less_le_trans)
  then have small: "\<forall>x \<in> binders b. x < m" using b(4) by auto
  note mono = rc_owned_mono [OF e0]
  have "plain_shape e0 (binders b \<union> {m..<n'})" by (rule rc_owned_shape [OF e0 b(3)])
  moreover have "binders ?e = binders e0" "no_jump False ?e = no_jump False e0" by (simp_all add: drop_unused_shape)
  ultimately have shape: "binders ?e \<subseteq> binders (cf_body f) \<union> {n..<n'}" "no_jump False ?e"
    using b(2,4) mono by (force simp: plain_shape_def)+
  show thesis
  proof (rule that)
    show "insert_rc ?env (cf_params f) (cf_body f) n = Some (?e, n')" using b(1) e0 by (simp add: insert_rc_def)
    show "n \<le> n'" using b(2) mono by simp
    show "check_body ab i err (lent_locals lent f) (initial_refs lent f) ?e = Inr ()" for i err
      by (rule counted_accepted [OF f env _ unmixed [OF b(1)] small e0]) (use b(3) env in simp)
    have "x \<notin> lent_locals lent f" if "x \<in> binders (cf_body f) \<union> {n..<n'}" for x
      using ready(2) that unfolding in_scope_def by (auto dest: leD)
    then have "lent_locals lent f \<inter> binders ?e = {}" using shape(1) by blast
    then show "fn_shape lent (f\<lparr>cf_body := ?e\<rparr>)"
      using shape(2) ready(1) by (auto simp: fn_shape_def countable_def owned_params_def lent_locals_def no_jump_loop_shape)
  qed
qed

text \<open>
  No call of a normalized body lends and moves the same local: the one thing counting asks of a body
  beyond its scoping.
\<close>

fun unmixed_fns :: "arg_borrows \<Rightarrow> lowered_def \<Rightarrow> nat \<Rightarrow> core_fn list \<Rightarrow> nat \<Rightarrow> bool" where
  "unmixed_fns ab d i [] n \<longleftrightarrow> True"
| "unmixed_fns ab d i (f # fs) n \<longleftrightarrow>
     (case anf (cf_body f) n of None \<Rightarrow> True | Some (b, _) \<Rightarrow> unmixed (fn_env ab (fn_lends d i) f) b) \<and>
     (case insert_rc (fn_env ab (fn_lends d i) f) (cf_params f) (cf_body f) n of
        None \<Rightarrow> True | Some (_, n) \<Rightarrow> unmixed_fns ab d (i + 1) fs n)"

lemma lent_operands_code [code]:
  "lent_operands fas = set (List.map_filter (\<lambda>(flag, a). if flag then local_of a else None) fas)"
  by (induction fas) (auto simp: lent_operands_def List.map_filter_def split: option.splits if_splits)

definition accepted :: "arg_borrows \<Rightarrow> (nat \<Rightarrow> bool) \<Rightarrow> core_fn \<Rightarrow> bool" where
  "accepted ab lent f \<longleftrightarrow>
     (\<forall>i err. check_body ab i err (lent_locals lent f) (initial_refs lent f) (cf_body f) = Inr ()) \<and> fn_shape lent f"

lemma insert_fns_accepted:
  assumes "\<forall>(j, f) \<in> set (enumerate i fs). well_scoped (fn_lends d j) f" "set fs \<subseteq> set (ld_fns d)"
    "next_free_local d \<le> n" "unmixed_fns ab d i fs n"
  obtains fs' where "insert_fns ab d i fs n = Some fs'" "\<forall>(j, f) \<in> set (enumerate i fs'). accepted ab (fn_lends d j) f"
  using assms
proof (induction fs arbitrary: i n thesis)
  case (Cons f fs)
  let ?lent = "fn_lends d i"
  have "well_scoped ?lent f" "f \<in> set (ld_fns d)" using Cons.prems(2,3) by simp_all
  then obtain e n' where e: "insert_rc (fn_env ab ?lent f) (cf_params f) (cf_body f) n = Some (e, n')" "n \<le> n'"
    "\<And>i err. check_body ab i err (lent_locals ?lent f) (initial_refs ?lent f) e = Inr ()" "fn_shape ?lent (f\<lparr>cf_body := e\<rparr>)"
    by (rule insert_rc_accepted [OF _ _ Cons.prems(4), of ?lent f ab]) (use Cons.prems(5) in auto)
  obtain fs' where fs': "insert_fns ab d (i + 1) fs n' = Some fs'" "\<forall>(j, f) \<in> set (enumerate (i + 1) fs'). accepted ab (fn_lends d j) f"
    by (rule Cons.IH [of "i + 1" n']) (use Cons.prems e in auto)
  have "accepted ab ?lent (f\<lparr>cf_body := e\<rparr>)"
    using e(3,4) by (simp add: accepted_def lent_locals_def initial_refs_def owned_params_def)
  with e fs' show ?case by (intro Cons.prems(1) [of "f\<lparr>cf_body := e\<rparr> # fs'"]) auto
qed simp

lemma try_fold_ok: "(\<And>x. x \<in> set xs \<Longrightarrow> f x () = Inr ()) \<Longrightarrow> try_fold f xs () = Inr ()"
  by (induction xs) simp_all

definition scoped_def :: "lowered_def \<Rightarrow> bool" where
  "scoped_def d \<longleftrightarrow> (\<forall>(i, f) \<in> set (enumerate 0 (ld_fns d)). well_scoped (fn_lends d i) f)"

text \<open>
  C3: for every definition whose functions are well scoped, and whose calls do not lend and move one
  local at once, normalization and counting succeed, the result is accepted by the checker, and
  every run of every function of it uses references soundly.
\<close>

theorem insert_def_sound:
  assumes "scoped_def (d\<lparr>ld_entry_borrowed := self_sig\<rparr>)"
    and "unmixed_fns ab (d\<lparr>ld_entry_borrowed := self_sig\<rparr>) 0 (ld_fns d) (next_free_local d)"
  shows "\<exists>d'. insert_def ab d self_sig = Some d' \<and> check_rc ab d' = Inr () \<and>
    (\<forall>(lent, f) \<in> set (checked_functions d'). \<forall>k. \<forall>t \<in> set (fn_runs ab lent k f). sound_run (lent_locals lent f) t)"
proof -
  let ?d = "d\<lparr>ld_entry_borrowed := self_sig\<rparr>"
  have "next_free_local ?d = next_free_local d" by (simp add: next_free_local_def)
  then obtain fs where fs: "insert_fns ab ?d 0 (ld_fns d) (next_free_local d) = Some fs"
    "\<forall>(j, f) \<in> set (enumerate 0 fs). accepted ab (fn_lends ?d j) f"
    using insert_fns_accepted [of 0 "ld_fns d" ?d "next_free_local d" ab] assms by (auto simp: scoped_def_def)
  let ?r = "\<lparr>ld_def = ld_def d, ld_fns = fs, ld_entry_borrowed = self_sig, ld_reuse_entry = None, ld_entry_spread_params = []\<rparr>"
  have lends: "fn_lends ?r j = fn_lends ?d j" for j by (simp add: fn_lends_def entry_param_borrowed_def fun_eq_iff)
  have "check_rc ab ?r = Inr ()"
    unfolding check_rc_def by (subst try_fold_ok) (use fs(2) in \<open>auto simp: check_fn_def lends accepted_def\<close>)
  moreover have "sound_run (lent_locals lent f) t"
    if "(lent, f) \<in> set (checked_functions ?r)" "t \<in> set (fn_runs ab lent k f)" for lent f k t
  proof -
    from that(1) fs(2) have "accepted ab lent f" by (auto simp: checked_functions_def lends)
    then have "check_body ab 0 (LeftAtExit 0) (lent_locals lent f) (initial_refs lent f) (cf_body f) = Inr ()" "fn_shape lent f"
      by (simp_all add: accepted_def)
    then show ?thesis using that(2) by (rule checked_fn_sound)
  qed
  ultimately show ?thesis using fs(1) by (auto simp: insert_def_def)
qed

text \<open>
  A function that tests the tag of its first parameter, and either builds a cell out of a field of it,
  read twice, or calls a global that borrows the second parameter.
\<close>

definition sample_callee :: def_id where
  "sample_callee = \<lparr>def_file = 0, def_name = [103]\<rparr>"

definition sample_borrows :: arg_borrows where
  "sample_borrows d k = (if d = sample_callee \<and> k = 2 then [False, True] else replicate k False)"

definition sample_source :: core_fn where
  "sample_source = \<lparr>cf_params = [0, 1], cf_captures = [],
     cf_body = at_unit (KIf (at_unit (KDataTag (at_unit (KLocal 0)) None))
       (at_unit (KLet 2 (at_unit (KDataField (at_unit (KLocal 0)) (FConst 1) False None))
         (at_unit (KMakeData 0 [at_unit (KLocal 2), at_unit (KLocal 2)] None 0 None))))
       (at_unit (KApp (at_unit (KGlobal sample_callee))
          [at_unit (KMakeData 0 [at_unit (KLocal 0)] None 0 None), at_unit (KLocal 1)] [] AllocHeap)))\<rparr>"

theorem insert_def_sound_witness:
  "\<exists>d'. insert_def sample_borrows (sample_def sample_source) [] = Some d' \<and> check_rc sample_borrows d' = Inr () \<and>
    (\<forall>(lent, f) \<in> set (checked_functions d'). \<forall>k. \<forall>t \<in> set (fn_runs sample_borrows lent k f). sound_run (lent_locals lent f) t)"
proof (rule insert_def_sound)
  show "scoped_def (sample_def sample_source\<lparr>ld_entry_borrowed := []\<rparr>)" by code_simp
  show "unmixed_fns sample_borrows (sample_def sample_source\<lparr>ld_entry_borrowed := []\<rparr>) 0 (ld_fns (sample_def sample_source))
      (next_free_local (sample_def sample_source))" by code_simp
qed

text \<open>A call whose callee borrows its second parameter, given the same local twice.\<close>

definition sample_mixed :: core_fn where
  "sample_mixed = \<lparr>cf_params = [0], cf_captures = [],
     cf_body = at_unit (KApp (at_unit (KGlobal sample_callee)) [at_unit (KLocal 0), at_unit (KLocal 0)] [] AllocHeap)\<rparr>"


end
