(* ===== verification/Fai_Solver.thy ===== *)
theory Fai_Solver
  imports Fai_Types "HOL-Library.List_Lexorder"
begin

text \<open>
  The inference context of \<^verbatim>\<open>fai-types/src/infer/ctx.rs\<close>: a mutable solver over type, row and effect
  variables, with unification, directional subsumption of effects, generalization helpers, reification
  and instantiation of schemes.

  The context is a record that is passed along. A loop over bindings may run forever when bindings form
  a cycle, and an index may be out of range: both give \<open>None\<close>. Variable ids and levels are natural numbers,
  unbounded where the code has 32 bits. Hash sets are sets. The counters of \<^verbatim>\<open>perf.rs\<close> are left out.
\<close>

section \<open>Solver types\<close>

datatype constraint = Numeric | EqConstraint | OrdConstraint

datatype row_tail = RClosed | ROpen row_var_id

datatype eff_tail = EClosed | EOpen eff_row_var_id

datatype solve_effect = SolveEffect (se_atoms: "nominal_ref list") (se_tail: eff_tail)

definition SolveEffect_pure :: solve_effect where
  "SolveEffect_pure = SolveEffect [] EClosed"

datatype solve_ty =
    SVar ty_var_id
  | SCon con
  | SAdt nominal_ref
  | SInterface nominal_ref
  | SEffectArg solve_effect
  | SApp solve_ty solve_ty
  | SArrow solve_ty solve_ty solve_effect
  | STuple "solve_ty list"
  | SRecord "(symbol \<times> solve_ty) list" row_tail
  | SUnit
  | SError

type_synonym solve_fields = "(symbol \<times> solve_ty) list"

text \<open>A row is its present fields and its tail.\<close>

datatype solve_row = SolveRow (sr_fields: solve_fields) (sr_tail: row_tail)

definition SolveTy_bool :: solve_ty where "SolveTy_bool = SCon CBool"
definition SolveTy_int :: solve_ty where "SolveTy_int = SCon CInt"
definition SolveTy_string :: solve_ty where "SolveTy_string = SCon CString"
definition SolveTy_arrow_eff :: "solve_ty \<Rightarrow> solve_ty \<Rightarrow> solve_effect \<Rightarrow> solve_ty" where
  "SolveTy_arrow_eff from to e = SArrow from to e"
definition SolveTy_arrow :: "solve_ty \<Rightarrow> solve_ty \<Rightarrow> solve_ty" where
  "SolveTy_arrow from to = SArrow from to SolveEffect_pure"
definition SolveTy_list :: "solve_ty \<Rightarrow> solve_ty" where "SolveTy_list elem = SApp (SCon CList) elem"
definition SolveTy_array :: "solve_ty \<Rightarrow> solve_ty" where "SolveTy_array elem = SApp (SCon CArray) elem"

definition SolveTy_adt :: "nominal_ref \<Rightarrow> solve_ty list \<Rightarrow> solve_ty" where
  "SolveTy_adt adt args = fold (\<lambda>a t. SApp t a) args (SAdt adt)"

definition arrows_solver :: "solve_ty list \<Rightarrow> solve_ty \<Rightarrow> solve_ty" where
  "arrows_solver params result = fold SolveTy_arrow (rev params) result"

definition arrows_solver_eff :: "solve_ty list \<Rightarrow> solve_ty \<Rightarrow> solve_effect \<Rightarrow> solve_ty" where
  "arrows_solver_eff params result e =
     (case rev params of
        [] \<Rightarrow> result
      | innermost # outer \<Rightarrow> fold SolveTy_arrow outer (SolveTy_arrow_eff innermost result e))"

datatype unify_result = UOk | UMismatch | UOccurs | UBadConstraint

datatype var_state = VFree "constraint option" nat | VBound solve_ty

datatype row_state = RowFree "symbol list" | RowBound solve_row

datatype eff_state = EffFree | EffBound solve_effect

record infer_ctx =
  cx_vars :: "var_state list"
  cx_rows :: "row_state list"
  cx_effects :: "eff_state list"
  cx_origins :: "nat list"
  cx_ignore :: bool
  cx_level :: nat

definition InferCtx_new :: infer_ctx where
  "InferCtx_new = \<lparr>cx_vars = [], cx_rows = [], cx_effects = [], cx_origins = [], cx_ignore = False, cx_level = 0\<rparr>"

definition set_ignore_effects :: "bool \<Rightarrow> infer_ctx \<Rightarrow> infer_ctx" where
  "set_ignore_effects b cx = cx\<lparr>cx_ignore := b\<rparr>"

definition enter_level :: "infer_ctx \<Rightarrow> infer_ctx" where
  "enter_level cx = cx\<lparr>cx_level := cx_level cx + 1\<rparr>"

definition exit_level :: "infer_ctx \<Rightarrow> infer_ctx option" where
  "exit_level cx = (if cx_level cx = 0 then None else Some (cx\<lparr>cx_level := cx_level cx - 1\<rparr>))"

text \<open>\<^verbatim>\<open>xs[i]\<close>, which panics out of range.\<close>

definition slot :: "'a list \<Rightarrow> nat \<Rightarrow> 'a option" where
  "slot xs i = (if i < length xs then Some (xs ! i) else None)"

text \<open>Loops that stop at the first failure, and loops that stop at the first hit.\<close>

type_synonym solving = "infer_ctx \<Rightarrow> (unify_result \<times> infer_ctx) option"

primrec unify_all :: "('a \<Rightarrow> solving) \<Rightarrow> 'a list \<Rightarrow> solving" where
  "unify_all f [] = (\<lambda>cx. Some (UOk, cx))"
| "unify_all f (x # xs) = (\<lambda>cx. do { (r, cx) \<leftarrow> f x cx; if r = UOk then unify_all f xs cx else Some (r, cx) })"

primrec any_state :: "('a \<Rightarrow> 's \<Rightarrow> (bool \<times> 's) option) \<Rightarrow> 'a list \<Rightarrow> 's \<Rightarrow> (bool \<times> 's) option" where
  "any_state f [] = (\<lambda>s. Some (False, s))"
| "any_state f (x # xs) = (\<lambda>s. do { (hit, s) \<leftarrow> f x s; if hit then Some (True, s) else any_state f xs s })"

primrec all_of :: "('a \<Rightarrow> bool option) \<Rightarrow> 'a list \<Rightarrow> bool option" where
  "all_of f [] = Some True"
| "all_of f (x # xs) = do { b \<leftarrow> f x; if b then all_of f xs else Some False }"

primrec fold_of :: "('a \<Rightarrow> 's \<Rightarrow> 's option) \<Rightarrow> 'a list \<Rightarrow> 's \<Rightarrow> 's option" where
  "fold_of f [] = Some"
| "fold_of f (x # xs) = (\<lambda>s. do { s \<leftarrow> f x s; fold_of f xs s })"

lemma unify_all_mono [partial_function_mono]:
  assumes "\<And>x cx. mono_option (\<lambda>F. f F x cx)"
  shows "mono_option (\<lambda>F. unify_all (f F) xs cx)"
proof (induction xs arbitrary: cx)
  case (Cons x xs)
  have "mono_option (\<lambda>F. case p of (r, cx) \<Rightarrow> if r = UOk then unify_all (f F) xs cx else Some (r, cx))" for p
    by (cases p) (simp add: if_mono option.const_mono Cons)
  then show ?case by (simp add: bind_mono assms)
qed (simp add: option.const_mono)

lemma any_state_mono [partial_function_mono]:
  assumes "\<And>x s. mono_option (\<lambda>F. f F x s)"
  shows "mono_option (\<lambda>F. any_state (f F) xs s)"
proof (induction xs arbitrary: s)
  case (Cons x xs)
  have "mono_option (\<lambda>F. case p of (hit, s) \<Rightarrow> if hit then Some (True, s) else any_state (f F) xs s)" for p
    by (cases p) (simp add: if_mono option.const_mono Cons)
  then show ?case by (simp add: bind_mono assms)
qed (simp add: option.const_mono)

lemma all_of_mono [partial_function_mono]:
  assumes "\<And>x. mono_option (\<lambda>F. f F x)"
  shows "mono_option (\<lambda>F. all_of (f F) xs)"
proof (induction xs)
  case (Cons x xs)
  have "mono_option (\<lambda>F. if b then all_of (f F) xs else Some False)" for b
    by (simp add: if_mono option.const_mono Cons)
  then show ?case by (simp add: bind_mono assms)
qed (simp add: option.const_mono)

lemma fold_of_mono [partial_function_mono]:
  assumes "\<And>x s. mono_option (\<lambda>F. f F x s)"
  shows "mono_option (\<lambda>F. fold_of (f F) xs s)"
proof (induction xs arbitrary: s)
  case (Cons x xs)
  then show ?case by (simp add: bind_mono assms)
qed (simp add: option.const_mono)

section \<open>Variables\<close>

definition level_of :: "infer_ctx \<Rightarrow> ty_var_id \<Rightarrow> nat option" where
  "level_of cx v = do { s \<leftarrow> slot (cx_vars cx) v; Some (case s of VFree _ level \<Rightarrow> level | VBound _ \<Rightarrow> 0) }"

definition lower_level :: "ty_var_id \<Rightarrow> nat \<Rightarrow> infer_ctx \<Rightarrow> infer_ctx option" where
  "lower_level v to cx = do {
     s \<leftarrow> slot (cx_vars cx) v;
     Some (case s of
       VFree c level \<Rightarrow> if to < level then cx\<lparr>cx_vars := (cx_vars cx)[v := VFree c to]\<rparr> else cx
     | VBound _ \<Rightarrow> cx) }"

definition fresh_constrained :: "constraint option \<Rightarrow> infer_ctx \<Rightarrow> solve_ty \<times> infer_ctx" where
  "fresh_constrained c cx = (SVar (length (cx_vars cx)), cx\<lparr>cx_vars := cx_vars cx @ [VFree c (cx_level cx)]\<rparr>)"

definition fresh :: "infer_ctx \<Rightarrow> solve_ty \<times> infer_ctx" where
  "fresh = fresh_constrained None"

definition fresh_var_id :: "infer_ctx \<Rightarrow> ty_var_id \<times> infer_ctx" where
  "fresh_var_id cx = (case fresh cx of (SVar v, cx) \<Rightarrow> (v, cx) | (_, cx) \<Rightarrow> undefined)"

partial_function (option) resolve_shallow :: "infer_ctx \<Rightarrow> solve_ty \<Rightarrow> solve_ty option" where
  "resolve_shallow cx t =
     (case t of
        SVar v \<Rightarrow> do {
          s \<leftarrow> slot (cx_vars cx) v;
          (case s of VBound t \<Rightarrow> resolve_shallow cx t | VFree _ _ \<Rightarrow> Some (SVar v)) }
      | _ \<Rightarrow> Some t)"

text \<open>\<^verbatim>\<open>repr\<close> and \<^verbatim>\<open>repr_owned\<close>: the last variable of a chain, and the structure it is bound to.\<close>

partial_function (option) repr :: "infer_ctx \<Rightarrow> ty_var_id \<Rightarrow> (ty_var_id \<times> solve_ty option) option" where
  "repr cx v = do {
     s \<leftarrow> slot (cx_vars cx) v;
     (case s of
        VBound t \<Rightarrow> (case t of SVar next \<Rightarrow> repr cx next | _ \<Rightarrow> Some (v, Some t))
      | VFree _ _ \<Rightarrow> Some (v, None)) }"

partial_function (option) link_chain :: "var_state list \<Rightarrow> ty_var_id \<Rightarrow> ty_var_id list \<Rightarrow> (ty_var_id \<times> ty_var_id list) option" where
  "link_chain vars v chain = do {
     s \<leftarrow> slot vars v;
     (case s of
        VBound t \<Rightarrow> (case t of SVar next \<Rightarrow> link_chain vars next (chain @ [v]) | _ \<Rightarrow> Some (v, chain))
      | VFree _ _ \<Rightarrow> Some (v, chain)) }"

definition compress_link :: "ty_var_id \<Rightarrow> ty_var_id \<Rightarrow> var_state list \<Rightarrow> var_state list" where
  "compress_link v link vars = (if link \<noteq> v then vars[link := VBound (SVar v)] else vars)"

definition resolve_compress :: "solve_ty \<Rightarrow> infer_ctx \<Rightarrow> (solve_ty \<times> infer_ctx) option" where
  "resolve_compress t cx =
     (case t of
        SVar v0 \<Rightarrow> do {
          (v, chain) \<leftarrow> link_chain (cx_vars cx) v0 [];
          let vars = fold (compress_link v) chain (cx_vars cx);
          s \<leftarrow> slot vars v;
          Some (case s of VBound t \<Rightarrow> t | VFree _ _ \<Rightarrow> SVar v, cx\<lparr>cx_vars := vars\<rparr>) }
      | _ \<Rightarrow> Some (t, cx))"

definition constraint_of :: "infer_ctx \<Rightarrow> ty_var_id \<Rightarrow> constraint option option" where
  "constraint_of cx v = do { s \<leftarrow> slot (cx_vars cx) v; Some (case s of VFree c _ \<Rightarrow> c | VBound _ \<Rightarrow> None) }"

fun stronger_constraint :: "constraint option \<Rightarrow> constraint \<Rightarrow> constraint" where
  "stronger_constraint None c = c"
| "stronger_constraint (Some Numeric) _ = Numeric"
| "stronger_constraint _ Numeric = Numeric"
| "stronger_constraint (Some OrdConstraint) _ = OrdConstraint"
| "stronger_constraint _ OrdConstraint = OrdConstraint"
| "stronger_constraint (Some EqConstraint) EqConstraint = EqConstraint"

definition merge_constraint :: "ty_var_id \<Rightarrow> constraint \<Rightarrow> infer_ctx \<Rightarrow> infer_ctx option" where
  "merge_constraint v c cx = do {
     s \<leftarrow> slot (cx_vars cx) v;
     Some (case s of
       VFree existing level \<Rightarrow> cx\<lparr>cx_vars := (cx_vars cx)[v := VFree (Some (stronger_constraint existing c)) level]\<rparr>
     | VBound _ \<Rightarrow> cx) }"

section \<open>Record rows\<close>

definition fresh_row :: "symbol list \<Rightarrow> infer_ctx \<Rightarrow> row_var_id \<times> infer_ctx" where
  "fresh_row lacks cx = (length (cx_rows cx), cx\<lparr>cx_rows := cx_rows cx @ [RowFree lacks]\<rparr>)"

definition fresh_open_record :: "solve_fields \<Rightarrow> infer_ctx \<Rightarrow> solve_ty \<times> infer_ctx" where
  "fresh_open_record fs cx =
     (let (tail, cx) = fresh_row (map fst fs) cx in (SRecord fs (ROpen tail), cx))"

partial_function (option) expand_row :: "row_state list \<Rightarrow> solve_fields \<Rightarrow> row_tail \<Rightarrow> (solve_fields \<times> row_tail) option" where
  "expand_row rows fs tail =
     (case tail of
        RClosed \<Rightarrow> Some (fs, RClosed)
      | ROpen v \<Rightarrow> do {
          s \<leftarrow> slot rows v;
          (case s of
             RowBound next \<Rightarrow> expand_row rows (fs @ sr_fields next) (sr_tail next)
           | RowFree _ \<Rightarrow> Some (fs, ROpen v)) })"

definition row_lacks :: "infer_ctx \<Rightarrow> row_var_id \<Rightarrow> symbol list option" where
  "row_lacks cx v = do { s \<leftarrow> slot (cx_rows cx) v; Some (case s of RowFree l \<Rightarrow> l | RowBound _ \<Rightarrow> []) }"

definition bind_row :: "row_var_id \<Rightarrow> solve_row \<Rightarrow> solving" where
  "bind_row v row cx = do {
     lacks \<leftarrow> row_lacks cx v;
     if list_ex (\<lambda>(label, _). label \<in> set lacks) (sr_fields row) then Some (UMismatch, cx)
     else do {
       rows \<leftarrow> (case sr_tail row of
           RClosed \<Rightarrow> Some (cx_rows cx)
         | ROpen next \<Rightarrow> do {
             s \<leftarrow> slot (cx_rows cx) next;
             Some (case s of
               RowFree next_lacks \<Rightarrow>
                 (cx_rows cx)[next := RowFree (fold push_new (map fst (sr_fields row)) (fold push_new lacks next_lacks))]
             | RowBound _ \<Rightarrow> cx_rows cx) });
       Some (UOk, cx\<lparr>cx_rows := rows[v := RowBound row]\<rparr>) } }"

definition only_in :: "solve_fields \<Rightarrow> solve_fields \<Rightarrow> solve_fields" where
  "only_in fs others = filter (\<lambda>(l, _). \<not> list_ex (\<lambda>(m, _). m = l) others) fs"

definition reconcile_row_tails :: "solve_fields \<times> row_tail \<Rightarrow> solve_fields \<times> row_tail \<Rightarrow> solving" where
  "reconcile_row_tails r1 r2 cx =
     (let only1 = only_in (fst r1) (fst r2); only2 = only_in (fst r2) (fst r1)
      in case (snd r1, snd r2) of
           (RClosed, RClosed) \<Rightarrow> Some (if only1 = [] \<and> only2 = [] then UOk else UMismatch, cx)
         | (RClosed, ROpen v2) \<Rightarrow> if only2 \<noteq> [] then Some (UMismatch, cx) else bind_row v2 (SolveRow only1 RClosed) cx
         | (ROpen v1, RClosed) \<Rightarrow> if only1 \<noteq> [] then Some (UMismatch, cx) else bind_row v1 (SolveRow only2 RClosed) cx
         | (ROpen v1, ROpen v2) \<Rightarrow>
             if v1 = v2 then Some (if only1 = [] \<and> only2 = [] then UOk else UMismatch, cx)
             else do {
               lacks1 \<leftarrow> row_lacks cx v1;
               lacks2 \<leftarrow> row_lacks cx v2;
               let (fresh, cx) = fresh_row (fold push_new lacks2 lacks1) cx;
               (r, cx) \<leftarrow> bind_row v1 (SolveRow only2 (ROpen fresh)) cx;
               if r = UOk then bind_row v2 (SolveRow only1 (ROpen fresh)) cx else Some (r, cx) })"

definition common_fields :: "solve_fields \<Rightarrow> solve_fields \<Rightarrow> (solve_ty \<times> solve_ty) list" where
  "common_fields fields1 fields2 =
     List.map_filter (\<lambda>(label, t1). map_option (\<lambda>(_, t2). (t1, t2)) (List.find (\<lambda>(l, _). l = label) fields2)) fields1"

text \<open>Unification and subsumption of rows differ in what they do with common fields.\<close>

definition relate_rows :: "(solve_ty \<times> solve_ty \<Rightarrow> solving) \<Rightarrow> solve_row \<Rightarrow> solve_row \<Rightarrow> solving" where
  "relate_rows u row1 row2 cx = do {
     r1 \<leftarrow> expand_row (cx_rows cx) (sr_fields row1) (sr_tail row1);
     r2 \<leftarrow> expand_row (cx_rows cx) (sr_fields row2) (sr_tail row2);
     (r, cx) \<leftarrow> unify_all u (common_fields (fst r1) (fst r2)) cx;
     if r = UOk then reconcile_row_tails r1 r2 cx else Some (r, cx) }"

lemma relate_rows_mono [partial_function_mono]:
  assumes "\<And>p cx. mono_option (\<lambda>F. u F p cx)"
  shows "mono_option (\<lambda>F. relate_rows (u F) row1 row2 cx)"
  unfolding relate_rows_def
  by (intro bind_mono option.const_mono) (simp_all add: split_def option.const_mono unify_all_mono assms)

section \<open>Effect rows\<close>

definition fresh_effect :: "infer_ctx \<Rightarrow> eff_row_var_id \<times> infer_ctx" where
  "fresh_effect cx =
     (length (cx_effects cx),
      cx\<lparr>cx_origins := cx_origins cx @ [length (cx_effects cx)], cx_effects := cx_effects cx @ [EffFree]\<rparr>)"

definition fresh_open_effect :: "infer_ctx \<Rightarrow> solve_effect \<times> infer_ctx" where
  "fresh_open_effect cx = (let (tail, cx) = fresh_effect cx in (SolveEffect [] (EOpen tail), cx))"

text \<open>The first appearance of every atom.\<close>

definition dedup_atoms :: "nominal_ref list \<Rightarrow> nominal_ref list" where
  "dedup_atoms atoms = rev (remdups (rev atoms))"

partial_function (option) expand_atoms :: "eff_state list \<Rightarrow> nominal_ref list \<Rightarrow> eff_tail \<Rightarrow> (nominal_ref list \<times> eff_tail) option" where
  "expand_atoms effects atoms tail =
     (case tail of
        EClosed \<Rightarrow> Some (atoms, EClosed)
      | EOpen v \<Rightarrow> do {
          s \<leftarrow> slot effects v;
          (case s of
             EffBound next \<Rightarrow> expand_atoms effects (atoms @ se_atoms next) (se_tail next)
           | EffFree \<Rightarrow> Some (atoms, EOpen v)) })"

definition expand_effect :: "infer_ctx \<Rightarrow> solve_effect \<Rightarrow> solve_effect option" where
  "expand_effect cx e = do {
     (atoms, tail) \<leftarrow> expand_atoms (cx_effects cx) (se_atoms e) (se_tail e);
     Some (SolveEffect (dedup_atoms atoms) tail) }"

definition bind_effect :: "eff_row_var_id \<Rightarrow> solve_effect \<Rightarrow> solving" where
  "bind_effect v e cx = do {
     expanded \<leftarrow> expand_effect cx e;
     cx \<leftarrow> (case se_tail expanded of
         EOpen tail \<Rightarrow> do {
           origin \<leftarrow> slot (cx_origins cx) v;
           target \<leftarrow> slot (cx_origins cx) tail;
           Some (cx\<lparr>cx_origins := (cx_origins cx)[tail := min target origin]\<rparr>) }
       | EClosed \<Rightarrow> Some cx);
     _ \<leftarrow> slot (cx_effects cx) v;
     Some (UOk, cx\<lparr>cx_effects := (cx_effects cx)[v := EffBound e]\<rparr>) }"

definition unify_effects :: "solve_effect \<Rightarrow> solve_effect \<Rightarrow> solving" where
  "unify_effects e1 e2 cx =
     (if cx_ignore cx then Some (UOk, cx)
      else do {
        e1 \<leftarrow> expand_effect cx e1;
        e2 \<leftarrow> expand_effect cx e2;
        let only1 = filter (\<lambda>a. a \<notin> set (se_atoms e2)) (se_atoms e1);
        let only2 = filter (\<lambda>a. a \<notin> set (se_atoms e1)) (se_atoms e2);
        (case (se_tail e1, se_tail e2) of
           (EClosed, EClosed) \<Rightarrow> Some (if only1 = [] \<and> only2 = [] then UOk else UMismatch, cx)
         | (EClosed, EOpen v2) \<Rightarrow> if only2 \<noteq> [] then Some (UMismatch, cx) else bind_effect v2 (SolveEffect only1 EClosed) cx
         | (EOpen v1, EClosed) \<Rightarrow> if only1 \<noteq> [] then Some (UMismatch, cx) else bind_effect v1 (SolveEffect only2 EClosed) cx
         | (EOpen v1, EOpen v2) \<Rightarrow>
             if v1 = v2 then Some (if only1 = [] \<and> only2 = [] then UOk else UMismatch, cx)
             else do {
               let (fresh, cx) = fresh_effect cx;
               (r, cx) \<leftarrow> bind_effect v1 (SolveEffect only2 (EOpen fresh)) cx;
               if r = UOk then bind_effect v2 (SolveEffect only1 (EOpen fresh)) cx else Some (r, cx) }) })"

definition unify_effect_var :: "eff_row_var_id \<Rightarrow> solve_effect \<Rightarrow> solving" where
  "unify_effect_var v e = unify_effects (SolveEffect [] (EOpen v)) e"

definition union_effects :: "solve_effect \<Rightarrow> solve_effect \<Rightarrow> infer_ctx \<Rightarrow> (solve_effect \<times> infer_ctx) option" where
  "union_effects a b cx = do {
     a \<leftarrow> expand_effect cx a;
     b \<leftarrow> expand_effect cx b;
     let atoms = dedup_atoms (se_atoms a @ se_atoms b);
     (case (se_tail a, se_tail b) of
        (EClosed, t) \<Rightarrow> Some (SolveEffect atoms t, cx)
      | (EOpen v1, EClosed) \<Rightarrow> Some (SolveEffect atoms (EOpen v1), cx)
      | (EOpen v1, EOpen v2) \<Rightarrow>
          if v1 = v2 then Some (SolveEffect atoms (EOpen v1), cx)
          else do {
            let (fresh, cx) = fresh_effect cx;
            (_, cx) \<leftarrow> bind_effect v1 (SolveEffect [] (EOpen fresh)) cx;
            (_, cx) \<leftarrow> bind_effect v2 (SolveEffect [] (EOpen fresh)) cx;
            Some (SolveEffect atoms (EOpen fresh), cx) }) }"

definition subsume_effects :: "solve_effect \<Rightarrow> solve_effect \<Rightarrow> solving" where
  "subsume_effects lower upper cx = do {
     lower \<leftarrow> expand_effect cx lower;
     upper \<leftarrow> expand_effect cx upper;
     (case se_tail lower of
        EOpen _ \<Rightarrow> unify_effects lower upper cx
      | EClosed \<Rightarrow>
          let missing = filter (\<lambda>a. a \<notin> set (se_atoms upper)) (se_atoms lower)
          in if missing = [] then Some (UOk, cx)
             else case se_tail upper of
                 EOpen v \<Rightarrow> (let (fresh, cx) = fresh_effect cx in bind_effect v (SolveEffect missing (EOpen fresh)) cx)
               | EClosed \<Rightarrow> Some (UMismatch, cx)) }"

definition subsume_effects_dir :: "solve_effect \<Rightarrow> solve_effect \<Rightarrow> bool \<Rightarrow> solving" where
  "subsume_effects_dir lower upper pos = (if pos then subsume_effects lower upper else subsume_effects upper lower)"

definition effect_open_tail :: "infer_ctx \<Rightarrow> solve_effect \<Rightarrow> eff_row_var_id option option" where
  "effect_open_tail cx e = do { e \<leftarrow> expand_effect cx e; Some (case se_tail e of EOpen v \<Rightarrow> Some v | EClosed \<Rightarrow> None) }"

definition close_effect_var :: "eff_row_var_id \<Rightarrow> infer_ctx \<Rightarrow> infer_ctx option" where
  "close_effect_var v cx = do {
     s \<leftarrow> slot (cx_effects cx) v;
     Some (case s of
       EffFree \<Rightarrow> cx\<lparr>cx_effects := (cx_effects cx)[v := EffBound (SolveEffect [] EClosed)]\<rparr>
     | EffBound _ \<Rightarrow> cx) }"

definition effect_checkpoint :: "infer_ctx \<Rightarrow> nat" where
  "effect_checkpoint cx = length (cx_effects cx)"

section \<open>Binding a variable\<close>

text \<open>The structures below a type that has been resolved to its head.\<close>

partial_function (option) is_comparable :: "infer_ctx \<Rightarrow> solve_ty \<Rightarrow> bool option" where
  "is_comparable cx t = do {
     t \<leftarrow> resolve_shallow cx t;
     (case t of
        SArrow _ _ _ \<Rightarrow> Some False
      | SInterface _ \<Rightarrow> Some False
      | SEffectArg _ \<Rightarrow> Some False
      | SApp f a \<Rightarrow> do { b \<leftarrow> is_comparable cx f; if b then is_comparable cx a else Some False }
      | STuple ts \<Rightarrow> all_of (is_comparable cx) ts
      | SRecord fs tail \<Rightarrow> do {
          r \<leftarrow> expand_row (cx_rows cx) fs tail;
          all_of (\<lambda>(_, t). is_comparable cx t) (fst r) }
      | _ \<Rightarrow> Some True) }"

definition satisfies_constraint :: "infer_ctx \<Rightarrow> constraint \<Rightarrow> solve_ty \<Rightarrow> bool option" where
  "satisfies_constraint cx c t = do {
     t \<leftarrow> resolve_shallow cx t;
     (case c of
        Numeric \<Rightarrow>
          Some (case t of SVar _ \<Rightarrow> True | SError \<Rightarrow> True | SCon con \<Rightarrow> con = CInt \<or> con = CFloat | _ \<Rightarrow> False)
      | _ \<Rightarrow> is_comparable cx t) }"

text \<open>The state of the occurs check: the context, whose levels it lowers, and the bound variables it has seen.\<close>

type_synonym occurs_state = "infer_ctx \<times> ty_var_id set"

partial_function (option) occurs_and_lower ::
  "ty_var_id \<Rightarrow> nat \<Rightarrow> solve_ty \<Rightarrow> occurs_state \<Rightarrow> (bool \<times> occurs_state) option" where
  "occurs_and_lower target to t s =
     (case t of
        SVar v0 \<Rightarrow> do {
          (v, bound) \<leftarrow> repr (fst s) v0;
          (case bound of
             None \<Rightarrow> do { cx \<leftarrow> lower_level v to (fst s); Some (v = target, (cx, snd s)) }
           | Some t \<Rightarrow>
               if v = target then Some (True, s)
               else if v \<in> snd s then Some (False, s)
               else occurs_and_lower target to t (fst s, insert v (snd s))) }
      | SApp f a \<Rightarrow> do {
          (hit, s) \<leftarrow> occurs_and_lower target to f s;
          if hit then Some (True, s) else occurs_and_lower target to a s }
      | SArrow f a _ \<Rightarrow> do {
          (hit, s) \<leftarrow> occurs_and_lower target to f s;
          if hit then Some (True, s) else occurs_and_lower target to a s }
      | STuple ts \<Rightarrow> any_state (occurs_and_lower target to) ts s
      | SRecord fs tail \<Rightarrow> do {
          r \<leftarrow> expand_row (cx_rows (fst s)) fs tail;
          any_state (\<lambda>(_, t). occurs_and_lower target to t) (fst r) s }
      | _ \<Rightarrow> Some (False, s))"

definition bind_var :: "ty_var_id \<Rightarrow> solve_ty \<Rightarrow> solving" where
  "bind_var v t cx = do {
     to \<leftarrow> level_of cx v;
     (hit, (cx, _)) \<leftarrow> occurs_and_lower v to t (cx, {});
     if hit then Some (UOccurs, cx)
     else do {
       c \<leftarrow> constraint_of cx v;
       (r, cx) \<leftarrow> (case c of
           None \<Rightarrow> Some (UOk, cx)
         | Some c \<Rightarrow> do {
             head \<leftarrow> resolve_shallow cx t;
             (case head of
                SVar w \<Rightarrow> if w \<noteq> v then do { cx \<leftarrow> merge_constraint w c cx; Some (UOk, cx) } else Some (UOk, cx)
              | _ \<Rightarrow> do {
                  good \<leftarrow> satisfies_constraint cx c head;
                  Some (if good then UOk else UBadConstraint, cx) }) });
       if r = UOk then Some (UOk, cx\<lparr>cx_vars := (cx_vars cx)[v := VBound t]\<rparr>) else Some (r, cx) } }"

section \<open>Unification\<close>

text \<open>The cases of \<^verbatim>\<open>unify\<close> in which both types have a head; \<open>u\<close> is the recursive call.\<close>

definition unify_heads :: "(solve_ty \<times> solve_ty \<Rightarrow> solving) \<Rightarrow> solve_ty \<Rightarrow> solve_ty \<Rightarrow> solving" where
  "unify_heads u a b cx =
     (case a of
        SCon x \<Rightarrow> (case b of SCon y \<Rightarrow> Some (if x = y then UOk else UMismatch, cx) | _ \<Rightarrow> Some (UMismatch, cx))
      | SAdt x \<Rightarrow> (case b of SAdt y \<Rightarrow> Some (if x = y then UOk else UMismatch, cx) | _ \<Rightarrow> Some (UMismatch, cx))
      | SInterface x \<Rightarrow> (case b of SInterface y \<Rightarrow> Some (if x = y then UOk else UMismatch, cx) | _ \<Rightarrow> Some (UMismatch, cx))
      | SEffectArg e1 \<Rightarrow> (case b of SEffectArg e2 \<Rightarrow> unify_effects e1 e2 cx | _ \<Rightarrow> Some (UMismatch, cx))
      | SUnit \<Rightarrow> (case b of SUnit \<Rightarrow> Some (UOk, cx) | _ \<Rightarrow> Some (UMismatch, cx))
      | SApp f1 a1 \<Rightarrow>
          (case b of
             SApp f2 a2 \<Rightarrow> do { (r, cx) \<leftarrow> u (f1, f2) cx; if r = UOk then u (a1, a2) cx else Some (r, cx) }
           | _ \<Rightarrow> Some (UMismatch, cx))
      | SArrow f1 t1 e1 \<Rightarrow>
          (case b of
             SArrow f2 t2 e2 \<Rightarrow> do {
               (r, cx) \<leftarrow> u (f1, f2) cx;
               if r = UOk then do {
                 (r, cx) \<leftarrow> u (t1, t2) cx;
                 if r = UOk then unify_effects e1 e2 cx else Some (r, cx) }
               else Some (r, cx) }
           | _ \<Rightarrow> Some (UMismatch, cx))
      | STuple xs \<Rightarrow>
          (case b of
             STuple ys \<Rightarrow>
               if length xs = length ys then unify_all u (zip xs ys) cx else Some (UMismatch, cx)
           | _ \<Rightarrow> Some (UMismatch, cx))
      | SRecord fs1 tail1 \<Rightarrow>
          (case b of
             SRecord fs2 tail2 \<Rightarrow> relate_rows u (SolveRow fs1 tail1) (SolveRow fs2 tail2) cx
           | _ \<Rightarrow> Some (UMismatch, cx))
      | _ \<Rightarrow> Some (UMismatch, cx))"

lemma bind_pair_mono:
  assumes "mono_option B" "\<And>a b. mono_option (\<lambda>F. C a b F)"
  shows "mono_option (\<lambda>F. Option.bind (B F) (\<lambda>(a, b). C a b F))"
proof (rule bind_mono [OF assms(1)])
  show "mono_option (\<lambda>F. case p of (a, b) \<Rightarrow> C a b F)" for p by (cases p) (simp add: assms(2))
qed

lemma unify_heads_mono [partial_function_mono]:
  assumes "\<And>p cx. mono_option (\<lambda>F. u F p cx)"
  shows "mono_option (\<lambda>F. unify_heads (u F) a b cx)"
  by (cases a; cases b)
    (simp_all add: unify_heads_def assms option.const_mono if_mono bind_pair_mono unify_all_mono relate_rows_mono)

partial_function (option) unify_types :: "(solve_ty \<times> solve_ty) \<times> infer_ctx \<Rightarrow> (unify_result \<times> infer_ctx) option" where
  "unify_types s =
     (case s of ((a, b), cx) \<Rightarrow> do {
        (a, cx) \<leftarrow> resolve_compress a cx;
        (b, cx) \<leftarrow> resolve_compress b cx;
        if a = SError \<or> b = SError then Some (UOk, cx)
        else case a of
            SVar x \<Rightarrow> if b = SVar x then Some (UOk, cx) else bind_var x b cx
          | _ \<Rightarrow> (case b of SVar y \<Rightarrow> bind_var y a cx | _ \<Rightarrow> unify_heads (\<lambda>p cx. unify_types (p, cx)) a b cx) })"

definition unify :: "solve_ty \<Rightarrow> solve_ty \<Rightarrow> solving" where
  "unify a b cx = unify_types ((a, b), cx)"

lemma unify_simps:
  "unify a b cx = do {
     (a, cx) \<leftarrow> resolve_compress a cx;
     (b, cx) \<leftarrow> resolve_compress b cx;
     if a = SError \<or> b = SError then Some (UOk, cx)
     else case a of
         SVar x \<Rightarrow> if b = SVar x then Some (UOk, cx) else bind_var x b cx
       | _ \<Rightarrow> (case b of SVar y \<Rightarrow> bind_var y a cx | _ \<Rightarrow> unify_heads (\<lambda>(x, y). unify x y) a b cx) }"
proof -
  have "(\<lambda>p cx. unify_types (p, cx)) = (\<lambda>(x, y). unify x y)" by (simp add: fun_eq_iff unify_def)
  note e = this [symmetric]
  show ?thesis unfolding e unify_def [of a b cx] by (subst unify_types.simps) simp
qed

definition unify_rows :: "solve_row \<Rightarrow> solve_row \<Rightarrow> solving" where
  "unify_rows = relate_rows (\<lambda>(x, y). unify x y)"

section \<open>Subsumption\<close>

definition worst :: "unify_result \<Rightarrow> unify_result \<Rightarrow> unify_result" where
  "worst a b = (if a = UOk then b else a)"

primrec subsume_all :: "('a \<Rightarrow> solving) \<Rightarrow> 'a list \<Rightarrow> unify_result \<Rightarrow> solving" where
  "subsume_all f [] r = (\<lambda>cx. Some (r, cx))"
| "subsume_all f (x # xs) r = (\<lambda>cx. do { (r', cx) \<leftarrow> f x cx; subsume_all f xs (worst r r') cx })"

lemma subsume_all_mono [partial_function_mono]:
  assumes "\<And>x cx. mono_option (\<lambda>F. f F x cx)"
  shows "mono_option (\<lambda>F. subsume_all (f F) xs r cx)"
proof (induction xs arbitrary: r cx)
  case (Cons x xs)
  then show ?case by (simp add: bind_pair_mono assms)
qed (simp add: option.const_mono)

text \<open>The cases of \<^verbatim>\<open>subsume_types\<close> for two resolved types; \<open>u\<close> is the recursive call.\<close>

definition subsume_heads :: "(bool \<Rightarrow> solve_ty \<times> solve_ty \<Rightarrow> solving) \<Rightarrow> solve_ty \<Rightarrow> solve_ty \<Rightarrow> bool \<Rightarrow> solving" where
  "subsume_heads u a b pos cx =
     (case (a, b) of
        (SArrow a1 b1 e1, SArrow a2 b2 e2) \<Rightarrow> do {
          (ra, cx) \<leftarrow> u (\<not> pos) (a1, a2) cx;
          (rb, cx) \<leftarrow> u pos (b1, b2) cx;
          (re, cx) \<leftarrow> subsume_effects_dir e1 e2 pos cx;
          Some (worst (worst ra rb) re, cx) }
      | (STuple xs, STuple ys) \<Rightarrow>
          if length xs = length ys then subsume_all (u pos) (zip xs ys) UOk cx else unify a b cx
      | (SRecord fs1 tail1, SRecord fs2 tail2) \<Rightarrow>
          relate_rows (u pos) (SolveRow fs1 tail1) (SolveRow fs2 tail2) cx
      | (SEffectArg e1, SEffectArg e2) \<Rightarrow> subsume_effects_dir e1 e2 pos cx
      | (SApp f1 a1, SApp f2 a2) \<Rightarrow> do {
          (rf, cx) \<leftarrow> u pos (f1, f2) cx;
          head \<leftarrow> resolve_shallow cx f1;
          arg \<leftarrow> resolve_shallow cx a1;
          (ra, cx) \<leftarrow> (if head = SCon CList \<or> (case arg of SEffectArg _ \<Rightarrow> True | _ \<Rightarrow> False)
                       then u pos (a1, a2) cx else unify a1 a2 cx);
          Some (worst rf ra, cx) }
      | _ \<Rightarrow> unify a b cx)"

lemma subsume_heads_mono [partial_function_mono]:
  assumes "\<And>pos p cx. mono_option (\<lambda>F. u F pos p cx)"
  shows "mono_option (\<lambda>F. subsume_heads (u F) a b pos cx)"
  by (cases a; cases b)
    (simp_all add: subsume_heads_def assms option.const_mono if_mono bind_pair_mono bind_mono subsume_all_mono relate_rows_mono)

partial_function (option) subsume_step ::
  "bool \<times> (solve_ty \<times> solve_ty) \<times> infer_ctx \<Rightarrow> (unify_result \<times> infer_ctx) option" where
  "subsume_step s =
     (case s of (pos, (a, b), cx) \<Rightarrow> do {
        a \<leftarrow> resolve_shallow cx a;
        b \<leftarrow> resolve_shallow cx b;
        subsume_heads (\<lambda>pos p cx. subsume_step (pos, p, cx)) a b pos cx })"

definition subsume_types :: "solve_ty \<Rightarrow> solve_ty \<Rightarrow> bool \<Rightarrow> solving" where
  "subsume_types a b pos cx = subsume_step (pos, (a, b), cx)"

lemma subsume_types_simps:
  "subsume_types a b pos cx = do {
     a \<leftarrow> resolve_shallow cx a;
     b \<leftarrow> resolve_shallow cx b;
     subsume_heads (\<lambda>pos (x, y). subsume_types x y pos) a b pos cx }"
proof -
  have "(\<lambda>pos p cx. subsume_step (pos, p, cx)) = (\<lambda>pos (x, y). subsume_types x y pos)"
    by (simp add: fun_eq_iff subsume_types_def)
  note e = this [symmetric]
  show ?thesis unfolding e subsume_types_def [of a b pos cx] by (subst subsume_step.simps) simp
qed

definition subsume_rows :: "solve_row \<Rightarrow> solve_row \<Rightarrow> bool \<Rightarrow> solving" where
  "subsume_rows r1 r2 pos = relate_rows (\<lambda>(x, y). subsume_types x y pos) r1 r2"

text \<open>\<open>diagnosed\<close> counts the arrows down to the one whose effect has its own diagnostic.\<close>

fun subsume_signature :: "nat \<Rightarrow> solve_ty \<Rightarrow> solve_ty \<Rightarrow> solving" where
  "subsume_signature 0 inferred declared cx = subsume_types inferred declared True cx"
| "subsume_signature (Suc depth) inferred declared cx = do {
     a \<leftarrow> resolve_shallow cx inferred;
     b \<leftarrow> resolve_shallow cx declared;
     (case (a, b) of
        (SArrow a1 b1 e1, SArrow a2 b2 e2) \<Rightarrow> do {
          (params, cx) \<leftarrow> subsume_types a1 a2 False cx;
          (result, cx) \<leftarrow> subsume_signature depth b1 b2 cx;
          (eff, cx) \<leftarrow> (if depth = 0 then Some (UOk, cx) else subsume_effects e1 e2 cx);
          Some (worst (worst params result) eff, cx) }
      | _ \<Rightarrow> subsume_types inferred declared True cx) }"

section \<open>Effect variables of a type\<close>

definition add_tail :: "infer_ctx \<Rightarrow> solve_effect \<Rightarrow> eff_row_var_id set \<Rightarrow> eff_row_var_id set option" where
  "add_tail cx e out = do { v \<leftarrow> effect_open_tail cx e; Some (case v of Some v \<Rightarrow> insert v out | None \<Rightarrow> out) }"

partial_function (option) collect_effect_vars :: "infer_ctx \<Rightarrow> solve_ty \<Rightarrow> eff_row_var_id set \<Rightarrow> eff_row_var_id set option" where
  "collect_effect_vars cx t out = do {
     t \<leftarrow> resolve_shallow cx t;
     (case t of
        SArrow from to e \<Rightarrow> do { out \<leftarrow> add_tail cx e out; out \<leftarrow> collect_effect_vars cx from out; collect_effect_vars cx to out }
      | SApp f a \<Rightarrow> do { out \<leftarrow> collect_effect_vars cx f out; collect_effect_vars cx a out }
      | STuple ts \<Rightarrow> fold_of (collect_effect_vars cx) ts out
      | SRecord fs tail \<Rightarrow> do {
          r \<leftarrow> expand_row (cx_rows cx) fs tail;
          fold_of (\<lambda>(_, t). collect_effect_vars cx t) (fst r) out }
      | SEffectArg e \<Rightarrow> add_tail cx e out
      | _ \<Rightarrow> Some out) }"

partial_function (option) pending_parameter_effects :: "infer_ctx \<Rightarrow> solve_ty \<Rightarrow> eff_row_var_id set \<Rightarrow> eff_row_var_id set option" where
  "pending_parameter_effects cx t out = do {
     t \<leftarrow> resolve_shallow cx t;
     (case t of
        SArrow from to _ \<Rightarrow> do { out \<leftarrow> collect_effect_vars cx from out; pending_parameter_effects cx to out }
      | SApp f a \<Rightarrow> do { out \<leftarrow> pending_parameter_effects cx f out; pending_parameter_effects cx a out }
      | STuple ts \<Rightarrow> fold_of (pending_parameter_effects cx) ts out
      | SRecord fs tail \<Rightarrow> do {
          r \<leftarrow> expand_row (cx_rows cx) fs tail;
          fold_of (\<lambda>(_, t). pending_parameter_effects cx t) (fst r) out }
      | _ \<Rightarrow> Some out) }"

partial_function (option) contravariant_effect_vars :: "infer_ctx \<Rightarrow> solve_ty \<Rightarrow> eff_row_var_id set \<Rightarrow> eff_row_var_id set option" where
  "contravariant_effect_vars cx t out = do {
     t \<leftarrow> resolve_shallow cx t;
     (case t of
        SArrow from to _ \<Rightarrow> do { out \<leftarrow> collect_effect_vars cx from out; contravariant_effect_vars cx to out }
      | _ \<Rightarrow> Some out) }"

text \<open>
  The candidates are closed in ascending order, where the code takes the order of a hash set: closing one
  variable neither reads nor changes another.
\<close>

definition close_application_effects ::
  "nat \<Rightarrow> solve_ty list \<Rightarrow> solve_ty list \<Rightarrow> solve_ty \<Rightarrow> infer_ctx \<Rightarrow> infer_ctx option" where
  "close_application_effects since params args result cx = do {
     keep \<leftarrow> fold_of (collect_effect_vars cx) args {};
     keep \<leftarrow> pending_parameter_effects cx result keep;
     candidates \<leftarrow> fold_of (collect_effect_vars cx) params {};
     fold_of (\<lambda>v cx. do {
         origin \<leftarrow> slot (cx_origins cx) v;
         if since \<le> origin \<and> v \<notin> keep then close_effect_var v cx else Some cx })
       (filter (\<lambda>v. v \<in> candidates) [0..<length (cx_effects cx)]) cx }"

section \<open>Free variables and defaults\<close>

type_synonym free_state = "ty_var_id set \<times> ty_var_id set"

partial_function (option) collect_free_vars :: "infer_ctx \<Rightarrow> solve_ty \<Rightarrow> free_state \<Rightarrow> free_state option" where
  "collect_free_vars cx t s =
     (case t of
        SVar v0 \<Rightarrow> do {
          (v, bound) \<leftarrow> repr cx v0;
          (case bound of
             None \<Rightarrow> Some (insert v (fst s), snd s)
           | Some t \<Rightarrow> if v \<in> snd s then Some s else collect_free_vars cx t (fst s, insert v (snd s))) }
      | SApp f a \<Rightarrow> do { s \<leftarrow> collect_free_vars cx f s; collect_free_vars cx a s }
      | SArrow f a _ \<Rightarrow> do { s \<leftarrow> collect_free_vars cx f s; collect_free_vars cx a s }
      | STuple ts \<Rightarrow> fold_of (collect_free_vars cx) ts s
      | SRecord fs _ \<Rightarrow> fold_of (\<lambda>(_, t). collect_free_vars cx t) fs s
      | _ \<Rightarrow> Some s)"

definition pending_constraint :: "infer_ctx \<Rightarrow> solve_ty \<Rightarrow> constraint option option" where
  "pending_constraint cx t = do {
     t \<leftarrow> resolve_shallow cx t;
     (case t of SVar v \<Rightarrow> constraint_of cx v | _ \<Rightarrow> Some None) }"

definition default_numeric :: "solve_ty \<Rightarrow> infer_ctx \<Rightarrow> (bool \<times> infer_ctx) option" where
  "default_numeric t cx = do {
     t \<leftarrow> resolve_shallow cx t;
     (case t of
        SVar v \<Rightarrow> do {
          c \<leftarrow> constraint_of cx v;
          Some (if c = Some Numeric then (True, cx\<lparr>cx_vars := (cx_vars cx)[v := VBound SolveTy_int]\<rparr>) else (False, cx)) }
      | _ \<Rightarrow> Some (False, cx)) }"

partial_function (option) default_numerics_deep :: "solve_ty \<Rightarrow> infer_ctx \<Rightarrow> infer_ctx option" where
  "default_numerics_deep t0 cx = do {
     t \<leftarrow> resolve_shallow cx t0;
     (case t of
        SVar _ \<Rightarrow> do { (_, cx) \<leftarrow> default_numeric t0 cx; Some cx }
      | SApp f a \<Rightarrow> do { cx \<leftarrow> default_numerics_deep f cx; default_numerics_deep a cx }
      | SArrow f a _ \<Rightarrow> do { cx \<leftarrow> default_numerics_deep f cx; default_numerics_deep a cx }
      | STuple ts \<Rightarrow> fold_of (\<lambda>t cx. default_numerics_deep t cx) ts cx
      | SRecord fs tail \<Rightarrow> do {
          r \<leftarrow> expand_row (cx_rows cx) fs tail;
          fold_of (\<lambda>(_, t) cx. default_numerics_deep t cx) (fst r) cx }
      | _ \<Rightarrow> Some cx) }"

section \<open>Reification\<close>

text \<open>A renumbering of one kind of variables: what has been numbered, and the numbers given out.\<close>

record numbering =
  nb_map :: "nat \<rightharpoonup> nat"
  nb_order :: "nat list"

record renumber =
  rn_types :: numbering
  rn_rows :: numbering
  rn_effs :: numbering

definition numbering_new :: numbering where
  "numbering_new = \<lparr>nb_map = Map.empty, nb_order = []\<rparr>"

definition Renumber_default :: renumber where
  "Renumber_default = \<lparr>rn_types = numbering_new, rn_rows = numbering_new, rn_effs = numbering_new\<rparr>"

definition number_var :: "nat \<Rightarrow> numbering \<Rightarrow> nat \<times> numbering" where
  "number_var v nb =
     (case nb_map nb v of
        Some n \<Rightarrow> (n, nb)
      | None \<Rightarrow>
          let next = length (nb_order nb)
          in (next, \<lparr>nb_map = (nb_map nb)(v \<mapsto> next), nb_order = nb_order nb @ [next]\<rparr>))"

definition Renumber_map :: "ty_var_id \<Rightarrow> renumber \<Rightarrow> ty_var_id \<times> renumber" where
  "Renumber_map v rn = (let (n, nb) = number_var v (rn_types rn) in (n, rn\<lparr>rn_types := nb\<rparr>))"

definition Renumber_map_row :: "row_var_id \<Rightarrow> renumber \<Rightarrow> row_var_id \<times> renumber" where
  "Renumber_map_row v rn = (let (n, nb) = number_var v (rn_rows rn) in (n, rn\<lparr>rn_rows := nb\<rparr>))"

definition Renumber_map_eff :: "eff_row_var_id \<Rightarrow> renumber \<Rightarrow> eff_row_var_id \<times> renumber" where
  "Renumber_map_eff v rn = (let (n, nb) = number_var v (rn_effs rn) in (n, rn\<lparr>rn_effs := nb\<rparr>))"

definition reify_effect :: "infer_ctx \<Rightarrow> solve_effect \<Rightarrow> renumber \<Rightarrow> (effect_row \<times> renumber) option" where
  "reify_effect cx e rn = do {
     e \<leftarrow> expand_effect cx e;
     let labels = remdups_adj (sort_key nr_name (se_atoms e));
     Some (case se_tail e of
         EClosed \<Rightarrow> (\<lparr>eff_labels = labels, eff_tail = EffClosed\<rparr>, rn)
       | EOpen v \<Rightarrow> (let (n, rn) = Renumber_map_eff v rn in (\<lparr>eff_labels = labels, eff_tail = EffOpen n\<rparr>, rn))) }"

primrec map_state :: "('a \<Rightarrow> 's \<Rightarrow> ('b \<times> 's) option) \<Rightarrow> 'a list \<Rightarrow> 's \<Rightarrow> ('b list \<times> 's) option" where
  "map_state f [] = (\<lambda>s. Some ([], s))"
| "map_state f (x # xs) = (\<lambda>s. do { (y, s) \<leftarrow> f x s; (ys, s) \<leftarrow> map_state f xs s; Some (y # ys, s) })"

lemma map_state_mono [partial_function_mono]:
  assumes "\<And>x s. mono_option (\<lambda>F. f F x s)"
  shows "mono_option (\<lambda>F. map_state (f F) xs s)"
proof (induction xs arbitrary: s)
  case (Cons x xs)
  then show ?case by (simp add: bind_pair_mono option.const_mono assms)
qed (simp add: option.const_mono)

partial_function (option) reify_inner :: "infer_ctx \<Rightarrow> solve_ty \<Rightarrow> renumber \<Rightarrow> (ty \<times> renumber) option" where
  "reify_inner cx t rn = do {
     t \<leftarrow> resolve_shallow cx t;
     (case t of
        SVar v \<Rightarrow> (let (n, rn) = Renumber_map v rn in Some (TVar n, rn))
      | SCon c \<Rightarrow> Some (TCon c, rn)
      | SAdt adt \<Rightarrow> Some (TAdt adt, rn)
      | SInterface i \<Rightarrow> Some (TInterface i, rn)
      | SEffectArg e \<Rightarrow> do { (e, rn) \<leftarrow> reify_effect cx e rn; Some (TEffectArg e, rn) }
      | SUnit \<Rightarrow> Some (TUnit, rn)
      | SError \<Rightarrow> Some (TError, rn)
      | SApp f a \<Rightarrow> do { (f, rn) \<leftarrow> reify_inner cx f rn; (a, rn) \<leftarrow> reify_inner cx a rn; Some (TApp f a, rn) }
      | SArrow f t e \<Rightarrow> do {
          (f, rn) \<leftarrow> reify_inner cx f rn;
          (t, rn) \<leftarrow> reify_inner cx t rn;
          (e, rn) \<leftarrow> reify_effect cx e rn;
          Some (Ty_arrow_eff f t e, rn) }
      | STuple ts \<Rightarrow> do { (ts, rn) \<leftarrow> map_state (reify_inner cx) ts rn; Some (TTuple ts, rn) }
      | SRecord fs tail \<Rightarrow> do {
          r \<leftarrow> expand_row (cx_rows cx) fs tail;
          (fs, rn) \<leftarrow> map_state (\<lambda>(l, t) rn. do { (t, rn) \<leftarrow> reify_inner cx t rn; Some ((l, t), rn) }) (fst r) rn;
          (case snd r of
             RClosed \<Rightarrow> Some (TRecord (sort_key fst fs) RowClosed, rn)
           | ROpen v \<Rightarrow> (let (n, rn) = Renumber_map_row v rn in Some (TRecord (sort_key fst fs) (RowOpen n), rn))) }) }"

definition reify_with_vars :: "infer_ctx \<Rightarrow> solve_ty \<Rightarrow> (ty \<times> ty_var_id list \<times> row_var_id list \<times> eff_row_var_id list) option" where
  "reify_with_vars cx t = do {
     (t, rn) \<leftarrow> reify_inner cx t Renumber_default;
     Some (t, nb_order (rn_types rn), nb_order (rn_rows rn), nb_order (rn_effs rn)) }"

definition reify :: "infer_ctx \<Rightarrow> solve_ty \<Rightarrow> ty option" where
  "reify cx t = do { (t, _) \<leftarrow> reify_inner cx t Renumber_default; Some t }"

definition reify_many :: "infer_ctx \<Rightarrow> solve_ty list \<Rightarrow> ty list option" where
  "reify_many cx ts = do { (ts, _) \<leftarrow> map_state (reify_inner cx) ts Renumber_default; Some ts }"

definition reify_effect_standalone :: "infer_ctx \<Rightarrow> solve_effect \<Rightarrow> effect_row option" where
  "reify_effect_standalone cx e = do { (e, _) \<leftarrow> reify_effect cx e Renumber_default; Some e }"

section \<open>Instantiation\<close>

record inst_map =
  im_types :: "ty_var_id \<rightharpoonup> ty_var_id"
  im_rows :: "row_var_id \<rightharpoonup> row_var_id"
  im_effects :: "eff_row_var_id \<rightharpoonup> eff_row_var_id"

definition InstMap_default :: inst_map where
  "InstMap_default = \<lparr>im_types = Map.empty, im_rows = Map.empty, im_effects = Map.empty\<rparr>"

type_synonym inst_state = "infer_ctx \<times> inst_map"

definition instantiate_effect :: "effect_row \<Rightarrow> inst_state \<Rightarrow> solve_effect \<times> inst_state" where
  "instantiate_effect e s =
     (case eff_tail e of
        EffClosed \<Rightarrow> (SolveEffect (eff_labels e) EClosed, s)
      | EffOpen v \<Rightarrow>
          (case im_effects (snd s) v of
             Some f \<Rightarrow> (SolveEffect (eff_labels e) (EOpen f), s)
           | None \<Rightarrow>
               let (f, cx) = fresh_effect (fst s)
               in (SolveEffect (eff_labels e) (EOpen f), cx, (snd s)\<lparr>im_effects := (im_effects (snd s))(v \<mapsto> f)\<rparr>)))"

definition instantiate_tail :: "symbol list \<Rightarrow> row_end \<Rightarrow> inst_state \<Rightarrow> row_tail \<times> inst_state" where
  "instantiate_tail labels tail s =
     (case tail of
        RowClosed \<Rightarrow> (RClosed, s)
      | RowOpen v \<Rightarrow>
          (case im_rows (snd s) v of
             Some f \<Rightarrow> (ROpen f, s)
           | None \<Rightarrow>
               let (f, cx) = fresh_row labels (fst s)
               in (ROpen f, cx, (snd s)\<lparr>im_rows := (im_rows (snd s))(v \<mapsto> f)\<rparr>)))"

fun instantiate_solve :: "ty \<Rightarrow> inst_state \<Rightarrow> solve_ty \<times> inst_state"
  and instantiate_list :: "ty list \<Rightarrow> inst_state \<Rightarrow> solve_ty list \<times> inst_state"
  and instantiate_fields :: "(symbol \<times> ty) list \<Rightarrow> inst_state \<Rightarrow> solve_fields \<times> inst_state" where
  "instantiate_solve (TVar v) s = (SVar (case im_types (snd s) v of Some w \<Rightarrow> w | None \<Rightarrow> v), s)"
| "instantiate_solve (TCon c) s = (SCon c, s)"
| "instantiate_solve (TAdt adt) s = (SAdt adt, s)"
| "instantiate_solve (TInterface i) s = (SInterface i, s)"
| "instantiate_solve (TEffectArg e) s = (let (e, s) = instantiate_effect e s in (SEffectArg e, s))"
| "instantiate_solve TUnit s = (SUnit, s)"
| "instantiate_solve TError s = (SError, s)"
| "instantiate_solve (TApp f a) s =
     (let (f, s) = instantiate_solve f s; (a, s) = instantiate_solve a s in (SApp f a, s))"
| "instantiate_solve (TArrow f t e) s =
     (let (f, s) = instantiate_solve f s; (t, s) = instantiate_solve t s; (e, s) = instantiate_effect e s
      in (SolveTy_arrow_eff f t e, s))"
| "instantiate_solve (TTuple ts) s = (let (ts, s) = instantiate_list ts s in (STuple ts, s))"
| "instantiate_solve (TRecord fs tail) s =
     (let (fs', s) = instantiate_fields fs s; (tail, s) = instantiate_tail (map fst fs) tail s in (SRecord fs' tail, s))"
| "instantiate_list [] s = ([], s)"
| "instantiate_list (t # ts) s =
     (let (t, s) = instantiate_solve t s; (ts, s) = instantiate_list ts s in (t # ts, s))"
| "instantiate_fields [] s = ([], s)"
| "instantiate_fields ((l, t) # fs) s =
     (let (t, s) = instantiate_solve t s; (fs, s) = instantiate_fields fs s in ((l, t) # fs, s))"

text \<open>Fresh type variables for quantified ones, after those of a shared prefix.\<close>

fun share_types :: "ty_var_id list \<Rightarrow> ty_var_id list \<Rightarrow> inst_state \<Rightarrow> ty_var_id list \<times> inst_state" where
  "share_types [] ids s = ([], s)"
| "share_types (v # vs) (w # ws) s =
     (let (ids, s) = share_types vs ws (fst s, (snd s)\<lparr>im_types := (im_types (snd s))(v \<mapsto> w)\<rparr>) in (w # ids, s))"
| "share_types (v # vs) [] s =
     (let (w, cx) = fresh_var_id (fst s);
          (ids, s) = share_types vs [] (cx, (snd s)\<lparr>im_types := (im_types (snd s))(v \<mapsto> w)\<rparr>)
      in (w # ids, s))"

fun fresh_effects :: "eff_row_var_id list \<Rightarrow> inst_state \<Rightarrow> eff_row_var_id list \<times> inst_state" where
  "fresh_effects [] s = ([], s)"
| "fresh_effects (v # vs) s =
     (let (f, cx) = fresh_effect (fst s);
          (fs, s) = fresh_effects vs (cx, (snd s)\<lparr>im_effects := (im_effects (snd s))(v \<mapsto> f)\<rparr>)
      in (f # fs, s))"

definition share_effects :: "eff_row_var_id list \<Rightarrow> eff_row_var_id list \<Rightarrow> inst_map \<Rightarrow> inst_map" where
  "share_effects vs prefixed m =
     fold (\<lambda>(v, f) m. m\<lparr>im_effects := (im_effects m)(v \<mapsto> f)\<rparr>) (zip vs prefixed) m"

definition instantiate_sharing ::
  "scheme \<Rightarrow> ty_var_id list \<Rightarrow> eff_row_var_id list \<Rightarrow> infer_ctx \<Rightarrow> solve_ty \<times> infer_ctx" where
  "instantiate_sharing sc type_prefix eff_prefix cx =
     (let (_, cx, m) = share_types (sc_vars sc) type_prefix (cx, InstMap_default);
          (t, cx, _) = instantiate_solve (sc_ty sc) (cx, share_effects (sc_effect_vars sc) eff_prefix m)
      in (t, cx))"

definition instantiate_method :: "scheme \<Rightarrow> infer_ctx \<Rightarrow> solve_ty \<times> ty_var_id list \<times> eff_row_var_id list \<times> infer_ctx" where
  "instantiate_method sc cx =
     (let (types, s) = share_types (sc_vars sc) [] (cx, InstMap_default);
          (effs, s) = fresh_effects (sc_effect_vars sc) s;
          (t, cx, _) = instantiate_solve (sc_ty sc) s
      in (t, types, effs, cx))"

definition instantiate_tracked ::
  "scheme \<Rightarrow> infer_ctx \<Rightarrow> solve_ty \<times> ty_var_id list \<times> row_var_id list \<times> eff_row_var_id list \<times> infer_ctx" where
  "instantiate_tracked sc cx =
     (let (types, s) = share_types (sc_vars sc) [] (cx, InstMap_default);
          (t, cx, m) = instantiate_solve (sc_ty sc) s
      in (t, types, List.map_filter (im_rows m) (sc_row_vars sc), List.map_filter (im_effects m) (sc_effect_vars sc), cx))"

definition instantiate :: "scheme \<Rightarrow> infer_ctx \<Rightarrow> solve_ty \<times> infer_ctx" where
  "instantiate sc cx = (let (t, _, _, _, cx) = instantiate_tracked sc cx in (t, cx))"

section \<open>Whether a signature stayed general\<close>

definition rows_gained_no_fields :: "infer_ctx \<Rightarrow> row_var_id list \<Rightarrow> bool option" where
  "rows_gained_no_fields cx rows =
     all_of (\<lambda>v. do { r \<leftarrow> expand_row (cx_rows cx) [] (ROpen v); Some (fst r = []) }) rows"

definition effects_remain_general :: "infer_ctx \<Rightarrow> eff_row_var_id list \<Rightarrow> bool option" where
  "effects_remain_general cx effs = do {
     (hit, _) \<leftarrow> any_state (\<lambda>v seen. do {
         e \<leftarrow> expand_effect cx (SolveEffect [] (EOpen v));
         Some (if se_atoms e \<noteq> [] then (True, seen)
               else case se_tail e of
                   EClosed \<Rightarrow> (True, seen)
                 | EOpen tail \<Rightarrow> if tail \<in> seen then (True, seen) else (False, insert tail seen)) }) effs {};
     Some (\<not> hit) }"

definition all_distinct_free :: "infer_ctx \<Rightarrow> ty_var_id list \<Rightarrow> bool option" where
  "all_distinct_free cx vs = do {
     (hit, _) \<leftarrow> any_state (\<lambda>v seen. do {
         t \<leftarrow> resolve_shallow cx (SVar v);
         Some (case t of
             SVar r \<Rightarrow> if r \<in> seen then (True, seen) else (False, insert r seen)
           | _ \<Rightarrow> (True, seen)) }) vs {};
     Some (\<not> hit) }"

lemmas [code] =
  resolve_shallow.simps repr.simps link_chain.simps expand_row.simps
  expand_atoms.simps is_comparable.simps occurs_and_lower.simps unify_types.simps
  subsume_step.simps collect_effect_vars.simps pending_parameter_effects.simps contravariant_effect_vars.simps
  collect_free_vars.simps default_numerics_deep.simps reify_inner.simps

end
