(* ===== verification/Fai_Unify.thy ===== *)
theory Fai_Unify
  imports Fai_Solver "HOL-Library.Finite_Map"
begin

text \<open>
  What the solver promises. Solver types denote ground types under an assignment of the variables; an
  assignment that satisfies every binding, every set of lacking labels and every constraint of a context
  is a solution of it. A unification that has a solution succeeds, returns, and keeps every solution.
\<close>

section \<open>Ground types and solutions\<close>

datatype ground =
    GCon con
  | GAdt nominal_ref
  | GInterface nominal_ref
  | GEffectArg "nominal_ref set"
  | GApp ground ground
  | GArrow ground ground "nominal_ref set"
  | GTuple "ground list"
  | GRecord "(symbol, ground) fmap"
  | GUnit

record assignment =
  as_ty :: "ty_var_id \<Rightarrow> ground"
  as_row :: "row_var_id \<Rightarrow> (symbol, ground) fmap"
  as_eff :: "eff_row_var_id \<Rightarrow> nominal_ref set"

fun tail_effect :: "assignment \<Rightarrow> eff_tail \<Rightarrow> nominal_ref set" where
  "tail_effect \<theta> EClosed = {}"
| "tail_effect \<theta> (EOpen v) = as_eff \<theta> v"

fun tail_row :: "assignment \<Rightarrow> row_tail \<Rightarrow> (symbol, ground) fmap" where
  "tail_row \<theta> RClosed = fmempty"
| "tail_row \<theta> (ROpen v) = as_row \<theta> v"

text \<open>
  The tail of a row stands for what the row has beyond its present entries. With \<open>apart\<close> this is meant
  strictly: the tail has none of the entries that are present.
\<close>

definition eff_denotes :: "bool \<Rightarrow> assignment \<Rightarrow> solve_effect \<Rightarrow> nominal_ref set \<Rightarrow> bool" where
  "eff_denotes apart \<theta> e E \<longleftrightarrow>
     E = set (se_atoms e) \<union> tail_effect \<theta> (se_tail e) \<and>
     (apart \<longrightarrow> set (se_atoms e) \<inter> tail_effect \<theta> (se_tail e) = {})"

text \<open>An error type stands for any type.\<close>

function denotes :: "bool \<Rightarrow> assignment \<Rightarrow> solve_ty \<Rightarrow> ground \<Rightarrow> bool" where
  "denotes apart \<theta> (SVar v) g \<longleftrightarrow> g = as_ty \<theta> v"
| "denotes apart \<theta> (SCon c) g \<longleftrightarrow> g = GCon c"
| "denotes apart \<theta> (SAdt r) g \<longleftrightarrow> g = GAdt r"
| "denotes apart \<theta> (SInterface r) g \<longleftrightarrow> g = GInterface r"
| "denotes apart \<theta> (SEffectArg e) g \<longleftrightarrow> (\<exists>E. g = GEffectArg E \<and> eff_denotes apart \<theta> e E)"
| "denotes apart \<theta> (SApp f a) g \<longleftrightarrow> (\<exists>gf ga. g = GApp gf ga \<and> denotes apart \<theta> f gf \<and> denotes apart \<theta> a ga)"
| "denotes apart \<theta> (SArrow f a e) g \<longleftrightarrow>
     (\<exists>gf ga E. g = GArrow gf ga E \<and> denotes apart \<theta> f gf \<and> denotes apart \<theta> a ga \<and> eff_denotes apart \<theta> e E)"
| "denotes apart \<theta> (STuple ts) g \<longleftrightarrow> (\<exists>gs. g = GTuple gs \<and> list_all2 (denotes apart \<theta>) ts gs)"
| "denotes apart \<theta> (SRecord fs tail) g \<longleftrightarrow>
     (\<exists>m. g = GRecord m \<and> distinct (map fst fs) \<and>
        (\<forall>p \<in> set fs. fst p |\<notin>| fmdom (tail_row \<theta> tail) \<and>
           (\<exists>h. fmlookup m (fst p) = Some h \<and> denotes apart \<theta> (snd p) h)) \<and>
        (\<forall>l. l \<notin> fst ` set fs \<longrightarrow> fmlookup m l = fmlookup (tail_row \<theta> tail) l))"
| "denotes apart \<theta> SUnit g \<longleftrightarrow> g = GUnit"
| "denotes apart \<theta> SError g \<longleftrightarrow> True"
  by pat_completeness auto
termination
proof (relation "measure (\<lambda>(_, _, t, _). size t)")
  fix fs :: solve_fields and p and tail :: row_tail and apart \<theta> m h
  assume "p \<in> set fs"
  then have "size_prod (\<lambda>_. 0) size p \<le> size_list (size_prod (\<lambda>_. 0) size) fs"
    by (rule size_list_estimation') simp
  then show "((apart, \<theta>, snd p, h), apart, \<theta>, SRecord fs tail, g) \<in> measure (\<lambda>(_, _, t, _). size t)" for g
    by (cases p) simp
next
  fix ts :: "solve_ty list" and t
  assume "t \<in> set ts"
  then have "size t \<le> size_list size ts" by (rule size_list_estimation') simp
  then show "((apart, \<theta>, t, h), apart, \<theta>, STuple ts, g) \<in> measure (\<lambda>(_, _, t, _). size t)" for apart \<theta> h g
    by simp
qed auto

definition row_denotes :: "bool \<Rightarrow> assignment \<Rightarrow> solve_fields \<Rightarrow> row_tail \<Rightarrow> (symbol, ground) fmap \<Rightarrow> bool" where
  "row_denotes apart \<theta> fs tail m \<longleftrightarrow> denotes apart \<theta> (SRecord fs tail) (GRecord m)"

lemma size_field:
  assumes "fmlookup m l = Some g"
  shows "size g < size (GRecord m)"
proof -
  have "(l, g) \<in> fset (fset_of_fmap m)" using assms by (simp add: fset_of_fmap.rep_eq set_of_map_def)
  then have "Suc (size g) \<le> (\<Sum>x \<in> fset (fset_of_fmap m). Suc (case x of (a, x) \<Rightarrow> size x))"
    using member_le_sum [of "(l, g)" "fset (fset_of_fmap m)" "\<lambda>x. Suc (case x of (a, x) \<Rightarrow> size x)"] by simp
  then show ?thesis by simp
qed

lemma size_member: "h \<in> set gs \<Longrightarrow> size h < size (GTuple gs)"
  by (simp add: less_Suc_eq_le size_list_estimation')

lemma size_fmran [termination_simp]:
  fixes m :: "(symbol, ground) fmap"
  shows "g \<in> fmran' m \<Longrightarrow> size g < Suc (\<Sum>x \<in> fset (fset_of_fmap m). Suc (case x of (a, x) \<Rightarrow> size x))"
  using size_field by (fastforce elim: fmran'E)

text \<open>Types with values that can be compared.\<close>

fun comparable :: "ground \<Rightarrow> bool" where
  "comparable (GArrow _ _ _) \<longleftrightarrow> False"
| "comparable (GInterface _) \<longleftrightarrow> False"
| "comparable (GEffectArg _) \<longleftrightarrow> False"
| "comparable (GApp f a) \<longleftrightarrow> comparable f \<and> comparable a"
| "comparable (GTuple gs) \<longleftrightarrow> (\<forall>g \<in> set gs. comparable g)"
| "comparable (GRecord m) \<longleftrightarrow> (\<forall>g \<in> fmran' m. comparable g)"
| "comparable _ \<longleftrightarrow> True"

fun admits :: "constraint \<Rightarrow> ground \<Rightarrow> bool" where
  "admits Numeric g \<longleftrightarrow> g = GCon CInt \<or> g = GCon CFloat"
| "admits EqConstraint g \<longleftrightarrow> comparable g"
| "admits OrdConstraint g \<longleftrightarrow> comparable g"

text \<open>The bindings of a context hold; with \<open>apart\<close>, its constraints do as well.\<close>

definition var_holds :: "bool \<Rightarrow> assignment \<Rightarrow> ground \<Rightarrow> var_state \<Rightarrow> bool" where
  "var_holds apart \<theta> g s =
     (case s of
        VBound t \<Rightarrow> denotes apart \<theta> t g
      | VFree c _ \<Rightarrow> apart \<longrightarrow> (case c of None \<Rightarrow> True | Some c \<Rightarrow> admits c g))"

definition row_holds :: "bool \<Rightarrow> assignment \<Rightarrow> (symbol, ground) fmap \<Rightarrow> row_state \<Rightarrow> bool" where
  "row_holds apart \<theta> m s =
     (case s of
        RowBound r \<Rightarrow> row_denotes apart \<theta> (sr_fields r) (sr_tail r) m
      | RowFree lacks \<Rightarrow> apart \<longrightarrow> (\<forall>l \<in> set lacks. l |\<notin>| fmdom m))"

definition eff_holds :: "bool \<Rightarrow> assignment \<Rightarrow> nominal_ref set \<Rightarrow> eff_state \<Rightarrow> bool" where
  "eff_holds apart \<theta> E s = (case s of EffBound e \<Rightarrow> eff_denotes apart \<theta> e E | EffFree \<Rightarrow> True)"

definition solves_ctx :: "bool \<Rightarrow> assignment \<Rightarrow> infer_ctx \<Rightarrow> bool" where
  "solves_ctx apart \<theta> cx \<longleftrightarrow>
     (\<forall>v < length (cx_vars cx). var_holds apart \<theta> (as_ty \<theta> v) (cx_vars cx ! v)) \<and>
     (\<forall>v < length (cx_rows cx). row_holds apart \<theta> (as_row \<theta> v) (cx_rows cx ! v)) \<and>
     (\<forall>v < length (cx_effects cx). eff_holds apart \<theta> (as_eff \<theta> v) (cx_effects cx ! v))"

section \<open>Well-formed contexts\<close>

text \<open>Every variable of a type or row exists.\<close>

fun eff_in :: "infer_ctx \<Rightarrow> solve_effect \<Rightarrow> bool" where
  "eff_in cx (SolveEffect _ EClosed) \<longleftrightarrow> True"
| "eff_in cx (SolveEffect _ (EOpen v)) \<longleftrightarrow> v < length (cx_effects cx)"

fun tail_in :: "infer_ctx \<Rightarrow> row_tail \<Rightarrow> bool" where
  "tail_in cx RClosed \<longleftrightarrow> True"
| "tail_in cx (ROpen v) \<longleftrightarrow> v < length (cx_rows cx)"

fun ty_in :: "infer_ctx \<Rightarrow> solve_ty \<Rightarrow> bool" where
  "ty_in cx (SVar v) \<longleftrightarrow> v < length (cx_vars cx)"
| "ty_in cx (SEffectArg e) \<longleftrightarrow> eff_in cx e"
| "ty_in cx (SApp f a) \<longleftrightarrow> ty_in cx f \<and> ty_in cx a"
| "ty_in cx (SArrow f a e) \<longleftrightarrow> ty_in cx f \<and> ty_in cx a \<and> eff_in cx e"
| "ty_in cx (STuple ts) \<longleftrightarrow> (\<forall>t \<in> set ts. ty_in cx t)"
| "ty_in cx (SRecord fs tail) \<longleftrightarrow> (\<forall>(l, t) \<in> set fs. ty_in cx t) \<and> tail_in cx tail"
| "ty_in cx _ \<longleftrightarrow> True"

definition fields_in :: "infer_ctx \<Rightarrow> solve_fields \<Rightarrow> bool" where
  "fields_in cx fs \<longleftrightarrow> (\<forall>(l, t) \<in> set fs. ty_in cx t)"

text \<open>
  Links between variables end, and the tail of a bound row or effect is a newer variable, so that
  following bindings ends.
\<close>

definition links_end :: "var_state list \<Rightarrow> bool" where
  "links_end vars \<longleftrightarrow>
     (\<exists>rank :: nat \<Rightarrow> nat. \<forall>v w. v < length vars \<longrightarrow> vars ! v = VBound (SVar w) \<longrightarrow> rank w < rank v)"

definition wf_ctx :: "infer_ctx \<Rightarrow> bool" where
  "wf_ctx cx \<longleftrightarrow>
     links_end (cx_vars cx) \<and> length (cx_origins cx) = length (cx_effects cx) \<and>
     (\<forall>v < length (cx_vars cx). \<forall>t. cx_vars cx ! v = VBound t \<longrightarrow> ty_in cx t) \<and>
     (\<forall>v < length (cx_rows cx). \<forall>r. cx_rows cx ! v = RowBound r \<longrightarrow>
        fields_in cx (sr_fields r) \<and> tail_in cx (sr_tail r) \<and> (\<forall>w. sr_tail r = ROpen w \<longrightarrow> v < w)) \<and>
     (\<forall>v < length (cx_effects cx). \<forall>e. cx_effects cx ! v = EffBound e \<longrightarrow>
        eff_in cx e \<and> (\<forall>w. se_tail e = EOpen w \<longrightarrow> v < w))"

text \<open>A context that has grown, and an assignment that gives old variables their old values.\<close>

definition grown :: "infer_ctx \<Rightarrow> infer_ctx \<Rightarrow> bool" where
  "grown cx cx' \<longleftrightarrow>
     length (cx_vars cx') = length (cx_vars cx) \<and> length (cx_rows cx) \<le> length (cx_rows cx') \<and>
     length (cx_effects cx) \<le> length (cx_effects cx') \<and> cx_ignore cx' = cx_ignore cx"

definition agrees :: "infer_ctx \<Rightarrow> assignment \<Rightarrow> assignment \<Rightarrow> bool" where
  "agrees cx \<theta> \<theta>' \<longleftrightarrow>
     as_ty \<theta>' = as_ty \<theta> \<and> (\<forall>v < length (cx_rows cx). as_row \<theta>' v = as_row \<theta> v) \<and>
     (\<forall>v < length (cx_effects cx). as_eff \<theta>' v = as_eff \<theta> v)"

lemma grown_refl [simp]: "grown cx cx" and agrees_refl [simp]: "agrees cx \<theta> \<theta>"
  by (simp_all add: grown_def agrees_def)

lemma grown_trans: "grown a b \<Longrightarrow> grown b c \<Longrightarrow> grown a c"
  by (auto simp: grown_def)

lemma agrees_trans: "grown a b \<Longrightarrow> agrees a \<theta> \<theta>' \<Longrightarrow> agrees b \<theta>' \<theta>'' \<Longrightarrow> agrees a \<theta> \<theta>''"
  by (auto simp: grown_def agrees_def)

lemma eff_in_iff: "eff_in cx e \<longleftrightarrow> (\<forall>v. se_tail e = EOpen v \<longrightarrow> v < length (cx_effects cx))"
  by (cases "(cx, e)" rule: eff_in.cases) auto

lemma tail_in_iff: "tail_in cx tail \<longleftrightarrow> (\<forall>v. tail = ROpen v \<longrightarrow> v < length (cx_rows cx))"
  by (cases tail) auto

lemma eff_in_grown: "grown cx cx' \<Longrightarrow> eff_in cx e \<Longrightarrow> eff_in cx' e"
  by (auto simp: eff_in_iff grown_def)

lemma tail_in_grown: "grown cx cx' \<Longrightarrow> tail_in cx tail \<Longrightarrow> tail_in cx' tail"
  by (auto simp: tail_in_iff grown_def)

lemma ty_in_grown: "grown cx cx' \<Longrightarrow> ty_in cx t \<Longrightarrow> ty_in cx' t"
  by (induction t) (auto simp: eff_in_grown tail_in_grown, auto simp: grown_def)

lemma fields_in_grown: "grown cx cx' \<Longrightarrow> fields_in cx fs \<Longrightarrow> fields_in cx' fs"
  by (auto simp: fields_in_def ty_in_grown)

lemma tail_effect_agrees: "agrees cx \<theta> \<theta>' \<Longrightarrow> eff_in cx e \<Longrightarrow> tail_effect \<theta>' (se_tail e) = tail_effect \<theta> (se_tail e)"
  by (cases "se_tail e") (auto simp: agrees_def eff_in_iff)

lemma tail_row_agrees: "agrees cx \<theta> \<theta>' \<Longrightarrow> tail_in cx tail \<Longrightarrow> tail_row \<theta>' tail = tail_row \<theta> tail"
  by (cases tail) (auto simp: agrees_def)

lemma eff_denotes_agrees: "agrees cx \<theta> \<theta>' \<Longrightarrow> eff_in cx e \<Longrightarrow> eff_denotes apart \<theta>' e E = eff_denotes apart \<theta> e E"
  by (simp add: eff_denotes_def tail_effect_agrees)

lemma denotes_agrees:
  assumes "agrees cx \<theta> \<theta>'"
  shows "ty_in cx t \<Longrightarrow> denotes apart \<theta>' t g = denotes apart \<theta> t g"
proof (induction t arbitrary: g)
  case (STuple ts)
  have "list_all2 (denotes apart \<theta>') ts gs = list_all2 (denotes apart \<theta>) ts gs" for gs
    by (rule list.rel_cong) (use STuple in auto)
  then show ?case by simp
next
  case (SRecord fs tail)
  have "denotes apart \<theta>' (snd p) h = denotes apart \<theta> (snd p) h" if "p \<in> set fs" for p h
    using SRecord that by (cases p) (fastforce simp: snds.simps)
  then show ?case using tail_row_agrees [OF assms] SRecord.prems by simp
qed (use assms in \<open>auto simp: eff_denotes_agrees agrees_def\<close>)

section \<open>Following links\<close>

definition is_link :: "var_state \<Rightarrow> bool" where
  "is_link s \<longleftrightarrow> (\<exists>w. s = VBound (SVar w))"

definition is_free :: "infer_ctx \<Rightarrow> ty_var_id \<Rightarrow> bool" where
  "is_free cx v \<longleftrightarrow> v < length (cx_vars cx) \<and> (\<exists>c level. cx_vars cx ! v = VFree c level)"

text \<open>A type that is not a variable with a binding.\<close>

definition is_head :: "infer_ctx \<Rightarrow> solve_ty \<Rightarrow> bool" where
  "is_head cx t \<longleftrightarrow> (\<forall>v. t = SVar v \<longrightarrow> is_free cx v)"

definition follows :: "var_state list \<Rightarrow> (nat \<Rightarrow> 'b) \<Rightarrow> bool" where
  "follows vars f \<longleftrightarrow> (\<forall>v w. v < length vars \<longrightarrow> vars ! v = VBound (SVar w) \<longrightarrow> f v = f w)"

lemma solves_follows: "solves_ctx apart \<theta> cx \<Longrightarrow> follows (cx_vars cx) (as_ty \<theta>)"
  unfolding solves_ctx_def follows_def by (fastforce simp: var_holds_def)

lemma solves_bound: "solves_ctx apart \<theta> cx \<Longrightarrow> v < length (cx_vars cx) \<Longrightarrow> cx_vars cx ! v = VBound t \<Longrightarrow> denotes apart \<theta> t (as_ty \<theta> v)"
  unfolding solves_ctx_def by (fastforce simp: var_holds_def)

lemma link_in: "wf_ctx cx \<Longrightarrow> v < length (cx_vars cx) \<Longrightarrow> cx_vars cx ! v = VBound t \<Longrightarrow> ty_in cx t"
  unfolding wf_ctx_def by blast

lemma slot_in [simp]: "i < length xs \<Longrightarrow> slot xs i = Some (xs ! i)"
  by (simp add: slot_def)

lemma link_rankE:
  assumes "wf_ctx cx"
  obtains rank :: "nat \<Rightarrow> nat" where
    "\<And>v w. v < length (cx_vars cx) \<Longrightarrow> cx_vars cx ! v = VBound (SVar w) \<Longrightarrow> w < length (cx_vars cx) \<and> rank w < rank v"
proof -
  from assms obtain rank :: "nat \<Rightarrow> nat" where
    "\<forall>v w. v < length (cx_vars cx) \<longrightarrow> cx_vars cx ! v = VBound (SVar w) \<longrightarrow> rank w < rank v"
    unfolding wf_ctx_def links_end_def by blast
  with link_in [OF assms] show ?thesis by (intro that [of rank]) fastforce
qed

lemma repr_spec:
  assumes wf: "wf_ctx cx"
  shows "v < length (cx_vars cx) \<Longrightarrow> \<exists>w b. repr cx v = Some (w, b) \<and> w < length (cx_vars cx) \<and>
      (\<forall>f :: nat \<Rightarrow> ground. follows (cx_vars cx) f \<longrightarrow> f v = f w) \<and>
      (case b of None \<Rightarrow> is_free cx w | Some t \<Rightarrow> cx_vars cx ! w = VBound t \<and> is_head cx t \<and> (\<forall>x. t \<noteq> SVar x))"
proof -
  obtain rank :: "nat \<Rightarrow> nat" where
    rank: "\<And>v w. v < length (cx_vars cx) \<Longrightarrow> cx_vars cx ! v = VBound (SVar w) \<Longrightarrow> w < length (cx_vars cx) \<and> rank w < rank v"
    using link_rankE [OF wf] by blast
  show "v < length (cx_vars cx) \<Longrightarrow> ?thesis"
  proof (induction "rank v" arbitrary: v rule: less_induct)
    case less
    show ?case
    proof (cases "cx_vars cx ! v")
      case (VFree c level)
      with less.prems show ?thesis by (subst repr.simps) (simp add: is_free_def)
    next
      case (VBound t)
      show ?thesis
      proof (cases "\<exists>w. t = SVar w")
        case True
        then obtain x where t: "t = SVar x" by blast
        from rank [OF less.prems VBound [unfolded t]] have x: "x < length (cx_vars cx)" "rank x < rank v" by simp_all
        have step: "repr cx v = repr cx x" using less.prems VBound t by (subst repr.simps) simp
        from less.hyps [OF x(2) x(1)] obtain w b where w:
          "repr cx x = Some (w, b)" "w < length (cx_vars cx)" "\<forall>f :: nat \<Rightarrow> ground. follows (cx_vars cx) f \<longrightarrow> f x = f w"
          "case b of None \<Rightarrow> is_free cx w | Some t \<Rightarrow> cx_vars cx ! w = VBound t \<and> is_head cx t \<and> (\<forall>x. t \<noteq> SVar x)"
          by blast
        have "\<forall>f :: nat \<Rightarrow> ground. follows (cx_vars cx) f \<longrightarrow> f v = f w"
          using VBound t less.prems w(3) unfolding follows_def by metis
        with w show ?thesis unfolding step by blast
      next
        case False
        with less.prems VBound have "repr cx v = Some (v, Some t)" by (subst repr.simps) (simp split: solve_ty.split)
        with False less.prems VBound show ?thesis by (auto simp: is_head_def)
      qed
    qed
  qed
qed

lemma resolve_shallow_spec:
  assumes wf: "wf_ctx cx" and t: "ty_in cx t"
  obtains t' where "resolve_shallow cx t = Some t'" "ty_in cx t'" "is_head cx t'"
    "\<And>apart \<theta> g. solves_ctx apart \<theta> cx \<Longrightarrow> denotes apart \<theta> t g \<Longrightarrow> denotes apart \<theta> t' g"
    "\<And>v. t = SVar v \<Longrightarrow> is_free cx v \<Longrightarrow> t' = t" "(\<And>v. t \<noteq> SVar v) \<Longrightarrow> t' = t"
proof -
  obtain rank :: "nat \<Rightarrow> nat" where
    rank: "\<And>v w. v < length (cx_vars cx) \<Longrightarrow> cx_vars cx ! v = VBound (SVar w) \<Longrightarrow> w < length (cx_vars cx) \<and> rank w < rank v"
    using link_rankE [OF wf] by blast
  have other: "resolve_shallow cx u = Some u" if "\<And>v. u \<noteq> SVar v" for u
    using that by (subst resolve_shallow.simps) (simp split: solve_ty.split)
  have var: "v < length (cx_vars cx) \<Longrightarrow>
      \<exists>t'. resolve_shallow cx (SVar v) = Some t' \<and> ty_in cx t' \<and> is_head cx t' \<and>
        (\<forall>apart \<theta>. solves_ctx apart \<theta> cx \<longrightarrow> denotes apart \<theta> t' (as_ty \<theta> v)) \<and> (is_free cx v \<longrightarrow> t' = SVar v)" for v
  proof (induction "rank v" arbitrary: v rule: less_induct)
    case less
    show ?case
    proof (cases "cx_vars cx ! v")
      case (VFree c level)
      with less.prems have "resolve_shallow cx (SVar v) = Some (SVar v)" by (subst resolve_shallow.simps) simp
      with less.prems VFree show ?thesis by (simp add: is_head_def is_free_def)
    next
      case (VBound t)
      with less.prems have step: "resolve_shallow cx (SVar v) = resolve_shallow cx t" by (subst resolve_shallow.simps) simp
      have nf: "\<not> is_free cx v" using VBound by (simp add: is_free_def)
      have t_in: "ty_in cx t" by (rule link_in [OF wf less.prems VBound])
      show ?thesis
      proof (cases "\<exists>w. t = SVar w")
        case True
        then obtain x where t: "t = SVar x" by blast
        from rank [OF less.prems VBound [unfolded t]] have x: "x < length (cx_vars cx)" "rank x < rank v" by simp_all
        have "as_ty \<theta> v = as_ty \<theta> x" if "solves_ctx apart \<theta> cx" for apart \<theta>
          using solves_bound [OF that less.prems VBound] t by simp
        with less.hyps [OF x(2) x(1)] nf show ?thesis unfolding step t by fastforce
      next
        case False
        then show ?thesis unfolding step
          using other [of t] t_in nf solves_bound [OF _ less.prems VBound] by (auto simp: is_head_def)
      qed
    qed
  qed
  show ?thesis
  proof (cases "\<exists>v. t = SVar v")
    case True
    then obtain v where v: "t = SVar v" by blast
    from var [of v] t v that show ?thesis by fastforce
  next
    case False
    with other [of t] t show ?thesis by (intro that [of t]) (auto simp: is_head_def)
  qed
qed

text \<open>Redirecting variables to one that is not itself redirected creates no cycle.\<close>

lemma links_end_redirect:
  assumes "links_end vars" and "length vars' = length vars" and "\<not> is_link (vars' ! w)"
    and "\<And>v. v < length vars \<Longrightarrow> vars' ! v = vars ! v \<or> vars' ! v = VBound (SVar w) \<or> \<not> is_link (vars' ! v)"
  shows "links_end vars'"
proof -
  from assms(1) obtain rank :: "nat \<Rightarrow> nat" where
    rank: "\<forall>v x. v < length vars \<longrightarrow> vars ! v = VBound (SVar x) \<longrightarrow> rank x < rank v"
    unfolding links_end_def by blast
  define rank' where "rank' u = (if u = w then 0 else Suc (rank u))" for u
  have "rank' x < rank' v" if "v < length vars'" "vars' ! v = VBound (SVar x)" for v x
  proof -
    from that have "v \<noteq> w" using assms(3) by (auto simp: is_link_def)
    moreover have "rank x < rank v" if "x \<noteq> w"
      using assms(2) assms(4) [of v] \<open>v < length vars'\<close> \<open>vars' ! v = VBound (SVar x)\<close> that rank by (fastforce simp: is_link_def)
    ultimately show ?thesis by (auto simp: rank'_def)
  qed
  then show ?thesis unfolding links_end_def by blast
qed

lemma link_chain_spec:
  assumes wf: "wf_ctx cx"
  shows "v < length (cx_vars cx) \<Longrightarrow> \<exists>w us. link_chain (cx_vars cx) v chain = Some (w, chain @ us) \<and>
      w < length (cx_vars cx) \<and> \<not> is_link (cx_vars cx ! w) \<and>
      v \<in> insert w (set us) \<and>
      (\<forall>u \<in> set us. u < length (cx_vars cx) \<and> (\<exists>x \<in> insert w (set us). cx_vars cx ! u = VBound (SVar x))) \<and>
      (\<forall>f :: nat \<Rightarrow> ground. follows (cx_vars cx) f \<longrightarrow> (\<forall>u \<in> insert v (set us). f u = f w))"
proof -
  obtain rank :: "nat \<Rightarrow> nat" where
    rank: "\<And>v w. v < length (cx_vars cx) \<Longrightarrow> cx_vars cx ! v = VBound (SVar w) \<Longrightarrow> w < length (cx_vars cx) \<and> rank w < rank v"
    using link_rankE [OF wf] by blast
  show "v < length (cx_vars cx) \<Longrightarrow> ?thesis"
  proof (induction "rank v" arbitrary: v chain rule: less_induct)
    case less
    show ?case
    proof (cases "is_link (cx_vars cx ! v)")
      case True
      then obtain x where x: "cx_vars cx ! v = VBound (SVar x)" by (auto simp: is_link_def)
      from rank [OF less.prems x] have x_in: "x < length (cx_vars cx)" "rank x < rank v" by simp_all
      from less.hyps [OF x_in(2,1), of "chain @ [v]"] obtain w us where
        w: "link_chain (cx_vars cx) x (chain @ [v]) = Some (w, chain @ v # us)" "w < length (cx_vars cx)" "\<not> is_link (cx_vars cx ! w)"
          "x \<in> insert w (set us)"
          "\<forall>u \<in> set us. u < length (cx_vars cx) \<and> (\<exists>x \<in> insert w (set us). cx_vars cx ! u = VBound (SVar x))"
          "\<forall>f :: nat \<Rightarrow> ground. follows (cx_vars cx) f \<longrightarrow> (\<forall>u \<in> insert x (set us). f u = f w)"
        by auto
      have step: "link_chain (cx_vars cx) v chain = link_chain (cx_vars cx) x (chain @ [v])"
        using less.prems x by (subst link_chain.simps) simp
      have "f v = f w" if "follows (cx_vars cx) f" for f :: "nat \<Rightarrow> ground"
        using that x less.prems w(6) unfolding follows_def by (metis insertI1)
      with w less.prems x show ?thesis unfolding step by (intro exI [of _ w] exI [of _ "v # us"]) auto
    next
      case False
      with less.prems have "link_chain (cx_vars cx) v chain = Some (v, chain)"
        by (subst link_chain.simps) (auto simp: is_link_def split: var_state.split solve_ty.split)
      with False less.prems show ?thesis by auto
    qed
  qed
qed

lemma compress_links:
  assumes "w \<notin> set us" "\<forall>u \<in> set us. u < length vars"
  shows "length (fold (compress_link w) us vars) = length vars"
    "i < length vars \<Longrightarrow> fold (compress_link w) us vars ! i = (if i \<in> set us then VBound (SVar w) else vars ! i)"
  using assms by (induction us arbitrary: vars) (auto simp: compress_link_def nth_list_update)

text \<open>What a step may do to the context when it changes no binding in substance.\<close>

definition same_solutions :: "infer_ctx \<Rightarrow> infer_ctx \<Rightarrow> bool" where
  "same_solutions cx cx' \<longleftrightarrow>
     wf_ctx cx' \<and> grown cx cx' \<and> cx_rows cx' = cx_rows cx \<and> cx_effects cx' = cx_effects cx \<and>
     (\<forall>v. is_free cx' v \<longleftrightarrow> is_free cx v) \<and> (\<forall>apart \<theta>. solves_ctx apart \<theta> cx' \<longleftrightarrow> solves_ctx apart \<theta> cx)"

lemma same_solutions_refl [simp]: "wf_ctx cx \<Longrightarrow> same_solutions cx cx"
  by (simp add: same_solutions_def)

lemma same_solutions_trans: "same_solutions a b \<Longrightarrow> same_solutions b c \<Longrightarrow> same_solutions a c"
  unfolding same_solutions_def by (auto intro: grown_trans)

lemma ty_in_vars: "length (cx_vars cx') = length (cx_vars cx) \<Longrightarrow> cx_rows cx' = cx_rows cx \<Longrightarrow> cx_effects cx' = cx_effects cx \<Longrightarrow>
    ty_in cx' t = ty_in cx t"
  by (induction t) (auto simp: eff_in_iff tail_in_iff)

lemma wf_ctx_vars:
  assumes wf: "wf_ctx cx" and len: "length vars = length (cx_vars cx)" and "links_end vars"
    and t: "\<And>v t. v < length vars \<Longrightarrow> vars ! v = VBound t \<Longrightarrow> cx_vars cx ! v = VBound t \<or> ty_in cx t"
  shows "wf_ctx (cx\<lparr>cx_vars := vars\<rparr>)"
proof -
  have e: "ty_in (cx\<lparr>cx_vars := vars\<rparr>) = ty_in cx" by (rule ext, rule ty_in_vars) (simp_all add: len)
  have e': "fields_in (cx\<lparr>cx_vars := vars\<rparr>) = fields_in cx" "tail_in (cx\<lparr>cx_vars := vars\<rparr>) = tail_in cx"
    "eff_in (cx\<lparr>cx_vars := vars\<rparr>) = eff_in cx"
    by (auto simp: fun_eq_iff fields_in_def e tail_in_iff eff_in_iff)
  have bound: "\<forall>v < length vars. \<forall>t. vars ! v = VBound t \<longrightarrow> ty_in cx t"
    using assms(4) link_in [OF wf] len by metis
  have same: "cx_vars (cx\<lparr>cx_vars := vars\<rparr>) = vars" "cx_rows (cx\<lparr>cx_vars := vars\<rparr>) = cx_rows cx"
    "cx_effects (cx\<lparr>cx_vars := vars\<rparr>) = cx_effects cx" "cx_origins (cx\<lparr>cx_vars := vars\<rparr>) = cx_origins cx"
    by simp_all
  from wf bound assms(3) show ?thesis unfolding wf_ctx_def e e' same by (elim conjE, intro conjI)
qed

definition links :: "var_state list \<Rightarrow> (nat \<times> nat) set" where
  "links vars = {(v, w). v < length vars \<and> vars ! v = VBound (SVar w)}"

text \<open>Links have been shortened.\<close>

definition compressed :: "var_state list \<Rightarrow> var_state list \<Rightarrow> bool" where
  "compressed vars vars' \<longleftrightarrow>
     length vars' = length vars \<and>
     (\<forall>u < length vars. vars' ! u = vars ! u \<or> (\<exists>w. vars' ! u = VBound (SVar w) \<and> (u, w) \<in> (links vars)\<^sup>+))"

lemma chain_linked:
  assumes wf: "wf_ctx cx" and us: "\<forall>u \<in> set us. u < length (cx_vars cx) \<and> (\<exists>x \<in> insert w (set us). cx_vars cx ! u = VBound (SVar x))"
  shows "u \<in> set us \<Longrightarrow> (u, w) \<in> (links (cx_vars cx))\<^sup>+"
proof -
  obtain rank :: "nat \<Rightarrow> nat" where
    rank: "\<And>v w. v < length (cx_vars cx) \<Longrightarrow> cx_vars cx ! v = VBound (SVar w) \<Longrightarrow> w < length (cx_vars cx) \<and> rank w < rank v"
    using link_rankE [OF wf] by blast
  show "u \<in> set us \<Longrightarrow> ?thesis"
  proof (induction "rank u" arbitrary: u rule: less_induct)
    case less
    with us obtain x where x: "u < length (cx_vars cx)" "x \<in> insert w (set us)" "cx_vars cx ! u = VBound (SVar x)" by blast
    then have link: "(u, x) \<in> links (cx_vars cx)" by (simp add: links_def)
    show ?case
    proof (cases "x = w")
      case False
      with less.hyps [of x] rank [OF x(1,3)] x(2) link show ?thesis by (meson insertE trancl_into_trancl2)
    qed (use link in auto)
  qed
qed

lemma resolve_compress_spec:
  assumes wf: "wf_ctx cx" and t: "ty_in cx t"
  obtains t' cx' where "compressed (cx_vars cx) (cx_vars cx')" "t' = t \<or> (\<exists>v w. t = SVar v \<and> (v, w) \<in> (links (cx_vars cx))\<^sup>* \<and> (t' = SVar w \<or> w < length (cx_vars cx) \<and> cx_vars cx ! w = VBound t'))" and "resolve_compress t cx = Some (t', cx')" "same_solutions cx cx'" "ty_in cx' t'" "is_head cx' t'"
    "\<And>apart \<theta> g. solves_ctx apart \<theta> cx \<Longrightarrow> denotes apart \<theta> t g \<Longrightarrow> denotes apart \<theta> t' g"
proof (cases "\<exists>v. t = SVar v")
  case False
  with t wf show ?thesis
    by (intro that [of cx t]) (auto simp: resolve_compress_def is_head_def compressed_def split: solve_ty.split)
next
  case True
  then obtain v where v: "t = SVar v" by blast
  with t have "v < length (cx_vars cx)" by simp
  from link_chain_spec [OF wf this, of "[]"] obtain w us where v_chain: "v \<in> insert w (set us)" and
    w: "link_chain (cx_vars cx) v [] = Some (w, us)" "w < length (cx_vars cx)" "\<not> is_link (cx_vars cx ! w)"
      "\<forall>u \<in> set us. u < length (cx_vars cx) \<and> (\<exists>x \<in> insert w (set us). cx_vars cx ! u = VBound (SVar x))"
      "\<And>f :: nat \<Rightarrow> ground. follows (cx_vars cx) f \<Longrightarrow> (\<forall>u \<in> insert v (set us). f u = f w)"
    by auto
  define vars where "vars = fold (compress_link w) us (cx_vars cx)"
  from w(3,4) have fresh: "w \<notin> set us" "\<forall>u \<in> set us. u < length (cx_vars cx)" by (auto simp: is_link_def)
  have len: "length vars = length (cx_vars cx)" unfolding vars_def by (rule compress_links(1) [OF fresh])
  have at: "vars ! i = (if i \<in> set us then VBound (SVar w) else cx_vars cx ! i)" if "i < length (cx_vars cx)" for i
    unfolding vars_def by (rule compress_links(2) [OF fresh that])
  let ?cx = "cx\<lparr>cx_vars := vars\<rparr>"
  have wf': "wf_ctx ?cx"
  proof (rule wf_ctx_vars [OF wf len])
    have "links_end (cx_vars cx)" using wf unfolding wf_ctx_def by blast
    then show "links_end vars"
      by (rule links_end_redirect [OF _ len, of w]) (use w(2,3) fresh(1) in \<open>auto simp: at\<close>)
    show "cx_vars cx ! v = VBound t \<or> ty_in cx t" if "v < length vars" "vars ! v = VBound t" for v t
      using that w(2) by (auto simp: at len split: if_splits)
  qed
  have "cx_vars cx ! u \<noteq> VFree c level" if "u \<in> set us" for u c level
    using w(4) that by fastforce
  then have free: "is_free ?cx u \<longleftrightarrow> is_free cx u" for u
    by (cases "u \<in> set us") (auto simp: is_free_def len at)
  have sol: "solves_ctx apart \<theta> ?cx \<longleftrightarrow> solves_ctx apart \<theta> cx" for apart \<theta>
  proof
    assume *: "solves_ctx apart \<theta> cx"
    from w(5) [OF solves_follows [OF this]] have "var_holds apart \<theta> (as_ty \<theta> u) (vars ! u)" if "u < length (cx_vars cx)" for u
      using * that unfolding solves_ctx_def by (auto simp: at var_holds_def)
    with * show "solves_ctx apart \<theta> ?cx" unfolding solves_ctx_def by (simp add: len)
  next
    assume *: "solves_ctx apart \<theta> ?cx"
    have at_w: "u \<in> set us \<Longrightarrow> as_ty \<theta> u = as_ty \<theta> w" for u
      using * fresh(2) unfolding solves_ctx_def by (auto simp: len at var_holds_def)
    have holds: "var_holds apart \<theta> (as_ty \<theta> u) (cx_vars cx ! u)" if "u < length (cx_vars cx)" "u \<notin> set us" for u
      using * that unfolding solves_ctx_def by (auto simp: len at)
    have "var_holds apart \<theta> (as_ty \<theta> u) (cx_vars cx ! u)" if u: "u \<in> set us" for u
    proof -
      from w(4) u obtain x where "x \<in> insert w (set us)" "cx_vars cx ! u = VBound (SVar x)" by blast
      with at_w [of x] at_w [OF u] show ?thesis by (auto simp: var_holds_def)
    qed
    with * holds show "solves_ctx apart \<theta> cx" unfolding solves_ctx_def by (auto simp: len)
  qed
  let ?t = "case vars ! w of VBound t \<Rightarrow> t | VFree _ _ \<Rightarrow> SVar w"
  have at_w: "vars ! w = cx_vars cx ! w" using at [OF w(2)] fresh(1) by simp
  show ?thesis
  proof (rule that)
    show "compressed (cx_vars cx) (cx_vars ?cx)"
      using chain_linked [OF wf w(4)] by (auto simp: compressed_def len at)
    have "(v, w) \<in> (links (cx_vars cx))\<^sup>*" using chain_linked [OF wf w(4), of v] v_chain by (auto intro: trancl_into_rtrancl)
    then show "?t = t \<or> (\<exists>v w. t = SVar v \<and> (v, w) \<in> (links (cx_vars cx))\<^sup>* \<and> (?t = SVar w \<or> w < length (cx_vars cx) \<and> cx_vars cx ! w = VBound ?t))"
      using w(2) v by (cases "cx_vars cx ! w") (auto simp: at_w)
    show "resolve_compress t cx = Some (?t, ?cx)"
      using w(2) len by (simp add: resolve_compress_def v w(1) vars_def Let_def)
    show "same_solutions cx ?cx" by (simp add: same_solutions_def wf' free sol grown_def len)
    show "ty_in ?cx ?t" using w(2) len link_in [OF wf', of w] by (auto simp: at_w split: var_state.split)
    show "is_head ?cx ?t" using w(2,3) len by (auto simp: is_head_def is_free_def is_link_def at_w split: var_state.split)
    show "denotes apart \<theta> ?t g" if *: "solves_ctx apart \<theta> cx" "denotes apart \<theta> t g" for apart \<theta> g
      using w(5) [OF solves_follows [OF *(1)]] *(2) v solves_bound [OF *(1) w(2)] by (auto simp: at_w split: var_state.split)
  qed
qed

section \<open>Expanding rows\<close>

lemma row_denotes_iff:
  "row_denotes apart \<theta> fs tail m \<longleftrightarrow>
     distinct (map fst fs) \<and>
     (\<forall>p \<in> set fs. fst p |\<notin>| fmdom (tail_row \<theta> tail) \<and>
        (\<exists>h. fmlookup m (fst p) = Some h \<and> denotes apart \<theta> (snd p) h)) \<and>
     (\<forall>l. l \<notin> fst ` set fs \<longrightarrow> fmlookup m l = fmlookup (tail_row \<theta> tail) l)"
  by (simp add: row_denotes_def)

lemma row_denotes_append:
  assumes "row_denotes apart \<theta> fs (ROpen v) m" and "row_denotes apart \<theta> fs' tail (as_row \<theta> v)"
  shows "row_denotes apart \<theta> (fs @ fs') tail m"
proof -
  have new: "fst p \<notin> fst ` set fs \<and> fmlookup m (fst p) = fmlookup (as_row \<theta> v) (fst p)" if "p \<in> set fs'" for p
  proof -
    from assms(2) that have "fst p |\<in>| fmdom (as_row \<theta> v)" unfolding row_denotes_iff by (metis fmdomI)
    with assms(1) show ?thesis unfolding row_denotes_iff by fastforce
  qed
  have old: "fst p |\<notin>| fmdom (tail_row \<theta> tail)" if "p \<in> set fs" for p
  proof
    assume t: "fst p |\<in>| fmdom (tail_row \<theta> tail)"
    have v: "fmlookup (as_row \<theta> v) (fst p) = None" using assms(1) that unfolding row_denotes_iff by (simp add: fmdom_notD)
    show False
    proof (cases "fst p \<in> fst ` set fs'")
      case True
      then show ?thesis using assms(2) v unfolding row_denotes_iff by fastforce
    next
      case False
      then have "fmlookup (tail_row \<theta> tail) (fst p) = None" using assms(2) v unfolding row_denotes_iff by metis
      with t show ?thesis by (simp add: fmlookup_dom_iff)
    qed
  qed
  from assms have "distinct (map fst fs)" "distinct (map fst fs')" unfolding row_denotes_iff by blast+
  moreover have "fst ` set fs \<inter> fst ` set fs' = {}"
  proof (rule equals0I)
    fix l
    assume l: "l \<in> fst ` set fs \<inter> fst ` set fs'"
    then obtain p where "p \<in> set fs'" "l = fst p" by blast
    with new [of p] l show False by simp
  qed
  ultimately have "distinct (map fst (fs @ fs'))" by simp
  moreover have "fst p |\<notin>| fmdom (tail_row \<theta> tail) \<and> (\<exists>h. fmlookup m (fst p) = Some h \<and> denotes apart \<theta> (snd p) h)"
    if "p \<in> set (fs @ fs')" for p
  proof (cases "p \<in> set fs")
    case True
    with old assms(1) show ?thesis unfolding row_denotes_iff by blast
  next
    case False
    with that have "p \<in> set fs'" by simp
    with new assms(2) show ?thesis unfolding row_denotes_iff by metis
  qed
  moreover have "fmlookup m l = fmlookup (tail_row \<theta> tail) l" if "l \<notin> fst ` set (fs @ fs')" for l
    using that assms unfolding row_denotes_iff by (simp add: image_Un)
  ultimately show ?thesis unfolding row_denotes_iff by blast
qed

definition row_free :: "infer_ctx \<Rightarrow> row_tail \<Rightarrow> bool" where
  "row_free cx tail \<longleftrightarrow> (\<forall>v. tail = ROpen v \<longrightarrow> (\<exists>lacks. cx_rows cx ! v = RowFree lacks))"

lemma solves_row: "solves_ctx apart \<theta> cx \<Longrightarrow> v < length (cx_rows cx) \<Longrightarrow> row_holds apart \<theta> (as_row \<theta> v) (cx_rows cx ! v)"
  and solves_eff: "solves_ctx apart \<theta> cx \<Longrightarrow> v < length (cx_effects cx) \<Longrightarrow> eff_holds apart \<theta> (as_eff \<theta> v) (cx_effects cx ! v)"
  unfolding solves_ctx_def by blast+

lemma wf_row:
  assumes "wf_ctx cx" "v < length (cx_rows cx)" "cx_rows cx ! v = RowBound r"
  shows "fields_in cx (sr_fields r)" "tail_in cx (sr_tail r)" "sr_tail r = ROpen w \<Longrightarrow> v < w"
  using assms unfolding wf_ctx_def by blast+

lemma wf_eff:
  assumes "wf_ctx cx" "v < length (cx_effects cx)" "cx_effects cx ! v = EffBound e"
  shows "eff_in cx e" "se_tail e = EOpen w \<Longrightarrow> v < w"
  using assms unfolding wf_ctx_def by blast+

lemma expand_row_spec:
  assumes wf: "wf_ctx cx" and "fields_in cx fs" "tail_in cx tail"
  obtains fs' tail' where "expand_row (cx_rows cx) fs tail = Some (fs', tail')" "fields_in cx fs'" "tail_in cx tail'" "row_free cx tail'"
    "\<And>apart \<theta> m. solves_ctx apart \<theta> cx \<Longrightarrow> row_denotes apart \<theta> fs tail m \<Longrightarrow> row_denotes apart \<theta> fs' tail' m"
proof -
  define left where "left tail = (case tail of RClosed \<Rightarrow> 0 | ROpen v \<Rightarrow> length (cx_rows cx) - v)" for tail
  have "\<exists>fs' tail'. expand_row (cx_rows cx) fs tail = Some (fs', tail') \<and> fields_in cx fs' \<and> tail_in cx tail' \<and> row_free cx tail' \<and>
      (\<forall>apart \<theta> m. solves_ctx apart \<theta> cx \<longrightarrow> row_denotes apart \<theta> fs tail m \<longrightarrow> row_denotes apart \<theta> fs' tail' m)"
    if "fields_in cx fs" "tail_in cx tail" for fs tail
    using that
  proof (induction "left tail" arbitrary: fs tail rule: less_induct)
    case less
    show ?case
    proof (cases tail)
      case RClosed
      then have "expand_row (cx_rows cx) fs tail = Some (fs, tail)" by (subst expand_row.simps) simp
      with RClosed less.prems show ?thesis by (simp add: row_free_def)
    next
      case (ROpen v)
      with less.prems have v: "v < length (cx_rows cx)" by simp
      show ?thesis
      proof (cases "cx_rows cx ! v")
        case (RowFree lacks)
        then have "expand_row (cx_rows cx) fs tail = Some (fs, tail)" using v ROpen by (subst expand_row.simps) simp
        with RowFree ROpen less.prems show ?thesis by (simp add: row_free_def)
      next
        case (RowBound r)
        note r = wf_row [OF wf v RowBound]
        have step: "expand_row (cx_rows cx) fs tail = expand_row (cx_rows cx) (fs @ sr_fields r) (sr_tail r)"
          using v ROpen RowBound by (subst expand_row.simps) simp
        have less': "left (sr_tail r) < left tail"
          using v r(2,3) unfolding left_def ROpen by (cases "sr_tail r") auto
        have "row_denotes apart \<theta> (fs @ sr_fields r) (sr_tail r) m"
          if "solves_ctx apart \<theta> cx" "row_denotes apart \<theta> fs tail m" for apart \<theta> m
          using row_denotes_append solves_row [OF that(1) v] that(2) unfolding ROpen RowBound row_holds_def by simp
        moreover have "fields_in cx (fs @ sr_fields r)" using less.prems(1) r(1) by (auto simp: fields_in_def)
        ultimately show ?thesis using less.hyps [OF less', of "fs @ sr_fields r"] r(2) unfolding step by blast
      qed
    qed
  qed
  with assms that show ?thesis by blast
qed

section \<open>The occurs check and constraints\<close>

lemma any_state_False:
  assumes "\<And>x s. x \<in> set xs \<Longrightarrow> I s \<Longrightarrow> \<exists>s'. f x s = Some (False, s') \<and> I s'" "I s"
  shows "\<exists>s'. any_state f xs s = Some (False, s') \<and> I s'"
  using assms
proof (induction xs arbitrary: s)
  case (Cons x xs)
  from Cons.prems(1) [of x s] Cons.prems(2) obtain s' where "f x s = Some (False, s')" "I s'" by auto
  moreover from Cons.IH [of s'] Cons.prems(1) \<open>I s'\<close> obtain s'' where "any_state f xs s' = Some (False, s'')" "I s''" by auto
  ultimately show ?case by simp
qed simp

lemma all_of_True: "(\<And>x. x \<in> set xs \<Longrightarrow> f x = Some True) \<Longrightarrow> all_of f xs = Some True"
  by (induction xs) auto

lemma lower_level_spec:
  assumes wf: "wf_ctx cx" and v: "v < length (cx_vars cx)"
  obtains cx' where "lower_level v to cx = Some cx'" "same_solutions cx cx'"
proof (cases "cx_vars cx ! v")
  case (VFree c level)
  define vars where "vars = (cx_vars cx)[v := VFree c to]"
  have at: "vars ! u = (if u = v then VFree c to else cx_vars cx ! u)" if "u < length (cx_vars cx)" for u
    using that by (simp add: vars_def nth_list_update)
  have len: "length vars = length (cx_vars cx)" by (simp add: vars_def)
  have "links_end (cx_vars cx)" using wf unfolding wf_ctx_def by blast
  then have "links_end vars" by (rule links_end_redirect [OF _ len, of v]) (auto simp: at is_link_def v)
  then have "wf_ctx (cx\<lparr>cx_vars := vars\<rparr>)"
    by (rule wf_ctx_vars [OF wf len]) (auto simp: at len split: if_splits)
  moreover have "is_free (cx\<lparr>cx_vars := vars\<rparr>) u \<longleftrightarrow> is_free cx u" for u
    using VFree by (cases "u = v") (auto simp: is_free_def at len)
  moreover have "var_holds apart \<theta> (as_ty \<theta> u) (vars ! u) \<longleftrightarrow> var_holds apart \<theta> (as_ty \<theta> u) (cx_vars cx ! u)"
    if "u < length (cx_vars cx)" for apart \<theta> u
    using VFree that by (auto simp: at var_holds_def)
  then have "solves_ctx apart \<theta> (cx\<lparr>cx_vars := vars\<rparr>) \<longleftrightarrow> solves_ctx apart \<theta> cx" for apart \<theta>
    unfolding solves_ctx_def by (simp add: len)
  ultimately have "same_solutions cx (cx\<lparr>cx_vars := vars\<rparr>)"
    by (simp add: same_solutions_def grown_def len)
  with v VFree wf that show ?thesis by (simp add: lower_level_def vars_def split: if_splits)
next
  case (VBound t)
  with v wf that show ?thesis by (simp add: lower_level_def)
qed

lemma same_solutionsD:
  assumes "same_solutions cx cx'"
  shows "wf_ctx cx'" "ty_in cx t \<Longrightarrow> ty_in cx' t" "solves_ctx apart \<theta> cx \<Longrightarrow> solves_ctx apart \<theta> cx'"
    "is_head cx t \<Longrightarrow> is_head cx' t" "grown cx cx'"
  using assms ty_in_grown unfolding same_solutions_def is_head_def by blast+

lemma occurs_nonvar:
  assumes wf: "wf_ctx cx" and sol: "solves_ctx apart \<theta> cx" and t: "ty_in cx t" "denotes apart \<theta> t g" "\<And>u. t \<noteq> SVar u"
    and part: "\<And>u h s. size h < size g \<Longrightarrow> same_solutions cx (fst s) \<Longrightarrow> ty_in (fst s) u \<Longrightarrow> denotes apart \<theta> u h \<Longrightarrow>
      \<exists>s'. occurs_and_lower v to u s = Some (False, s') \<and> same_solutions cx (fst s')"
    and s: "same_solutions cx (fst s)"
  shows "\<exists>s'. occurs_and_lower v to t s = Some (False, s') \<and> same_solutions cx (fst s')"
proof -
  note in' = same_solutionsD(2) and any = any_state_False [where I = "\<lambda>s. same_solutions cx (fst s)"]
  have two: "\<exists>s'. (do { (hit, s) \<leftarrow> occurs_and_lower v to f s; if hit then Some (True, s) else occurs_and_lower v to a s }) = Some (False, s') \<and>
      same_solutions cx (fst s')"
    if f: "ty_in cx f" "denotes apart \<theta> f gf" "size gf < size g" and a: "ty_in cx a" "denotes apart \<theta> a ga" "size ga < size g" for f a gf ga
  proof -
    from part [OF f(3) s in' [OF s f(1)] f(2)] obtain s1 where s1: "occurs_and_lower v to f s = Some (False, s1)" "same_solutions cx (fst s1)" by blast
    from part [OF a(3) s1(2) in' [OF s1(2) a(1)] a(2)] s1(1) show ?thesis by auto
  qed
  show ?thesis
  proof (cases t)
    case (SApp f a)
    with t two show ?thesis by (subst occurs_and_lower.simps) fastforce
  next
    case (SArrow f a e)
    with t two show ?thesis by (subst occurs_and_lower.simps) fastforce
  next
    case (STuple ts)
    with t obtain gs where gs: "g = GTuple gs" "list_all2 (denotes apart \<theta>) ts gs" by auto
    have "\<exists>s'. any_state (occurs_and_lower v to) ts s = Some (False, s') \<and> same_solutions cx (fst s')"
    proof (rule any [OF _ s])
      fix u and s' :: occurs_state
      assume u: "u \<in> set ts" "same_solutions cx (fst s')"
      from gs(2) u(1) obtain h where h: "h \<in> set gs" "denotes apart \<theta> u h"
        by (metis in_set_conv_nth list_all2_conv_all_nth)
      from u(1) t(1) STuple have "ty_in cx u" by simp
      from part [OF _ u(2) in' [OF u(2) this] h(2)] size_member [OF h(1)] gs(1)
      show "\<exists>s''. occurs_and_lower v to u s' = Some (False, s'') \<and> same_solutions cx (fst s'')" by simp
    qed
    with STuple show ?thesis by (subst occurs_and_lower.simps) simp
  next
    case (SRecord fs tail)
    with t obtain m where m: "g = GRecord m" "row_denotes apart \<theta> fs tail m" by (auto simp: row_denotes_def)
    from SRecord t(1) have f: "fields_in cx fs" "tail_in cx tail" by (auto simp: fields_in_def)
    from s have rows: "cx_rows (fst s) = cx_rows cx" by (simp add: same_solutions_def)
    obtain fs' tail' where r: "expand_row (cx_rows cx) fs tail = Some (fs', tail')" "fields_in cx fs'" "row_denotes apart \<theta> fs' tail' m"
      using expand_row_spec [OF wf f] sol m(2) by metis
    have "\<exists>s'. any_state (\<lambda>(_, t). occurs_and_lower v to t) fs' s = Some (False, s') \<and> same_solutions cx (fst s')"
    proof (rule any [OF _ s])
      fix p and s' :: occurs_state
      assume p: "p \<in> set fs'" "same_solutions cx (fst s')"
      from r(3) p(1) obtain h where h: "fmlookup m (fst p) = Some h" "denotes apart \<theta> (snd p) h" unfolding row_denotes_iff by blast
      from r(2) p(1) have "ty_in cx (snd p)" by (auto simp: fields_in_def)
      from part [OF _ p(2) in' [OF p(2) this] h(2)] size_field [OF h(1)] m(1)
      show "\<exists>s''. (case p of (_, t) \<Rightarrow> occurs_and_lower v to t) s' = Some (False, s'') \<and> same_solutions cx (fst s'')"
        by (simp add: split_def)
    qed
    with SRecord r(1) rows show ?thesis by (subst occurs_and_lower.simps) simp
  qed (use t(3) s in \<open>auto simp: occurs_and_lower.simps\<close>)
qed

lemma occurs_part:
  assumes wf: "wf_ctx cx" and sol: "solves_ctx apart \<theta> cx"
  shows "ty_in cx t \<Longrightarrow> denotes apart \<theta> t g \<Longrightarrow> size g < size (as_ty \<theta> v) \<Longrightarrow> same_solutions cx (fst s) \<Longrightarrow>
    \<exists>s'. occurs_and_lower v to t s = Some (False, s') \<and> same_solutions cx (fst s')"
proof (induction "size g" arbitrary: g t s rule: less_induct)
  case less
  have nonvar: "\<exists>s'. occurs_and_lower v to u s = Some (False, s') \<and> same_solutions cx (fst s')"
    if u: "ty_in cx u" "denotes apart \<theta> u g" "\<And>x. u \<noteq> SVar x" and s: "same_solutions cx (fst s)" for u s
  proof (rule occurs_nonvar [OF wf sol u _ s])
    fix u h and s :: occurs_state
    assume *: "size h < size g" "same_solutions cx (fst s)" "ty_in (fst s) u" "denotes apart \<theta> u h"
    from *(2,3) have "ty_in cx u" by (simp add: same_solutions_def grown_def ty_in_vars [of "fst s" cx])
    from less.hyps [OF *(1) this *(4) _ *(2)] *(1) less.prems(3)
    show "\<exists>s'. occurs_and_lower v to u s = Some (False, s') \<and> same_solutions cx (fst s')" by simp
  qed
  show ?case
  proof (cases "\<exists>x. t = SVar x")
    case False
    with nonvar less.prems show ?thesis by blast
  next
    case True
    then obtain x where x: "t = SVar x" by blast
    note s = same_solutionsD [OF less.prems(4)]
    from s(2) [OF less.prems(1)] x have "x < length (cx_vars (fst s))" by simp
    from repr_spec [OF s(1) this] obtain w b where w:
      "repr (fst s) x = Some (w, b)" "w < length (cx_vars (fst s))"
      "\<forall>f :: nat \<Rightarrow> ground. follows (cx_vars (fst s)) f \<longrightarrow> f x = f w"
      "case b of None \<Rightarrow> is_free (fst s) w | Some t \<Rightarrow> cx_vars (fst s) ! w = VBound t \<and> is_head (fst s) t \<and> (\<forall>x. t \<noteq> SVar x)"
      by blast
    have g: "g = as_ty \<theta> w" using w(3) solves_follows [OF s(3) [OF sol]] less.prems(2) x by simp
    with less.prems(3) have "w \<noteq> v" by auto
    show ?thesis
    proof (cases b)
      case None
      obtain cx' where "lower_level w to (fst s) = Some cx'" "same_solutions (fst s) cx'"
        using lower_level_spec [OF s(1) w(2)] by blast
      with w(1) None x \<open>w \<noteq> v\<close> same_solutions_trans [OF less.prems(4)] show ?thesis
        by (subst occurs_and_lower.simps) auto
    next
      case (Some u)
      with w(4) have u: "cx_vars (fst s) ! w = VBound u" "\<And>x. u \<noteq> SVar x" by auto
      from link_in [OF s(1) w(2) u(1)] less.prems(4) have "ty_in cx u"
        by (simp add: same_solutions_def grown_def ty_in_vars [of "fst s" cx])
      from nonvar [OF this _ u(2), of "(fst s, insert w (snd s))"] solves_bound [OF s(3) [OF sol] w(2) u(1)] g less.prems(4)
      have "\<exists>s'. occurs_and_lower v to u (fst s, insert w (snd s)) = Some (False, s') \<and> same_solutions cx (fst s')" by simp
      with w(1) Some x \<open>w \<noteq> v\<close> less.prems(4) show ?thesis
        by (subst occurs_and_lower.simps) (cases "w \<in> snd s"; auto)
    qed
  qed
qed

lemma is_comparable_spec:
  assumes wf: "wf_ctx cx" and sol: "solves_ctx apart \<theta> cx"
  shows "ty_in cx t \<Longrightarrow> denotes apart \<theta> t g \<Longrightarrow> comparable g \<Longrightarrow> is_comparable cx t = Some True"
proof (induction "size g" arbitrary: g t rule: less_induct)
  case less
  obtain t' where t': "resolve_shallow cx t = Some t'" "ty_in cx t'" "denotes apart \<theta> t' g"
    using resolve_shallow_spec [OF wf less.prems(1)] sol less.prems(2) by metis
  show ?case
  proof (cases t')
    case (SApp f a)
    with t' obtain gf ga where g: "g = GApp gf ga" "denotes apart \<theta> f gf" "denotes apart \<theta> a ga" by auto
    from g(1) less.prems(3) SApp t'(2) have "is_comparable cx f = Some True" "is_comparable cx a = Some True"
      by (auto intro: less.hyps [OF _ _ g(2)] less.hyps [OF _ _ g(3)])
    with t'(1) SApp show ?thesis by (subst is_comparable.simps) simp
  next
    case (STuple ts)
    with t' obtain gs where g: "g = GTuple gs" "list_all2 (denotes apart \<theta>) ts gs" by auto
    have "is_comparable cx u = Some True" if u: "u \<in> set ts" for u
    proof -
      from g(2) u obtain h where h: "h \<in> set gs" "denotes apart \<theta> u h"
        by (metis in_set_conv_nth list_all2_conv_all_nth)
      from u STuple t'(2) g(1) h(1) less.prems(3) size_member [OF h(1)] show ?thesis by (intro less.hyps [OF _ _ h(2)]) auto
    qed
    with t'(1) STuple show ?thesis by (subst is_comparable.simps) (simp add: all_of_True)
  next
    case (SRecord fs tail)
    with t' obtain m where m: "g = GRecord m" "row_denotes apart \<theta> fs tail m" by (auto simp: row_denotes_def)
    from SRecord t'(2) have f: "fields_in cx fs" "tail_in cx tail" by (auto simp: fields_in_def)
    obtain fs' tail' where r: "expand_row (cx_rows cx) fs tail = Some (fs', tail')" "fields_in cx fs'" "row_denotes apart \<theta> fs' tail' m"
      using expand_row_spec [OF wf f] sol m(2) by metis
    have "is_comparable cx (snd p) = Some True" if p: "p \<in> set fs'" for p
    proof -
      from r(3) p obtain h where h: "fmlookup m (fst p) = Some h" "denotes apart \<theta> (snd p) h" unfolding row_denotes_iff by blast
      from r(2) p have "ty_in cx (snd p)" by (auto simp: fields_in_def)
      moreover have "comparable h" using less.prems(3) m(1) h(1) by (auto intro: fmran'I)
      ultimately show ?thesis using size_field [OF h(1)] m(1) by (intro less.hyps [OF _ _ h(2)]) auto
    qed
    then have "all_of (\<lambda>(_, t). is_comparable cx t) fs' = Some True" by (intro all_of_True) (simp add: split_def)
    with t'(1) SRecord r(1) show ?thesis by (subst is_comparable.simps) simp
  qed (use t' less.prems(3) in \<open>auto simp: is_comparable.simps\<close>)
qed

lemma satisfies_constraint_spec:
  assumes "wf_ctx cx" "solves_ctx apart \<theta> cx" "ty_in cx t" "denotes apart \<theta> t g" "admits c g" "is_head cx t"
  shows "satisfies_constraint cx c t = Some True"
proof -
  obtain t' where t': "resolve_shallow cx t = Some t'" "ty_in cx t'" "denotes apart \<theta> t' g"
    using resolve_shallow_spec [OF assms(1,3)] assms(2,4) by metis
  show ?thesis
  proof (cases c)
    case Numeric
    with t' assms(5) show ?thesis by (cases t') (auto simp: satisfies_constraint_def)
  qed (use t' assms is_comparable_spec in \<open>auto simp: satisfies_constraint_def\<close>)
qed

text \<open>Giving a free variable another state.\<close>

lemma update_free:
  assumes wf: "wf_ctx cx" and v: "is_free cx v"
    and s: "case s of VFree _ _ \<Rightarrow> True | VBound t \<Rightarrow> ty_in cx t \<and> is_head cx t \<and> t \<noteq> SVar v"
  shows "wf_ctx (cx\<lparr>cx_vars := (cx_vars cx)[v := s]\<rparr>)" "grown cx (cx\<lparr>cx_vars := (cx_vars cx)[v := s]\<rparr>)"
    "solves_ctx apart \<theta> cx \<Longrightarrow> var_holds apart \<theta> (as_ty \<theta> v) s \<Longrightarrow> solves_ctx apart \<theta> (cx\<lparr>cx_vars := (cx_vars cx)[v := s]\<rparr>)"
proof -
  let ?vars = "(cx_vars cx)[v := s]"
  have len: "length ?vars = length (cx_vars cx)" and v': "v < length (cx_vars cx)" using v by (simp_all add: is_free_def)
  have at: "?vars ! u = (if u = v then s else cx_vars cx ! u)" if "u < length (cx_vars cx)" for u
    using that by (simp add: nth_list_update)
  have ends: "links_end (cx_vars cx)" using wf unfolding wf_ctx_def by blast
  have "links_end ?vars"
  proof (cases "is_link s")
    case True
    then obtain w where w: "s = VBound (SVar w)" by (auto simp: is_link_def)
    with s have "is_free cx w" "w \<noteq> v" by (auto simp: is_head_def)
    then have "w < length (cx_vars cx)" "\<not> is_link (cx_vars cx ! w)" by (auto simp: is_free_def is_link_def)
    with \<open>w \<noteq> v\<close> show ?thesis
    proof (intro links_end_redirect [OF ends len, of w])
      show "?vars ! u = cx_vars cx ! u \<or> ?vars ! u = VBound (SVar w) \<or> \<not> is_link (?vars ! u)" if "u < length (cx_vars cx)" for u
        using at [OF that] w by simp
    qed (simp add: at)
  next
    case False
    then show ?thesis by (intro links_end_redirect [OF ends len, of v]) (auto simp: at v')
  qed
  then show "wf_ctx (cx\<lparr>cx_vars := ?vars\<rparr>)"
    by (rule wf_ctx_vars [OF wf len]) (use s in \<open>auto simp: at split: if_splits\<close>)
  show "grown cx (cx\<lparr>cx_vars := ?vars\<rparr>)" by (simp add: grown_def)
  show "solves_ctx apart \<theta> (cx\<lparr>cx_vars := ?vars\<rparr>)" if "solves_ctx apart \<theta> cx" "var_holds apart \<theta> (as_ty \<theta> v) s"
    using that unfolding solves_ctx_def by (auto simp: at)
qed

lemma stronger_is_one: "stronger_constraint c d = d \<or> c = Some (stronger_constraint c d)"
  by (cases "(c, d)" rule: stronger_constraint.cases) auto

text \<open>Success: a result that is well-formed and has, for a solution that is given, an extension of it.\<close>

definition keeps :: "infer_ctx \<Rightarrow> assignment \<Rightarrow> infer_ctx \<Rightarrow> assignment \<Rightarrow> bool" where
  "keeps cx \<theta> cx' \<theta>' \<longleftrightarrow> wf_ctx cx' \<and> solves_ctx True \<theta>' cx' \<and> grown cx cx' \<and> agrees cx \<theta> \<theta>'"

definition succeeds :: "solving \<Rightarrow> infer_ctx \<Rightarrow> assignment \<Rightarrow> bool" where
  "succeeds f cx \<theta> \<longleftrightarrow> (\<exists>cx' \<theta>'. f cx = Some (UOk, cx') \<and> keeps cx \<theta> cx' \<theta>')"

lemma keeps_refl: "wf_ctx cx \<Longrightarrow> solves_ctx True \<theta> cx \<Longrightarrow> keeps cx \<theta> cx \<theta>"
  by (simp add: keeps_def)

lemma keeps_trans: "keeps a \<theta> b \<theta>' \<Longrightarrow> keeps b \<theta>' c \<theta>'' \<Longrightarrow> keeps a \<theta> c \<theta>''"
  unfolding keeps_def using grown_trans agrees_trans by blast

lemma keeps_same: "same_solutions cx cx' \<Longrightarrow> solves_ctx True \<theta> cx \<Longrightarrow> keeps cx \<theta> cx' \<theta>"
  by (simp add: keeps_def same_solutions_def)

lemma keepsD:
  assumes "keeps cx \<theta> cx' \<theta>'"
  shows "wf_ctx cx'" "solves_ctx True \<theta>' cx'" "ty_in cx t \<Longrightarrow> ty_in cx' t"
    "ty_in cx t \<Longrightarrow> denotes True \<theta> t g \<Longrightarrow> denotes True \<theta>' t g"
    "eff_in cx e \<Longrightarrow> eff_in cx' e" "eff_in cx e \<Longrightarrow> eff_denotes True \<theta> e E \<Longrightarrow> eff_denotes True \<theta>' e E"
  using assms ty_in_grown denotes_agrees eff_in_grown eff_denotes_agrees unfolding keeps_def by blast+

lemma bind_var_spec:
  assumes wf: "wf_ctx cx" and sol: "solves_ctx True \<theta> cx" and v: "is_free cx v"
    and t: "ty_in cx t" "is_head cx t" "t \<noteq> SVar v" "denotes True \<theta> t (as_ty \<theta> v)"
  shows "succeeds (bind_var v t) cx \<theta>"
proof -
  from v have v': "v < length (cx_vars cx)" by (simp add: is_free_def)
  then obtain to where to: "level_of cx v = Some to" by (simp add: level_of_def)
  have "\<exists>s. occurs_and_lower v to t (cx, {}) = Some (False, s) \<and> same_solutions cx (fst s)"
  proof (cases "\<exists>w. t = SVar w")
    case True
    then obtain w where w: "t = SVar w" "w \<noteq> v" "is_free cx w" using t(2,3) by (auto simp: is_head_def)
    then have "repr cx w = Some (w, None)" by (subst repr.simps) (auto simp: is_free_def)
    moreover obtain cx' where "lower_level w to cx = Some cx'" "same_solutions cx cx'"
      using lower_level_spec [OF wf] w(3) by (auto simp: is_free_def)
    ultimately show ?thesis using w by (subst occurs_and_lower.simps) auto
  next
    case False
    show ?thesis
    proof (rule occurs_nonvar [OF wf sol t(1,4)])
      fix u h and s :: occurs_state
      assume *: "size h < size (as_ty \<theta> v)" "same_solutions cx (fst s)" "ty_in (fst s) u" "denotes True \<theta> u h"
      from *(2,3) have "ty_in cx u" by (simp add: same_solutions_def grown_def ty_in_vars [of "fst s" cx])
      from occurs_part [OF wf sol this *(4,1,2)]
      show "\<exists>s'. occurs_and_lower v to u s = Some (False, s') \<and> same_solutions cx (fst s')" .
    qed (use False wf in auto)
  qed
  then obtain cx1 seen where occ: "occurs_and_lower v to t (cx, {}) = Some (False, (cx1, seen))" "same_solutions cx cx1" by auto
  note s = same_solutionsD [OF occ(2)]
  have v1: "is_free cx1 v" using v occ(2) by (simp add: same_solutions_def)
  note t1 = s(2) [OF t(1)] s(4) [OF t(2)] and sol1 = s(3) [OF sol]
  have head: "resolve_shallow cx1 t = Some t"
  proof -
    obtain t' where "resolve_shallow cx1 t = Some t'" "\<And>v. t = SVar v \<Longrightarrow> is_free cx1 v \<Longrightarrow> t' = t" "(\<And>v. t \<noteq> SVar v) \<Longrightarrow> t' = t"
      using resolve_shallow_spec [OF s(1) t1(1)] by metis
    with t1(2) show ?thesis by (cases t) (auto simp: is_head_def)
  qed
  have bound: "\<exists>cx'. bind = Some (UOk, cx') \<and> keeps cx \<theta> cx' \<theta>"
    if "bind = Some (UOk, cx2\<lparr>cx_vars := (cx_vars cx2)[v := VBound t]\<rparr>)" and cx2: "wf_ctx cx2" "solves_ctx True \<theta> cx2" "grown cx cx2"
      "is_free cx2 v" "is_head cx2 t" for bind cx2
  proof -
    note new = update_free [OF cx2(1,4), of "VBound t"]
    have "ty_in cx2 t" using cx2(3) t(1) by (rule ty_in_grown)
    with new cx2 t(3,4) that(1) show ?thesis by (auto simp: keeps_def var_holds_def intro: grown_trans)
  qed
  obtain c level where c: "cx_vars cx1 ! v = VFree c level" "v < length (cx_vars cx1)" using v1 by (auto simp: is_free_def)
  have "\<exists>cx'. bind_var v t cx = Some (UOk, cx') \<and> keeps cx \<theta> cx' \<theta>"
  proof (cases c)
    case None
    with c occ(1) to have "bind_var v t cx = Some (UOk, cx1\<lparr>cx_vars := (cx_vars cx1)[v := VBound t]\<rparr>)"
      by (simp add: bind_var_def constraint_of_def)
    then show ?thesis by (rule bound [OF _ s(1) sol1 s(5) v1 t1(2)])
  next
    case (Some d)
    have admits: "admits d (as_ty \<theta> v)" using sol1 c Some unfolding solves_ctx_def var_holds_def by fastforce
    show ?thesis
    proof (cases "\<exists>w. t = SVar w")
      case True
      then obtain w where w: "t = SVar w" by blast
      with t1(2) t(3) have "is_free cx1 w" "w \<noteq> v" by (auto simp: is_head_def)
      then obtain e l where e: "cx_vars cx1 ! w = VFree e l" "w < length (cx_vars cx1)" by (auto simp: is_free_def)
      define cx2 where "cx2 = cx1\<lparr>cx_vars := (cx_vars cx1)[w := VFree (Some (stronger_constraint e d)) l]\<rparr>"
      note new = update_free [OF s(1) \<open>is_free cx1 w\<close>, of "VFree (Some (stronger_constraint e d)) l", folded cx2_def]
      have "as_ty \<theta> w = as_ty \<theta> v" using t(4) w by simp
      moreover have "e = Some x \<Longrightarrow> admits x (as_ty \<theta> w)" for x
        using sol1 e unfolding solves_ctx_def var_holds_def by fastforce
      ultimately have "var_holds True \<theta> (as_ty \<theta> w) (VFree (Some (stronger_constraint e d)) l)"
        using stronger_is_one [of e d] admits by (auto simp: var_holds_def)
      with new sol1 have ok: "wf_ctx cx2" "solves_ctx True \<theta> cx2" "grown cx1 cx2" by simp_all
      have "is_free cx2 u \<longleftrightarrow> is_free cx1 u" for u
        using e unfolding is_free_def cx2_def by (auto simp: nth_list_update)
      then have heads: "is_free cx2 v" "is_head cx2 t" using v1 t1(2) by (auto simp: is_head_def)
      have "merge_constraint w d cx1 = Some cx2" using e by (simp add: merge_constraint_def cx2_def)
      then have "bind_var v t cx = Some (UOk, cx2\<lparr>cx_vars := (cx_vars cx2)[v := VBound t]\<rparr>)"
        using c Some occ(1) to head w \<open>w \<noteq> v\<close> by (simp add: bind_var_def constraint_of_def)
      then show ?thesis by (rule bound [OF _ ok(1,2) grown_trans [OF s(5) ok(3)] heads])
    next
      case False
      have "satisfies_constraint cx1 d t = Some True"
        by (rule satisfies_constraint_spec [OF s(1) sol1 t1(1) t(4) admits t1(2)])
      with c Some occ(1) to head False have "bind_var v t cx = Some (UOk, cx1\<lparr>cx_vars := (cx_vars cx1)[v := VBound t]\<rparr>)"
        by (cases t) (simp_all add: bind_var_def constraint_of_def)
      then show ?thesis by (rule bound [OF _ s(1) sol1 s(5) v1 t1(2)])
    qed
  qed
  then show ?thesis by (auto simp: succeeds_def)
qed

section \<open>Effects\<close>

lemma expand_effect_spec:
  assumes wf: "wf_ctx cx" and e: "eff_in cx e"
  obtains e' where "expand_effect cx e = Some e'" "eff_in cx e'" "\<And>v. se_tail e' = EOpen v \<Longrightarrow> cx_effects cx ! v = EffFree"
    "\<And>apart \<theta> E. solves_ctx apart \<theta> cx \<Longrightarrow> eff_denotes apart \<theta> e E \<Longrightarrow> eff_denotes apart \<theta> e' E" "distinct (se_atoms e')"
proof -
  define left where "left tail = (case tail of EClosed \<Rightarrow> 0 | EOpen v \<Rightarrow> length (cx_effects cx) - v)" for tail
  have "\<exists>atoms' tail'. expand_atoms (cx_effects cx) atoms tail = Some (atoms', tail') \<and> eff_in cx (SolveEffect atoms' tail') \<and>
      (\<forall>v. tail' = EOpen v \<longrightarrow> cx_effects cx ! v = EffFree) \<and>
      (\<forall>apart \<theta> E. solves_ctx apart \<theta> cx \<longrightarrow> eff_denotes apart \<theta> (SolveEffect atoms tail) E \<longrightarrow> eff_denotes apart \<theta> (SolveEffect atoms' tail') E)"
    if "eff_in cx (SolveEffect atoms tail)" for atoms tail
    using that
  proof (induction "left tail" arbitrary: atoms tail rule: less_induct)
    case less
    show ?case
    proof (cases tail)
      case EClosed
      then show ?thesis by (subst expand_atoms.simps) simp
    next
      case (EOpen v)
      with less.prems have v: "v < length (cx_effects cx)" by simp
      show ?thesis
      proof (cases "cx_effects cx ! v")
        case EffFree
        with v EOpen show ?thesis by (subst expand_atoms.simps) simp
      next
        case (EffBound r)
        note r = wf_eff [OF wf v EffBound]
        have step: "expand_atoms (cx_effects cx) atoms tail = expand_atoms (cx_effects cx) (atoms @ se_atoms r) (se_tail r)"
          using v EOpen EffBound by (subst expand_atoms.simps) simp
        have less': "left (se_tail r) < left tail"
          using v r unfolding left_def EOpen by (cases "se_tail r") (auto simp: eff_in_iff)
        have "eff_denotes apart \<theta> (SolveEffect (atoms @ se_atoms r) (se_tail r)) E"
          if "solves_ctx apart \<theta> cx" "eff_denotes apart \<theta> (SolveEffect atoms tail) E" for apart \<theta> E
          using solves_eff [OF that(1) v] that(2) unfolding EOpen EffBound eff_holds_def eff_denotes_def by auto
        moreover have "eff_in cx (SolveEffect (atoms @ se_atoms r) (se_tail r))" using r(1) by (auto simp: eff_in_iff)
        ultimately show ?thesis using less.hyps [OF less', of "atoms @ se_atoms r"] unfolding step by blast
      qed
    qed
  qed
  from this [of "se_atoms e" "se_tail e"] e obtain atoms tail where x:
    "expand_atoms (cx_effects cx) (se_atoms e) (se_tail e) = Some (atoms, tail)" "eff_in cx (SolveEffect atoms tail)"
    "\<forall>v. tail = EOpen v \<longrightarrow> cx_effects cx ! v = EffFree"
    "\<forall>apart \<theta> E. solves_ctx apart \<theta> cx \<longrightarrow> eff_denotes apart \<theta> e E \<longrightarrow> eff_denotes apart \<theta> (SolveEffect atoms tail) E"
    by auto
  show ?thesis
    by (rule that [of "SolveEffect (dedup_atoms atoms) tail"])
      (use x in \<open>auto simp: expand_effect_def dedup_atoms_def eff_in_iff eff_denotes_def\<close>)
qed

lemma solves_agrees:
  assumes wf: "wf_ctx cx" and "agrees cx \<theta> \<theta>'" and sol: "solves_ctx apart \<theta> cx"
  shows "solves_ctx apart \<theta>' cx"
proof -
  have ty: "as_ty \<theta>' = as_ty \<theta>" and row: "v < length (cx_rows cx) \<Longrightarrow> as_row \<theta>' v = as_row \<theta> v"
    and eff: "v < length (cx_effects cx) \<Longrightarrow> as_eff \<theta>' v = as_eff \<theta> v" for v
    using assms(2) by (auto simp: agrees_def)
  have "var_holds apart \<theta>' (as_ty \<theta>' v) (cx_vars cx ! v)" if "v < length (cx_vars cx)" for v
    using sol that link_in [OF wf that] denotes_agrees [OF assms(2)] unfolding solves_ctx_def ty
    by (cases "cx_vars cx ! v") (fastforce simp: var_holds_def)+
  moreover have "row_holds apart \<theta>' (as_row \<theta>' v) (cx_rows cx ! v)" if v: "v < length (cx_rows cx)" for v
  proof (cases "cx_rows cx ! v")
    case (RowBound r)
    have "ty_in cx (SRecord (sr_fields r) (sr_tail r))" using wf_row [OF wf v RowBound] by (simp add: fields_in_def)
    from denotes_agrees [OF assms(2) this] solves_row [OF sol v] RowBound show ?thesis
      by (simp only: row_holds_def row_denotes_def row [OF v] row_state.case)
  qed (use solves_row [OF sol v] row [OF v] in \<open>simp add: row_holds_def\<close>)
  moreover have "eff_holds apart \<theta>' (as_eff \<theta>' v) (cx_effects cx ! v)" if v: "v < length (cx_effects cx)" for v
  proof (cases "cx_effects cx ! v")
    case (EffBound e)
    from eff_denotes_agrees [OF assms(2) wf_eff(1) [OF wf v EffBound]] solves_eff [OF sol v] EffBound show ?thesis
      by (simp add: eff_holds_def eff [OF v])
  qed (simp add: eff_holds_def)
  ultimately show ?thesis unfolding solves_ctx_def by blast
qed

lemma wf_ctxI:
  assumes "wf_ctx cx" "grown cx cx'" "cx_vars cx' = cx_vars cx" "length (cx_origins cx') = length (cx_effects cx')"
    and "\<And>v r. v < length (cx_rows cx') \<Longrightarrow> cx_rows cx' ! v = RowBound r \<Longrightarrow>
      v < length (cx_rows cx) \<and> cx_rows cx ! v = RowBound r \<or>
      fields_in cx' (sr_fields r) \<and> tail_in cx' (sr_tail r) \<and> (\<forall>w. sr_tail r = ROpen w \<longrightarrow> v < w)"
    and "\<And>v e. v < length (cx_effects cx') \<Longrightarrow> cx_effects cx' ! v = EffBound e \<Longrightarrow>
      v < length (cx_effects cx) \<and> cx_effects cx ! v = EffBound e \<or>
      eff_in cx' e \<and> (\<forall>w. se_tail e = EOpen w \<longrightarrow> v < w)"
  shows "wf_ctx cx'"
  unfolding wf_ctx_def
proof (intro conjI allI impI)
  show "links_end (cx_vars cx')" using assms(1,3) unfolding wf_ctx_def by simp
  show "length (cx_origins cx') = length (cx_effects cx')" by (rule assms(4))
  show "ty_in cx' t" if "v < length (cx_vars cx')" "cx_vars cx' ! v = VBound t" for v t
    using that ty_in_grown [OF assms(2) link_in [OF assms(1)]] assms(3) by auto
  show "fields_in cx' (sr_fields r)" "tail_in cx' (sr_tail r)" if "v < length (cx_rows cx')" "cx_rows cx' ! v = RowBound r" for v r
    using assms(5) [OF that] fields_in_grown [OF assms(2)] tail_in_grown [OF assms(2)] wf_row [OF assms(1)] by blast+
  show "v < w" if "v < length (cx_rows cx')" "cx_rows cx' ! v = RowBound r" "sr_tail r = ROpen w" for v r w
    using assms(5) [OF that(1,2)] wf_row(3) [OF assms(1)] that(3) by blast
  show "eff_in cx' e" if "v < length (cx_effects cx')" "cx_effects cx' ! v = EffBound e" for v e
    using assms(6) [OF that] eff_in_grown [OF assms(2)] wf_eff [OF assms(1)] by blast
  show "v < w" if "v < length (cx_effects cx')" "cx_effects cx' ! v = EffBound e" "se_tail e = EOpen w" for v e w
    using assms(6) [OF that(1,2)] wf_eff(2) [OF assms(1)] that(3) by blast
qed

lemma bind_effect_spec:
  assumes wf: "wf_ctx cx" and v: "v < length (cx_effects cx)" and e: "eff_in cx e" "\<And>w. se_tail e = EOpen w \<Longrightarrow> v < w"
  obtains cx' where "bind_effect v e cx = Some (UOk, cx')" "wf_ctx cx'" "grown cx cx'" "cx_vars cx' = cx_vars cx" "cx_rows cx' = cx_rows cx"
    "cx_effects cx' = (cx_effects cx)[v := EffBound e]"
    "\<And>apart \<theta>. solves_ctx apart \<theta> cx \<Longrightarrow> eff_denotes apart \<theta> e (as_eff \<theta> v) \<Longrightarrow> solves_ctx apart \<theta> cx'"
proof -
  have origins: "length (cx_origins cx) = length (cx_effects cx)" using wf unfolding wf_ctx_def by blast
  obtain e' where e': "expand_effect cx e = Some e'" "eff_in cx e'" using expand_effect_spec [OF wf e(1)] by metis
  define os where "os = (case se_tail e' of EOpen tail \<Rightarrow> (cx_origins cx)[tail := min (cx_origins cx ! tail) (cx_origins cx ! v)] | EClosed \<Rightarrow> cx_origins cx)"
  let ?cx = "cx\<lparr>cx_origins := os, cx_effects := (cx_effects cx)[v := EffBound e]\<rparr>"
  have len: "length os = length (cx_effects cx)" using origins by (simp add: os_def split: eff_tail.split)
  have "bind_effect v e cx = Some (UOk, ?cx)"
    using e' v origins by (simp add: bind_effect_def os_def eff_in_iff split: eff_tail.split)
  moreover have g: "grown cx ?cx" by (simp add: grown_def)
  moreover have "wf_ctx ?cx"
    by (rule wf_ctxI [OF wf g]) (use e v len eff_in_grown [OF g] in \<open>auto simp: nth_list_update split: if_splits\<close>)
  moreover have "solves_ctx apart \<theta> ?cx" if "solves_ctx apart \<theta> cx" "eff_denotes apart \<theta> e (as_eff \<theta> v)" for apart \<theta>
    using that v unfolding solves_ctx_def by (auto simp: nth_list_update eff_holds_def)
  ultimately show ?thesis by (intro that [of ?cx]) simp_all
qed

lemma bind_effect_keeps:
  assumes "wf_ctx cx" "v < length (cx_effects cx)" "eff_in cx e" "\<forall>w. se_tail e = EOpen w \<longrightarrow> v < w"
    and "solves_ctx True \<theta> cx" "eff_denotes True \<theta> e (as_eff \<theta> v)"
  shows "\<exists>cx'. bind_effect v e cx = Some (UOk, cx') \<and> wf_ctx cx' \<and> grown cx cx' \<and> solves_ctx True \<theta> cx'"
proof (rule bind_effect_spec [OF assms(1-3)])
  show "v < w" if "se_tail e = EOpen w" for w using assms(4) that by blast
qed (use assms(5,6) in blast)

lemma fresh_effect_spec:
  assumes wf: "wf_ctx cx" and fresh: "fresh_effect cx = (f, cx')"
  shows "f = length (cx_effects cx)" "wf_ctx cx'" "grown cx cx'" "cx_effects cx' = cx_effects cx @ [EffFree]"
    "agrees cx \<theta> (\<theta>\<lparr>as_eff := (as_eff \<theta>)(f := E)\<rparr>)"
    "solves_ctx apart \<theta> cx \<Longrightarrow> solves_ctx apart (\<theta>\<lparr>as_eff := (as_eff \<theta>)(f := E)\<rparr>) cx'"
proof -
  from fresh show f: "f = length (cx_effects cx)" and eff: "cx_effects cx' = cx_effects cx @ [EffFree]"
    by (auto simp: fresh_effect_def)
  from fresh have same: "cx_vars cx' = cx_vars cx" "cx_rows cx' = cx_rows cx" "length (cx_origins cx') = Suc (length (cx_origins cx))"
    by (auto simp: fresh_effect_def)
  from fresh show g: "grown cx cx'" by (auto simp: fresh_effect_def grown_def)
  have origins: "length (cx_origins cx) = length (cx_effects cx)" using wf unfolding wf_ctx_def by blast
  show "wf_ctx cx'"
    by (rule wf_ctxI [OF wf g]) (auto simp: same eff origins nth_append split: if_splits)
  let ?\<theta> = "\<theta>\<lparr>as_eff := (as_eff \<theta>)(f := E)\<rparr>"
  show a: "agrees cx \<theta> ?\<theta>" by (auto simp: agrees_def f)
  show "solves_ctx apart ?\<theta> cx'" if "solves_ctx apart \<theta> cx"
    using solves_agrees [OF wf a that] unfolding solves_ctx_def
    by (auto simp: same eff nth_append eff_holds_def less_Suc_eq split: eff_state.split)
qed

lemma tails_effects:
  assumes "eff_denotes True \<theta> e1 E" "eff_denotes True \<theta> e2 E"
    and "only1 = filter (\<lambda>a. a \<notin> set (se_atoms e2)) (se_atoms e1)" "only2 = filter (\<lambda>a. a \<notin> set (se_atoms e1)) (se_atoms e2)"
  shows "set only2 \<subseteq> tail_effect \<theta> (se_tail e1)" "set only1 \<subseteq> tail_effect \<theta> (se_tail e2)"
    "tail_effect \<theta> (se_tail e1) - set only2 = tail_effect \<theta> (se_tail e2) - set only1"
  using assms unfolding eff_denotes_def by auto

lemma unify_effects_spec:
  assumes wf: "wf_ctx cx" and sol: "solves_ctx True \<theta> cx" and e: "eff_in cx e1" "eff_in cx e2" "eff_denotes True \<theta> e1 E" "eff_denotes True \<theta> e2 E"
  shows "succeeds (unify_effects e1 e2) cx \<theta>"
proof (cases "cx_ignore cx")
  case True
  with keeps_refl [OF wf sol] show ?thesis by (auto simp: succeeds_def unify_effects_def)
next
  case False
  obtain d1 where d1: "expand_effect cx e1 = Some d1" "eff_in cx d1" "eff_denotes True \<theta> d1 E"
    using expand_effect_spec [OF wf e(1)] sol e(3) by metis
  obtain d2 where d2: "expand_effect cx e2 = Some d2" "eff_in cx d2" "eff_denotes True \<theta> d2 E"
    using expand_effect_spec [OF wf e(2)] sol e(4) by metis
  define only1 where "only1 = filter (\<lambda>a. a \<notin> set (se_atoms d2)) (se_atoms d1)"
  define only2 where "only2 = filter (\<lambda>a. a \<notin> set (se_atoms d1)) (se_atoms d2)"
  note tails = tails_effects [OF d1(3) d2(3) only1_def only2_def]
  have run: "unify_effects e1 e2 cx =
      (case (se_tail d1, se_tail d2) of
           (EClosed, EClosed) \<Rightarrow> Some (if only1 = [] \<and> only2 = [] then UOk else UMismatch, cx)
         | (EClosed, EOpen v2) \<Rightarrow> if only2 \<noteq> [] then Some (UMismatch, cx) else bind_effect v2 (SolveEffect only1 EClosed) cx
         | (EOpen v1, EClosed) \<Rightarrow> if only1 \<noteq> [] then Some (UMismatch, cx) else bind_effect v1 (SolveEffect only2 EClosed) cx
         | (EOpen v1, EOpen v2) \<Rightarrow>
             if v1 = v2 then Some (if only1 = [] \<and> only2 = [] then UOk else UMismatch, cx)
             else do {
               let (fresh, cx) = fresh_effect cx;
               (r, cx) \<leftarrow> bind_effect v1 (SolveEffect only2 (EOpen fresh)) cx;
               if r = UOk then bind_effect v2 (SolveEffect only1 (EOpen fresh)) cx else Some (r, cx) })"
    unfolding unify_effects_def only1_def only2_def using False d1(1) d2(1) by (simp add: Let_def split del: if_split)
  have bind: "succeeds (bind_effect v (SolveEffect only EClosed)) cx \<theta>"
    if "v < length (cx_effects cx)" "as_eff \<theta> v = set only" for v only
    using bind_effect_keeps [OF wf that(1), of "SolveEffect only EClosed" \<theta>] sol that(2)
    by (auto simp: succeeds_def keeps_def eff_denotes_def intro!: exI [of _ \<theta>])
  show ?thesis
  proof (cases "se_tail d1")
    case EClosed
    note t1 = EClosed
    show ?thesis
    proof (cases "se_tail d2")
      case EClosed
      with t1 tails have "unify_effects e1 e2 cx = Some (UOk, cx)" unfolding run by auto
      with keeps_refl [OF wf sol] show ?thesis by (auto simp: succeeds_def)
    next
      case (EOpen v2)
      with d2(2) t1 tails have "v2 < length (cx_effects cx)" "as_eff \<theta> v2 = set only1" "only2 = []" by (auto simp: eff_in_iff)
      with bind [of v2 only1] show ?thesis unfolding succeeds_def run t1 EOpen by simp
    qed
  next
    case (EOpen v1)
    note t1 = EOpen
    with d1(2) have v1: "v1 < length (cx_effects cx)" by (auto simp: eff_in_iff)
    show ?thesis
    proof (cases "se_tail d2")
      case EClosed
      with t1 tails have "as_eff \<theta> v1 = set only2" "only1 = []" by auto
      with bind [of v1 only2] v1 show ?thesis unfolding succeeds_def run t1 EClosed by simp
    next
      case (EOpen v2)
      with d2(2) have v2: "v2 < length (cx_effects cx)" by (auto simp: eff_in_iff)
      show ?thesis
      proof (cases "v1 = v2")
        case True
        have "set only1 = {}" "set only2 = {}"
          using d1(3) d2(3) t1 EOpen True unfolding eff_denotes_def only1_def only2_def by auto
        then have "unify_effects e1 e2 cx = Some (UOk, cx)" unfolding run t1 EOpen using True by simp
        with keeps_refl [OF wf sol] show ?thesis by (auto simp: succeeds_def)
      next
        case False
        obtain f cx1 where fresh: "fresh_effect cx = (f, cx1)" by (cases "fresh_effect cx")
        define \<theta>' where "\<theta>' = \<theta>\<lparr>as_eff := (as_eff \<theta>)(f := as_eff \<theta> v1 - set only2)\<rparr>"
        note f = fresh_effect_spec(1-4) [OF wf fresh]
          fresh_effect_spec(5,6) [OF wf fresh, where \<theta> = \<theta> and E = "as_eff \<theta> v1 - set only2", folded \<theta>'_def]
        from v1 v2 f(1) have old: "as_eff \<theta>' v1 = as_eff \<theta> v1" "as_eff \<theta>' v2 = as_eff \<theta> v2" "as_eff \<theta>' f = as_eff \<theta> v1 - set only2"
          by (auto simp: \<theta>'_def)
        from tails t1 EOpen have s: "set only2 \<subseteq> as_eff \<theta> v1" "set only1 \<subseteq> as_eff \<theta> v2" "as_eff \<theta> v1 - set only2 = as_eff \<theta> v2 - set only1"
          by simp_all
        have "v1 < length (cx_effects cx1)" "v2 < length (cx_effects cx1)" "f < length (cx_effects cx1)" using v1 v2 f(1,4) by simp_all
        note ins = this
        have "eff_denotes True \<theta>' (SolveEffect only2 (EOpen f)) (as_eff \<theta>' v1)" using s(1) old by (auto simp: eff_denotes_def)
        then obtain cx2 where cx2: "bind_effect v1 (SolveEffect only2 (EOpen f)) cx1 = Some (UOk, cx2)" "wf_ctx cx2" "grown cx1 cx2" "solves_ctx True \<theta>' cx2"
          using bind_effect_keeps [OF f(2) ins(1), of "SolveEffect only2 (EOpen f)" \<theta>'] ins(3) f(6) [OF sol] v1 f(1) by auto
        have "length (cx_effects cx1) \<le> length (cx_effects cx2)" using cx2(3) by (simp add: grown_def)
        with ins have in2: "v2 < length (cx_effects cx2)" "f < length (cx_effects cx2)" by simp_all
        have "eff_denotes True \<theta>' (SolveEffect only1 (EOpen f)) (as_eff \<theta>' v2)" using s(2,3) old by (auto simp: eff_denotes_def)
        then obtain cx3 where cx3: "bind_effect v2 (SolveEffect only1 (EOpen f)) cx2 = Some (UOk, cx3)" "wf_ctx cx3" "grown cx2 cx3" "solves_ctx True \<theta>' cx3"
          using bind_effect_keeps [OF cx2(2) in2(1), of "SolveEffect only1 (EOpen f)" \<theta>'] in2(2) cx2(4) v2 f(1) by auto
        have "unify_effects e1 e2 cx = Some (UOk, cx3)" unfolding run t1 EOpen using False fresh cx2(1) cx3(1) by simp
        moreover have "keeps cx \<theta> cx3 \<theta>'"
          using cx3(2,4) f(5) grown_trans [OF f(3) grown_trans [OF cx2(3) cx3(3)]] by (simp add: keeps_def)
        ultimately show ?thesis by (auto simp: succeeds_def)
      qed
    qed
  qed
qed

section \<open>Rows\<close>

lemma set_push_all [simp]: "set (fold push_new xs ys) = set xs \<union> set ys"
  by (induction xs arbitrary: ys) (auto simp: push_new_def)

lemma set_only_in: "set (only_in fs others) = {p \<in> set fs. fst p \<notin> fst ` set others}"
  by (auto simp: only_in_def list_ex_iff image_iff)

lemma distinct_only_in: "distinct (map fst fs) \<Longrightarrow> distinct (map fst (only_in fs others))"
  unfolding only_in_def by (rule distinct_map_filter)

lemma row_tail_part:
  assumes "row_denotes apart \<theta> fs tail m" "l |\<in>| fmdom (tail_row \<theta> tail)"
  shows "l |\<in>| fmdom m" "l \<notin> fst ` set fs"
  using assms unfolding row_denotes_iff fmlookup_dom_iff by (metis imageE)+

lemma bind_row_keeps:
  assumes wf: "wf_ctx cx" and v: "v < length (cx_rows cx)" and r: "fields_in cx (sr_fields r)" "tail_in cx (sr_tail r)"
    "\<forall>w. sr_tail r = ROpen w \<longrightarrow> v < w"
    and sol: "solves_ctx True \<theta> cx" "row_denotes True \<theta> (sr_fields r) (sr_tail r) (as_row \<theta> v)"
  shows "\<exists>cx'. bind_row v r cx = Some (UOk, cx') \<and> wf_ctx cx' \<and> grown cx cx' \<and> solves_ctx True \<theta> cx'"
proof -
  define lacks where "lacks = (case cx_rows cx ! v of RowFree l \<Rightarrow> l | RowBound _ \<Rightarrow> [])"
  have lacking: "l |\<notin>| fmdom (as_row \<theta> v)" if "l \<in> set lacks" for l
    using solves_row [OF sol(1) v] that unfolding lacks_def row_holds_def by (auto split: row_state.splits)
  have ok: "\<not> list_ex (\<lambda>(label, _). label \<in> set lacks) (sr_fields r)"
  proof
    assume "list_ex (\<lambda>(label, _). label \<in> set lacks) (sr_fields r)"
    then obtain p where "p \<in> set (sr_fields r)" "fst p \<in> set lacks" by (auto simp: list_ex_iff)
    with sol(2) lacking [of "fst p"] show False unfolding row_denotes_iff by (metis fmdomI)
  qed
  define rows where "rows = (case sr_tail r of
      RClosed \<Rightarrow> cx_rows cx
    | ROpen next \<Rightarrow> (case cx_rows cx ! next of
        RowFree next_lacks \<Rightarrow> (cx_rows cx)[next := RowFree (fold push_new (map fst (sr_fields r)) (fold push_new lacks next_lacks))]
      | RowBound _ \<Rightarrow> cx_rows cx))"
  have len: "length rows = length (cx_rows cx)" by (simp add: rows_def split: row_tail.split row_state.split)
  let ?cx = "cx\<lparr>cx_rows := rows[v := RowBound r]\<rparr>"
  have run: "bind_row v r cx = Some (UOk, ?cx)"
    using v ok r(2) unfolding bind_row_def row_lacks_def rows_def lacks_def
    by (cases "sr_tail r") (auto simp: tail_in_iff split: row_state.split)
  have at: "rows ! u = cx_rows cx ! u \<or> (sr_tail r = ROpen u \<and> (\<exists>ls. cx_rows cx ! u = RowFree ls \<and>
      rows ! u = RowFree (fold push_new (map fst (sr_fields r)) (fold push_new lacks ls))))" if "u < length (cx_rows cx)" for u
    using that r(2) unfolding rows_def by (auto simp: nth_list_update split: row_tail.split row_state.split if_splits)
  have g: "grown cx ?cx" by (simp add: grown_def len)
  have origins: "length (cx_origins cx) = length (cx_effects cx)" using wf unfolding wf_ctx_def by blast
  have "wf_ctx ?cx"
  proof (rule wf_ctxI [OF wf g])
    show "u < length (cx_rows cx) \<and> cx_rows cx ! u = RowBound q \<or>
        fields_in ?cx (sr_fields q) \<and> tail_in ?cx (sr_tail q) \<and> (\<forall>w. sr_tail q = ROpen w \<longrightarrow> u < w)"
      if "u < length (cx_rows ?cx)" "cx_rows ?cx ! u = RowBound q" for u q
    proof (cases "u = v")
      case True
      with that v len have "q = r" by simp
      with r True fields_in_grown [OF g] tail_in_grown [OF g] show ?thesis by blast
    next
      case False
      with that len at [of u] show ?thesis by auto
    qed
  qed (use origins in auto)
  moreover have "row_holds True \<theta> (as_row \<theta> u) (rows[v := RowBound r] ! u)" if u: "u < length (cx_rows cx)" for u
  proof (cases "u = v")
    case True
    with u len sol(2) show ?thesis by (simp add: row_holds_def)
  next
    case False
    show ?thesis
    proof (cases "rows ! u = cx_rows cx ! u")
      case True
      with False solves_row [OF sol(1) u] show ?thesis by simp
    next
      case changed: False
      with at [OF u] obtain ls where ls: "sr_tail r = ROpen u" "cx_rows cx ! u = RowFree ls"
        "rows ! u = RowFree (fold push_new (map fst (sr_fields r)) (fold push_new lacks ls))" by blast
      have "l |\<notin>| fmdom (as_row \<theta> u)" if "l \<in> fst ` set (sr_fields r) \<union> set lacks \<union> set ls" for l
        using that solves_row [OF sol(1) u] row_tail_part [OF sol(2), of l] lacking [of l] ls(1,2) by (auto simp: row_holds_def)
      then show ?thesis using False ls(3) by (simp add: row_holds_def)
    qed
  qed
  then have "solves_ctx True \<theta> ?cx" using sol(1) unfolding solves_ctx_def by (simp add: len)
  ultimately show ?thesis using run g by blast
qed

lemma fresh_row_spec:
  assumes wf: "wf_ctx cx" and fresh: "fresh_row lacks cx = (f, cx')"
  shows "f = length (cx_rows cx)" "wf_ctx cx'" "grown cx cx'" "length (cx_rows cx') = Suc (length (cx_rows cx))"
    "agrees cx \<theta> (\<theta>\<lparr>as_row := (as_row \<theta>)(f := R)\<rparr>)"
    "solves_ctx apart \<theta> cx \<Longrightarrow> (\<forall>l \<in> set lacks. l |\<notin>| fmdom R) \<Longrightarrow> solves_ctx apart (\<theta>\<lparr>as_row := (as_row \<theta>)(f := R)\<rparr>) cx'"
proof -
  from fresh show f: "f = length (cx_rows cx)" and len: "length (cx_rows cx') = Suc (length (cx_rows cx))"
    by (auto simp: fresh_row_def)
  from fresh have cx': "cx' = cx\<lparr>cx_rows := cx_rows cx @ [RowFree lacks]\<rparr>" by (simp add: fresh_row_def)
  show g: "grown cx cx'" by (simp add: cx' grown_def)
  have origins: "length (cx_origins cx) = length (cx_effects cx)" using wf unfolding wf_ctx_def by blast
  show "wf_ctx cx'"
    by (rule wf_ctxI [OF wf g]) (auto simp: cx' origins nth_append split: if_splits)
  let ?\<theta> = "\<theta>\<lparr>as_row := (as_row \<theta>)(f := R)\<rparr>"
  show a: "agrees cx \<theta> ?\<theta>" by (auto simp: agrees_def f)
  show "solves_ctx apart ?\<theta> cx'" if "solves_ctx apart \<theta> cx" "\<forall>l \<in> set lacks. l |\<notin>| fmdom R"
  proof -
    have old: "solves_ctx apart ?\<theta> cx" by (rule solves_agrees [OF wf a that(1)])
    have "row_holds apart ?\<theta> (as_row ?\<theta> v) ((cx_rows cx @ [RowFree lacks]) ! v)" if "v < Suc (length (cx_rows cx))" for v
      using solves_row [OF old, of v] that \<open>\<forall>l \<in> set lacks. l |\<notin>| fmdom R\<close> by (cases "v = f") (auto simp: f row_holds_def nth_append)
    with old show ?thesis unfolding solves_ctx_def cx' by simp
  qed
qed

text \<open>The part of a record that neither of two rows shows.\<close>

definition rest_of :: "solve_fields \<Rightarrow> solve_fields \<Rightarrow> (symbol, ground) fmap \<Rightarrow> (symbol, ground) fmap" where
  "rest_of fs1 fs2 m = fmfilter (\<lambda>l. l \<notin> fst ` set fs1 \<union> fst ` set fs2) m"

lemma row_rest:
  assumes r1: "row_denotes apart \<theta> fs1 t1 m" and r2: "row_denotes apart \<theta> fs2 t2 m" and f: "tail_row \<theta> f = rest_of fs1 fs2 m"
  shows "row_denotes apart \<theta> (only_in fs1 fs2) f (tail_row \<theta> t2)"
  unfolding row_denotes_iff
proof (intro conjI ballI allI impI)
  show "distinct (map fst (only_in fs1 fs2))" using r1 unfolding row_denotes_iff by (blast intro: distinct_only_in)
next
  fix p
  assume "p \<in> set (only_in fs1 fs2)"
  then have p: "p \<in> set fs1" "fst p \<notin> fst ` set fs2" by (auto simp: set_only_in)
  then show "fst p |\<notin>| fmdom (tail_row \<theta> f)" by (auto simp: f rest_of_def)
  from r2 p(2) have "fmlookup m (fst p) = fmlookup (tail_row \<theta> t2) (fst p)" unfolding row_denotes_iff by metis
  with r1 p(1) show "\<exists>h. fmlookup (tail_row \<theta> t2) (fst p) = Some h \<and> denotes apart \<theta> (snd p) h"
    unfolding row_denotes_iff by metis
next
  fix l
  assume l: "l \<notin> fst ` set (only_in fs1 fs2)"
  show "fmlookup (tail_row \<theta> t2) l = fmlookup (tail_row \<theta> f) l"
  proof (cases "l \<in> fst ` set fs2")
    case True
    with r2 have "fmlookup (tail_row \<theta> t2) l = None" unfolding row_denotes_iff by (metis fmdom_notD imageE)
    with True show ?thesis by (simp add: f rest_of_def)
  next
    case False
    with l have "l \<notin> fst ` set fs1" by (auto simp: set_only_in)
    with False r2 show ?thesis unfolding row_denotes_iff by (simp add: f rest_of_def)
  qed
qed

lemma row_closed:
  assumes "row_denotes apart \<theta> fs1 RClosed m" "row_denotes apart \<theta> fs2 t2 m"
  shows "only_in fs2 fs1 = []" "rest_of fs1 fs2 m = fmempty"
proof -
  have m: "l \<in> fst ` set fs1" if "fmlookup m l = Some h" for l h using assms(1) that unfolding row_denotes_iff by fastforce
  then show "rest_of fs1 fs2 m = fmempty" unfolding rest_of_def by (intro fmap_ext) (metis (mono_tags, lifting) UnI1 fmempty_lookup fmlookup_filter not_None_eq)
  have "fst p \<in> fst ` set fs1" if "p \<in> set fs2" for p using assms(2) that m unfolding row_denotes_iff by metis
  then have "set (only_in fs2 fs1) = {}" by (auto simp: set_only_in)
  then show "only_in fs2 fs1 = []" by simp
qed

lemma row_same_tail:
  assumes "row_denotes apart \<theta> fs1 t m" "row_denotes apart \<theta> fs2 t m"
  shows "only_in fs1 fs2 = []"
proof -
  have "fst p \<in> fst ` set fs2" if p: "p \<in> set fs1" for p
  proof (rule ccontr)
    assume "fst p \<notin> fst ` set fs2"
    with assms(2) have "fmlookup m (fst p) = fmlookup (tail_row \<theta> t) (fst p)" unfolding row_denotes_iff by metis
    with assms(1) p show False unfolding row_denotes_iff by (metis fmdomI)
  qed
  then have "set (only_in fs1 fs2) = {}" by (auto simp: set_only_in)
  then show ?thesis by simp
qed

lemma reconcile_spec:
  assumes wf: "wf_ctx cx" and sol: "solves_ctx True \<theta> cx"
    and r1: "fields_in cx fs1" "tail_in cx t1" "row_denotes True \<theta> fs1 t1 m"
    and r2: "fields_in cx fs2" "tail_in cx t2" "row_denotes True \<theta> fs2 t2 m"
  shows "succeeds (reconcile_row_tails (fs1, t1) (fs2, t2)) cx \<theta>"
proof -
  have ins: "fields_in cx (only_in fs1 fs2)" "fields_in cx (only_in fs2 fs1)"
    using r1(1) r2(1) by (auto simp: fields_in_def set_only_in)
  have sym: "rest_of fs2 fs1 m = rest_of fs1 fs2 m" by (simp add: rest_of_def Un_commute)
  have ok: "succeeds f cx \<theta>" if "f cx = Some (UOk, cx)" for f
    using that keeps_refl [OF wf sol] by (auto simp: succeeds_def)
  have bind: "succeeds f cx \<theta>" if "f cx = bind_row v (SolveRow fs RClosed) cx" "v < length (cx_rows cx)" "fields_in cx fs"
      "row_denotes True \<theta> fs RClosed (as_row \<theta> v)" for f v fs
    using bind_row_keeps [OF wf that(2), of "SolveRow fs RClosed" \<theta>] that sol by (auto simp: succeeds_def keeps_def intro!: exI [of _ \<theta>])
  show ?thesis
  proof (cases t1)
    case RClosed
    note c1 = row_closed [OF r1(3) [unfolded RClosed] r2(3)] and t1 = RClosed
    have rest: "row_denotes True \<theta> (only_in fs1 fs2) RClosed (tail_row \<theta> t2)"
      by (rule row_rest [OF r1(3) r2(3)]) (simp add: c1(2))
    show ?thesis
    proof (cases t2)
      case RClosed
      with row_closed(1) [OF r2(3) [unfolded RClosed] r1(3)] c1(1) t1 show ?thesis
        by (intro ok) (simp add: reconcile_row_tails_def)
    next
      case (ROpen v2)
      show ?thesis
        by (rule bind [of _ v2 "only_in fs1 fs2"]) (use ROpen t1 c1(1) r2(2) ins rest in \<open>simp_all add: reconcile_row_tails_def\<close>)
    qed
  next
    case (ROpen v1)
    note t1 = ROpen
    show ?thesis
    proof (cases t2)
      case RClosed
      note c2 = row_closed [OF r2(3) [unfolded RClosed] r1(3)]
      have rest: "row_denotes True \<theta> (only_in fs2 fs1) RClosed (tail_row \<theta> t1)"
        by (rule row_rest [OF r2(3) r1(3)]) (simp add: c2(2))
      show ?thesis
        by (rule bind [of _ v1 "only_in fs2 fs1"]) (use RClosed t1 c2(1) r1(2) ins rest in \<open>simp_all add: reconcile_row_tails_def\<close>)
    next
      case (ROpen v2)
      note t2 = ROpen
      from r1(2) r2(2) t1 t2 have v: "v1 < length (cx_rows cx)" "v2 < length (cx_rows cx)" by simp_all
      show ?thesis
      proof (cases "v1 = v2")
        case True
        with row_same_tail [OF r1(3)] row_same_tail [OF r2(3)] r1(3) r2(3) t1 t2 show ?thesis
          by (intro ok) (simp add: reconcile_row_tails_def)
      next
        case False
        define lacks1 where "lacks1 = (case cx_rows cx ! v1 of RowFree l \<Rightarrow> l | RowBound _ \<Rightarrow> [])"
        define lacks2 where "lacks2 = (case cx_rows cx ! v2 of RowFree l \<Rightarrow> l | RowBound _ \<Rightarrow> [])"
        obtain f cx1 where fresh: "fresh_row (fold push_new lacks2 lacks1) cx = (f, cx1)"
          by (cases "fresh_row (fold push_new lacks2 lacks1) cx")
        define \<theta>' where "\<theta>' = \<theta>\<lparr>as_row := (as_row \<theta>)(f := rest_of fs1 fs2 m)\<rparr>"
        note F = fresh_row_spec(1-4) [OF wf fresh]
          fresh_row_spec(5,6) [OF wf fresh, where \<theta> = \<theta> and R = "rest_of fs1 fs2 m", folded \<theta>'_def]
        have part: "l |\<in>| fmdom (as_row \<theta> v1)" "l |\<in>| fmdom (as_row \<theta> v2)" if "l |\<in>| fmdom (rest_of fs1 fs2 m)" for l
          using r1(3) r2(3) that t1 t2 unfolding row_denotes_iff rest_of_def by (simp_all add: fmlookup_dom_iff) metis+
        have "l |\<notin>| fmdom (rest_of fs1 fs2 m)" if "l \<in> set (fold push_new lacks2 lacks1)" for l
          using that part [of l] solves_row [OF sol v(1)] solves_row [OF sol v(2)]
          by (auto simp: lacks1_def lacks2_def row_holds_def split: row_state.splits)
        with F(6) sol have sol1: "solves_ctx True \<theta>' cx1" by blast
        have g1: "fields_in cx1 fs1" "tail_in cx1 t1" "fields_in cx1 fs2" "tail_in cx1 t2"
          using r1(1,2) r2(1,2) fields_in_grown [OF F(3)] tail_in_grown [OF F(3)] by blast+
        have rows: "row_denotes True \<theta>' fs1 t1 m" "row_denotes True \<theta>' fs2 t2 m"
          using r1 r2 denotes_agrees [OF F(5), of "SRecord fs1 t1"] denotes_agrees [OF F(5), of "SRecord fs2 t2"]
          by (simp_all only: row_denotes_def ty_in.simps fields_in_def simp_thms)
        have tail: "tail_row \<theta>' (ROpen f) = rest_of fs1 fs2 m" by (simp add: \<theta>'_def)
        have in1: "v1 < length (cx_rows cx1)" "v2 < length (cx_rows cx1)" "f < length (cx_rows cx1)" "v1 < f" "v2 < f"
          using v F(1,4) by simp_all
        have ins1: "fields_in cx1 (only_in fs1 fs2)" "fields_in cx1 (only_in fs2 fs1)"
          using ins fields_in_grown [OF F(3)] by blast+
        have "row_denotes True \<theta>' (only_in fs2 fs1) (ROpen f) (as_row \<theta>' v1)"
          using row_rest [OF rows(2,1), of "ROpen f"] tail t1 by (simp add: sym)
        then obtain cx2 where cx2: "bind_row v1 (SolveRow (only_in fs2 fs1) (ROpen f)) cx1 = Some (UOk, cx2)" "wf_ctx cx2" "grown cx1 cx2" "solves_ctx True \<theta>' cx2"
          using bind_row_keeps [OF F(2) in1(1), of "SolveRow (only_in fs2 fs1) (ROpen f)" \<theta>'] in1 ins1 sol1 by auto
        from cx2(3) in1 have in2: "v2 < length (cx_rows cx2)" "f < length (cx_rows cx2)" by (auto simp: grown_def)
        have "row_denotes True \<theta>' (only_in fs1 fs2) (ROpen f) (as_row \<theta>' v2)"
          using row_rest [OF rows(1,2), of "ROpen f"] tail t2 by simp
        then obtain cx3 where cx3: "bind_row v2 (SolveRow (only_in fs1 fs2) (ROpen f)) cx2 = Some (UOk, cx3)" "wf_ctx cx3" "grown cx2 cx3" "solves_ctx True \<theta>' cx3"
          using bind_row_keeps [OF cx2(2) in2(1), of "SolveRow (only_in fs1 fs2) (ROpen f)" \<theta>'] in1(5) in2 fields_in_grown [OF cx2(3)] ins1 cx2(4) by auto
        have "reconcile_row_tails (fs1, t1) (fs2, t2) cx = Some (UOk, cx3)"
          using False fresh cx2(1) cx3(1) v t1 t2 by (simp add: reconcile_row_tails_def row_lacks_def lacks1_def lacks2_def)
        moreover have "keeps cx \<theta> cx3 \<theta>'"
          using cx3(2,4) F(5) grown_trans [OF F(3) grown_trans [OF cx2(3) cx3(3)]] by (simp add: keeps_def)
        ultimately show ?thesis by (auto simp: succeeds_def)
      qed
    qed
  qed
qed

section \<open>Unification\<close>

lemma succeeds_then:
  assumes "succeeds f cx \<theta>" "\<And>cx' \<theta>'. keeps cx \<theta> cx' \<theta>' \<Longrightarrow> succeeds g cx' \<theta>'"
  shows "succeeds (\<lambda>cx. do { (r, cx) \<leftarrow> f cx; if r = UOk then g cx else Some (r, cx) }) cx \<theta>"
proof -
  from assms(1) obtain cx' \<theta>' where f: "f cx = Some (UOk, cx')" "keeps cx \<theta> cx' \<theta>'" unfolding succeeds_def by blast
  from assms(2) [OF f(2)] obtain cx'' \<theta>'' where "g cx' = Some (UOk, cx'')" "keeps cx' \<theta>' cx'' \<theta>''" unfolding succeeds_def by blast
  with f keeps_trans [OF f(2)] show ?thesis unfolding succeeds_def by auto
qed

text \<open>Two types have a common ground type of a size below \<open>n\<close>.\<close>

definition unifiable :: "nat \<Rightarrow> infer_ctx \<Rightarrow> assignment \<Rightarrow> solve_ty \<times> solve_ty \<Rightarrow> bool" where
  "unifiable n cx \<theta> p \<longleftrightarrow>
     ty_in cx (fst p) \<and> ty_in cx (snd p) \<and> (\<exists>g. size g < n \<and> denotes True \<theta> (fst p) g \<and> denotes True \<theta> (snd p) g)"

lemma unifiable_keeps: "keeps cx \<theta> cx' \<theta>' \<Longrightarrow> unifiable n cx \<theta> p \<Longrightarrow> unifiable n cx' \<theta>' p"
  unfolding unifiable_def using keepsD(3,4) by blast

lemma unify_all_spec:
  assumes "\<And>p cx \<theta>. unifiable n cx \<theta> p \<Longrightarrow> wf_ctx cx \<Longrightarrow> solves_ctx True \<theta> cx \<Longrightarrow> succeeds (u p) cx \<theta>"
  shows "\<forall>p \<in> set ps. unifiable n cx \<theta> p \<Longrightarrow> wf_ctx cx \<Longrightarrow> solves_ctx True \<theta> cx \<Longrightarrow> succeeds (unify_all u ps) cx \<theta>"
proof (induction ps arbitrary: cx \<theta>)
  case Nil
  with keeps_refl show ?case by (auto simp: succeeds_def)
next
  case (Cons p ps)
  have "succeeds (\<lambda>cx. do { (r, cx) \<leftarrow> u p cx; if r = UOk then unify_all u ps cx else Some (r, cx) }) cx \<theta>"
  proof (rule succeeds_then)
    show "succeeds (u p) cx \<theta>" using Cons.prems assms by simp
    show "succeeds (unify_all u ps) cx' \<theta>'" if "keeps cx \<theta> cx' \<theta>'" for cx' \<theta>'
      using Cons.IH Cons.prems(1) unifiable_keeps [OF that] keepsD(1,2) [OF that] by simp
  qed
  then show ?case by simp
qed

lemma set_common_fields:
  assumes "p \<in> set (common_fields fs1 fs2)"
  obtains l where "(l, fst p) \<in> set fs1" "(l, snd p) \<in> set fs2"
proof -
  from assms obtain l t1 q where q: "(l, t1) \<in> set fs1" "List.find (\<lambda>(x, _). x = l) fs2 = Some q" "p = (t1, snd q)"
    unfolding common_fields_def List.map_filter_def by (auto simp: split_def)
  from q(2) have "q \<in> set fs2" "fst q = l" by (auto simp: find_Some_iff split_def)
  with q(1,3) show ?thesis by (intro that [of l]) auto
qed

lemma relate_rows_spec:
  assumes u: "\<And>p cx \<theta>. unifiable (size (GRecord m)) cx \<theta> p \<Longrightarrow> wf_ctx cx \<Longrightarrow> solves_ctx True \<theta> cx \<Longrightarrow> succeeds (u p) cx \<theta>"
    and wf: "wf_ctx cx" and sol: "solves_ctx True \<theta> cx"
    and r1: "fields_in cx fs1" "tail_in cx t1" "row_denotes True \<theta> fs1 t1 m"
    and r2: "fields_in cx fs2" "tail_in cx t2" "row_denotes True \<theta> fs2 t2 m"
  shows "succeeds (relate_rows u (SolveRow fs1 t1) (SolveRow fs2 t2)) cx \<theta>"
proof -
  obtain gs1 s1 where e1: "expand_row (cx_rows cx) fs1 t1 = Some (gs1, s1)" "fields_in cx gs1" "tail_in cx s1" "row_denotes True \<theta> gs1 s1 m"
    using expand_row_spec [OF wf r1(1,2)] sol r1(3) by metis
  obtain gs2 s2 where e2: "expand_row (cx_rows cx) fs2 t2 = Some (gs2, s2)" "fields_in cx gs2" "tail_in cx s2" "row_denotes True \<theta> gs2 s2 m"
    using expand_row_spec [OF wf r2(1,2)] sol r2(3) by metis
  have "unifiable (size (GRecord m)) cx \<theta> p" if "p \<in> set (common_fields gs1 gs2)" for p
  proof -
    from that obtain l where l: "(l, fst p) \<in> set gs1" "(l, snd p) \<in> set gs2" by (rule set_common_fields)
    from e1(4) l(1) obtain h where h: "fmlookup m l = Some h" "denotes True \<theta> (fst p) h" unfolding row_denotes_iff by force
    from e2(4) l(2) h(1) have "denotes True \<theta> (snd p) h" unfolding row_denotes_iff by force
    with h size_field [OF h(1)] l e1(2) e2(2) show ?thesis by (auto simp: unifiable_def fields_in_def)
  qed
  then have all: "succeeds (unify_all u (common_fields gs1 gs2)) cx \<theta>"
    by (intro unify_all_spec [where n = "size (GRecord m)"] u wf sol) auto
  have "succeeds (\<lambda>cx. do { (r, cx) \<leftarrow> unify_all u (common_fields gs1 gs2) cx;
      if r = UOk then reconcile_row_tails (gs1, s1) (gs2, s2) cx else Some (r, cx) }) cx \<theta>"
  proof (rule succeeds_then [OF all])
    fix cx' \<theta>'
    assume k: "keeps cx \<theta> cx' \<theta>'"
    then have g: "grown cx cx'" "agrees cx \<theta> \<theta>'" by (simp_all add: keeps_def)
    have "row_denotes True \<theta>' gs s m" if "fields_in cx gs" "tail_in cx s" "row_denotes True \<theta> gs s m" for gs s
      using denotes_agrees [OF g(2), of "SRecord gs s"] that unfolding row_denotes_def fields_in_def ty_in.simps by blast
    with e1 e2 keepsD(1,2) [OF k] fields_in_grown [OF g(1)] tail_in_grown [OF g(1)]
    show "succeeds (reconcile_row_tails (gs1, s1) (gs2, s2)) cx' \<theta>'" by (intro reconcile_spec) auto
  qed
  with e1(1) e2(1) show ?thesis by (simp add: succeeds_def relate_rows_def)
qed

lemma succeeds_cong: "f cx = f' cx \<Longrightarrow> succeeds f' cx \<theta> \<Longrightarrow> succeeds f cx \<theta>"
  by (simp add: succeeds_def)

lemma unify_heads_spec:
  assumes u: "\<And>p cx \<theta>. unifiable (size g) cx \<theta> p \<Longrightarrow> wf_ctx cx \<Longrightarrow> solves_ctx True \<theta> cx \<Longrightarrow> succeeds (u p) cx \<theta>"
    and wf: "wf_ctx cx" and sol: "solves_ctx True \<theta> cx"
    and a: "ty_in cx a" "denotes True \<theta> a g" and b: "ty_in cx b" "denotes True \<theta> b g"
    and "\<And>v. a \<noteq> SVar v" "\<And>v. b \<noteq> SVar v" "a \<noteq> SError" "b \<noteq> SError"
  shows "succeeds (unify_heads u a b) cx \<theta>"
proof -
  have ok: "succeeds (unify_heads u a b) cx \<theta>" if "unify_heads u a b cx = Some (UOk, cx)"
    using that keeps_refl [OF wf sol] by (auto simp: succeeds_def)
  have pair: "succeeds (u (x, y)) cx' \<theta>'"
    if "keeps cx \<theta> cx' \<theta>'" "ty_in cx x" "ty_in cx y" "denotes True \<theta> x h" "denotes True \<theta> y h" "size h < size g" for x y h cx' \<theta>'
    by (rule u [OF unifiable_keeps [OF that(1)] keepsD(1,2) [OF that(1)]]) (use that in \<open>auto simp: unifiable_def\<close>)
  note here = keeps_refl [OF wf sol]
  show ?thesis
  proof (cases g)
    case (GApp gf ga)
    from a(2) assms(8,10) GApp obtain f1 a1 where A: "a = SApp f1 a1" by (cases a) auto
    from b(2) assms(9,11) GApp obtain f2 a2 where B: "b = SApp f2 a2" by (cases b) auto
    note ab = A B
    have "succeeds (\<lambda>cx. do { (r, cx) \<leftarrow> u (f1, f2) cx; if r = UOk then u (a1, a2) cx else Some (r, cx) }) cx \<theta>"
    proof (rule succeeds_then)
      show "succeeds (u (f1, f2)) cx \<theta>" by (rule pair [OF here, of _ _ gf]) (use a b ab GApp in auto)
      show "succeeds (u (a1, a2)) cx1 \<theta>1" if "keeps cx \<theta> cx1 \<theta>1" for cx1 \<theta>1
        by (rule pair [OF that, of _ _ ga]) (use a b ab GApp in auto)
    qed
    then show ?thesis by (rule succeeds_cong [rotated]) (simp add: unify_heads_def ab)
  next
    case (GArrow gf ga E)
    from a(2) assms(8,10) GArrow obtain f1 a1 e1 where A: "a = SArrow f1 a1 e1" by (cases a) auto
    from b(2) assms(9,11) GArrow obtain f2 a2 e2 where B: "b = SArrow f2 a2 e2" by (cases b) auto
    note ab = A B
    let ?rest = "\<lambda>cx. do { (r, cx) \<leftarrow> u (a1, a2) cx; if r = UOk then unify_effects e1 e2 cx else Some (r, cx) }"
    have "succeeds (\<lambda>cx. do { (r, cx) \<leftarrow> u (f1, f2) cx; if r = UOk then ?rest cx else Some (r, cx) }) cx \<theta>"
    proof (intro succeeds_then)
      show "succeeds (u (f1, f2)) cx \<theta>" by (rule pair [OF here, of _ _ gf]) (use a b ab GArrow in auto)
    next
      fix cx1 \<theta>1
      assume k: "keeps cx \<theta> cx1 \<theta>1"
      show "succeeds (u (a1, a2)) cx1 \<theta>1" by (rule pair [OF k, of _ _ ga]) (use a b ab GArrow in auto)
      fix cx2 \<theta>2
      assume "keeps cx1 \<theta>1 cx2 \<theta>2"
      from keepsD [OF keeps_trans [OF k this]] a b ab GArrow show "succeeds (unify_effects e1 e2) cx2 \<theta>2"
        by (intro unify_effects_spec [where E = E]) auto
    qed
    then show ?thesis by (rule succeeds_cong [rotated]) (simp add: unify_heads_def ab)
  next
    case (GTuple gs)
    from a(2) assms(8,10) GTuple obtain xs where A: "a = STuple xs" by (cases a) auto
    from b(2) assms(9,11) GTuple obtain ys where B: "b = STuple ys" by (cases b) auto
    note ab = A B
    with a b GTuple have all: "list_all2 (denotes True \<theta>) xs gs" "list_all2 (denotes True \<theta>) ys gs" by auto
    then have len: "length xs = length gs" "length ys = length gs" by (auto dest: list_all2_lengthD)
    have "unifiable (size g) cx \<theta> p" if "p \<in> set (zip xs ys)" for p
    proof -
      from that obtain i where i: "i < length gs" "p = (xs ! i, ys ! i)" by (auto simp: set_zip len)
      with all have "denotes True \<theta> (xs ! i) (gs ! i)" "denotes True \<theta> (ys ! i) (gs ! i)" by (auto simp: list_all2_conv_all_nth)
      moreover have "size (gs ! i) < size g" using size_member [of "gs ! i" gs] i(1) GTuple by simp
      ultimately show ?thesis using a(1) b(1) i len unfolding ab unifiable_def by auto
    qed
    then have "succeeds (unify_all u (zip xs ys)) cx \<theta>" by (intro unify_all_spec [where n = "size g"] u wf sol) auto
    then show ?thesis by (rule succeeds_cong [rotated]) (simp add: unify_heads_def ab len)
  next
    case (GRecord m)
    from a(2) assms(8,10) GRecord obtain fs1 t1 where A: "a = SRecord fs1 t1" by (cases a) auto
    from b(2) assms(9,11) GRecord obtain fs2 t2 where B: "b = SRecord fs2 t2" by (cases b) auto
    note ab = A B
    have "succeeds (relate_rows u (SolveRow fs1 t1) (SolveRow fs2 t2)) cx \<theta>"
      by (rule relate_rows_spec [OF u [unfolded GRecord] wf sol]) (use a b ab GRecord in \<open>auto simp: fields_in_def row_denotes_def\<close>)
    then show ?thesis by (rule succeeds_cong [rotated]) (simp add: unify_heads_def ab)
  next
    case (GEffectArg E)
    from a(2) assms(8,10) GEffectArg obtain e1 where A: "a = SEffectArg e1" by (cases a) auto
    from b(2) assms(9,11) GEffectArg obtain e2 where B: "b = SEffectArg e2" by (cases b) auto
    note ab = A B
    have "succeeds (unify_effects e1 e2) cx \<theta>"
      by (rule unify_effects_spec [OF wf sol, of _ _ E]) (use a b ab GEffectArg in auto)
    then show ?thesis by (rule succeeds_cong [rotated]) (simp add: unify_heads_def ab)
  next
    case (GCon c)
    from a(2) assms(8,10) GCon have "a = SCon c" by (cases a) auto
    moreover from b(2) assms(9,11) GCon have "b = SCon c" by (cases b) auto
    ultimately show ?thesis by (intro ok) (simp add: unify_heads_def)
  next
    case (GAdt c)
    from a(2) assms(8,10) GAdt have "a = SAdt c" by (cases a) auto
    moreover from b(2) assms(9,11) GAdt have "b = SAdt c" by (cases b) auto
    ultimately show ?thesis by (intro ok) (simp add: unify_heads_def)
  next
    case (GInterface c)
    from a(2) assms(8,10) GInterface have "a = SInterface c" by (cases a) auto
    moreover from b(2) assms(9,11) GInterface have "b = SInterface c" by (cases b) auto
    ultimately show ?thesis by (intro ok) (simp add: unify_heads_def)
  next
    case GUnit
    from a(2) assms(8,10) GUnit have "a = SUnit" by (cases a) auto
    moreover from b(2) assms(9,11) GUnit have "b = SUnit" by (cases b) auto
    ultimately show ?thesis by (intro ok) (simp add: unify_heads_def)
  qed
qed

lemma unify_keeps:
  "wf_ctx cx \<Longrightarrow> solves_ctx True \<theta> cx \<Longrightarrow> ty_in cx a \<Longrightarrow> ty_in cx b \<Longrightarrow> denotes True \<theta> a g \<Longrightarrow> denotes True \<theta> b g \<Longrightarrow>
   succeeds (unify a b) cx \<theta>"
proof (induction "size g" arbitrary: g a b cx \<theta> rule: less_induct)
  case less
  obtain a' cx1 where a': "resolve_compress a cx = Some (a', cx1)" "same_solutions cx cx1" "ty_in cx1 a'" "is_head cx1 a'" "denotes True \<theta> a' g"
    using resolve_compress_spec [OF less.prems(1,3)] less.prems(2,5) by metis
  note s1 = same_solutionsD [OF a'(2)]
  obtain b' cx2 where b': "resolve_compress b cx1 = Some (b', cx2)" "same_solutions cx1 cx2" "ty_in cx2 b'" "is_head cx2 b'" "denotes True \<theta> b' g"
    using resolve_compress_spec [OF s1(1) s1(2) [OF less.prems(4)]] s1(3) [OF less.prems(2)] less.prems(6) by metis
  note s2 = same_solutionsD [OF b'(2)]
  have sol: "solves_ctx True \<theta> cx2" by (rule s2(3) [OF s1(3) [OF less.prems(2)]])
  have k: "keeps cx \<theta> cx2 \<theta>" by (rule keeps_same [OF same_solutions_trans [OF a'(2) b'(2)] less.prems(2)])
  define body where "body = (\<lambda>cx. if a' = SError \<or> b' = SError then Some (UOk, cx)
      else case a' of
          SVar x \<Rightarrow> if b' = SVar x then Some (UOk, cx) else bind_var x b' cx
        | _ \<Rightarrow> (case b' of SVar y \<Rightarrow> bind_var y a' cx | _ \<Rightarrow> unify_heads (\<lambda>(x, y). unify x y) a' b' cx))"
  have run: "unify a b cx = body cx2" using a'(1) b'(1) by (subst unify_simps) (simp add: body_def)
  have "succeeds body cx2 \<theta>"
  proof (cases "a' = SError \<or> b' = SError \<or> (\<exists>x. a' = SVar x \<and> b' = SVar x)")
    case True
    with keeps_refl [OF s2(1) sol] show ?thesis by (auto simp: succeeds_def body_def)
  next
    case False
    have h: "ty_in cx2 a'" "is_head cx2 a'" by (rule s2(2) [OF a'(3)], rule s2(4) [OF a'(4)])
    show ?thesis
    proof (cases "\<exists>x. a' = SVar x")
      case True
      then obtain x where x: "a' = SVar x" by blast
      have "succeeds (bind_var x b') cx2 \<theta>"
        by (rule bind_var_spec [OF s2(1) sol _ b'(3,4)]) (use x h(2) False a'(5) b'(5) in \<open>auto simp: is_head_def\<close>)
      then show ?thesis by (rule succeeds_cong [rotated]) (use x False in \<open>simp add: body_def\<close>)
    next
      case a: False
      show ?thesis
      proof (cases "\<exists>y. b' = SVar y")
        case True
        then obtain y where y: "b' = SVar y" by blast
        have "succeeds (bind_var y a') cx2 \<theta>"
          by (rule bind_var_spec [OF s2(1) sol _ h]) (use y b'(4,5) a a'(5) in \<open>auto simp: is_head_def\<close>)
        moreover have "body cx2 = bind_var y a' cx2" using y a False by (cases a') (auto simp: body_def)
        ultimately show ?thesis using succeeds_cong by blast
      next
        case b: False
        have "succeeds (unify_heads (\<lambda>(x, y). unify x y) a' b') cx2 \<theta>"
        proof (rule unify_heads_spec [OF _ s2(1) sol h(1) a'(5) b'(3,5)])
          show "succeeds ((\<lambda>(x, y). unify x y) p) cx \<theta>" if "unifiable (size g) cx \<theta> p" "wf_ctx cx" "solves_ctx True \<theta> cx" for p cx \<theta>
            using that less.hyps by (cases p) (auto simp: unifiable_def)
        qed (use a b False in auto)
        moreover have "body cx2 = unify_heads (\<lambda>(x, y). unify x y) a' b' cx2" using a b False by (cases a'; cases b') (auto simp: body_def)
        ultimately show ?thesis using succeeds_cong by blast
      qed
    qed
  qed
  then obtain cx3 \<theta>3 where "body cx2 = Some (UOk, cx3)" "keeps cx2 \<theta> cx3 \<theta>3" unfolding succeeds_def by blast
  with run keeps_trans [OF k] show ?case unfolding succeeds_def by metis
qed

section \<open>Completeness\<close>

text \<open>
  C9: Unification succeeds on every two types that can be made equal: in a well-formed context with a
  solution under which the types have the same value, it returns, reports success, and the context it
  leaves is well-formed and still has that solution, extended to the row and effect variables made on
  the way. Nothing is given away: records with unknown fields, effects with unknown atoms, pending
  constraints and error types are all included.
\<close>

theorem unify_complete:
  assumes "wf_ctx cx" "solves_ctx True \<theta> cx" "ty_in cx a" "ty_in cx b" "denotes True \<theta> a g" "denotes True \<theta> b g"
  shows "\<exists>cx' \<theta>'. unify a b cx = Some (UOk, cx') \<and> wf_ctx cx' \<and> solves_ctx True \<theta>' cx' \<and> agrees cx \<theta> \<theta>'"
  using unify_keeps [OF assms] unfolding succeeds_def keeps_def by blast

theorem unify_complete_witness:
  defines "cx \<equiv> snd (fresh_row [str ''x''] (snd (fresh InferCtx_new)))"
    and "\<theta> \<equiv> \<lparr>as_ty = \<lambda>_. GCon CInt, as_row = \<lambda>_. fmupd (str ''y'') (GCon CBool) fmempty, as_eff = \<lambda>_. {}\<rparr>"
    and "a \<equiv> SRecord [(str ''x'', SVar 0)] (ROpen 0)"
    and "b \<equiv> SRecord [(str ''x'', SCon CInt), (str ''y'', SCon CBool)] RClosed"
  shows "\<exists>cx' \<theta>'. unify a b cx = Some (UOk, cx') \<and> wf_ctx cx' \<and> solves_ctx True \<theta>' cx' \<and> agrees cx \<theta> \<theta>'"
proof -
  have cx: "cx = \<lparr>cx_vars = [VFree None 0], cx_rows = [RowFree [str ''x'']], cx_effects = [], cx_origins = [], cx_ignore = False, cx_level = 0\<rparr>"
    unfolding cx_def by code_simp
  have xy: "str ''x'' \<noteq> str ''y''" by code_simp
  let ?m = "fmupd (str ''x'') (GCon CInt) (fmupd (str ''y'') (GCon CBool) fmempty)"
  show ?thesis
  proof (rule unify_complete [where g = "GRecord ?m"])
    show "wf_ctx cx" "solves_ctx True \<theta> cx" "ty_in cx a" "ty_in cx b"
      using xy by (auto simp: cx \<theta>_def a_def b_def wf_ctx_def links_end_def solves_ctx_def var_holds_def row_holds_def)
    show "denotes True \<theta> a (GRecord ?m)" "denotes True \<theta> b (GRecord ?m)"
      using xy by (auto simp: \<theta>_def a_def b_def)
  qed
qed

end
