(* ===== verification/Fai_Unified.thy ===== *)
theory Fai_Unified
  imports Fai_Unify
begin

text \<open>
  Unification of types without open records: it always returns, and when it succeeds, every solution of
  the result makes the two types equal. Types with row variables are left out here for a reason: the last
  section has three cases in which unification of open records succeeds and should not.
\<close>

section \<open>Contexts without row variables\<close>

text \<open>No error types, and no label twice.\<close>

fun plain_ty :: "solve_ty \<Rightarrow> bool" where
  "plain_ty SError \<longleftrightarrow> False"
| "plain_ty (SApp f a) \<longleftrightarrow> plain_ty f \<and> plain_ty a"
| "plain_ty (SArrow f a _) \<longleftrightarrow> plain_ty f \<and> plain_ty a"
| "plain_ty (STuple ts) \<longleftrightarrow> (\<forall>t \<in> set ts. plain_ty t)"
| "plain_ty (SRecord fs _) \<longleftrightarrow> distinct (map fst fs) \<and> (\<forall>(l, t) \<in> set fs. plain_ty t)"
| "plain_ty _ \<longleftrightarrow> True"

fun tvars :: "solve_ty \<Rightarrow> ty_var_id set" where
  "tvars (SVar v) = {v}"
| "tvars (SApp f a) = tvars f \<union> tvars a"
| "tvars (SArrow f a _) = tvars f \<union> tvars a"
| "tvars (STuple ts) = \<Union>(tvars ` set ts)"
| "tvars (SRecord fs _) = (\<Union>(l, t) \<in> set fs. tvars t)"
| "tvars _ = {}"

text \<open>Bindings form no cycle.\<close>

definition ranks :: "(nat \<Rightarrow> nat) \<Rightarrow> var_state list \<Rightarrow> bool" where
  "ranks rank vars \<longleftrightarrow> (\<forall>v t w. v < length vars \<longrightarrow> vars ! v = VBound t \<longrightarrow> w \<in> tvars t \<longrightarrow> rank w < rank v)"

definition plain_ctx :: "infer_ctx \<Rightarrow> bool" where
  "plain_ctx cx \<longleftrightarrow>
     wf_ctx cx \<and> cx_rows cx = [] \<and> \<not> cx_ignore cx \<and> (\<exists>rank. ranks rank (cx_vars cx)) \<and>
     (\<forall>v < length (cx_vars cx). \<forall>t. cx_vars cx ! v = VBound t \<longrightarrow> plain_ty t)"

definition free_vars :: "infer_ctx \<Rightarrow> ty_var_id set" where
  "free_vars cx = {v. is_free cx v}"

lemma finite_free_vars [simp]: "finite (free_vars cx)"
  by (rule finite_subset [of _ "{..<length (cx_vars cx)}"]) (auto simp: free_vars_def is_free_def)

text \<open>The size of a type when every variable has a given size.\<close>

fun weight :: "(nat \<Rightarrow> nat) \<Rightarrow> solve_ty \<Rightarrow> nat" where
  "weight W (SVar v) = W v"
| "weight W (SApp f a) = Suc (weight W f + weight W a)"
| "weight W (SArrow f a _) = Suc (weight W f + weight W a)"
| "weight W (STuple ts) = Suc (sum_list (map (weight W) ts))"
| "weight W (SRecord fs _) = Suc (sum_list (map (\<lambda>(l, t). weight W t) fs))"
| "weight W _ = 0"

definition weighs :: "(nat \<Rightarrow> nat) \<Rightarrow> var_state list \<Rightarrow> bool" where
  "weighs W vars \<longleftrightarrow> (\<forall>v < length vars. \<forall>t. vars ! v = VBound t \<longrightarrow> W v = weight W t)"

lemma weight_cong: "(\<And>v. v \<in> tvars t \<Longrightarrow> W v = W' v) \<Longrightarrow> weight W t = weight W' t"
proof (induction t)
  case (STuple ts)
  have "weight W t = weight W' t" if "t \<in> set ts" for t using STuple that by fastforce
  then show ?case by (auto intro!: arg_cong [where f = sum_list])
next
  case (SRecord fs tail)
  have "weight W (snd p) = weight W' (snd p)" if "p \<in> set fs" for p
    using SRecord that by (cases p) (force simp: snds.simps)
  then show ?case by (auto intro!: arg_cong [where f = sum_list])
qed auto

lemma weights_exist:
  assumes "ranks rank vars" and tv: "\<And>v t. v < length vars \<Longrightarrow> vars ! v = VBound t \<Longrightarrow> tvars t \<subseteq> {..<length vars}"
  obtains W where "weighs W vars"
proof -
  have "\<exists>W. \<forall>v < length vars. rank v < n \<longrightarrow> (\<forall>t. vars ! v = VBound t \<longrightarrow> W v = weight W t)" for n
  proof (induction n)
    case (Suc n)
    then obtain W where W: "\<And>v t. v < length vars \<Longrightarrow> rank v < n \<Longrightarrow> vars ! v = VBound t \<Longrightarrow> W v = weight W t" by blast
    define W' where "W' v = (if rank v = n then (case vars ! v of VBound t \<Rightarrow> weight W t | _ \<Rightarrow> 0) else W v)" for v
    have same: "weight W' t = weight W t" if "v < length vars" "vars ! v = VBound t" "rank v < Suc n" for v t
      by (rule weight_cong) (use assms(1) that in \<open>fastforce simp: ranks_def W'_def\<close>)
    have "W' v = weight W' t" if v: "v < length vars" "rank v < Suc n" "vars ! v = VBound t" for v t
      using W [OF v(1) _ v(3)] same [OF v(1,3,2)] v by (cases "rank v = n") (auto simp: W'_def)
    then show ?case by blast
  qed simp
  from this [of "Suc (Max (rank ` {..<length vars}))"] obtain W where
    W: "\<And>v t. v < length vars \<Longrightarrow> rank v < Suc (Max (rank ` {..<length vars})) \<Longrightarrow> vars ! v = VBound t \<Longrightarrow> W v = weight W t" by blast
  have "rank v < Suc (Max (rank ` {..<length vars}))" if "v < length vars" for v
    using that by (simp add: less_Suc_eq_le)
  with W that show ?thesis unfolding weighs_def by blast
qed

lemma plain_ctxD:
  assumes "plain_ctx cx"
  shows "wf_ctx cx" "cx_rows cx = []" "\<not> cx_ignore cx" "v < length (cx_vars cx) \<Longrightarrow> cx_vars cx ! v = VBound t \<Longrightarrow> plain_ty t"
  using assms unfolding plain_ctx_def by blast+

lemma tvars_in: "ty_in cx t \<Longrightarrow> tvars t \<subseteq> {..<length (cx_vars cx)}"
proof (induction t)
  case (SRecord fs tail)
  have "tvars (snd p) \<subseteq> {..<length (cx_vars cx)}" if "p \<in> set fs" for p
    using SRecord that by (cases p) (force simp: snds.simps)
  then show ?case by (auto simp: split_def)
qed auto

text \<open>A step of the solver on such a context.\<close>

definition refines :: "infer_ctx \<Rightarrow> infer_ctx \<Rightarrow> bool" where
  "refines cx cx' \<longleftrightarrow>
     plain_ctx cx' \<and> grown cx cx' \<and> free_vars cx' \<subseteq> free_vars cx \<and>
     (free_vars cx' = free_vars cx \<longrightarrow> (\<forall>W. weighs W (cx_vars cx) \<longrightarrow> weighs W (cx_vars cx'))) \<and>
     (\<forall>\<theta>. solves_ctx False \<theta> cx' \<longrightarrow> solves_ctx False \<theta> cx)"

lemma refines_refl: "plain_ctx cx \<Longrightarrow> refines cx cx"
  by (simp add: refines_def)

lemma refines_trans: "refines a b \<Longrightarrow> refines b c \<Longrightarrow> refines a c"
  unfolding refines_def by (intro conjI impI allI) (blast intro: grown_trans)+

section \<open>Resolution\<close>

lemma links_rank:
  assumes rank: "ranks rank vars" and "(u, w) \<in> (links vars)\<^sup>+"
  shows "rank w < rank u"
  using assms(2)
proof (induction rule: trancl_induct)
  case (step x y)
  then have "rank y < rank x" using rank by (simp add: ranks_def links_def)
  with step show ?case by simp
qed (use rank in \<open>simp add: ranks_def links_def\<close>)

lemma links_weight: "weighs W vars \<Longrightarrow> (u, w) \<in> (links vars)\<^sup>* \<Longrightarrow> W u = W w"
  by (erule rtrancl_induct) (auto simp: weighs_def links_def)

lemma plain_compressed:
  assumes cx: "plain_ctx cx" and same: "same_solutions cx cx'" and c: "compressed (cx_vars cx) (cx_vars cx')"
  shows "refines cx cx'" "free_vars cx' = free_vars cx" "weighs W (cx_vars cx) \<Longrightarrow> weighs W (cx_vars cx')"
proof -
  have len: "length (cx_vars cx') = length (cx_vars cx)" using c by (simp add: compressed_def)
  have at: "cx_vars cx' ! u = cx_vars cx ! u \<or> (\<exists>w. cx_vars cx' ! u = VBound (SVar w) \<and> (u, w) \<in> (links (cx_vars cx))\<^sup>+)"
    if "u < length (cx_vars cx)" for u using c that by (simp add: compressed_def)
  show free: "free_vars cx' = free_vars cx" using same by (simp add: free_vars_def same_solutions_def)
  show W: "weighs W (cx_vars cx')" if "weighs W (cx_vars cx)" for W
    unfolding weighs_def len
  proof (intro allI impI)
    fix v t
    assume v: "v < length (cx_vars cx)" "cx_vars cx' ! v = VBound t"
    from at [OF v(1)] show "W v = weight W t"
      using v that links_weight [OF that, of v] by (auto simp: weighs_def dest: trancl_into_rtrancl)
  qed
  from cx obtain rank where rank: "ranks rank (cx_vars cx)" unfolding plain_ctx_def by blast
  have "ranks rank (cx_vars cx')"
    unfolding ranks_def len
  proof (intro allI impI)
    fix v t w
    assume v: "v < length (cx_vars cx)" "cx_vars cx' ! v = VBound t" "w \<in> tvars t"
    from at [OF v(1)] show "rank w < rank v"
    proof
      assume "cx_vars cx' ! v = cx_vars cx ! v"
      with v rank show ?thesis unfolding ranks_def by metis
    qed (use v links_rank [OF rank, of v] in auto)
  qed
  moreover have "plain_ty t" if v: "v < length (cx_vars cx')" "cx_vars cx' ! v = VBound t" for v t
    using at [of v] v plain_ctxD(4) [OF cx, of v t] len by auto
  ultimately have "plain_ctx cx'" using same plain_ctxD [OF cx] unfolding plain_ctx_def same_solutions_def grown_def by auto
  then show "refines cx cx'" using same W free unfolding refines_def same_solutions_def by auto
qed

lemma resolve_refines:
  assumes cx: "plain_ctx cx" and t: "ty_in cx t" "plain_ty t"
  obtains t' cx' where "resolve_compress t cx = Some (t', cx')" "refines cx cx'" "free_vars cx' = free_vars cx"
    "ty_in cx' t'" "plain_ty t'" "is_head cx' t'"
    "\<And>\<theta> g. solves_ctx False \<theta> cx \<Longrightarrow> denotes False \<theta> t g \<Longrightarrow> denotes False \<theta> t' g"
    "\<And>W. weighs W (cx_vars cx) \<Longrightarrow> weighs W (cx_vars cx') \<and> weight W t' = weight W t"
proof (rule resolve_compress_spec [OF plain_ctxD(1) [OF cx] t(1)])
  fix t' cx'
  assume c: "compressed (cx_vars cx) (cx_vars cx')"
    "t' = t \<or> (\<exists>v w. t = SVar v \<and> (v, w) \<in> (links (cx_vars cx))\<^sup>* \<and> (t' = SVar w \<or> w < length (cx_vars cx) \<and> cx_vars cx ! w = VBound t'))"
    and run: "resolve_compress t cx = Some (t', cx')" "same_solutions cx cx'" "ty_in cx' t'" "is_head cx' t'"
    "\<And>apart \<theta> g. solves_ctx apart \<theta> cx \<Longrightarrow> denotes apart \<theta> t g \<Longrightarrow> denotes apart \<theta> t' g"
  note s = plain_compressed [OF cx run(2) c(1)]
  have "plain_ty t'" using c(2) t(2) plain_ctxD(4) [OF cx] by auto
  moreover have "weight W t' = weight W t" if "weighs W (cx_vars cx)" for W
    using c(2) links_weight [OF that] that by (auto simp: weighs_def)
  ultimately show thesis using that [OF run(1) s(1,2) run(3) _ run(4)] run(5) s(3) by blast
qed

section \<open>Values of plain types\<close>

lemma plain_denotes:
  assumes "cx_rows cx = []"
  shows "plain_ty t \<Longrightarrow> ty_in cx t \<Longrightarrow> \<exists>g. denotes False \<theta> t g"
proof (induction t)
  case (STuple ts)
  then have "\<forall>t \<in> set ts. \<exists>g. denotes False \<theta> t g" by auto
  then obtain f where "\<forall>t \<in> set ts. denotes False \<theta> t (f t)" by metis
  then have "list_all2 (denotes False \<theta>) ts (map f ts)" by (auto simp: list_all2_conv_all_nth)
  then show ?case by auto
next
  case (SRecord fs tail)
  have tail: "tail = RClosed" using SRecord.prems(2) assms by (cases tail) auto
  have "\<forall>p \<in> set fs. \<exists>g. denotes False \<theta> (snd p) g"
    using SRecord by (fastforce simp: snds.simps)
  then obtain f where f: "\<And>p. p \<in> set fs \<Longrightarrow> denotes False \<theta> (snd p) (f p)" by metis
  have d: "distinct (map fst fs)" using SRecord.prems by simp
  let ?m = "fmap_of_list (map (\<lambda>p. (fst p, f p)) fs)"
  have m: "fmlookup ?m (fst p) = Some (f p)" if "p \<in> set fs" for p
    using d that by (simp add: fmlookup_of_list comp_def)
  have "fmlookup ?m l = None" if "l \<notin> fst ` set fs" for l
    using that by (force simp: fmlookup_of_list map_of_eq_None_iff)
  with f m d have "row_denotes False \<theta> fs tail ?m" unfolding row_denotes_iff tail by simp
  then show ?case unfolding row_denotes_def by blast
next
  case (SApp f a)
  then obtain gf ga where "denotes False \<theta> f gf" "denotes False \<theta> a ga" by auto
  then have "denotes False \<theta> (SApp f a) (GApp gf ga)" by simp
  then show ?case by blast
next
  case (SArrow f a e)
  then obtain gf ga where "denotes False \<theta> f gf" "denotes False \<theta> a ga" by auto
  then have "denotes False \<theta> (SArrow f a e) (GArrow gf ga (set (se_atoms e) \<union> tail_effect \<theta> (se_tail e)))"
    by (simp add: eff_denotes_def)
  then show ?case by blast
qed (auto simp: eff_denotes_def)

lemma denotes_unique:
  shows "plain_ty t \<Longrightarrow> denotes apart \<theta> t g \<Longrightarrow> denotes apart \<theta> t h \<Longrightarrow> g = h"
proof (induction t arbitrary: g h)
  case (STuple ts)
  then obtain gs hs where gs: "g = GTuple gs" "h = GTuple hs" "list_all2 (denotes apart \<theta>) ts gs" "list_all2 (denotes apart \<theta>) ts hs" by auto
  have "gs = hs"
  proof (rule nth_equalityI)
    show "length gs = length hs" using gs by (metis list_all2_lengthD)
    show "gs ! i = hs ! i" if "i < length gs" for i
    proof (rule STuple.IH [of "ts ! i"])
      have "i < length ts" using gs(3) that by (simp add: list_all2_lengthD)
      then show "ts ! i \<in> set ts" "plain_ty (ts ! i)" "denotes apart \<theta> (ts ! i) (gs ! i)" "denotes apart \<theta> (ts ! i) (hs ! i)"
        using STuple.prems(1) gs(3,4) by (auto simp: list_all2_conv_all_nth)
    qed
  qed
  with gs show ?case by simp
next
  case (SRecord fs tail)
  then obtain m n where m: "g = GRecord m" "row_denotes apart \<theta> fs tail m" and n: "h = GRecord n" "row_denotes apart \<theta> fs tail n"
    by (auto simp: row_denotes_def)
  have "fmlookup m l = fmlookup n l" for l
  proof (cases "l \<in> fst ` set fs")
    case True
    then obtain p where p: "p \<in> set fs" "l = fst p" by blast
    from m(2) n(2) p obtain x y where xy: "fmlookup m l = Some x" "denotes apart \<theta> (snd p) x" "fmlookup n l = Some y" "denotes apart \<theta> (snd p) y"
      unfolding row_denotes_iff by blast
    have "x = y" using SRecord.IH [of p "snd p"] SRecord.prems(1) p xy by (cases p) (auto simp: snds.simps)
    with xy show ?thesis by simp
  next
    case False
    with m(2) n(2) show ?thesis unfolding row_denotes_iff by simp
  qed
  with m n show ?case by (simp add: fmap_ext)
qed (auto simp: eff_denotes_def; blast)+

section \<open>Binding\<close>

text \<open>Levels have been lowered.\<close>

definition releveled :: "infer_ctx \<Rightarrow> infer_ctx \<Rightarrow> bool" where
  "releveled cx cx' \<longleftrightarrow>
     same_solutions cx cx' \<and> (\<forall>u < length (cx_vars cx). \<forall>t. cx_vars cx' ! u = VBound t \<longleftrightarrow> cx_vars cx ! u = VBound t)"

lemma releveled_length: "releveled cx cx' \<Longrightarrow> length (cx_vars cx') = length (cx_vars cx)"
  by (simp add: releveled_def same_solutions_def grown_def)

lemma releveled_trans:
  assumes "releveled a b" "releveled b c"
  shows "releveled a c"
  using assms releveled_length [OF assms(1)] same_solutions_trans [of a b c] unfolding releveled_def by auto

lemma lower_level_releveled:
  assumes "wf_ctx cx" "v < length (cx_vars cx)"
  obtains cx' where "lower_level v to cx = Some cx'" "releveled cx cx'"
proof (rule lower_level_spec [OF assms, of to])
  fix cx'
  assume run: "lower_level v to cx = Some cx'" "same_solutions cx cx'"
  then have "releveled cx cx'" using assms(2) unfolding releveled_def
    by (auto simp: lower_level_def nth_list_update split: var_state.splits if_splits)
  with run(1) that show thesis by blast
qed

lemma releveled_rank: "releveled cx cx' \<Longrightarrow> ranks rank (cx_vars cx') = ranks rank (cx_vars cx)"
  using releveled_length [of cx cx'] unfolding releveled_def ranks_def by auto

lemma releveled_weighs: "releveled cx cx' \<Longrightarrow> weighs W (cx_vars cx') = weighs W (cx_vars cx)"
  using releveled_length [of cx cx'] unfolding releveled_def weighs_def by auto

lemma releveled_refines:
  assumes "plain_ctx cx" "releveled cx cx'"
  shows "refines cx cx'" "free_vars cx' = free_vars cx"
proof -
  from assms(2) have s: "same_solutions cx cx'" by (simp add: releveled_def)
  show free: "free_vars cx' = free_vars cx" using s by (simp add: free_vars_def same_solutions_def)
  have "plain_ty t" if "v < length (cx_vars cx')" "cx_vars cx' ! v = VBound t" for v t
    using assms(2) that plain_ctxD(4) [OF assms(1)] releveled_length [OF assms(2)] unfolding releveled_def by auto
  moreover have "\<exists>rank. ranks rank (cx_vars cx')" using assms(1) releveled_rank [OF assms(2)] unfolding plain_ctx_def by blast
  ultimately have "plain_ctx cx'" using s plain_ctxD [OF assms(1)] unfolding plain_ctx_def same_solutions_def grown_def by auto
  then show "refines cx cx'" using s free releveled_weighs [OF assms(2)] unfolding refines_def same_solutions_def by auto
qed

text \<open>The variables a type reaches through bindings.\<close>

definition deps :: "infer_ctx \<Rightarrow> (nat \<times> nat) set" where
  "deps cx = {(v, w). v < length (cx_vars cx) \<and> (\<exists>t. cx_vars cx ! v = VBound t \<and> w \<in> tvars t)}"

definition reaches :: "infer_ctx \<Rightarrow> nat set \<Rightarrow> nat \<Rightarrow> bool" where
  "reaches cx A v \<longleftrightarrow> (\<exists>u \<in> A. (u, v) \<in> (deps cx)\<^sup>*)"

lemma releveled_deps: "releveled cx cx' \<Longrightarrow> deps cx' = deps cx"
  using releveled_length [of cx cx'] unfolding releveled_def deps_def by auto

lemma reaches_bound:
  "v < length (cx_vars cx) \<Longrightarrow> cx_vars cx ! v = VBound t \<Longrightarrow> reaches cx {v} x \<longleftrightarrow> v = x \<or> reaches cx (tvars t) x"
  unfolding reaches_def by (auto simp: deps_def intro: converse_rtrancl_into_rtrancl elim: converse_rtranclE)

lemma reaches_free: "is_free cx v \<Longrightarrow> reaches cx {v} x \<longleftrightarrow> v = x"
  unfolding reaches_def by (auto simp: deps_def is_free_def elim: converse_rtranclE)

lemma reaches_Un: "reaches cx (A \<union> B) x \<longleftrightarrow> reaches cx A x \<or> reaches cx B x"
  and reaches_empty [simp]: "\<not> reaches cx {} x"
  by (auto simp: reaches_def)

lemma reaches_UN: "reaches cx (\<Union>(f ` A)) x \<longleftrightarrow> (\<exists>a \<in> A. reaches cx (f a) x)"
  by (auto simp: reaches_def)

lemma repr_reaches:
  assumes wf: "wf_ctx cx" and "v < length (cx_vars cx)" "repr cx v = Some (w, b)" and x: "is_free cx x"
  shows "reaches cx {v} x \<longleftrightarrow> reaches cx {w} x" "(v, w) \<in> (deps cx)\<^sup>*"
proof -
  obtain rank :: "nat \<Rightarrow> nat" where
    rank: "\<And>v w. v < length (cx_vars cx) \<Longrightarrow> cx_vars cx ! v = VBound (SVar w) \<Longrightarrow> w < length (cx_vars cx) \<and> rank w < rank v"
    using link_rankE [OF wf] by blast
  have "(reaches cx {v} x \<longleftrightarrow> reaches cx {w} x) \<and> (v, w) \<in> (deps cx)\<^sup>*"
    using assms(2,3)
  proof (induction "rank v" arbitrary: v rule: less_induct)
    case less
    show ?case
    proof (cases "is_link (cx_vars cx ! v)")
      case True
      then obtain y where y: "cx_vars cx ! v = VBound (SVar y)" by (auto simp: is_link_def)
      from rank [OF less.prems(1) y] have y': "y < length (cx_vars cx)" "rank y < rank v" by simp_all
      have "repr cx y = Some (w, b)" using less.prems y by (subst (asm) repr.simps) simp
      from less.hyps [OF y'(2,1) this] have IH: "reaches cx {y} x \<longleftrightarrow> reaches cx {w} x" "(y, w) \<in> (deps cx)\<^sup>*" by simp_all
      have "v \<noteq> x" using x y by (auto simp: is_free_def)
      moreover have "(v, y) \<in> deps cx" using less.prems(1) y by (simp add: deps_def)
      ultimately show ?thesis using IH reaches_bound [OF less.prems(1) y, of x] by (auto intro: converse_rtrancl_into_rtrancl)
    next
      case False
      with less.prems have "w = v" by (subst (asm) repr.simps) (auto simp: is_link_def split: var_state.splits solve_ty.splits)
      then show ?thesis by simp
    qed
  qed
  then show "reaches cx {v} x \<longleftrightarrow> reaches cx {w} x" "(v, w) \<in> (deps cx)\<^sup>*" by blast+
qed

lemma any_state_total:
  assumes "\<And>x s. x \<in> set xs \<Longrightarrow> I s \<Longrightarrow> \<exists>hit s'. f x s = Some (hit, s') \<and> J s' \<and> (\<not> hit \<longrightarrow> Q x \<and> I s')"
    and "I s" "J s"
  shows "\<exists>hit s'. any_state f xs s = Some (hit, s') \<and> J s' \<and> (\<not> hit \<longrightarrow> (\<forall>x \<in> set xs. Q x) \<and> I s')"
  using assms
proof (induction xs arbitrary: s)
  case (Cons x xs)
  from Cons.prems(1) [of x s] Cons.prems(2) obtain hit s' where x: "f x s = Some (hit, s')" "J s'" "\<not> hit \<longrightarrow> Q x \<and> I s'" by auto
  show ?case
  proof (cases hit)
    case False
    with Cons.IH [of s'] Cons.prems(1) x show ?thesis by auto
  qed (use x in auto)
qed (auto intro: exI [of _ False])

lemma expand_row_closed [simp]: "expand_row rows fs RClosed = Some (fs, RClosed)"
  by (subst expand_row.simps) simp

lemma occurs_total:
  assumes cx: "plain_ctx cx" and rank: "ranks rank (cx_vars cx)" and v: "is_free cx v"
  defines "safe y \<equiv> \<not> reaches cx {y} v"
  defines "seen_ok S s \<equiv> releveled cx (fst s) \<and> (\<forall>y \<in> snd s. y \<in> S \<or> safe y)"
  shows "ty_in cx t \<Longrightarrow> \<forall>w \<in> tvars t. rank w < n \<Longrightarrow> \<forall>y \<in> S. rank y < n \<longrightarrow> safe y \<Longrightarrow> seen_ok S s \<Longrightarrow>
    \<exists>hit s'. occurs_and_lower v to t s = Some (hit, s') \<and> releveled cx (fst s') \<and>
      (\<not> hit \<longrightarrow> \<not> reaches cx (tvars t) v \<and> seen_ok S s')"
proof (induction n arbitrary: t S s rule: less_induct)
  case (less n)
  have two: "\<exists>hit s'. (do { (hit, s) \<leftarrow> occurs_and_lower v to f s; if hit then Some (True, s) else occurs_and_lower v to a s }) = Some (hit, s') \<and>
      releveled cx (fst s') \<and> (\<not> hit \<longrightarrow> \<not> reaches cx (tvars f \<union> tvars a) v \<and> seen_ok S s')"
    if f: "\<And>s. seen_ok S s \<Longrightarrow> \<exists>hit s'. occurs_and_lower v to f s = Some (hit, s') \<and> releveled cx (fst s') \<and> (\<not> hit \<longrightarrow> \<not> reaches cx (tvars f) v \<and> seen_ok S s')"
      and a: "\<And>s. seen_ok S s \<Longrightarrow> \<exists>hit s'. occurs_and_lower v to a s = Some (hit, s') \<and> releveled cx (fst s') \<and> (\<not> hit \<longrightarrow> \<not> reaches cx (tvars a) v \<and> seen_ok S s')"
      and s: "seen_ok S s" for f a S s
  proof -
    from f [OF s] obtain hit s1 where 1: "occurs_and_lower v to f s = Some (hit, s1)" "releveled cx (fst s1)" "\<not> hit \<longrightarrow> \<not> reaches cx (tvars f) v \<and> seen_ok S s1" by blast
    show ?thesis
    proof (cases hit)
      case False
      with 1 a [of s1] obtain hit' s2 where 2: "occurs_and_lower v to a s1 = Some (hit', s2)" "releveled cx (fst s2)"
        "\<not> hit' \<longrightarrow> \<not> reaches cx (tvars a) v \<and> seen_ok S s2" by blast
      with 1 False show ?thesis by (auto simp: reaches_Un)
    qed (use 1 in auto)
  qed
  from less.prems show ?case
  proof (induction t arbitrary: s)
    case (SVar x)
    then have s: "releveled cx (fst s)" "\<forall>y \<in> snd s. y \<in> S \<or> safe y" by (simp_all add: seen_ok_def)
    then have same: "same_solutions cx (fst s)" by (simp add: releveled_def)
    note D = same_solutionsD [OF same]
    have len: "length (cx_vars (fst s)) = length (cx_vars cx)" by (rule releveled_length [OF s(1)])
    from SVar.prems(1) len have x: "x < length (cx_vars (fst s))" by simp
    from repr_spec [OF D(1) x] obtain w b where w: "repr (fst s) x = Some (w, b)" "w < length (cx_vars (fst s))"
      "case b of None \<Rightarrow> is_free (fst s) w | Some t \<Rightarrow> cx_vars (fst s) ! w = VBound t \<and> is_head (fst s) t \<and> (\<forall>x. t \<noteq> SVar x)" by blast
    have free: "is_free (fst s) u \<longleftrightarrow> is_free cx u" for u using same by (simp add: same_solutions_def)
    note r = repr_reaches [OF D(1) x w(1), of v, unfolded free releveled_deps [OF s(1)], OF v]
    have reach: "reaches cx {x} v \<longleftrightarrow> reaches cx {w} v"
      using r(1) unfolding reaches_def releveled_deps [OF s(1)] .
    have "rank b \<le> rank a" if "(a, b) \<in> (deps cx)\<^sup>*" for a b
      using that by (induction rule: rtrancl_induct) (use rank in \<open>fastforce simp: deps_def ranks_def\<close>)+
    with r(2) SVar.prems(2) have "rank w < n" by fastforce
    show ?case
    proof (cases b)
      case None
      with w free have "is_free cx w" by simp
      then have "reaches cx {w} v \<longleftrightarrow> w = v" by (rule reaches_free)
      moreover obtain cx' where cx': "lower_level w to (fst s) = Some cx'" "releveled (fst s) cx'"
        using lower_level_releveled [OF D(1) w(2)] by blast
      moreover have "releveled cx cx'" by (rule releveled_trans [OF s(1) cx'(2)])
      ultimately show ?thesis using w(1) None s(2) reach by (subst occurs_and_lower.simps) (simp add: seen_ok_def)
    next
      case (Some u)
      with w len s(1) have u: "cx_vars cx ! w = VBound u" "w < length (cx_vars cx)" by (auto simp: releveled_def)
      then have "w \<noteq> v" using v by (auto simp: is_free_def)
      with reaches_bound [OF u(2,1), of v] have wu: "reaches cx {w} v \<longleftrightarrow> reaches cx (tvars u) v" by simp
      show ?thesis
      proof (cases "w \<in> snd s")
        case True
        have "safe w" using s(2) True SVar.prems(3) \<open>rank w < n\<close> by blast
        with True w(1) Some \<open>w \<noteq> v\<close> SVar.prems(4) s(1) reach show ?thesis
          by (subst occurs_and_lower.simps) (auto simp: safe_def intro: exI [of _ False])
      next
        case False
        have "seen_ok (insert w (snd s)) (fst s, insert w (snd s))" using s by (simp add: seen_ok_def)
        moreover have "\<forall>y \<in> insert w (snd s). rank y < rank w \<longrightarrow> safe y" using s(2) SVar.prems(3) \<open>rank w < n\<close> by auto
        moreover have "\<forall>x \<in> tvars u. rank x < rank w" using rank u unfolding ranks_def by blast
        moreover have "ty_in cx u" by (rule link_in [OF plain_ctxD(1) [OF cx] u(2,1)])
        ultimately obtain hit s' where 1: "occurs_and_lower v to u (fst s, insert w (snd s)) = Some (hit, s')" "releveled cx (fst s')"
          "\<not> hit \<longrightarrow> \<not> reaches cx (tvars u) v \<and> seen_ok (insert w (snd s)) s'"
          using less.IH [OF \<open>rank w < n\<close>] by blast
        have "seen_ok S s'" if "\<not> hit" using 1 that s(2) wu by (auto simp: seen_ok_def safe_def)
        with 1 w(1) Some \<open>w \<noteq> v\<close> False reach wu show ?thesis by (subst occurs_and_lower.simps) simp
      qed
    qed
  next
    case (SApp f a)
    show ?case by (subst occurs_and_lower.simps) (use two [of S f a s] SApp in simp)
  next
    case (SArrow f a e)
    show ?case by (subst occurs_and_lower.simps) (use two [of S f a s] SArrow in simp)
  next
    case (STuple ts)
    have "\<exists>hit s'. any_state (occurs_and_lower v to) ts s = Some (hit, s') \<and> releveled cx (fst s') \<and>
        (\<not> hit \<longrightarrow> (\<forall>t \<in> set ts. \<not> reaches cx (tvars t) v) \<and> seen_ok S s')"
      by (rule any_state_total) (use STuple in \<open>auto simp: seen_ok_def\<close>)
    then show ?case by (subst occurs_and_lower.simps) (simp add: reaches_UN)
  next
    case (SRecord fs tail)
    have tail: "tail = RClosed" using SRecord.prems(1) plain_ctxD(2) [OF cx] by (cases tail) auto
    have "\<exists>hit s'. any_state (\<lambda>(_, t). occurs_and_lower v to t) fs s = Some (hit, s') \<and> releveled cx (fst s') \<and>
        (\<not> hit \<longrightarrow> (\<forall>p \<in> set fs. \<not> reaches cx (tvars (snd p)) v) \<and> seen_ok S s')"
    proof (rule any_state_total)
      show "seen_ok S s" "releveled cx (fst s)" using SRecord.prems(4) by (simp_all add: seen_ok_def)
      fix p and s :: occurs_state
      assume p: "p \<in> set fs" "seen_ok S s"
      obtain l t where [simp]: "p = (l, t)" by (cases p)
      from SRecord.prems(1,2) p(1) have "ty_in cx t" "\<forall>w \<in> tvars t. rank w < n" by auto
      from SRecord.IH [OF p(1) _ this SRecord.prems(3) p(2)]
      show "\<exists>hit s'. (case p of (_, t) \<Rightarrow> occurs_and_lower v to t) s = Some (hit, s') \<and> releveled cx (fst s') \<and>
          (\<not> hit \<longrightarrow> \<not> reaches cx (tvars (snd p)) v \<and> seen_ok S s')"
        by (simp add: snds.simps)
    qed
    then show ?case by (subst occurs_and_lower.simps) (simp add: tail reaches_UN split_def)
  qed (auto simp: occurs_and_lower.simps seen_ok_def)
qed

lemma all_of_total: "(\<And>x. x \<in> set xs \<Longrightarrow> \<exists>b. f x = Some b) \<Longrightarrow> \<exists>b. all_of f xs = Some b"
proof (induction xs)
  case (Cons x xs)
  then obtain b c where "f x = Some b" "all_of f xs = Some c" by fastforce
  then show ?case by (cases b) (auto intro: exI [of _ False])
qed (auto intro: exI [of _ True])

lemma shallow_weight:
  assumes cx: "plain_ctx cx" and W: "weighs W (cx_vars cx)" and t: "ty_in cx t" "plain_ty t"
  obtains t' where "resolve_shallow cx t = Some t'" "ty_in cx t'" "plain_ty t'" "weight W t' = weight W t"
proof -
  obtain rank where rank: "ranks rank (cx_vars cx)" using cx unfolding plain_ctx_def by blast
  have other: "resolve_shallow cx u = Some u" if "\<And>v. u \<noteq> SVar v" for u
    using that by (subst resolve_shallow.simps) (simp split: solve_ty.split)
  have "v < length (cx_vars cx) \<Longrightarrow> \<exists>t'. resolve_shallow cx (SVar v) = Some t' \<and> ty_in cx t' \<and> plain_ty t' \<and> weight W t' = W v" for v
  proof (induction "rank v" arbitrary: v rule: less_induct)
    case less
    show ?case
    proof (cases "cx_vars cx ! v")
      case (VFree c level)
      with less.prems show ?thesis by (subst resolve_shallow.simps) simp
    next
      case (VBound t)
      with less.prems have step: "resolve_shallow cx (SVar v) = resolve_shallow cx t" by (subst resolve_shallow.simps) simp
      have W': "W v = weight W t" using W less.prems VBound by (simp add: weighs_def)
      have t_in: "ty_in cx t" by (rule link_in [OF plain_ctxD(1) [OF cx] less.prems VBound])
      show ?thesis
      proof (cases "\<exists>x. t = SVar x")
        case True
        then obtain x where x: "t = SVar x" by blast
        have "rank x < rank v" using rank less.prems VBound x unfolding ranks_def by simp
        from less.hyps [OF this] t_in x W' show ?thesis unfolding step by simp
      next
        case False
        with other [of t] t_in W' plain_ctxD(4) [OF cx less.prems VBound] show ?thesis unfolding step by simp
      qed
    qed
  qed
  then show ?thesis
  proof (cases "\<exists>v. t = SVar v")
    case False
    with other [of t] t that show ?thesis by blast
  qed (use t that in fastforce)
qed

lemma plain_weights:
  assumes "plain_ctx cx"
  obtains W where "weighs W (cx_vars cx)"
proof -
  from assms obtain rank where "ranks rank (cx_vars cx)" unfolding plain_ctx_def by blast
  then show ?thesis using that tvars_in link_in [OF plain_ctxD(1) [OF assms]] by (elim weights_exist) blast+
qed

lemma comparable_total:
  assumes cx: "plain_ctx cx" and W: "weighs W (cx_vars cx)"
  shows "ty_in cx t \<Longrightarrow> plain_ty t \<Longrightarrow> \<exists>b. is_comparable cx t = Some b"
proof (induction "weight W t" arbitrary: t rule: less_induct)
  case less
  obtain t' where t': "resolve_shallow cx t = Some t'" "ty_in cx t'" "plain_ty t'" "weight W t' = weight W t"
    using shallow_weight [OF cx W less.prems] by metis
  note IH = less.hyps [folded t'(4)]
  show ?case
  proof (cases t')
    case (SApp f a)
    with t' IH [of f] IH [of a] obtain b c where "is_comparable cx f = Some b" "is_comparable cx a = Some c" by auto
    with t'(1) SApp show ?thesis by (subst is_comparable.simps) (cases b; auto intro: exI [of _ False])
  next
    case (STuple ts)
    have "\<exists>b. is_comparable cx u = Some b" if "u \<in> set ts" for u
      using IH [of u] t'(2,3) STuple that member_le_sum_list [of "weight W u" "map (weight W) ts"] by simp
    with t'(1) STuple show ?thesis by (subst is_comparable.simps) (simp add: all_of_total)
  next
    case (SRecord fs tail)
    have tail: "tail = RClosed" using t'(2) SRecord plain_ctxD(2) [OF cx] by (cases tail) auto
    have "\<exists>b. (case p of (_, t) \<Rightarrow> is_comparable cx t) = Some b" if "p \<in> set fs" for p
      using IH [of "snd p"] t'(2,3) SRecord that member_le_sum_list [of "weight W (snd p)" "map (\<lambda>(l, t). weight W t) fs"]
      by (cases p) force
    with t'(1) SRecord show ?thesis by (subst is_comparable.simps) (simp add: all_of_total tail)
  qed (use t' in \<open>auto simp: is_comparable.simps\<close>)
qed

lemma satisfies_total:
  assumes cx: "plain_ctx cx" and t: "ty_in cx t" "plain_ty t"
  obtains b where "satisfies_constraint cx c t = Some b"
proof -
  obtain W where W: "weighs W (cx_vars cx)" by (rule plain_weights [OF cx])
  obtain t' where t': "resolve_shallow cx t = Some t'" "ty_in cx t'" "plain_ty t'"
    using shallow_weight [OF cx W t] by metis
  then obtain b where "is_comparable cx t' = Some b" using comparable_total [OF cx W] by blast
  with t'(1) that show ?thesis by (cases c) (auto simp: satisfies_constraint_def)
qed

lemma merge_refines:
  assumes cx: "plain_ctx cx" and w: "is_free cx w"
  obtains cx' where "merge_constraint w c cx = Some cx'" "refines cx cx'" "free_vars cx' = free_vars cx" "deps cx' = deps cx"
proof -
  from w obtain e l where e: "cx_vars cx ! w = VFree e l" "w < length (cx_vars cx)" by (auto simp: is_free_def)
  define s where "s = VFree (Some (stronger_constraint e c)) l"
  let ?cx = "cx\<lparr>cx_vars := (cx_vars cx)[w := s]\<rparr>"
  have run: "merge_constraint w c cx = Some ?cx" using e by (simp add: merge_constraint_def s_def)
  note new = update_free [OF plain_ctxD(1) [OF cx] w, of s]
  have same: "cx_vars ?cx ! u = VBound t \<longleftrightarrow> cx_vars cx ! u = VBound t" for u t
    using e by (cases "u = w") (simp_all add: s_def)
  have free: "free_vars ?cx = free_vars cx"
    using e by (auto simp: free_vars_def is_free_def s_def nth_list_update)
  have "ranks rank (cx_vars ?cx) = ranks rank (cx_vars cx)" for rank unfolding ranks_def same by simp
  moreover have W: "weighs W (cx_vars ?cx) = weighs W (cx_vars cx)" for W unfolding weighs_def same by simp
  ultimately have "plain_ctx ?cx" using cx new(1) unfolding plain_ctx_def same by (simp add: s_def)
  moreover have "solves_ctx False \<theta> cx" if *: "solves_ctx False \<theta> ?cx" for \<theta>
  proof -
    have "var_holds False \<theta> (as_ty \<theta> u) (cx_vars cx ! u)" if u: "u < length (cx_vars cx)" for u
      using * u e unfolding solves_ctx_def by (cases "u = w") (auto simp: var_holds_def)
    with * show ?thesis unfolding solves_ctx_def by simp
  qed
  ultimately have "refines cx ?cx" using free W new(2) unfolding refines_def by (simp add: s_def)
  moreover have "deps ?cx = deps cx" unfolding deps_def same by simp
  ultimately show ?thesis using that [OF run] free by blast
qed

lemma finite_tvars [simp]: "finite (tvars t)"
  by (induction t) (auto simp: split_def snds.simps)

lemma update_refines:
  assumes cx: "plain_ctx cx" and v: "is_free cx v" and t: "ty_in cx t" "plain_ty t" "is_head cx t" "t \<noteq> SVar v"
    and apart: "\<not> reaches cx (tvars t) v"
  defines "cx' \<equiv> cx\<lparr>cx_vars := (cx_vars cx)[v := VBound t]\<rparr>"
  shows "refines cx cx'" "v \<notin> free_vars cx'" "solves_ctx False \<theta> cx' \<Longrightarrow> denotes False \<theta> t (as_ty \<theta> v)"
proof -
  from v have v': "v < length (cx_vars cx)" by (simp add: is_free_def)
  have at: "cx_vars cx' ! u = (if u = v then VBound t else cx_vars cx ! u)" if "u < length (cx_vars cx)" for u
    using that by (simp add: cx'_def nth_list_update)
  have len: "length (cx_vars cx') = length (cx_vars cx)" by (simp add: cx'_def)
  note new = update_free [OF plain_ctxD(1) [OF cx] v, of "VBound t", folded cx'_def]
  show gone: "v \<notin> free_vars cx'" using v' at [OF v'] by (simp add: free_vars_def is_free_def)
  show "denotes False \<theta> t (as_ty \<theta> v)" if "solves_ctx False \<theta> cx'"
    using solves_bound [OF that] at [OF v'] v' len by simp
  obtain rank where rank: "ranks rank (cx_vars cx)" using cx unfolding plain_ctx_def by blast
  define K where "K = Suc (Max (rank ` tvars t))"
  have K: "rank w < K" if "w \<in> tvars t" for w using that by (simp add: K_def less_Suc_eq_le)
  define rank' where "rank' u = (if reaches cx (tvars t) u then rank u else rank u + K)" for u
  have "ranks rank' (cx_vars cx')"
    unfolding ranks_def len
  proof (intro allI impI)
    fix u s w
    assume u: "u < length (cx_vars cx)" "cx_vars cx' ! u = VBound s" "w \<in> tvars s"
    show "rank' w < rank' u"
    proof (cases "u = v")
      case True
      with u at have "w \<in> tvars t" by simp
      then have "reaches cx (tvars t) w" "rank w < K" using K by (auto simp: reaches_def)
      with apart True show ?thesis by (simp add: rank'_def)
    next
      case False
      with u at have s: "cx_vars cx ! u = VBound s" by simp
      with rank u have "rank w < rank u" unfolding ranks_def by blast
      moreover have "reaches cx (tvars t) w" if "reaches cx (tvars t) u"
        using that u s unfolding reaches_def by (auto simp: deps_def intro: rtrancl_into_rtrancl)
      ultimately show ?thesis by (auto simp: rank'_def)
    qed
  qed
  moreover have "plain_ty s" if "u < length (cx_vars cx')" "cx_vars cx' ! u = VBound s" for u s
    using that at [of u] len t(2) plain_ctxD(4) [OF cx, of u s] by (auto split: if_splits)
  ultimately have "plain_ctx cx'" using new(1) t plain_ctxD [OF cx] unfolding plain_ctx_def by (auto simp: cx'_def)
  moreover have "free_vars cx' \<subseteq> free_vars cx"
    using at len by (auto simp: free_vars_def is_free_def split: if_splits)
  moreover have "free_vars cx' \<noteq> free_vars cx" using gone v by (auto simp: free_vars_def)
  moreover have "solves_ctx False \<theta> cx" if *: "solves_ctx False \<theta> cx'" for \<theta>
  proof -
    obtain c l where c: "cx_vars cx ! v = VFree c l" using v by (auto simp: is_free_def)
    have "var_holds False \<theta> (as_ty \<theta> u) (cx_vars cx ! u)" if u: "u < length (cx_vars cx)" for u
      using * u at [OF u] c len unfolding solves_ctx_def by (cases "u = v") (auto simp: var_holds_def)
    with * show ?thesis unfolding solves_ctx_def by (simp add: cx'_def)
  qed
  ultimately show "refines cx cx'" using new(2) t unfolding refines_def by simp
qed

text \<open>What a run of the solver on a plain context comes to: it returns, and success gives the condition.\<close>

definition settles :: "solving \<Rightarrow> infer_ctx \<Rightarrow> (assignment \<Rightarrow> bool) \<Rightarrow> bool" where
  "settles f cx Q \<longleftrightarrow>
     (\<exists>r cx'. f cx = Some (r, cx') \<and> refines cx cx' \<and> (r = UOk \<longrightarrow> (\<forall>\<theta>. solves_ctx False \<theta> cx' \<longrightarrow> Q \<theta>)))"

lemma bind_var_settles:
  assumes cx: "plain_ctx cx" and v: "is_free cx v" and t: "ty_in cx t" "plain_ty t" "is_head cx t" "t \<noteq> SVar v"
  shows "settles (bind_var v t) cx (\<lambda>\<theta>. denotes False \<theta> t (as_ty \<theta> v))"
proof -
  from v have v': "v < length (cx_vars cx)" by (simp add: is_free_def)
  then obtain to where to: "level_of cx v = Some to" by (simp add: level_of_def)
  obtain rank where rank: "ranks rank (cx_vars cx)" using cx unfolding plain_ctx_def by blast
  have "\<forall>w \<in> tvars t. rank w < Suc (Max (rank ` tvars t))" by (simp add: less_Suc_eq_le)
  from occurs_total [OF cx rank v t(1) this, of "{}" "(cx, {})" to]
  obtain hit cx1 seen where occ: "occurs_and_lower v to t (cx, {}) = Some (hit, (cx1, seen))" "releveled cx cx1"
    "\<not> hit \<longrightarrow> \<not> reaches cx (tvars t) v"
    using plain_ctxD(1) [OF cx] by (auto simp: releveled_def)
  note r1 = releveled_refines [OF cx occ(2)]
  show ?thesis
  proof (cases hit)
    case True
    with occ(1) to have "bind_var v t cx = Some (UOccurs, cx1)" by (simp add: bind_var_def)
    with r1(1) show ?thesis by (simp add: settles_def)
  next
    case False
    have heads: "is_head cx2 t" "is_free cx2 v" "ty_in cx2 t" "plain_ctx cx2" if "refines cx cx2" "free_vars cx2 = free_vars cx" for cx2
      using that v t ty_in_grown unfolding refines_def is_head_def free_vars_def by auto
    have bound: "settles (bind_var v t) cx (\<lambda>\<theta>. denotes False \<theta> t (as_ty \<theta> v))"
      if "bind_var v t cx = Some (UOk, cx2\<lparr>cx_vars := (cx_vars cx2)[v := VBound t]\<rparr>)" "refines cx cx2" "free_vars cx2 = free_vars cx"
        "deps cx2 = deps cx" for cx2
    proof -
      have "\<not> reaches cx2 (tvars t) v" using occ(3) False that(4) by (simp add: reaches_def)
      from update_refines [OF heads(4,2,3) [OF that(2,3)] t(2) heads(1) [OF that(2,3)] t(4) this] that(1) refines_trans [OF that(2)]
      show ?thesis unfolding settles_def by blast
    qed
    note deps1 = releveled_deps [OF occ(2)]
    note h1 = heads [OF r1]
    obtain c level where c: "cx_vars cx1 ! v = VFree c level" "v < length (cx_vars cx1)" using h1(2) by (auto simp: is_free_def)
    have head: "resolve_shallow cx1 t = Some t"
    proof -
      obtain t' where "resolve_shallow cx1 t = Some t'" "\<And>v. t = SVar v \<Longrightarrow> is_free cx1 v \<Longrightarrow> t' = t" "(\<And>v. t \<noteq> SVar v) \<Longrightarrow> t' = t"
        using resolve_shallow_spec [OF plain_ctxD(1) [OF h1(4)] h1(3)] by metis
      with h1(1) show ?thesis by (cases t) (auto simp: is_head_def)
    qed
    show ?thesis
    proof (cases c)
      case None
      with c occ(1) False to have "bind_var v t cx = Some (UOk, cx1\<lparr>cx_vars := (cx_vars cx1)[v := VBound t]\<rparr>)"
        by (simp add: bind_var_def constraint_of_def)
      then show ?thesis using r1 deps1 by (rule bound)
    next
      case (Some d)
      show ?thesis
      proof (cases "\<exists>w. t = SVar w")
        case True
        then obtain w where w: "t = SVar w" by blast
        with h1(1) t(4) have "is_free cx1 w" "w \<noteq> v" by (auto simp: is_head_def)
        obtain cx2 where m: "merge_constraint w d cx1 = Some cx2" "refines cx1 cx2" "free_vars cx2 = free_vars cx1" "deps cx2 = deps cx1"
          by (rule merge_refines [OF h1(4) \<open>is_free cx1 w\<close>])
        then have "bind_var v t cx = Some (UOk, cx2\<lparr>cx_vars := (cx_vars cx2)[v := VBound t]\<rparr>)"
          using c Some occ(1) False to head w \<open>w \<noteq> v\<close> by (simp add: bind_var_def constraint_of_def)
        then show ?thesis using refines_trans [OF r1(1) m(2)] r1(2) m(3,4) deps1 by (intro bound [of cx2]) simp_all
      next
        case False
        obtain good where good: "satisfies_constraint cx1 d t = Some good" by (rule satisfies_total [OF h1(4,3) t(2)])
        have run: "bind_var v t cx = (if good then Some (UOk, cx1\<lparr>cx_vars := (cx_vars cx1)[v := VBound t]\<rparr>) else Some (UBadConstraint, cx1))"
          using c Some occ(1) \<open>\<not> hit\<close> to head False good by (cases t) (simp_all add: bind_var_def constraint_of_def)
        show ?thesis
        proof (cases good)
          case True
          with run r1 deps1 show ?thesis by (intro bound [of cx1]) simp_all
        next
          case False
          with run r1(1) show ?thesis by (simp add: settles_def)
        qed
      qed
    qed
  qed
qed

section \<open>Unification\<close>

lemma effects_refine:
  assumes "plain_ctx cx" "wf_ctx cx'" "grown cx cx'" "cx_vars cx' = cx_vars cx" "cx_rows cx' = cx_rows cx"
    and "\<And>v. v < length (cx_effects cx) \<Longrightarrow> cx_effects cx' ! v = cx_effects cx ! v \<or> cx_effects cx ! v = EffFree"
  shows "refines cx cx'"
proof -
  have "solves_ctx False \<theta> cx" if "solves_ctx False \<theta> cx'" for \<theta>
  proof -
    have "eff_holds False \<theta> (as_eff \<theta> v) (cx_effects cx ! v)" if v: "v < length (cx_effects cx)" for v
    proof -
      have "eff_holds False \<theta> (as_eff \<theta> v) (cx_effects cx' ! v)"
        using \<open>solves_ctx False \<theta> cx'\<close> v assms(3) unfolding solves_ctx_def grown_def by auto
      with assms(6) [OF v] show ?thesis by (auto simp: eff_holds_def)
    qed
    with that assms(4,5) show ?thesis unfolding solves_ctx_def by simp
  qed
  moreover have "free_vars cx' = free_vars cx" using assms(4) by (simp add: free_vars_def is_free_def)
  moreover have "plain_ctx cx'" using assms unfolding plain_ctx_def grown_def by simp
  ultimately show ?thesis using assms(3,4) unfolding refines_def by simp
qed

lemma bind_effect_refines:
  assumes cx: "plain_ctx cx" and v: "v < length (cx_effects cx)" "cx_effects cx ! v = EffFree"
    and e: "eff_in cx e" "\<And>w. se_tail e = EOpen w \<Longrightarrow> v < w"
  obtains cx' where "bind_effect v e cx = Some (UOk, cx')" "refines cx cx'" "cx_effects cx' = (cx_effects cx)[v := EffBound e]"
    "\<And>\<theta>. solves_ctx False \<theta> cx' \<Longrightarrow> as_eff \<theta> v = set (se_atoms e) \<union> tail_effect \<theta> (se_tail e)"
proof (rule bind_effect_spec [OF plain_ctxD(1) [OF cx] v(1) e])
  fix cx'
  assume run: "bind_effect v e cx = Some (UOk, cx')" "wf_ctx cx'" "grown cx cx'" "cx_vars cx' = cx_vars cx" "cx_rows cx' = cx_rows cx"
    and eff: "cx_effects cx' = (cx_effects cx)[v := EffBound e]"
  have "refines cx cx'" by (rule effects_refine [OF cx run(2-5)]) (use v eff in \<open>auto simp: nth_list_update\<close>)
  moreover have "as_eff \<theta> v = set (se_atoms e) \<union> tail_effect \<theta> (se_tail e)" if "solves_ctx False \<theta> cx'" for \<theta>
    using that v eff unfolding solves_ctx_def by (auto simp: eff_holds_def eff_denotes_def)
  ultimately show thesis using that [OF run(1) _ eff] by blast
qed

lemma settles_here: "plain_ctx cx \<Longrightarrow> f cx = Some (r, cx) \<Longrightarrow> (r = UOk \<Longrightarrow> (\<And>\<theta>. solves_ctx False \<theta> cx \<Longrightarrow> Q \<theta>)) \<Longrightarrow> settles f cx Q"
  unfolding settles_def by (intro exI [of _ r] exI [of _ cx]) (auto intro: refines_refl)

lemma settles_cong: "f cx = f' cx \<Longrightarrow> settles f' cx Q \<Longrightarrow> settles f cx Q"
  by (simp add: settles_def)

lemma settles_mono:
  assumes "settles f cx Q" and "\<And>\<theta>. solves_ctx False \<theta> cx \<Longrightarrow> Q \<theta> \<Longrightarrow> R \<theta>"
  shows "settles f cx R"
proof -
  from assms(1) obtain r cx' where r: "f cx = Some (r, cx')" "refines cx cx'" "r = UOk \<longrightarrow> (\<forall>\<theta>. solves_ctx False \<theta> cx' \<longrightarrow> Q \<theta>)"
    unfolding settles_def by blast
  moreover have "solves_ctx False \<theta> cx" if "solves_ctx False \<theta> cx'" for \<theta> using r(2) that by (simp add: refines_def)
  ultimately show ?thesis using assms(2) unfolding settles_def by blast
qed

lemma settles_after:
  assumes "refines cx cx'" "f cx = g cx'" "settles g cx' Q"
  shows "settles f cx Q"
  using assms refines_trans unfolding settles_def by metis

lemma settles_then:
  assumes "settles f cx Q" "\<And>cx'. refines cx cx' \<Longrightarrow> settles g cx' R"
  shows "settles (\<lambda>cx. do { (r, cx) \<leftarrow> f cx; if r = UOk then g cx else Some (r, cx) }) cx (\<lambda>\<theta>. Q \<theta> \<and> R \<theta>)"
proof -
  from assms(1) obtain r cx1 where 1: "f cx = Some (r, cx1)" "refines cx cx1" "r = UOk \<longrightarrow> (\<forall>\<theta>. solves_ctx False \<theta> cx1 \<longrightarrow> Q \<theta>)"
    unfolding settles_def by blast
  show ?thesis
  proof (cases "r = UOk")
    case True
    from assms(2) [OF 1(2)] obtain r2 cx2 where 2: "g cx1 = Some (r2, cx2)" "refines cx1 cx2"
      "r2 = UOk \<longrightarrow> (\<forall>\<theta>. solves_ctx False \<theta> cx2 \<longrightarrow> R \<theta>)" unfolding settles_def by blast
    have "solves_ctx False \<theta> cx1" if "solves_ctx False \<theta> cx2" for \<theta> using 2(2) that by (simp add: refines_def)
    with 1 2 True refines_trans [OF 1(2) 2(2)] show ?thesis unfolding settles_def by simp
  qed (use 1 in \<open>simp add: settles_def\<close>)
qed

lemma unify_effects_settles:
  assumes cx: "plain_ctx cx" and e: "eff_in cx e1" "eff_in cx e2"
  shows "settles (unify_effects e1 e2) cx (\<lambda>\<theta>. \<exists>E. eff_denotes False \<theta> e1 E \<and> eff_denotes False \<theta> e2 E)"
proof -
  note wf = plain_ctxD(1) [OF cx]
  define val where "val \<theta> e = set (se_atoms e) \<union> tail_effect \<theta> (se_tail e)" for \<theta> e
  have val: "eff_denotes False \<theta> e E \<longleftrightarrow> E = val \<theta> e" for \<theta> e E by (simp add: eff_denotes_def val_def)
  obtain d1 where d1: "expand_effect cx e1 = Some d1" "eff_in cx d1" "\<And>v. se_tail d1 = EOpen v \<Longrightarrow> cx_effects cx ! v = EffFree"
      "\<And>\<theta>. solves_ctx False \<theta> cx \<Longrightarrow> val \<theta> d1 = val \<theta> e1"
    using expand_effect_spec [OF wf e(1)] val by metis
  obtain d2 where d2: "expand_effect cx e2 = Some d2" "eff_in cx d2" "\<And>v. se_tail d2 = EOpen v \<Longrightarrow> cx_effects cx ! v = EffFree"
      "\<And>\<theta>. solves_ctx False \<theta> cx \<Longrightarrow> val \<theta> d2 = val \<theta> e2"
    using expand_effect_spec [OF wf e(2)] val by metis
  define only1 where "only1 = filter (\<lambda>a. a \<notin> set (se_atoms d2)) (se_atoms d1)"
  define only2 where "only2 = filter (\<lambda>a. a \<notin> set (se_atoms d1)) (se_atoms d2)"
  have atoms: "set (se_atoms d1) \<union> set only2 = set (se_atoms d1) \<union> set (se_atoms d2)"
    "set (se_atoms d2) \<union> set only1 = set (se_atoms d1) \<union> set (se_atoms d2)"
    "only1 = [] \<Longrightarrow> set (se_atoms d1) \<subseteq> set (se_atoms d2)" "only2 = [] \<Longrightarrow> set (se_atoms d2) \<subseteq> set (se_atoms d1)"
    by (auto simp: only1_def only2_def filter_empty_conv)
  have run: "unify_effects e1 e2 cx =
      (case (se_tail d1, se_tail d2) of
           (EClosed, EClosed) \<Rightarrow> Some (if only1 = [] \<and> only2 = [] then UOk else UMismatch, cx)
         | (EClosed, EOpen v2) \<Rightarrow> if only2 \<noteq> [] then Some (UMismatch, cx) else bind_effect v2 (SolveEffect only1 EClosed) cx
         | (EOpen v1, EClosed) \<Rightarrow> if only1 \<noteq> [] then Some (UMismatch, cx) else bind_effect v1 (SolveEffect only2 EClosed) cx
         | (EOpen v1, EOpen v2) \<Rightarrow>
             if v1 = v2 then Some (if only1 = [] \<and> only2 = [] then UOk else UMismatch, cx)
             else do {
               let (fresh, cx) = fresh_effect cx;
               (r, cx) \<leftarrow> bind_effect v1 (SolveEffect only2 (EOpen fresh)) cx;
               if r = UOk then bind_effect v2 (SolveEffect only1 (EOpen fresh)) cx else Some (r, cx) })"
    unfolding unify_effects_def only1_def only2_def using plain_ctxD(3) [OF cx] d1(1) d2(1) by (simp add: Let_def split del: if_split)
  have "settles (unify_effects e1 e2) cx (\<lambda>\<theta>. val \<theta> d1 = val \<theta> d2)"
  proof (cases "se_tail d1")
    case EClosed
    note t1 = EClosed
    show ?thesis
    proof (cases "se_tail d2")
      case EClosed
      show ?thesis by (rule settles_here [where f = "unify_effects e1 e2", OF cx run [unfolded t1 EClosed, simplified]]) (use t1 EClosed atoms in \<open>auto simp: val_def split: if_splits\<close>)
    next
      case (EOpen v2)
      with d2(2) have v2: "v2 < length (cx_effects cx)" by (auto simp: eff_in_iff)
      obtain cx' where "bind_effect v2 (SolveEffect only1 EClosed) cx = Some (UOk, cx')" "refines cx cx'"
        "\<And>\<theta>. solves_ctx False \<theta> cx' \<Longrightarrow> as_eff \<theta> v2 = set only1"
        by (rule bind_effect_refines [OF cx v2 d2(3) [OF EOpen], of "SolveEffect only1 EClosed"]) auto
      then show ?thesis using run t1 EOpen atoms settles_here [OF cx]
        by (cases "only2 = []") (auto simp: settles_def val_def refines_refl [OF cx])
    qed
  next
    case (EOpen v1)
    note t1 = EOpen
    with d1(2) have v1: "v1 < length (cx_effects cx)" by (auto simp: eff_in_iff)
    show ?thesis
    proof (cases "se_tail d2")
      case EClosed
      obtain cx' where "bind_effect v1 (SolveEffect only2 EClosed) cx = Some (UOk, cx')" "refines cx cx'"
        "\<And>\<theta>. solves_ctx False \<theta> cx' \<Longrightarrow> as_eff \<theta> v1 = set only2"
        by (rule bind_effect_refines [OF cx v1 d1(3) [OF t1], of "SolveEffect only2 EClosed"]) auto
      then show ?thesis using run t1 EClosed atoms
        by (cases "only1 = []") (auto simp: settles_def val_def refines_refl [OF cx])
    next
      case (EOpen v2)
      with d2(2) have v2: "v2 < length (cx_effects cx)" by (auto simp: eff_in_iff)
      show ?thesis
      proof (cases "v1 = v2")
        case True
        show ?thesis by (rule settles_here [where f = "unify_effects e1 e2", OF cx run [unfolded t1 EOpen True, simplified]]) (use t1 EOpen True atoms in \<open>auto simp: val_def split: if_splits\<close>)
      next
        case False
        obtain f cx1 where fresh: "fresh_effect cx = (f, cx1)" by (cases "fresh_effect cx")
        note f = fresh_effect_spec(1-4) [OF wf fresh]
        have r1: "refines cx cx1"
          by (rule effects_refine [OF cx f(2,3)]) (use fresh in \<open>auto simp: fresh_effect_def nth_append\<close>)
        then have p1: "plain_ctx cx1" by (simp add: refines_def)
        obtain cx2 where cx2: "bind_effect v1 (SolveEffect only2 (EOpen f)) cx1 = Some (UOk, cx2)" "refines cx1 cx2"
            "cx_effects cx2 = (cx_effects cx1)[v1 := EffBound (SolveEffect only2 (EOpen f))]"
            "\<And>\<theta>. solves_ctx False \<theta> cx2 \<Longrightarrow> as_eff \<theta> v1 = set only2 \<union> as_eff \<theta> f"
          by (rule bind_effect_refines [OF p1, of v1 "SolveEffect only2 (EOpen f)"])
            (use v1 d1(3) [OF t1] f(1,4) in \<open>auto simp: nth_append\<close>)
        from cx2(2) have p2: "plain_ctx cx2" by (simp add: refines_def)
        obtain cx3 where cx3: "bind_effect v2 (SolveEffect only1 (EOpen f)) cx2 = Some (UOk, cx3)" "refines cx2 cx3"
            "\<And>\<theta>. solves_ctx False \<theta> cx3 \<Longrightarrow> as_eff \<theta> v2 = set only1 \<union> as_eff \<theta> f"
          by (rule bind_effect_refines [OF p2, of v2 "SolveEffect only1 (EOpen f)"])
            (use v2 d2(3) [OF EOpen] f(1,4) cx2(3) False in \<open>auto simp: nth_append\<close>)
        have "val \<theta> d1 = val \<theta> d2" if *: "solves_ctx False \<theta> cx3" for \<theta>
        proof -
          have "solves_ctx False \<theta> cx2" using cx3(2) * by (simp add: refines_def)
          from cx2(4) [OF this] cx3(3) [OF *] t1 EOpen atoms(1,2) show ?thesis by (auto simp: val_def)
        qed
        moreover have "unify_effects e1 e2 cx = Some (UOk, cx3)" unfolding run t1 EOpen using False fresh cx2(1) cx3(1) by simp
        ultimately show ?thesis using refines_trans [OF r1 refines_trans [OF cx2(2) cx3(2)]] unfolding settles_def by blast
      qed
    qed
  qed
  then show ?thesis by (rule settles_mono) (simp add: val d1(4) d2(4))
qed

text \<open>Two types have the same value.\<close>

definition same_value :: "assignment \<Rightarrow> solve_ty \<times> solve_ty \<Rightarrow> bool" where
  "same_value \<theta> p \<longleftrightarrow> (\<exists>g. denotes False \<theta> (fst p) g \<and> denotes False \<theta> (snd p) g)"

lemma unify_all_settles:
  assumes "plain_ctx cx" "\<And>p cx'. p \<in> set ps \<Longrightarrow> refines cx cx' \<Longrightarrow> settles (u p) cx' (\<lambda>\<theta>. same_value \<theta> p)"
  shows "settles (unify_all u ps) cx (\<lambda>\<theta>. \<forall>p \<in> set ps. same_value \<theta> p)"
  using assms
proof (induction ps arbitrary: cx)
  case Nil
  then show ?case by (intro settles_here [of _ _ UOk]) auto
next
  case (Cons p ps)
  have "settles (\<lambda>cx. do { (r, cx) \<leftarrow> u p cx; if r = UOk then unify_all u ps cx else Some (r, cx) }) cx
      (\<lambda>\<theta>. same_value \<theta> p \<and> (\<forall>p \<in> set ps. same_value \<theta> p))"
  proof (rule settles_then)
    show "settles (u p) cx (\<lambda>\<theta>. same_value \<theta> p)" using Cons.prems refines_refl by simp
    show "settles (unify_all u ps) cx' (\<lambda>\<theta>. \<forall>p \<in> set ps. same_value \<theta> p)" if "refines cx cx'" for cx'
    proof (rule Cons.IH)
      show "plain_ctx cx'" using that by (simp add: refines_def)
      show "settles (u p) cx'' (\<lambda>\<theta>. same_value \<theta> p)" if "p \<in> set ps" "refines cx' cx''" for p cx''
        using Cons.prems(2) that refines_trans [OF \<open>refines cx cx'\<close>] by simp
    qed
  qed
  then show ?case by simp
qed

lemma common_fieldsI:
  assumes "(l, x) \<in> set fs1" "(l, y) \<in> set fs2" "distinct (map fst fs2)"
  shows "(x, y) \<in> set (common_fields fs1 fs2)"
proof -
  have "List.find (\<lambda>(m, _). m = l) fs2 = Some (l, y)"
    using assms(2,3) by (induction fs2) (auto simp: image_iff)
  with assms(1) show ?thesis unfolding common_fields_def List.map_filter_def by (force simp: split_def)
qed

lemma records_same_value:
  assumes rows: "cx_rows cx = []"
    and a: "plain_ty (SRecord fs1 RClosed)" "ty_in cx (SRecord fs1 RClosed)"
    and b: "plain_ty (SRecord fs2 RClosed)" "ty_in cx (SRecord fs2 RClosed)"
    and labels: "fst ` set fs1 = fst ` set fs2" and common: "\<forall>p \<in> set (common_fields fs1 fs2). same_value \<theta> p"
  shows "same_value \<theta> (SRecord fs1 RClosed, SRecord fs2 RClosed)"
proof -
  obtain g where "denotes False \<theta> (SRecord fs1 RClosed) g" using plain_denotes [OF rows a] by blast
  then obtain m where m: "row_denotes False \<theta> fs1 RClosed m" by (auto simp: row_denotes_def)
  have "\<exists>h. fmlookup m (fst q) = Some h \<and> denotes False \<theta> (snd q) h" if q: "q \<in> set fs2" for q
  proof -
    from labels q obtain p where p: "p \<in> set fs1" "fst p = fst q" by (metis imageE image_eqI)
    have "(snd p, snd q) \<in> set (common_fields fs1 fs2)"
      by (rule common_fieldsI [of "fst q"]) (use p q b(1) in \<open>auto simp: prod_eq_iff\<close>, metis p(1,2) prod.collapse)
    with common obtain g where g: "denotes False \<theta> (snd p) g" "denotes False \<theta> (snd q) g" by (auto simp: same_value_def)
    from m p obtain h where h: "fmlookup m (fst q) = Some h" "denotes False \<theta> (snd p) h" unfolding row_denotes_iff by metis
    have "plain_ty (snd p)" using a(1) p(1) by (cases p) auto
    from denotes_unique [OF this g(1) h(2)] g h show ?thesis by blast
  qed
  moreover have "fmlookup m l = None" if "l \<notin> fst ` set fs2" for l
    using m that unfolding labels [symmetric] row_denotes_iff by simp
  ultimately have "row_denotes False \<theta> fs2 RClosed m" using b(1) unfolding row_denotes_iff by simp
  with m show ?thesis unfolding same_value_def row_denotes_def by auto
qed

lemma relate_rows_settles:
  assumes cx: "plain_ctx cx"
    and a: "plain_ty (SRecord fs1 tail1)" "ty_in cx (SRecord fs1 tail1)"
    and b: "plain_ty (SRecord fs2 tail2)" "ty_in cx (SRecord fs2 tail2)"
    and u: "\<And>p cx'. p \<in> set (common_fields fs1 fs2) \<Longrightarrow> refines cx cx' \<Longrightarrow> settles (u p) cx' (\<lambda>\<theta>. same_value \<theta> p)"
  shows "settles (relate_rows u (SolveRow fs1 tail1) (SolveRow fs2 tail2)) cx (\<lambda>\<theta>. same_value \<theta> (SRecord fs1 tail1, SRecord fs2 tail2))"
proof -
  have tails: "tail1 = RClosed" "tail2 = RClosed" using a(2) b(2) plain_ctxD(2) [OF cx] by (cases tail1; cases tail2; auto)+
  let ?same = "fst ` set fs1 = fst ` set fs2"
  have "settles (\<lambda>cx. do { (r, cx) \<leftarrow> unify_all u (common_fields fs1 fs2) cx;
      if r = UOk then reconcile_row_tails (fs1, RClosed) (fs2, RClosed) cx else Some (r, cx) }) cx
    (\<lambda>\<theta>. (\<forall>p \<in> set (common_fields fs1 fs2). same_value \<theta> p) \<and> ?same)"
  proof (rule settles_then [OF unify_all_settles [OF cx u]])
    fix cx'
    assume "refines cx cx'"
    then have p: "plain_ctx cx'" by (simp add: refines_def)
    have "fst ` set gs \<subseteq> fst ` set hs" if "only_in gs hs = []" for gs hs :: solve_fields
      using set_only_in [of gs hs] that by fastforce
    then have "only_in fs1 fs2 = [] \<Longrightarrow> only_in fs2 fs1 = [] \<Longrightarrow> ?same" by blast
    then show "settles (reconcile_row_tails (fs1, RClosed) (fs2, RClosed)) cx' (\<lambda>_. ?same)"
      by (intro settles_here [OF p, of _ "if only_in fs1 fs2 = [] \<and> only_in fs2 fs1 = [] then UOk else UMismatch"])
        (auto simp: reconcile_row_tails_def split: if_splits)
  qed
  then have "settles (relate_rows u (SolveRow fs1 tail1) (SolveRow fs2 tail2)) cx
    (\<lambda>\<theta>. (\<forall>p \<in> set (common_fields fs1 fs2). same_value \<theta> p) \<and> ?same)"
    by (rule settles_cong [rotated]) (simp add: relate_rows_def tails)
  then show ?thesis
    by (rule settles_mono) (use records_same_value [OF plain_ctxD(2) [OF cx]] a b in \<open>simp add: tails\<close>)
qed

lemma unify_heads_settles:
  assumes cx: "plain_ctx cx" and a: "ty_in cx a" "plain_ty a" and b: "ty_in cx b" "plain_ty b"
    and "\<And>v. a \<noteq> SVar v" "\<And>v. b \<noteq> SVar v"
    and u: "\<And>x y cx'. weight W x + weight W y < weight W a + weight W b \<Longrightarrow> refines cx cx' \<Longrightarrow> ty_in cx' x \<Longrightarrow> ty_in cx' y \<Longrightarrow>
      plain_ty x \<Longrightarrow> plain_ty y \<Longrightarrow> settles (u (x, y)) cx' (\<lambda>\<theta>. same_value \<theta> (x, y))"
  shows "settles (unify_heads u a b) cx (\<lambda>\<theta>. same_value \<theta> (a, b))"
proof -
  have fail: "settles (unify_heads u a b) cx (\<lambda>\<theta>. same_value \<theta> (a, b))" if "unify_heads u a b cx = Some (UMismatch, cx)"
    by (rule settles_here [where f = "unify_heads u a b", OF cx that]) simp
  have here: "settles (unify_heads u a b) cx (\<lambda>\<theta>. same_value \<theta> (a, b))"
    if "unify_heads u a b cx = Some (if a = b then UOk else UMismatch, cx)"
    by (rule settles_here [where f = "unify_heads u a b", OF cx that])
      (use plain_denotes [OF plain_ctxD(2) [OF cx] a(2,1)] in \<open>auto simp: same_value_def split: if_splits\<close>)
  have grow: "ty_in cx' t" if "refines cx cx'" "ty_in cx t" for cx' t using that ty_in_grown by (auto simp: refines_def)
  have plain: "plain_ctx cx'" if "refines cx cx'" for cx' using that by (simp add: refines_def)
  show ?thesis
  proof (cases a)
    case (SApp f1 a1)
    note A = this
    show ?thesis
    proof (cases b)
      case (SApp f2 a2)
      have "settles (\<lambda>cx. do { (r, cx) \<leftarrow> u (f1, f2) cx; if r = UOk then u (a1, a2) cx else Some (r, cx) }) cx
          (\<lambda>\<theta>. same_value \<theta> (f1, f2) \<and> same_value \<theta> (a1, a2))"
        by (intro settles_then u) (use a b A SApp grow refines_refl [OF cx] in auto)
      then have "settles (unify_heads u a b) cx (\<lambda>\<theta>. same_value \<theta> (f1, f2) \<and> same_value \<theta> (a1, a2))"
        by (rule settles_cong [rotated]) (simp add: unify_heads_def A SApp)
      then show ?thesis by (rule settles_mono) (auto simp: same_value_def A SApp)
    qed (rule fail, (use A assms(7) in \<open>auto simp: unify_heads_def\<close>)[1])+
  next
    case (SArrow f1 a1 e1)
    note A = this
    show ?thesis
    proof (cases b)
      case (SArrow f2 a2 e2)
      let ?eff = "\<lambda>\<theta>. \<exists>E. eff_denotes False \<theta> e1 E \<and> eff_denotes False \<theta> e2 E"
      have e: "settles (unify_effects e1 e2) cx' ?eff" if "refines cx cx'" for cx'
      proof (rule unify_effects_settles [OF plain [OF that]])
        have "grown cx cx'" using that by (simp add: refines_def)
        then show "eff_in cx' e1" "eff_in cx' e2" using a b A SArrow eff_in_grown by auto
      qed
      have "settles (\<lambda>cx. do { (r, cx) \<leftarrow> u (f1, f2) cx; if r = UOk then
            (\<lambda>cx. do { (r, cx) \<leftarrow> u (a1, a2) cx; if r = UOk then unify_effects e1 e2 cx else Some (r, cx) }) cx else Some (r, cx) }) cx
          (\<lambda>\<theta>. same_value \<theta> (f1, f2) \<and> same_value \<theta> (a1, a2) \<and> ?eff \<theta>)"
      proof (rule settles_then)
        show "settles (u (f1, f2)) cx (\<lambda>\<theta>. same_value \<theta> (f1, f2))" by (rule u [OF _ refines_refl [OF cx]]) (use a b A SArrow in auto)
        fix cx1
        assume r: "refines cx cx1"
        show "settles (\<lambda>cx. do { (r, cx) \<leftarrow> u (a1, a2) cx; if r = UOk then unify_effects e1 e2 cx else Some (r, cx) }) cx1
            (\<lambda>\<theta>. same_value \<theta> (a1, a2) \<and> ?eff \<theta>)"
          by (rule settles_then [OF u [OF _ r] e [OF refines_trans [OF r]]]) (use a b A SArrow grow [OF r] in auto)
      qed
      then have "settles (unify_heads u a b) cx (\<lambda>\<theta>. same_value \<theta> (f1, f2) \<and> same_value \<theta> (a1, a2) \<and> ?eff \<theta>)"
        by (rule settles_cong [rotated]) (simp add: unify_heads_def A SArrow)
      then show ?thesis by (rule settles_mono) (auto simp: same_value_def A SArrow)
    qed (rule fail, (use A assms(7) in \<open>auto simp: unify_heads_def\<close>)[1])+
  next
    case (STuple xs)
    note A = this
    show ?thesis
    proof (cases b)
      case (STuple ys)
      show ?thesis
      proof (cases "length xs = length ys")
        case True
        have "settles (unify_all u (zip xs ys)) cx (\<lambda>\<theta>. \<forall>p \<in> set (zip xs ys). same_value \<theta> p)"
        proof (rule unify_all_settles [OF cx])
          fix p cx'
          assume p: "p \<in> set (zip xs ys)" "refines cx cx'"
          obtain x y where xy: "p = (x, y)" "x \<in> set xs" "y \<in> set ys" using p(1) by (metis set_zip_leftD set_zip_rightD surj_pair)
          then have "weight W x \<le> sum_list (map (weight W) xs)" "weight W y \<le> sum_list (map (weight W) ys)"
            by (auto intro!: member_le_sum_list)
          then show "settles (u p) cx' (\<lambda>\<theta>. same_value \<theta> p)"
            unfolding xy(1) using a b A STuple xy p(2) grow by (intro u) auto
        qed
        then have "settles (unify_heads u a b) cx (\<lambda>\<theta>. \<forall>p \<in> set (zip xs ys). same_value \<theta> p)"
          by (rule settles_cong [rotated]) (simp add: unify_heads_def A STuple True)
        then show ?thesis
        proof (rule settles_mono)
          fix \<theta>
          assume "\<forall>p \<in> set (zip xs ys). same_value \<theta> p"
          then have "\<forall>i < length xs. \<exists>g. denotes False \<theta> (xs ! i) g \<and> denotes False \<theta> (ys ! i) g"
            using True by (auto simp: same_value_def set_zip)
          then obtain g where "\<forall>i < length xs. denotes False \<theta> (xs ! i) (g i) \<and> denotes False \<theta> (ys ! i) (g i)" by metis
          then have "list_all2 (denotes False \<theta>) xs (map g [0..<length xs])" "list_all2 (denotes False \<theta>) ys (map g [0..<length xs])"
            using True by (auto simp: list_all2_conv_all_nth)
          then show "same_value \<theta> (a, b)" by (auto simp: same_value_def A STuple)
        qed
      qed (rule fail, (use A STuple in \<open>auto simp: unify_heads_def\<close>)[1])
    qed (rule fail, (use A assms(7) in \<open>auto simp: unify_heads_def\<close>)[1])+
  next
    case (SRecord fs1 tail1)
    note A = this
    show ?thesis
    proof (cases b)
      case (SRecord fs2 tail2)
      have "settles (relate_rows u (SolveRow fs1 tail1) (SolveRow fs2 tail2)) cx (\<lambda>\<theta>. same_value \<theta> (a, b))"
        unfolding A SRecord
      proof (rule relate_rows_settles [OF cx])
        fix p cx'
        assume p: "p \<in> set (common_fields fs1 fs2)" "refines cx cx'"
        obtain x y where xy: "p = (x, y)" by (cases p)
        obtain l where l: "(l, x) \<in> set fs1" "(l, y) \<in> set fs2" using set_common_fields [OF p(1)] xy by auto
        then have "weight W x \<le> sum_list (map (\<lambda>(l, t). weight W t) fs1)" "weight W y \<le> sum_list (map (\<lambda>(l, t). weight W t) fs2)"
          by (force intro!: member_le_sum_list)+
        moreover have "ty_in cx x" "plain_ty x" "ty_in cx y" "plain_ty y" using a b A SRecord l by auto
        ultimately show "settles (u p) cx' (\<lambda>\<theta>. same_value \<theta> p)"
          unfolding xy using A SRecord p(2) grow by (intro u) auto
      qed (use a b A SRecord in auto)
      then show ?thesis by (rule settles_cong [rotated]) (simp add: unify_heads_def A SRecord)
    qed (rule fail, (use A assms(7) in \<open>auto simp: unify_heads_def\<close>)[1])+
  next
    case (SEffectArg e1)
    note A = this
    show ?thesis
    proof (cases b)
      case (SEffectArg e2)
      have "settles (unify_effects e1 e2) cx (\<lambda>\<theta>. \<exists>E. eff_denotes False \<theta> e1 E \<and> eff_denotes False \<theta> e2 E)"
        by (rule unify_effects_settles [OF cx]) (use a b A SEffectArg in auto)
      then have "settles (unify_heads u a b) cx (\<lambda>\<theta>. \<exists>E. eff_denotes False \<theta> e1 E \<and> eff_denotes False \<theta> e2 E)"
        by (rule settles_cong [rotated]) (simp add: unify_heads_def A SEffectArg)
      then show ?thesis by (rule settles_mono) (auto simp: same_value_def A SEffectArg)
    qed (rule fail, (use A assms(7) in \<open>auto simp: unify_heads_def\<close>)[1])+
  qed (rule here, (use a(2) assms(6) in \<open>auto simp: unify_heads_def split: solve_ty.split\<close>)[1])+
qed

lemma unify_settles:
  "plain_ctx cx \<Longrightarrow> weighs W (cx_vars cx) \<Longrightarrow> ty_in cx a \<Longrightarrow> ty_in cx b \<Longrightarrow> plain_ty a \<Longrightarrow> plain_ty b \<Longrightarrow>
   settles (unify a b) cx (\<lambda>\<theta>. same_value \<theta> (a, b))"
proof (induction "card (free_vars cx)" arbitrary: cx a b W rule: less_induct)
  case outer: less
  from outer.prems outer.hyps show ?case
  proof (induction "weight W a + weight W b" arbitrary: cx a b rule: less_induct)
    case less
    obtain a' cx1 where a': "resolve_compress a cx = Some (a', cx1)" "refines cx cx1" "free_vars cx1 = free_vars cx" "ty_in cx1 a'" "plain_ty a'" "is_head cx1 a'"
      "\<And>\<theta> g. solves_ctx False \<theta> cx \<Longrightarrow> denotes False \<theta> a g \<Longrightarrow> denotes False \<theta> a' g" "weighs W (cx_vars cx1) \<and> weight W a' = weight W a"
      using resolve_refines [OF less.prems(1,3,5)] less.prems(2) by metis
    have p1: "plain_ctx cx1" and g1: "grown cx cx1" using a'(2) by (simp_all add: refines_def)
    obtain b' cx2 where b': "resolve_compress b cx1 = Some (b', cx2)" "refines cx1 cx2" "free_vars cx2 = free_vars cx1" "ty_in cx2 b'" "plain_ty b'" "is_head cx2 b'"
      "\<And>\<theta> g. solves_ctx False \<theta> cx1 \<Longrightarrow> denotes False \<theta> b g \<Longrightarrow> denotes False \<theta> b' g" "weighs W (cx_vars cx2) \<and> weight W b' = weight W b"
      using resolve_refines [OF p1 ty_in_grown [OF g1 less.prems(4)] less.prems(6)] a'(8) by metis
    have p2: "plain_ctx cx2" and g2: "grown cx1 cx2" using b'(2) by (simp_all add: refines_def)
    have r2: "refines cx cx2" by (rule refines_trans [OF a'(2) b'(2)])
    have a2: "ty_in cx2 a'" by (rule ty_in_grown [OF g2 a'(4)])
    have h2: "is_head cx2 a'" using a'(6) b'(3) unfolding is_head_def free_vars_def by auto
    define body where "body = (\<lambda>cx. if a' = SError \<or> b' = SError then Some (UOk, cx)
        else case a' of
            SVar x \<Rightarrow> if b' = SVar x then Some (UOk, cx) else bind_var x b' cx
          | _ \<Rightarrow> (case b' of SVar y \<Rightarrow> bind_var y a' cx | _ \<Rightarrow> unify_heads (\<lambda>(x, y). unify x y) a' b' cx))"
    have run: "unify a b cx = body cx2" using a'(1) b'(1) by (subst unify_simps) (simp add: body_def)
    have "settles body cx2 (\<lambda>\<theta>. same_value \<theta> (a', b'))"
    proof (cases "\<exists>x. a' = SVar x")
      case True
      then obtain x where x: "a' = SVar x" by blast
      show ?thesis
      proof (cases "b' = a'")
        case True
        with x show ?thesis by (intro settles_here [OF p2, of _ UOk]) (auto simp: body_def same_value_def)
      next
        case False
        have "settles (bind_var x b') cx2 (\<lambda>\<theta>. denotes False \<theta> b' (as_ty \<theta> x))"
          by (rule bind_var_settles [OF p2 _ b'(4-6)]) (use x h2 False in \<open>auto simp: is_head_def\<close>)
        moreover have "body cx2 = bind_var x b' cx2" using x False b'(5) by (auto simp: body_def)
        ultimately have "settles body cx2 (\<lambda>\<theta>. denotes False \<theta> b' (as_ty \<theta> x))" using settles_cong by blast
        then show ?thesis by (rule settles_mono) (auto simp: same_value_def x)
      qed
    next
      case a: False
      show ?thesis
      proof (cases "\<exists>y. b' = SVar y")
        case True
        then obtain y where y: "b' = SVar y" by blast
        have "settles (bind_var y a') cx2 (\<lambda>\<theta>. denotes False \<theta> a' (as_ty \<theta> y))"
          by (rule bind_var_settles [OF p2 _ a2 a'(5) h2]) (use y b'(6) a in \<open>auto simp: is_head_def\<close>)
        moreover have "body cx2 = bind_var y a' cx2" using y a a'(5) by (cases a') (auto simp: body_def)
        ultimately have "settles body cx2 (\<lambda>\<theta>. denotes False \<theta> a' (as_ty \<theta> y))" using settles_cong by blast
        then show ?thesis by (rule settles_mono) (auto simp: same_value_def y)
      next
        case b: False
        have "settles (unify_heads (\<lambda>(x, y). unify x y) a' b') cx2 (\<lambda>\<theta>. same_value \<theta> (a', b'))"
        proof (rule unify_heads_settles [OF p2 a2 a'(5) b'(4,5), where W = W])
          fix x y cx'
          assume w: "weight W x + weight W y < weight W a' + weight W b'" and r: "refines cx2 cx'"
            and xy: "ty_in cx' x" "ty_in cx' y" "plain_ty x" "plain_ty y"
          from r have p: "plain_ctx cx'" and sub: "free_vars cx' \<subseteq> free_vars cx"
            using a'(3) b'(3) by (simp_all add: refines_def)
          have "settles (unify x y) cx' (\<lambda>\<theta>. same_value \<theta> (x, y))"
          proof (cases "free_vars cx' = free_vars cx")
            case True
            with r a'(3) b'(3,8) have W: "weighs W (cx_vars cx')" by (simp add: refines_def)
            show ?thesis by (rule less.hyps [OF _ p W xy]) (use w a'(8) b'(8) less.prems(7) True in auto)
          next
            case False
            with sub have "card (free_vars cx') < card (free_vars cx)" by (simp add: psubset_card_mono psubset_eq)
            moreover obtain W' where "weighs W' (cx_vars cx')" by (rule plain_weights [OF p])
            ultimately show ?thesis by (rule less.prems(7) [OF _ p _ xy])
          qed
          then show "settles ((\<lambda>(x, y). unify x y) (x, y)) cx' (\<lambda>\<theta>. same_value \<theta> (x, y))" by simp
        qed (use a b in auto)
        moreover have "body cx2 = unify_heads (\<lambda>(x, y). unify x y) a' b' cx2"
        proof -
          have "a' \<noteq> SError" "b' \<noteq> SError" using a'(5) b'(5) by auto
          with a b show ?thesis unfolding body_def by (simp split: solve_ty.split)
        qed
        ultimately show ?thesis using settles_cong by blast
      qed
    qed
    then have "settles body cx2 (\<lambda>\<theta>. same_value \<theta> (a, b))"
    proof (rule settles_mono)
      fix \<theta>
      assume "solves_ctx False \<theta> cx2" and "same_value \<theta> (a', b')"
      then obtain g where sol: "solves_ctx False \<theta> cx" "solves_ctx False \<theta> cx1" and g: "denotes False \<theta> a' g" "denotes False \<theta> b' g"
        using a'(2) b'(2) by (auto simp: same_value_def refines_def)
      note rows = plain_ctxD(2) [OF less.prems(1)]
      obtain ga gb where ab: "denotes False \<theta> a ga" "denotes False \<theta> b gb"
        using plain_denotes [OF rows less.prems(5,3)] plain_denotes [OF rows less.prems(6,4)] by blast
      from denotes_unique [OF a'(5) a'(7) [OF sol(1) ab(1)] g(1)] denotes_unique [OF b'(5) b'(7) [OF sol(2) ab(2)] g(2)] ab
      show "same_value \<theta> (a, b)" by (auto simp: same_value_def)
    qed
    then show ?case by (rule settles_after [where f = "unify a b" and g = body, OF r2 run])
  qed
qed

section \<open>Solutions of plain contexts\<close>

text \<open>A plain context has a solution: effects are defined from the newest variable on, types by rank.\<close>

lemma effects_solvable:
  assumes wf: "wf_ctx cx"
  obtains f where "\<And>v e. v < length (cx_effects cx) \<Longrightarrow> cx_effects cx ! v = EffBound e \<Longrightarrow>
    f v = set (se_atoms e) \<union> (case se_tail e of EClosed \<Rightarrow> {} | EOpen w \<Rightarrow> f w)"
proof -
  let ?n = "length (cx_effects cx)"
  let ?ok = "\<lambda>f v. \<forall>e. cx_effects cx ! v = EffBound e \<longrightarrow>
    f v = set (se_atoms e) \<union> (case se_tail e of EClosed \<Rightarrow> {} | EOpen w \<Rightarrow> f w)"
  have "\<exists>f. \<forall>v < ?n. ?n - n \<le> v \<longrightarrow> ?ok f v" for n
  proof (induction n)
    case (Suc n)
    then obtain f where f: "\<forall>v < ?n. ?n - n \<le> v \<longrightarrow> ?ok f v" by blast
    define u where "u = ?n - Suc n"
    define f' where "f' = f(u := (case cx_effects cx ! u of
      EffFree \<Rightarrow> {} | EffBound e \<Rightarrow> set (se_atoms e) \<union> (case se_tail e of EClosed \<Rightarrow> {} | EOpen w \<Rightarrow> f w)))"
    have "?ok f' v" if v: "v < ?n" "?n - Suc n \<le> v" for v
    proof (intro allI impI)
      fix e
      assume e: "cx_effects cx ! v = EffBound e"
      have "f' w = f w" if "se_tail e = EOpen w" for w
        using wf_eff(2) [OF wf v(1) e that] v(2) by (simp add: f'_def u_def)
      then show "f' v = set (se_atoms e) \<union> (case se_tail e of EClosed \<Rightarrow> {} | EOpen w \<Rightarrow> f' w)"
        using f v e by (cases "v = u") (auto simp: f'_def u_def split: eff_tail.split)
    qed
    then show ?case by blast
  qed simp
  from this [of ?n] that show ?thesis by auto
qed

lemma denotes_tvars:
  assumes "as_eff \<theta>' = as_eff \<theta>" "as_row \<theta>' = as_row \<theta>"
  shows "\<forall>v \<in> tvars t. as_ty \<theta>' v = as_ty \<theta> v \<Longrightarrow> denotes apart \<theta>' t g = denotes apart \<theta> t g"
proof (induction t arbitrary: g)
  case (STuple ts)
  have "list_all2 (denotes apart \<theta>') ts gs = list_all2 (denotes apart \<theta>) ts gs" for gs
    by (rule list.rel_cong) (use STuple in auto)
  then show ?case by simp
next
  case (SRecord fs tail)
  have "denotes apart \<theta>' (snd p) h = denotes apart \<theta> (snd p) h" if "p \<in> set fs" for p h
    using SRecord that by (cases p) (fastforce simp: snds.simps)
  moreover have "tail_row \<theta>' tail = tail_row \<theta> tail" using assms(2) by (cases tail) simp_all
  ultimately show ?case by simp
next
  case (SEffectArg e)
  have "tail_effect \<theta>' (se_tail e) = tail_effect \<theta> (se_tail e)" using assms(1) by (cases "se_tail e") simp_all
  then show ?case by (simp add: eff_denotes_def)
next
  case (SArrow f a e)
  have "tail_effect \<theta>' (se_tail e) = tail_effect \<theta> (se_tail e)" using assms(1) by (cases "se_tail e") simp_all
  with SArrow show ?case by (simp add: eff_denotes_def)
qed auto

lemma plain_solvable:
  assumes cx: "plain_ctx cx"
  obtains \<theta> where "solves_ctx False \<theta> cx"
proof -
  obtain rank where rank: "ranks rank (cx_vars cx)" using cx unfolding plain_ctx_def by blast
  obtain f where f: "\<And>v e. v < length (cx_effects cx) \<Longrightarrow> cx_effects cx ! v = EffBound e \<Longrightarrow>
    f v = set (se_atoms e) \<union> (case se_tail e of EClosed \<Rightarrow> {} | EOpen w \<Rightarrow> f w)"
    using effects_solvable [OF plain_ctxD(1) [OF cx]] by blast
  define th where "th G = \<lparr>as_ty = G, as_row = \<lambda>_. fmempty, as_eff = f\<rparr>" for G
  let ?ok = "\<lambda>G v. \<forall>t. cx_vars cx ! v = VBound t \<longrightarrow> denotes False (th G) t (G v)"
  have "\<exists>G. \<forall>v < length (cx_vars cx). rank v < n \<longrightarrow> ?ok G v" for n
  proof (induction n)
    case (Suc n)
    then obtain G where G: "\<forall>v < length (cx_vars cx). rank v < n \<longrightarrow> ?ok G v" by blast
    have "\<exists>g. v < length (cx_vars cx) \<longrightarrow> (\<forall>t. cx_vars cx ! v = VBound t \<longrightarrow> denotes False (th G) t g)" for v
      using plain_denotes [OF plain_ctxD(2) [OF cx] plain_ctxD(4) [OF cx, of v] link_in [OF plain_ctxD(1) [OF cx], of v]]
      by (cases "cx_vars cx ! v") auto
    then obtain h where h: "\<And>v t. v < length (cx_vars cx) \<Longrightarrow> cx_vars cx ! v = VBound t \<Longrightarrow> denotes False (th G) t (h v)" by metis
    define G' where "G' v = (if rank v = n then h v else G v)" for v
    have "denotes False (th G') t (G' v)" if v: "v < length (cx_vars cx)" "rank v < Suc n" "cx_vars cx ! v = VBound t" for v t
    proof -
      have "\<forall>w \<in> tvars t. as_ty (th G') w = as_ty (th G) w"
        using rank v unfolding ranks_def by (fastforce simp: th_def G'_def)
      from denotes_tvars [OF _ _ this] have "denotes False (th G') t g = denotes False (th G) t g" for g by (simp add: th_def)
      then show ?thesis using h [OF v(1,3)] G v by (auto simp: G'_def)
    qed
    then show ?case by blast
  qed simp
  from this [of "Suc (Max (rank ` {..<length (cx_vars cx)}))"] obtain G where
    G: "\<And>v. v < length (cx_vars cx) \<Longrightarrow> rank v < Suc (Max (rank ` {..<length (cx_vars cx)})) \<Longrightarrow> ?ok G v" by blast
  have "?ok G v" if "v < length (cx_vars cx)" for v by (rule G [OF that]) (use that in \<open>simp add: less_Suc_eq_le\<close>)
  then have "var_holds False (th G) (G v) (cx_vars cx ! v)" if "v < length (cx_vars cx)" for v
    using that by (simp add: var_holds_def split: var_state.split)
  moreover have "eff_holds False (th G) (f v) (cx_effects cx ! v)" if "v < length (cx_effects cx)" for v
    using f [OF that] by (auto simp: eff_holds_def eff_denotes_def th_def split: eff_state.split eff_tail.split)
  ultimately have "solves_ctx False (th G) cx" unfolding solves_ctx_def using plain_ctxD(2) [OF cx] by (simp add: th_def)
  then show ?thesis by (rule that)
qed

section \<open>Soundness\<close>



section \<open>Open records\<close>

text \<open>A record with a field \<open>x\<close> and an unknown rest, and a record that has this record as a field.\<close>

definition open_record :: "solve_ty \<times> infer_ctx" where
  "open_record = fresh_open_record [(str ''x'', SCon CInt)] InferCtx_new"

definition nested_record :: solve_ty where
  "nested_record = SRecord [(str ''x'', SCon CInt), (str ''y'', fst open_record)] RClosed"


text \<open>A record whose field \<open>a\<close> is a record with the same unknown rest, and one that gives the two rests different fields.\<close>

definition shared_row :: "solve_ty \<times> infer_ctx" where
  "shared_row = instantiate (Scheme_with_rows [0] [] (Scheme_new []
     (TRecord [(str ''a'', TRecord [(str ''b'', TCon CInt)] (RowOpen 0))] (RowOpen 0)))) InferCtx_new"

definition unlike_rows :: solve_ty where
  "unlike_rows = SRecord
     [(str ''a'', SRecord [(str ''b'', SCon CInt), (str ''c'', SCon CInt)] RClosed), (str ''c'', SCon CBool)] RClosed"


text \<open>A function that replaces a field \<open>a\<close> by a field \<open>b\<close>, at an argument that has a field \<open>b\<close> already.\<close>

definition replaces_field :: "solve_ty \<times> infer_ctx" where
  "replaces_field = instantiate (Scheme_with_rows [0] [] (Scheme_new []
     (Ty_arrow (TRecord [(str ''a'', TCon CInt)] (RowOpen 0)) (TRecord [(str ''b'', TCon CInt)] (RowOpen 0))))) InferCtx_new"

definition applied_to_both :: "solve_ty \<times> infer_ctx" where
  "applied_to_both = (let (result, cx) = fresh (snd replaces_field) in
     (SArrow (SRecord [(str ''a'', SCon CInt), (str ''b'', SCon CBool)] RClosed) result SolveEffect_pure, cx))"

text \<open>
  C34: A row variable of a scheme is told to lack the labels of the first record it is the tail of, and not
  those of the others: an instance can have a record with the same label twice.
\<close>

theorem label_twice:
  "\<exists>cx. unify (fst replaces_field) (fst applied_to_both) (snd applied_to_both) = Some (UOk, cx) \<and>
     reify cx (fst replaces_field) = Some
       (Ty_arrow (TRecord [(str ''a'', TCon CInt), (str ''b'', TCon CBool)] RowClosed)
          (TRecord [(str ''b'', TCon CInt), (str ''b'', TCon CBool)] RowClosed))"
proof (intro exI conjI)
  let ?cx = "\<lparr>cx_vars = [VBound (SRecord [(str ''b'', SCon CInt)] (ROpen 0))], cx_rows = [RowBound (SolveRow [(str ''b'', SCon CBool)] RClosed)],
    cx_effects = [], cx_origins = [], cx_ignore = False, cx_level = 0\<rparr>"
  show "unify (fst replaces_field) (fst applied_to_both) (snd applied_to_both) = Some (UOk, ?cx)" by code_simp
  show "reify ?cx (fst replaces_field) = Some
       (Ty_arrow (TRecord [(str ''a'', TCon CInt), (str ''b'', TCon CBool)] RowClosed)
          (TRecord [(str ''b'', TCon CInt), (str ''b'', TCon CBool)] RowClosed))" by code_simp
qed

end
