(* ===== verification/Fai_Resolver.thy ===== *)
theory Fai_Resolver
  imports Fai_Prelude "HOL-Library.Finite_Map" "HOL-Library.List_Lexorder" "HOL-Library.Product_Lexorder"
begin

text \<open>
  The dependency resolver of \<^verbatim>\<open>fai-package\<close> (\<^verbatim>\<open>resolver.rs\<close>, with \<^verbatim>\<open>PlatformPredicate::matches\<close> of
  \<^verbatim>\<open>platform.rs\<close>): a backtracking search for one source per package that satisfies every requirement of
  every selected package.

  A \<^verbatim>\<open>BTreeMap\<close> is a finite map that is traversed in key order (\<open>entries\<close>). Versions come from the crate
  \<^verbatim>\<open>semver\<close>: their type is a parameter \<open>'v\<close> with a linear order, the type of requirements a parameter
  \<open>'r\<close>, and whether a requirement matches a version and the text by which selectors are sorted are
  functions of the record \<open>semantics\<close>. The source provider is a function of its own state \<open>'p\<close>. Messages
  are constructors that carry what the text prints. The arithmetic underflow that \<^verbatim>\<open>has_cycle\<close> could run
  into is the result \<open>None\<close>, and \<open>Panicked\<close> in the search.
\<close>

section \<open>Packages\<close>

datatype git_package = GitPackage (gp_repository: utext) (gp_subdir: utext)

datatype package_key = GitKey git_package | PathKey utext

datatype package_source = GitSource git_package utext | PathSource utext

datatype 'r package_selector = SelVersion 'r | SelRevision utext | SelBranch utext | SelPath "'r option"

record requirement_origin =
  ro_manifest :: utext
  ro_field :: utext

record 'r package_requirement =
  pr_package :: package_key
  pr_selector :: "'r package_selector"
  pr_origin :: requirement_origin

record target_platform =
  tp_os :: utext
  tp_arch :: utext
  tp_environment :: utext

record platform_predicate =
  pp_os :: "utext option"
  pp_arch :: "utext option"
  pp_environment :: "utext option"

definition PlatformPredicate_matches :: "platform_predicate \<Rightarrow> target_platform \<Rightarrow> bool" where
  "PlatformPredicate_matches p t \<longleftrightarrow>
     (case pp_os p of None \<Rightarrow> True | Some os \<Rightarrow> os = tp_os t) \<and>
     (case pp_arch p of None \<Rightarrow> True | Some arch \<Rightarrow> arch = tp_arch t) \<and>
     (case pp_environment p of None \<Rightarrow> True | Some env \<Rightarrow> env = tp_environment t)"

record ('v, 'r) package_candidate =
  pc_source :: package_source
  pc_version :: 'v
  pc_released :: bool
  pc_compiler :: 'r
  pc_platforms :: "platform_predicate list"
  pc_dependencies :: "(utext, 'r package_requirement) fmap"
  pc_development :: "(utext, 'r package_requirement) fmap"
  pc_manifest_fingerprint :: utext
  pc_checksum :: "utext option"

record 'v package_pin =
  pin_source :: package_source
  pin_version :: 'v
  pin_released :: bool
  pin_branches :: "(utext, utext) fmap"

definition PackagePin_candidate :: "('v, 'r) package_candidate \<Rightarrow> 'v package_pin" where
  "PackagePin_candidate c =
     \<lparr>pin_source = pc_source c, pin_version = pc_version c, pin_released = pc_released c, pin_branches = fmempty\<rparr>"

definition PackagePin_matches :: "'v package_pin \<Rightarrow> ('v, 'r) package_candidate \<Rightarrow> bool" where
  "PackagePin_matches p c \<longleftrightarrow> pin_source p = pc_source c \<and> pin_version p = pc_version c"

record ('v, 'r) found_candidates =
  cs_candidates :: "('v, 'r) package_candidate list"
  cs_branches :: "(utext, utext) fmap"

section \<open>Order of keys and sources\<close>

text \<open>The derived orders: the variant first, then the fields.\<close>

fun key_rank :: "package_key \<Rightarrow> nat \<times> utext \<times> utext" where
  "key_rank (GitKey p) = (0, gp_repository p, gp_subdir p)"
| "key_rank (PathKey path) = (1, path, [])"

fun source_rank :: "package_source \<Rightarrow> nat \<times> utext \<times> utext \<times> utext" where
  "source_rank (GitSource p revision) = (0, gp_repository p, gp_subdir p, revision)"
| "source_rank (PathSource path) = (1, path, [], [])"

lemma key_rank_inj: "key_rank a = key_rank b \<Longrightarrow> a = b"
  by (cases a; cases b) (auto intro: git_package.expand)

lemma source_rank_inj: "source_rank a = source_rank b \<Longrightarrow> a = b"
  by (cases a; cases b) (auto intro: git_package.expand)

instantiation package_key :: linorder
begin

definition less_eq_package_key :: "package_key \<Rightarrow> package_key \<Rightarrow> bool" where
  "less_eq_package_key a b \<longleftrightarrow> key_rank a \<le> key_rank b"

definition less_package_key :: "package_key \<Rightarrow> package_key \<Rightarrow> bool" where
  "less_package_key a b \<longleftrightarrow> key_rank a < key_rank b"

instance
  by standard (auto simp: less_eq_package_key_def less_package_key_def intro: key_rank_inj)

end

instantiation package_source :: linorder
begin

definition less_eq_package_source :: "package_source \<Rightarrow> package_source \<Rightarrow> bool" where
  "less_eq_package_source a b \<longleftrightarrow> source_rank a \<le> source_rank b"

definition less_package_source :: "package_source \<Rightarrow> package_source \<Rightarrow> bool" where
  "less_package_source a b \<longleftrightarrow> source_rank a < source_rank b"

instance
  by standard (auto simp: less_eq_package_source_def less_package_source_def intro: source_rank_inj)

end

definition entries :: "('k :: linorder, 'a) fmap \<Rightarrow> ('k \<times> 'a) list" where
  "entries m = map (\<lambda>k. (k, the (fmlookup m k))) (sorted_list_of_fset (fmdom m))"

definition fm_values :: "('k :: linorder, 'a) fmap \<Rightarrow> 'a list" where
  "fm_values m = map snd (entries m)"

section \<open>Requests, results and errors\<close>

datatype resolution_policy = Conservative | UpdateAll | Update "package_key fset"

record ('v, 'r) resolution_request =
  rq_root :: package_key
  rq_candidate :: "('v, 'r) package_candidate"
  rq_compiler :: 'v
  rq_target :: target_platform
  rq_pins :: "(package_key, 'v package_pin) fmap"
  rq_overrides :: "(package_key, 'r package_requirement) fmap"
  rq_policy :: resolution_policy

record resolved_edge =
  ed_from :: "package_key option"
  ed_alias :: utext
  ed_to :: package_key

record ('v, 'r) resolved_graph =
  rg_root :: package_key
  rg_packages :: "(package_key, ('v, 'r) package_candidate) fmap"
  rg_edges :: "resolved_edge list"
  rg_branches :: "(package_key, (utext, utext) fmap) fmap"

datatype 'v conflict_message =
    DuplicateAlias utext
  | MultipleRootReplacements
  | NoCompatibleGraph
  | RootUnsupported
  | NotInGraph package_key
  | TooManyDecisions
  | CannotUse package_key 'v package_source
  | DependencyCycle
  | NoSource package_key target_platform 'v

record ('v, 'r) resolution_conflict =
  rc_requirements :: "'r package_requirement list"
  rc_message :: "'v conflict_message"

record provider_failure =
  pf_code :: utext
  pf_message :: utext

datatype ('v, 'r) resolution_error =
    ConflictError "('v, 'r) resolution_conflict"
  | ProviderError provider_failure
  | Panicked

definition SOURCE_UNAVAILABLE :: utext where
  "SOURCE_UNAVAILABLE = str ''FAI0811''"

text \<open>What the resolver takes from outside: the crate \<^verbatim>\<open>semver\<close> and the source provider.\<close>

record ('p, 'v, 'r) semantics =
  sem_matches :: "'r \<Rightarrow> 'v \<Rightarrow> bool"
  sem_debug :: "'r package_selector \<Rightarrow> utext"
  sem_provider :: "package_key \<Rightarrow> 'r package_selector list \<Rightarrow> 'v package_pin option \<Rightarrow> bool \<Rightarrow>
    'p \<Rightarrow> (provider_failure + ('v, 'r) found_candidates) \<times> 'p"

section \<open>State\<close>

record ('p, 'v, 'r) resolver =
  rv_provider :: 'p
  rv_cache :: "(package_key, 'r package_selector list \<times> ('v, 'r) found_candidates) fmap"
  rv_conflict :: "('v, 'r) resolution_conflict"

text \<open>A step of the resolver: it may fail, and keeps its state when it does.\<close>

type_synonym ('p, 'v, 'r, 'a) step =
  "('p, 'v, 'r) resolver \<Rightarrow> (('v, 'r) resolution_error + 'a) \<times> ('p, 'v, 'r) resolver"

definition return :: "'a \<Rightarrow> ('p, 'v, 'r, 'a) step" where
  "return a s = (Inr a, s)"

definition throw :: "('v, 'r) resolution_error \<Rightarrow> ('p, 'v, 'r, 'a) step" where
  "throw e s = (Inl e, s)"

definition bind_step :: "('p, 'v, 'r, 'a) step \<Rightarrow> ('a \<Rightarrow> ('p, 'v, 'r, 'b) step) \<Rightarrow> ('p, 'v, 'r, 'b) step" where
  "bind_step m f s = (case m s of (Inl e, t) \<Rightarrow> (Inl e, t) | (Inr a, t) \<Rightarrow> f a t)"

definition set_conflict :: "('v, 'r) resolution_conflict \<Rightarrow> ('p, 'v, 'r, unit) step" where
  "set_conflict c s = (Inr (), s\<lparr>rv_conflict := c\<rparr>)"

fun try_each :: "('a \<Rightarrow> ('p, 'v, 'r, 'b option) step) \<Rightarrow> 'a list \<Rightarrow> ('p, 'v, 'r, 'b option) step" where
  "try_each f [] = return None"
| "try_each f (x # xs) = bind_step (f x) (\<lambda>r. case r of Some b \<Rightarrow> return (Some b) | None \<Rightarrow> try_each f xs)"

lemma bind_step_cong [fundef_cong]:
  "m s = m' s' \<Longrightarrow> (\<And>a t. m' s' = (Inr a, t) \<Longrightarrow> f a t = g a t) \<Longrightarrow> bind_step m f s = bind_step m' g s'"
  by (auto simp: bind_step_def split: sum.splits prod.splits)

lemma try_each_cong [fundef_cong]:
  assumes "xs = ys" "s = t" "\<And>x s. x \<in> set ys \<Longrightarrow> f x s = g x s"
  shows "try_each f xs s = try_each g ys t"
  unfolding assms(1,2) using assms(3)
  by (induction ys arbitrary: t) (auto simp: bind_step_def split: sum.splits prod.splits option.splits)

section \<open>Candidates\<close>

text \<open>The identity a requirement stands for: the root, where an override replaces it by the root itself.\<close>

definition resolver_key :: "('v, 'r) resolution_request \<Rightarrow> package_key option \<Rightarrow> package_key \<Rightarrow> package_key" where
  "resolver_key rq root_alias k = (if root_alias = Some k then rq_root rq else k)"

definition eligible :: "('p, 'v, 'r) semantics \<Rightarrow> ('v, 'r) resolution_request \<Rightarrow> ('v, 'r) package_candidate \<Rightarrow> bool" where
  "eligible sem rq c \<longleftrightarrow>
     sem_matches sem (pc_compiler c) (rq_compiler rq) \<and>
     (pc_platforms c = [] \<or> list_ex (\<lambda>p. PlatformPredicate_matches p (rq_target rq)) (pc_platforms c))"

definition push_requirement ::
  "package_key \<Rightarrow> 'r package_requirement \<Rightarrow> (package_key, 'r package_requirement list) fmap \<Rightarrow>
   (package_key, 'r package_requirement list) fmap" where
  "push_requirement k r m = fmupd k ((case fmlookup m k of None \<Rightarrow> [] | Some rs \<Rightarrow> rs) @ [r]) m"

definition requirements ::
  "('v, 'r) resolution_request \<Rightarrow> package_key option \<Rightarrow> (package_key, ('v, 'r) package_candidate) fmap \<Rightarrow>
   (package_key, 'r package_requirement list) fmap" where
  "requirements rq alias selected =
     fold (\<lambda>r. push_requirement (resolver_key rq alias (pr_package r)) r)
       (concat (map (\<lambda>c. fm_values (pc_dependencies c)) (fm_values selected)) @ fm_values (pc_development (rq_candidate rq)))
       fmempty"

fun insert_by :: "('a \<Rightarrow> 'a \<Rightarrow> bool) \<Rightarrow> 'a \<Rightarrow> 'a list \<Rightarrow> 'a list" where
  "insert_by le x [] = [x]"
| "insert_by le x (y # ys) = (if le x y then x # y # ys else y # insert_by le x ys)"

text \<open>Newest first, then by source.\<close>

definition newest_first :: "('v :: linorder, 'r) package_candidate list \<Rightarrow> ('v, 'r) package_candidate list" where
  "newest_first cs =
     foldr (insert_by (\<lambda>a b. pc_version b < pc_version a \<or> (pc_version a = pc_version b \<and> pc_source a \<le> pc_source b))) cs []"

fun same_source :: "package_key \<Rightarrow> package_source \<Rightarrow> bool" where
  "same_source (GitKey expected) (GitSource package _) \<longleftrightarrow> expected = package"
| "same_source (PathKey expected) (PathSource path) \<longleftrightarrow> expected = path"
| "same_source _ _ \<longleftrightarrow> False"

text \<open>Every candidate has the identity asked for, and one source carries one set of metadata.\<close>

fun consistent ::
  "package_key \<Rightarrow> ('v, 'r) package_candidate list \<Rightarrow> (package_source, ('v, 'r) package_candidate) fmap \<Rightarrow> bool" where
  "consistent actual [] sources \<longleftrightarrow> True"
| "consistent actual (c # cs) sources \<longleftrightarrow>
     same_source actual (pc_source c) \<and>
     (case fmlookup sources (pc_source c) of None \<Rightarrow> True | Some previous \<Rightarrow> previous = c) \<and>
     consistent actual cs (fmupd (pc_source c) c sources)"

definition wanted_selectors ::
  "('p, 'v, 'r) semantics \<Rightarrow> ('v, 'r) resolution_request \<Rightarrow> package_key \<Rightarrow> 'r package_requirement list \<Rightarrow> 'r package_selector list" where
  "wanted_selectors sem rq k rs =
     remdups_adj (sort_key (sem_debug sem)
       (case fmlookup (rq_overrides rq) k of
          Some replacement \<Rightarrow> [pr_selector replacement]
        | None \<Rightarrow> map pr_selector rs))"

definition actual_key :: "('v, 'r) resolution_request \<Rightarrow> package_key \<Rightarrow> package_key" where
  "actual_key rq k = (case fmlookup (rq_overrides rq) k of Some replacement \<Rightarrow> pr_package replacement | None \<Rightarrow> k)"

definition wants_refresh :: "('v, 'r) resolution_request \<Rightarrow> package_key \<Rightarrow> bool" where
  "wants_refresh rq k =
     (case rq_policy rq of Conservative \<Rightarrow> False | UpdateAll \<Rightarrow> True | Update targets \<Rightarrow> k |\<in>| targets)"

definition relevant_pin :: "('v, 'r) resolution_request \<Rightarrow> package_key \<Rightarrow> 'v package_pin option" where
  "relevant_pin rq k =
     (case fmlookup (rq_pins rq) k of
        Some pin \<Rightarrow> if same_source (actual_key rq k) (pin_source pin) then Some pin else None
      | None \<Rightarrow> None)"

definition inconsistent_source :: provider_failure where
  "inconsistent_source =
     \<lparr>pf_code = SOURCE_UNAVAILABLE,
      pf_message = str ''source provider returned inconsistent package identity or metadata''\<rparr>"

definition ask_provider ::
  "('p, 'v :: linorder, 'r) semantics \<Rightarrow> ('v, 'r) resolution_request \<Rightarrow> package_key \<Rightarrow> 'r package_selector list \<Rightarrow>
   ('p, 'v, 'r, ('v, 'r) found_candidates) step" where
  "ask_provider sem rq k selectors s =
     (case sem_provider sem (actual_key rq k) selectors (relevant_pin rq k) (wants_refresh rq k) (rv_provider s) of
        (Inl failure, p) \<Rightarrow> (Inl (ProviderError failure), s\<lparr>rv_provider := p\<rparr>)
      | (Inr found, p) \<Rightarrow>
          if \<not> consistent (actual_key rq k) (cs_candidates found) fmempty
          then (Inl (ProviderError inconsistent_source), s\<lparr>rv_provider := p\<rparr>)
          else
            let kept = found\<lparr>cs_candidates := remdups_adj (newest_first (filter (eligible sem rq) (cs_candidates found)))\<rparr>
            in (Inr kept, s\<lparr>rv_provider := p, rv_cache := fmupd k (selectors, kept) (rv_cache s)\<rparr>))"

definition candidate_set ::
  "('p, 'v :: linorder, 'r) semantics \<Rightarrow> ('v, 'r) resolution_request \<Rightarrow> package_key \<Rightarrow> 'r package_requirement list \<Rightarrow>
   ('p, 'v, 'r, ('v, 'r) found_candidates) step" where
  "candidate_set sem rq k rs s =
     (let selectors = wanted_selectors sem rq k rs
      in case fmlookup (rv_cache s) k of
           Some (previous, found) \<Rightarrow>
             if previous = selectors then (Inr found, s) else ask_provider sem rq k selectors s
         | None \<Rightarrow> ask_provider sem rq k selectors s)"

definition matches_selector ::
  "('p, 'v, 'r) semantics \<Rightarrow> ('v, 'r) package_candidate \<Rightarrow> 'r package_selector \<Rightarrow> (utext, utext) fmap \<Rightarrow> bool" where
  "matches_selector sem c sel branches =
     (case sel of
        SelVersion version \<Rightarrow> pc_released c \<and> sem_matches sem version (pc_version c)
      | SelPath version \<Rightarrow>
          (case pc_source c of PathSource _ \<Rightarrow> True | _ \<Rightarrow> False) \<and>
          (case version of None \<Rightarrow> True | Some version \<Rightarrow> sem_matches sem version (pc_version c))
      | SelRevision revision \<Rightarrow> (case pc_source c of GitSource _ selected \<Rightarrow> revision = selected | _ \<Rightarrow> False)
      | SelBranch branch \<Rightarrow> (case pc_source c of GitSource _ revision \<Rightarrow> fmlookup branches branch = Some revision | _ \<Rightarrow> False))"

definition satisfies ::
  "('p, 'v, 'r) semantics \<Rightarrow> ('v, 'r) resolution_request \<Rightarrow> ('v, 'r) package_candidate \<Rightarrow> 'r package_requirement \<Rightarrow>
   (utext, utext) fmap \<Rightarrow> bool" where
  "satisfies sem rq c r branches =
     (if pr_package r |\<in>| fmdom (rq_overrides rq) then
        (case pr_selector r of
           SelVersion version \<Rightarrow> sem_matches sem version (pc_version c)
         | SelPath (Some version) \<Rightarrow> sem_matches sem version (pc_version c)
         | _ \<Rightarrow> True)
      else matches_selector sem c (pr_selector r) branches)"

section \<open>Cycles\<close>

text \<open>
  \<^verbatim>\<open>has_cycle\<close> removes packages that nothing left depends on. \<open>None\<close> is the underflow of a count.
\<close>

type_synonym counts = "(package_key, nat) fmap"

definition dependency_keys :: "(package_key \<Rightarrow> package_key) \<Rightarrow> ('v, 'r) package_candidate \<Rightarrow> package_key list" where
  "dependency_keys key c = map (\<lambda>r. key (pr_package r)) (fm_values (pc_dependencies c))"

definition count_incoming :: "package_key \<Rightarrow> counts \<Rightarrow> counts" where
  "count_incoming k m = (case fmlookup m k of None \<Rightarrow> m | Some n \<Rightarrow> fmupd k (n + 1) m)"

fun discount :: "package_key list \<Rightarrow> counts \<Rightarrow> package_key list \<Rightarrow> (counts \<times> package_key list) option" where
  "discount [] m ready = Some (m, ready)"
| "discount (k # ks) m ready =
     (case fmlookup m k of
        None \<Rightarrow> discount ks m ready
      | Some 0 \<Rightarrow> None
      | Some (Suc n) \<Rightarrow> discount ks (fmupd k n m) (if n = 0 then k # ready else ready))"

definition total_count :: "counts \<Rightarrow> nat" where
  "total_count m = (\<Sum>k \<in> fset (fmdom m). the (fmlookup m k))"

lemma total_count_upd:
  assumes "fmlookup m k = Some (Suc n)"
  shows "total_count m = Suc (total_count (fmupd k n m))"
proof -
  have k: "k \<in> fset (fmdom m)" using assms by (simp add: fmdomI)
  have "total_count m = the (fmlookup m k) + (\<Sum>j \<in> fset (fmdom m) - {k}. the (fmlookup m j))"
    unfolding total_count_def using k by (simp add: sum.remove)
  moreover have "(\<Sum>j \<in> fset (fmdom m) - {k}. the (fmlookup (fmupd k n m) j)) = (\<Sum>j \<in> fset (fmdom m) - {k}. the (fmlookup m j))"
    by (rule sum.cong) auto
  then have "total_count (fmupd k n m) = n + (\<Sum>j \<in> fset (fmdom m) - {k}. the (fmlookup m j))"
    unfolding total_count_def using k by (simp add: sum.remove [of _ k] insert_absorb)
  ultimately show ?thesis using assms by simp
qed

lemma discount_measure:
  "discount ks m ready = Some (m', ready') \<Longrightarrow> total_count m' + length ready' \<le> total_count m + length ready"
proof (induction ks m ready rule: discount.induct)
  case (2 k ks m ready)
  show ?case
  proof (cases "fmlookup m k")
    case (Some n)
    with 2 show ?thesis by (cases n) (fastforce dest: total_count_upd split: if_splits)+
  qed (use 2 in simp)
qed simp

function kahn ::
  "(package_key \<Rightarrow> package_key) \<Rightarrow> (package_key, ('v, 'r) package_candidate) fmap \<Rightarrow> counts \<Rightarrow> package_key list \<Rightarrow> nat \<Rightarrow>
   nat option" where
  "kahn key packages m [] count = Some count"
| "kahn key packages m (current # ready) count =
     (case fmlookup packages current of
        None \<Rightarrow> None
      | Some c \<Rightarrow>
          (case discount (dependency_keys key c) m ready of
             None \<Rightarrow> None
           | Some (m', ready') \<Rightarrow> kahn key packages m' ready' (count + 1)))"
  by pat_completeness auto
termination
  by (relation "measure (\<lambda>(key, packages, m, ready, count). total_count m + length ready)") (auto dest: discount_measure)

definition has_cycle ::
  "(package_key, ('v, 'r) package_candidate) fmap \<Rightarrow> (package_key \<Rightarrow> package_key) \<Rightarrow> bool option" where
  "has_cycle packages key =
     (let incoming = fold count_incoming (concat (map (dependency_keys key) (fm_values packages))) (fmmap (\<lambda>_. 0) packages);
          ready = rev (map fst (filter (\<lambda>(k, n). n = 0) (entries incoming)))
      in map_option (\<lambda>count. count \<noteq> fcard (fmdom packages)) (kahn key packages incoming ready 0))"

section \<open>Search\<close>

text \<open>The first conflict among the selected packages, with the branch bindings it was found under.\<close>

definition usable ::
  "('p, 'v, 'r) semantics \<Rightarrow> ('v, 'r) resolution_request \<Rightarrow> (package_key, 'v package_pin) fmap \<Rightarrow> package_key \<Rightarrow>
   ('v, 'r) package_candidate \<Rightarrow> 'r package_requirement list \<Rightarrow> (utext, utext) fmap \<Rightarrow> bool" where
  "usable sem rq fixed k c rs branches \<longleftrightarrow>
     (case fmlookup fixed k of None \<Rightarrow> True | Some pin \<Rightarrow> PackagePin_matches pin c) \<and>
     list_all (\<lambda>r. satisfies sem rq c r branches) rs"

definition root_replacement_ok ::
  "('p, 'v, 'r) semantics \<Rightarrow> ('v, 'r) resolution_request \<Rightarrow> package_key option \<Rightarrow> ('v, 'r) package_candidate \<Rightarrow>
   (utext, utext) fmap \<Rightarrow> bool" where
  "root_replacement_ok sem rq alias c branches \<longleftrightarrow>
     (case Option.bind alias (fmlookup (rq_overrides rq)) of
        None \<Rightarrow> True
      | Some replacement \<Rightarrow> matches_selector sem c (pr_selector replacement) branches)"

definition required_of :: "(package_key, 'r package_requirement list) fmap \<Rightarrow> package_key \<Rightarrow> 'r package_requirement list" where
  "required_of required k = (case fmlookup required k of None \<Rightarrow> [] | Some rs \<Rightarrow> rs)"

fun check_selected ::
  "('p, 'v :: linorder, 'r) semantics \<Rightarrow> ('v, 'r) resolution_request \<Rightarrow> package_key option \<Rightarrow> (package_key, 'v package_pin) fmap \<Rightarrow>
   (package_key, 'r package_requirement list) fmap \<Rightarrow> (package_key \<times> ('v, 'r) package_candidate) list \<Rightarrow>
   ('p, 'v, 'r, bool) step" where
  "check_selected sem rq alias fixed required [] = return True"
| "check_selected sem rq alias fixed required ((k, c) # rest) =
     (let rs = required_of required k
      in bind_step
           (if k = rq_root rq then return fmempty
            else bind_step (candidate_set sem rq k rs) (\<lambda>found. return (cs_branches found)))
           (\<lambda>branches.
              if usable sem rq fixed k c rs branches \<and>
                 (k = rq_root rq \<longrightarrow> root_replacement_ok sem rq alias c branches)
              then check_selected sem rq alias fixed required rest
              else bind_step
                     (set_conflict \<lparr>rc_requirements = rs, rc_message = CannotUse k (pc_version c) (pc_source c)\<rparr>)
                     (\<lambda>_. return False)))"

definition choice_rank :: "('v, 'r) resolution_request \<Rightarrow> package_key option \<Rightarrow> package_key \<Rightarrow> nat" where
  "choice_rank rq alias k =
     (if list_ex (\<lambda>r. resolver_key rq alias (pr_package r) = k) (fm_values (pc_dependencies (rq_candidate rq))) then 0
      else if list_ex (\<lambda>r. resolver_key rq alias (pr_package r) = k) (fm_values (pc_development (rq_candidate rq))) then 1
      else 2)"

definition next_key ::
  "('v, 'r) resolution_request \<Rightarrow> package_key option \<Rightarrow> (package_key, 'r package_requirement list) fmap \<Rightarrow>
   (package_key, ('v, 'r) package_candidate) fmap \<Rightarrow> package_key option" where
  "next_key rq alias required selected =
     (case sort_key (\<lambda>k. (choice_rank rq alias k, k))
             (filter (\<lambda>k. k |\<notin>| fmdom selected) (sorted_list_of_fset (fmdom required))) of
        [] \<Rightarrow> None
      | k # _ \<Rightarrow> Some k)"

definition graph_edges ::
  "('v, 'r) resolution_request \<Rightarrow> package_key option \<Rightarrow> (package_key, ('v, 'r) package_candidate) fmap \<Rightarrow> resolved_edge list" where
  "graph_edges rq alias packages =
     concat (map (\<lambda>(k, c). map (\<lambda>(a, r). \<lparr>ed_from = Some k, ed_alias = a, ed_to = resolver_key rq alias (pr_package r)\<rparr>)
         (entries (pc_dependencies c))) (entries packages)) @
     map (\<lambda>(a, r). \<lparr>ed_from = None, ed_alias = a, ed_to = resolver_key rq alias (pr_package r)\<rparr>)
       (entries (pc_development (rq_candidate rq)))"

definition used_branches :: "'r package_selector list \<Rightarrow> (utext, utext) fmap \<Rightarrow> (utext, utext) fmap" where
  "used_branches requested branches =
     fmap_of_list (rev (List.map_filter (\<lambda>sel. case sel of
         SelBranch branch \<Rightarrow> map_option (\<lambda>revision. (branch, revision)) (fmlookup branches branch)
       | _ \<Rightarrow> None) requested))"

definition requested_branches ::
  "('v, 'r) resolution_request \<Rightarrow> (package_key, 'r package_selector list \<times> ('v, 'r) found_candidates) fmap \<Rightarrow> package_key \<Rightarrow>
   'r package_requirement list \<Rightarrow> (utext, utext) fmap" where
  "requested_branches rq cache k rs =
     (let requested = (case fmlookup (rq_overrides rq) k of Some replacement \<Rightarrow> [pr_selector replacement] | None \<Rightarrow> map pr_selector rs)
      in case fmlookup cache k of None \<Rightarrow> fmempty | Some (_, found) \<Rightarrow> used_branches requested (cs_branches found))"

definition graph_branches ::
  "('v, 'r) resolution_request \<Rightarrow> (package_key, 'r package_requirement list) fmap \<Rightarrow>
   (package_key, 'r package_selector list \<times> ('v, 'r) found_candidates) fmap \<Rightarrow> (package_key, (utext, utext) fmap) fmap" where
  "graph_branches rq required cache =
     fold (\<lambda>(k, rs) m. let used = requested_branches rq cache k rs in if used = fmempty then m else fmupd k used m)
       (entries required) fmempty"

definition build_graph ::
  "('v, 'r) resolution_request \<Rightarrow> package_key option \<Rightarrow> (package_key, ('v, 'r) package_candidate) fmap \<Rightarrow>
   ('p, 'v, 'r, ('v, 'r) resolved_graph) step" where
  "build_graph rq alias packages s =
     (Inr \<lparr>rg_root = rq_root rq, rg_packages = packages, rg_edges = graph_edges rq alias packages,
           rg_branches = graph_branches rq (requirements rq alias packages) (rv_cache s)\<rparr>, s)"

definition choosable ::
  "('p, 'v, 'r) semantics \<Rightarrow> ('v, 'r) resolution_request \<Rightarrow> (package_key, 'v package_pin) fmap \<Rightarrow> package_key \<Rightarrow>
   'r package_requirement list \<Rightarrow> (utext, utext) fmap \<Rightarrow> ('v, 'r) package_candidate \<Rightarrow> bool" where
  "choosable sem rq fixed k rs branches c \<longleftrightarrow>
     usable sem rq fixed k c rs branches \<and>
     (case fmlookup (rq_overrides rq) k of
        None \<Rightarrow> True
      | Some replacement \<Rightarrow> matches_selector sem c (pr_selector replacement) branches)"

function search ::
  "('p, 'v :: linorder, 'r) semantics \<Rightarrow> ('v, 'r) resolution_request \<Rightarrow> package_key option \<Rightarrow> package_key fset \<Rightarrow>
   (package_key, 'v package_pin) fmap \<Rightarrow> (package_key, ('v, 'r) package_candidate) fmap \<Rightarrow> nat \<Rightarrow>
   ('p, 'v, 'r, ('v, 'r) resolved_graph option) step" where
  "search sem rq alias targets fixed selected depth s =
     (if 256 < depth then throw (ConflictError \<lparr>rc_requirements = [], rc_message = TooManyDecisions\<rparr>) s
      else let required = requirements rq alias selected
      in bind_step (check_selected sem rq alias fixed required (entries selected)) (\<lambda>fine.
         if \<not> fine then return None
         else case has_cycle selected (resolver_key rq alias) of
             None \<Rightarrow> throw Panicked
           | Some True \<Rightarrow>
               bind_step (set_conflict \<lparr>rc_requirements = concat (fm_values required), rc_message = DependencyCycle\<rparr>)
                 (\<lambda>_. return None)
           | Some False \<Rightarrow>
               (case next_key rq alias required selected of
                  None \<Rightarrow>
                    if \<exists>k |\<in>| targets. k |\<notin>| fmdom selected then return None
                    else bind_step (build_graph rq alias selected) (\<lambda>g. return (Some g))
                | Some k \<Rightarrow>
                    bind_step (candidate_set sem rq k (required_of required k)) (\<lambda>found.
                      let choices = filter (choosable sem rq fixed k (required_of required k) (cs_branches found)) (cs_candidates found)
                      in if choices = []
                         then bind_step (set_conflict \<lparr>rc_requirements = concat (fm_values required),
                                  rc_message = NoSource k (rq_target rq) (rq_compiler rq)\<rparr>) (\<lambda>_. return None)
                         else try_each (\<lambda>c. search sem rq alias targets fixed (fmupd k c selected) (depth + 1)) choices))) s)"
  by pat_completeness auto
termination
  by (relation "measure (\<lambda>(sem, rq, alias, targets, fixed, selected, depth, s). 257 - depth)") auto

declare search.simps [simp del]

section \<open>Preferences\<close>

definition initial_selection ::
  "('v, 'r) resolution_request \<Rightarrow> (package_key, ('v, 'r) package_candidate) fmap" where
  "initial_selection rq = fmupd (rq_root rq) (rq_candidate rq) fmempty"

text \<open>Pins are kept one at a time, as long as a graph still exists.\<close>

fun retain_pins ::
  "('p, 'v :: linorder, 'r) semantics \<Rightarrow> ('v, 'r) resolution_request \<Rightarrow> package_key option \<Rightarrow> package_key fset \<Rightarrow>
   (package_key, 'v package_pin) fmap \<Rightarrow> (package_key \<times> 'v package_pin) list \<Rightarrow> (package_key, 'v package_pin) fmap \<Rightarrow>
   ('v, 'r) resolved_graph \<Rightarrow> ('p, 'v, 'r, ('v, 'r) resolved_graph) step" where
  "retain_pins sem rq alias targets fixed [] retained best = return best"
| "retain_pins sem rq alias targets fixed ((k, pin) # pins) retained best =
     (if k = rq_root rq \<or> k |\<in>| fmdom fixed then retain_pins sem rq alias targets fixed pins retained best
      else bind_step (search sem rq alias targets (fmupd k pin retained) (initial_selection rq) 0) (\<lambda>r.
        case r of
          Some graph \<Rightarrow> retain_pins sem rq alias targets fixed pins (fmupd k pin retained) graph
        | None \<Rightarrow> retain_pins sem rq alias targets fixed pins retained best))"

definition prefer_pins ::
  "('p, 'v :: linorder, 'r) semantics \<Rightarrow> ('v, 'r) resolution_request \<Rightarrow> package_key option \<Rightarrow> package_key fset \<Rightarrow>
   (package_key, 'v package_pin) fmap \<Rightarrow> ('p, 'v, 'r, ('v, 'r) resolved_graph option) step" where
  "prefer_pins sem rq alias targets fixed =
     (if rq_policy rq = UpdateAll then search sem rq alias targets fixed (initial_selection rq) 0
      else bind_step (search sem rq alias targets (fmdrop (rq_root rq) (rq_pins rq) ++\<^sub>f fixed) (initial_selection rq) 0) (\<lambda>r.
        case r of
          Some graph \<Rightarrow> return (Some graph)
        | None \<Rightarrow>
            bind_step (search sem rq alias targets fixed (initial_selection rq) 0) (\<lambda>r.
              case r of
                None \<Rightarrow> return None
              | Some best \<Rightarrow>
                  bind_step (retain_pins sem rq alias targets fixed (entries (rq_pins rq)) fixed best)
                    (\<lambda>g. return (Some g)))))"

text \<open>Each package to be updated gets the newest candidate with which a graph exists.\<close>

fun fix_newest ::
  "('p, 'v :: linorder, 'r) semantics \<Rightarrow> ('v, 'r) resolution_request \<Rightarrow> package_key option \<Rightarrow> package_key fset \<Rightarrow>
   (package_key, 'v package_pin) fmap \<Rightarrow> package_key \<Rightarrow> ('v, 'r) package_candidate list \<Rightarrow>
   ('p, 'v, 'r, (package_key, 'v package_pin) fmap option) step" where
  "fix_newest sem rq alias targets fixed k [] = return None"
| "fix_newest sem rq alias targets fixed k (c # cs) =
     bind_step (prefer_pins sem rq alias targets (fmupd k (PackagePin_candidate c) fixed)) (\<lambda>r.
       if (case r of Some graph \<Rightarrow> k |\<in>| fmdom (rg_packages graph) | None \<Rightarrow> False)
       then return (Some (fmupd k (PackagePin_candidate c) fixed))
       else fix_newest sem rq alias targets fixed k cs)"

fun fix_targets ::
  "('p, 'v :: linorder, 'r) semantics \<Rightarrow> ('v, 'r) resolution_request \<Rightarrow> package_key option \<Rightarrow> package_key fset \<Rightarrow>
   ('v, 'r) resolved_graph \<Rightarrow> package_key list \<Rightarrow> (package_key, 'v package_pin) fmap \<Rightarrow>
   ('p, 'v, 'r, (package_key, 'v package_pin) fmap) step" where
  "fix_targets sem rq alias targets initial [] fixed = return fixed"
| "fix_targets sem rq alias targets initial (k # ks) fixed =
     (if k |\<notin>| fmdom (rg_packages initial)
      then throw (ConflictError \<lparr>rc_requirements = [], rc_message = NotInGraph k\<rparr>)
      else if k = rq_root rq then fix_targets sem rq alias targets initial ks fixed
      else (\<lambda>s. bind_step
        (fix_newest sem rq alias targets fixed k
           (case fmlookup (rv_cache s) k of Some (_, found) \<Rightarrow> cs_candidates found | None \<Rightarrow> []))
        (\<lambda>r. case r of
           Some fixed \<Rightarrow> fix_targets sem rq alias targets initial ks fixed
         | None \<Rightarrow> (\<lambda>s. throw (ConflictError (rv_conflict s)) s)) s))"

definition or_conflict :: "'a option \<Rightarrow> ('p, 'v, 'r, 'a) step" where
  "or_conflict r s = (case r of Some a \<Rightarrow> (Inr a, s) | None \<Rightarrow> (Inl (ConflictError (rv_conflict s)), s))"

definition root_aliases :: "('v, 'r) resolution_request \<Rightarrow> package_key list" where
  "root_aliases rq =
     map fst (filter (\<lambda>(_, replacement).
         case (pr_package replacement, pc_source (rq_candidate rq)) of
           (PathKey path, PathSource root) \<Rightarrow> path = root
         | _ \<Rightarrow> False) (entries (rq_overrides rq)))"

definition policy_targets :: "('v, 'r) resolution_request \<Rightarrow> package_key fset" where
  "policy_targets rq = (case rq_policy rq of Update keys \<Rightarrow> keys | _ \<Rightarrow> {||})"

definition shared_aliases :: "('v, 'r) package_candidate \<Rightarrow> utext list" where
  "shared_aliases c = filter (\<lambda>a. a |\<in>| fmdom (pc_development c)) (sorted_list_of_fset (fmdom (pc_dependencies c)))"

definition root_alias :: "('v, 'r) resolution_request \<Rightarrow> package_key option" where
  "root_alias rq = (case root_aliases rq of [] \<Rightarrow> None | k # _ \<Rightarrow> Some k)"

definition start_state :: "'p \<Rightarrow> ('p, 'v, 'r) resolver" where
  "start_state p = \<lparr>rv_provider = p, rv_cache = fmempty, rv_conflict = \<lparr>rc_requirements = [], rc_message = NoCompatibleGraph\<rparr>\<rparr>"

definition resolve_graph ::
  "('p, 'v :: linorder, 'r) semantics \<Rightarrow> ('v, 'r) resolution_request \<Rightarrow> 'p \<Rightarrow>
   (('v, 'r) resolution_error + ('v, 'r) resolved_graph) \<times> ('p, 'v, 'r) resolver" where
  "resolve_graph sem rq p =
     (case shared_aliases (rq_candidate rq) of
        a # _ \<Rightarrow>
          throw (ConflictError
            \<lparr>rc_requirements = [the (fmlookup (pc_dependencies (rq_candidate rq)) a), the (fmlookup (pc_development (rq_candidate rq)) a)],
             rc_message = DuplicateAlias a\<rparr>)
      | [] \<Rightarrow>
          if 1 < length (root_aliases rq) then throw (ConflictError \<lparr>rc_requirements = [], rc_message = MultipleRootReplacements\<rparr>)
          else if \<not> eligible sem rq (rq_candidate rq)
          then throw (ConflictError \<lparr>rc_requirements = [], rc_message = RootUnsupported\<rparr>)
          else bind_step
            (case rq_policy rq of
               Update keys \<Rightarrow>
                 bind_step (bind_step (search sem rq (root_alias rq) (policy_targets rq) fmempty (initial_selection rq) 0) or_conflict) (\<lambda>initial.
                   fix_targets sem rq (root_alias rq) (policy_targets rq) initial (sorted_list_of_fset keys) fmempty)
             | _ \<Rightarrow> return fmempty)
            (\<lambda>fixed. bind_step (prefer_pins sem rq (root_alias rq) (policy_targets rq) fixed) or_conflict)) (start_state p)"

end
