(* ===== verification/Fai_Resolving.thy ===== *)
theory Fai_Resolving
  imports Fai_Resolver
begin

text \<open>
  What the resolver promises. Dependency cycles are found exactly. A graph it returns is a selection that
  contains the root and everything required, in which every requirement of every package is satisfied
  and dependencies form no cycle. When a selection exists, no conflict is reported, apart from the limit
  on the number of decisions.
\<close>

section \<open>Maps in key order\<close>

lemma set_entries: "(k, a) \<in> set (entries m) \<longleftrightarrow> fmlookup m k = Some a"
  by (auto simp: entries_def fmlookup_dom_iff)

lemma distinct_entries: "distinct (map fst (entries m))"
  by (simp add: entries_def comp_def sorted_list_of_fset.rep_eq)

lemma set_fm_values: "a \<in> set (fm_values m) \<longleftrightarrow> (\<exists>k. fmlookup m k = Some a)"
  unfolding fm_values_def by (force simp: set_entries [symmetric])

lemma fm_values_eq: "set (fm_values m) = {a. \<exists>k. fmlookup m k = Some a}"
  by (auto simp: set_fm_values)

section \<open>Cycles\<close>

definition depends :: "(package_key \<Rightarrow> package_key) \<Rightarrow> (package_key, ('v, 'r) package_candidate) fmap \<Rightarrow> package_key rel" where
  "depends key packages =
     {(a, b). \<exists>c. fmlookup packages a = Some c \<and> b \<in> set (dependency_keys key c) \<and> b |\<in>| fmdom packages}"

text \<open>The number of declared dependencies of the packages in a set on a package.\<close>

definition in_edges ::
  "(package_key \<Rightarrow> package_key) \<Rightarrow> (package_key, ('v, 'r) package_candidate) fmap \<Rightarrow> package_key set \<Rightarrow> package_key \<Rightarrow> nat" where
  "in_edges key packages A k = (\<Sum>a \<in> A. count_list (dependency_keys key (the (fmlookup packages a))) k)"

lemma count_list_0: "count_list xs x = 0 \<longleftrightarrow> x \<notin> set xs"
  by (induction xs) auto

lemma discount_spec:
  assumes "\<And>k n. fmlookup m k = Some n \<Longrightarrow> count_list ks k \<le> n"
    and "distinct ready" "\<And>k. k \<in> set ready \<Longrightarrow> fmlookup m k = Some 0"
  obtains m' ready' where "discount ks m ready = Some (m', ready')"
    "\<And>k. fmlookup m' k = map_option (\<lambda>n. n - count_list ks k) (fmlookup m k)"
    "distinct ready'" "set ready' = set ready \<union> {k \<in> set ks. fmlookup m' k = Some 0}"
  using assms
proof (induction ks m ready arbitrary: thesis rule: discount.induct)
  case (1 m ready)
  then show ?case by (simp add: option.map_ident)
next
  case (2 k ks m ready)
  show ?case
  proof (cases "fmlookup m k")
    case None
    then have le: "\<And>j n. fmlookup m j = Some n \<Longrightarrow> count_list ks j \<le> n" using 2(4) by (metis count_list.simps(2) option.distinct(1))
    obtain m' ready' where r: "discount ks m ready = Some (m', ready')"
      "\<And>j. fmlookup m' j = map_option (\<lambda>n. n - count_list ks j) (fmlookup m j)"
      "distinct ready'" "set ready' = set ready \<union> {j \<in> set ks. fmlookup m' j = Some 0}"
      using 2(1) [OF None _ le 2(5,6)] by blast
    show ?thesis by (rule 2(3) [of m' ready']) (use r None in \<open>auto split: if_splits\<close>)
  next
    case (Some n)
    from 2(4) [OF this] obtain n' where n: "n = Suc n'" by (cases n) auto
    have le: "\<And>j i. fmlookup (fmupd k n' m) j = Some i \<Longrightarrow> count_list ks j \<le> i"
      using 2(4) Some n by (fastforce split: if_splits)
    have k: "k \<notin> set ready" using 2(6) [of k] Some n by auto
    let ?ready = "if n' = 0 then k # ready else ready"
    have "distinct ?ready" "\<And>j. j \<in> set ?ready \<Longrightarrow> fmlookup (fmupd k n' m) j = Some 0"
      using 2(5,6) k by (auto split: if_splits)
    from 2(2) [OF Some n _ le this] obtain m' ready' where r: "discount ks (fmupd k n' m) ?ready = Some (m', ready')"
      "\<And>j. fmlookup m' j = map_option (\<lambda>i. i - count_list ks j) (fmlookup (fmupd k n' m) j)"
      "distinct ready'" "set ready' = set ?ready \<union> {j \<in> set ks. fmlookup m' j = Some 0}"
      by blast
    show ?thesis
    proof (rule 2(3) [of m' ready'])
      show "discount (k # ks) m ready = Some (m', ready')" using r(1) Some n by simp
      show "fmlookup m' j = map_option (\<lambda>i. i - count_list (k # ks) j) (fmlookup m j)" for j
        using r(2) Some n by auto
      have "k \<in> set ready'" if "fmlookup m' k = Some 0" using that r(2) [of k] r(4) count_list_0 [of ks k] by (cases "n' = 0") (auto split: if_splits)
      then show "set ready' = set ready \<union> {j \<in> set (k # ks). fmlookup m' j = Some 0}"
        using r(2,4) by (auto split: if_splits)
    qed (rule r(3))
  qed
qed

text \<open>
  The loop: the counts are the edges from the packages that are left, the packages that are ready are
  those left with no such edge, and what was taken is closed under dependents and acyclic.
\<close>

definition kahn_inv ::
  "(package_key \<Rightarrow> package_key) \<Rightarrow> (package_key, ('v, 'r) package_candidate) fmap \<Rightarrow> package_key set \<Rightarrow> counts \<Rightarrow> package_key list \<Rightarrow> bool" where
  "kahn_inv key packages taken m ready \<longleftrightarrow>
     (let left = fset (fmdom packages) - taken
      in taken \<subseteq> fset (fmdom packages) \<and> distinct ready \<and>
         (\<forall>k. fmlookup m k = (if k |\<in>| fmdom packages then Some (in_edges key packages left k) else None)) \<and>
         set ready = {k \<in> left. fmlookup m k = Some 0} \<and>
         (\<forall>(a, b) \<in> depends key packages. b \<in> taken \<longrightarrow> a \<in> taken) \<and>
         acyclic (depends key packages \<inter> taken \<times> taken))"

lemma in_edges_0:
  assumes "in_edges key packages A k = 0" "finite A" "A \<subseteq> fset (fmdom packages)" "(a, k) \<in> depends key packages"
  shows "a \<notin> A"
  using assms unfolding in_edges_def by (fastforce simp: depends_def count_list_0)

lemma in_edges_pos:
  assumes "in_edges key packages A k \<noteq> 0" "A \<subseteq> fset (fmdom packages)" "k |\<in>| fmdom packages"
  obtains a where "a \<in> A" "(a, k) \<in> depends key packages"
proof -
  from assms(1) obtain a where a: "a \<in> A" "count_list (dependency_keys key (the (fmlookup packages a))) k \<noteq> 0"
    unfolding in_edges_def by (meson sum.neutral)
  then have "a |\<in>| fmdom packages" using assms(2) by auto
  then obtain c where "fmlookup packages a = Some c" by (auto simp: fmlookup_dom_iff)
  with a assms(3) show thesis by (intro that [of a]) (auto simp: depends_def count_list_0)
qed

lemma acyclic_sink:
  assumes "acyclic (R \<inter> A \<times> A)" "\<And>b. (x, b) \<in> R \<Longrightarrow> b \<notin> insert x A"
  shows "acyclic (R \<inter> insert x A \<times> insert x A)"
proof -
  have "R \<inter> insert x A \<times> insert x A \<subseteq> (R \<inter> A \<times> A) \<union> A \<times> {x}" using assms(2) by blast
  moreover have "acyclic ((R \<inter> A \<times> A) \<union> A \<times> {x})" if "x \<notin> A"
  proof -
    have "(a, b) \<in> ((R \<inter> A \<times> A) \<union> A \<times> {x})\<^sup>+ \<Longrightarrow> b = x \<and> a \<in> A \<or> (a, b) \<in> (R \<inter> A \<times> A)\<^sup>+" for a b
      by (induction rule: trancl_induct) (use that in \<open>auto intro: trancl_into_trancl dest: tranclD\<close>)
    with assms(1) that show ?thesis by (auto simp: acyclic_def)
  qed
  ultimately show ?thesis using assms(1) by (cases "x \<in> A") (auto simp: insert_absorb intro: acyclic_subset)
qed

lemma kahn_step:
  assumes inv: "kahn_inv key packages taken m (current # ready)"
  obtains c m' ready' where "fmlookup packages current = Some c" "discount (dependency_keys key c) m ready = Some (m', ready')"
    "kahn_inv key packages (insert current taken) m' ready'" "current \<in> fset (fmdom packages) - taken"
proof -
  let ?left = "fset (fmdom packages) - taken" and ?left' = "fset (fmdom packages) - insert current taken"
  note parts = inv [unfolded kahn_inv_def Let_def]
  note sub = parts [THEN conjunct1] and parts1 = parts [THEN conjunct2]
  note dist = parts1 [THEN conjunct1] and parts2 = parts1 [THEN conjunct2]
  note ms = parts2 [THEN conjunct1] and parts3 = parts2 [THEN conjunct2]
  note rs = parts3 [THEN conjunct1] and parts4 = parts3 [THEN conjunct2]
  note cl = parts4 [THEN conjunct1] and acyc = parts4 [THEN conjunct2]
  note dom = sub dist [unfolded distinct.simps, THEN conjunct2] dist [unfolded distinct.simps, THEN conjunct1]
  note m = ms [THEN spec]
  note ready = rs [unfolded list.set]
  have closed: "\<And>a b. (a, b) \<in> depends key packages \<Longrightarrow> b \<in> taken \<Longrightarrow> a \<in> taken" using cl by blast
  from ready have cur: "current \<in> ?left" "fmlookup m current = Some 0" by auto
  then obtain c where c: "fmlookup packages current = Some c" by (auto simp: fmlookup_dom_iff)
  have sum: "in_edges key packages ?left k = count_list (dependency_keys key c) k + in_edges key packages ?left' k" for k
  proof -
    have "?left' = ?left - {current}" by auto
    then show ?thesis using cur(1) c by (simp add: in_edges_def sum.remove [of ?left current])
  qed
  have le: "\<And>k n. fmlookup m k = Some n \<Longrightarrow> count_list (dependency_keys key c) k \<le> n" using m sum by (auto split: if_splits)
  obtain m' ready' where r: "discount (dependency_keys key c) m ready = Some (m', ready')"
    "\<And>k. fmlookup m' k = map_option (\<lambda>n. n - count_list (dependency_keys key c) k) (fmlookup m k)"
    "distinct ready'" "set ready' = set ready \<union> {k \<in> set (dependency_keys key c). fmlookup m' k = Some 0}"
    by (rule discount_spec [OF le dom(2)]) (use ready in auto)
  have m': "fmlookup m' k = (if k |\<in>| fmdom packages then Some (in_edges key packages ?left' k) else None)" for k
    using r(2) [of k] m [of k] sum [of k] by simp
  have none: "in_edges key packages ?left current = 0" using cur m [of current] by simp
  have pred: "a \<in> taken" if "(a, current) \<in> depends key packages" for a
    using in_edges_0 [OF none _ _ that] that by (auto simp: depends_def fmlookup_dom_iff)
  have sink: "b \<notin> insert current taken" if "(current, b) \<in> depends key packages" for b
    using pred closed that cur(1) by blast
  have "kahn_inv key packages (insert current taken) m' ready'"
    unfolding kahn_inv_def Let_def
  proof (intro conjI allI)
    show "set ready' = {k \<in> ?left'. fmlookup m' k = Some 0}"
    proof (intro set_eqI iffI)
      fix k assume "k \<in> set ready'"
      then consider "k \<in> set ready" | "k \<in> set (dependency_keys key c)" "fmlookup m' k = Some 0" using r(4) by blast
      then show "k \<in> {k \<in> ?left'. fmlookup m' k = Some 0}"
      proof cases
        case 1
        with ready dom(3) have "k \<in> ?left'" "fmlookup m k = Some 0" by auto
        with r(2) show ?thesis by simp
      next
        case 2
        then have k: "k |\<in>| fmdom packages" using m' by (metis option.distinct(1))
        with 2 c have "(current, k) \<in> depends key packages" by (auto simp: depends_def)
        with sink k 2 show ?thesis by auto
      qed
    next
      fix k assume k: "k \<in> {k \<in> ?left'. fmlookup m' k = Some 0}"
      show "k \<in> set ready'"
      proof (cases "k \<in> set (dependency_keys key c)")
        case False
        then have "fmlookup m k = Some 0" using k r(2) [of k] by (cases "fmlookup m k") (auto simp: count_list_0)
        with k ready show ?thesis using r(4) by auto
      qed (use k r(4) in auto)
    qed
    show "\<forall>(a, b) \<in> depends key packages. b \<in> insert current taken \<longrightarrow> a \<in> insert current taken" using pred closed by auto
    show "acyclic (depends key packages \<inter> insert current taken \<times> insert current taken)" using acyc sink by (rule acyclic_sink)
  qed (use dom(1) cur(1) r(3) m' in auto)
  with c r(1) cur(1) show thesis by (intro that)
qed

lemma kahn_spec:
  assumes "kahn_inv key packages taken m ready" "count = card taken"
  obtains taken' m' where "kahn key packages m ready count = Some (card taken')" "kahn_inv key packages taken' m' []"
  using assms
proof (induction key packages m ready count arbitrary: taken thesis rule: kahn.induct)
  case (1 key packages m count)
  then show ?case by simp
next
  case (2 key packages m current ready count)
  obtain c m' ready' where s: "fmlookup packages current = Some c" "discount (dependency_keys key c) m ready = Some (m', ready')"
    "kahn_inv key packages (insert current taken) m' ready'" "current \<in> fset (fmdom packages) - taken"
    by (rule kahn_step [OF 2(3)])
  have "taken \<subseteq> fset (fmdom packages)" using 2(3) unfolding kahn_inv_def Let_def by blast
  then have "finite taken" by (rule finite_subset) simp
  then have "count + 1 = card (insert current taken)" using 2(4) s(4) by simp
  then obtain taken' m2 where "kahn key packages m' ready' (count + 1) = Some (card taken')" "kahn_inv key packages taken' m2 []"
    using 2(1) [OF s(1,2) refl _ s(3)] by blast
  then show ?case using s(1,2) by (intro 2(2) [of taken' m2]) simp_all
qed

lemma has_cycle_spec: "has_cycle packages key = Some (\<not> acyclic (depends key packages))"
proof -
  let ?D = "fset (fmdom packages)"
  let ?incoming = "fold count_incoming (concat (map (dependency_keys key) (fm_values packages))) (fmmap (\<lambda>_. 0) packages)"
  let ?ready = "rev (map fst (filter (\<lambda>(k, n). n = 0) (entries ?incoming)))"
  have "fmlookup (fold count_incoming ks m) k = map_option (\<lambda>n. n + count_list ks k) (fmlookup m k)" for ks m k
    by (induction ks arbitrary: m) (auto simp: count_incoming_def option.map_comp comp_def option.map_ident split: option.splits)
  moreover have "count_list (concat (map (dependency_keys key) (fm_values packages))) k = in_edges key packages ?D k" for k
  proof -
    have "count_list (concat xss) k = (\<Sum>xs \<leftarrow> xss. count_list xs k)" for xss :: "package_key list list" and k by (induction xss) simp_all
    then show ?thesis
      by (simp add: fm_values_def entries_def in_edges_def comp_def sorted_list_of_fset.rep_eq sum_list_distinct_conv_sum_set)
  qed
  ultimately have m: "fmlookup ?incoming k = (if k |\<in>| fmdom packages then Some (in_edges key packages ?D k) else None)" for k
    by (auto simp: fmlookup_dom_iff)
  have "distinct (map fst (filter (\<lambda>(k, n). n = 0) (entries ?incoming)))"
    using distinct_entries [of ?incoming] by (simp add: distinct_map_filter)
  moreover have "set ?ready = {k \<in> ?D. fmlookup ?incoming k = Some 0}"
    using m by (force simp: set_entries split: if_splits)
  ultimately have "kahn_inv key packages {} ?incoming ?ready"
    using m by (simp add: kahn_inv_def acyclic_def)
  then obtain taken m' where r: "kahn key packages ?incoming ?ready 0 = Some (card taken)" "kahn_inv key packages taken m' []"
    by (rule kahn_spec) simp_all
  then have t: "taken \<subseteq> ?D" "acyclic (depends key packages \<inter> taken \<times> taken)"
    "\<And>k. k \<in> ?D - taken \<Longrightarrow> in_edges key packages (?D - taken) k \<noteq> 0"
    by (auto simp: kahn_inv_def split: if_splits)
  have "card taken = fcard (fmdom packages) \<longleftrightarrow> taken = ?D"
    unfolding fcard.rep_eq using card_subset_eq [OF _ t(1)] by auto
  also have "\<dots> \<longleftrightarrow> acyclic (depends key packages)"
  proof
    assume "taken = ?D"
    moreover have "depends key packages \<subseteq> ?D \<times> ?D" by (auto simp: depends_def fmlookup_dom_iff)
    ultimately show "acyclic (depends key packages)" using t(2) by (simp add: inf_absorb1)
  next
    assume acyc: "acyclic (depends key packages)"
    show "taken = ?D"
    proof (rule ccontr)
      assume "taken \<noteq> ?D"
      with t(1) obtain x where x: "x \<in> ?D - taken" by blast
      let ?R = "depends key packages \<inter> (?D - taken) \<times> (?D - taken)"
      have "finite ?R" by (rule finite_subset [of _ "?D \<times> ?D"]) auto
      then have "wf ?R" using acyc by (auto intro: finite_acyclic_wf acyclic_subset)
      then obtain y where y: "y \<in> ?D - taken" "\<And>z. (z, y) \<in> ?R \<Longrightarrow> z \<notin> ?D - taken" using x by (rule wfE_min) blast
      obtain a where "a \<in> ?D - taken" "(a, y) \<in> depends key packages"
        by (rule in_edges_pos [OF t(3) [OF y(1)]]) (use y(1) in auto)
      with y show False by blast
    qed
  qed
  finally show ?thesis using r(1) by (auto simp: has_cycle_def)
qed

section \<open>Selections\<close>

text \<open>The requirements in force: those of the selected packages and the development ones of the root.\<close>

definition in_force ::
  "('v, 'r) resolution_request \<Rightarrow> (package_key, ('v, 'r) package_candidate) fmap \<Rightarrow> 'r package_requirement \<Rightarrow> bool" where
  "in_force rq packages r \<longleftrightarrow>
     (\<exists>k c a. fmlookup packages k = Some c \<and> fmlookup (pc_dependencies c) a = Some r) \<or>
     (\<exists>a. fmlookup (pc_development (rq_candidate rq)) a = Some r)"

text \<open>
  A solution: the root is as requested, every other package is eligible and has the identity it stands
  for, also after a replacement, every requirement in force is met, and there is no cycle. \<open>B\<close> gives the
  revisions that branches stand for.
\<close>

definition solves ::
  "('p, 'v, 'r) semantics \<Rightarrow> ('v, 'r) resolution_request \<Rightarrow> package_key option \<Rightarrow> (package_key \<Rightarrow> (utext, utext) fmap) \<Rightarrow>
   (package_key, ('v, 'r) package_candidate) fmap \<Rightarrow> bool" where
  "solves sem rq alias B packages \<longleftrightarrow>
     B (rq_root rq) = fmempty \<and> fmlookup packages (rq_root rq) = Some (rq_candidate rq) \<and>
     root_replacement_ok sem rq alias (rq_candidate rq) fmempty \<and>
     (\<forall>k c. fmlookup packages k = Some c \<longrightarrow> k \<noteq> rq_root rq \<longrightarrow>
        eligible sem rq c \<and> same_source (actual_key rq k) (pc_source c) \<and>
        (\<forall>replacement. fmlookup (rq_overrides rq) k = Some replacement \<longrightarrow>
           matches_selector sem c (pr_selector replacement) (B k))) \<and>
     (\<forall>r. in_force rq packages r \<longrightarrow>
        (\<exists>c. fmlookup packages (resolver_key rq alias (pr_package r)) = Some c \<and>
             satisfies sem rq c r (B (resolver_key rq alias (pr_package r))))) \<and>
     acyclic (depends (resolver_key rq alias) packages)"

definition keeps_pins :: "(package_key, 'v package_pin) fmap \<Rightarrow> (package_key, ('v, 'r) package_candidate) fmap \<Rightarrow> bool" where
  "keeps_pins fixed packages \<longleftrightarrow>
     (\<forall>k c pin. fmlookup packages k = Some c \<longrightarrow> fmlookup fixed k = Some pin \<longrightarrow> PackagePin_matches pin c)"

definition needed :: "('v, 'r) resolution_request \<Rightarrow> package_key option \<Rightarrow> (package_key, ('v, 'r) package_candidate) fmap \<Rightarrow> bool" where
  "needed rq alias packages \<longleftrightarrow>
     (\<forall>k. k |\<in>| fmdom packages \<longrightarrow> k = rq_root rq \<or>
        (\<exists>r. in_force rq packages r \<and> resolver_key rq alias (pr_package r) = k))"

definition graph_bindings :: "('v, 'r) resolved_graph \<Rightarrow> package_key \<Rightarrow> (utext, utext) fmap" where
  "graph_bindings g k = (case fmlookup (rg_branches g) k of None \<Rightarrow> fmempty | Some m \<Rightarrow> m)"

definition good_graph ::
  "('p, 'v, 'r) semantics \<Rightarrow> ('v, 'r) resolution_request \<Rightarrow> package_key option \<Rightarrow> package_key fset \<Rightarrow>
   (package_key, 'v package_pin) fmap \<Rightarrow> ('v, 'r) resolved_graph \<Rightarrow> bool" where
  "good_graph sem rq alias targets fixed g \<longleftrightarrow>
     rg_root g = rq_root rq \<and> rg_edges g = graph_edges rq alias (rg_packages g) \<and>
     solves sem rq alias (graph_bindings g) (rg_packages g) \<and>
     needed rq alias (rg_packages g) \<and> keeps_pins fixed (rg_packages g) \<and> targets |\<subseteq>| fmdom (rg_packages g)"

lemma push_requirements:
  "required_of (fold (\<lambda>r. push_requirement (f r) r) rs m) k = required_of m k @ filter (\<lambda>r. f r = k) rs"
  by (induction rs arbitrary: m) (auto simp: push_requirement_def required_of_def split: option.splits)

lemma push_dom: "fmdom (fold (\<lambda>r. push_requirement (f r) r) rs m) = fmdom m |\<union>| fset_of_list (map f rs)"
  by (induction rs arbitrary: m) (auto simp: push_requirement_def)

lemma set_requirements:
  "set (concat (map (\<lambda>c. fm_values (pc_dependencies c)) (fm_values packages)) @ fm_values (pc_development (rq_candidate rq))) =
   {r. in_force rq packages r}"
  by (auto simp: fm_values_eq in_force_def)

lemma requirements_of:
  "r \<in> set (required_of (requirements rq alias packages) k) \<longleftrightarrow> in_force rq packages r \<and> resolver_key rq alias (pr_package r) = k"
  unfolding requirements_def push_requirements set_append set_filter set_requirements [unfolded set_append]
  by (auto simp: required_of_def)

lemma requirements_dom:
  "k |\<in>| fmdom (requirements rq alias packages) \<longleftrightarrow> (\<exists>r. in_force rq packages r \<and> resolver_key rq alias (pr_package r) = k)"
  unfolding requirements_def push_dom funion_iff fset_of_list_elem set_map set_requirements by auto

lemma in_force_mono:
  assumes "in_force rq packages r" "\<And>k c. fmlookup packages k = Some c \<Longrightarrow> fmlookup packages' k = Some c"
  shows "in_force rq packages' r"
  using assms unfolding in_force_def by blast

section \<open>The state of the search\<close>

definition bindings :: "('v, 'r) resolution_request \<Rightarrow> ('p, 'v, 'r) resolver \<Rightarrow> package_key \<Rightarrow> (utext, utext) fmap" where
  "bindings rq s k =
     (if k = rq_root rq then fmempty else case fmlookup (rv_cache s) k of None \<Rightarrow> fmempty | Some (_, found) \<Rightarrow> cs_branches found)"

text \<open>Cached candidates may be selected, and the root is never looked up.\<close>

definition cache_ok :: "('p, 'v, 'r) semantics \<Rightarrow> ('v, 'r) resolution_request \<Rightarrow> ('p, 'v, 'r) resolver \<Rightarrow> bool" where
  "cache_ok sem rq s \<longleftrightarrow>
     fmlookup (rv_cache s) (rq_root rq) = None \<and>
     (\<forall>k selectors found. fmlookup (rv_cache s) k = Some (selectors, found) \<longrightarrow>
        (\<forall>c \<in> set (cs_candidates found). eligible sem rq c \<and> same_source (actual_key rq k) (pc_source c)))"

text \<open>What is known of a replaced package does not change.\<close>

definition replaced_kept ::
  "('v, 'r) resolution_request \<Rightarrow> ('p, 'v, 'r) semantics \<Rightarrow> ('p, 'v, 'r) resolver \<Rightarrow> ('p, 'v, 'r) resolver \<Rightarrow> bool" where
  "replaced_kept rq sem s t \<longleftrightarrow>
     (\<forall>k found. k |\<in>| fmdom (rq_overrides rq) \<longrightarrow> fmlookup (rv_cache s) k = Some (wanted_selectors sem rq k [], found) \<longrightarrow>
        fmlookup (rv_cache t) k = Some (wanted_selectors sem rq k [], found))"

lemma replaced_kept_refl [simp]: "replaced_kept rq sem s s"
  by (simp add: replaced_kept_def)

lemma replaced_kept_trans: "replaced_kept rq sem s t \<Longrightarrow> replaced_kept rq sem t u \<Longrightarrow> replaced_kept rq sem s u"
  by (simp add: replaced_kept_def)

lemma wanted_replaced: "k |\<in>| fmdom (rq_overrides rq) \<Longrightarrow> wanted_selectors sem rq k rs = wanted_selectors sem rq k []"
  by (auto simp: wanted_selectors_def fmlookup_dom_iff)

lemma consistent_source: "consistent actual cs sources \<Longrightarrow> c \<in> set cs \<Longrightarrow> same_source actual (pc_source c)"
  by (induction actual cs sources rule: consistent.induct) auto

lemma set_insert_by: "set (insert_by le x xs) = insert x (set xs)"
  by (induction xs) auto

lemma set_newest_first: "set (newest_first cs) = set cs"
  unfolding newest_first_def by (induction cs) (simp_all add: set_insert_by)

lemma ask_provider_cases:
  assumes "ask_provider sem rq k selectors s = (r, t)"
  obtains (failed) e where "r = Inl (ProviderError e)" "rv_cache t = rv_cache s"
  | (found) found where "r = Inr found" "rv_cache t = fmupd k (selectors, found) (rv_cache s)"
      "\<And>c. c \<in> set (cs_candidates found) \<Longrightarrow> eligible sem rq c \<and> same_source (actual_key rq k) (pc_source c)"
proof -
  obtain answer p where a: "sem_provider sem (actual_key rq k) selectors (relevant_pin rq k) (wants_refresh rq k) (rv_provider s) = (answer, p)"
    by (cases "sem_provider sem (actual_key rq k) selectors (relevant_pin rq k) (wants_refresh rq k) (rv_provider s)")
  show thesis
  proof (cases answer)
    case (Inl e)
    with a assms show thesis by (intro failed [of e]) (auto simp: ask_provider_def)
  next
    case (Inr f)
    show thesis
    proof (cases "consistent (actual_key rq k) (cs_candidates f) fmempty")
      case False
      with a Inr assms show thesis by (intro failed [of inconsistent_source]) (auto simp: ask_provider_def)
    next
      case True
      with a Inr assms show thesis
        by (intro found [of "f\<lparr>cs_candidates := remdups_adj (newest_first (filter (eligible sem rq) (cs_candidates f)))\<rparr>"])
          (auto simp: ask_provider_def Let_def set_newest_first dest: consistent_source)
    qed
  qed
qed

lemma candidate_set_cases:
  assumes "candidate_set sem rq k rs s = (r, t)"
  obtains (cached) found where "r = Inr found" "fmlookup (rv_cache s) k = Some (wanted_selectors sem rq k rs, found)" "t = s"
  | (asked) "ask_provider sem rq k (wanted_selectors sem rq k rs) s = (r, t)"
      "\<And>found. fmlookup (rv_cache s) k \<noteq> Some (wanted_selectors sem rq k rs, found)"
proof (cases "\<exists>found. fmlookup (rv_cache s) k = Some (wanted_selectors sem rq k rs, found)")
  case True
  then obtain found where f: "fmlookup (rv_cache s) k = Some (wanted_selectors sem rq k rs, found)" ..
  with assms have "r = Inr found" "t = s" by (simp_all add: candidate_set_def)
  with f show thesis by (intro cached)
next
  case False
  with assms have "ask_provider sem rq k (wanted_selectors sem rq k rs) s = (r, t)"
    by (cases "fmlookup (rv_cache s) k") (auto simp: candidate_set_def split: if_splits)
  with False show thesis by (intro asked) auto
qed

lemma candidate_set_step:
  assumes "cache_ok sem rq s" "k \<noteq> rq_root rq" "candidate_set sem rq k rs s = (r, t)"
  shows "cache_ok sem rq t" "replaced_kept rq sem s t" "r \<noteq> Inl Panicked"
    "\<And>found. r = Inr found \<Longrightarrow> fmlookup (rv_cache t) k = Some (wanted_selectors sem rq k rs, found)"
    "\<And>j. j \<noteq> k \<Longrightarrow> fmlookup (rv_cache t) j = fmlookup (rv_cache s) j"
proof -
  have "cache_ok sem rq t \<and> replaced_kept rq sem s t \<and> r \<noteq> Inl Panicked \<and>
      (\<forall>found. r = Inr found \<longrightarrow> fmlookup (rv_cache t) k = Some (wanted_selectors sem rq k rs, found)) \<and>
      (\<forall>j. j \<noteq> k \<longrightarrow> fmlookup (rv_cache t) j = fmlookup (rv_cache s) j)"
    using assms(3)
  proof (cases rule: candidate_set_cases)
    case (cached found)
    with assms(1) show ?thesis by simp
  next
    case asked
    from asked(1) show ?thesis
    proof (cases rule: ask_provider_cases)
      case (failed e)
      with assms(1) show ?thesis by (simp add: cache_ok_def replaced_kept_def)
    next
      case (found found)
      have "replaced_kept rq sem s t"
        unfolding replaced_kept_def found(2) using asked(2) wanted_replaced [of k rq sem rs] by (metis fmupd_lookup)
      moreover have "cache_ok sem rq t"
        using assms(1,2) found(3) unfolding cache_ok_def found(2) by simp
      ultimately show ?thesis using found(1,2) by simp
    qed
  qed
  then show "cache_ok sem rq t" "replaced_kept rq sem s t" "r \<noteq> Inl Panicked"
    "\<And>found. r = Inr found \<Longrightarrow> fmlookup (rv_cache t) k = Some (wanted_selectors sem rq k rs, found)"
    "\<And>j. j \<noteq> k \<Longrightarrow> fmlookup (rv_cache t) j = fmlookup (rv_cache s) j" by blast+
qed

section \<open>The search is sound\<close>

lemma bind_stepE:
  assumes "bind_step m f s = (r, t)"
  obtains (failed) e where "m s = (Inl e, t)" "r = Inl e"
  | (went_on) a u where "m s = (Inr a, u)" "f a u = (r, t)"
proof (cases "m s")
  case (Pair x u)
  then show thesis using assms by (cases x) (auto simp: bind_step_def intro: failed went_on)
qed

lemma check_selected_step:
  assumes "check_selected sem rq alias fixed required es s = (r, t)" "cache_ok sem rq s"
  shows "cache_ok sem rq t \<and> replaced_kept rq sem s t \<and> r \<noteq> Inl Panicked \<and>
    (\<forall>j. j \<notin> fst ` set es \<longrightarrow> fmlookup (rv_cache t) j = fmlookup (rv_cache s) j) \<and>
    (r = Inr True \<longrightarrow> distinct (map fst es) \<longrightarrow>
      (\<forall>(k, c) \<in> set es. usable sem rq fixed k c (required_of required k) (bindings rq t k) \<and>
         (k = rq_root rq \<longrightarrow> root_replacement_ok sem rq alias c fmempty)))"
  using assms
proof (induction es arbitrary: s)
  case Nil
  then show ?case by (auto simp: return_def)
next
  case (Cons e es)
  obtain k c where e [simp]: "e = (k, c)" by (cases e)
  let ?rs = "required_of required k"
  let ?ask = "if k = rq_root rq then return fmempty else bind_step (candidate_set sem rq k ?rs) (\<lambda>found. return (cs_branches found))"
  let ?fine = "\<lambda>branches. usable sem rq fixed k c ?rs branches \<and> (k = rq_root rq \<longrightarrow> root_replacement_ok sem rq alias c branches)"
  have ask: "cache_ok sem rq u \<and> replaced_kept rq sem s u \<and> r1 \<noteq> Inl Panicked \<and>
      (\<forall>j. j \<noteq> k \<longrightarrow> fmlookup (rv_cache u) j = fmlookup (rv_cache s) j) \<and> (\<forall>branches. r1 = Inr branches \<longrightarrow> branches = bindings rq u k)"
    if "?ask s = (r1, u)" for r1 u
  proof (cases "k = rq_root rq")
    case True
    with that Cons.prems(2) show ?thesis by (auto simp: return_def bindings_def)
  next
    case False
    with that have "bind_step (candidate_set sem rq k ?rs) (\<lambda>found. return (cs_branches found)) s = (r1, u)" by simp
    then show ?thesis
    proof (cases rule: bind_stepE)
      case (failed e)
      with candidate_set_step [OF Cons.prems(2) False failed(1)] show ?thesis by simp
    next
      case (went_on found u1)
      with candidate_set_step [OF Cons.prems(2) False went_on(1)] False show ?thesis by (auto simp: return_def bindings_def)
    qed
  qed
  from Cons.prems(1) [unfolded e check_selected.simps Let_def] show ?case
  proof (cases rule: bind_stepE)
    case (failed err)
    with ask [OF failed(1)] show ?thesis by auto
  next
    case (went_on branches u)
    note a = ask [OF went_on(1)]
    show ?thesis
    proof (cases "?fine branches")
      case False
      with went_on(2) have "cache_ok sem rq t \<and> r = Inr False \<and> rv_cache t = rv_cache u"
        using a by (auto simp: bind_step_def set_conflict_def return_def cache_ok_def)
      with a show ?thesis by (auto simp: replaced_kept_def)
    next
      case True
      with went_on(2) have "check_selected sem rq alias fixed required es u = (r, t)" by simp
      from Cons.IH [OF this] a have IH: "cache_ok sem rq t" "replaced_kept rq sem u t" "r \<noteq> Inl Panicked"
        "\<And>j. j \<notin> fst ` set es \<Longrightarrow> fmlookup (rv_cache t) j = fmlookup (rv_cache u) j"
        "r = Inr True \<Longrightarrow> distinct (map fst es) \<Longrightarrow>
          (\<forall>(k, c) \<in> set es. usable sem rq fixed k c (required_of required k) (bindings rq t k) \<and>
            (k = rq_root rq \<longrightarrow> root_replacement_ok sem rq alias c fmempty))" by blast+
      have "bindings rq t k = branches" if "k \<notin> fst ` set es" using IH(4) [OF that] a by (simp add: bindings_def)
      moreover have "k = rq_root rq \<Longrightarrow> branches = fmempty" using a by (auto simp: bindings_def)
      ultimately show ?thesis using True IH a replaced_kept_trans [of rq sem s u t] by auto
    qed
  qed
qed

text \<open>A selection on the way: what is selected may stay, and is needed.\<close>

definition partial_selection ::
  "('p, 'v, 'r) semantics \<Rightarrow> ('v, 'r) resolution_request \<Rightarrow> package_key option \<Rightarrow> ('p, 'v, 'r) resolver \<Rightarrow>
   (package_key, ('v, 'r) package_candidate) fmap \<Rightarrow> bool" where
  "partial_selection sem rq alias s selected \<longleftrightarrow>
     fmlookup selected (rq_root rq) = Some (rq_candidate rq) \<and> needed rq alias selected \<and>
     (\<forall>k c. fmlookup selected k = Some c \<longrightarrow> k \<noteq> rq_root rq \<longrightarrow>
        eligible sem rq c \<and> same_source (actual_key rq k) (pc_source c) \<and>
        (\<forall>replacement. fmlookup (rq_overrides rq) k = Some replacement \<longrightarrow>
           (\<exists>found. fmlookup (rv_cache s) k = Some (wanted_selectors sem rq k [], found) \<and>
                    matches_selector sem c (pr_selector replacement) (cs_branches found))))"

lemma partial_selection_kept:
  assumes "partial_selection sem rq alias s selected" "replaced_kept rq sem s t"
  shows "partial_selection sem rq alias t selected"
  using assms unfolding partial_selection_def replaced_kept_def by (metis fmdomI)

lemma matches_used:
  assumes "sel \<in> set sels"
  shows "matches_selector sem c sel (used_branches sels branches) \<longleftrightarrow> matches_selector sem c sel branches"
proof (cases sel)
  case (SelBranch b)
  let ?pick = "\<lambda>sel. case sel of SelBranch branch \<Rightarrow> map_option (\<lambda>revision. (branch, revision)) (fmlookup branches branch) | _ \<Rightarrow> None"
  have pick: "(b', v) \<in> set (List.map_filter ?pick sels) \<longleftrightarrow> SelBranch b' \<in> set sels \<and> fmlookup branches b' = Some v" for b' v
    by (induction sels) (auto simp: List.map_filter_simps split: package_selector.splits option.splits)
  have "fmlookup (used_branches sels branches) b = fmlookup branches b"
  proof (cases "fmlookup branches b")
    case None
    then show ?thesis using pick [of b] by (auto simp: used_branches_def fmlookup_of_list map_of_eq_None_iff)
  next
    case (Some v)
    then have "(b, v) \<in> set (List.map_filter ?pick sels)" using assms SelBranch pick by simp
    then have "b \<in> fst ` set (rev (List.map_filter ?pick sels))" by force
    then have "map_of (rev (List.map_filter ?pick sels)) b \<noteq> None" by (simp only: map_of_eq_None_iff not_not)
    then obtain w where w: "map_of (rev (List.map_filter ?pick sels)) b = Some w" by blast
    then have "(b, w) \<in> set (List.map_filter ?pick sels)" using map_of_SomeD [OF w] by simp
    with pick Some w show ?thesis by (simp add: used_branches_def fmlookup_of_list)
  qed
  then show ?thesis by (simp add: matches_selector_def SelBranch split: package_source.split)
qed (simp_all add: matches_selector_def)

lemma graph_branches_lookup:
  "fmlookup (graph_branches rq required cache) k =
     (case fmlookup required k of
        None \<Rightarrow> None
      | Some rs \<Rightarrow> (let used = requested_branches rq cache k rs in if used = fmempty then None else Some used))"
proof -
  define f where "f = requested_branches rq cache"
  define add where "add = (\<lambda>(k, rs) m. let used = f k rs in if used = fmempty then m else fmupd k used m)"
  have add: "fmlookup (add e m) k = (if fst e = k \<and> f k (snd e) \<noteq> fmempty then Some (f k (snd e)) else fmlookup m k)" for e m
    by (cases e) (auto simp: add_def Let_def)
  have other: "fmlookup (fold add es m) k = fmlookup m k" if "k \<notin> fst ` set es" for es m
    using that by (induction es arbitrary: m) (auto simp: add)
  have hit: "fmlookup (fold add es m) k = (if f k rs = fmempty then None else Some (f k rs))"
    if "(k, rs) \<in> set es" "distinct (map fst es)" "fmlookup m k = None" for es m rs
    using that
  proof (induction es arbitrary: m)
    case (Cons e es)
    show ?case
    proof (cases "e = (k, rs)")
      case True
      with Cons.prems have "k \<notin> fst ` set es" by auto
      from other [OF this] show ?thesis using True Cons.prems(3) by (simp add: add)
    next
      case False
      with Cons.prems(1) have k: "(k, rs) \<in> set es" by auto
      then have "k \<in> fst ` set es" by force
      with Cons.prems(2) have "fst e \<noteq> k" by auto
      with Cons k show ?thesis by (simp add: add)
    qed
  qed simp
  have g: "graph_branches rq required cache = fold add (entries required) fmempty" by (simp add: graph_branches_def add_def f_def)
  show ?thesis
  proof (cases "fmlookup required k")
    case None
    then have "k \<notin> fst ` set (entries required)" by (force simp: set_entries)
    from other [OF this] None show ?thesis by (simp add: g)
  next
    case (Some rs)
    with hit [OF _ distinct_entries, of rs required fmempty] show ?thesis by (simp add: g set_entries f_def Let_def)
  qed
qed

text \<open>The branches a graph records are as good as those it was found with.\<close>

lemma graph_binding_matches:
  assumes "cache_ok sem rq s" "fmlookup (requirements rq alias packages) k = Some rs"
    and "sel \<in> set (case fmlookup (rq_overrides rq) k of Some replacement \<Rightarrow> [pr_selector replacement] | None \<Rightarrow> map pr_selector rs)"
    and "build_graph rq alias packages s = (Inr g, t)"
  shows "matches_selector sem c sel (graph_bindings g k) \<longleftrightarrow> matches_selector sem c sel (bindings rq s k)"
proof -
  have g: "rg_branches g = graph_branches rq (requirements rq alias packages) (rv_cache s)"
    using assms(4) by (auto simp: build_graph_def)
  have "graph_bindings g k = requested_branches rq (rv_cache s) k rs"
    using assms(2) by (simp add: graph_bindings_def g graph_branches_lookup Let_def)
  moreover have "fmlookup (rv_cache s) (rq_root rq) = None" using assms(1) by (simp add: cache_ok_def)
  ultimately show ?thesis
    using matches_used [OF assms(3)] by (auto simp: requested_branches_def bindings_def split: option.splits)
qed

lemma not_replaced_key: "alias = None \<or> (\<exists>k. alias = Some k \<and> k |\<in>| fmdom (rq_overrides rq)) \<Longrightarrow>
  pr_package r |\<notin>| fmdom (rq_overrides rq) \<Longrightarrow> resolver_key rq alias (pr_package r) = pr_package r"
  by (auto simp: resolver_key_def)

lemma complete_selection_good:
  assumes root_alias: "alias = None \<or> (\<exists>k. alias = Some k \<and> k |\<in>| fmdom (rq_overrides rq))"
    and cache: "cache_ok sem rq s" and sel: "partial_selection sem rq alias s selected"
    and fine: "\<forall>(k, c) \<in> set (entries selected). usable sem rq fixed k c (required_of (requirements rq alias selected) k) (bindings rq s k) \<and>
         (k = rq_root rq \<longrightarrow> root_replacement_ok sem rq alias c fmempty)"
    and acyc: "acyclic (depends (resolver_key rq alias) selected)"
    and closed: "fmdom (requirements rq alias selected) |\<subseteq>| fmdom selected"
    and targets: "targets |\<subseteq>| fmdom selected"
    and g: "build_graph rq alias selected s = (Inr g, t)"
  shows "good_graph sem rq alias targets fixed g"
proof -
  have packages: "rg_packages g = selected" "rg_root g = rq_root rq" "rg_edges g = graph_edges rq alias selected"
    using g by (auto simp: build_graph_def)
  have usable: "usable sem rq fixed k c (required_of (requirements rq alias selected) k) (bindings rq s k)"
    if "fmlookup selected k = Some c" for k c using fine that by (auto simp: set_entries)
  have met: "\<exists>c. fmlookup selected (resolver_key rq alias (pr_package r)) = Some c \<and>
      satisfies sem rq c r (graph_bindings g (resolver_key rq alias (pr_package r)))" if r: "in_force rq selected r" for r
  proof -
    let ?k = "resolver_key rq alias (pr_package r)"
    from r have "?k |\<in>| fmdom (requirements rq alias selected)" unfolding requirements_dom by blast
    then obtain rs where rs: "fmlookup (requirements rq alias selected) ?k = Some rs" by (auto simp: fmlookup_dom_iff)
    from closed \<open>?k |\<in>| fmdom (requirements rq alias selected)\<close> obtain c where c: "fmlookup selected ?k = Some c" by (meson fmdomE fsubsetD)
    have "r \<in> set (required_of (requirements rq alias selected) ?k)" using r by (simp add: requirements_of)
    then have rin: "r \<in> set rs" using rs by (simp add: required_of_def)
    from usable [OF c] \<open>r \<in> set (required_of (requirements rq alias selected) ?k)\<close>
    have sat: "satisfies sem rq c r (bindings rq s ?k)" by (auto simp: usable_def list_all_iff)
    have "satisfies sem rq c r (graph_bindings g ?k)"
    proof (cases "pr_package r |\<in>| fmdom (rq_overrides rq)")
      case True
      with sat show ?thesis by (simp add: satisfies_def)
    next
      case False
      then have k: "?k = pr_package r" using not_replaced_key [OF root_alias] by blast
      then have "fmlookup (rq_overrides rq) ?k = None" using False by (simp add: fmdom_notD)
      with graph_binding_matches [OF cache rs _ g, of "pr_selector r" c] rin sat False show ?thesis
        by (simp add: satisfies_def)
    qed
    with c show ?thesis by blast
  qed
  have other: "eligible sem rq c \<and> same_source (actual_key rq k) (pc_source c) \<and>
      (\<forall>replacement. fmlookup (rq_overrides rq) k = Some replacement \<longrightarrow> matches_selector sem c (pr_selector replacement) (graph_bindings g k))"
    if k: "fmlookup selected k = Some c" "k \<noteq> rq_root rq" for k c
  proof (intro conjI allI impI)
    show "eligible sem rq c" "same_source (actual_key rq k) (pc_source c)" using sel k by (auto simp: partial_selection_def)
    fix replacement assume rep: "fmlookup (rq_overrides rq) k = Some replacement"
    with sel k obtain found where found: "fmlookup (rv_cache s) k = Some (wanted_selectors sem rq k [], found)"
      "matches_selector sem c (pr_selector replacement) (cs_branches found)" unfolding partial_selection_def by blast
    have "\<exists>r. in_force rq selected r \<and> resolver_key rq alias (pr_package r) = k"
      using sel k fmdomI [OF k(1)] unfolding partial_selection_def needed_def by blast
    then have "k |\<in>| fmdom (requirements rq alias selected)" unfolding requirements_dom .
    then obtain rs where "fmlookup (requirements rq alias selected) k = Some rs" by (auto simp: fmlookup_dom_iff)
    from graph_binding_matches [OF cache this _ g, of "pr_selector replacement" c] rep found k(2)
    show "matches_selector sem c (pr_selector replacement) (graph_bindings g k)" by (simp add: bindings_def)
  qed
  have root: "fmlookup selected (rq_root rq) = Some (rq_candidate rq)" "needed rq alias selected"
    using sel by (auto simp: partial_selection_def)
  then have "root_replacement_ok sem rq alias (rq_candidate rq) fmempty" using fine by (auto simp: set_entries)
  moreover have "keeps_pins fixed selected" using usable by (fastforce simp: keeps_pins_def usable_def)
  moreover have "graph_bindings g (rq_root rq) = fmempty"
  proof -
    have "fmlookup (rv_cache s) (rq_root rq) = None" using cache by (simp add: cache_ok_def)
    moreover have "rg_branches g = graph_branches rq (requirements rq alias selected) (rv_cache s)"
      using g by (auto simp: build_graph_def)
    ultimately show ?thesis
      by (simp add: graph_bindings_def graph_branches_lookup requested_branches_def split: option.split)
  qed
  ultimately show ?thesis
    unfolding good_graph_def solves_def packages using met other acyc targets root by blast
qed

lemma next_key_None: "next_key rq alias required selected = None \<longleftrightarrow> fmdom required |\<subseteq>| fmdom selected"
proof -
  have "next_key rq alias required selected = None \<longleftrightarrow>
      filter (\<lambda>k. k |\<notin>| fmdom selected) (sorted_list_of_fset (fmdom required)) = []"
  proof -
    have e: "sort_key f xs = [] \<longleftrightarrow> xs = []" for f :: "package_key \<Rightarrow> nat \<times> package_key" and xs
      using set_sort [of f xs] by (metis set_empty)
    let ?open = "filter (\<lambda>k. k |\<notin>| fmdom selected) (sorted_list_of_fset (fmdom required))"
    have "next_key rq alias required selected = None \<longleftrightarrow> sort_key (\<lambda>k. (choice_rank rq alias k, k)) ?open = []"
      unfolding next_key_def by (simp split: list.split)
    then show ?thesis using e by blast
  qed
  also have "\<dots> \<longleftrightarrow> fmdom required |\<subseteq>| fmdom selected" by (auto simp: filter_empty_conv)
  finally show ?thesis .
qed

lemma next_key_Some:
  assumes "next_key rq alias required selected = Some k"
  shows "k |\<in>| fmdom required" "k |\<notin>| fmdom selected"
proof -
  let ?open = "filter (\<lambda>k. k |\<notin>| fmdom selected) (sorted_list_of_fset (fmdom required))"
  from assms obtain rest where e: "sort_key (\<lambda>k. (choice_rank rq alias k, k)) ?open = k # rest"
    by (auto simp: next_key_def split: list.splits)
  have "k \<in> set (sort_key (\<lambda>k. (choice_rank rq alias k, k)) ?open)" unfolding e by simp
  then show "k |\<in>| fmdom required" "k |\<notin>| fmdom selected" by simp_all
qed

lemma try_each_inv:
  assumes "\<And>x s r t. x \<in> set xs \<Longrightarrow> I s \<Longrightarrow> f x s = (r, t) \<Longrightarrow> I t \<and> r \<noteq> Inl Panicked \<and> (\<forall>g. r = Inr (Some g) \<longrightarrow> Q g)"
    and "I s" "try_each f xs s = (r, t)"
  shows "I t \<and> r \<noteq> Inl Panicked \<and> (\<forall>g. r = Inr (Some g) \<longrightarrow> Q g)"
  using assms
proof (induction xs arbitrary: s)
  case Nil
  then show ?case by (auto simp: return_def)
next
  case (Cons x xs)
  from Cons.prems(3) [unfolded try_each.simps] show ?case
  proof (cases rule: bind_stepE)
    case (failed e)
    with Cons.prems(1) [OF _ Cons.prems(2) failed(1)] show ?thesis by simp
  next
    case (went_on g u)
    note here = Cons.prems(1) [OF _ Cons.prems(2) went_on(1)]
    show ?thesis
    proof (cases g)
      case None
      with went_on(2) have "try_each f xs u = (r, t)" by simp
      moreover have "I u" using here by simp
      moreover have "I t' \<and> r' \<noteq> Inl Panicked \<and> (\<forall>g. r' = Inr (Some g) \<longrightarrow> Q g)" if "y \<in> set xs" "I s'" "f y s' = (r', t')" for y s' r' t'
        using Cons.prems(1) [of y s' r' t'] that by simp
      ultimately show ?thesis using Cons.IH by blast
    next
      case (Some g)
      with went_on here show ?thesis by (auto simp: return_def)
    qed
  qed
qed

lemma partial_selection_extend:
  assumes "partial_selection sem rq alias s selected" "k |\<notin>| fmdom selected" "k |\<in>| fmdom (requirements rq alias selected)"
    and "eligible sem rq c" "same_source (actual_key rq k) (pc_source c)"
    and "\<And>replacement. fmlookup (rq_overrides rq) k = Some replacement \<Longrightarrow>
       \<exists>found. fmlookup (rv_cache s) k = Some (wanted_selectors sem rq k [], found) \<and> matches_selector sem c (pr_selector replacement) (cs_branches found)"
  shows "partial_selection sem rq alias s (fmupd k c selected)"
proof -
  have grow: "fmlookup selected j = Some d \<Longrightarrow> fmlookup (fmupd k c selected) j = Some d" for j d
    using assms(2) by (auto simp: fmdom_notD)
  have force: "in_force rq selected r \<Longrightarrow> in_force rq (fmupd k c selected) r" for r
    by (rule in_force_mono [OF _ grow])
  have "needed rq alias selected" using assms(1) by (simp add: partial_selection_def)
  moreover from assms(3) obtain r where "in_force rq selected r" "resolver_key rq alias (pr_package r) = k" unfolding requirements_dom by blast
  ultimately have "needed rq alias (fmupd k c selected)" unfolding needed_def using force by auto
  moreover have "fmlookup (fmupd k c selected) (rq_root rq) = Some (rq_candidate rq)"
    using assms(1) grow by (simp add: partial_selection_def)
  moreover have "eligible sem rq d \<and> same_source (actual_key rq j) (pc_source d) \<and>
      (\<forall>replacement. fmlookup (rq_overrides rq) j = Some replacement \<longrightarrow>
         (\<exists>found. fmlookup (rv_cache s) j = Some (wanted_selectors sem rq j [], found) \<and>
                  matches_selector sem d (pr_selector replacement) (cs_branches found)))"
    if "fmlookup (fmupd k c selected) j = Some d" "j \<noteq> rq_root rq" for j d
  proof (cases "j = k")
    case True
    with that assms(4,5,6) show ?thesis by simp
  next
    case False
    with that have "fmlookup selected j = Some d" by simp
    with that(2) assms(1) show ?thesis unfolding partial_selection_def by blast
  qed
  ultimately show ?thesis unfolding partial_selection_def by blast
qed

text \<open>The ways a call of the search can end.\<close>

lemma search_cases:
  assumes "search sem rq alias targets fixed selected depth s = (r, t)"
  obtains (deep) "256 < depth" "r = Inl (ConflictError \<lparr>rc_requirements = [], rc_message = TooManyDecisions\<rparr>)" "t = s"
  | (check_failed) e where "depth \<le> 256" "r = Inl e"
      "check_selected sem rq alias fixed (requirements rq alias selected) (entries selected) s = (Inl e, t)"
  | (conflict) u where "depth \<le> 256" "r = Inr None" "t = u"
      "check_selected sem rq alias fixed (requirements rq alias selected) (entries selected) s = (Inr False, u)"
  | (cycle) u c where "depth \<le> 256" "r = Inr None" "t = u\<lparr>rv_conflict := c\<rparr>"
      "check_selected sem rq alias fixed (requirements rq alias selected) (entries selected) s = (Inr True, u)"
      "\<not> acyclic (depends (resolver_key rq alias) selected)"
  | (complete) u where "depth \<le> 256"
      "check_selected sem rq alias fixed (requirements rq alias selected) (entries selected) s = (Inr True, u)"
      "acyclic (depends (resolver_key rq alias) selected)" "fmdom (requirements rq alias selected) |\<subseteq>| fmdom selected"
      "bind_step (build_graph rq alias selected) (\<lambda>g. return (if targets |\<subseteq>| fmdom selected then Some g else None)) u = (r, t)"
  | (no_set) u k e where "depth \<le> 256"
      "check_selected sem rq alias fixed (requirements rq alias selected) (entries selected) s = (Inr True, u)"
      "next_key rq alias (requirements rq alias selected) selected = Some k"
      "candidate_set sem rq k (required_of (requirements rq alias selected) k) u = (Inl e, t)" "r = Inl e"
  | (stuck) u k found v c where "depth \<le> 256"
      "check_selected sem rq alias fixed (requirements rq alias selected) (entries selected) s = (Inr True, u)"
      "next_key rq alias (requirements rq alias selected) selected = Some k"
      "candidate_set sem rq k (required_of (requirements rq alias selected) k) u = (Inr found, v)"
      "filter (choosable sem rq fixed k (required_of (requirements rq alias selected) k) (cs_branches found)) (cs_candidates found) = []"
      "r = Inr None" "t = v\<lparr>rv_conflict := c\<rparr>"
  | (branch) u k found v where "depth \<le> 256"
      "check_selected sem rq alias fixed (requirements rq alias selected) (entries selected) s = (Inr True, u)"
      "next_key rq alias (requirements rq alias selected) selected = Some k"
      "candidate_set sem rq k (required_of (requirements rq alias selected) k) u = (Inr found, v)"
      "try_each (\<lambda>c. search sem rq alias targets fixed (fmupd k c selected) (depth + 1))
         (filter (choosable sem rq fixed k (required_of (requirements rq alias selected) k) (cs_branches found)) (cs_candidates found)) v = (r, t)"
proof (cases "256 < depth")
  case True
  with assms show thesis by (intro deep) (simp_all add: search.simps throw_def)
next
  case False
  note run = trans [OF search.simps [symmetric] assms, unfolded if_not_P [OF False] Let_def]
  from run show thesis
  proof (cases rule: bind_stepE)
    case (failed e)
    with False show thesis by (intro check_failed) simp_all
  next
    case (went_on fine u)
    show thesis
    proof (cases fine)
      case f: False
      with went_on False show thesis by (intro conflict [of u]) (simp_all add: return_def)
    next
      case t: True
      show thesis
      proof (cases "acyclic (depends (resolver_key rq alias) selected)")
        case c: False
        with went_on(2) t have "r = Inr None" "t = u\<lparr>rv_conflict := \<lparr>rc_requirements = concat (fm_values (requirements rq alias selected)), rc_message = DependencyCycle\<rparr>\<rparr>"
          by (auto simp: has_cycle_spec bind_step_def set_conflict_def return_def)
        with went_on(1) t c False show thesis by (intro cycle) simp_all
      next
        case a: True
        show thesis
        proof (cases "next_key rq alias (requirements rq alias selected) selected")
          case None
          have "(\<exists>k |\<in>| targets. k |\<notin>| fmdom selected) \<longleftrightarrow> \<not> targets |\<subseteq>| fmdom selected" by blast
          with went_on(2) t a None have "bind_step (build_graph rq alias selected) (\<lambda>g. return (if targets |\<subseteq>| fmdom selected then Some g else None)) u = (r, t)"
            by (auto simp: has_cycle_spec bind_step_def build_graph_def return_def split: if_splits)
          with went_on(1) t a None False show thesis by (intro complete) (simp_all add: next_key_None)
        next
          case (Some k)
          note rest = went_on(2) [simplified t has_cycle_spec a Some, simplified]
          from rest show thesis
          proof (cases rule: bind_stepE)
            case (failed e)
            with went_on(1) t Some False show thesis by (intro no_set) simp_all
          next
            case w: (went_on found v)
            show thesis
            proof (cases "filter (choosable sem rq fixed k (required_of (requirements rq alias selected) k) (cs_branches found)) (cs_candidates found) = []")
              case True
              with w(2) have "r = Inr None" "t = v\<lparr>rv_conflict := \<lparr>rc_requirements = concat (fm_values (requirements rq alias selected)), rc_message = NoSource k (rq_target rq) (rq_compiler rq)\<rparr>\<rparr>"
                by (auto simp: bind_step_def set_conflict_def return_def Let_def)
              with went_on(1) t Some False w(1) True show thesis by (intro stuck) simp_all
            next
              case ne: False
              with w(2) have "try_each (\<lambda>c. search sem rq alias targets fixed (fmupd k c selected) (depth + 1))
                  (filter (choosable sem rq fixed k (required_of (requirements rq alias selected) k) (cs_branches found)) (cs_candidates found)) v = (r, t)"
                by (simp only: if_False Let_def)
              with went_on(1) t Some False w(1) show thesis by (intro branch) simp_all
            qed
          qed
        qed
      qed
    qed
  qed
qed

lemma search_step:
  assumes root_alias: "alias = None \<or> (\<exists>k. alias = Some k \<and> k |\<in>| fmdom (rq_overrides rq))"
    and "search sem rq alias targets fixed selected depth s = (r, t)" "cache_ok sem rq s" "partial_selection sem rq alias s selected"
  shows "(cache_ok sem rq t \<and> replaced_kept rq sem s t) \<and> r \<noteq> Inl Panicked \<and> (\<forall>g. r = Inr (Some g) \<longrightarrow> good_graph sem rq alias targets fixed g)"
  using assms(2-)
proof (induction "257 - depth" arbitrary: selected depth s r t rule: less_induct)
  case less
  have root: "k \<noteq> rq_root rq" if "next_key rq alias (requirements rq alias selected) selected = Some k" for k
    using next_key_Some [OF that] less.prems(3) by (auto simp: partial_selection_def fmdomI)
  from less.prems(1) show ?case
  proof (cases rule: search_cases)
    case deep
    with less.prems(2) show ?thesis by simp
  next
    case (check_failed e)
    with check_selected_step [OF check_failed(3) less.prems(2)] show ?thesis by auto
  next
    case (conflict u)
    with check_selected_step [OF conflict(4) less.prems(2)] show ?thesis by auto
  next
    case (cycle u c)
    with check_selected_step [OF cycle(4) less.prems(2)] show ?thesis by (auto simp: cache_ok_def replaced_kept_def)
  next
    case (complete u)
    note checked = check_selected_step [OF complete(2) less.prems(2)]
    obtain g where g: "build_graph rq alias selected u = (Inr g, u)" by (simp add: build_graph_def)
    with complete(5) have r: "t = u" "r = Inr (if targets |\<subseteq>| fmdom selected then Some g else None)"
      by (simp_all add: bind_step_def return_def)
    have "good_graph sem rq alias targets fixed g" if "targets |\<subseteq>| fmdom selected"
      by (rule complete_selection_good [OF root_alias _ _ _ complete(3,4) that g])
        (use checked distinct_entries less.prems(3) in \<open>auto intro: partial_selection_kept\<close>)
    with checked r show ?thesis by auto
  next
    case (no_set u k e)
    note checked = check_selected_step [OF no_set(2) less.prems(2)]
    with candidate_set_step [OF _ root [OF no_set(3)] no_set(4)] no_set(5) show ?thesis by (auto intro: replaced_kept_trans)
  next
    case (stuck u k found v c)
    note checked = check_selected_step [OF stuck(2) less.prems(2)]
    with candidate_set_step [OF _ root [OF stuck(3)] stuck(4)] stuck(6,7) have "cache_ok sem rq v" "replaced_kept rq sem s v"
      by (auto intro: replaced_kept_trans)
    with stuck(6,7) show ?thesis by (simp add: cache_ok_def replaced_kept_def)
  next
    case (branch u k found v)
    note checked = check_selected_step [OF branch(2) less.prems(2)]
    note asked = candidate_set_step [OF _ root [OF branch(3)] branch(4)]
    have v: "cache_ok sem rq v" "replaced_kept rq sem s v" using checked asked by (auto intro: replaced_kept_trans)
    have found: "fmlookup (rv_cache v) k = Some (wanted_selectors sem rq k (required_of (requirements rq alias selected) k), found)"
      using asked(4) checked by simp
    let ?choices = "filter (choosable sem rq fixed k (required_of (requirements rq alias selected) k) (cs_branches found)) (cs_candidates found)"
    have "(cache_ok sem rq t \<and> replaced_kept rq sem v t) \<and> r \<noteq> Inl Panicked \<and> (\<forall>g. r = Inr (Some g) \<longrightarrow> good_graph sem rq alias targets fixed g)"
    proof (rule try_each_inv [OF _ _ branch(5)])
      fix c s' r' t'
      assume c: "c \<in> set ?choices" and s': "cache_ok sem rq s' \<and> replaced_kept rq sem v s'"
        and run: "search sem rq alias targets fixed (fmupd k c selected) (depth + 1) s' = (r', t')"
      have "c \<in> set (cs_candidates found)" "choosable sem rq fixed k (required_of (requirements rq alias selected) k) (cs_branches found) c"
        using c by auto
      note c = this
      have "partial_selection sem rq alias s' selected"
        using less.prems(3) v(2) s' by (blast intro: partial_selection_kept replaced_kept_trans)
      then have "partial_selection sem rq alias s' (fmupd k c selected)"
      proof (rule partial_selection_extend)
        show "k |\<notin>| fmdom selected" "k |\<in>| fmdom (requirements rq alias selected)" using next_key_Some [OF branch(3)] by blast+
        show "eligible sem rq c" "same_source (actual_key rq k) (pc_source c)" using v(1) found c(1) unfolding cache_ok_def by blast+
        fix replacement assume rep: "fmlookup (rq_overrides rq) k = Some replacement"
        then have "k |\<in>| fmdom (rq_overrides rq)" by (rule fmdomI)
        with found s' have "fmlookup (rv_cache s') k = Some (wanted_selectors sem rq k [], found)"
          using wanted_replaced unfolding replaced_kept_def by metis
        with c(2) rep show "\<exists>found. fmlookup (rv_cache s') k = Some (wanted_selectors sem rq k [], found) \<and> matches_selector sem c (pr_selector replacement) (cs_branches found)"
          by (auto simp: choosable_def)
      qed
      from less.hyps [OF _ run _ this] s' branch(1)
      have "(cache_ok sem rq t' \<and> replaced_kept rq sem s' t') \<and> r' \<noteq> Inl Panicked \<and> (\<forall>g. r' = Inr (Some g) \<longrightarrow> good_graph sem rq alias targets fixed g)" by simp
      with s' show "(cache_ok sem rq t' \<and> replaced_kept rq sem v t') \<and> r' \<noteq> Inl Panicked \<and> (\<forall>g. r' = Inr (Some g) \<longrightarrow> good_graph sem rq alias targets fixed g)"
        by (blast intro: replaced_kept_trans)
    qed (use v in simp)
    with v show ?thesis by (blast intro: replaced_kept_trans)
  qed
qed

section \<open>Resolution is sound\<close>

definition within :: "(package_key, 'v package_pin) fmap \<Rightarrow> (package_key, 'v package_pin) fmap \<Rightarrow> bool" where
  "within fixed fixed' \<longleftrightarrow> (\<forall>k pin. fmlookup fixed k = Some pin \<longrightarrow> fmlookup fixed' k = Some pin)"

lemma good_graph_within: "good_graph sem rq alias targets fixed' g \<Longrightarrow> within fixed fixed' \<Longrightarrow> good_graph sem rq alias targets fixed g"
  unfolding good_graph_def keeps_pins_def within_def by blast

text \<open>A step that keeps the cache in order, does not panic, and gives only results of a kind.\<close>

definition yields_only :: "('p, 'v, 'r) semantics \<Rightarrow> ('v, 'r) resolution_request \<Rightarrow> ('a \<Rightarrow> bool) \<Rightarrow> ('p, 'v, 'r, 'a) step \<Rightarrow> bool" where
  "yields_only sem rq Q m \<longleftrightarrow>
     (\<forall>s r t. cache_ok sem rq s \<longrightarrow> m s = (r, t) \<longrightarrow> cache_ok sem rq t \<and> r \<noteq> Inl Panicked \<and> (\<forall>a. r = Inr a \<longrightarrow> Q a))"

lemma yields_only_return [simp]: "yields_only sem rq Q (return a) \<longleftrightarrow> (\<forall>s. cache_ok sem rq s \<longrightarrow> Q a)"
  by (auto simp: yields_only_def return_def)

lemma yields_only_throw [simp]: "e \<noteq> Panicked \<Longrightarrow> yields_only sem rq Q (throw e)"
  by (auto simp: yields_only_def throw_def)

lemma yields_only_bind:
  assumes "yields_only sem rq P m" "\<And>a. P a \<Longrightarrow> yields_only sem rq Q (f a)"
  shows "yields_only sem rq Q (bind_step m f)"
  unfolding yields_only_def
proof (intro allI impI)
  fix s r t assume s: "cache_ok sem rq s" and run: "bind_step m f s = (r, t)"
  from run show "cache_ok sem rq t \<and> r \<noteq> Inl Panicked \<and> (\<forall>a. r = Inr a \<longrightarrow> Q a)"
  proof (cases rule: bind_stepE)
    case (failed e)
    with assms(1) s show ?thesis unfolding yields_only_def by fastforce
  next
    case (went_on a u)
    with assms(1) s have "cache_ok sem rq u" "P a" unfolding yields_only_def by blast+
    with assms(2) went_on(2) show ?thesis unfolding yields_only_def by blast
  qed
qed

definition alias_ok :: "('v, 'r) resolution_request \<Rightarrow> package_key option \<Rightarrow> bool" where
  "alias_ok rq alias \<longleftrightarrow> alias = None \<or> (\<exists>k. alias = Some k \<and> k |\<in>| fmdom (rq_overrides rq))"

lemma search_yields:
  assumes "alias_ok rq alias"
  shows "yields_only sem rq (\<lambda>r. \<forall>g. r = Some g \<longrightarrow> good_graph sem rq alias targets fixed g)
    (search sem rq alias targets fixed (initial_selection rq) 0)"
  unfolding yields_only_def
proof (intro allI impI)
  fix s r t assume s: "cache_ok sem rq s" and run: "search sem rq alias targets fixed (initial_selection rq) 0 s = (r, t)"
  have "partial_selection sem rq alias s (initial_selection rq)"
    by (auto simp: partial_selection_def initial_selection_def needed_def)
  from search_step [OF assms [unfolded alias_ok_def] run s this]
  show "cache_ok sem rq t \<and> r \<noteq> Inl Panicked \<and> (\<forall>a. r = Inr a \<longrightarrow> (\<forall>g. a = Some g \<longrightarrow> good_graph sem rq alias targets fixed g))" by auto
qed

lemma retain_pins_yields:
  assumes "alias_ok rq alias" "good_graph sem rq alias targets fixed best" "within fixed retained"
  shows "yields_only sem rq (good_graph sem rq alias targets fixed) (retain_pins sem rq alias targets fixed pins retained best)"
  using assms(2,3)
proof (induction pins arbitrary: retained best)
  case (Cons p pins)
  obtain k pin where p: "p = (k, pin)" by (cases p)
  show ?case
  proof (cases "k = rq_root rq \<or> k |\<in>| fmdom fixed")
    case True
    with Cons p show ?thesis by simp
  next
    case False
    then have wider: "within fixed (fmupd k pin retained)" using Cons.prems(2) by (auto simp: within_def fmdomI)
    have "yields_only sem rq (good_graph sem rq alias targets fixed)
        (bind_step (search sem rq alias targets (fmupd k pin retained) (initial_selection rq) 0) (\<lambda>r.
          case r of
            Some graph \<Rightarrow> retain_pins sem rq alias targets fixed pins (fmupd k pin retained) graph
          | None \<Rightarrow> retain_pins sem rq alias targets fixed pins retained best))"
      by (rule yields_only_bind [OF search_yields [OF assms(1)]])
        (auto intro: Cons.IH Cons.prems wider good_graph_within [OF _ wider] split: option.split)
    with False show ?thesis by (simp add: p)
  qed
qed simp

lemma prefer_pins_yields:
  assumes "alias_ok rq alias"
  shows "yields_only sem rq (\<lambda>r. \<forall>g. r = Some g \<longrightarrow> good_graph sem rq alias targets fixed g) (prefer_pins sem rq alias targets fixed)"
proof (cases "rq_policy rq = UpdateAll")
  case True
  then show ?thesis using search_yields [OF assms] by (simp add: prefer_pins_def)
next
  case False
  have within: "within fixed (fmdrop (rq_root rq) (rq_pins rq) ++\<^sub>f fixed)" by (auto simp: within_def fmdomI)
  have "yields_only sem rq (\<lambda>r. \<forall>g. r = Some g \<longrightarrow> good_graph sem rq alias targets fixed g)
      (bind_step (search sem rq alias targets fixed (initial_selection rq) 0) (\<lambda>r.
              case r of
                None \<Rightarrow> return None
              | Some best \<Rightarrow>
                  bind_step (retain_pins sem rq alias targets fixed (entries (rq_pins rq)) fixed best)
                    (\<lambda>g. return (Some g))))"
    by (rule yields_only_bind [OF search_yields [OF assms]])
      (auto intro!: yields_only_bind [OF retain_pins_yields [OF assms]] simp: within_def split: option.split)
  then show ?thesis unfolding prefer_pins_def if_not_P [OF False]
    by (intro yields_only_bind [OF search_yields [OF assms]]) (auto intro: good_graph_within [OF _ within] split: option.split)
qed

lemma yields_only_at: "(\<And>x. yields_only sem rq Q (m x)) \<Longrightarrow> yields_only sem rq Q (\<lambda>s. m (g s) s)"
  unfolding yields_only_def by blast

lemma yields_only_conflict: "yields_only sem rq Q (\<lambda>s. throw (ConflictError (rv_conflict s)) s)"
  by (auto simp: yields_only_def throw_def)

lemma fix_newest_yields:
  assumes "alias_ok rq alias"
  shows "yields_only sem rq (\<lambda>_. True) (fix_newest sem rq alias targets fixed k cs)"
  by (induction cs) (auto intro: yields_only_bind [OF prefer_pins_yields [OF assms]] split: if_splits)

lemma fix_targets_yields:
  assumes "alias_ok rq alias"
  shows "yields_only sem rq (\<lambda>_. True) (fix_targets sem rq alias targets initial ks fixed)"
proof (induction ks arbitrary: fixed)
  case (Cons k ks)
  have "yields_only sem rq (\<lambda>_. True) (\<lambda>s. bind_step
        (fix_newest sem rq alias targets fixed k (case fmlookup (rv_cache s) k of Some (_, found) \<Rightarrow> cs_candidates found | None \<Rightarrow> []))
        (\<lambda>r. case r of
           Some fixed \<Rightarrow> fix_targets sem rq alias targets initial ks fixed
         | None \<Rightarrow> (\<lambda>s. throw (ConflictError (rv_conflict s)) s)) s)"
  proof -
    have "yields_only sem rq (\<lambda>_. True) (bind_step (fix_newest sem rq alias targets fixed k cs)
        (\<lambda>r. case r of
           Some fixed \<Rightarrow> fix_targets sem rq alias targets initial ks fixed
         | None \<Rightarrow> (\<lambda>s. throw (ConflictError (rv_conflict s)) s)))" for cs
      by (rule yields_only_bind [OF fix_newest_yields [OF assms]])
        (simp add: Cons.IH yields_only_conflict split: option.split)
    then show ?thesis by (rule yields_only_at)
  qed
  with Cons.IH show ?case by simp
qed simp

lemma or_conflict_yields:
  assumes "\<And>g. r = Some g \<Longrightarrow> Q g"
  shows "yields_only sem rq Q (or_conflict r)"
  using assms by (auto simp: yields_only_def or_conflict_def split: option.splits)

lemma root_alias_ok: "alias_ok rq (root_alias rq)"
proof (cases "root_aliases rq")
  case (Cons k ks)
  then have "k \<in> set (root_aliases rq)" by simp
  then have "k |\<in>| fmdom (rq_overrides rq)" by (auto simp: root_aliases_def set_entries fmdomI)
  with Cons show ?thesis by (simp add: alias_ok_def root_alias_def)
qed (simp add: alias_ok_def root_alias_def)

lemma resolve_graph_yields:
  assumes "resolve_graph sem rq p = (r, t)"
  shows "r \<noteq> Inl Panicked" "r = Inr g \<Longrightarrow> eligible sem rq (rq_candidate rq) \<and> good_graph sem rq (root_alias rq) (policy_targets rq) fmempty g"
proof -
  note search = search_yields [OF root_alias_ok]
  have "yields_only sem rq (\<lambda>_. True)
       (case rq_policy rq of
         Update keys \<Rightarrow>
           bind_step (bind_step (search sem rq (root_alias rq) (policy_targets rq) fmempty (initial_selection rq) 0) or_conflict) (\<lambda>initial.
             fix_targets sem rq (root_alias rq) (policy_targets rq) initial (sorted_list_of_fset keys) fmempty)
       | _ \<Rightarrow> return fmempty)"
    by (auto intro!: yields_only_bind [OF yields_only_bind [OF search or_conflict_yields]] fix_targets_yields [OF root_alias_ok] split: resolution_policy.split)
  then have "yields_only sem rq (good_graph sem rq (root_alias rq) (policy_targets rq) fmempty)
       (bind_step
            (case rq_policy rq of
               Update keys \<Rightarrow>
                 bind_step (bind_step (search sem rq (root_alias rq) (policy_targets rq) fmempty (initial_selection rq) 0) or_conflict) (\<lambda>initial.
                   fix_targets sem rq (root_alias rq) (policy_targets rq) initial (sorted_list_of_fset keys) fmempty)
             | _ \<Rightarrow> return fmempty)
            (\<lambda>fixed. bind_step (prefer_pins sem rq (root_alias rq) (policy_targets rq) fixed) or_conflict))"
    by (rule yields_only_bind)
      (rule yields_only_bind [OF prefer_pins_yields [OF root_alias_ok]], rule or_conflict_yields,
        auto intro: good_graph_within simp: within_def)
  moreover have "cache_ok sem rq (start_state p)" by (simp add: cache_ok_def start_state_def)
  ultimately have "r \<noteq> Inl Panicked \<and> (\<forall>g. r = Inr g \<longrightarrow> eligible sem rq (rq_candidate rq) \<and> good_graph sem rq (root_alias rq) (policy_targets rq) fmempty g)"
    using assms unfolding resolve_graph_def yields_only_def by (auto simp: throw_def split: list.splits if_splits)
  then show "r \<noteq> Inl Panicked" "r = Inr g \<Longrightarrow> eligible sem rq (rq_candidate rq) \<and> good_graph sem rq (root_alias rq) (policy_targets rq) fmempty g" by blast+
qed

end
