(* ===== verification/Fai_Solutions.thy ===== *)
theory Fai_Solutions
  imports Fai_Resolving
begin

text \<open>
  The resolver finds a solution when there is one: as long as the provider answers and offers what a
  solution consists of, no conflict is reported except the limit on decisions. The properties of the
  resolver are stated here.
\<close>

section \<open>What the provider offers\<close>

text \<open>
  The contract of the provider, for the packages of a solution: whatever its state, when it answers at all
  it returns every candidate that matches all the selectors asked for, and it binds the branches asked
  for as the solution has them.
\<close>

definition answer_offers ::
  "('p, 'v, 'r) semantics \<Rightarrow> (package_key \<Rightarrow> (utext, utext) fmap) \<Rightarrow> package_key \<Rightarrow> ('v, 'r) package_candidate \<Rightarrow>
   'r package_selector list \<Rightarrow> ('v, 'r) found_candidates \<Rightarrow> bool" where
  "answer_offers sem B k c selectors found \<longleftrightarrow>
     ((\<forall>sel \<in> set selectors. matches_selector sem c sel (B k)) \<longrightarrow>
        c \<in> set (cs_candidates found) \<and>
        (\<forall>b. SelBranch b \<in> set selectors \<longrightarrow> fmlookup (cs_branches found) b = fmlookup (B k) b))"

definition offers ::
  "('p, 'v, 'r) semantics \<Rightarrow> ('v, 'r) resolution_request \<Rightarrow> (package_key \<Rightarrow> (utext, utext) fmap) \<Rightarrow>
   (package_key, ('v, 'r) package_candidate) fmap \<Rightarrow> bool" where
  "offers sem rq B packages \<longleftrightarrow>
     (\<forall>k c selectors pin refresh p found p'. fmlookup packages k = Some c \<longrightarrow> k \<noteq> rq_root rq \<longrightarrow>
        sem_provider sem (actual_key rq k) selectors pin refresh p = (Inr found, p') \<longrightarrow>
        answer_offers sem B k c selectors found)"

definition cache_offers ::
  "('p, 'v, 'r) semantics \<Rightarrow> ('v, 'r) resolution_request \<Rightarrow> (package_key \<Rightarrow> (utext, utext) fmap) \<Rightarrow>
   (package_key, ('v, 'r) package_candidate) fmap \<Rightarrow> ('p, 'v, 'r) resolver \<Rightarrow> bool" where
  "cache_offers sem rq B packages s \<longleftrightarrow>
     (\<forall>k c selectors found. fmlookup packages k = Some c \<longrightarrow> k \<noteq> rq_root rq \<longrightarrow>
        fmlookup (rv_cache s) k = Some (selectors, found) \<longrightarrow> answer_offers sem B k c selectors found)"

definition benign :: "('v, 'r) resolution_error \<Rightarrow> bool" where
  "benign e \<longleftrightarrow> (case e of ConflictError c \<Rightarrow> rc_message c = TooManyDecisions | ProviderError _ \<Rightarrow> True | Panicked \<Rightarrow> False)"

text \<open>The setting of the proofs: a solution whose parts are on offer.\<close>

definition solution ::
  "('p, 'v, 'r) semantics \<Rightarrow> ('v, 'r) resolution_request \<Rightarrow> package_key option \<Rightarrow> (package_key \<Rightarrow> (utext, utext) fmap) \<Rightarrow>
   (package_key, ('v, 'r) package_candidate) fmap \<Rightarrow> bool" where
  "solution sem rq ra B S \<longleftrightarrow> solves sem rq ra B S \<and> offers sem rq B S"

lemma root_selected: "fmlookup S (rq_root rq) = Some (rq_candidate rq)" "B (rq_root rq) = fmempty"
  "root_replacement_ok sem rq ra (rq_candidate rq) fmempty" if "solution sem rq ra B S"
  using that by (simp_all add: solution_def solves_def)

lemma ask_provider_offers:
  assumes sol: "solution sem rq ra B S" and "ask_provider sem rq k selectors s = (r, t)" "cache_offers sem rq B S s"
  shows "cache_offers sem rq B S t \<and> (\<forall>e. r = Inl e \<longrightarrow> benign e)"
proof -
  obtain answer p where a: "sem_provider sem (actual_key rq k) selectors (relevant_pin rq k) (wants_refresh rq k) (rv_provider s) = (answer, p)"
    by (cases "sem_provider sem (actual_key rq k) selectors (relevant_pin rq k) (wants_refresh rq k) (rv_provider s)")
  show ?thesis
  proof (cases "\<exists>found. r = Inr found")
    case False
    with a assms show ?thesis
      by (auto simp: ask_provider_def Let_def cache_offers_def benign_def split: sum.splits if_splits)
  next
    case True
    then obtain found where found: "answer = Inr found"
      "t = s\<lparr>rv_provider := p, rv_cache := fmupd k (selectors, found\<lparr>cs_candidates := remdups_adj (newest_first (filter (eligible sem rq) (cs_candidates found)))\<rparr>) (rv_cache s)\<rparr>"
      using a assms(2) by (auto simp: ask_provider_def Let_def split: sum.splits if_splits)
    have "answer_offers sem B k c selectors (found\<lparr>cs_candidates := remdups_adj (newest_first (filter (eligible sem rq) (cs_candidates found)))\<rparr>)"
      if k: "fmlookup S k = Some c" "k \<noteq> rq_root rq" for c
    proof -
      have "answer_offers sem B k c selectors found" using sol a found(1) k unfolding solution_def offers_def by blast
      moreover have "eligible sem rq c" using sol k unfolding solution_def solves_def by blast
      ultimately show ?thesis by (simp add: answer_offers_def set_newest_first)
    qed
    with assms(3) have "cache_offers sem rq B S t" unfolding cache_offers_def found(2) by auto
    with True show ?thesis by auto
  qed
qed

lemma candidate_set_offers:
  assumes sol: "solution sem rq ra B S" and "candidate_set sem rq k rs s = (r, t)" "cache_offers sem rq B S s"
  shows "cache_offers sem rq B S t \<and> (\<forall>e. r = Inl e \<longrightarrow> benign e)"
  using assms(2)
proof (cases rule: candidate_set_cases)
  case (cached found)
  with assms(3) show ?thesis by simp
next
  case asked
  from ask_provider_offers [OF sol asked(1) assms(3)] show ?thesis .
qed

lemma candidate_set_cached:
  assumes "candidate_set sem rq k rs s = (Inr found, t)"
  shows "fmlookup (rv_cache t) k = Some (wanted_selectors sem rq k rs, found)"
  using assms
proof (cases rule: candidate_set_cases)
  case (cached f)
  with assms show ?thesis by simp
next
  case asked
  from asked(1) show ?thesis by (cases rule: ask_provider_cases) auto
qed

text \<open>A part of the solution, and what its packages have to satisfy.\<close>

definition part ::
  "('v, 'r) resolution_request \<Rightarrow> (package_key, ('v, 'r) package_candidate) fmap \<Rightarrow> (package_key, ('v, 'r) package_candidate) fmap \<Rightarrow> bool" where
  "part rq S selected \<longleftrightarrow>
     fmlookup selected (rq_root rq) = Some (rq_candidate rq) \<and> (\<forall>k c. fmlookup selected k = Some c \<longrightarrow> fmlookup S k = Some c)"

lemma part_requirement:
  assumes sol: "solution sem rq ra B S" and "part rq S selected" "r \<in> set (required_of (requirements rq ra selected) k)"
  obtains c where "fmlookup S k = Some c" "satisfies sem rq c r (B k)" "resolver_key rq ra (pr_package r) = k"
proof -
  from assms(3) have r: "in_force rq selected r" "resolver_key rq ra (pr_package r) = k" by (simp_all add: requirements_of)
  then have "in_force rq S r" using assms(2) unfolding part_def by (blast intro: in_force_mono)
  with sol r(2) that show thesis unfolding solution_def solves_def by blast
qed

lemma wanted_match:
  assumes sol: "solution sem rq ra B S" and "part rq S selected" "fmlookup S k = Some c" "k \<noteq> rq_root rq" "sel \<in> set (wanted_selectors sem rq k (required_of (requirements rq ra selected) k))"
  shows "matches_selector sem c sel (B k)"
proof (cases "fmlookup (rq_overrides rq) k")
  case (Some replacement)
  with assms(5) have "sel = pr_selector replacement" by (simp add: wanted_selectors_def)
  with Some assms(3,4) sol show ?thesis unfolding solution_def solves_def by blast
next
  case None
  with assms(5) obtain r where r: "r \<in> set (required_of (requirements rq ra selected) k)" "sel = pr_selector r"
    by (auto simp: wanted_selectors_def)
  obtain c' where c': "fmlookup S k = Some c'" "satisfies sem rq c' r (B k)" "resolver_key rq ra (pr_package r) = k"
    by (rule part_requirement [OF sol assms(2) r(1)])
  have "pr_package r = k" using c'(3) assms(4) by (auto simp: resolver_key_def split: if_splits)
  with c' None assms(3) r(2) show ?thesis by (auto simp: satisfies_def fmlookup_dom_iff)
qed

lemma part_usable:
  assumes sol: "solution sem rq ra B S" and "part rq S selected" "keeps_pins fixed S" "fmlookup S k = Some c"
    and branches: "k = rq_root rq \<Longrightarrow> branches = fmempty"
      "k \<noteq> rq_root rq \<Longrightarrow> candidate_set sem rq k (required_of (requirements rq ra selected) k) s = (Inr found, t) \<and> cache_offers sem rq B S s \<and> branches = cs_branches found"
  shows "usable sem rq fixed k c (required_of (requirements rq ra selected) k) branches"
    "k \<noteq> rq_root rq \<Longrightarrow> choosable sem rq fixed k (required_of (requirements rq ra selected) k) branches c \<and> c \<in> set (cs_candidates found)"
proof -
  let ?rs = "required_of (requirements rq ra selected) k"
  have offered: "c \<in> set (cs_candidates found)"
    "\<And>b. SelBranch b \<in> set (wanted_selectors sem rq k ?rs) \<Longrightarrow> fmlookup branches b = fmlookup (B k) b" if k: "k \<noteq> rq_root rq"
  proof -
    from branches(2) [OF k] have run: "candidate_set sem rq k ?rs s = (Inr found, t)" "cache_offers sem rq B S s" "branches = cs_branches found" by auto
    from candidate_set_offers [OF sol run(1,2)] candidate_set_cached [OF run(1)] assms(4) k
    have "answer_offers sem B k c (wanted_selectors sem rq k ?rs) found" unfolding cache_offers_def by blast
    then show "c \<in> set (cs_candidates found)"
      "\<And>b. SelBranch b \<in> set (wanted_selectors sem rq k ?rs) \<Longrightarrow> fmlookup branches b = fmlookup (B k) b"
      using wanted_match [OF sol assms(2,4) k] run(3) by (auto simp: answer_offers_def)
  qed
  have same: "matches_selector sem c sel branches = matches_selector sem c sel (B k)" if "k \<noteq> rq_root rq" "sel \<in> set (wanted_selectors sem rq k ?rs)" for sel
    using offered(2) [OF that(1)] that(2) by (cases sel) (auto simp: matches_selector_def split: package_source.split)
  have "satisfies sem rq c r branches" if r: "r \<in> set ?rs" for r
  proof -
    obtain c' where "fmlookup S k = Some c'" "satisfies sem rq c' r (B k)" and key: "resolver_key rq ra (pr_package r) = k"
      by (rule part_requirement [OF sol assms(2) r])
    with assms(4) have sat: "satisfies sem rq c r (B k)" by simp
    show ?thesis
    proof (cases "k = rq_root rq")
      case True
      with sat branches(1) root_selected(2) [OF sol] show ?thesis by simp
    next
      case False
      show ?thesis
      proof (cases "pr_package r |\<in>| fmdom (rq_overrides rq)")
        case True
        with sat show ?thesis by (simp add: satisfies_def)
      next
        case no: False
        have "pr_package r = k" using key False by (auto simp: resolver_key_def split: if_splits)
        with no r have "pr_selector r \<in> set (wanted_selectors sem rq k ?rs)" by (auto simp: wanted_selectors_def fmdom_notD)
        with same [OF False] sat no show ?thesis by (simp add: satisfies_def)
      qed
    qed
  qed
  with assms(3,4) show usable: "usable sem rq fixed k c ?rs branches"
    by (auto simp: usable_def list_all_iff keeps_pins_def split: option.split)
  assume k: "k \<noteq> rq_root rq"
  have "matches_selector sem c (pr_selector replacement) branches" if rep: "fmlookup (rq_overrides rq) k = Some replacement" for replacement
  proof -
    from rep have "pr_selector replacement \<in> set (wanted_selectors sem rq k ?rs)" by (simp add: wanted_selectors_def)
    with same [OF k] wanted_match [OF sol assms(2,4) k] show ?thesis by blast
  qed
  with usable offered(1) [OF k] show "choosable sem rq fixed k ?rs branches c \<and> c \<in> set (cs_candidates found)"
    by (auto simp: choosable_def split: option.split)
qed

section \<open>The search finds a solution\<close>

lemma check_selected_offers:
  assumes sol: "solution sem rq ra B S"
    and "check_selected sem rq ra fixed required es s = (r, t)" "cache_offers sem rq B S s"
  shows "cache_offers sem rq B S t \<and> (\<forall>e. r = Inl e \<longrightarrow> benign e) \<and>
    (required = requirements rq ra selected \<longrightarrow> part rq S selected \<longrightarrow> keeps_pins fixed S \<longrightarrow> (\<forall>(k, c) \<in> set es. fmlookup S k = Some c) \<longrightarrow>
      r \<noteq> Inr False)"
  using assms(2,3)
proof (induction es arbitrary: s)
  case Nil
  then show ?case by (auto simp: return_def)
next
  case (Cons e es)
  obtain k c where e [simp]: "e = (k, c)" by (cases e)
  let ?rs = "required_of required k"
  let ?ask = "if k = rq_root rq then return fmempty else bind_step (candidate_set sem rq k ?rs) (\<lambda>found. return (cs_branches found))"
  let ?fine = "\<lambda>branches. usable sem rq fixed k c ?rs branches \<and> (k = rq_root rq \<longrightarrow> root_replacement_ok sem rq ra c branches)"
  have ask: "cache_offers sem rq B S u \<and> (\<forall>e. r1 = Inl e \<longrightarrow> benign e) \<and>
      (\<forall>branches. r1 = Inr branches \<longrightarrow> (if k = rq_root rq then branches = fmempty else \<exists>found. candidate_set sem rq k ?rs s = (Inr found, u) \<and> branches = cs_branches found))"
    if "?ask s = (r1, u)" for r1 u
  proof (cases "k = rq_root rq")
    case True
    with that Cons.prems(2) show ?thesis by (auto simp: return_def)
  next
    case False
    with that have "bind_step (candidate_set sem rq k ?rs) (\<lambda>found. return (cs_branches found)) s = (r1, u)" by simp
    then show ?thesis
    proof (cases rule: bind_stepE)
      case (failed e)
      with candidate_set_offers [OF sol failed(1) Cons.prems(2)] show ?thesis by simp
    next
      case (went_on found u1)
      with candidate_set_offers [OF sol went_on(1) Cons.prems(2)] False show ?thesis by (auto simp: return_def)
    qed
  qed
  from Cons.prems(1) [unfolded e check_selected.simps Let_def] show ?case
  proof (cases rule: bind_stepE)
    case (failed err)
    with ask [OF failed(1)] show ?thesis by auto
  next
    case (went_on branches u)
    note a = ask [OF went_on(1)]
    show ?thesis
    proof (cases "?fine branches")
      case True
      with went_on(2) have "check_selected sem rq ra fixed required es u = (r, t)" by simp
      from Cons.IH [OF this] a show ?thesis by auto
    next
      case False
      with went_on(2) have r: "r = Inr False" "rv_cache t = rv_cache u"
        by (auto simp: bind_step_def set_conflict_def return_def)
      have False if h: "required = requirements rq ra selected" "part rq S selected" "keeps_pins fixed S" "fmlookup S k = Some c"
      proof -
        from a obtain found where found: "k \<noteq> rq_root rq \<Longrightarrow> candidate_set sem rq k ?rs s = (Inr found, u) \<and> branches = cs_branches found"
          "k = rq_root rq \<Longrightarrow> branches = fmempty" by (metis (no_types, lifting))
        from part_usable(1) [OF sol h(2,3,4), of branches s found u] found Cons.prems(2) h(1) have "usable sem rq fixed k c ?rs branches" by auto
        moreover have "k = rq_root rq \<Longrightarrow> root_replacement_ok sem rq ra c branches"
          using root_selected [OF sol] found(2) h(4) by auto
        ultimately show False using False by blast
      qed
      with r a show ?thesis by (auto simp: cache_offers_def)
    qed
  qed
qed

lemma try_each_finds:
  assumes "\<And>x s r t. x \<in> set xs \<Longrightarrow> I s \<Longrightarrow> f x s = (r, t) \<Longrightarrow> I t \<and> (\<forall>e. r = Inl e \<longrightarrow> benign e)"
    and "\<And>x s r t. x \<in> set xs \<Longrightarrow> I s \<Longrightarrow> f x s = (r, t) \<Longrightarrow> good x \<Longrightarrow> r \<noteq> Inr None"
    and "I s" "try_each f xs s = (r, t)"
  shows "I t \<and> (\<forall>e. r = Inl e \<longrightarrow> benign e) \<and> ((\<exists>x \<in> set xs. good x) \<longrightarrow> r \<noteq> Inr None)"
  using assms
proof (induction xs arbitrary: s)
  case Nil
  then show ?case by (auto simp: return_def)
next
  case (Cons x xs)
  from Cons.prems(4) [unfolded try_each.simps] show ?case
  proof (cases rule: bind_stepE)
    case (failed e)
    with Cons.prems(1) [OF _ Cons.prems(3) failed(1)] show ?thesis by simp
  next
    case (went_on g u)
    note here = Cons.prems(1) [OF _ Cons.prems(3) went_on(1)]
    show ?thesis
    proof (cases g)
      case (Some g)
      with went_on here show ?thesis by (auto simp: return_def)
    next
      case None
      with went_on(2) have rec: "try_each f xs u = (r, t)" by simp
      have "\<not> good x" using Cons.prems(2) [OF _ Cons.prems(3) went_on(1)] None by auto
      moreover have "I u" using here by simp
      moreover have "I t' \<and> (\<forall>e. r' = Inl e \<longrightarrow> benign e)" if "y \<in> set xs" "I s'" "f y s' = (r', t')" for y s' r' t'
        using Cons.prems(1) [of y s' r' t'] that by simp
      moreover have "r' \<noteq> Inr None" if "y \<in> set xs" "I s'" "f y s' = (r', t')" "good y" for y s' r' t'
        using Cons.prems(2) [of y s' r' t'] that by simp
      ultimately show ?thesis using Cons.IH [OF _ _ _ rec] by auto
    qed
  qed
qed

lemma part_key:
  assumes "solution sem rq ra B S" "part rq S selected" "k |\<in>| fmdom (requirements rq ra selected)"
  shows "\<exists>c. fmlookup S k = Some c"
proof -
  from assms(3) obtain r where "in_force rq selected r" "resolver_key rq ra (pr_package r) = k" unfolding requirements_dom by blast
  then have "r \<in> set (required_of (requirements rq ra selected) k)" by (simp add: requirements_of)
  from part_requirement [OF assms(1,2) this] show ?thesis by blast
qed

lemma depends_part: "part rq S selected \<Longrightarrow> depends key selected \<subseteq> depends key S"
  unfolding part_def depends_def by (auto simp: fmlookup_dom_iff)

lemma part_extend: "part rq S selected \<Longrightarrow> fmlookup S k = Some c \<Longrightarrow> k |\<notin>| fmdom selected \<Longrightarrow> part rq S (fmupd k c selected)"
  by (auto simp: part_def fmdomI)

lemma search_offers:
  assumes sol: "solution sem rq ra B S"
    and "search sem rq ra {||} fixed selected depth s = (r, t)" "cache_offers sem rq B S s"
  shows "cache_offers sem rq B S t \<and> (\<forall>e. r = Inl e \<longrightarrow> benign e) \<and> (part rq S selected \<longrightarrow> keeps_pins fixed S \<longrightarrow> r \<noteq> Inr None)"
  using assms(2,3)
proof (induction "257 - depth" arbitrary: selected depth s r t rule: less_induct)
  case less
  have selected: "\<forall>(k, c) \<in> set (entries selected). fmlookup S k = Some c" if "part rq S selected"
    using that by (auto simp: part_def set_entries)
  note check = check_selected_offers [OF sol _ less.prems(2), where selected = selected]
  from less.prems(1) show ?case
  proof (cases rule: search_cases)
    case deep
    with less.prems(2) show ?thesis by (simp add: benign_def)
  next
    case (check_failed e)
    with check [OF check_failed(3)] show ?thesis by auto
  next
    case (conflict u)
    with check [OF conflict(4)] selected show ?thesis by auto
  next
    case (cycle u c)
    have "acyclic (depends (resolver_key rq ra) S)" using sol by (simp add: solution_def solves_def)
    with cycle(5) have "\<not> part rq S selected" using depends_part acyclic_subset by blast
    with check [OF cycle(4)] cycle show ?thesis by (auto simp: cache_offers_def)
  next
    case (complete u)
    with check [OF complete(2)] show ?thesis by (auto simp: bind_step_def build_graph_def return_def)
  next
    case (no_set u k e)
    from check [OF no_set(2)] candidate_set_offers [OF sol no_set(4)] no_set(5) show ?thesis by simp
  next
    case (stuck u k found v c)
    have u: "cache_offers sem rq B S u" using check [OF stuck(2)] by simp
    note v = candidate_set_offers [OF sol stuck(4) u]
    have "\<not> (part rq S selected \<and> keeps_pins fixed S)"
    proof
      assume h: "part rq S selected \<and> keeps_pins fixed S"
      note k = next_key_Some [OF stuck(3)]
      obtain d where d: "fmlookup S k = Some d" using part_key [OF sol] h k(1) by blast
      have "k \<noteq> rq_root rq" using h k(2) by (auto simp: part_def fmdomI)
      from part_usable(2) [OF sol conjunct1 [OF h] conjunct2 [OF h] d _ _ this, of "cs_branches found" u found v] stuck(4) u this stuck(5)
      show False by (auto simp: filter_empty_conv)
    qed
    with v stuck(6,7) show ?thesis by (auto simp: cache_offers_def)
  next
    case (branch u k found v)
    have u: "cache_offers sem rq B S u" using check [OF branch(2)] by simp
    note v = candidate_set_offers [OF sol branch(4) u]
    note k = next_key_Some [OF branch(3)]
    let ?choices = "filter (choosable sem rq fixed k (required_of (requirements rq ra selected) k) (cs_branches found)) (cs_candidates found)"
    let ?good = "\<lambda>c. part rq S selected \<and> keeps_pins fixed S \<and> fmlookup S k = Some c"
    have "cache_offers sem rq B S t \<and> (\<forall>e. r = Inl e \<longrightarrow> benign e) \<and> ((\<exists>c \<in> set ?choices. ?good c) \<longrightarrow> r \<noteq> Inr None)"
    proof (rule try_each_finds [OF _ _ _ branch(5)])
      fix c s' r' t'
      assume s': "cache_offers sem rq B S s'" and run: "search sem rq ra {||} fixed (fmupd k c selected) (depth + 1) s' = (r', t')"
      have "257 - (depth + 1) < 257 - depth" using branch(1) by simp
      note IH = less.hyps [OF this run s']
      show "cache_offers sem rq B S t' \<and> (\<forall>e. r' = Inl e \<longrightarrow> benign e)" using IH by blast
      show "r' \<noteq> Inr None" if "?good c" using IH part_extend [OF _ _ k(2)] that by blast
    qed (use v in simp)
    moreover have "\<exists>c \<in> set ?choices. ?good c" if h: "part rq S selected" "keeps_pins fixed S"
    proof -
      obtain d where d: "fmlookup S k = Some d" using part_key [OF sol] h k(1) by blast
      have "k \<noteq> rq_root rq" using h k(2) by (auto simp: part_def fmdomI)
      from part_usable(2) [OF sol h d _ _ this, of "cs_branches found" u found v] branch(4) u this d h show ?thesis by auto
    qed
    ultimately show ?thesis by blast
  qed
qed

section \<open>Resolution finds a solution\<close>

definition finds ::
  "('p, 'v, 'r) semantics \<Rightarrow> ('v, 'r) resolution_request \<Rightarrow> (package_key \<Rightarrow> (utext, utext) fmap) \<Rightarrow>
   (package_key, ('v, 'r) package_candidate) fmap \<Rightarrow> ('a \<Rightarrow> bool) \<Rightarrow> ('p, 'v, 'r, 'a) step \<Rightarrow> bool" where
  "finds sem rq B S Q m \<longleftrightarrow>
     (\<forall>s r t. cache_offers sem rq B S s \<longrightarrow> m s = (r, t) \<longrightarrow>
        cache_offers sem rq B S t \<and> (\<forall>e. r = Inl e \<longrightarrow> benign e) \<and> (\<forall>a. r = Inr a \<longrightarrow> Q a))"

lemma finds_return [simp]: "Q a \<Longrightarrow> finds sem rq B S Q (return a)"
  by (auto simp: finds_def return_def)

lemma finds_bind:
  assumes "finds sem rq B S P m" "\<And>a. P a \<Longrightarrow> finds sem rq B S Q (f a)"
  shows "finds sem rq B S Q (bind_step m f)"
  unfolding finds_def
proof (intro allI impI)
  fix s r t assume s: "cache_offers sem rq B S s" and run: "bind_step m f s = (r, t)"
  from run show "cache_offers sem rq B S t \<and> (\<forall>e. r = Inl e \<longrightarrow> benign e) \<and> (\<forall>a. r = Inr a \<longrightarrow> Q a)"
  proof (cases rule: bind_stepE)
    case (failed e)
    with assms(1) s show ?thesis unfolding finds_def by fastforce
  next
    case (went_on a u)
    with assms(1) s have "cache_offers sem rq B S u" "P a" unfolding finds_def by blast+
    with assms(2) went_on(2) show ?thesis unfolding finds_def by blast
  qed
qed

lemma part_initial: "solution sem rq ra B S \<Longrightarrow> part rq S (initial_selection rq)"
  using root_selected(1) by (auto simp: part_def initial_selection_def)

lemma search_finds:
  assumes "solution sem rq ra B S"
  shows "finds sem rq B S (\<lambda>r. keeps_pins fixed S \<longrightarrow> r \<noteq> None) (search sem rq ra {||} fixed (initial_selection rq) 0)"
proof -
  have "cache_offers sem rq B S t \<and> (\<forall>e. r = Inl e \<longrightarrow> benign e) \<and> (\<forall>a. r = Inr a \<longrightarrow> keeps_pins fixed S \<longrightarrow> a \<noteq> None)"
    if "cache_offers sem rq B S s" "search sem rq ra {||} fixed (initial_selection rq) 0 s = (r, t)" for s r t
    using search_offers [OF assms that(2,1)] part_initial [OF assms] by auto
  then show ?thesis unfolding finds_def by blast
qed

lemma retain_pins_finds:
  assumes "solution sem rq ra B S"
  shows "finds sem rq B S (\<lambda>_. True) (retain_pins sem rq ra {||} fixed pins retained best)"
proof (induction pins arbitrary: retained best)
  case (Cons p pins)
  obtain k pin where p: "p = (k, pin)" by (cases p)
  show ?case unfolding p retain_pins.simps
    by (auto intro!: finds_bind [OF search_finds [OF assms]] Cons.IH split: option.split)
qed simp

lemma prefer_pins_finds:
  assumes "solution sem rq ra B S"
  shows "finds sem rq B S (\<lambda>r. r \<noteq> None) (prefer_pins sem rq ra {||} fmempty)"
proof -
  have free: "keeps_pins fmempty S" by (simp add: keeps_pins_def)
  have all: "finds sem rq B S (\<lambda>r. r \<noteq> None) (search sem rq ra {||} fmempty (initial_selection rq) 0)"
    using search_finds [OF assms, of fmempty] free by simp
  have "finds sem rq B S (\<lambda>r. r \<noteq> None)
      (bind_step (search sem rq ra {||} fmempty (initial_selection rq) 0) (\<lambda>r.
              case r of
                None \<Rightarrow> return None
              | Some best \<Rightarrow>
                  bind_step (retain_pins sem rq ra {||} fmempty (entries (rq_pins rq)) fmempty best)
                    (\<lambda>g. return (Some g))))"
    by (rule finds_bind [OF all]) (auto intro!: finds_bind [OF retain_pins_finds [OF assms]])
  then show ?thesis unfolding prefer_pins_def using all
    by (auto intro!: finds_bind [OF search_finds [OF assms]] split: option.split)
qed

text \<open>A request that the resolver searches for: no alias twice, one replacement of the root at most, an eligible root.\<close>

definition well_formed_request :: "('p, 'v, 'r) semantics \<Rightarrow> ('v, 'r) resolution_request \<Rightarrow> bool" where
  "well_formed_request sem rq \<longleftrightarrow>
     shared_aliases (rq_candidate rq) = [] \<and> length (root_aliases rq) \<le> 1 \<and> eligible sem rq (rq_candidate rq)"

lemma resolve_graph_run:
  assumes "well_formed_request sem rq" "rq_policy rq = Conservative \<or> rq_policy rq = UpdateAll"
  shows "resolve_graph sem rq p = bind_step (prefer_pins sem rq (root_alias rq) {||} fmempty) or_conflict (start_state p)"
  using assms by (auto simp: resolve_graph_def well_formed_request_def bind_step_def return_def policy_targets_def)

lemma start_offers: "cache_offers sem rq B S (start_state p)"
  by (simp add: cache_offers_def start_state_def)

lemma resolve_graph_finds:
  assumes "well_formed_request sem rq" "rq_policy rq = Conservative \<or> rq_policy rq = UpdateAll" "solution sem rq (root_alias rq) B S"
    and "resolve_graph sem rq p = (r, t)"
  shows "case r of Inr _ \<Rightarrow> True | Inl e \<Rightarrow> benign e"
proof -
  have "finds sem rq B S (\<lambda>_. True) (bind_step (prefer_pins sem rq (root_alias rq) {||} fmempty) or_conflict)"
    by (rule finds_bind [OF prefer_pins_finds [OF assms(3)]]) (auto simp: finds_def or_conflict_def)
  with assms(4) start_offers show ?thesis
    unfolding resolve_graph_run [OF assms(1,2)] finds_def by (fastforce split: sum.split)
qed

lemma conservative_run:
  assumes "solution sem rq ra B S" "rq_policy rq = Conservative" "keeps_pins (fmdrop (rq_root rq) (rq_pins rq)) S"
    and "alias_ok rq ra" "cache_ok sem rq s" "cache_offers sem rq B S s"
    and "prefer_pins sem rq ra {||} fmempty s = (Inr r, t)"
  shows "\<exists>g. r = Some g \<and> keeps_pins (fmdrop (rq_root rq) (rq_pins rq)) (rg_packages g)"
proof -
  let ?pins = "fmdrop (rq_root rq) (rq_pins rq)"
  have run: "bind_step (search sem rq ra {||} ?pins (initial_selection rq) 0) (\<lambda>r.
        case r of
          Some graph \<Rightarrow> return (Some graph)
        | None \<Rightarrow>
            bind_step (search sem rq ra {||} fmempty (initial_selection rq) 0) (\<lambda>r.
              case r of
                None \<Rightarrow> return None
              | Some best \<Rightarrow>
                  bind_step (retain_pins sem rq ra {||} fmempty (entries (rq_pins rq)) fmempty best)
                    (\<lambda>g. return (Some g)))) s = (Inr r, t)"
    using assms(7) unfolding prefer_pins_def by (simp add: assms(2))
  from run show ?thesis
  proof (cases rule: bind_stepE)
    case (went_on a u)
    from search_finds [OF assms(1), of ?pins] went_on(1) assms(3,6) have "a \<noteq> None" unfolding finds_def by blast
    then obtain g where a: "a = Some g" by blast
    with search_yields [OF assms(4), of sem "{||}" ?pins] went_on(1) assms(5) have "good_graph sem rq ra {||} ?pins g"
      unfolding yields_only_def by blast
    with went_on(2) a show ?thesis by (auto simp: return_def good_graph_def)
  qed auto
qed

section \<open>Properties\<close>

text \<open>
  C14: dependency cycles are found exactly: the check ends without underflow and answers whether the
  dependencies among the selected packages, under any renaming of keys, contain a cycle.
\<close>

theorem has_cycle_exact: "has_cycle packages key = Some (\<not> acyclic (depends key packages))"
  by (rule has_cycle_spec)

text \<open>
  C11: whatever the provider does, resolution returns without a panic, and a graph it returns is a solution
  under the branch bindings it records: the root as requested and eligible, every other package eligible,
  of the identity it stands for and needed by some requirement, every requirement of every selected
  package and every development requirement of the root satisfied, no dependency cycle, exactly the
  edges declared, and every package an update was asked for.
\<close>

theorem resolve_graph_sound:
  "case resolve_graph sem rq p of
     (Inl e, _) \<Rightarrow> e \<noteq> Panicked
   | (Inr g, _) \<Rightarrow>
       eligible sem rq (rq_candidate rq) \<and> rg_root g = rq_root rq \<and>
       rg_edges g = graph_edges rq (root_alias rq) (rg_packages g) \<and>
       solves sem rq (root_alias rq) (graph_bindings g) (rg_packages g) \<and>
       needed rq (root_alias rq) (rg_packages g) \<and> policy_targets rq |\<subseteq>| fmdom (rg_packages g)"
proof -
  obtain r t where "resolve_graph sem rq p = (r, t)" by (cases "resolve_graph sem rq p")
  with resolve_graph_yields [OF this] show ?thesis by (auto simp: good_graph_def split: sum.split)
qed



section \<open>An example\<close>

text \<open>
  The root asks for two packages. The newest version of the first needs a version of the second that does
  not exist, so the search has to go back to the older one.
\<close>

abbreviation sample_first :: package_key where
  "sample_first \<equiv> GitKey (GitPackage (str ''one'') [])"

abbreviation sample_second :: package_key where
  "sample_second \<equiv> GitKey (GitPackage (str ''two'') [])"

abbreviation sample_root :: package_key where
  "sample_root \<equiv> PathKey (str ''app'')"

definition sample_requirement :: "package_key \<Rightarrow> nat \<Rightarrow> nat package_requirement" where
  "sample_requirement k v = \<lparr>pr_package = k, pr_selector = SelVersion v, pr_origin = \<lparr>ro_manifest = [], ro_field = []\<rparr>\<rparr>"

definition sample_candidate :: "package_source \<Rightarrow> nat \<Rightarrow> (utext, nat package_requirement) fmap \<Rightarrow> (nat, nat) package_candidate" where
  "sample_candidate source v deps =
     \<lparr>pc_source = source, pc_version = v, pc_released = True, pc_compiler = 0, pc_platforms = [], pc_dependencies = deps,
      pc_development = fmempty, pc_manifest_fingerprint = [], pc_checksum = None\<rparr>"

definition first_version :: "nat \<Rightarrow> (nat, nat) package_candidate" where
  "first_version v = sample_candidate (GitSource (GitPackage (str ''one'') []) [v]) v
     (if v = 2 then fmupd (str ''two'') (sample_requirement sample_second 3) fmempty else fmempty)"

definition second_version :: "nat \<Rightarrow> (nat, nat) package_candidate" where
  "second_version v = sample_candidate (GitSource (GitPackage (str ''two'') []) [v]) v fmempty"

definition sample_semantics :: "(unit, nat, nat) semantics" where
  "sample_semantics =
     \<lparr>sem_matches = (\<le>), sem_debug = (\<lambda>_. []),
      sem_provider = (\<lambda>k _ _ _ p.
        (Inr \<lparr>cs_candidates = (if k = sample_first then [first_version 1, first_version 2]
                                else if k = sample_second then [second_version 1, second_version 2] else []),
              cs_branches = fmempty\<rparr>, p))\<rparr>"

definition sample_app :: "(nat, nat) package_candidate" where
  "sample_app = sample_candidate (PathSource (str ''app'')) 1
     (fmupd (str ''a'') (sample_requirement sample_first 1) (fmupd (str ''b'') (sample_requirement sample_second 1) fmempty))"

definition sample_request :: "(nat, nat) resolution_request" where
  "sample_request =
     \<lparr>rq_root = sample_root, rq_candidate = sample_app, rq_compiler = 0, rq_target = \<lparr>tp_os = [], tp_arch = [], tp_environment = []\<rparr>,
      rq_pins = fmupd sample_second \<lparr>pin_source = pc_source (second_version 1), pin_version = 1, pin_released = True, pin_branches = fmempty\<rparr> fmempty,
      rq_overrides = fmempty, rq_policy = Conservative\<rparr>"

definition sample_solution :: "(package_key, (nat, nat) package_candidate) fmap" where
  "sample_solution = fmupd sample_root sample_app (fmupd sample_first (first_version 1) (fmupd sample_second (second_version 1) fmempty))"

lemmas sample_defs = sample_request_def sample_app_def sample_solution_def sample_semantics_def first_version_def second_version_def
  sample_candidate_def sample_requirement_def

lemma sample_well_formed: "well_formed_request sample_semantics sample_request"
  by code_simp

lemma sample_alias: "root_alias sample_request = None"
  by code_simp

lemma sample_offers: "offers sample_semantics sample_request (\<lambda>_. fmempty) sample_solution"
  unfolding offers_def answer_offers_def
  by (auto simp: sample_defs actual_key_def matches_selector_def split: if_splits)

text \<open>Being a solution can be computed.\<close>

lemma list_all_entries: "list_all (\<lambda>(k, c). P k c) (entries m) \<longleftrightarrow> (\<forall>k c. fmlookup m k = Some c \<longrightarrow> P k c)"
  by (auto simp: list_all_iff set_entries)

lemma solves_code [code]:
  "solves sem rq al B packages \<longleftrightarrow>
     B (rq_root rq) = fmempty \<and> fmlookup packages (rq_root rq) = Some (rq_candidate rq) \<and>
     root_replacement_ok sem rq al (rq_candidate rq) fmempty \<and>
     list_all (\<lambda>(k, c). k = rq_root rq \<or>
        eligible sem rq c \<and> same_source (actual_key rq k) (pc_source c) \<and>
        (case fmlookup (rq_overrides rq) k of
           None \<Rightarrow> True | Some replacement \<Rightarrow> matches_selector sem c (pr_selector replacement) (B k))) (entries packages) \<and>
     list_all (\<lambda>r. case fmlookup packages (resolver_key rq al (pr_package r)) of
           None \<Rightarrow> False | Some c \<Rightarrow> satisfies sem rq c r (B (resolver_key rq al (pr_package r))))
       (concat (map (\<lambda>c. fm_values (pc_dependencies c)) (fm_values packages)) @ fm_values (pc_development (rq_candidate rq))) \<and>
     has_cycle packages (resolver_key rq al) = Some False"
proof -
  have req: "list_all P (concat (map (\<lambda>c. fm_values (pc_dependencies c)) (fm_values packages)) @ fm_values (pc_development (rq_candidate rq))) \<longleftrightarrow>
      (\<forall>r. in_force rq packages r \<longrightarrow> P r)" for P
    unfolding list_all_iff set_requirements by simp
  have some: "(case x of None \<Rightarrow> False | Some c \<Rightarrow> Q c) \<longleftrightarrow> (\<exists>c. x = Some c \<and> Q c)"
    and every: "(case x of None \<Rightarrow> True | Some c \<Rightarrow> Q c) \<longleftrightarrow> (\<forall>c. x = Some c \<longrightarrow> Q c)" for x :: "'x option" and Q
    by (cases x; simp)+
  show ?thesis
    unfolding solves_def req some every list_all_entries has_cycle_spec by simp blast
qed

lemma sample_solves: "solves sample_semantics sample_request (root_alias sample_request) (\<lambda>_. fmempty) sample_solution"
  by code_simp


lemma sample_keeps: "keeps_pins (fmdrop (rq_root sample_request) (rq_pins sample_request)) sample_solution"
  by (auto simp: keeps_pins_def sample_defs PackagePin_matches_def split: if_splits)

definition sample_graph :: "(nat, nat) resolved_graph" where
  "sample_graph =
     \<lparr>rg_root = sample_root, rg_packages = sample_solution, rg_edges = graph_edges sample_request None sample_solution, rg_branches = fmempty\<rparr>"

lemma sample_resolves: "fst (resolve_graph sample_semantics sample_request ()) = Inr sample_graph"
  by code_simp


end
