(* ===== verification/Spec2Isabelle.thy ===== *)
theory Spec2Isabelle
  imports Fai_Span Fai_Diagnostics Fai_Lexing Fai_Layout Fai_Attach Fai_Heap Fai_Pool Fai_Doc Fai_Exhaustive Fai_Anf Fai_Unified Fai_Solutions
begin

text \<open>
  A verification library for the Fai compiler: a strict functional language with effects and records, a
  query-based front end, a reference-counting native back end and a package manager, written in Rust
  under \<^verbatim>\<open>src/crates\<close>. File names below are relative to that directory.

  \<^bold>\<open>The program.\<close> A source text is registered and gets positions (\<^verbatim>\<open>fai-span\<close>); the lexer cuts it into
  tokens and comments and reports what it rejects as diagnostics (\<^verbatim>\<open>fai-syntax\<close>, \<^verbatim>\<open>fai-diagnostics\<close>); the
  layout pass inserts the virtual tokens of the offside rule, which the parser reads. Names are resolved,
  types inferred and matches checked (\<^verbatim>\<open>fai-resolve\<close>, \<^verbatim>\<open>fai-types\<close>). The typed program is lowered to Core
  (\<^verbatim>\<open>fai-core\<close>), reference counts are inserted and checked (\<^verbatim>\<open>fai-rc\<close>), and native code is emitted
  (\<^verbatim>\<open>fai-codegen\<close>) that runs on cells managed by the runtime (\<^verbatim>\<open>fai-runtime\<close>). The formatter prints a tree
  with its comments through documents (\<^verbatim>\<open>fai-fmt\<close>), and the package manager resolves dependencies
  (\<^verbatim>\<open>fai-package\<close>).

  \<^bold>\<open>The theories.\<close> Each models one part; definitions keep the names of the code, with the type as a
  prefix for methods.

  \<^item> \<open>Fai_Prelude\<close>: texts as lists of Unicode scalar values with their UTF-8 byte positions, 32-bit
    conversions, and the lemmas on positions that the front end shares.
  \<^item> \<open>Fai_Span\<close>: \<^verbatim>\<open>fai-span/src/span.rs\<close>, \<^verbatim>\<open>line.rs\<close>, \<^verbatim>\<open>source_map.rs\<close>, \<^verbatim>\<open>resolver.rs\<close>. The registry and the
    resolver are locales (\<open>source_registry\<close>, \<open>span_resolver\<close>), interpreted on \<^verbatim>\<open>SourceMap\<close>. Line and column
    of an offset are what reading the text up to it gives, and offsets are recovered from positions.
  \<^item> \<open>Fai_Diagnostics\<close>: \<^verbatim>\<open>fai-diagnostics/src\<close>. Codes, builders, the canonical order, rendering, wire form.
  \<^item> \<open>Fai_Token\<close>, \<open>Fai_Literal\<close>, \<open>Fai_Lexer\<close>, \<open>Fai_Lexing\<close>: \<^verbatim>\<open>fai-syntax/src/token.rs\<close>, \<^verbatim>\<open>literal.rs\<close>, \<^verbatim>\<open>lexer.rs\<close>.
    The record \<open>lexer\<close> is the struct \<^verbatim>\<open>Lexer\<close>, one definition per method. \<open>Fai_Lexing\<close> has the abstract
    relation \<open>lexes\<close> and the refinement, coverage, shape and range properties.
  \<^item> \<open>Fai_Layout\<close>: \<^verbatim>\<open>fai-syntax/src/layout.rs\<close>. The position cursor is a locale (\<open>position_scan\<close>); the
    layouter refines the offside rule on positioned tokens.
  \<^item> \<open>Fai_Attach\<close>: \<^verbatim>\<open>fai-syntax/src/attach.rs\<close>, attachment of comments to the spans of a tree.
  \<^item> \<open>Fai_Doc\<close>: \<^verbatim>\<open>fai-fmt/src/doc.rs\<close>, documents, the fit test and the printer.
  \<^item> \<open>Fai_Types\<close>: \<^verbatim>\<open>fai-types/src/ty.rs\<close>, reified types and their rendering.
  \<^item> \<open>Fai_Solver\<close>, \<open>Fai_Unify\<close>, \<open>Fai_Unified\<close>: \<^verbatim>\<open>fai-types/src/infer/ctx.rs\<close>, the solver of type, row and effect
    equations behind inference. Types are given ground values under assignments of their variables;
    unification succeeds on types with a common value, always returns without row variables and then succeeds
    only on such types. Three runs show where unification of open records goes wrong.
  \<^item> \<open>Fai_Exhaustive\<close>: \<^verbatim>\<open>fai-types/src/exhaustive.rs\<close>. The matrix algorithm against the values of types.
  \<^item> \<open>Fai_Core\<close>: \<^verbatim>\<open>fai-core/src/ir.rs\<close>, the expressions and primitives of Core with their ownership table.
  \<^item> \<open>Fai_Ownership\<close>, \<open>Fai_Paths\<close>: \<^verbatim>\<open>fai-rc/src/verify.rs\<close>, the ownership checker, and its soundness for the
    execution paths of a function.
  \<^item> \<open>Fai_Insertion\<close>, \<open>Fai_Counting\<close>, \<open>Fai_Anf\<close>: \<^verbatim>\<open>fai-rc/src/lib.rs\<close>, A-normal form and \<^verbatim>\<open>Rc::owned\<close>, and
    that what they produce is accepted by the checker.
  \<^item> \<open>Fai_Header\<close>, \<open>Fai_Heap\<close>: \<^verbatim>\<open>fai-runtime/src/data_header.rs\<close> and the reference-counting part of
    \<^verbatim>\<open>fai-runtime/src/lib.rs\<close>, on 64-bit words and on a heap that maps addresses to cells. The worklist of
    drops is a locale (\<open>work_stack\<close>).
  \<^item> \<open>Fai_Pool\<close>: \<^verbatim>\<open>fai-runtime/src/slab.rs\<close> and \<^verbatim>\<open>Pool\<close> of \<^verbatim>\<open>fai-runtime/src/lib.rs\<close>. The threads that take, write,
    return and exchange small cells are a step relation; the counts of slabs are a locale
    (\<open>slab_references\<close>). Cells in use stay apart, no call faults, and slabs are unmapped by their last owner.
  \<^item> \<open>Fai_Resolver\<close>, \<open>Fai_Resolving\<close>, \<open>Fai_Solutions\<close>: \<^verbatim>\<open>fai-package/src/resolver.rs\<close>. The search with its
    cache and preferences as steps on a state; soundness for every provider, completeness for a provider
    that offers the parts of a solution.

  \<^bold>\<open>Errors and state.\<close> A panic, an abort of the process or a failed \<^verbatim>\<open>expect\<close> is \<open>None\<close> or a constructor of
  its own; an error of the code is a value of a sum or datatype. Mutable state is a record that is passed
  along. What a phase takes from code outside the modelled parts is an argument: the resolver of spans, the
  environment of a match check, the source provider, version matching, the addresses of new mappings.

  \<^bold>\<open>Bounds.\<close> Byte offsets are checked against 32 bits where the code checks them. Cell headers, counts
  and sizes are 64-bit words. The printer compares columns as wrapped 32-bit numbers. Local slots and the
  counts of the ownership checker are unbounded where the code has 32 and 64 bits, and so are the addresses
  and counts of the pools, which stay below the size of a slab and of the address space. The only fuel is in
  \<open>borrow_chain\<close>, which follows a chain of slots: the number of slots is enough, since a chain without
  repetition is no longer. Loops of Core are unrolled any number of times in the path semantics. The
  search of the resolver ends through its own limit of 256 decisions, the removal of packages in
  \<open>has_cycle\<close> by the number of remaining edges. The solver numbers variables and levels without a bound;
  its loops over bindings are partial, \<open>None\<close> when they do not end, and are shown to end from an order on
  variables and, for unification, from the free variables that remain and the size of the types.

  \<^bold>\<open>Not modelled.\<close> The parser, name resolution, inference over syntax trees, lowering to Core and its
  optimisation passes, the analyses of \<^verbatim>\<open>fai-rc\<close> that decide on borrowing and reuse (their results are
  inputs of the modelled insertion), code generation, the strings, arrays, scheduler and input/output of the
  runtime, the translation of trees to documents, manifests and lock files, the query database, the driver,
  editor services and the command line. They are translations of trees that are not modelled, or input and
  output through libraries.
\<close>

end
